(* ===== verification/Prelude.thy ===== *)
theory Prelude
  imports Main "HOL-Library.Word" "HOL-Library.Monad_Syntax" "HOL-Library.Char_ord"
    "HOL-Library.List_Lexorder"
begin

text \<open>
  Shared vocabulary of the development: fixed-width integers, the library's status codes,
  C string comparison, C arrays (memory moves with bounds) and the binary search that the
  library repeats in each of its ordered tables.

  A C computation whose behaviour is undefined (an access outside an object, a read
  through a null pointer, a double free) is the value \<open>None\<close> of an \<open>option\<close>; every status
  code the code returns is an ordinary value.
\<close>

section \<open>Machine integers\<close>

type_synonym u8 = "8 word"
type_synonym u16 = "16 word"
type_synonym u32 = "32 word"
type_synonym u64 = "64 word"
type_synonym bytes = "u8 list"

section \<open>Status codes\<close>

datatype iot_status =
    STATUS_SUCCESS
  | STATUS_INVOKED
  | STATUS_BAD_PARAMETER
  | STATUS_BAD_REQUEST
  | STATUS_EXECUTION_ERROR
  | STATUS_EXISTS
  | STATUS_FILE_OPEN_FAILED
  | STATUS_FULL
  | STATUS_IO_ERROR
  | STATUS_NO_MEMORY
  | STATUS_NO_PERMISSION
  | STATUS_NOT_EXECUTABLE
  | STATUS_NOT_FOUND
  | STATUS_NOT_INITIALIZED
  | STATUS_OUT_OF_RANGE
  | STATUS_PARSE_ERROR
  | STATUS_TIMED_OUT
  | STATUS_TRY_AGAIN
  | STATUS_NOT_SUPPORTED
  | STATUS_FAILURE

text \<open>The value the compiler gives each enumerator; the code compares statuses with \<open>>\<close>.\<close>

primrec status_code :: "iot_status \<Rightarrow> nat" where
  "status_code STATUS_SUCCESS = 0"
| "status_code STATUS_INVOKED = 1"
| "status_code STATUS_BAD_PARAMETER = 2"
| "status_code STATUS_BAD_REQUEST = 3"
| "status_code STATUS_EXECUTION_ERROR = 4"
| "status_code STATUS_EXISTS = 5"
| "status_code STATUS_FILE_OPEN_FAILED = 6"
| "status_code STATUS_FULL = 7"
| "status_code STATUS_IO_ERROR = 8"
| "status_code STATUS_NO_MEMORY = 9"
| "status_code STATUS_NO_PERMISSION = 10"
| "status_code STATUS_NOT_EXECUTABLE = 11"
| "status_code STATUS_NOT_FOUND = 12"
| "status_code STATUS_NOT_INITIALIZED = 13"
| "status_code STATUS_OUT_OF_RANGE = 14"
| "status_code STATUS_PARSE_ERROR = 15"
| "status_code STATUS_TIMED_OUT = 16"
| "status_code STATUS_TRY_AGAIN = 17"
| "status_code STATUS_NOT_SUPPORTED = 18"
| "status_code STATUS_FAILURE = 19"

lemma status_code_inject: "status_code a = status_code b \<Longrightarrow> a = b"
  by (cases a; cases b) simp_all

instantiation iot_status :: linorder
begin

definition less_eq_iot_status :: "iot_status \<Rightarrow> iot_status \<Rightarrow> bool" where
  "less_eq_iot_status a b = (status_code a \<le> status_code b)"

definition less_iot_status :: "iot_status \<Rightarrow> iot_status \<Rightarrow> bool" where
  "less_iot_status a b = (status_code a < status_code b)"

instance
  by standard
    (auto simp: less_eq_iot_status_def less_iot_status_def intro: status_code_inject)

end

lemma status_success_least [simp]: "STATUS_SUCCESS \<le> s"
  by (simp add: less_eq_iot_status_def)

lemma status_le_success [simp]: "s \<le> STATUS_SUCCESS \<longleftrightarrow> s = STATUS_SUCCESS"
  using antisym status_success_least by blast

section \<open>C strings\<close>

text \<open>The longest name, in characters, of everything that has one.\<close>

abbreviation IOT_NAME_MAX_LEN :: nat where "IOT_NAME_MAX_LEN \<equiv> 128"

text \<open>
  A C string is the list of its characters before the terminating NUL. Only the sign of a
  comparison is fixed by the C standard, so the model returns -1, 0 or 1; characters compare
  as unsigned bytes, which is the order \<open>Char_ord\<close> puts on \<open>char\<close>.
\<close>

fun strncmp :: "string \<Rightarrow> string \<Rightarrow> nat \<Rightarrow> int" where
  "strncmp a b 0 = 0"
| "strncmp [] [] (Suc n) = 0"
| "strncmp [] (y # ys) (Suc n) = -1"
| "strncmp (x # xs) [] (Suc n) = 1"
| "strncmp (x # xs) (y # ys) (Suc n) =
     (if x = y then strncmp xs ys n else if x < y then -1 else 1)"

definition tolower :: "char \<Rightarrow> char" where
  "tolower c = (if CHR ''A'' \<le> c \<and> c \<le> CHR ''Z'' then char_of (of_char c + (32::nat)) else c)"

definition strncasecmp :: "string \<Rightarrow> string \<Rightarrow> nat \<Rightarrow> int" where
  "strncasecmp a b n = strncmp (map tolower a) (map tolower b) n"

lemma strncmp_sign: "strncmp a b n = (if take n a = take n b then 0 else if take n a < take n b then -1 else 1)"
  by (induction a b n rule: strncmp.induct) auto

lemma strncmp_eq_0 [simp]: "strncmp a b n = 0 \<longleftrightarrow> take n a = take n b"
  by (simp add: strncmp_sign)

lemma strncmp_gt_0 [simp]: "0 < strncmp a b n \<longleftrightarrow> take n b < take n a"
  by (auto simp: strncmp_sign)

lemma strncmp_lt_0 [simp]: "strncmp a b n < 0 \<longleftrightarrow> take n a < take n b"
  by (simp add: strncmp_sign)

text \<open>What a case-insensitive comparison of at most \<open>n\<close> characters sees of a string.\<close>

definition casekey :: "nat \<Rightarrow> string \<Rightarrow> string" where
  "casekey n s = take n (map tolower s)"

lemma strncasecmp_eq_0 [simp]: "strncasecmp a b n = 0 \<longleftrightarrow> casekey n a = casekey n b"
  by (simp add: strncasecmp_def casekey_def)

lemma strncasecmp_gt_0 [simp]: "0 < strncasecmp a b n \<longleftrightarrow> casekey n b < casekey n a"
  by (simp add: strncasecmp_def casekey_def)

lemma strncasecmp_lt_0 [simp]: "strncasecmp a b n < 0 \<longleftrightarrow> casekey n a < casekey n b"
  by (simp add: strncasecmp_def casekey_def)

lemma casekey_take [simp]: "casekey n (take n s) = casekey n s"
  by (simp add: casekey_def take_map)

section \<open>C arrays\<close>

text \<open>
  \<open>memmove\<close> of \<open>n\<close> elements inside one array: undefined when either range leaves the array.
\<close>

definition memmove :: "nat \<Rightarrow> nat \<Rightarrow> nat \<Rightarrow> 'a list \<Rightarrow> 'a list option" where
  "memmove dst src n xs =
     (if dst + n \<le> length xs \<and> src + n \<le> length xs
      then Some (take dst xs @ take n (drop src xs) @ drop (dst + n) xs) else None)"

definition load :: "'a list \<Rightarrow> nat \<Rightarrow> 'a option" where
  "load xs i = (if i < length xs then Some (xs ! i) else None)"

definition store :: "nat \<Rightarrow> 'a \<Rightarrow> 'a list \<Rightarrow> 'a list option" where
  "store i x xs = (if i < length xs then Some (xs[i := x]) else None)"

definition insert_at :: "nat \<Rightarrow> 'a \<Rightarrow> 'a list \<Rightarrow> 'a list" where
  "insert_at i x xs = take i xs @ x # drop i xs"

definition delete_at :: "nat \<Rightarrow> 'a list \<Rightarrow> 'a list" where
  "delete_at i xs = take i xs @ drop (Suc i) xs"

lemma length_memmove: "memmove dst src n xs = Some ys \<Longrightarrow> length ys = length xs"
  by (auto simp: memmove_def split: if_splits)

lemma length_insert_at [simp]: "length (insert_at i x xs) = Suc (length xs)"
  by (simp add: insert_at_def)

lemma length_delete_at [simp]: "i < length xs \<Longrightarrow> length (delete_at i xs) = length xs - 1"
  by (simp add: delete_at_def)

lemma set_insert_at [simp]: "set (insert_at i x xs) = insert x (set xs)"
proof -
  have "set (take i xs) \<union> set (drop i xs) = set xs"
    by (metis append_take_drop_id set_append)
  then show ?thesis by (auto simp: insert_at_def)
qed

lemma map_insert_at: "map f (insert_at i x xs) = insert_at i (f x) (map f xs)"
  by (simp add: insert_at_def take_map drop_map)

lemma map_delete_at: "map f (delete_at i xs) = delete_at i (map f xs)"
  by (simp add: delete_at_def take_map drop_map)

text \<open>
  The two array idioms of the tables: opening a gap at \<open>i\<close> among the first \<open>c\<close> elements
  and storing into it, and closing the gap at \<open>i\<close>.
\<close>

lemma memmove_open_gap:
  assumes "i \<le> c" and "c < length xs"
  shows "\<exists>ys. memmove (Suc i) i (c - i) xs = Some ys \<and> length ys = length xs \<and>
    take (Suc c) (ys[i := x]) = insert_at i x (take c xs) \<and>
    drop (Suc c) (ys[i := x]) = drop (Suc c) xs"
proof -
  let ?ys = "take (Suc i) xs @ take (c - i) (drop i xs) @ drop (Suc c) xs"
  have mv: "memmove (Suc i) i (c - i) xs = Some ?ys"
    using assms by (simp add: memmove_def)
  have upd: "?ys[i := x] = (take i xs @ [x]) @ take (c - i) (drop i xs) @ drop (Suc c) xs"
    using assms by (simp add: list_update_append take_Suc_conv_app_nth)
  have gap: "take c xs = take i xs @ take (c - i) (drop i xs)"
    using assms by (metis le_add_diff_inverse take_add)
  have len: "length (take i xs @ [x] @ take (c - i) (drop i xs)) = Suc c"
    using assms by simp
  have "take (Suc c) (?ys[i := x]) = take i xs @ [x] @ take (c - i) (drop i xs)"
    using len upd by (metis append_assoc append_eq_conv_conj)
  moreover have "drop (Suc c) (?ys[i := x]) = drop (Suc c) xs"
    using len upd by (metis append_assoc append_eq_conv_conj)
  moreover have "insert_at i x (take c xs) = take i xs @ [x] @ take (c - i) (drop i xs)"
    using assms gap by (simp add: insert_at_def min_def drop_take)
  moreover have "length ?ys = length xs" using assms by simp
  ultimately show ?thesis using mv by metis
qed

lemma memmove_close_gap:
  assumes "i < c" and "c \<le> length xs"
  shows "\<exists>ys. memmove i (Suc i) (c - i - 1) xs = Some ys \<and> length ys = length xs \<and>
    take (c - 1) ys = delete_at i (take c xs) \<and> drop c ys = drop c xs"
proof -
  let ?ys = "take i xs @ take (c - i - 1) (drop (Suc i) xs) @ drop (c - 1) xs"
  have mv: "memmove i (Suc i) (c - i - 1) xs = Some ?ys"
    using assms by (simp add: memmove_def)
  have len: "length (take i xs @ take (c - i - 1) (drop (Suc i) xs)) = c - 1"
    using assms by simp
  have "take (c - 1) ?ys = take i xs @ take (c - i - 1) (drop (Suc i) xs)"
    using len by (metis append_assoc append_eq_conv_conj)
  moreover have "drop c ?ys = drop c xs"
  proof -
    have "drop c ?ys = drop (c - (c - 1)) (drop (c - 1) xs)"
      using len assms by (simp add: drop_append)
    then show ?thesis using assms by simp
  qed
  moreover have "delete_at i (take c xs) = take i xs @ take (c - i - 1) (drop (Suc i) xs)"
    using assms by (simp add: delete_at_def min_def drop_take)
  moreover have "length ?ys = length xs" using assms by simp
  ultimately show ?thesis using mv by metis
qed

section \<open>Binary search for an insertion point\<close>

text \<open>
  The loop that places a new entry in an ordered table; \<open>gt i\<close> says that the new entry
  compares greater than entry \<open>i\<close>.
\<close>

function insert_pos :: "(nat \<Rightarrow> bool) \<Rightarrow> nat \<Rightarrow> nat \<Rightarrow> nat \<Rightarrow> nat" where
  "insert_pos gt cur_idx min_idx max_idx =
     (if 0 < max_idx - min_idx
      then (let cur_idx = (max_idx - min_idx) div 2 + min_idx
            in if gt cur_idx then insert_pos gt (cur_idx + 1) (cur_idx + 1) max_idx
               else insert_pos gt cur_idx min_idx cur_idx)
      else cur_idx)"
  by pat_completeness auto
termination
  by (relation "measure (\<lambda>(gt, cur_idx, min_idx, max_idx). max_idx - min_idx)") auto

declare insert_pos.simps [simp del]

lemma insert_pos_spec:
  assumes "lo \<le> hi" and "lo < hi \<or> cur = lo"
    and "\<And>i j. i \<le> j \<Longrightarrow> j < n \<Longrightarrow> gt j \<Longrightarrow> gt i" and "hi \<le> n"
    and "\<forall>i < lo. gt i" and "\<forall>i. hi \<le> i \<and> i < n \<longrightarrow> \<not> gt i"
  shows "insert_pos gt cur lo hi \<le> n \<and> (\<forall>i < n. gt i \<longleftrightarrow> i < insert_pos gt cur lo hi)"
  using assms
proof (induction gt cur lo hi rule: insert_pos.induct)
  case (1 gt cur lo hi)
  show ?case
  proof (cases "0 < hi - lo")
    case False
    with "1.prems" have "hi = lo" "cur = lo" by auto
    with "1.prems" show ?thesis
      by (subst (1 2) insert_pos.simps) (simp, metis linorder_not_less)
  next
    case True
    define c where "c = (hi - lo) div 2 + lo"
    have c: "lo \<le> c" "c < hi" using True by (auto simp: c_def)
    show ?thesis
    proof (cases "gt c")
      case g: True
      have "\<forall>i < c + 1. gt i"
        using "1.prems"(3)[of _ c] g c "1.prems"(4) by auto
      note IH = "1.IH"(1)[OF True c_def g _ _ "1.prems"(3) "1.prems"(4) this "1.prems"(6)]
      have "insert_pos gt cur lo hi = insert_pos gt (c + 1) (c + 1) hi"
        using True g by (subst insert_pos.simps) (simp add: Let_def c_def)
      with IH c show ?thesis by simp
    next
      case g: False
      have "\<forall>i. c \<le> i \<and> i < n \<longrightarrow> \<not> gt i"
        using "1.prems"(3)[of c] g by blast
      note IH = "1.IH"(2)[OF True c_def g _ _ "1.prems"(3) _ "1.prems"(5) this]
      have "insert_pos gt cur lo hi = insert_pos gt c lo c"
        using True g by (subst insert_pos.simps) (simp add: Let_def c_def)
      moreover have "lo < c \<or> c = lo" "c \<le> n" using c "1.prems"(4) by auto
      ultimately show ?thesis using IH c by simp
    qed
  qed
qed

text \<open>On an ordered table the loop finds the lower bound, and inserting there keeps order.\<close>

lemma insert_pos_lower_bound:
  assumes "sorted ks" and "\<And>i. i < length ks \<Longrightarrow> gt i \<longleftrightarrow> ks ! i < (k :: 'a :: linorder)"
  shows "insert_pos gt 0 0 (length ks) \<le> length ks"
    and "i < length ks \<Longrightarrow> ks ! i < k \<longleftrightarrow> i < insert_pos gt 0 0 (length ks)"
proof -
  have mono: "\<And>i j. i \<le> j \<Longrightarrow> j < length ks \<Longrightarrow> gt j \<Longrightarrow> gt i"
    using assms by (meson order_le_less_trans sorted_nth_mono)
  have "insert_pos gt 0 0 (length ks) \<le> length ks \<and>
      (\<forall>i < length ks. gt i \<longleftrightarrow> i < insert_pos gt 0 0 (length ks))"
    by (rule insert_pos_spec) (use mono in auto)
  then show "insert_pos gt 0 0 (length ks) \<le> length ks"
    and "i < length ks \<Longrightarrow> ks ! i < k \<longleftrightarrow> i < insert_pos gt 0 0 (length ks)"
    using assms(2) by auto
qed

lemma sorted_insert_at:
  assumes "sorted ks" and "p \<le> length ks"
    and "\<And>i. i < length ks \<Longrightarrow> ks ! i < k \<longleftrightarrow> i < p"
  shows "sorted (insert_at p (k :: 'a :: linorder) ks)"
proof -
  have lt: "\<forall>x \<in> set (take p ks). x < k"
    using assms(2,3) by (auto simp: in_set_conv_nth)
  have ge: "\<forall>x \<in> set (drop p ks). k \<le> x"
    using assms(3) by (auto simp: in_set_conv_nth) (metis add.commute leI less_diff_conv not_add_less2)
  have "sorted (take p ks)" "sorted (drop p ks)"
    using assms(1) by (auto simp: sorted_wrt_take sorted_wrt_drop)
  then show ?thesis
    using lt ge by (auto simp: insert_at_def sorted_append) (meson order_less_imp_le order_trans)+
qed

lemma sorted_delete_at: "sorted ks \<Longrightarrow> sorted (delete_at i ks)"
proof -
  assume "sorted ks"
  then have "sorted (take i ks @ drop i ks)" by simp
  then have "sorted (take i ks)" "sorted (drop i ks)"
    "\<forall>x \<in> set (take i ks). \<forall>y \<in> set (drop i ks). x \<le> y"
    unfolding sorted_append by blast+
  moreover have "drop (Suc i) ks = tl (drop i ks)" by (simp add: drop_Suc tl_drop)
  ultimately show ?thesis
    unfolding delete_at_def sorted_append
    by (metis list.set_sel(2) sorted_tl tl_Nil)
qed

end
