(* ===== verification/Checksum.thy ===== *)
theory Checksum
  imports Prelude
begin

text \<open>
  File checksums, \<open>src/src/api/checksum/\<close>: the table driven CRC-32 of
  \<open>iot_checksum_crc32.c\<close>, the loop that reads a file in pieces of at most 1024 bytes, and the
  dispatch on the algorithm in \<open>iot_checksum.c\<close>.

  \<open>os_file_read\<close> belongs to the OS abstraction library and is a parameter: it maps a file
  state and a byte count to the bytes delivered and the next file state.
\<close>

section \<open>The code\<close>

definition crc32_tab :: "u32 list" where
  "crc32_tab = [
     0x00000000, 0x77073096, 0xee0e612c, 0x990951ba, 0x076dc419, 0x706af48f,
     0xe963a535, 0x9e6495a3, 0x0edb8832, 0x79dcb8a4, 0xe0d5e91e, 0x97d2d988,
     0x09b64c2b, 0x7eb17cbd, 0xe7b82d07, 0x90bf1d91, 0x1db71064, 0x6ab020f2,
     0xf3b97148, 0x84be41de, 0x1adad47d, 0x6ddde4eb, 0xf4d4b551, 0x83d385c7,
     0x136c9856, 0x646ba8c0, 0xfd62f97a, 0x8a65c9ec, 0x14015c4f, 0x63066cd9,
     0xfa0f3d63, 0x8d080df5, 0x3b6e20c8, 0x4c69105e, 0xd56041e4, 0xa2677172,
     0x3c03e4d1, 0x4b04d447, 0xd20d85fd, 0xa50ab56b, 0x35b5a8fa, 0x42b2986c,
     0xdbbbc9d6, 0xacbcf940, 0x32d86ce3, 0x45df5c75, 0xdcd60dcf, 0xabd13d59,
     0x26d930ac, 0x51de003a, 0xc8d75180, 0xbfd06116, 0x21b4f4b5, 0x56b3c423,
     0xcfba9599, 0xb8bda50f, 0x2802b89e, 0x5f058808, 0xc60cd9b2, 0xb10be924,
     0x2f6f7c87, 0x58684c11, 0xc1611dab, 0xb6662d3d, 0x76dc4190, 0x01db7106,
     0x98d220bc, 0xefd5102a, 0x71b18589, 0x06b6b51f, 0x9fbfe4a5, 0xe8b8d433,
     0x7807c9a2, 0x0f00f934, 0x9609a88e, 0xe10e9818, 0x7f6a0dbb, 0x086d3d2d,
     0x91646c97, 0xe6635c01, 0x6b6b51f4, 0x1c6c6162, 0x856530d8, 0xf262004e,
     0x6c0695ed, 0x1b01a57b, 0x8208f4c1, 0xf50fc457, 0x65b0d9c6, 0x12b7e950,
     0x8bbeb8ea, 0xfcb9887c, 0x62dd1ddf, 0x15da2d49, 0x8cd37cf3, 0xfbd44c65,
     0x4db26158, 0x3ab551ce, 0xa3bc0074, 0xd4bb30e2, 0x4adfa541, 0x3dd895d7,
     0xa4d1c46d, 0xd3d6f4fb, 0x4369e96a, 0x346ed9fc, 0xad678846, 0xda60b8d0,
     0x44042d73, 0x33031de5, 0xaa0a4c5f, 0xdd0d7cc9, 0x5005713c, 0x270241aa,
     0xbe0b1010, 0xc90c2086, 0x5768b525, 0x206f85b3, 0xb966d409, 0xce61e49f,
     0x5edef90e, 0x29d9c998, 0xb0d09822, 0xc7d7a8b4, 0x59b33d17, 0x2eb40d81,
     0xb7bd5c3b, 0xc0ba6cad, 0xedb88320, 0x9abfb3b6, 0x03b6e20c, 0x74b1d29a,
     0xead54739, 0x9dd277af, 0x04db2615, 0x73dc1683, 0xe3630b12, 0x94643b84,
     0x0d6d6a3e, 0x7a6a5aa8, 0xe40ecf0b, 0x9309ff9d, 0x0a00ae27, 0x7d079eb1,
     0xf00f9344, 0x8708a3d2, 0x1e01f268, 0x6906c2fe, 0xf762575d, 0x806567cb,
     0x196c3671, 0x6e6b06e7, 0xfed41b76, 0x89d32be0, 0x10da7a5a, 0x67dd4acc,
     0xf9b9df6f, 0x8ebeeff9, 0x17b7be43, 0x60b08ed5, 0xd6d6a3e8, 0xa1d1937e,
     0x38d8c2c4, 0x4fdff252, 0xd1bb67f1, 0xa6bc5767, 0x3fb506dd, 0x48b2364b,
     0xd80d2bda, 0xaf0a1b4c, 0x36034af6, 0x41047a60, 0xdf60efc3, 0xa867df55,
     0x316e8eef, 0x4669be79, 0xcb61b38c, 0xbc66831a, 0x256fd2a0, 0x5268e236,
     0xcc0c7795, 0xbb0b4703, 0x220216b9, 0x5505262f, 0xc5ba3bbe, 0xb2bd0b28,
     0x2bb45a92, 0x5cb36a04, 0xc2d7ffa7, 0xb5d0cf31, 0x2cd99e8b, 0x5bdeae1d,
     0x9b64c2b0, 0xec63f226, 0x756aa39c, 0x026d930a, 0x9c0906a9, 0xeb0e363f,
     0x72076785, 0x05005713, 0x95bf4a82, 0xe2b87a14, 0x7bb12bae, 0x0cb61b38,
     0x92d28e9b, 0xe5d5be0d, 0x7cdcefb7, 0x0bdbdf21, 0x86d3d2d4, 0xf1d4e242,
     0x68ddb3f8, 0x1fda836e, 0x81be16cd, 0xf6b9265b, 0x6fb077e1, 0x18b74777,
     0x88085ae6, 0xff0f6a70, 0x66063bca, 0x11010b5c, 0x8f659eff, 0xf862ae69,
     0x616bffd3, 0x166ccf45, 0xa00ae278, 0xd70dd2ee, 0x4e048354, 0x3903b3c2,
     0xa7672661, 0xd06016f7, 0x4969474d, 0x3e6e77db, 0xaed16a4a, 0xd9d65adc,
     0x40df0b66, 0x37d83bf0, 0xa9bcae53, 0xdebb9ec5, 0x47b2cf7f, 0x30b5ffe9,
     0xbdbdf21c, 0xcabac28a, 0x53b39330, 0x24b4a3a6, 0xbad03605, 0xcdd70693,
     0x54de5729, 0x23d967bf, 0xb3667a2e, 0xc4614ab8, 0x5d681b02, 0x2a6f2b94,
     0xb40bbe37, 0xc30c8ea1, 0x5a05df1b, 0x2d02ef8d]"

text \<open>One turn of \<open>while (size--)\<close>, and the whole function.\<close>

definition crc32_step :: "u32 \<Rightarrow> u8 \<Rightarrow> u32" where
  "crc32_step crc p = xor (crc32_tab ! unat (and (xor crc (ucast p)) 0xFF)) (drop_bit 8 crc)"

definition iot_checksum_crc32_calculate :: "u32 \<Rightarrow> bytes \<Rightarrow> u32" where
  "iot_checksum_crc32_calculate crc buf = xor (foldl crc32_step (not crc) buf) (not 0)"

partial_function (option) crc32_file_loop ::
    "('f \<Rightarrow> nat \<Rightarrow> bytes \<times> 'f) \<Rightarrow> 'f \<Rightarrow> u32 \<Rightarrow> (u32 \<times> 'f) option" where
  "crc32_file_loop os_file_read file crc32 =
     (case os_file_read file 1024 of (data, file') \<Rightarrow>
        if data = [] then Some (crc32, file')
        else crc32_file_loop os_file_read file' (iot_checksum_crc32_calculate crc32 data))"

text \<open>The result pairs the status with what was stored through \<open>checksum\<close>, if anything was.\<close>

definition iot_checksum_crc32_file_get ::
    "('f \<Rightarrow> nat \<Rightarrow> bytes \<times> 'f) \<Rightarrow> 'f option \<Rightarrow> bool \<Rightarrow> (iot_status \<times> u64 option) option" where
  "iot_checksum_crc32_file_get os_file_read file checksum =
     (case file of
        Some f \<Rightarrow>
          if checksum
          then do {
            (crc32, _) \<leftarrow> crc32_file_loop os_file_read f 0;
            Some (if crc32 \<noteq> 0 then (STATUS_SUCCESS, Some (ucast crc32)) else (STATUS_FAILURE, None))
          }
          else Some (STATUS_BAD_PARAMETER, None)
      | None \<Rightarrow> Some (STATUS_BAD_PARAMETER, None))"

datatype iot_checksum_type = CHECKSUM_TYPE_CRC32 | CHECKSUM_TYPE_MD5 | CHECKSUM_TYPE_SHA256

definition iot_checksum_file_get ::
    "('f \<Rightarrow> nat \<Rightarrow> bytes \<times> 'f) \<Rightarrow> 'f option \<Rightarrow> iot_checksum_type \<Rightarrow> bool \<Rightarrow>
     (iot_status \<times> u64 option) option" where
  "iot_checksum_file_get os_file_read file ty checksum =
     (if file \<noteq> None \<and> checksum
      then (case ty of
              CHECKSUM_TYPE_CRC32 \<Rightarrow> iot_checksum_crc32_file_get os_file_read file checksum
            | CHECKSUM_TYPE_MD5 \<Rightarrow> Some (STATUS_BAD_PARAMETER, None)
            | CHECKSUM_TYPE_SHA256 \<Rightarrow> Some (STATUS_BAD_PARAMETER, None))
      else Some (STATUS_BAD_PARAMETER, None))"

section \<open>The polynomial division the table stands for\<close>

definition crc_shift :: "u32 \<Rightarrow> u32" where
  "crc_shift r = (if bit r 0 then xor (drop_bit 1 r) 0xedb88320 else drop_bit 1 r)"

definition crc_byte :: "u32 \<Rightarrow> u8 \<Rightarrow> u32" where
  "crc_byte r b = (crc_shift ^^ 8) (xor r (ucast b))"

definition crc32_of :: "bytes \<Rightarrow> u32" where
  "crc32_of xs = not (foldl crc_byte (not 0) xs)"

lemma crc_shift_xor: "crc_shift (xor a b) = xor (crc_shift a) (crc_shift b)"
  by (auto simp: crc_shift_def bit_simps ac_simps)

lemma crc_shifts_xor: "(crc_shift ^^ n) (xor a b) = xor ((crc_shift ^^ n) a) ((crc_shift ^^ n) b)"
  by (induction n) (simp_all add: crc_shift_xor)

lemma crc_shifts_high: "take_bit n a = 0 \<Longrightarrow> (crc_shift ^^ n) a = drop_bit n a"
proof (induction n arbitrary: a)
  case (Suc n)
  have "bit (take_bit (Suc n) a) 0 = bit a 0" by (simp add: bit_simps)
  then have "\<not> bit a 0" using Suc.prems by simp
  moreover have "take_bit n (drop_bit 1 a) = 0"
    using Suc.prems by (simp add: take_bit_drop_bit)
  ultimately show ?case
    using Suc.IH by (simp add: crc_shift_def funpow_Suc_right drop_bit_Suc drop_bit_drop_bit del: funpow.simps)
qed simp

definition crc_entry :: "nat \<Rightarrow> u32" where
  "crc_entry i = (crc_shift ^^ 8) (of_nat i)"

text \<open>Evaluation rules on numerals, so that each table entry is computed once.\<close>

lemma crc_shift_numeral:
  "crc_shift (numeral k) =
     (if odd (numeral k :: u32) then xor (drop_bit 1 (numeral k)) 0xedb88320
      else drop_bit 1 (numeral k))"
  "crc_shift 1 = 0xedb88320" "crc_shift 0 = 0"
  by (simp_all add: crc_shift_def bit_0)

lemma crc_entry_shifts:
  "crc_entry i = crc_shift (crc_shift (crc_shift (crc_shift
     (crc_shift (crc_shift (crc_shift (crc_shift (of_nat i))))))))"
  by (simp add: crc_entry_def numeral_eq_Suc)

lemma crc_entry_numeral:
  "crc_entry (numeral k) =
     crc_shift (crc_shift (crc_shift (crc_shift (crc_shift (crc_shift (crc_shift (crc_shift (numeral k))))))))"
  "crc_entry (Suc 0) =
     crc_shift (crc_shift (crc_shift (crc_shift (crc_shift (crc_shift (crc_shift (crc_shift 1)))))))"
  "crc_entry 0 = 0"
  by (simp_all add: crc_entry_shifts crc_shift_numeral(3))

lemma crc32_tab_entries: "crc32_tab = map crc_entry [0..<256]"
proof -
  have "[0..<256] = 0 # Suc 0 # [2..<256]" by (simp add: upt_conv_Cons)
  then show ?thesis
    by (simp add: crc32_tab_def crc_entry_numeral crc_shift_numeral)
qed

lemma crc32_step_byte: "crc32_step crc p = crc_byte crc p"
proof -
  let ?x = "xor crc (ucast p)"
  let ?hi = "and ?x (not 0xFF)"
  have mask: "(0xFF :: u32) = mask 8" by (simp add: mask_eq_exp_minus_1)
  have split: "?x = xor (and ?x 0xFF) ?hi"
    by (rule bit_word_eqI) (auto simp: bit_simps)
  have "take_bit 8 ?hi = 0"
    unfolding mask by (rule bit_word_eqI) (auto simp: bit_simps)
  then have "(crc_shift ^^ 8) ?hi = drop_bit 8 ?hi" by (rule crc_shifts_high)
  also have "drop_bit 8 ?hi = drop_bit 8 crc"
    unfolding mask by (rule bit_word_eqI) (auto simp: bit_simps dest: bit_imp_le_length)
  finally have hi: "(crc_shift ^^ 8) ?hi = drop_bit 8 crc" .
  have "and ?x 0xFF \<le> 0xFF" by (rule word_and_le1)
  then have lt: "unat (and ?x 0xFF) < 256" by (simp add: word_le_nat_alt)
  then have lo: "crc32_tab ! unat (and ?x 0xFF) = (crc_shift ^^ 8) (and ?x 0xFF)"
    by (simp add: crc32_tab_entries crc_entry_def)
  have "crc_byte crc p = (crc_shift ^^ 8) (xor (and ?x 0xFF) ?hi)"
    unfolding crc_byte_def by (subst split) simp
  then show ?thesis
    unfolding crc_shifts_xor hi crc32_step_def lo by simp
qed

lemma crc32_calculate: "iot_checksum_crc32_calculate crc xs = not (foldl crc_byte (not crc) xs)"
proof -
  have "foldl crc32_step c xs = foldl crc_byte c xs" for c
    by (induction xs arbitrary: c) (simp_all add: crc32_step_byte)
  then show ?thesis by (simp add: iot_checksum_crc32_calculate_def)
qed

lemma crc32_calculate_append:
  "iot_checksum_crc32_calculate (iot_checksum_crc32_calculate crc xs) ys =
     iot_checksum_crc32_calculate crc (xs @ ys)"
  by (simp add: crc32_calculate)

section \<open>Reading a file\<close>

text \<open>
  What the code relies on of \<open>os_file_read\<close>: a call for \<open>n > 0\<close> bytes delivers a prefix of
  what is left, of at most \<open>n\<close> bytes, and nothing only at the end of the file.
\<close>

definition reads_content :: "('f \<Rightarrow> nat \<Rightarrow> bytes \<times> 'f) \<Rightarrow> ('f \<Rightarrow> bytes) \<Rightarrow> bool" where
  "reads_content os_file_read content \<longleftrightarrow>
     (\<forall>f n. 0 < n \<longrightarrow>
        content f = fst (os_file_read f n) @ content (snd (os_file_read f n))
        \<and> length (fst (os_file_read f n)) \<le> n
        \<and> (fst (os_file_read f n) = [] \<longrightarrow> content f = []))"

lemma crc32_file_loop_content:
  assumes "reads_content os_file_read content"
  shows "\<exists>f'. crc32_file_loop os_file_read f crc =
    Some (iot_checksum_crc32_calculate crc (content f), f')"
proof (induction "length (content f)" arbitrary: f crc rule: less_induct)
  case less
  obtain d f' where rd: "os_file_read f 1024 = (d, f')" by fastforce
  have c: "content f = d @ content f'" and e: "d = [] \<Longrightarrow> content f = []"
    using assms rd unfolding reads_content_def by (metis fst_conv snd_conv zero_less_numeral)+
  show ?case
  proof (cases "d = []")
    case True
    then show ?thesis
      using e rd by (subst crc32_file_loop.simps) (simp add: crc32_calculate)
  next
    case False
    then have "length (content f') < length (content f)" using c by simp
    from less[OF this, of "iot_checksum_crc32_calculate crc d"] show ?thesis
      using False rd c by (subst crc32_file_loop.simps) (auto simp: crc32_calculate_append)
  qed
qed

section \<open>Properties\<close>

text \<open>
  C27: The table driven routine is CRC-32: it computes the remainder of the bytes by the
  polynomial 0xedb88320, one bit at a time, starting from and complemented with all ones,
  and it can be resumed: the checksum of a concatenation is the checksum of the second part
  started from that of the first.
\<close>

theorem crc32_is_polynomial_division:
  "iot_checksum_crc32_calculate 0 xs = crc32_of xs \<and>
   iot_checksum_crc32_calculate (iot_checksum_crc32_calculate crc xs) ys =
     iot_checksum_crc32_calculate crc (xs @ ys)"
  by (simp add: crc32_calculate crc32_of_def)

text \<open>
  C28: Checksum of a file: however the operating system cuts the file into reads, the loop
  ends and the CRC-32 of the whole content is stored; a file whose CRC-32 is zero (an empty
  one, for instance) is reported as a failure and nothing is stored.
\<close>

theorem checksum_of_file:
  assumes "reads_content os_file_read content"
  shows "iot_checksum_file_get os_file_read (Some f) CHECKSUM_TYPE_CRC32 True =
    Some (if crc32_of (content f) = 0 then (STATUS_FAILURE, None)
          else (STATUS_SUCCESS, Some (ucast (crc32_of (content f)))))"
  using crc32_file_loop_content[OF assms, of f 0]
  by (auto simp: iot_checksum_file_get_def iot_checksum_crc32_file_get_def crc32_calculate
      crc32_of_def)

text \<open>A reader over the bytes left, and a file of one byte.\<close>

theorem checksum_of_file_witness:
  "iot_checksum_file_get (\<lambda>f n. (take n f, drop n f)) (Some [0x61]) CHECKSUM_TYPE_CRC32 True =
    Some (if crc32_of [0x61] = 0 then (STATUS_FAILURE, None)
          else (STATUS_SUCCESS, Some (ucast (crc32_of [0x61]))))"
  by (rule checksum_of_file[where content = "\<lambda>f. f"]) (simp add: reads_content_def)

end
