(* ===== verification/Floats.thy ===== *)
theory Floats
  imports Prelude
begin

text \<open>
  The part of IEEE 754 arithmetic the value conversions of \<open>src/src/api/iot_common.c\<close> use:
  decoding a bit pattern, comparing, truncating towards zero, and rounding to nearest even.
  A format is given by its fraction width \<open>mb\<close> and exponent width \<open>eb\<close>; C \<open>float\<close> is (23, 8)
  and \<open>double\<close> is (52, 11). A bit pattern is a natural number below \<open>2 ^ (mb + eb + 1)\<close>.
\<close>

section \<open>Values and bit patterns\<close>

text \<open>\<open>FFin s m e\<close> is the number \<open>m * 2 ^ e\<close>, negative when \<open>s\<close>.\<close>

datatype fp = FNaN | FInf bool | FFin bool nat int

definition fp_emin :: "nat \<Rightarrow> nat \<Rightarrow> int" where
  "fp_emin mb eb = 2 - 2 ^ (eb - 1) - int mb"

definition fp_decode :: "nat \<Rightarrow> nat \<Rightarrow> nat \<Rightarrow> fp" where
  "fp_decode mb eb x =
     (let s = odd (x div 2 ^ (mb + eb)); ex = x div 2 ^ mb mod 2 ^ eb; fr = x mod 2 ^ mb
      in if ex = 2 ^ eb - 1 then (if fr = 0 then FInf s else FNaN)
         else if ex = 0 then FFin s fr (fp_emin mb eb)
         else FFin s (fr + 2 ^ mb) (fp_emin mb eb + int ex - 1))"

fun bit_length :: "nat \<Rightarrow> nat" where
  "bit_length n = (if n = 0 then 0 else Suc (bit_length (n div 2)))"

declare bit_length.simps [simp del]

definition round_half_even :: "nat \<Rightarrow> nat \<Rightarrow> nat" where
  "round_half_even m k =
     (let q = m div 2 ^ k; r = m mod 2 ^ k
      in if 2 * r < 2 ^ k \<or> (2 * r = 2 ^ k \<and> even q) then q else Suc q)"

text \<open>The bit pattern nearest to \<open>m * 2 ^ e\<close>; what is too large becomes an infinity.\<close>

definition fp_round :: "nat \<Rightarrow> nat \<Rightarrow> bool \<Rightarrow> nat \<Rightarrow> int \<Rightarrow> nat" where
  "fp_round mb eb s m e =
     (let e' = max (fp_emin mb eb) (e + int (bit_length m) - int (mb + 1));
          m' = (if e' \<le> e then m * 2 ^ nat (e - e') else round_half_even m (nat (e' - e)));
          mag = (if m = 0 then 0 else nat (e' - fp_emin mb eb) * 2 ^ mb + m')
      in (if s then 2 ^ (mb + eb) else 0) + min mag ((2 ^ eb - 1) * 2 ^ mb))"

text \<open>Conversion between formats; the bits of a NaN result are not specified beyond NaN.\<close>

definition fp_convert :: "nat \<Rightarrow> nat \<Rightarrow> fp \<Rightarrow> nat" where
  "fp_convert mb eb x =
     (case x of
        FNaN \<Rightarrow> (2 ^ eb - 1) * 2 ^ mb + 2 ^ (mb - 1)
      | FInf s \<Rightarrow> (if s then 2 ^ (mb + eb) else 0) + (2 ^ eb - 1) * 2 ^ mb
      | FFin s m e \<Rightarrow> fp_round mb eb s m e)"

definition fp_of_int :: "nat \<Rightarrow> nat \<Rightarrow> int \<Rightarrow> nat" where
  "fp_of_int mb eb i = fp_round mb eb (i < 0) (nat \<bar>i\<bar>) 0"

section \<open>Operations on values\<close>

definition signed_mant :: "bool \<Rightarrow> nat \<Rightarrow> int" where
  "signed_mant s m = (if s then - int m else int m)"

text \<open>The comparison \<open><=\<close>: false as soon as an operand is NaN.\<close>

fun fp_le :: "fp \<Rightarrow> fp \<Rightarrow> bool" where
  "fp_le FNaN y = False"
| "fp_le (FInf s) FNaN = False"
| "fp_le (FInf s) (FInf t) = (s \<or> \<not> t)"
| "fp_le (FInf s) (FFin t n f) = s"
| "fp_le (FFin s m e) FNaN = False"
| "fp_le (FFin s m e) (FInf t) = (\<not> t)"
| "fp_le (FFin s m e) (FFin t n f) =
     (signed_mant s m * 2 ^ nat (e - min e f) \<le> signed_mant t n * 2 ^ nat (f - min e f))"

text \<open>Truncation towards zero.\<close>

fun fp_trunc :: "fp \<Rightarrow> int option" where
  "fp_trunc FNaN = None"
| "fp_trunc (FInf s) = None"
| "fp_trunc (FFin s m e) =
     Some (signed_mant s (if 0 \<le> e then m * 2 ^ nat e else m div 2 ^ nat (- e)))"

text \<open>A C cast to an integer type with the given bounds; undefined outside them.\<close>

definition fp_to_int :: "int \<Rightarrow> int \<Rightarrow> fp \<Rightarrow> int option" where
  "fp_to_int lo hi x = do { i \<leftarrow> fp_trunc x; if lo \<le> i \<and> i \<le> hi then Some i else None }"

text \<open>What is left of a value after truncation; the C subtraction is exact.\<close>

fun fp_frac :: "fp \<Rightarrow> fp" where
  "fp_frac (FFin s m e) = (if 0 \<le> e then FFin s 0 0 else FFin s (m mod 2 ^ nat (- e)) e)"
| "fp_frac x = FNaN"

section \<open>Lemmas\<close>

lemma bit_length_bounds: "0 < n \<Longrightarrow> 2 ^ (bit_length n - 1) \<le> n \<and> n < 2 ^ bit_length n"
proof (induction n rule: bit_length.induct)
  case (1 n)
  show ?case
  proof (cases "n div 2 = 0")
    case True
    then have "n = 1" using 1 by linarith
    then show ?thesis by (simp add: bit_length.simps)
  next
    case False
    with 1 have IH: "2 ^ (bit_length (n div 2) - 1) \<le> n div 2" "n div 2 < 2 ^ bit_length (n div 2)"
      by auto
    obtain k where k: "bit_length (n div 2) = Suc k"
      using False by (subst (asm) bit_length.simps) (auto simp: bit_length.simps[of "n div 2"])
    then have "bit_length n = Suc (Suc k)" using 1 by (subst bit_length.simps) simp
    then show ?thesis using IH k by auto
  qed
qed

lemma bit_length_le: "n < 2 ^ k \<Longrightarrow> bit_length n \<le> k"
proof (cases "n = 0")
  case False
  assume "n < 2 ^ k"
  then have "2 ^ (bit_length n - 1) < (2 :: nat) ^ k"
    using bit_length_bounds[of n] False by linarith
  then have "bit_length n - 1 < k" by simp
  then show ?thesis by simp
qed (simp add: bit_length.simps)

text \<open>Rounding is exact on integers that fit the precision, and decoding undoes it.\<close>

lemma fp_decode_fields:
  assumes "ex < 2 ^ eb" and "fr < 2 ^ mb"
  shows "fp_decode mb eb ((if s then 2 ^ (mb + eb) else 0) + ex * 2 ^ mb + fr) =
    (if ex = 2 ^ eb - 1 then (if fr = 0 then FInf s else FNaN)
     else if ex = 0 then FFin s fr (fp_emin mb eb)
     else FFin s (fr + 2 ^ mb) (fp_emin mb eb + int ex - 1))"
proof -
  let ?x = "(if s then 2 ^ (mb + eb) else 0) + ex * 2 ^ mb + fr"
  have x: "?x = fr + 2 ^ mb * (ex + 2 ^ eb * of_bool s)"
    by (simp add: algebra_simps power_add)
  have lo: "?x div 2 ^ mb = ex + 2 ^ eb * of_bool s" "?x mod 2 ^ mb = fr"
    unfolding x using assms(2) by simp_all
  have "?x div 2 ^ (mb + eb) = ?x div 2 ^ mb div 2 ^ eb"
    by (simp only: power_add div_mult2_eq)
  also have "\<dots> = of_bool s"
    unfolding lo using assms(1) by simp
  finally show ?thesis
    using lo assms(1) by (simp add: fp_decode_def)
qed

lemma fp_trunc_of_int:
  assumes "nat \<bar>i\<bar> < 2 ^ (mb + 1)" and "mb + 2 \<le> 2 ^ (eb - 1)"
  shows "fp_trunc (fp_decode mb eb (fp_of_int mb eb i)) = Some i"
proof (cases "i = 0")
  case True
  have "fp_of_int mb eb 0 = (if False then 2 ^ (mb + eb) else 0) + 0 * 2 ^ mb + 0"
    by (simp add: fp_of_int_def fp_round_def Let_def)
  moreover have "eb \<noteq> 0" using assms(2) by (cases eb) auto
  then have "1 < (2 :: nat) ^ eb" using one_less_power[of "2 :: nat" eb] by simp
  ultimately show ?thesis
    using True fp_decode_fields[of 0 eb 0 mb False] by (simp add: signed_mant_def)
next
  case False
  define m where "m = nat \<bar>i\<bar>"
  define L where "L = bit_length m"
  have m0: "0 < m" using False by (simp add: m_def)
  have L: "2 ^ (L - 1) \<le> m" "m < 2 ^ L"
    using bit_length_bounds[OF m0] by (simp_all add: L_def)
  have L1: "0 < L" "L \<le> mb + 1"
    using L(2) m0 bit_length_le[of m "mb + 1"] assms(1)
    by (auto simp: L_def m_def intro: gr0I)
  define k where "k = mb + 1 - L"
  define B :: nat where "B = 2 ^ (eb - 1)"
  define ex where "ex = B - 2 + L"
  define fr where "fr = m * 2 ^ k - 2 ^ mb"
  have B: "mb + 2 \<le> B" "2 ^ eb = 2 * B" "(2 :: int) ^ (eb - 1) = int B"
  proof -
    have "eb = Suc (eb - 1)" using assms(2) by (cases eb) auto
    then show "(2 :: nat) ^ eb = 2 * B" unfolding B_def by (metis power_Suc)
  qed (use assms(2) in \<open>simp_all add: B_def\<close>)
  have ex: "0 < ex" "ex < 2 ^ eb - 1" using B L1 by (auto simp: ex_def)
  have "2 ^ (L - 1) * 2 ^ k \<le> m * 2 ^ k" "m * 2 ^ k < 2 ^ L * 2 ^ k"
    using L by simp_all
  moreover have "L - 1 + k = mb" "L + k = mb + 1" using L1 by (auto simp: k_def)
  ultimately have m': "2 ^ mb \<le> m * 2 ^ k" "m * 2 ^ k < 2 ^ (mb + 1)"
    by (metis power_add)+
  then have fr: "fr < 2 ^ mb" "m * 2 ^ k = fr + 2 ^ mb" by (auto simp: fr_def)
  have em: "fp_emin mb eb = 2 - int B - int mb"
    by (simp only: fp_emin_def B(3))
  have e': "max (fp_emin mb eb) (int L - int (mb + 1)) = int L - int (mb + 1)"
    using B L1 by (simp add: em)
  have d: "nat (int L - int (mb + 1) - fp_emin mb eb) = ex - 1"
    using B L1 by (simp add: em ex_def)
  have k: "nat (1 + int mb - int L) = k" using L1 by (simp add: k_def)
  have le0: "int L - int (mb + 1) \<le> 0" using L1 by simp
  have mag: "(ex - Suc 0) * 2 ^ mb + m * 2 ^ k = ex * 2 ^ mb + fr"
    using ex(1) fr(2) by (cases ex) simp_all
  have "(ex + 1) * 2 ^ mb \<le> (2 ^ eb - 1) * 2 ^ mb"
    using ex(2) by (intro mult_right_mono) auto
  then have cap: "min (ex * 2 ^ mb + fr) ((2 ^ eb - Suc 0) * 2 ^ mb) = ex * 2 ^ mb + fr"
    using fr(1) by simp
  have "fp_of_int mb eb i = (if i < 0 then 2 ^ (mb + eb) else 0) + ex * 2 ^ mb + fr"
    unfolding fp_of_int_def fp_round_def Let_def m_def[symmetric] L_def[symmetric] add_0 e' d
    using le0 m0 by (simp add: k mag cap del: of_nat_add)
  then have "fp_decode mb eb (fp_of_int mb eb i) = FFin (i < 0) (m * 2 ^ k) (int L - int (mb + 1))"
    using fp_decode_fields[of ex eb fr mb "i < 0"] ex fr B L1
    by (simp add: em ex_def)
  then show ?thesis
    using le0 k by (auto simp: signed_mant_def m_def)
qed

lemma fp_round_less: "fp_round mb eb s m e < 2 ^ (mb + eb + 1)"
proof -
  have "(2 ^ eb - 1) * 2 ^ mb < (2 :: nat) ^ (mb + eb)"
    by (simp add: power_add diff_mult_distrib mult.commute)
  then have "min k ((2 ^ eb - 1) * 2 ^ mb) < (2 :: nat) ^ (mb + eb)" for k
    by (metis le_less_trans min.cobounded2)
  then obtain q where "q < (2 :: nat) ^ (mb + eb)"
      and r: "fp_round mb eb s m e = (if s then 2 ^ (mb + eb) else 0) + q"
    unfolding fp_round_def Let_def by blast
  moreover have "(2 :: nat) ^ (mb + eb + 1) = 2 ^ (mb + eb) + 2 ^ (mb + eb)" by simp
  moreover have "(if s then 2 ^ (mb + eb) else 0) \<le> (2 :: nat) ^ (mb + eb)" by simp
  ultimately show ?thesis by linarith
qed

lemma fp_of_int_less: "fp_of_int mb eb i < 2 ^ (mb + eb + 1)"
  unfolding fp_of_int_def by (rule fp_round_less)

end
