(* ===== verification/Data.thy ===== *)
theory Data
  imports Prelude Floats
begin

text \<open>
  The data model shared by every component (\<open>src/src/api/shared/iot_types.h\<close>,
  \<open>src/src/api/public/iot.h\<close>): the heap, \<open>struct iot_location\<close> and \<open>struct iot_data\<close>.

  A pointer is a 64-bit address and NULL is 0. The heap maps addresses to live objects; an
  access through any other address is undefined (\<open>None\<close>). \<open>allocator\<close> lists what the allocator
  will answer to the coming requests: \<open>None\<close> (or an address that is 0 or in use, which no
  allocator returns) stands for an allocation failure, so every behaviour of \<open>malloc\<close> is
  some such list, failures at any point included.
\<close>

section \<open>The heap\<close>

type_synonym ptr = u64

abbreviation NULL :: ptr where "NULL \<equiv> 0"

record iot_location =
  accuracy :: u64
  altitude :: u64
  altitude_accuracy :: u64
  heading :: u64
  flags :: u32
  latitude :: u64
  longitude :: u64
  source :: u32
  speed :: u64
  tag :: ptr

datatype block = Bytes bytes | Loc iot_location

record heap =
  cells :: "ptr \<Rightarrow> block option"
  allocator :: "ptr option list"

definition empty_heap :: heap where
  "empty_heap = \<lparr>cells = Map.empty, allocator = []\<rparr>"

text \<open>
  Allocation of an object that the caller fills at once with \<open>b\<close> (in the code every
  \<open>os_malloc\<close> or \<open>os_realloc\<close> of a value is followed by the copy that fills it).
\<close>

definition os_malloc :: "block \<Rightarrow> heap \<Rightarrow> ptr \<times> heap" where
  "os_malloc b h =
     (case allocator h of
        [] \<Rightarrow> (NULL, h)
      | a # r \<Rightarrow>
          (case a of
             Some p \<Rightarrow>
               if p = NULL \<or> cells h p \<noteq> None then (NULL, h\<lparr>allocator := r\<rparr>)
               else (p, h\<lparr>allocator := r, cells := (cells h)(p \<mapsto> b)\<rparr>)
           | None \<Rightarrow> (NULL, h\<lparr>allocator := r\<rparr>)))"

text \<open>
  Allocation of an array or a name that the model keeps by value: only whether the request
  succeeds matters.
\<close>

definition os_grab :: "heap \<Rightarrow> bool \<times> heap" where
  "os_grab h =
     (case allocator h of
        [] \<Rightarrow> (False, h)
      | a # r \<Rightarrow> (a \<noteq> None \<and> the a \<noteq> NULL \<and> cells h (the a) = None, h\<lparr>allocator := r\<rparr>))"

definition os_free :: "ptr \<Rightarrow> heap \<Rightarrow> heap option" where
  "os_free p h =
     (if p = NULL then Some h
      else if cells h p = None then None
      else Some (h\<lparr>cells := (cells h)(p := None)\<rparr>))"

definition read_bytes :: "ptr \<Rightarrow> heap \<Rightarrow> bytes option" where
  "read_bytes p h =
     (if p = NULL then None else case cells h p of Some (Bytes b) \<Rightarrow> Some b | _ \<Rightarrow> None)"

definition read_location :: "ptr \<Rightarrow> heap \<Rightarrow> iot_location option" where
  "read_location p h =
     (if p = NULL then None else case cells h p of Some (Loc l) \<Rightarrow> Some l | _ \<Rightarrow> None)"

text \<open>A C string: the bytes before the first NUL, which must lie inside the object.\<close>

definition chars_of :: "bytes \<Rightarrow> string" where
  "chars_of b = map (\<lambda>x. char_of (unat x)) b"

definition bytes_of :: "string \<Rightarrow> bytes" where
  "bytes_of s = map (\<lambda>c. of_nat (of_char c)) s"

definition read_string :: "ptr \<Rightarrow> heap \<Rightarrow> string option" where
  "read_string p h = do {
     b \<leftarrow> read_bytes p h;
     if 0 \<in> set b then Some (chars_of (takeWhile (\<lambda>x. x \<noteq> 0) b)) else None
   }"

definition string_block :: "string \<Rightarrow> block" where
  "string_block s = Bytes (bytes_of s @ [0])"

section \<open>Types and values\<close>

datatype iot_type =
    TYPE_NULL | TYPE_BOOL | TYPE_FLOAT32 | TYPE_FLOAT64 | TYPE_INT8 | TYPE_INT16 | TYPE_INT32
  | TYPE_INT64 | TYPE_LOCATION | TYPE_RAW | TYPE_STRING | TYPE_UINT8 | TYPE_UINT16
  | TYPE_UINT32 | TYPE_UINT64

datatype iot_conversion = CONVERSION_NONE | CONVERSION_BASIC | CONVERSION_ADVANCED

text \<open>
  \<open>struct iot_data\<close>: the union occupies 16 bytes, kept as two 64-bit words. Every scalar
  member, \<open>string\<close>, \<open>location\<close> and \<open>raw.length\<close> start at its first byte, so they are the low
  bits of \<open>lo\<close> on a little-endian machine; \<open>raw.ptr\<close> is \<open>hi\<close>. Reading a member other than
  the one last written is therefore modelled as the machine does it.
\<close>

record iot_data =
  lo :: u64
  hi :: u64
  has_value :: bool
  heap_storage :: ptr
  dtype :: iot_type

definition data_zero :: iot_data where
  "data_zero = \<lparr>lo = 0, hi = 0, has_value = False, heap_storage = NULL, dtype = TYPE_NULL\<rparr>"

definition unsigned_member :: "nat \<Rightarrow> iot_data \<Rightarrow> int" where
  "unsigned_member w d = take_bit w (uint (lo d))"

definition signed_member :: "nat \<Rightarrow> iot_data \<Rightarrow> int" where
  "signed_member w d = signed_take_bit (w - 1) (uint (lo d))"

text \<open>Storing into a \<open>w\<close>-bit member leaves the other bytes of the union as they are.\<close>

definition set_member :: "nat \<Rightarrow> int \<Rightarrow> iot_data \<Rightarrow> iot_data" where
  "set_member w i d = d\<lparr>lo := or (take_bit w (word_of_int i)) (push_bit w (drop_bit w (lo d)))\<rparr>"

abbreviation "v_boolean \<equiv> signed_member 32"
abbreviation "v_int8 \<equiv> signed_member 8"
abbreviation "v_int16 \<equiv> signed_member 16"
abbreviation "v_int32 \<equiv> signed_member 32"
abbreviation "v_int64 \<equiv> signed_member 64"
abbreviation "v_uint8 \<equiv> unsigned_member 8"
abbreviation "v_uint16 \<equiv> unsigned_member 16"
abbreviation "v_uint32 \<equiv> unsigned_member 32"
abbreviation "v_uint64 \<equiv> unsigned_member 64"

definition v_float32 :: "iot_data \<Rightarrow> fp" where
  "v_float32 d = fp_decode 23 8 (nat (unsigned_member 32 d))"

definition v_float64 :: "iot_data \<Rightarrow> fp" where
  "v_float64 d = fp_decode 52 11 (nat (unsigned_member 64 d))"

section \<open>Lemmas\<close>

lemma take_bit_set_member:
  assumes "w \<le> 64"
  shows "take_bit w (uint (lo (set_member w i d))) = take_bit w i"
proof -
  have "take_bit w (lo (set_member w i d)) = (take_bit w (word_of_int i) :: u64)"
    by (rule bit_word_eqI) (auto simp: set_member_def bit_simps)
  then have "uint (take_bit w (lo (set_member w i d))) = uint (take_bit w (word_of_int i) :: u64)"
    by simp
  then show ?thesis
    using assms by (simp add: unsigned_take_bit_eq uint_word_of_int_eq min_def)
qed

lemma unsigned_member_set [simp]:
  assumes "w \<le> 64"
  shows "unsigned_member w (set_member w i d) = take_bit w i"
  using take_bit_set_member[OF assms] by (simp add: unsigned_member_def)

lemma signed_member_set [simp]:
  assumes "0 < w" and "w \<le> 64"
  shows "signed_member w (set_member w i d) = signed_take_bit (w - 1) i"
proof -
  have "signed_take_bit (w - 1) x = signed_take_bit (w - 1) (take_bit w x)" for x :: int
    using assms(1) by (cases w) (simp_all add: signed_take_bit_take_bit)
  then show ?thesis
    unfolding signed_member_def by (metis assms(2) take_bit_set_member)
qed

lemma set_member_fields [simp]:
  "hi (set_member w i d) = hi d" "has_value (set_member w i d) = has_value d"
  "heap_storage (set_member w i d) = heap_storage d" "dtype (set_member w i d) = dtype d"
  by (simp_all add: set_member_def)

lemma member_storage [simp]:
  "signed_member w (d\<lparr>heap_storage := p\<rparr>) = signed_member w d"
  "unsigned_member w (d\<lparr>heap_storage := p\<rparr>) = unsigned_member w d"
  "signed_member w (d\<lparr>has_value := x\<rparr>) = signed_member w d"
  "unsigned_member w (d\<lparr>has_value := x\<rparr>) = unsigned_member w d"
  by (simp_all add: signed_member_def unsigned_member_def)

lemma unsigned_member_range: "0 \<le> unsigned_member w d \<and> unsigned_member w d < 2 ^ w"
  by (simp add: unsigned_member_def)

lemma signed_member_range:
  "0 < w \<Longrightarrow> - (2 ^ (w - 1)) \<le> signed_member w d \<and> signed_member w d < 2 ^ (w - 1)"
  by (simp add: signed_member_def signed_take_bit_int_less_exp
      signed_take_bit_int_greater_eq_minus_exp)

lemma chars_bytes [simp]: "chars_of (bytes_of s) = s"
  by (induction s) (simp_all add: chars_of_def bytes_of_def unat_of_nat)

lemma chars_of_append: "chars_of (a @ b) = chars_of a @ chars_of b"
  by (simp add: chars_of_def)

lemma char_of_zero [simp]: "char_of (0 :: nat) = CHR 0x00"
  by (simp add: char_of_def)

lemma bytes_of_zero: "0 \<in> set (bytes_of s) \<longleftrightarrow> CHR 0x00 \<in> set s"
proof -
  have "(of_nat (of_char c) :: u8) = 0 \<longleftrightarrow> c = CHR 0x00" for c
  proof
    assume "(of_nat (of_char c) :: u8) = 0"
    then have "unat (of_nat (of_char c) :: u8) = 0" by simp
    then have "of_char c = (0 :: nat)" by (simp add: unat_of_nat)
    then show "c = CHR 0x00" by (metis char_of_char char_of_zero)
  qed simp
  then show ?thesis by (force simp: bytes_of_def)
qed

text \<open>A NUL-terminated block reads back as the string it was made from.\<close>

lemma read_string_block:
  assumes "cells h p = Some (string_block s)" and "CHR 0x00 \<notin> set s" and "p \<noteq> NULL"
  shows "read_string p h = Some s"
proof -
  have "takeWhile (\<lambda>x. x \<noteq> 0) (bytes_of s @ [0]) = bytes_of s"
    using assms(2) bytes_of_zero[of s] by (subst takeWhile_append2) auto
  then show ?thesis
    using assms(1,3) by (simp add: read_string_def read_bytes_def string_block_def)
qed

lemma read_string_no_nul: "read_string p h = Some s \<Longrightarrow> CHR 0x00 \<notin> set s \<and> p \<noteq> NULL"
proof -
  assume r: "read_string p h = Some s"
  then obtain b where s: "s = chars_of (takeWhile (\<lambda>x. x \<noteq> 0) b)" "p \<noteq> NULL"
    by (auto simp: read_string_def read_bytes_def split: bind_splits if_splits)
  have "CHR 0x00 \<noteq> char_of (unat x)" if "x \<noteq> 0" for x :: u8
  proof
    assume "CHR 0x00 = char_of (unat x)"
    then have "char_of (unat x) = char_of (0 :: nat)" by simp
    then have "unat x mod 256 = 0" by (simp add: char_of_eq_iff take_bit_eq_mod)
      moreover have "unat x < 2 ^ LENGTH(8)" by (rule unsigned_less)
    ultimately show False using that by (simp add: unat_eq_zero)
  qed
  then show ?thesis
    using s by (auto simp: chars_of_def dest: set_takeWhileD)
qed

text \<open>Allocation does not depend on what fills the object.\<close>

lemma os_malloc_cases:
  obtains (fail) r where "\<And>b. os_malloc b h = (NULL, h\<lparr>allocator := r\<rparr>)"
  | (ok) p r where "\<And>b. os_malloc b h = (p, h\<lparr>allocator := r, cells := (cells h)(p \<mapsto> b)\<rparr>)"
      "p \<noteq> NULL" "cells h p = None"
proof (cases "allocator h")
  case Nil
  then show ?thesis using fail[of "allocator h"] by (simp add: os_malloc_def)
next
  case (Cons a r)
  show ?thesis
  proof (cases "\<exists>p. a = Some p \<and> p \<noteq> NULL \<and> cells h p = None")
    case True
    then show ?thesis using Cons ok by (auto simp: os_malloc_def)
  next
    case False
    then show ?thesis using Cons fail[of r] by (auto simp: os_malloc_def split: option.splits)
  qed
qed

lemma os_grab_cells [simp]: "os_grab h = (ok, h') \<Longrightarrow> cells h' = cells h"
  by (auto simp: os_grab_def split: list.splits)

lemma os_malloc_fst: "fst (os_malloc b h) = fst (os_malloc c h)"
  by (rule os_malloc_cases[of h]) simp_all

lemma read_other [simp]:
  "read_bytes q (h\<lparr>allocator := r\<rparr>) = read_bytes q h"
  "read_string q (h\<lparr>allocator := r\<rparr>) = read_string q h"
  "read_location q (h\<lparr>allocator := r\<rparr>) = read_location q h"
  by (simp_all add: read_bytes_def read_string_def read_location_def)

end
