(* ===== verification/Base64.thy ===== *)
theory Base64
  imports Prelude
begin

text \<open>
  The base64 codec of \<open>src/src/api/iot_base64.c\<close>: the two conversion tables, the four
  character block decoder, the three byte block encoder, the two buffer loops around them
  and the two size functions callers use to dimension buffers.

  Input buffers are lists (their length is the number of elements that exist in memory); a
  read past the end is \<open>None\<close>. A length argument is separate from the buffer, as in the code.
  The bytes written to the output buffer are returned as a list.
\<close>

section \<open>Tables\<close>

abbreviation XX :: u8 where "XX \<equiv> 100"

definition base64_index :: "u8 list" where
  "base64_index = [
     XX, XX, XX, XX, XX, XX, XX, XX, XX, XX, XX, XX, XX, XX, XX, XX, XX, XX, XX, XX, XX, XX, XX, XX,
     XX, XX, XX, XX, XX, XX, XX, XX, XX, XX, XX, XX, XX, XX, XX, XX, XX, XX, XX, 62, XX, XX, XX, 63,
     52, 53, 54, 55, 56, 57, 58, 59, 60, 61, XX, XX, XX, XX, XX, XX, XX, 0,  1,  2,  3,  4,  5,  6,
     7,  8,  9,  10, 11, 12, 13, 14, 15, 16, 17, 18, 19, 20, 21, 22, 23, 24, 25, XX, XX, XX, XX, XX,
     XX, 26, 27, 28, 29, 30, 31, 32, 33, 34, 35, 36, 37, 38, 39, 40, 41, 42, 43, 44, 45, 46, 47, 48,
     49, 50, 51, XX, XX, XX, XX, XX, XX, XX, XX, XX, XX, XX, XX, XX, XX, XX, XX, XX, XX, XX, XX, XX,
     XX, XX, XX, XX, XX, XX, XX, XX, XX, XX, XX, XX, XX, XX, XX, XX, XX, XX, XX, XX, XX, XX, XX, XX,
     XX, XX, XX, XX, XX, XX, XX, XX, XX, XX, XX, XX, XX, XX, XX, XX, XX, XX, XX, XX, XX, XX, XX, XX,
     XX, XX, XX, XX, XX, XX, XX, XX, XX, XX, XX, XX, XX, XX, XX, XX, XX, XX, XX, XX, XX, XX, XX, XX,
     XX, XX, XX, XX, XX, XX, XX, XX, XX, XX, XX, XX, XX, XX, XX, XX, XX, XX, XX, XX, XX, XX, XX, XX,
     XX, XX, XX, XX, XX, XX, XX, XX, XX, XX, XX, XX, XX, XX, XX, XX]"

definition base64_list :: string where
  "base64_list = ''ABCDEFGHIJKLMNOPQRSTUVWXYZabcdefghijklmnopqrstuvwxyz0123456789+/''"

definition base64_value :: "char \<Rightarrow> u8" where
  "base64_value c = base64_index ! of_char c"

definition base64_char :: "u8 \<Rightarrow> char" where
  "base64_char v = base64_list ! unat v"

section \<open>Decoding\<close>

text \<open>
  The scan of one block runs from its last character to its first and stops as soon as the
  byte count is negative; \<open>tmp\<close> collects the characters' values, so it holds all four of
  them exactly when the scan was not cut short.
\<close>

fun decode_block_scan :: "string \<Rightarrow> nat \<Rightarrow> u8 list \<Rightarrow> int \<Rightarrow> (u8 list \<times> int) option" where
  "decode_block_scan inp 0 tmp num_bytes = Some (tmp, num_bytes)"
| "decode_block_scan inp (Suc i) tmp num_bytes =
     (if num_bytes < 0 then Some (tmp, num_bytes)
      else do {
        c \<leftarrow> load inp i;
        let (t, num_bytes) =
          (if c = CHR ''='' then (0, num_bytes - 1) else (base64_value c, num_bytes));
        decode_block_scan inp i (t # tmp) (if t = XX then -1 else num_bytes)
      })"

text \<open>After a cut-short scan the output bytes are indeterminate and the caller reads none.\<close>

definition iot_base64_decode_block :: "string \<Rightarrow> (bytes \<times> int) option" where
  "iot_base64_decode_block inp = do {
     (tmp, num_bytes) \<leftarrow> decode_block_scan inp 4 [] 3;
     Some (case tmp of
         [t0, t1, t2, t3] \<Rightarrow>
           [or (push_bit 2 t0) (drop_bit 4 t1),
            or (push_bit 4 t1) (drop_bit 2 t2),
            or (and (push_bit 6 t2) 0xc0) t3]
       | _ \<Rightarrow> [], num_bytes)
   }"

text \<open>
  The loop over the input; \<open>inp\<close> is what lies at the current input pointer, \<open>out\<close> what has
  been written so far. The inner copy loop writes \<open>min out_chars out_len\<close> bytes.
\<close>

function decode_loop ::
    "string \<Rightarrow> nat \<Rightarrow> nat \<Rightarrow> nat \<Rightarrow> bytes \<Rightarrow> int \<Rightarrow> (bytes \<times> int) option" where
  "decode_loop inp i in_len out_len out num_bytes =
     (if i < in_len \<and> 0 < out_len \<and> 0 \<le> num_bytes
      then do {
        (out_temp, out_chars) \<leftarrow> iot_base64_decode_block inp;
        (if out_chars < 1 \<or> 3 < out_chars
         then decode_loop (drop 4 inp) (i + 4) in_len out_len out (-1)
         else (let n = min (nat out_chars) out_len
               in decode_loop (drop 4 inp) (i + 4) in_len (out_len - n)
                    (out @ take n out_temp) (num_bytes + int n)))
      }
      else Some (out, num_bytes))"
  by pat_completeness auto
termination
  by (relation "measure (\<lambda>(inp, i, in_len, out_len, out, nb). in_len - i)") auto

declare decode_loop.simps [simp del]

definition iot_base64_decode ::
    "bool \<Rightarrow> nat \<Rightarrow> string option \<Rightarrow> nat \<Rightarrow> (bytes \<times> int) option" where
  "iot_base64_decode has_out out_len inp in_len =
     (case inp of
        Some s \<Rightarrow> if has_out then decode_loop s 0 in_len out_len [] 0 else Some ([], -1)
      | None \<Rightarrow> Some ([], -1))"

definition iot_base64_decode_size :: "nat \<Rightarrow> nat" where
  "iot_base64_decode_size in_bytes =
     (if 0 < in_bytes then 3 * (1 + (in_bytes - 1) div 4) else 0)"

section \<open>Encoding\<close>

definition iot_base64_encode_block :: "bytes \<Rightarrow> nat \<Rightarrow> string option" where
  "iot_base64_encode_block inp len = do {
     in0 \<leftarrow> load inp 0;
     let o0 = base64_char (drop_bit 2 in0);
     let o1 = base64_char (push_bit 4 (and in0 0x03));
     (if 1 < len
      then do {
        in1 \<leftarrow> load inp 1;
        let o1 = base64_char (or (push_bit 4 (and in0 0x03)) (drop_bit 4 (and in1 0xf0)));
        let o2 = base64_char (push_bit 2 (and in1 0x0f));
        (if 2 < len
         then do {
           in2 \<leftarrow> load inp 2;
           let o2 = base64_char (or (push_bit 2 (and in1 0x0f)) (drop_bit 6 (and in2 0xc0)));
           let o3 = base64_char (and in2 0x3f);
           Some [o0, o1, o2, o3]
         }
         else Some [o0, o1, o2, CHR ''=''])
      }
      else Some [o0, o1, CHR ''='', CHR ''=''])
   }"

function encode_loop :: "bytes \<Rightarrow> nat \<Rightarrow> nat \<Rightarrow> string \<Rightarrow> nat \<Rightarrow> (string \<times> nat) option" where
  "encode_loop inp in_len out_len out result =
     (if result + 4 \<le> out_len \<and> 0 < in_len
      then do {
        blk \<leftarrow> iot_base64_encode_block inp in_len;
        encode_loop (drop 3 inp) (if 3 \<le> in_len then in_len - 3 else 0) out_len
          (out @ blk) (result + 4)
      }
      else Some (out, result))"
  by pat_completeness auto
termination
  by (relation "measure (\<lambda>(inp, in_len, out_len, out, result). in_len)") auto

declare encode_loop.simps [simp del]

definition iot_base64_encode ::
    "bool \<Rightarrow> nat \<Rightarrow> bytes option \<Rightarrow> nat \<Rightarrow> (string \<times> nat) option" where
  "iot_base64_encode has_out out_len inp in_len =
     (if has_out \<and> 0 < out_len
      then (case inp of
              Some b \<Rightarrow> if 0 < in_len then encode_loop b in_len out_len [] 0 else Some ([], 0)
            | None \<Rightarrow> Some ([], 0))
      else Some ([], 0))"

definition iot_base64_encode_size :: "nat \<Rightarrow> nat" where
  "iot_base64_encode_size in_bytes =
     (if 0 < in_bytes then 4 * (1 + (in_bytes - 1) div 3) else 0)"

section \<open>Lemmas about one block\<close>

lemma base64_tables:
  shows "map base64_value base64_list = map of_nat [0..<64]"
    and "CHR ''='' \<notin> set base64_list"
    and "length base64_list = 64"
  by (simp_all add: base64_value_def base64_list_def base64_index_def upt_rec)

lemma base64_value_char [simp]:
  assumes "unat v < 64"
  shows "base64_value (base64_char v) = v" and "base64_char v \<noteq> CHR ''=''"
proof -
  have "map base64_value base64_list ! unat v = map of_nat [0..<64] ! unat v"
    by (simp only: base64_tables(1))
  then show "base64_value (base64_char v) = v"
    using assms by (simp add: base64_char_def base64_tables(3))
  show "base64_char v \<noteq> CHR ''=''"
    using assms base64_tables(2,3) nth_mem unfolding base64_char_def by metis
qed

lemma replicate_numeral: "replicate (numeral k) x = x # replicate (pred_numeral k) x"
  by (simp add: numeral_eq_Suc)

lemma base64_ranges:
  shows "base64_index = replicate 43 XX @ [62] @ replicate 3 XX @ [63] @ map of_nat [52..<62] @
      replicate 7 XX @ map of_nat [0..<26] @ replicate 6 XX @ map of_nat [26..<52] @ replicate 133 XX"
    and "map of_char base64_list = [65..<91] @ [97..<123] @ [48..<58] @ [43, 47 :: nat]"
  by (simp_all add: base64_index_def base64_list_def upt_rec replicate_numeral)

lemma not_in_list_XX:
  assumes "c \<notin> set base64_list"
  shows "base64_value c = XX"
proof -
  define i where "i = (of_char c :: nat)"
  have "i \<notin> set ([65..<91] @ [97..<123] @ [48..<58] @ [43, 47 :: nat])"
    unfolding base64_ranges(2)[symmetric] i_def using assms by auto
  then have "\<not> (65 \<le> i \<and> i < 91)" "\<not> (97 \<le> i \<and> i < 123)" "\<not> (48 \<le> i \<and> i < 58)" "i \<noteq> 43" "i \<noteq> 47"
    by (simp_all del: upt_rec_numeral)
  moreover have "i < 256" by (simp add: i_def)
  ultimately consider "i < 43" | "43 < i" "i < 47" | "57 < i" "i < 65" | "90 < i" "i < 97"
    | "122 < i" "i < 256" by linarith
  then have "base64_index ! i = XX"
    unfolding base64_ranges(1) by cases (simp_all add: nth_append nth_Cons')
  then show ?thesis by (simp add: base64_value_def i_def)
qed

text \<open>Bit identities on bytes, by cases on the bit position.\<close>

lemma byte_bit_cases:
  assumes "n < LENGTH(8)"
  obtains "n = 0" | "n = 1" | "n = 2" | "n = 3" | "n = 4" | "n = 5" | "n = 6" | "n = 7"
  using assms by fastforce

lemma byte_bit_high: "8 \<le> n \<Longrightarrow> \<not> bit (a :: u8) n"
  by (auto dest: bit_imp_le_length)

lemma sextet: "and x 0x3f = x \<Longrightarrow> unat (x :: u8) < 64"
proof -
  assume "and x 0x3f = x"
  then have "x \<le> 0x3f" by (metis word_and_le1)
  then show ?thesis by (simp add: word_le_nat_alt)
qed

lemma sextets [simp]:
  "unat (drop_bit 2 (a :: u8)) < 64"
  "unat (or (push_bit 4 (and a 3)) (drop_bit 4 (and b 0xf0))) < 64"
  "unat (or (push_bit 2 (and b 0x0f)) (drop_bit 6 (and c 0xc0))) < 64"
  "unat (push_bit 4 (and a 3)) < 64"
  "unat (push_bit 2 (and b 0x0f)) < 64"
  "unat (and c 0x3f) < 64"
  by (rule sextet; rule bit_word_eqI; erule byte_bit_cases; simp add: bit_simps byte_bit_high)+

lemma regroup:
  "or (push_bit 2 (drop_bit 2 (a :: u8)))
     (drop_bit 4 (or (push_bit 4 (and a 3)) (drop_bit 4 (and b 0xf0)))) = a"
  "or (push_bit 4 (or (push_bit 4 (and a 3)) (drop_bit 4 (and b 0xf0))))
     (drop_bit 2 (or (push_bit 2 (and b 0x0f)) (drop_bit 6 (and c 0xc0)))) = b"
  "or (and (push_bit 6 (or (push_bit 2 (and b 0x0f)) (drop_bit 6 (and c 0xc0)))) 0xc0)
     (and c 0x3f) = c"
  "or (push_bit 4 (or (push_bit 4 (and a 3)) (drop_bit 4 (and b 0xf0))))
     (drop_bit 2 (push_bit 2 (and b 0x0f))) = b"
  "or (push_bit 2 (drop_bit 2 a)) (drop_bit 4 (push_bit 4 (and a 3))) = a"
  by (rule bit_word_eqI; erule byte_bit_cases; simp add: bit_simps byte_bit_high)+

text \<open>
  The value of a block: the number of bytes it holds, or -1 as soon as one character is
  outside the alphabet.
\<close>

definition illegal :: "char \<Rightarrow> bool" where
  "illegal c \<longleftrightarrow> c \<noteq> CHR ''='' \<and> base64_value c = XX"

definition block_count :: "string \<Rightarrow> int" where
  "block_count b = (if list_ex illegal b then -1 else 3 - int (count_list b CHR ''=''))"

lemma block_count_le: "block_count b \<le> 3"
  by (simp add: block_count_def)

lemma four_Suc: "(4 :: nat) = Suc (Suc (Suc (Suc 0)))"
  by simp

lemma scan_four:
  "decode_block_scan inp 4 tmp n = decode_block_scan inp (Suc (Suc (Suc (Suc 0)))) tmp n"
  by (simp only: four_Suc)

lemma sextet_not_XX: "unat v < 64 \<Longrightarrow> v \<noteq> XX"
  by auto

lemma decode_block_scan_four:
  "\<exists>tmp. decode_block_scan (c0 # c1 # c2 # c3 # r) 4 [] 3 =
      Some (tmp, block_count [c0, c1, c2, c3])
    \<and> (0 \<le> block_count [c0, c1, c2, c3] \<longrightarrow> length tmp = 4)"
  by (simp add: scan_four load_def block_count_def illegal_def)

lemma decode_block_four:
  "\<exists>bs. iot_base64_decode_block (c0 # c1 # c2 # c3 # r) = Some (bs, block_count [c0, c1, c2, c3])
    \<and> (0 \<le> block_count [c0, c1, c2, c3] \<longrightarrow> length bs = 3)"
proof -
  from decode_block_scan_four[of c0 c1 c2 c3 r] obtain tmp where
    tmp: "decode_block_scan (c0 # c1 # c2 # c3 # r) 4 [] 3 = Some (tmp, block_count [c0, c1, c2, c3])"
      "0 \<le> block_count [c0, c1, c2, c3] \<longrightarrow> length tmp = 4" by blast
  show ?thesis
    using tmp by (auto simp: iot_base64_decode_block_def four_Suc length_Suc_conv
        split: list.splits)
qed

lemma decode_block_chars:
  assumes "unat v0 < 64" "unat v1 < 64" "unat v2 < 64" "unat v3 < 64"
  shows "iot_base64_decode_block
      (base64_char v0 # base64_char v1 # base64_char v2 # base64_char v3 # r) =
    Some ([or (push_bit 2 v0) (drop_bit 4 v1),
           or (push_bit 4 v1) (drop_bit 2 v2),
           or (and (push_bit 6 v2) 0xc0) v3], 3)"
  using assms by (simp add: iot_base64_decode_block_def scan_four load_def sextet_not_XX)

lemma decode_block_pads:
  assumes "unat v0 < 64" "unat v1 < 64" "unat v2 < 64"
  shows "\<exists>b. iot_base64_decode_block
      (base64_char v0 # base64_char v1 # base64_char v2 # CHR ''='' # r) =
      Some ([or (push_bit 2 v0) (drop_bit 4 v1), or (push_bit 4 v1) (drop_bit 2 v2), b], 2)"
    and "\<exists>b c. iot_base64_decode_block
      (base64_char v0 # base64_char v1 # CHR ''='' # CHR ''='' # r) =
      Some ([or (push_bit 2 v0) (drop_bit 4 v1), b, c], 1)"
  using assms by (simp_all add: iot_base64_decode_block_def scan_four load_def sextet_not_XX)

section \<open>The loops\<close>

text \<open>The text a byte sequence encodes to, three bytes at a time.\<close>

fun base64_text :: "bytes \<Rightarrow> string" where
  "base64_text [] = []"
| "base64_text [a] =
     [base64_char (drop_bit 2 a), base64_char (push_bit 4 (and a 3)), CHR ''='', CHR ''='']"
| "base64_text [a, b] =
     [base64_char (drop_bit 2 a), base64_char (or (push_bit 4 (and a 3)) (drop_bit 4 (and b 0xf0))),
      base64_char (push_bit 2 (and b 0x0f)), CHR ''='']"
| "base64_text (a # b # c # r) =
     [base64_char (drop_bit 2 a), base64_char (or (push_bit 4 (and a 3)) (drop_bit 4 (and b 0xf0))),
      base64_char (or (push_bit 2 (and b 0x0f)) (drop_bit 6 (and c 0xc0))),
      base64_char (and c 0x3f)] @ base64_text r"

lemma encode_size_step [simp]:
  "iot_base64_encode_size (Suc (Suc (Suc n))) = 4 + iot_base64_encode_size n"
  by (cases n) (simp_all add: iot_base64_encode_size_def le_div_geq)

lemma length_base64_text: "length (base64_text xs) = iot_base64_encode_size (length xs)"
  by (induction xs rule: base64_text.induct) (simp_all, simp_all add: iot_base64_encode_size_def)

lemma length_base64_text_mod: "length (base64_text xs) mod 4 = 0"
  by (simp add: length_base64_text iot_base64_encode_size_def)

lemma encode_loop_text:
  "encode_loop xs (length xs) out_len out r =
     Some (out @ take (4 * ((out_len - r) div 4)) (base64_text xs),
           r + min (4 * ((out_len - r) div 4)) (length (base64_text xs)))"
proof (induction xs arbitrary: out r rule: base64_text.induct)
  case 1
  then show ?case by (simp add: encode_loop.simps)
next
  case (2 a)
  then show ?case
    by (cases "r + 4 \<le> out_len")
      (simp_all add: encode_loop.simps iot_base64_encode_block_def load_def le_div_geq)
next
  case (3 a b)
  then show ?case
    by (cases "r + 4 \<le> out_len")
      (simp_all add: encode_loop.simps iot_base64_encode_block_def load_def le_div_geq)
next
  case (4 a b c xs)
  show ?case
  proof (cases "r + 4 \<le> out_len")
    case True
    then have "(out_len - r) div 4 = Suc ((out_len - (r + 4)) div 4)"
      by (simp add: le_div_geq)
    with True 4 show ?thesis
      by (subst encode_loop.simps)
        (simp add: iot_base64_encode_block_def load_def take_Cons' min_def)
  qed (simp add: encode_loop.simps)
qed

lemma decode_loop_text:
  assumes "0 \<le> n"
  shows "decode_loop (base64_text xs @ ys) i (i + length (base64_text xs)) out_len out n =
    Some (out @ take out_len xs, n + int (min out_len (length xs)))"
  using assms
proof (induction xs arbitrary: i out_len out n rule: base64_text.induct)
  case 1
  then show ?case by (simp add: decode_loop.simps)
next
  case (2 a)
  obtain b c where "iot_base64_decode_block (base64_text [a] @ ys) = Some ([a, b, c], 1)"
    using decode_block_pads(2)[OF sextets(1)[of a] sextets(4)[of a] sextets(1), of ys,
        unfolded regroup] by auto
  then show ?case using 2
    by (cases out_len) (simp_all add: decode_loop.simps)
next
  case (3 a b)
  obtain c where blk: "iot_base64_decode_block (base64_text [a, b] @ ys) = Some ([a, b, c], 2)"
    using decode_block_pads(1)[OF sextets(1)[of a] sextets(2)[of a b] sextets(5)[of b], of ys,
        unfolded regroup] by auto
  consider "out_len = 0" | "out_len = 1" | "2 \<le> out_len" by linarith
  then show ?case
    by cases (use blk 3 in \<open>simp_all add: decode_loop.simps min_def\<close>)
next
  case (4 a b c xs)
  have blk: "iot_base64_decode_block (base64_text (a # b # c # xs) @ ys) = Some ([a, b, c], 3)"
    using decode_block_chars[OF sextets(1)[of a] sextets(2)[of a b] sextets(3)[of b c]
        sextets(6)[of c], of "base64_text xs @ ys", unfolded regroup] by simp
  show ?case
  proof (cases "out_len = 0")
    case False
    have "decode_loop (base64_text (a # b # c # xs) @ ys) i (i + 4 + length (base64_text xs)) out_len out n =
      decode_loop (base64_text xs @ ys) (i + 4) (i + 4 + length (base64_text xs)) (out_len - min 3 out_len)
        (out @ take (min 3 out_len) [a, b, c]) (n + int (min 3 out_len))"
      using False blk 4(2) by (subst decode_loop.simps) (simp add: Let_def min.commute)
    also have "\<dots> = Some ((out @ take (min 3 out_len) [a, b, c]) @ take (out_len - min 3 out_len) xs,
        n + int (min 3 out_len) + int (min (out_len - min 3 out_len) (length xs)))"
      using 4 by simp
    finally have "decode_loop (base64_text (a # b # c # xs) @ ys) i (i + 4 + length (base64_text xs)) out_len
        out n = Some (out @ take out_len (a # b # c # xs),
          n + int (min out_len (length (a # b # c # xs))))"
      by (cases "3 \<le> out_len") (auto simp: take_Cons' min_def numeral_3_eq_3)
    moreover have "i + length (base64_text (a # b # c # xs)) = i + 4 + length (base64_text xs)"
      by simp
    ultimately show ?thesis by (simp only:)
  qed (simp add: decode_loop.simps)
qed

lemma four_elements:
  assumes "4 \<le> length xs"
  obtains c0 c1 c2 c3 r where "xs = c0 # c1 # c2 # c3 # r"
  using assms unfolding four_Suc Suc_le_length_iff by blast

lemma base64_char_in: "unat v < 64 \<Longrightarrow> base64_char v \<in> set base64_list"
  by (simp add: base64_char_def base64_tables(3))

lemma base64_text_chars: "c \<in> set (base64_text xs) \<Longrightarrow> c = CHR ''='' \<or> c \<in> set base64_list"
  by (induction xs rule: base64_text.induct)
    (auto intro: sextets[THEN base64_char_in] simp del: push_bit_and drop_bit_and)

text \<open>On whole blocks the loop never reads outside the buffer, and writes what it counts.\<close>

lemma decode_loop_safe:
  assumes "in_len \<le> i + 4 * k" and "4 * k \<le> length inp" and "0 \<le> n"
  shows "\<exists>bs m. decode_loop inp i in_len out_len out n = Some (out @ bs, m)
    \<and> length bs \<le> out_len \<and> (m = -1 \<or> m = n + int (length bs))"
  using assms
proof (induction k arbitrary: inp i out_len out n)
  case 0
  then show ?case by (simp add: decode_loop.simps)
next
  case (Suc k)
  show ?case
  proof (cases "i < in_len \<and> 0 < out_len")
    case True
    have "4 \<le> length inp" using Suc.prems(2) by simp
    then obtain c0 c1 c2 c3 r where inp: "inp = c0 # c1 # c2 # c3 # r"
      by (rule four_elements)
    obtain b where b: "iot_base64_decode_block inp = Some (b, block_count [c0, c1, c2, c3])"
      "0 \<le> block_count [c0, c1, c2, c3] \<Longrightarrow> length b = 3"
      using decode_block_four inp by blast
    let ?c = "block_count [c0, c1, c2, c3]" and ?n = "min (nat (block_count [c0, c1, c2, c3])) out_len"
    show ?thesis
    proof (cases "?c < 1")
      case True
      then show ?thesis using \<open>i < in_len \<and> 0 < out_len\<close> b Suc.prems
        by (subst decode_loop.simps) (simp, simp add: decode_loop.simps)
    next
      case False
      have "in_len \<le> i + 4 + 4 * k" "4 * k \<le> length (drop 4 inp)" "0 \<le> n + int ?n"
        using Suc.prems by auto
      from Suc.IH[OF this, of "out_len - ?n" "out @ take ?n b"] obtain bs m where
        IH: "decode_loop (drop 4 inp) (i + 4) in_len (out_len - ?n) (out @ take ?n b) (n + int ?n) =
            Some ((out @ take ?n b) @ bs, m)" "length bs \<le> out_len - ?n"
          "m = -1 \<or> m = n + int ?n + int (length bs)" by blast
      moreover have "decode_loop inp i in_len out_len out n =
          decode_loop (drop 4 inp) (i + 4) in_len (out_len - ?n) (out @ take ?n b) (n + int ?n)"
        using True False b(1) Suc.prems(3) block_count_le[of "[c0, c1, c2, c3]"]
        by (subst decode_loop.simps) (simp add: Let_def)
      moreover have "length (take ?n b) = ?n"
        using b(2) False block_count_le[of "[c0, c1, c2, c3]"] by simp
      ultimately show ?thesis
        by (intro exI[of _ "take ?n b @ bs"] exI[of _ m])
          (simp, linarith)
    qed
  next
    case False
    then have "decode_loop inp i in_len out_len out n = Some (out, n)"
      by (subst decode_loop.simps) auto
    then show ?thesis by simp
  qed
qed

text \<open>With room for every byte, the first bad character makes the whole call fail.\<close>

lemma decode_loop_illegal:
  assumes "length inp = 4 * k" and "list_ex illegal inp" and "3 * k \<le> out_len" and "0 \<le> n"
  shows "\<exists>bs. decode_loop inp i (i + 4 * k) out_len out n = Some (bs, -1)"
  using assms
proof (induction k arbitrary: inp i out_len out n)
  case 0
  then show ?case by simp
next
  case (Suc k)
  have "4 \<le> length inp" using Suc.prems(1) by simp
  then obtain c0 c1 c2 c3 r where inp: "inp = c0 # c1 # c2 # c3 # r"
    by (rule four_elements)
  obtain b where b: "iot_base64_decode_block inp = Some (b, block_count [c0, c1, c2, c3])"
    using decode_block_four inp by blast
  let ?c = "block_count [c0, c1, c2, c3]" and ?n = "min (nat (block_count [c0, c1, c2, c3])) out_len"
  show ?case
  proof (cases "?c < 1")
    case True
    then show ?thesis using b Suc.prems
      by (subst decode_loop.simps) (simp, simp add: decode_loop.simps)
  next
    case False
    have "list_ex illegal r"
      using Suc.prems(2) False unfolding inp by (auto simp: block_count_def split: if_splits)
    moreover have "length r = 4 * k" "3 * k \<le> out_len - ?n" "0 \<le> n + int ?n"
      using Suc.prems inp block_count_le[of "[c0, c1, c2, c3]"] by auto
    ultimately have "\<exists>bs. decode_loop r (i + 4) (i + 4 + 4 * k) (out_len - ?n) (out @ take ?n b)
        (n + int ?n) = Some (bs, -1)"
      using Suc.IH by blast
    moreover have "i + 4 * Suc k = i + 4 + 4 * k" by simp
    moreover have "decode_loop inp i (i + 4 + 4 * k) out_len out n =
        decode_loop r (i + 4) (i + 4 + 4 * k) (out_len - ?n) (out @ take ?n b) (n + int ?n)"
      using False b Suc.prems(3,4) inp block_count_le[of "[c0, c1, c2, c3]"]
      by (subst decode_loop.simps) (simp add: Let_def)
    ultimately show ?thesis by (simp only:)
  qed
qed

section \<open>Properties\<close>

text \<open>
  C6: Round trip: whatever a caller encodes into a buffer of \<open>iot_base64_encode_size\<close>
  characters, \<open>iot_base64_decode\<close> turns back into the same bytes (cut at the size of the
  caller's output buffer), and it reports how many it wrote.
\<close>

theorem base64_round_trip:
  assumes "iot_base64_encode_size (length xs) \<le> enc_len" and "0 < enc_len"
  shows "\<exists>t n. iot_base64_encode True enc_len (Some xs) (length xs) = Some (t, n)
    \<and> n = iot_base64_encode_size (length xs) \<and> length t = n
    \<and> iot_base64_decode True out_len (Some t) n =
        Some (take out_len xs, int (min out_len (length xs)))"
proof -
  let ?t = "base64_text xs"
  have len: "length ?t = iot_base64_encode_size (length xs)" by (rule length_base64_text)
  have "length ?t div 4 \<le> enc_len div 4"
    using assms(1) len by (simp add: div_le_mono)
  then have fits: "length ?t \<le> 4 * (enc_len div 4)"
    using length_base64_text_mod[of xs] by presburger
  have enc: "iot_base64_encode True enc_len (Some xs) (length xs) = Some (?t, length ?t)"
    using encode_loop_text[of xs enc_len "[]" 0] fits assms(2)
    by (cases "xs = []") (simp_all add: iot_base64_encode_def)
  have "decode_loop ?t 0 (length ?t) out_len [] 0 = Some (take out_len xs, int (min out_len (length xs)))"
    using decode_loop_text[of 0 xs "[]" 0 out_len "[]"] by simp
  then show ?thesis using enc len by (simp add: iot_base64_decode_def)
qed

theorem base64_round_trip_witness:
  "\<exists>t n. iot_base64_encode True 8 (Some [0, 255, 16, 7]) (length [0, 255, 16, 7 :: u8]) = Some (t, n)
    \<and> n = iot_base64_encode_size (length [0, 255, 16, 7 :: u8]) \<and> length t = n
    \<and> iot_base64_decode True 9 (Some t) n =
        Some (take 9 [0, 255, 16, 7], int (min 9 (length [0, 255, 16, 7 :: u8])))"
  by (rule base64_round_trip) (simp_all add: iot_base64_encode_size_def)

text \<open>
  C36: Memory safety of the decoder: it reads whole blocks only, so on a buffer that holds
  \<open>in_len\<close> rounded up to a multiple of four it never reads outside the buffer; it never
  writes more than \<open>out_len\<close> bytes, and a result that is not -1 is the number written.
\<close>

theorem base64_decode_safe:
  assumes "4 * ((in_len + 3) div 4) \<le> length s"
  shows "\<exists>bs n. iot_base64_decode True out_len (Some s) in_len = Some (bs, n)
    \<and> length bs \<le> out_len \<and> (n = -1 \<or> n = int (length bs))"
proof -
  have "in_len \<le> 0 + 4 * ((in_len + 3) div 4)" by presburger
  from decode_loop_safe[OF this assms, of 0 out_len "[]"] show ?thesis
    by (auto simp: iot_base64_decode_def)
qed

theorem base64_decode_safe_witness:
  "\<exists>bs n. iot_base64_decode True 2 (Some ''QUJDRA=='') 6 = Some (bs, n)
    \<and> length bs \<le> 2 \<and> (n = -1 \<or> n = int (length bs))"
  by (rule base64_decode_safe) simp

text \<open>The bound is needed: on a buffer of five characters the sixth is read.\<close>

lemma base64_decode_overrun: "iot_base64_decode True 9 (Some ''QUJDR'') 5 = None"
  by (simp add: iot_base64_decode_def decode_loop.simps iot_base64_decode_block_def scan_four
      load_def base64_value_def base64_index_def)

text \<open>
  Error reporting of the decoder: when the input is whole blocks and the output buffer
  has the size \<open>iot_base64_decode_size\<close> asks for, a single character outside the alphabet,
  wherever it is, makes the result -1.
\<close>

theorem base64_decode_illegal:
  assumes "length s mod 4 = 0" and "c \<in> set s" and "c \<noteq> CHR ''=''" and "c \<notin> set base64_list"
    and "iot_base64_decode_size (length s) \<le> out_len"
  shows "\<exists>bs. iot_base64_decode True out_len (Some s) (length s) = Some (bs, -1)"
proof -
  obtain k where k: "length s = 4 * k" using assms(1) by auto
  have "0 < k" using k assms(2) by (cases k) auto
  then have "3 * k \<le> out_len"
    using assms(5) k by (cases k) (simp_all add: iot_base64_decode_size_def)
  moreover have "list_ex illegal s"
    using assms(2-4) not_in_list_XX by (auto simp: list_ex_iff illegal_def)
  ultimately show ?thesis
    using decode_loop_illegal[of s k out_len 0 0 "[]"] k by (simp add: iot_base64_decode_def)
qed

theorem base64_decode_illegal_witness:
  "\<exists>bs. iot_base64_decode True 6 (Some ''QUJD?A=='') (length ''QUJD?A=='') = Some (bs, -1)"
  by (rule base64_decode_illegal[where c = "CHR ''?''"])
    (simp_all add: base64_list_def iot_base64_decode_size_def)

end
