(* ===== verification/Convert.thy ===== *)
theory Convert
  imports Data Base64
begin

text \<open>
  Conversion of a value to another type in place, \<open>iot_common_data_convert\<close>, and the test that
  announces whether it would succeed, \<open>iot_common_data_convert_check\<close>, both in
  \<open>src/src/api/iot_common.c\<close>; one definition per \<open>case\<close> of their \<open>switch\<close> statements.

  A conversion step returns \<open>None\<close> when it is undefined in C (a cast of a real number outside
  the target's range), \<open>Some None\<close> when no branch applies and \<open>Some (Some d)\<close> when
  \<open>IOT_CONVERT\<close> stored into \<open>d\<close>.
\<close>

section \<open>Helpers\<close>

text \<open>Comparison of a real member with an integer constant, which C first converts.\<close>

definition float32_le :: "fp \<Rightarrow> int \<Rightarrow> bool" where
  "float32_le x c = fp_le x (fp_decode 23 8 (fp_of_int 23 8 c))"

definition float64_le :: "fp \<Rightarrow> int \<Rightarrow> bool" where
  "float64_le x c = fp_le x (fp_decode 52 11 (fp_of_int 52 11 c))"

definition FLT_MAX :: fp where "FLT_MAX = FFin False (2 ^ 24 - 1) 104"
definition FLT_MIN :: fp where "FLT_MIN = FFin False 1 (-126)"
definition NEG_FLT_MIN :: fp where "NEG_FLT_MIN = FFin True 1 (-126)"

text \<open>
  The subtraction of the integer part is exact; adding or subtracting \<open>FLT_MIN\<close> and comparing
  with zero is a comparison with \<open>FLT_MIN\<close> (gradual underflow keeps the sign exact).
\<close>

definition iot_common_data_no_decimal :: "fp \<Rightarrow> bool option" where
  "iot_common_data_no_decimal number = do {
     _ \<leftarrow> fp_to_int (- (2 ^ 63)) (2 ^ 63 - 1) number;
     let frac_part = fp_decode 23 8 (fp_convert 23 8 (fp_frac number));
     Some (fp_le frac_part FLT_MIN \<and> fp_le NEG_FLT_MIN frac_part)
   }"

definition in_range :: "int \<Rightarrow> int \<Rightarrow> int \<Rightarrow> bool" where
  "in_range a b i \<longleftrightarrow> a \<le> i \<and> i \<le> b"

definition IOT_CONVERT :: "nat \<Rightarrow> int \<Rightarrow> iot_data \<Rightarrow> iot_data option option" where
  "IOT_CONVERT w i d = Some (Some (set_member w i d))"

definition convert_if :: "bool \<Rightarrow> nat \<Rightarrow> int \<Rightarrow> iot_data \<Rightarrow> iot_data option option" where
  "convert_if c w i d = (if c then IOT_CONVERT w i d else Some None)"

text \<open>A real number below the bound and without decimals is cast to the integer type.\<close>

definition convert_real ::
    "bool \<Rightarrow> nat \<Rightarrow> int \<Rightarrow> int \<Rightarrow> fp \<Rightarrow> iot_data \<Rightarrow> iot_data option option" where
  "convert_real below w tmin tmax x d =
     (if below
      then do {
        nd \<leftarrow> iot_common_data_no_decimal x;
        if nd then do { i \<leftarrow> fp_to_int tmin tmax x; IOT_CONVERT w i d } else Some None
      }
      else Some None)"

definition check_real :: "bool \<Rightarrow> fp \<Rightarrow> bool option" where
  "check_real below x = (if below then iot_common_data_no_decimal x else Some False)"

abbreviation SCHAR_MIN :: int where "SCHAR_MIN \<equiv> - (2 ^ 7)"
abbreviation SCHAR_MAX :: int where "SCHAR_MAX \<equiv> 2 ^ 7 - 1"
abbreviation UCHAR_MAX :: int where "UCHAR_MAX \<equiv> 2 ^ 8 - 1"
abbreviation SHRT_MIN :: int where "SHRT_MIN \<equiv> - (2 ^ 15)"
abbreviation SHRT_MAX :: int where "SHRT_MAX \<equiv> 2 ^ 15 - 1"
abbreviation USHRT_MAX :: int where "USHRT_MAX \<equiv> 2 ^ 16 - 1"
abbreviation INT_MIN :: int where "INT_MIN \<equiv> - (2 ^ 31)"
abbreviation INT_MAX :: int where "INT_MAX \<equiv> 2 ^ 31 - 1"
abbreviation UINT_MAX :: int where "UINT_MAX \<equiv> 2 ^ 32 - 1"
abbreviation LONG_MIN :: int where "LONG_MIN \<equiv> - (2 ^ 63)"
abbreviation LONG_MAX :: int where "LONG_MAX \<equiv> 2 ^ 63 - 1"
abbreviation ULONG_MAX :: int where "ULONG_MAX \<equiv> 2 ^ 64 - 1"

section \<open>The switch of the conversion\<close>

definition convert_float32 :: "iot_data \<Rightarrow> iot_data option option" where
  "convert_float32 d =
     (case dtype d of
        TYPE_FLOAT64 \<Rightarrow> convert_if (fp_le (v_float64 d) FLT_MAX) 32 (int (fp_convert 23 8 (v_float64 d))) d
      | TYPE_INT8 \<Rightarrow> IOT_CONVERT 32 (int (fp_of_int 23 8 (v_int8 d))) d
      | TYPE_INT16 \<Rightarrow> IOT_CONVERT 32 (int (fp_of_int 23 8 (v_int16 d))) d
      | TYPE_INT32 \<Rightarrow> IOT_CONVERT 32 (int (fp_of_int 23 8 (v_int32 d))) d
      | TYPE_INT64 \<Rightarrow> IOT_CONVERT 32 (int (fp_of_int 23 8 (v_int64 d))) d
      | TYPE_UINT8 \<Rightarrow> IOT_CONVERT 32 (int (fp_of_int 23 8 (v_uint8 d))) d
      | TYPE_UINT16 \<Rightarrow> IOT_CONVERT 32 (int (fp_of_int 23 8 (v_uint16 d))) d
      | TYPE_UINT32 \<Rightarrow> IOT_CONVERT 32 (int (fp_of_int 23 8 (v_uint32 d))) d
      | TYPE_UINT64 \<Rightarrow> IOT_CONVERT 32 (int (fp_of_int 23 8 (v_uint64 d))) d
      | _ \<Rightarrow> Some None)"

definition convert_float64 :: "iot_data \<Rightarrow> iot_data option option" where
  "convert_float64 d =
     (case dtype d of
        TYPE_FLOAT32 \<Rightarrow> IOT_CONVERT 64 (int (fp_convert 52 11 (v_float32 d))) d
      | TYPE_INT8 \<Rightarrow> IOT_CONVERT 64 (int (fp_of_int 52 11 (v_int8 d))) d
      | TYPE_INT16 \<Rightarrow> IOT_CONVERT 64 (int (fp_of_int 52 11 (v_int16 d))) d
      | TYPE_INT32 \<Rightarrow> IOT_CONVERT 64 (int (fp_of_int 52 11 (v_int32 d))) d
      | TYPE_INT64 \<Rightarrow> IOT_CONVERT 64 (int (fp_of_int 52 11 (v_int64 d))) d
      | TYPE_UINT8 \<Rightarrow> IOT_CONVERT 64 (int (fp_of_int 52 11 (v_uint8 d))) d
      | TYPE_UINT16 \<Rightarrow> IOT_CONVERT 64 (int (fp_of_int 52 11 (v_uint16 d))) d
      | TYPE_UINT32 \<Rightarrow> IOT_CONVERT 64 (int (fp_of_int 52 11 (v_uint32 d))) d
      | TYPE_UINT64 \<Rightarrow> IOT_CONVERT 64 (int (fp_of_int 52 11 (v_uint64 d))) d
      | _ \<Rightarrow> Some None)"

definition convert_int8 :: "iot_data \<Rightarrow> iot_data option option" where
  "convert_int8 d =
     (case dtype d of
        TYPE_INT16 \<Rightarrow> convert_if (in_range SCHAR_MIN SCHAR_MAX (v_int16 d)) 8 (v_int16 d) d
      | TYPE_INT32 \<Rightarrow> convert_if (in_range SCHAR_MIN SCHAR_MAX (v_int32 d)) 8 (v_int32 d) d
      | TYPE_INT64 \<Rightarrow> convert_if (in_range SCHAR_MIN SCHAR_MAX (v_int64 d)) 8 (v_int64 d) d
      | TYPE_UINT8 \<Rightarrow> convert_if (v_uint8 d \<le> SCHAR_MAX) 8 (v_uint8 d) d
      | TYPE_UINT16 \<Rightarrow> convert_if (v_uint16 d \<le> SCHAR_MAX) 8 (v_uint16 d) d
      | TYPE_UINT32 \<Rightarrow> convert_if (v_uint32 d \<le> SCHAR_MAX) 8 (v_uint32 d) d
      | TYPE_UINT64 \<Rightarrow> convert_if (v_uint64 d \<le> SCHAR_MAX) 8 (v_uint64 d) d
      | TYPE_FLOAT32 \<Rightarrow> convert_real (float32_le (v_float32 d) SCHAR_MAX) 8 SCHAR_MIN SCHAR_MAX (v_float32 d) d
      | TYPE_FLOAT64 \<Rightarrow> convert_real (float64_le (v_float64 d) SCHAR_MAX) 8 SCHAR_MIN SCHAR_MAX (v_float64 d) d
      | _ \<Rightarrow> Some None)"

definition convert_int16 :: "iot_data \<Rightarrow> iot_data option option" where
  "convert_int16 d =
     (case dtype d of
        TYPE_INT8 \<Rightarrow> IOT_CONVERT 16 (v_int8 d) d
      | TYPE_UINT8 \<Rightarrow> IOT_CONVERT 16 (v_uint8 d) d
      | TYPE_INT32 \<Rightarrow> convert_if (in_range SHRT_MIN SHRT_MAX (v_int32 d)) 16 (v_int32 d) d
      | TYPE_INT64 \<Rightarrow> convert_if (in_range SHRT_MIN SHRT_MAX (v_int64 d)) 16 (v_int64 d) d
      | TYPE_UINT16 \<Rightarrow> convert_if (v_uint16 d \<le> SHRT_MAX) 16 (v_uint64 d) d
      | TYPE_UINT32 \<Rightarrow> convert_if (v_uint32 d \<le> SHRT_MAX) 16 (v_uint64 d) d
      | TYPE_UINT64 \<Rightarrow> convert_if (v_uint64 d \<le> SHRT_MAX) 16 (v_uint64 d) d
      | TYPE_FLOAT32 \<Rightarrow> convert_real (float32_le (v_float32 d) SHRT_MAX) 16 SHRT_MIN SHRT_MAX (v_float32 d) d
      | TYPE_FLOAT64 \<Rightarrow> convert_real (float64_le (v_float64 d) SHRT_MAX) 16 SHRT_MIN SHRT_MAX (v_float64 d) d
      | _ \<Rightarrow> Some None)"

definition convert_int32 :: "iot_data \<Rightarrow> iot_data option option" where
  "convert_int32 d =
     (case dtype d of
        TYPE_INT8 \<Rightarrow> IOT_CONVERT 32 (v_int8 d) d
      | TYPE_UINT8 \<Rightarrow> IOT_CONVERT 32 (v_uint8 d) d
      | TYPE_INT16 \<Rightarrow> IOT_CONVERT 32 (v_int16 d) d
      | TYPE_UINT16 \<Rightarrow> IOT_CONVERT 32 (v_uint16 d) d
      | TYPE_INT64 \<Rightarrow> convert_if (in_range INT_MIN INT_MAX (v_int64 d)) 32 (v_int64 d) d
      | TYPE_UINT32 \<Rightarrow> convert_if (v_uint32 d \<le> INT_MAX) 32 (v_uint32 d) d
      | TYPE_UINT64 \<Rightarrow> convert_if (v_uint64 d \<le> INT_MAX) 32 (v_uint64 d) d
      | TYPE_FLOAT32 \<Rightarrow> convert_real (float32_le (v_float32 d) INT_MAX) 32 INT_MIN INT_MAX (v_float32 d) d
      | TYPE_FLOAT64 \<Rightarrow> convert_real (float64_le (v_float64 d) INT_MAX) 32 INT_MIN INT_MAX (v_float64 d) d
      | _ \<Rightarrow> Some None)"

definition convert_int64 :: "iot_data \<Rightarrow> iot_data option option" where
  "convert_int64 d =
     (case dtype d of
        TYPE_INT8 \<Rightarrow> IOT_CONVERT 64 (v_int8 d) d
      | TYPE_UINT8 \<Rightarrow> IOT_CONVERT 64 (v_uint8 d) d
      | TYPE_INT16 \<Rightarrow> IOT_CONVERT 64 (v_int16 d) d
      | TYPE_UINT16 \<Rightarrow> IOT_CONVERT 64 (v_uint16 d) d
      | TYPE_INT32 \<Rightarrow> IOT_CONVERT 64 (v_uint32 d) d
      | TYPE_UINT32 \<Rightarrow> IOT_CONVERT 64 (v_int32 d) d
      | TYPE_UINT64 \<Rightarrow> convert_if (v_uint64 d \<le> LONG_MAX) 64 (v_uint64 d) d
      | TYPE_FLOAT32 \<Rightarrow> convert_real (float32_le (v_float32 d) LONG_MAX) 64 LONG_MIN LONG_MAX (v_float32 d) d
      | TYPE_FLOAT64 \<Rightarrow> convert_real (float64_le (v_float64 d) LONG_MAX) 64 LONG_MIN LONG_MAX (v_float64 d) d
      | _ \<Rightarrow> Some None)"

definition convert_uint8 :: "iot_data \<Rightarrow> iot_data option option" where
  "convert_uint8 d =
     (case dtype d of
        TYPE_INT8 \<Rightarrow> convert_if (0 \<le> v_int8 d) 8 (v_int8 d) d
      | TYPE_INT16 \<Rightarrow> convert_if (in_range 0 UCHAR_MAX (v_int16 d)) 8 (v_int16 d) d
      | TYPE_INT32 \<Rightarrow> convert_if (in_range 0 UCHAR_MAX (v_int32 d)) 8 (v_int32 d) d
      | TYPE_INT64 \<Rightarrow> convert_if (in_range 0 UCHAR_MAX (v_int64 d)) 8 (v_int64 d) d
      | TYPE_UINT16 \<Rightarrow> convert_if (v_uint16 d \<le> UCHAR_MAX) 8 (v_uint16 d) d
      | TYPE_UINT32 \<Rightarrow> convert_if (v_uint32 d \<le> UCHAR_MAX) 8 (v_uint32 d) d
      | TYPE_UINT64 \<Rightarrow> convert_if (v_uint64 d \<le> UCHAR_MAX) 8 (v_uint64 d) d
      | TYPE_FLOAT32 \<Rightarrow> convert_real (float32_le (v_float32 d) UCHAR_MAX) 8 0 UCHAR_MAX (v_float32 d) d
      | TYPE_FLOAT64 \<Rightarrow> convert_real (float64_le (v_float64 d) UCHAR_MAX) 8 0 UCHAR_MAX (v_float64 d) d
      | _ \<Rightarrow> Some None)"

definition convert_uint16 :: "iot_data \<Rightarrow> iot_data option option" where
  "convert_uint16 d =
     (case dtype d of
        TYPE_UINT8 \<Rightarrow> IOT_CONVERT 16 (v_uint8 d) d
      | TYPE_INT8 \<Rightarrow> convert_if (0 \<le> v_int8 d) 16 (v_int8 d) d
      | TYPE_INT16 \<Rightarrow> convert_if (0 \<le> v_int16 d) 16 (v_int16 d) d
      | TYPE_INT32 \<Rightarrow> convert_if (in_range 0 USHRT_MAX (v_int32 d)) 16 (v_int32 d) d
      | TYPE_INT64 \<Rightarrow> convert_if (in_range 0 USHRT_MAX (v_int64 d)) 16 (v_int64 d) d
      | TYPE_UINT32 \<Rightarrow> convert_if (v_uint32 d \<le> USHRT_MAX) 16 (v_uint32 d) d
      | TYPE_UINT64 \<Rightarrow> convert_if (v_uint64 d \<le> USHRT_MAX) 16 (v_uint64 d) d
      | TYPE_FLOAT32 \<Rightarrow> convert_real (float32_le (v_float32 d) USHRT_MAX) 16 0 USHRT_MAX (v_float32 d) d
      | TYPE_FLOAT64 \<Rightarrow> convert_real (float64_le (v_float64 d) USHRT_MAX) 16 0 USHRT_MAX (v_float64 d) d
      | _ \<Rightarrow> Some None)"

definition convert_uint32 :: "iot_data \<Rightarrow> iot_data option option" where
  "convert_uint32 d =
     (case dtype d of
        TYPE_UINT8 \<Rightarrow> IOT_CONVERT 32 (v_uint8 d) d
      | TYPE_UINT16 \<Rightarrow> IOT_CONVERT 32 (v_uint16 d) d
      | TYPE_INT8 \<Rightarrow> convert_if (0 \<le> v_int8 d) 32 (v_int8 d) d
      | TYPE_INT16 \<Rightarrow> convert_if (0 \<le> v_int16 d) 32 (v_int16 d) d
      | TYPE_INT32 \<Rightarrow> convert_if (0 \<le> v_int32 d) 32 (v_int32 d) d
      | TYPE_INT64 \<Rightarrow> convert_if (in_range 0 UINT_MAX (v_int64 d)) 32 (v_int64 d) d
      | TYPE_UINT64 \<Rightarrow> convert_if (v_uint64 d \<le> UINT_MAX) 32 (v_uint64 d) d
      | TYPE_FLOAT32 \<Rightarrow> convert_real (float32_le (v_float32 d) UINT_MAX) 32 0 UINT_MAX (v_float32 d) d
      | TYPE_FLOAT64 \<Rightarrow> convert_real (float64_le (v_float64 d) UINT_MAX) 32 0 UINT_MAX (v_float64 d) d
      | _ \<Rightarrow> Some None)"

definition convert_uint64 :: "iot_data \<Rightarrow> iot_data option option" where
  "convert_uint64 d =
     (case dtype d of
        TYPE_UINT8 \<Rightarrow> IOT_CONVERT 64 (v_uint8 d) d
      | TYPE_UINT16 \<Rightarrow> IOT_CONVERT 64 (v_uint16 d) d
      | TYPE_UINT32 \<Rightarrow> IOT_CONVERT 64 (v_uint32 d) d
      | TYPE_INT8 \<Rightarrow> convert_if (0 \<le> v_int8 d) 64 (v_int8 d) d
      | TYPE_INT16 \<Rightarrow> convert_if (0 \<le> v_int16 d) 64 (v_int16 d) d
      | TYPE_INT32 \<Rightarrow> convert_if (0 \<le> v_int32 d) 64 (v_int32 d) d
      | TYPE_INT64 \<Rightarrow> convert_if (0 \<le> v_int64 d) 64 (v_int64 d) d
      | TYPE_FLOAT32 \<Rightarrow> convert_real (float32_le (v_float32 d) ULONG_MAX) 64 0 ULONG_MAX (v_float32 d) d
      | TYPE_FLOAT64 \<Rightarrow> convert_real (float64_le (v_float64 d) ULONG_MAX) 64 0 ULONG_MAX (v_float64 d) d
      | _ \<Rightarrow> Some None)"

text \<open>
  A string held in the value's own heap storage is decoded in place. The block is read four
  characters ahead of the three bytes written, so the decoder sees the original text.
\<close>

definition convert_raw :: "heap \<Rightarrow> iot_data \<Rightarrow> (iot_data option \<times> heap) option" where
  "convert_raw h d =
     (if dtype d = TYPE_STRING \<and> lo d = heap_storage d
      then do {
        s \<leftarrow> read_string (lo d) h;
        b \<leftarrow> read_bytes (lo d) h;
        (bs, len) \<leftarrow> iot_base64_decode True (length s) (Some (chars_of b)) (length s);
        let h = h\<lparr>cells := (cells h)(heap_storage d \<mapsto> Bytes (bs @ drop (length bs) b))\<rparr>;
        Some (if 0 \<le> len
              then Some (d\<lparr>lo := word_of_int len, hi := heap_storage d\<rparr>) else None, h)
      }
      else Some (None, h))"

text \<open>The whole \<open>switch ( to_type )\<close> of the basic conversion.\<close>

definition basic_conversion ::
    "iot_type \<Rightarrow> heap \<Rightarrow> iot_data \<Rightarrow> (iot_data option \<times> heap) option" where
  "basic_conversion to_type h d =
     (let scalar = map_option (\<lambda>r. (r, h)) in
      case to_type of
        TYPE_FLOAT32 \<Rightarrow> scalar (convert_float32 d)
      | TYPE_FLOAT64 \<Rightarrow> scalar (convert_float64 d)
      | TYPE_INT8 \<Rightarrow> scalar (convert_int8 d)
      | TYPE_INT16 \<Rightarrow> scalar (convert_int16 d)
      | TYPE_INT32 \<Rightarrow> scalar (convert_int32 d)
      | TYPE_INT64 \<Rightarrow> scalar (convert_int64 d)
      | TYPE_UINT8 \<Rightarrow> scalar (convert_uint8 d)
      | TYPE_UINT16 \<Rightarrow> scalar (convert_uint16 d)
      | TYPE_UINT32 \<Rightarrow> scalar (convert_uint32 d)
      | TYPE_UINT64 \<Rightarrow> scalar (convert_uint64 d)
      | TYPE_RAW \<Rightarrow> convert_raw h d
      | _ \<Rightarrow> Some (None, h))"

definition is_numeric :: "iot_type \<Rightarrow> bool" where
  "is_numeric t \<longleftrightarrow> t \<in> {TYPE_FLOAT32, TYPE_FLOAT64, TYPE_INT8, TYPE_INT16, TYPE_INT32, TYPE_INT64,
     TYPE_UINT8, TYPE_UINT16, TYPE_UINT32, TYPE_UINT64}"

text \<open>
  The \<open>switch\<close> of the advanced conversion, with its fall-through from \<open>STRING\<close> to \<open>BOOL\<close> to the
  numeric types; both functions contain it. It only decides: no value is changed.
\<close>

definition advanced_conversion :: "iot_type \<Rightarrow> iot_type \<Rightarrow> bool" where
  "advanced_conversion to_type from =
     (let numeric = from \<in> {TYPE_NULL, TYPE_BOOL, TYPE_STRING} \<or> is_numeric from;
          bool = from = TYPE_RAW \<or> numeric
      in case to_type of
        TYPE_STRING \<Rightarrow> from = TYPE_BOOL \<or> bool
      | TYPE_BOOL \<Rightarrow> bool
      | TYPE_RAW \<Rightarrow> from = TYPE_STRING \<or> from = TYPE_NULL
      | TYPE_LOCATION \<Rightarrow> False
      | TYPE_NULL \<Rightarrow> False
      | _ \<Rightarrow> numeric)"

text \<open>The function; a NULL \<open>obj\<close> is \<open>None\<close>, the returned object is \<open>*obj\<close> afterwards.\<close>

definition iot_common_data_convert ::
    "iot_conversion \<Rightarrow> iot_type \<Rightarrow> heap \<Rightarrow> iot_data option \<Rightarrow>
     (bool \<times> iot_data option \<times> heap) option" where
  "iot_common_data_convert conversion to_type h obj =
     (case obj of
        None \<Rightarrow> Some (False, None, h)
      | Some d \<Rightarrow> do {
          let result = (to_type = dtype d);
          (result, d, h) \<leftarrow>
            (if \<not> result \<and> conversion \<noteq> CONVERSION_NONE
             then do {
               let (result, d) = (if \<not> has_value d then (True, data_zero) else (False, d));
               (r, h) \<leftarrow> basic_conversion to_type h d;
               Some (case r of Some d' \<Rightarrow> (True, d', h) | None \<Rightarrow> (result, d, h))
             }
             else Some (result, d, h));
          let result = (result \<or>
            (conversion = CONVERSION_ADVANCED \<and> advanced_conversion to_type (dtype d)));
          Some (result, Some (if result then d\<lparr>dtype := to_type\<rparr> else d), h)
        })"

section \<open>The check\<close>

definition check_float32 :: "iot_data \<Rightarrow> bool option" where
  "check_float32 d =
     (case dtype d of
        TYPE_FLOAT64 \<Rightarrow> Some (fp_le (v_float64 d) FLT_MAX)
      | TYPE_INT8 \<Rightarrow> Some True
      | TYPE_INT16 \<Rightarrow> Some True
      | TYPE_INT32 \<Rightarrow> Some True
      | TYPE_INT64 \<Rightarrow> Some True
      | TYPE_UINT8 \<Rightarrow> Some True
      | TYPE_UINT16 \<Rightarrow> Some True
      | TYPE_UINT32 \<Rightarrow> Some True
      | TYPE_UINT64 \<Rightarrow> Some True
      | _ \<Rightarrow> Some False)"

definition check_float64 :: "iot_data \<Rightarrow> bool option" where
  "check_float64 d =
     (case dtype d of
        TYPE_FLOAT32 \<Rightarrow> Some True
      | TYPE_INT8 \<Rightarrow> Some True
      | TYPE_INT16 \<Rightarrow> Some True
      | TYPE_INT32 \<Rightarrow> Some True
      | TYPE_INT64 \<Rightarrow> Some True
      | TYPE_UINT8 \<Rightarrow> Some True
      | TYPE_UINT16 \<Rightarrow> Some True
      | TYPE_UINT32 \<Rightarrow> Some True
      | TYPE_UINT64 \<Rightarrow> Some True
      | _ \<Rightarrow> Some False)"

definition check_int8 :: "iot_data \<Rightarrow> bool option" where
  "check_int8 d =
     (case dtype d of
        TYPE_INT16 \<Rightarrow> Some (in_range SCHAR_MIN SCHAR_MAX (v_int16 d))
      | TYPE_INT32 \<Rightarrow> Some (in_range SCHAR_MIN SCHAR_MAX (v_int32 d))
      | TYPE_INT64 \<Rightarrow> Some (in_range SCHAR_MIN SCHAR_MAX (v_int64 d))
      | TYPE_UINT8 \<Rightarrow> Some (v_uint8 d \<le> SCHAR_MAX)
      | TYPE_UINT16 \<Rightarrow> Some (v_uint16 d \<le> SCHAR_MAX)
      | TYPE_UINT32 \<Rightarrow> Some (v_uint32 d \<le> SCHAR_MAX)
      | TYPE_UINT64 \<Rightarrow> Some (v_uint64 d \<le> SCHAR_MAX)
      | TYPE_FLOAT32 \<Rightarrow> check_real (float32_le (v_float32 d) SCHAR_MAX) (v_float32 d)
      | TYPE_FLOAT64 \<Rightarrow> check_real (float64_le (v_float64 d) SCHAR_MAX) (v_float64 d)
      | _ \<Rightarrow> Some False)"

definition check_int16 :: "iot_data \<Rightarrow> bool option" where
  "check_int16 d =
     (case dtype d of
        TYPE_INT8 \<Rightarrow> Some True
      | TYPE_UINT8 \<Rightarrow> Some True
      | TYPE_INT32 \<Rightarrow> Some (in_range SHRT_MIN SHRT_MAX (v_int32 d))
      | TYPE_INT64 \<Rightarrow> Some (in_range SHRT_MIN SHRT_MAX (v_int64 d))
      | TYPE_UINT16 \<Rightarrow> Some (v_uint16 d \<le> SHRT_MAX)
      | TYPE_UINT32 \<Rightarrow> Some (v_uint32 d \<le> SHRT_MAX)
      | TYPE_UINT64 \<Rightarrow> Some (v_uint64 d \<le> SHRT_MAX)
      | TYPE_FLOAT32 \<Rightarrow> check_real (float32_le (v_float32 d) SHRT_MAX) (v_float32 d)
      | TYPE_FLOAT64 \<Rightarrow> check_real (float64_le (v_float64 d) SHRT_MAX) (v_float64 d)
      | _ \<Rightarrow> Some False)"

definition check_int32 :: "iot_data \<Rightarrow> bool option" where
  "check_int32 d =
     (case dtype d of
        TYPE_INT8 \<Rightarrow> Some True
      | TYPE_UINT8 \<Rightarrow> Some True
      | TYPE_INT16 \<Rightarrow> Some True
      | TYPE_UINT16 \<Rightarrow> Some True
      | TYPE_INT64 \<Rightarrow> Some (in_range INT_MIN INT_MAX (v_int64 d))
      | TYPE_UINT32 \<Rightarrow> Some (v_uint32 d \<le> INT_MAX)
      | TYPE_UINT64 \<Rightarrow> Some (v_uint64 d \<le> INT_MAX)
      | TYPE_FLOAT32 \<Rightarrow> check_real (float32_le (v_float32 d) INT_MAX) (v_float32 d)
      | TYPE_FLOAT64 \<Rightarrow> check_real (float64_le (v_float64 d) INT_MAX) (v_float64 d)
      | _ \<Rightarrow> Some False)"

definition check_int64 :: "iot_data \<Rightarrow> bool option" where
  "check_int64 d =
     (case dtype d of
        TYPE_INT8 \<Rightarrow> Some True
      | TYPE_UINT8 \<Rightarrow> Some True
      | TYPE_INT16 \<Rightarrow> Some True
      | TYPE_UINT16 \<Rightarrow> Some True
      | TYPE_INT32 \<Rightarrow> Some True
      | TYPE_UINT32 \<Rightarrow> Some True
      | TYPE_UINT64 \<Rightarrow> Some (v_uint64 d \<le> LONG_MAX)
      | TYPE_FLOAT32 \<Rightarrow> check_real (float32_le (v_float32 d) LONG_MAX) (v_float32 d)
      | TYPE_FLOAT64 \<Rightarrow> check_real (float64_le (v_float64 d) LONG_MAX) (v_float64 d)
      | _ \<Rightarrow> Some False)"

definition check_uint8 :: "iot_data \<Rightarrow> bool option" where
  "check_uint8 d =
     (case dtype d of
        TYPE_INT8 \<Rightarrow> Some (0 \<le> v_int8 d)
      | TYPE_INT16 \<Rightarrow> Some (in_range 0 UCHAR_MAX (v_int16 d))
      | TYPE_INT32 \<Rightarrow> Some (in_range 0 UCHAR_MAX (v_int32 d))
      | TYPE_INT64 \<Rightarrow> Some (in_range 0 UCHAR_MAX (v_int64 d))
      | TYPE_UINT16 \<Rightarrow> Some (v_uint16 d \<le> UCHAR_MAX)
      | TYPE_UINT32 \<Rightarrow> Some (v_uint32 d \<le> UCHAR_MAX)
      | TYPE_UINT64 \<Rightarrow> Some (v_uint64 d \<le> UCHAR_MAX)
      | TYPE_FLOAT32 \<Rightarrow> check_real (float32_le (v_float32 d) UCHAR_MAX) (v_float32 d)
      | TYPE_FLOAT64 \<Rightarrow> check_real (float64_le (v_float64 d) UCHAR_MAX) (v_float64 d)
      | _ \<Rightarrow> Some False)"

definition check_uint16 :: "iot_data \<Rightarrow> bool option" where
  "check_uint16 d =
     (case dtype d of
        TYPE_UINT8 \<Rightarrow> Some True
      | TYPE_INT8 \<Rightarrow> Some (0 \<le> v_int8 d)
      | TYPE_INT16 \<Rightarrow> Some (0 \<le> v_int16 d)
      | TYPE_INT32 \<Rightarrow> Some (in_range 0 USHRT_MAX (v_int32 d))
      | TYPE_INT64 \<Rightarrow> Some (in_range 0 USHRT_MAX (v_int64 d))
      | TYPE_UINT32 \<Rightarrow> Some (v_uint32 d \<le> USHRT_MAX)
      | TYPE_UINT64 \<Rightarrow> Some (v_uint64 d \<le> USHRT_MAX)
      | TYPE_FLOAT32 \<Rightarrow> check_real (float32_le (v_float32 d) USHRT_MAX) (v_float32 d)
      | TYPE_FLOAT64 \<Rightarrow> check_real (float64_le (v_float64 d) USHRT_MAX) (v_float64 d)
      | _ \<Rightarrow> Some False)"

definition check_uint32 :: "iot_data \<Rightarrow> bool option" where
  "check_uint32 d =
     (case dtype d of
        TYPE_UINT8 \<Rightarrow> Some True
      | TYPE_UINT16 \<Rightarrow> Some True
      | TYPE_INT8 \<Rightarrow> Some (0 \<le> v_int8 d)
      | TYPE_INT16 \<Rightarrow> Some (0 \<le> v_int16 d)
      | TYPE_INT32 \<Rightarrow> Some (0 \<le> v_int32 d)
      | TYPE_INT64 \<Rightarrow> Some (in_range 0 UINT_MAX (v_int64 d))
      | TYPE_UINT64 \<Rightarrow> Some (v_uint64 d \<le> UINT_MAX)
      | TYPE_FLOAT32 \<Rightarrow> check_real (float32_le (v_float32 d) UINT_MAX) (v_float32 d)
      | TYPE_FLOAT64 \<Rightarrow> check_real (float64_le (v_float64 d) UINT_MAX) (v_float64 d)
      | _ \<Rightarrow> Some False)"

definition check_uint64 :: "iot_data \<Rightarrow> bool option" where
  "check_uint64 d =
     (case dtype d of
        TYPE_UINT8 \<Rightarrow> Some True
      | TYPE_UINT16 \<Rightarrow> Some True
      | TYPE_UINT32 \<Rightarrow> Some True
      | TYPE_INT8 \<Rightarrow> Some (0 \<le> v_int8 d)
      | TYPE_INT16 \<Rightarrow> Some (0 \<le> v_int16 d)
      | TYPE_INT32 \<Rightarrow> Some (0 \<le> v_int32 d)
      | TYPE_INT64 \<Rightarrow> Some (0 \<le> v_int64 d)
      | TYPE_FLOAT32 \<Rightarrow> check_real (float32_le (v_float32 d) ULONG_MAX) (v_float32 d)
      | TYPE_FLOAT64 \<Rightarrow> check_real (float64_le (v_float64 d) ULONG_MAX) (v_float64 d)
      | _ \<Rightarrow> Some False)"

text \<open>
  The scan of a string for base64 characters. It stops at the first character that is
  neither a letter nor + nor /, then skips equal signs (the counter that should limit them to
  two is never incremented), and the string is accepted when the scan ends on the NUL.
\<close>

definition base64_letter :: "char \<Rightarrow> bool" where
  "base64_letter c \<longleftrightarrow> (CHR ''A'' \<le> c \<and> c \<le> CHR ''Z'') \<or> (CHR ''a'' \<le> c \<and> c \<le> CHR ''z'')
     \<or> c = CHR ''+'' \<or> c = CHR ''/''"

definition check_raw :: "heap \<Rightarrow> iot_data \<Rightarrow> bool option" where
  "check_raw h d =
     (if dtype d = TYPE_STRING \<and> lo d = heap_storage d
      then (if lo d = NULL then Some False
            else do {
              b \<leftarrow> read_bytes (lo d) h;
              let v = chars_of b;
              let n = length (takeWhile base64_letter v);
              let str_len = n + length (takeWhile (\<lambda>c. c = CHR ''='') (drop n v));
              c \<leftarrow> load v str_len;
              Some (c = CHR 0x00 \<and> str_len mod 3 = 0)
            })
      else Some False)"

definition basic_check :: "iot_type \<Rightarrow> heap \<Rightarrow> iot_data \<Rightarrow> bool option" where
  "basic_check to_type h d =
     (case to_type of
        TYPE_FLOAT32 \<Rightarrow> check_float32 d
      | TYPE_FLOAT64 \<Rightarrow> check_float64 d
      | TYPE_INT8 \<Rightarrow> check_int8 d
      | TYPE_INT16 \<Rightarrow> check_int16 d
      | TYPE_INT32 \<Rightarrow> check_int32 d
      | TYPE_INT64 \<Rightarrow> check_int64 d
      | TYPE_UINT8 \<Rightarrow> check_uint8 d
      | TYPE_UINT16 \<Rightarrow> check_uint16 d
      | TYPE_UINT32 \<Rightarrow> check_uint32 d
      | TYPE_UINT64 \<Rightarrow> check_uint64 d
      | TYPE_RAW \<Rightarrow> check_raw h d
      | _ \<Rightarrow> Some False)"

definition iot_common_data_convert_check ::
    "iot_conversion \<Rightarrow> iot_type \<Rightarrow> heap \<Rightarrow> iot_data option \<Rightarrow> bool option" where
  "iot_common_data_convert_check conversion to_type h from =
     (case from of
        None \<Rightarrow> Some False
      | Some d \<Rightarrow> do {
          let result = (to_type = dtype d);
          result \<leftarrow>
            (if \<not> result \<and> conversion \<noteq> CONVERSION_NONE
             then do { r \<leftarrow> basic_check to_type h d; Some (\<not> has_value d \<or> r) }
             else Some result);
          Some (result \<or> (conversion = CONVERSION_ADVANCED \<and> advanced_conversion to_type (dtype d)))
        })"

section \<open>Integers\<close>

text \<open>The number an object of an integer type stands for, and the range of each type.\<close>

definition int_value :: "iot_data \<Rightarrow> int option" where
  "int_value d =
     (case dtype d of
        TYPE_INT8 \<Rightarrow> Some (v_int8 d)
      | TYPE_INT16 \<Rightarrow> Some (v_int16 d)
      | TYPE_INT32 \<Rightarrow> Some (v_int32 d)
      | TYPE_INT64 \<Rightarrow> Some (v_int64 d)
      | TYPE_UINT8 \<Rightarrow> Some (v_uint8 d)
      | TYPE_UINT16 \<Rightarrow> Some (v_uint16 d)
      | TYPE_UINT32 \<Rightarrow> Some (v_uint32 d)
      | TYPE_UINT64 \<Rightarrow> Some (v_uint64 d)
      | _ \<Rightarrow> None)"

definition int_range :: "iot_type \<Rightarrow> (int \<times> int) option" where
  "int_range t =
     (case t of
        TYPE_INT8 \<Rightarrow> Some (SCHAR_MIN, SCHAR_MAX)
      | TYPE_INT16 \<Rightarrow> Some (SHRT_MIN, SHRT_MAX)
      | TYPE_INT32 \<Rightarrow> Some (INT_MIN, INT_MAX)
      | TYPE_INT64 \<Rightarrow> Some (LONG_MIN, LONG_MAX)
      | TYPE_UINT8 \<Rightarrow> Some (0, UCHAR_MAX)
      | TYPE_UINT16 \<Rightarrow> Some (0, USHRT_MAX)
      | TYPE_UINT32 \<Rightarrow> Some (0, UINT_MAX)
      | TYPE_UINT64 \<Rightarrow> Some (0, ULONG_MAX)
      | _ \<Rightarrow> None)"

lemma member_type [simp]:
  "signed_member w (d\<lparr>dtype := t\<rparr>) = signed_member w d"
  "unsigned_member w (d\<lparr>dtype := t\<rparr>) = unsigned_member w d"
  "v_float32 (d\<lparr>dtype := t\<rparr>) = v_float32 d"
  "v_float64 (d\<lparr>dtype := t\<rparr>) = v_float64 d"
  by (simp_all add: signed_member_def unsigned_member_def v_float32_def v_float64_def)

lemmas member_ranges =
  signed_member_range[of 8, simplified] signed_member_range[of 16, simplified]
  signed_member_range[of 32, simplified] signed_member_range[of 64, simplified]
  unsigned_member_range[of 8, simplified] unsigned_member_range[of 16, simplified]
  unsigned_member_range[of 32, simplified] unsigned_member_range[of 64, simplified]

lemma unsigned_low_part:
  assumes "v \<le> w" and "w \<le> 64"
  shows "set_member v (unsigned_member w d) d = set_member v (unsigned_member v d) d"
proof -
  have "take_bit v (word_of_int (take_bit w (uint (lo d))) :: u64) =
      take_bit v (word_of_int (take_bit v (uint (lo d))))"
    by (rule bit_word_eqI) (use assms in \<open>auto simp: bit_simps\<close>)
  then show ?thesis by (simp add: set_member_def unsigned_member_def)
qed

text \<open>What a conversion between integer types stores: the value, when the target holds it.\<close>

lemmas convert_int_defs =
  convert_int8_def convert_int16_def convert_int32_def convert_int64_def
  convert_uint8_def convert_uint16_def convert_uint32_def convert_uint64_def

lemmas check_int_defs =
  check_int8_def check_int16_def check_int32_def check_int64_def
  check_uint8_def check_uint16_def check_uint32_def check_uint64_def

definition wide_slip :: "iot_type \<Rightarrow> iot_type \<Rightarrow> int \<Rightarrow> bool" where
  "wide_slip to from v \<longleftrightarrow> to = TYPE_INT64 \<and> from \<in> {TYPE_INT32, TYPE_UINT32} \<and> \<not> (0 \<le> v \<and> v < 2 ^ 31)"

text \<open>What the swap makes of the number.\<close>

definition converted :: "iot_type \<Rightarrow> iot_type \<Rightarrow> int \<Rightarrow> int" where
  "converted to from v = (if wide_slip to from v then (if v < 0 then v + 2 ^ 32 else v - 2 ^ 32) else v)"

definition type_width :: "iot_type \<Rightarrow> nat" where
  "type_width t =
     (case t of
        TYPE_INT8 \<Rightarrow> 8 | TYPE_UINT8 \<Rightarrow> 8 | TYPE_INT16 \<Rightarrow> 16 | TYPE_UINT16 \<Rightarrow> 16
      | TYPE_INT32 \<Rightarrow> 32 | TYPE_UINT32 \<Rightarrow> 32 | TYPE_FLOAT32 \<Rightarrow> 32 | TYPE_BOOL \<Rightarrow> 32 | _ \<Rightarrow> 64)"

lemma signed_unsigned_32:
  "0 \<le> v_int32 d \<Longrightarrow> v_uint32 d = v_int32 d"
  "v_uint32 d < 2 ^ 31 \<Longrightarrow> v_int32 d = v_uint32 d"
proof -
  have "v_int32 d = v_uint32 d - 2 ^ 32 * of_bool (bit (uint (lo d)) 31)"
    using signed_take_bit_eq_take_bit_minus[of 31 "uint (lo d)"]
    by (simp add: signed_member_def unsigned_member_def)
  then show "0 \<le> v_int32 d \<Longrightarrow> v_uint32 d = v_int32 d"
    and "v_uint32 d < 2 ^ 31 \<Longrightarrow> v_int32 d = v_uint32 d"
    using member_ranges(3,7)[of d] by (auto split: if_splits simp: of_bool_def)
qed

lemmas int_conversion_simps =
  convert_if_def IOT_CONVERT_def in_range_def int_value_def

lemma convert_int8_int:
  assumes "int_value d = Some v" and "dtype d \<noteq> TYPE_INT8"
  shows "convert_int8 d = Some (if SCHAR_MIN \<le> v \<and> v \<le> SCHAR_MAX then Some (set_member 8 v d) else None)"
    and "check_int8 d = Some (SCHAR_MIN \<le> v \<and> v \<le> SCHAR_MAX)"
  by (cases "dtype d"; use assms member_ranges[of d] in
      \<open>simp add: int_conversion_simps convert_int8_def check_int8_def\<close>)+

lemma convert_int16_int:
  assumes "int_value d = Some v" and "dtype d \<noteq> TYPE_INT16"
  shows "convert_int16 d = Some (if SHRT_MIN \<le> v \<and> v \<le> SHRT_MAX then Some (set_member 16 v d) else None)"
    and "check_int16 d = Some (SHRT_MIN \<le> v \<and> v \<le> SHRT_MAX)"
  by (cases "dtype d"; use assms member_ranges[of d] unsigned_low_part[of 16 64 d] unsigned_low_part[of 16 32 d] in
      \<open>simp add: int_conversion_simps convert_int16_def check_int16_def\<close>)+

lemma convert_int32_int:
  assumes "int_value d = Some v" and "dtype d \<noteq> TYPE_INT32"
  shows "convert_int32 d = Some (if INT_MIN \<le> v \<and> v \<le> INT_MAX then Some (set_member 32 v d) else None)"
    and "check_int32 d = Some (INT_MIN \<le> v \<and> v \<le> INT_MAX)"
  by (cases "dtype d"; use assms member_ranges[of d] in
      \<open>simp add: int_conversion_simps convert_int32_def check_int32_def\<close>)+

lemma signed_unsigned_slip:
  "v_int32 d < 0 \<Longrightarrow> v_uint32 d = v_int32 d + 2 ^ 32"
  "2 ^ 31 \<le> v_uint32 d \<Longrightarrow> v_int32 d = v_uint32 d - 2 ^ 32"
proof -
  have "v_int32 d = v_uint32 d - 2 ^ 32 * of_bool (bit (uint (lo d)) 31)"
    using signed_take_bit_eq_take_bit_minus[of 31 "uint (lo d)"]
    by (simp add: signed_member_def unsigned_member_def)
  then show "v_int32 d < 0 \<Longrightarrow> v_uint32 d = v_int32 d + 2 ^ 32"
    and "2 ^ 31 \<le> v_uint32 d \<Longrightarrow> v_int32 d = v_uint32 d - 2 ^ 32"
    using member_ranges(3,7)[of d] by (auto split: if_splits simp: of_bool_def)
qed

lemma converted_32:
  "v_uint32 d = converted TYPE_INT64 TYPE_INT32 (v_int32 d)"
  "v_int32 d = converted TYPE_INT64 TYPE_UINT32 (v_uint32 d)"
proof -
  note 32 = signed_unsigned_32[of d] signed_unsigned_slip[of d] member_ranges(3,7)[of d]
  have up: "v_int32 d \<le> INT_MAX" and low: "0 \<le> v_uint32 d" using member_ranges[of d] by simp_all
  show "v_uint32 d = converted TYPE_INT64 TYPE_INT32 (v_int32 d)"
  proof (cases "0 \<le> v_int32 d")
    case True
    then show ?thesis using 32(1)[OF True] up by (simp add: converted_def wide_slip_def del: One_nat_def)
  next
    case False
    then have "v_int32 d < 0" by simp
    from 32(3)[OF this] False show ?thesis by (simp add: converted_def wide_slip_def)
  qed
  show "v_int32 d = converted TYPE_INT64 TYPE_UINT32 (v_uint32 d)"
  proof (cases "v_uint32 d < 2 ^ 31")
    case True
    then show ?thesis using 32(2)[OF True] low by (simp add: converted_def wide_slip_def)
  next
    case False
    then have "2 ^ 31 \<le> v_uint32 d" by simp
    from 32(4)[OF this] False low show ?thesis by (simp add: converted_def wide_slip_def)
  qed
qed

lemma converted_other:
  "from \<notin> {TYPE_INT32, TYPE_UINT32} \<Longrightarrow> converted to from v = v"
  by (simp add: converted_def wide_slip_def)

lemma convert_int64_wide:
  assumes "dtype d \<in> {TYPE_INT32, TYPE_UINT32}" and "int_value d = Some v"
  shows "convert_int64 d = Some (Some (set_member 64 (converted TYPE_INT64 (dtype d) v) d))"
    and "LONG_MIN \<le> v \<and> v \<le> LONG_MAX" and "check_int64 d = Some True"
proof -
  consider "dtype d = TYPE_INT32" "v = v_int32 d" | "dtype d = TYPE_UINT32" "v = v_uint32 d"
    using assms by (auto simp: int_value_def)
  note kinds = this
  show "convert_int64 d = Some (Some (set_member 64 (converted TYPE_INT64 (dtype d) v) d))"
    by (cases rule: kinds)
      (simp_all only: convert_int64_def IOT_CONVERT_def iot_type.case converted_32[symmetric])
  show "LONG_MIN \<le> v \<and> v \<le> LONG_MAX"
    by (cases rule: kinds) (use member_ranges[of d] in simp_all)
  show "check_int64 d = Some True"
    by (cases rule: kinds) (simp_all add: check_int64_def)
qed

lemma convert_int64_int:
  assumes "int_value d = Some v" and "dtype d \<noteq> TYPE_INT64"
  shows "convert_int64 d = Some (if LONG_MIN \<le> v \<and> v \<le> LONG_MAX
      then Some (set_member 64 (converted TYPE_INT64 (dtype d) v) d) else None)" (is ?stored)
    and "check_int64 d = Some (LONG_MIN \<le> v \<and> v \<le> LONG_MAX)" (is ?checked)
proof -
  have "?stored \<and> ?checked"
  proof (cases "dtype d \<in> {TYPE_INT32, TYPE_UINT32}")
    case True
    note wide = convert_int64_wide[OF True assms(1)]
    show ?thesis unfolding wide(1,3) if_P[OF wide(2)] using wide(2) by simp
  next
    case False
    show ?thesis unfolding converted_other[OF False]
      by (cases "dtype d"; use assms False member_ranges[of d] in
          \<open>simp add: int_conversion_simps convert_int64_def check_int64_def\<close>)
  qed
  then show ?stored ?checked by blast+
qed

lemma convert_uint8_int:
  assumes "int_value d = Some v" and "dtype d \<noteq> TYPE_UINT8"
  shows "convert_uint8 d = Some (if 0 \<le> v \<and> v \<le> UCHAR_MAX then Some (set_member 8 v d) else None)"
    and "check_uint8 d = Some (0 \<le> v \<and> v \<le> UCHAR_MAX)"
  by (cases "dtype d"; use assms member_ranges[of d] in
      \<open>simp add: int_conversion_simps convert_uint8_def check_uint8_def\<close>)+

lemma convert_uint16_int:
  assumes "int_value d = Some v" and "dtype d \<noteq> TYPE_UINT16"
  shows "convert_uint16 d = Some (if 0 \<le> v \<and> v \<le> USHRT_MAX then Some (set_member 16 v d) else None)"
    and "check_uint16 d = Some (0 \<le> v \<and> v \<le> USHRT_MAX)"
  by (cases "dtype d"; use assms member_ranges[of d] in
      \<open>simp add: int_conversion_simps convert_uint16_def check_uint16_def\<close>)+

lemma convert_uint32_int:
  assumes "int_value d = Some v" and "dtype d \<noteq> TYPE_UINT32"
  shows "convert_uint32 d = Some (if 0 \<le> v \<and> v \<le> UINT_MAX then Some (set_member 32 v d) else None)"
    and "check_uint32 d = Some (0 \<le> v \<and> v \<le> UINT_MAX)"
  by (cases "dtype d"; use assms member_ranges[of d] in
      \<open>simp add: int_conversion_simps convert_uint32_def check_uint32_def\<close>)+

lemma convert_uint64_int:
  assumes "int_value d = Some v" and "dtype d \<noteq> TYPE_UINT64"
  shows "convert_uint64 d = Some (if 0 \<le> v \<and> v \<le> ULONG_MAX then Some (set_member 64 v d) else None)"
    and "check_uint64 d = Some (0 \<le> v \<and> v \<le> ULONG_MAX)"
  by (cases "dtype d"; use assms member_ranges[of d] in
      \<open>simp add: int_conversion_simps convert_uint64_def check_uint64_def\<close>)+

lemmas convert_int_int =
  convert_int8_int convert_int16_int convert_int32_int convert_int64_int
  convert_uint8_int convert_uint16_int convert_uint32_int convert_uint64_int

lemma basic_conversion_int:
  assumes v: "int_value d = Some v" and r: "int_range to = Some (a, b)" and ne: "to \<noteq> dtype d"
  shows "basic_conversion to h d =
      Some (if a \<le> v \<and> v \<le> b then Some (set_member (type_width to) (converted to (dtype d) v) d) else None, h)"
    and "basic_check to h d = Some (a \<le> v \<and> v \<le> b)"
  by (cases to; use assms convert_int_int[OF v] in
      \<open>simp add: basic_conversion_def basic_check_def int_range_def type_width_def converted_def wide_slip_def\<close>)+

lemma converted_range:
  assumes "int_value d = Some v" and "int_range to = Some (a, b)" and "a \<le> v" and "v \<le> b"
  shows "a \<le> converted to (dtype d) v" and "converted to (dtype d) v \<le> b"
  using assms member_ranges[of d]
  by (auto simp: converted_def wide_slip_def int_value_def int_range_def split: if_splits)

lemma advanced_integers:
  "int_value d = Some v \<Longrightarrow> int_range to = Some (a, b) \<Longrightarrow> advanced_conversion to (dtype d)"
  by (cases to; cases "dtype d"; simp add: int_value_def int_range_def advanced_conversion_def is_numeric_def Let_def)

lemma int_value_set_member:
  assumes "int_range to = Some (a, b)" and "a \<le> v" and "v \<le> b"
  shows "int_value ((set_member (type_width to) v d)\<lparr>dtype := to\<rparr>) = Some v"
  using assms
  by (cases to)
    (simp_all add: int_range_def type_width_def int_value_def signed_take_bit_int_eq_self
      take_bit_int_eq_self)

section \<open>Reals\<close>

lemma convert_real_cases:
  "convert_real c w a b x d = Some r \<Longrightarrow> check_real c x = Some (r \<noteq> None)"
  "convert_real c w a b x d = Some (Some d') \<Longrightarrow>
     \<exists>i. fp_trunc x = Some i \<and> a \<le> i \<and> i \<le> b \<and> d' = set_member w i d"
  by (auto simp: convert_real_def check_real_def fp_to_int_def IOT_CONVERT_def
      split: if_splits bind_splits)

lemma convert_if_check: "convert_if c w i d = Some r \<Longrightarrow> (r \<noteq> None) = c"
  by (auto simp: convert_if_def IOT_CONVERT_def split: if_splits)

lemmas convert_checks = convert_real_cases(1) convert_if_check

lemma convert_check_scalar:
  "convert_float32 d = Some r \<Longrightarrow> check_float32 d = Some (r \<noteq> None)"
  "convert_float64 d = Some r \<Longrightarrow> check_float64 d = Some (r \<noteq> None)"
  "convert_int8 d = Some r \<Longrightarrow> check_int8 d = Some (r \<noteq> None)"
  "convert_int16 d = Some r \<Longrightarrow> check_int16 d = Some (r \<noteq> None)"
  "convert_int32 d = Some r \<Longrightarrow> check_int32 d = Some (r \<noteq> None)"
  "convert_int64 d = Some r \<Longrightarrow> check_int64 d = Some (r \<noteq> None)"
  "convert_uint8 d = Some r \<Longrightarrow> check_uint8 d = Some (r \<noteq> None)"
  "convert_uint16 d = Some r \<Longrightarrow> check_uint16 d = Some (r \<noteq> None)"
  "convert_uint32 d = Some r \<Longrightarrow> check_uint32 d = Some (r \<noteq> None)"
  "convert_uint64 d = Some r \<Longrightarrow> check_uint64 d = Some (r \<noteq> None)"
  unfolding convert_float32_def check_float32_def convert_float64_def check_float64_def
    convert_int_defs check_int_defs
  by (auto simp: IOT_CONVERT_def dest: convert_real_cases(1) convert_if_check split: iot_type.splits)

lemma basic_conversion_check:
  assumes "to \<noteq> TYPE_RAW" and "basic_conversion to h d = Some (r, h')"
  shows "basic_check to h d = Some (r \<noteq> None)" and "h' = h"
  by (cases to; use assms convert_check_scalar[of d] in
      \<open>force simp: basic_conversion_def basic_check_def\<close>)+

lemma convert_int_real:
  assumes "x = (if dtype d = TYPE_FLOAT32 then v_float32 d else v_float64 d)"
    and "dtype d = TYPE_FLOAT32 \<or> dtype d = TYPE_FLOAT64"
    and "int_range to = Some (a, b)" and "basic_conversion to h d = Some (Some d', h')"
  shows "\<exists>i. fp_trunc x = Some i \<and> a \<le> i \<and> i \<le> b \<and> d' = set_member (type_width to) i d"
  using assms
  by (cases to)
    (auto simp: basic_conversion_def int_range_def convert_int_defs type_width_def
      dest!: convert_real_cases(2))

text \<open>
  The bounds the code compares a real with, as \<open>float\<close> and as \<open>double\<close>: those that do not fit the
  precision are rounded up by one.
\<close>

definition real_bound :: "iot_type \<Rightarrow> int \<Rightarrow> int" where
  "real_bound from b = (if b < (if from = TYPE_FLOAT32 then 2 ^ 24 else 2 ^ 53) then b else b + 1)"

lemmas fp_compute =
  fp_of_int_def fp_round_def Let_def bit_length.simps fp_emin_def fp_decode_def round_half_even_def

lemma float32_bounds:
  "fp_decode 23 8 (fp_of_int 23 8 SCHAR_MAX) = FFin False (127 * 2 ^ 17) (- 17)"
  "fp_decode 23 8 (fp_of_int 23 8 UCHAR_MAX) = FFin False (255 * 2 ^ 16) (- 16)"
  "fp_decode 23 8 (fp_of_int 23 8 SHRT_MAX) = FFin False (32767 * 2 ^ 9) (- 9)"
  "fp_decode 23 8 (fp_of_int 23 8 USHRT_MAX) = FFin False (65535 * 2 ^ 8) (- 8)"
  "fp_decode 23 8 (fp_of_int 23 8 INT_MAX) = FFin False (2 ^ 23) 8"
  "fp_decode 23 8 (fp_of_int 23 8 UINT_MAX) = FFin False (2 ^ 23) 9"
  "fp_decode 23 8 (fp_of_int 23 8 LONG_MAX) = FFin False (2 ^ 23) 40"
  "fp_decode 23 8 (fp_of_int 23 8 ULONG_MAX) = FFin False (2 ^ 23) 41"
  by (simp_all add: fp_compute)

lemma float64_bounds:
  "fp_decode 52 11 (fp_of_int 52 11 SCHAR_MAX) = FFin False (127 * 2 ^ 46) (- 46)"
  "fp_decode 52 11 (fp_of_int 52 11 UCHAR_MAX) = FFin False (255 * 2 ^ 45) (- 45)"
  "fp_decode 52 11 (fp_of_int 52 11 SHRT_MAX) = FFin False (32767 * 2 ^ 38) (- 38)"
  "fp_decode 52 11 (fp_of_int 52 11 USHRT_MAX) = FFin False (65535 * 2 ^ 37) (- 37)"
  "fp_decode 52 11 (fp_of_int 52 11 INT_MAX) = FFin False ((2 ^ 31 - 1) * 2 ^ 22) (- 22)"
  "fp_decode 52 11 (fp_of_int 52 11 UINT_MAX) = FFin False ((2 ^ 32 - 1) * 2 ^ 21) (- 21)"
  "fp_decode 52 11 (fp_of_int 52 11 LONG_MAX) = FFin False (2 ^ 52) 11"
  "fp_decode 52 11 (fp_of_int 52 11 ULONG_MAX) = FFin False (2 ^ 52) 12"
  by (simp_all add: fp_compute)

text \<open>Comparing with a number that stands for an integer, from above or below the point.\<close>

lemma fp_le_int:
  "fp_le (FFin s m e) (FFin False n (int f)) \<longleftrightarrow>
     (if 0 \<le> e then signed_mant s m * 2 ^ nat e \<le> int n * 2 ^ f
      else signed_mant s m \<le> int n * 2 ^ f * 2 ^ nat (- e))"
  "fp_le (FFin s m e) (FFin False (n * 2 ^ f) (- int f)) \<longleftrightarrow>
     (if 0 \<le> e then signed_mant s m * 2 ^ nat e \<le> int n
      else signed_mant s m \<le> int n * 2 ^ nat (- e))"
proof -
  let ?M = "signed_mant s m"
  have scale: "?M * 2 ^ j \<le> x \<longleftrightarrow> ?M * 2 ^ (j + k) \<le> x * 2 ^ k" for j k and x :: int
    by (simp add: power_add mult.assoc[symmetric])
  show "fp_le (FFin s m e) (FFin False n (int f)) \<longleftrightarrow>
     (if 0 \<le> e then ?M * 2 ^ nat e \<le> int n * 2 ^ f else ?M \<le> int n * 2 ^ f * 2 ^ nat (- e))"
  proof (cases "0 \<le> e")
    case True
    define g where "g = nat (min e (int f))"
    have g: "nat (e - min e (int f)) + g = nat e" "nat (int f - min e (int f)) + g = f"
      using True by (auto simp: g_def min_def)
    have "?M * 2 ^ nat (e - min e (int f)) \<le> int n * 2 ^ nat (int f - min e (int f)) \<longleftrightarrow>
        ?M * 2 ^ nat e \<le> int n * 2 ^ nat (int f - min e (int f)) * 2 ^ g"
      using scale[of "nat (e - min e (int f))" _ g] g(1) by simp
    also have "int n * 2 ^ nat (int f - min e (int f)) * 2 ^ g = int n * 2 ^ f"
      by (simp add: g(2) mult.assoc flip: power_add)
    finally show ?thesis using True by (simp add: signed_mant_def)
  next
    case False
    then have "min e (int f) = e" "nat (int f - e) = f + nat (- e)" by auto
    then show ?thesis using False by (simp add: signed_mant_def power_add mult.assoc)
  qed
  show "fp_le (FFin s m e) (FFin False (n * 2 ^ f) (- int f)) \<longleftrightarrow>
     (if 0 \<le> e then ?M * 2 ^ nat e \<le> int n else ?M \<le> int n * 2 ^ nat (- e))"
  proof (cases "0 \<le> e")
    case True
    then have "min e (- int f) = - int f" "nat (e + int f) = nat e + f" by auto
    then show ?thesis using True scale[of "nat e" "int n" f] by (simp add: signed_mant_def)
  next
    case False
    define g where "g = nat (- min e (- int f))"
    have g: "nat (e - min e (- int f)) + nat (- e) = g" "f + nat (- int f - min e (- int f)) = g"
      using False by (auto simp: g_def min_def)
    let ?j = "nat (e - min e (- int f))"
    have "int n * 2 ^ f * 2 ^ nat (- int f - min e (- int f)) = int n * 2 ^ g"
      by (simp add: g(2)[symmetric] power_add mult.assoc)
    also have "\<dots> = int n * 2 ^ nat (- e) * 2 ^ ?j" by (simp add: g(1)[symmetric] power_add mult.assoc mult.left_commute)
    finally have eq: "int n * 2 ^ f * 2 ^ nat (- int f - min e (- int f)) = int n * 2 ^ nat (- e) * 2 ^ ?j" .
    have "fp_le (FFin s m e) (FFin False (n * 2 ^ f) (- int f)) \<longleftrightarrow>
        ?M * 2 ^ ?j \<le> int n * 2 ^ f * 2 ^ nat (- int f - min e (- int f))"
      by (simp add: signed_mant_def)
    also have "\<dots> \<longleftrightarrow> ?M * 2 ^ ?j \<le> int n * 2 ^ nat (- e) * 2 ^ ?j" by (simp only: eq)
    also have "\<dots> \<longleftrightarrow> ?M \<le> int n * 2 ^ nat (- e)" by simp
    finally show ?thesis unfolding if_not_P[OF False] .
  qed
qed

definition integral_bound :: "fp \<Rightarrow> int \<Rightarrow> bool" where
  "integral_bound c B \<longleftrightarrow> (\<forall>s m e. fp_le (FFin s m e) c \<longleftrightarrow>
     (if 0 \<le> e then signed_mant s m * 2 ^ nat e \<le> B else signed_mant s m \<le> B * 2 ^ nat (- e)))"

lemma integral_bound_up: "g = int f \<Longrightarrow> B = int n * 2 ^ f \<Longrightarrow> integral_bound (FFin False n g) B"
  unfolding integral_bound_def by (simp only: fp_le_int(1)) simp

lemma integral_bound_down: "g = - int f \<Longrightarrow> k = n * 2 ^ f \<Longrightarrow> B = int n \<Longrightarrow> integral_bound (FFin False k g) B"
  unfolding integral_bound_def by (simp only: fp_le_int(2)) simp

lemma float32_bounds_integral:
  "integral_bound (fp_decode 23 8 (fp_of_int 23 8 SCHAR_MAX)) SCHAR_MAX"
  "integral_bound (fp_decode 23 8 (fp_of_int 23 8 UCHAR_MAX)) UCHAR_MAX"
  "integral_bound (fp_decode 23 8 (fp_of_int 23 8 SHRT_MAX)) SHRT_MAX"
  "integral_bound (fp_decode 23 8 (fp_of_int 23 8 USHRT_MAX)) USHRT_MAX"
  "integral_bound (fp_decode 23 8 (fp_of_int 23 8 INT_MAX)) (INT_MAX + 1)"
  "integral_bound (fp_decode 23 8 (fp_of_int 23 8 UINT_MAX)) (UINT_MAX + 1)"
  "integral_bound (fp_decode 23 8 (fp_of_int 23 8 LONG_MAX)) (LONG_MAX + 1)"
  "integral_bound (fp_decode 23 8 (fp_of_int 23 8 ULONG_MAX)) (ULONG_MAX + 1)"
  unfolding float32_bounds
  subgoal by (rule integral_bound_down[of _ 17 _ "127"]) simp_all
  subgoal by (rule integral_bound_down[of _ 16 _ "255"]) simp_all
  subgoal by (rule integral_bound_down[of _ 9 _ "32767"]) simp_all
  subgoal by (rule integral_bound_down[of _ 8 _ "65535"]) simp_all
  subgoal by (rule integral_bound_up[of _ 8 _ "2 ^ 23"]) simp_all
  subgoal by (rule integral_bound_up[of _ 9 _ "2 ^ 23"]) simp_all
  subgoal by (rule integral_bound_up[of _ 40 _ "2 ^ 23"]) simp_all
  subgoal by (rule integral_bound_up[of _ 41 _ "2 ^ 23"]) simp_all
  done

lemma float64_bounds_integral:
  "integral_bound (fp_decode 52 11 (fp_of_int 52 11 SCHAR_MAX)) SCHAR_MAX"
  "integral_bound (fp_decode 52 11 (fp_of_int 52 11 UCHAR_MAX)) UCHAR_MAX"
  "integral_bound (fp_decode 52 11 (fp_of_int 52 11 SHRT_MAX)) SHRT_MAX"
  "integral_bound (fp_decode 52 11 (fp_of_int 52 11 USHRT_MAX)) USHRT_MAX"
  "integral_bound (fp_decode 52 11 (fp_of_int 52 11 INT_MAX)) INT_MAX"
  "integral_bound (fp_decode 52 11 (fp_of_int 52 11 UINT_MAX)) UINT_MAX"
  "integral_bound (fp_decode 52 11 (fp_of_int 52 11 LONG_MAX)) (LONG_MAX + 1)"
  "integral_bound (fp_decode 52 11 (fp_of_int 52 11 ULONG_MAX)) (ULONG_MAX + 1)"
  unfolding float64_bounds
  subgoal by (rule integral_bound_down[of _ 46 _ "127"]) simp_all
  subgoal by (rule integral_bound_down[of _ 45 _ "255"]) simp_all
  subgoal by (rule integral_bound_down[of _ 38 _ "32767"]) simp_all
  subgoal by (rule integral_bound_down[of _ 37 _ "65535"]) simp_all
  subgoal by (rule integral_bound_down[of _ 22 _ "2 ^ 31 - 1"]) simp_all
  subgoal by (rule integral_bound_down[of _ 21 _ "2 ^ 32 - 1"]) simp_all
  subgoal by (rule integral_bound_up[of _ 11 _ "2 ^ 52"]) simp_all
  subgoal by (rule integral_bound_up[of _ 12 _ "2 ^ 52"]) simp_all
  done

lemma real_integral:
  assumes "int_range to = Some (a, b)"
  shows "integral_bound (fp_decode 23 8 (fp_of_int 23 8 b)) (real_bound TYPE_FLOAT32 b)"
    and "integral_bound (fp_decode 52 11 (fp_of_int 52 11 b)) (real_bound TYPE_FLOAT64 b)"
  by (cases to; use assms float32_bounds_integral float64_bounds_integral in
      \<open>clarsimp simp: int_range_def real_bound_def\<close>)+

text \<open>A conversion of a real compares with the bound first.\<close>

definition real_below :: "iot_data \<Rightarrow> int \<Rightarrow> bool" where
  "real_below d c = (if dtype d = TYPE_FLOAT32 then float32_le (v_float32 d) c else float64_le (v_float64 d) c)"

lemma basic_conversion_real:
  assumes "dtype d = TYPE_FLOAT32 \<or> dtype d = TYPE_FLOAT64" and "int_range to = Some (a, b)"
  shows "basic_conversion to h d = map_option (\<lambda>r. (r, h)) (convert_real (real_below d b) (type_width to) a b
      (if dtype d = TYPE_FLOAT32 then v_float32 d else v_float64 d) d)"
  using assms
  by (cases to) (auto simp: basic_conversion_def int_range_def convert_int_defs type_width_def real_below_def)

lemma real_below_iff:
  assumes "dtype d = TYPE_FLOAT32 \<or> dtype d = TYPE_FLOAT64" and "int_range to = Some (a, b)"
    and "(if dtype d = TYPE_FLOAT32 then v_float32 d else v_float64 d) = FFin s m e"
  shows "real_below d b \<longleftrightarrow>
     (if 0 \<le> e then signed_mant s m * 2 ^ nat e \<le> real_bound (dtype d) b
      else signed_mant s m \<le> real_bound (dtype d) b * 2 ^ nat (- e))"
  using assms(1)
proof
  assume t: "dtype d = TYPE_FLOAT32"
  then show ?thesis
    using real_integral(1)[OF assms(2), unfolded integral_bound_def, rule_format, of s m e] assms(3)
    by (simp add: real_below_def float32_le_def del: fp_le.simps)
next
  assume t: "dtype d = TYPE_FLOAT64"
  then show ?thesis
    using real_integral(2)[OF assms(2), unfolded integral_bound_def, rule_format, of s m e] assms(3)
    by (simp add: real_below_def float64_le_def del: fp_le.simps)
qed

text \<open>A fraction of at least \<open>2 ^ - 125\<close> is still more than \<open>FLT_MIN\<close> as a \<open>float\<close>.\<close>

definition has_decimals :: "nat \<Rightarrow> int \<Rightarrow> bool" where
  "has_decimals m e \<longleftrightarrow> e < 0 \<and> 2 ^ nat (- e) \<le> (m mod 2 ^ nat (- e)) * 2 ^ 125"

lemma fp_round_decimals:
  assumes "e < 0" and "2 ^ nat (- e) \<le> r * 2 ^ 125"
  shows "fp_decode 23 8 (fp_round 23 8 s r e) = FInf s \<or>
    (\<exists>M E. fp_decode 23 8 (fp_round 23 8 s r e) = FFin s M E \<and> 2 ^ 23 \<le> M \<and> - 148 \<le> E)"
proof -
  define L where "L = bit_length r"
  have r: "0 < r" using assms(2) by (cases r) auto
  have L: "2 ^ (L - 1) \<le> r" "r < 2 ^ L" using bit_length_bounds[OF r] by (simp_all add: L_def)
  have L0: "0 < L" using L(2) r by (cases L) auto
  have "(2 :: nat) ^ nat (- e) < 2 ^ (L + 125)"
    using assms(2) L(2) by (simp add: power_add)
  then have k: "nat (- e) < L + 125" by simp
  have e': "max (fp_emin 23 8) (e + int L - 24) = e + int L - 24"
    using k by (simp add: fp_emin_def)
  define m' where "m' = (if e + int L - 24 \<le> e then r * 2 ^ nat (e - (e + int L - 24))
      else round_half_even r (nat (e + int L - 24 - e)))"
  have m': "2 ^ 23 \<le> m'"
  proof (cases "L \<le> 24")
    case True
    then have "m' = r * 2 ^ (24 - L)" by (simp add: m'_def nat_diff_distrib)
    moreover have "2 ^ (L - 1) * 2 ^ (24 - L) \<le> r * 2 ^ (24 - L)" using L(1) by simp
    moreover have "L - 1 + (24 - L) = 23" using True L0 by simp
    ultimately show ?thesis by (metis power_add)
  next
    case False
    then have "m' = round_half_even r (L - 24)" by (simp add: m'_def nat_diff_distrib)
    then have "r div 2 ^ (L - 24) \<le> m'" by (simp add: round_half_even_def Let_def)
    moreover have "L - 1 = 23 + (L - 24)" using False by simp
    then have "2 ^ 23 * 2 ^ (L - 24) \<le> r" using L(1) by (metis power_add)
    then have "2 ^ 23 \<le> r div 2 ^ (L - 24)" by (simp add: less_eq_div_iff_mult_less_eq)
    ultimately show ?thesis by linarith
  qed
  define q where "q = min (nat (e + int L - 24 - fp_emin 23 8) * 2 ^ 23 + m') (255 * 2 ^ 23)"
  have "1 \<le> nat (e + int L - 24 - fp_emin 23 8)" using k by (simp add: fp_emin_def)
  then have "1 * 2 ^ 23 + 2 ^ 23 \<le> nat (e + int L - 24 - fp_emin 23 8) * 2 ^ 23 + m'"
    using m' by (intro add_mono mult_right_mono) simp_all
  then have q: "2 * 2 ^ 23 \<le> q" "q \<le> 255 * 2 ^ 23" by (simp_all add: q_def)
  have rnd: "fp_round 23 8 s r e = (if s then 2 ^ (23 + 8) else 0) + q div 2 ^ 23 * 2 ^ 23 + q mod 2 ^ 23"
    using r e' unfolding fp_round_def Let_def L_def[symmetric]
    by (simp add: m'_def q_def)
  have ex: "2 \<le> q div 2 ^ 23" "q div 2 ^ 23 \<le> 255" using q by simp_all
  have top: "q mod 2 ^ 23 = 0" if "q div 2 ^ 23 = 255" using that q(2) by (metis div_mult_mod_eq le_add1 le_antisym mult.commute add.right_neutral add_left_cancel)
  show ?thesis
    using fp_decode_fields[of "q div 2 ^ 23" 8 "q mod 2 ^ 23" 23 s] ex top unfolding rnd
    by (auto simp: fp_emin_def)
qed

lemma no_decimal_real:
  assumes "fp_trunc (FFin s m e) = Some i"
  shows "\<not> (LONG_MIN \<le> i \<and> i \<le> LONG_MAX) \<Longrightarrow> iot_common_data_no_decimal (FFin s m e) = None"
    and "LONG_MIN \<le> i \<Longrightarrow> i \<le> LONG_MAX \<Longrightarrow> 0 \<le> e \<or> m mod 2 ^ nat (- e) = 0 \<Longrightarrow>
      iot_common_data_no_decimal (FFin s m e) = Some True"
    and "LONG_MIN \<le> i \<Longrightarrow> i \<le> LONG_MAX \<Longrightarrow> has_decimals m e \<Longrightarrow>
      iot_common_data_no_decimal (FFin s m e) = Some False"
proof -
  have cast: "fp_to_int LONG_MIN LONG_MAX (FFin s m e) = (if LONG_MIN \<le> i \<and> i \<le> LONG_MAX then Some i else None)"
    using assms by (simp add: fp_to_int_def)
  show "iot_common_data_no_decimal (FFin s m e) = None" if "\<not> (LONG_MIN \<le> i \<and> i \<le> LONG_MAX)"
    unfolding iot_common_data_no_decimal_def cast if_not_P[OF that] by simp
  assume i: "LONG_MIN \<le> i" "i \<le> LONG_MAX"
  have nd: "iot_common_data_no_decimal (FFin s m e) =
      Some (let frac = fp_decode 23 8 (fp_convert 23 8 (fp_frac (FFin s m e)))
        in fp_le frac FLT_MIN \<and> fp_le NEG_FLT_MIN frac)"
    unfolding iot_common_data_no_decimal_def cast using i by (simp add: Let_def)
  show "iot_common_data_no_decimal (FFin s m e) = Some True" if w: "0 \<le> e \<or> m mod 2 ^ nat (- e) = 0"
  proof -
    obtain f where "fp_frac (FFin s m e) = FFin s 0 f" using w by (cases "0 \<le> e") auto
    moreover have "fp_decode 23 8 (fp_round 23 8 s 0 f) = FFin s 0 (- 149)"
      using fp_decode_fields[of 0 8 0 23 s] by (simp add: fp_round_def fp_emin_def Let_def)
    ultimately show ?thesis
      unfolding nd by (simp add: fp_convert_def FLT_MIN_def NEG_FLT_MIN_def signed_mant_def)
  qed
  show "iot_common_data_no_decimal (FFin s m e) = Some False" if d: "has_decimals m e"
  proof -
    let ?r = "m mod 2 ^ nat (- e)"
    have e: "e < 0" "2 ^ nat (- e) \<le> ?r * 2 ^ 125" using d by (simp_all add: has_decimals_def)
    have frac: "fp_frac (FFin s m e) = FFin s ?r e" using e(1) by simp
    have inf: "\<not> (fp_le (FInf s) FLT_MIN \<and> fp_le NEG_FLT_MIN (FInf s))"
      by (simp add: FLT_MIN_def NEG_FLT_MIN_def)
    have fin: "\<not> (fp_le (FFin s M E) FLT_MIN \<and> fp_le NEG_FLT_MIN (FFin s M E))"
      if "2 ^ 23 \<le> M" "- 148 \<le> E" for M E
    proof -
      have "(2 :: int) ^ nat (- 126 - E) < int M" if "E < - 126"
      proof -
        have "nat (- 126 - E) \<le> 22" using \<open>- 148 \<le> E\<close> by simp
        then have "(2 :: nat) ^ nat (- 126 - E) \<le> 2 ^ 22" by (intro power_increasing) simp_all
        moreover have "(2 :: nat) ^ 22 < 2 ^ 23" by simp
        ultimately have "2 ^ nat (- 126 - E) < M" using \<open>2 ^ 23 \<le> M\<close> by linarith
        then have "int (2 ^ nat (- 126 - E)) < int M" by (simp only: of_nat_less_iff)
        then show ?thesis by simp
      qed
      moreover have "(1 :: int) < int M * 2 ^ nat (E + 126)"
      proof -
        have "int M * 1 \<le> int M * 2 ^ nat (E + 126)" by (intro mult_left_mono) simp_all
        moreover have "1 < int M" using \<open>2 ^ 23 \<le> M\<close> by simp
        ultimately show ?thesis by linarith
      qed
      ultimately show ?thesis
        by (cases "E < - 126") (auto simp: FLT_MIN_def NEG_FLT_MIN_def signed_mant_def min_def split: if_splits)
    qed
    show ?thesis
      unfolding nd frac fp_convert_def fp.case using fp_round_decimals[OF e, of s] inf fin by (auto simp: Let_def)
  qed
qed

text \<open>Every integer of up to 32 bits is a \<open>double\<close>.\<close>

lemma float64_of_small_int:
  assumes "\<bar>v\<bar> < 2 ^ 53"
  shows "fp_trunc (fp_decode 52 11 (fp_of_int 52 11 v)) = Some v"
  by (rule fp_trunc_of_int) (use assms in \<open>simp_all add: nat_less_iff\<close>)

lemma convert_float64_int:
  assumes "int_value d = Some v"
  shows "convert_float64 d = Some (Some (set_member 64 (int (fp_of_int 52 11 v)) d))"
  using assms
  by (cases "dtype d") (simp_all add: int_value_def convert_float64_def IOT_CONVERT_def)

lemma v_float64_of_int:
  assumes "\<bar>v\<bar> < 2 ^ 53"
  shows "fp_trunc (v_float64 (set_member 64 (int (fp_of_int 52 11 v)) d)) = Some v"
proof -
  have "take_bit 64 (int (fp_of_int 52 11 v)) = int (fp_of_int 52 11 v)"
    using fp_of_int_less[of 52 11 v] by (simp add: take_bit_int_eq_self)
  then show ?thesis
    using float64_of_small_int[OF assms] by (simp add: v_float64_def)
qed

section \<open>Properties\<close>

text \<open>
  C13: Integer conversions, of an object that has a value to a different integer type, at every
  level of conversion. Unless conversion is switched off, a number in the range of the target type
  is converted and the object holds the same number afterwards; but the code swaps the two 32-bit
  types when it converts to INT64, so that a negative INT32, or a UINT32 of at least \<open>2 ^ 31\<close>
  (\<open>wide_slip\<close>), is off by \<open>2 ^ 32\<close>. A number outside the range is refused and the object left
  unchanged, except at the advanced level, which claims success and only renames the type. The
  check announces the outcome in each case.
\<close>

theorem data_convert_int:
  assumes "has_value d" and "int_value d = Some v" and "int_range to = Some (a, b)"
    and "to \<noteq> dtype d"
  shows "let fits = (conversion \<noteq> CONVERSION_NONE \<and> a \<le> v \<and> v \<le> b); r = (fits \<or> conversion = CONVERSION_ADVANCED)
    in iot_common_data_convert_check conversion to h (Some d) = Some r
    \<and> (\<exists>d'. iot_common_data_convert conversion to h (Some d) = Some (r, Some d', h)
        \<and> (if fits
           then has_value d' \<and> dtype d' = to
             \<and> int_value d' = Some (if wide_slip to (dtype d) v then (if v < 0 then v + 2 ^ 32 else v - 2 ^ 32) else v)
           else d' = (if r then d\<lparr>dtype := to\<rparr> else d)))"
proof -
  note basic = basic_conversion_int[OF assms(2-4), of h]
  note adv = advanced_integers[OF assms(2,3)]
  have type: "dtype (set_member w i d) = dtype d" "has_value (set_member w i d)" for w i
    using assms(1) by (simp_all add: set_member_def)
  show ?thesis
  proof (cases "conversion \<noteq> CONVERSION_NONE \<and> a \<le> v \<and> v \<le> b")
    case True
    note val = int_value_set_member[OF assms(3) converted_range[OF assms(2,3)], of d]
    show ?thesis
      using True assms(1,4) basic val type
      by (auto simp: iot_common_data_convert_def iot_common_data_convert_check_def Let_def converted_def)
  next
    case False
    then show ?thesis
      using assms(1,4) basic adv
      by (cases conversion) (auto simp: iot_common_data_convert_def iot_common_data_convert_check_def Let_def)
  qed
qed

definition example_int64 :: "int \<Rightarrow> iot_data" where
  "example_int64 i =
     data_zero\<lparr>lo := word_of_int i, has_value := True, dtype := TYPE_INT64\<rparr>"

theorem data_convert_int_witness:
  "(\<exists>d'. iot_common_data_convert CONVERSION_BASIC TYPE_INT8 empty_heap (Some (example_int64 (-5))) =
      Some (True, Some d', empty_heap) \<and> int_value d' = Some (- 5)) \<and>
   iot_common_data_convert CONVERSION_BASIC TYPE_INT8 empty_heap (Some (example_int64 300)) =
      Some (False, Some (example_int64 300), empty_heap)"
proof -
  have five: "has_value (example_int64 (- 5))" "int_value (example_int64 (- 5)) = Some (- 5)"
    and more: "has_value (example_int64 300)" "int_value (example_int64 300) = Some 300"
    and to: "int_range TYPE_INT8 = Some (SCHAR_MIN, SCHAR_MAX)"
      "TYPE_INT8 \<noteq> dtype (example_int64 (- 5))" "TYPE_INT8 \<noteq> dtype (example_int64 300)"
    by (simp_all add: example_int64_def data_zero_def int_value_def int_range_def signed_member_def)
  show ?thesis
    using data_convert_int[OF five to(1,2), of CONVERSION_BASIC empty_heap]
      data_convert_int[OF more to(1,3), of CONVERSION_BASIC empty_heap]
    by (auto simp: Let_def wide_slip_def)
qed

text \<open>
  What the swap does: a negative INT32 becomes a large positive INT64, and a UINT32
  of at least \<open>2 ^ 31\<close> a negative one.
\<close>

lemma data_convert_int32_to_int64:
  assumes "has_value d" and "dtype d = TYPE_INT32" and "v_int32 d < 0"
  shows "\<exists>d'. iot_common_data_convert CONVERSION_BASIC TYPE_INT64 h (Some d) = Some (True, Some d', h)
    \<and> int_value d' = Some (v_int32 d + 2 ^ 32)"
proof -
  have "v_uint32 d = v_int32 d + 2 ^ 32"
    using signed_take_bit_eq_take_bit_minus[of 31 "uint (lo d)"] assms(3) member_ranges(7)[of d]
    by (auto simp: signed_member_def unsigned_member_def of_bool_def split: if_splits)
  moreover have "signed_take_bit 63 (v_uint32 d) = v_uint32 d"
    using member_ranges(7)[of d] by (simp add: signed_take_bit_int_eq_self)
  ultimately show ?thesis
    using assms by (simp add: iot_common_data_convert_def Let_def basic_conversion_def
        convert_int64_def IOT_CONVERT_def int_value_def)
qed

text \<open>
  The advanced level reports success for any two numeric types but never computes a value:
  the INT64 300 "converted" to INT8 is its lowest byte, 44.
\<close>

lemma data_convert_advanced_reinterprets:
  "\<exists>d. iot_common_data_convert CONVERSION_ADVANCED TYPE_INT8 h (Some (example_int64 300)) =
      Some (True, Some d, h) \<and> int_value d = Some 44"
  by (simp add: iot_common_data_convert_def Let_def basic_conversion_def convert_int8_def
      example_int64_def data_zero_def signed_member_def convert_if_def in_range_def
      advanced_conversion_def is_numeric_def int_value_def)

text \<open>
  C29: The check tells the truth for every target type but RAW, at every level of conversion:
  whenever the conversion of an object is defined, it returns what \<open>iot_common_data_convert_check\<close>
  answers for that object; for one without a value, whenever it answers (it looks at the number in
  such an object as well, which may be undefined). On success the object has the target type, on
  failure it is untouched, and no memory is touched in either case. For RAW, the check counts the
  characters of a string differently from the decoder, and the two disagree.
\<close>

theorem data_convert_agrees_with_check:
  assumes "to \<noteq> TYPE_RAW"
    and "iot_common_data_convert conversion to h (Some d) = Some (r, d', h')"
  shows "iot_common_data_convert_check conversion to h (Some d) \<in> (if has_value d then {Some r} else {Some r, None})
    \<and> h' = h \<and> (if r then map_option dtype d' = Some to else d' = Some d)"
proof (cases "to = dtype d \<or> conversion = CONVERSION_NONE")
  case True
  then show ?thesis
    using assms by (auto simp: iot_common_data_convert_def iot_common_data_convert_check_def Let_def)
next
  case False
  show ?thesis
  proof (cases "has_value d")
    case True
    then obtain q h2 where q: "basic_conversion to h d = Some (q, h2)"
      using assms False by (auto simp: iot_common_data_convert_def Let_def split: bind_splits)
    show ?thesis
      using False True assms q basic_conversion_check[OF assms(1) q]
      by (cases q) (auto simp: iot_common_data_convert_def iot_common_data_convert_check_def Let_def
          split: if_splits)
  next
    case none: False
    then obtain q h2 where q: "basic_conversion to h data_zero = Some (q, h2)"
      using assms False by (auto simp: iot_common_data_convert_def Let_def split: bind_splits)
    show ?thesis
      using False none assms q basic_conversion_check(2)[OF assms(1) q]
      by (cases q) (auto simp: iot_common_data_convert_def iot_common_data_convert_check_def Let_def
          split: if_splits bind_splits)
  qed
qed

theorem data_convert_agrees_with_check_witness:
  "iot_common_data_convert_check CONVERSION_BASIC TYPE_UINT8 empty_heap (Some (example_int64 300)) = Some False"
proof -
  have run: "iot_common_data_convert CONVERSION_BASIC TYPE_UINT8 empty_heap (Some (example_int64 300)) =
      Some (False, Some (example_int64 300), empty_heap)"
    by (simp add: iot_common_data_convert_def Let_def basic_conversion_def convert_uint8_def
      example_int64_def data_zero_def signed_member_def convert_if_def in_range_def)
  have raw: "TYPE_UINT8 \<noteq> TYPE_RAW" by simp
  show ?thesis
    using data_convert_agrees_with_check[OF raw run] by (simp add: example_int64_def)
qed

text \<open>
  C32: Reals to integers, at the basic level, for every FLOAT32 or FLOAT64 that is finite: a whole
  number in the range of the type, and of 64 signed bits, is converted and the object holds it; one
  with decimals is refused and left as it is (a fraction below \<open>2 ^ - 125\<close> may be taken for none);
  one above the range is refused, where the bound fits the precision of the real, and in any case
  when it is more than one above; a whole number below the range is undefined. Whatever succeeds
  holds the integral part, which lies in the range.
\<close>

theorem data_convert_real_to_int:
  assumes "has_value d" and "dtype d = TYPE_FLOAT32 \<or> dtype d = TYPE_FLOAT64"
    and "int_range to = Some (a, b)"
    and "(if dtype d = TYPE_FLOAT32 then v_float32 d else v_float64 d) = FFin s m e"
    and "fp_trunc (FFin s m e) = Some i"
  shows "let c = iot_common_data_convert CONVERSION_BASIC to h (Some d);
      whole = (0 \<le> e \<or> m mod 2 ^ nat (- e) = 0)
    in (whole \<and> a \<le> i \<and> i \<le> b \<and> i \<le> LONG_MAX \<longrightarrow>
         (\<exists>d'. c = Some (True, Some d', h) \<and> int_value d' = Some i \<and> has_value d'))
     \<and> (has_decimals m e \<and> LONG_MIN \<le> i \<and> i \<le> LONG_MAX \<longrightarrow> c = Some (False, Some d, h))
     \<and> (b + 1 < i \<or> b < i \<and> b < (if dtype d = TYPE_FLOAT32 then 2 ^ 24 else 2 ^ 53) \<longrightarrow> c = Some (False, Some d, h))
     \<and> (whole \<and> i < a \<longrightarrow> c = None)
     \<and> (\<forall>d' h'. c = Some (True, d', h') \<longrightarrow> a \<le> i \<and> i \<le> b \<and> h' = h \<and> Option.bind d' int_value = Some i)"
proof -
  let ?x = "FFin s m e" and ?below = "real_below d b" and ?B = "real_bound (dtype d) b"
  let ?whole = "0 \<le> e \<or> m mod 2 ^ nat (- e) = 0"
  have ne: "to \<noteq> dtype d" using assms(2,3) by (auto simp: int_range_def)
  have range: "LONG_MIN \<le> a" "a \<le> 0" "0 < b" using assms(3) by (cases to; simp add: int_range_def)+
  have conv: "iot_common_data_convert CONVERSION_BASIC to h (Some d) =
      (case convert_real ?below (type_width to) a b ?x d of
         None \<Rightarrow> None
       | Some None \<Rightarrow> Some (False, Some d, h)
       | Some (Some d') \<Rightarrow> Some (True, Some (d'\<lparr>dtype := to\<rparr>), h))"
    using ne assms(1) basic_conversion_real[OF assms(2,3), of h] unfolding assms(4)
    by (auto simp: iot_common_data_convert_def Let_def split: option.splits)
  have below: "?below \<longleftrightarrow> (if 0 \<le> e then signed_mant s m * 2 ^ nat e \<le> ?B else signed_mant s m \<le> ?B * 2 ^ nat (- e))"
    by (rule real_below_iff[OF assms(2-4)])
  have B: "b \<le> ?B" "?B \<le> b + 1" "b < (if dtype d = TYPE_FLOAT32 then 2 ^ 24 else 2 ^ 53) \<Longrightarrow> ?B = b"
    by (auto simp: real_bound_def)
  have whole: "?below \<longleftrightarrow> i \<le> ?B" if w: ?whole
  proof (cases "0 \<le> e")
    case True
    then show ?thesis using below assms(5) by (auto simp: signed_mant_def)
  next
    case False
    then obtain q where "m = 2 ^ nat (- e) * q" using w by auto
    then have "signed_mant s m = i * 2 ^ nat (- e)" using False assms(5) by (auto simp: signed_mant_def split: if_splits)
    then show ?thesis using below False by simp
  qed
  have above: "\<not> ?below" if "?B < i"
  proof (cases "0 \<le> e")
    case True
    then show ?thesis using below assms(5) that by (auto simp: signed_mant_def)
  next
    case False
    have pos: "0 < i" using that range(3) B(1) by linarith
    then have sm: "\<not> s" "i = int (m div 2 ^ nat (- e))" using assms(5) False by (auto simp: signed_mant_def split: if_splits)
    have "?B * 2 ^ nat (- e) < i * 2 ^ nat (- e)" using that by simp
    moreover have "m div 2 ^ nat (- e) * 2 ^ nat (- e) \<le> m" by (rule div_times_less_eq_dividend)
    then have "i * 2 ^ nat (- e) \<le> int m" unfolding sm(2) by (metis of_nat_le_iff of_nat_mult of_nat_numeral of_nat_power)
    ultimately have "?B * 2 ^ nat (- e) < int m" by linarith
    then show ?thesis using below False sm(1) by (simp add: signed_mant_def)
  qed
  note nd = no_decimal_real[OF assms(5)]
  have cast: "fp_to_int a b ?x = (if a \<le> i \<and> i \<le> b then Some i else None)" using assms(5) by (simp add: fp_to_int_def)
  have real: "convert_real ?below (type_width to) a b ?x d = (if ?below
      then Option.bind (iot_common_data_no_decimal ?x) (\<lambda>nd. if nd
        then (if a \<le> i \<and> i \<le> b then Some (Some (set_member (type_width to) i d)) else None) else Some None)
      else Some None)"
    unfolding convert_real_def cast by (cases "iot_common_data_no_decimal ?x") (auto simp: IOT_CONVERT_def)
  have hit: "int_value ((set_member (type_width to) i d)\<lparr>dtype := to\<rparr>) = Some i" if "a \<le> i" "i \<le> b"
    using int_value_set_member[OF assms(3) that] .
  show ?thesis
    unfolding Let_def
  proof (intro conjI impI allI)
    assume *: "?whole \<and> a \<le> i \<and> i \<le> b \<and> i \<le> LONG_MAX"
    then have "?below" using whole B(1) by linarith
    moreover have "iot_common_data_no_decimal ?x = Some True" using * range(1) by (intro nd(2)) simp_all
    ultimately show "\<exists>d'. iot_common_data_convert CONVERSION_BASIC to h (Some d) = Some (True, Some d', h) \<and>
        int_value d' = Some i \<and> has_value d'"
      unfolding conv real using * hit assms(1) by (simp add: set_member_def)
  next
    assume *: "has_decimals m e \<and> LONG_MIN \<le> i \<and> i \<le> LONG_MAX"
    then have "iot_common_data_no_decimal ?x = Some False" by (intro nd(3)) simp_all
    then show "iot_common_data_convert CONVERSION_BASIC to h (Some d) = Some (False, Some d, h)"
      unfolding conv real by simp
  next
    assume "b + 1 < i \<or> b < i \<and> b < (if dtype d = TYPE_FLOAT32 then 2 ^ 24 else 2 ^ 53)"
    then have "\<not> ?below" using above B(2,3) by (metis le_less_trans)
    then show "iot_common_data_convert CONVERSION_BASIC to h (Some d) = Some (False, Some d, h)"
      unfolding conv real by simp
  next
    assume *: "?whole \<and> i < a"
    then have "?below" using whole range B(1) by auto
    moreover have "iot_common_data_no_decimal ?x \<in> {None, Some True}"
      using nd(1,2) * range by (cases "LONG_MIN \<le> i \<and> i \<le> LONG_MAX") auto
    ultimately show "iot_common_data_convert CONVERSION_BASIC to h (Some d) = None"
      unfolding conv real using * by auto
  next
    fix d' h' assume "iot_common_data_convert CONVERSION_BASIC to h (Some d) = Some (True, d', h')"
    then have "a \<le> i \<and> i \<le> b \<and> h' = h \<and> d' = Some ((set_member (type_width to) i d)\<lparr>dtype := to\<rparr>)"
      unfolding conv real by (auto split: if_splits option.splits bind_splits)
    then show "a \<le> i" "i \<le> b" "h' = h" "Option.bind d' int_value = Some i" using hit by auto
  qed
qed

text \<open>A \<open>double\<close> of value 3 and one of value 2.5, and their conversion to UINT16.\<close>

definition example_float64 :: "nat \<Rightarrow> iot_data" where
  "example_float64 x =
     data_zero\<lparr>lo := of_nat x, has_value := True, dtype := TYPE_FLOAT64\<rparr>"

theorem data_convert_real_to_int_witness:
  "(\<exists>d'. iot_common_data_convert CONVERSION_BASIC TYPE_UINT16 empty_heap
      (Some (example_float64 0x4008000000000000)) = Some (True, Some d', empty_heap) \<and> int_value d' = Some 3) \<and>
   iot_common_data_convert CONVERSION_BASIC TYPE_UINT16 empty_heap (Some (example_float64 0x4004000000000000)) =
      Some (False, Some (example_float64 0x4004000000000000), empty_heap)"
proof -
  let ?d = "example_float64 0x4008000000000000" and ?c = "example_float64 0x4004000000000000"
  have v: "v_float64 ?d = FFin False (3 * 2 ^ 51) (-51)" "v_float64 ?c = FFin False (5 * 2 ^ 50) (-51)"
    by (simp_all add: example_float64_def data_zero_def v_float64_def unsigned_member_def fp_decode_def
        fp_emin_def Let_def)
  have t: "has_value (example_float64 x)" "dtype (example_float64 x) = TYPE_FLOAT64" for x
    by (simp_all add: example_float64_def data_zero_def)
  have i: "fp_trunc (FFin False (3 * 2 ^ 51) (-51)) = Some 3" "fp_trunc (FFin False (5 * 2 ^ 50) (-51)) = Some 2"
    by (simp_all add: signed_mant_def)
  have r: "int_range TYPE_UINT16 = Some (0, USHRT_MAX)" by (simp add: int_range_def)
  have "has_decimals (5 * 2 ^ 50) (- 51)" by (simp add: has_decimals_def)
  then show ?thesis
    using data_convert_real_to_int[of ?d TYPE_UINT16 0 USHRT_MAX False "3 * 2 ^ 51" "- 51" 3 empty_heap]
      data_convert_real_to_int[of ?c TYPE_UINT16 0 USHRT_MAX False "5 * 2 ^ 50" "- 51" 2 empty_heap] t i r v
    by (auto simp: Let_def)
qed

text \<open>
  Integers survive a trip through FLOAT64: an integer of absolute value below \<open>2 ^ 53\<close>
  (every integer of up to 32 bits) converts to a FLOAT64, and converting that object back to
  any integer type whose range holds the number, when the check admits it, yields the same
  number.
\<close>

theorem data_convert_float64_round_trip:
  assumes "has_value d" and "int_value d = Some v" and "\<bar>v\<bar> < 2 ^ 53"
    and "int_range to = Some (a, b)"
  shows "\<exists>f. iot_common_data_convert CONVERSION_BASIC TYPE_FLOAT64 h (Some d) = Some (True, Some f, h)
    \<and> fp_trunc (v_float64 f) = Some v
    \<and> (\<forall>d' h'. iot_common_data_convert CONVERSION_BASIC to h (Some f) = Some (True, Some d', h')
          \<longrightarrow> int_value d' = Some v)"
proof -
  let ?f = "(set_member 64 (int (fp_of_int 52 11 v)) d)\<lparr>dtype := TYPE_FLOAT64\<rparr>"
  have "dtype d \<noteq> TYPE_FLOAT64" using assms(2) by (auto simp: int_value_def)
  then have c: "iot_common_data_convert CONVERSION_BASIC TYPE_FLOAT64 h (Some d) = Some (True, Some ?f, h)"
    using assms(1) convert_float64_int[OF assms(2)]
    by (simp add: iot_common_data_convert_def Let_def basic_conversion_def)
  have t: "fp_trunc (v_float64 ?f) = Some v"
    using v_float64_of_int[OF assms(3)] by simp
  have "int_value d' = Some v"
    if *: "iot_common_data_convert CONVERSION_BASIC to h (Some ?f) = Some (True, Some d', h')" for d' h'
  proof -
    have ne: "to \<noteq> TYPE_FLOAT64" using assms(4) by (auto simp: int_range_def)
    from * ne assms(1) obtain q where q: "basic_conversion to h ?f = Some (Some q, h')"
        and d': "d' = q\<lparr>dtype := to\<rparr>"
      by (auto simp: iot_common_data_convert_def Let_def split: bind_splits option.splits)
    from convert_int_real[OF refl _ assms(4) q] t obtain i where
      "i = v" "a \<le> i" "i \<le> b" "q = set_member (type_width to) i ?f" by auto
    then show ?thesis using int_value_set_member[OF assms(4), of i ?f] d' by simp
  qed
  then show ?thesis using c t by blast
qed

theorem data_convert_float64_round_trip_witness:
  "\<exists>f. iot_common_data_convert CONVERSION_BASIC TYPE_FLOAT64 empty_heap (Some (example_int64 (-70000))) =
        Some (True, Some f, empty_heap)
    \<and> fp_trunc (v_float64 f) = Some (-70000)
    \<and> (\<forall>d' h'. iot_common_data_convert CONVERSION_BASIC TYPE_INT32 empty_heap (Some f) = Some (True, Some d', h')
          \<longrightarrow> int_value d' = Some (-70000))"
  by (rule data_convert_float64_round_trip[of _ _ _ INT_MIN INT_MAX])
    (simp_all add: example_int64_def data_zero_def int_value_def int_range_def signed_member_def)

text \<open>
  Base64 strings become raw data in place: if the object's own heap storage holds the
  NUL-terminated base64 text of some bytes, converting it to RAW succeeds, frees and
  allocates nothing, and leaves the object pointing at exactly those bytes.
\<close>

theorem data_convert_base64:
  assumes "has_value d" and "dtype d = TYPE_STRING" and "lo d = p" and "heap_storage d = p"
    and "cells h p = Some (string_block (base64_text xs))" and "p \<noteq> NULL" and "length xs < 2 ^ 63"
  shows "\<exists>d' h' rest. iot_common_data_convert CONVERSION_BASIC TYPE_RAW h (Some d) = Some (True, Some d', h')
    \<and> dtype d' = TYPE_RAW \<and> unat (lo d') = length xs \<and> hi d' = p \<and> heap_storage d' = p
    \<and> h' = h\<lparr>cells := (cells h)(p \<mapsto> Bytes (xs @ rest))\<rparr>"
proof -
  let ?t = "base64_text xs"
  have "CHR 0x00 \<notin> set ?t"
    using base64_text_chars[of "CHR 0x00" xs] by (auto simp: base64_list_def)
  then have s: "read_string p h = Some ?t" "read_bytes p h = Some (bytes_of ?t @ [0])"
    using assms(5,6) read_string_block by (auto simp: read_bytes_def string_block_def)
  have c: "chars_of (bytes_of ?t @ [0]) = ?t @ [CHR 0x00]"
    by (simp add: chars_of_append) (simp add: chars_of_def)
  have n: "length xs \<le> length ?t"
    by (simp add: length_base64_text iot_base64_encode_size_def) presburger
  have "iot_base64_decode True (length ?t) (Some (?t @ [CHR 0x00])) (length ?t) =
      Some (xs, int (length xs))"
    using decode_loop_text[of 0 xs "[CHR 0x00]" 0 "length ?t" "[]"] n
    by (simp add: iot_base64_decode_def)
  then have "iot_common_data_convert CONVERSION_BASIC TYPE_RAW h (Some d) =
      Some (True, Some (d\<lparr>lo := of_nat (length xs), hi := p, dtype := TYPE_RAW\<rparr>),
        h\<lparr>cells := (cells h)(p \<mapsto> Bytes (xs @ drop (length xs) (bytes_of ?t @ [0])))\<rparr>)"
    using assms s c
    by (simp add: iot_common_data_convert_def Let_def basic_conversion_def convert_raw_def)
  moreover have "unat (of_nat (length xs) :: u64) = length xs"
    using assms(7) by (simp add: unat_of_nat)
  ultimately show ?thesis
    using assms(4) by (intro exI conjI) (assumption | simp)+
qed

text \<open>The text of the single byte 0 is \<open>AA==\<close>.\<close>

theorem data_convert_base64_witness:
  "\<exists>d' h' rest. iot_common_data_convert CONVERSION_BASIC TYPE_RAW
        \<lparr>cells = [8 \<mapsto> string_block (base64_text [0])], allocator = []\<rparr>
        (Some \<lparr>lo = 8, hi = 0, has_value = True, heap_storage = 8, dtype = TYPE_STRING\<rparr>) =
      Some (True, Some d', h')
    \<and> dtype d' = TYPE_RAW \<and> unat (lo d') = length [0 :: u8] \<and> hi d' = 8 \<and> heap_storage d' = 8
    \<and> h' = \<lparr>cells = [8 \<mapsto> string_block (base64_text [0])], allocator = []\<rparr>
        \<lparr>cells := (cells \<lparr>cells = [8 \<mapsto> string_block (base64_text [0])], allocator = []\<rparr>)
          (8 \<mapsto> Bytes ([0] @ rest))\<rparr>"
  by (rule data_convert_base64) simp_all

end
