(* ===== verification/Common.thy ===== *)
theory Common
  imports Data Convert
begin

text \<open>
  Reading, writing and copying values, \<open>src/src/api/iot_common.c\<close>: \<open>iot_perform_conversion\<close>
  (one definition per target type), \<open>iot_common_arg_get\<close>, \<open>iot_common_arg_set\<close> and
  \<open>iot_common_data_copy\<close>.

  \<open>os_strtol\<close> and \<open>os_strtoul\<close> belong to the OS abstraction library, which does not say which
  base they parse: they are parameters from strings to the numbers they return. A variable
  argument is a constructor of \<open>va_arg\<close>; reading it at another type is undefined.
\<close>

section \<open>Conversion on reading\<close>

definition fp_abs :: "fp \<Rightarrow> fp" where
  "fp_abs x = (case x of FNaN \<Rightarrow> FNaN | FInf s \<Rightarrow> FInf False | FFin s m e \<Rightarrow> FFin False m e)"

definition fp_less :: "fp \<Rightarrow> fp \<Rightarrow> bool" where
  "fp_less x y \<longleftrightarrow> fp_le x y \<and> \<not> fp_le y x"

definition string_false :: "char \<Rightarrow> bool" where
  "string_false c \<longleftrightarrow> c \<in> {CHR ''F'', CHR ''f'', CHR ''n'', CHR ''N'', CHR ''0'', CHR 0x00}"

text \<open>
  \<open>case IOT_TYPE_BOOL\<close>: the result is always success; \<open>to\<close> is unchanged for a source type that
  no branch names. The two \<open>fabs\<close> tests set the boolean when the real is (nearly) zero.
\<close>

definition perform_bool :: "heap \<Rightarrow> iot_data \<Rightarrow> iot_data \<Rightarrow> iot_data option" where
  "perform_bool h from to =
     (let put = (\<lambda>b. Some (set_member 32 (of_bool b) to)) in
      case dtype from of
        TYPE_INT8 \<Rightarrow> put (v_int8 from \<noteq> 0)
      | TYPE_FLOAT32 \<Rightarrow> put (fp_less (fp_abs (v_float32 from)) (FFin False 1 (-126)))
      | TYPE_FLOAT64 \<Rightarrow> put (fp_less (fp_abs (v_float64 from)) (FFin False 1 (-1022)))
      | TYPE_INT16 \<Rightarrow> put (v_int16 from \<noteq> 0)
      | TYPE_INT32 \<Rightarrow> put (v_int32 from \<noteq> 0)
      | TYPE_INT64 \<Rightarrow> put (v_int64 from \<noteq> 0)
      | TYPE_UINT8 \<Rightarrow> put (v_uint8 from \<noteq> 0)
      | TYPE_UINT16 \<Rightarrow> put (v_uint16 from \<noteq> 0)
      | TYPE_UINT32 \<Rightarrow> put (v_uint32 from \<noteq> 0)
      | TYPE_UINT64 \<Rightarrow> put (v_uint64 from \<noteq> 0)
      | TYPE_STRING \<Rightarrow>
          if lo from \<noteq> NULL
          then do { b \<leftarrow> read_bytes (lo from) h; c \<leftarrow> load (chars_of b) 0; put (\<not> string_false c) }
          else put False
      | TYPE_RAW \<Rightarrow> put (hi from \<noteq> NULL)
      | TYPE_NULL \<Rightarrow> put False
      | _ \<Rightarrow> Some to)"

text \<open>
  The integer targets: \<open>Some None\<close> when no branch applies, otherwise the number that is cast to
  the target type. A string is parsed as a \<open>long\<close>, or \<open>unsigned long\<close>.
\<close>

definition parse_string :: "(string \<Rightarrow> int) \<Rightarrow> heap \<Rightarrow> iot_data \<Rightarrow> int option option" where
  "parse_string parse h from =
     (if lo from \<noteq> NULL then do { s \<leftarrow> read_string (lo from) h; Some (Some (parse s)) }
      else Some (Some 0))"

definition real_to_int :: "int \<Rightarrow> int \<Rightarrow> fp \<Rightarrow> int option option" where
  "real_to_int a b x = map_option Some (fp_to_int a b x)"

definition perform_int8 :: "(string \<Rightarrow> int) \<Rightarrow> heap \<Rightarrow> iot_data \<Rightarrow> int option option" where
  "perform_int8 os_strtol h from =
     (case dtype from of
        TYPE_BOOL \<Rightarrow> Some (Some (v_boolean from))
      | TYPE_FLOAT32 \<Rightarrow> real_to_int (- (2 ^ 7)) (2 ^ 7 - 1) (v_float32 from)
      | TYPE_FLOAT64 \<Rightarrow> real_to_int (- (2 ^ 7)) (2 ^ 7 - 1) (v_float64 from)
      | TYPE_INT16 \<Rightarrow> Some (Some (v_int16 from))
      | TYPE_INT32 \<Rightarrow> Some (Some (v_int32 from))
      | TYPE_INT64 \<Rightarrow> Some (Some (v_int64 from))
      | TYPE_UINT8 \<Rightarrow> Some (Some (v_uint8 from))
      | TYPE_UINT16 \<Rightarrow> Some (Some (v_uint16 from))
      | TYPE_UINT32 \<Rightarrow> Some (Some (v_uint32 from))
      | TYPE_UINT64 \<Rightarrow> Some (Some (v_uint64 from))
      | TYPE_STRING \<Rightarrow> parse_string os_strtol h from
      | TYPE_NULL \<Rightarrow> Some (Some 0)
      | _ \<Rightarrow> Some None)"

definition perform_int16 :: "(string \<Rightarrow> int) \<Rightarrow> heap \<Rightarrow> iot_data \<Rightarrow> int option option" where
  "perform_int16 os_strtol h from =
     (case dtype from of
        TYPE_BOOL \<Rightarrow> Some (Some (v_boolean from))
      | TYPE_FLOAT32 \<Rightarrow> real_to_int (- (2 ^ 15)) (2 ^ 15 - 1) (v_float32 from)
      | TYPE_FLOAT64 \<Rightarrow> real_to_int (- (2 ^ 15)) (2 ^ 15 - 1) (v_float64 from)
      | TYPE_INT8 \<Rightarrow> Some (Some (v_int8 from))
      | TYPE_INT32 \<Rightarrow> Some (Some (v_int32 from))
      | TYPE_INT64 \<Rightarrow> Some (Some (v_int64 from))
      | TYPE_UINT8 \<Rightarrow> Some (Some (v_uint8 from))
      | TYPE_UINT16 \<Rightarrow> Some (Some (v_uint16 from))
      | TYPE_UINT32 \<Rightarrow> Some (Some (v_uint32 from))
      | TYPE_UINT64 \<Rightarrow> Some (Some (v_uint64 from))
      | TYPE_STRING \<Rightarrow> parse_string os_strtol h from
      | TYPE_NULL \<Rightarrow> Some (Some 0)
      | _ \<Rightarrow> Some None)"

definition perform_int32 :: "(string \<Rightarrow> int) \<Rightarrow> heap \<Rightarrow> iot_data \<Rightarrow> int option option" where
  "perform_int32 os_strtol h from =
     (case dtype from of
        TYPE_BOOL \<Rightarrow> Some (Some (v_boolean from))
      | TYPE_FLOAT32 \<Rightarrow> real_to_int (- (2 ^ 31)) (2 ^ 31 - 1) (v_float32 from)
      | TYPE_FLOAT64 \<Rightarrow> real_to_int (- (2 ^ 31)) (2 ^ 31 - 1) (v_float64 from)
      | TYPE_INT8 \<Rightarrow> Some (Some (v_int8 from))
      | TYPE_INT16 \<Rightarrow> Some (Some (v_int16 from))
      | TYPE_INT64 \<Rightarrow> Some (Some (v_int64 from))
      | TYPE_UINT8 \<Rightarrow> Some (Some (v_uint8 from))
      | TYPE_UINT16 \<Rightarrow> Some (Some (v_uint16 from))
      | TYPE_UINT32 \<Rightarrow> Some (Some (v_uint32 from))
      | TYPE_UINT64 \<Rightarrow> Some (Some (v_uint64 from))
      | TYPE_STRING \<Rightarrow> parse_string os_strtol h from
      | TYPE_NULL \<Rightarrow> Some (Some 0)
      | _ \<Rightarrow> Some None)"

definition perform_int64 :: "(string \<Rightarrow> int) \<Rightarrow> heap \<Rightarrow> iot_data \<Rightarrow> int option option" where
  "perform_int64 os_strtol h from =
     (case dtype from of
        TYPE_BOOL \<Rightarrow> Some (Some (v_boolean from))
      | TYPE_FLOAT32 \<Rightarrow> real_to_int (- (2 ^ 63)) (2 ^ 63 - 1) (v_float32 from)
      | TYPE_FLOAT64 \<Rightarrow> real_to_int (- (2 ^ 63)) (2 ^ 63 - 1) (v_float64 from)
      | TYPE_INT8 \<Rightarrow> Some (Some (v_int8 from))
      | TYPE_INT16 \<Rightarrow> Some (Some (v_int16 from))
      | TYPE_INT32 \<Rightarrow> Some (Some (v_int32 from))
      | TYPE_UINT8 \<Rightarrow> Some (Some (v_uint8 from))
      | TYPE_UINT16 \<Rightarrow> Some (Some (v_uint16 from))
      | TYPE_UINT32 \<Rightarrow> Some (Some (v_uint32 from))
      | TYPE_UINT64 \<Rightarrow> Some (Some (v_uint64 from))
      | TYPE_STRING \<Rightarrow> parse_string os_strtol h from
      | TYPE_NULL \<Rightarrow> Some (Some 0)
      | _ \<Rightarrow> Some None)"

definition perform_uint8 :: "(string \<Rightarrow> int) \<Rightarrow> heap \<Rightarrow> iot_data \<Rightarrow> int option option" where
  "perform_uint8 os_strtoul h from =
     (case dtype from of
        TYPE_BOOL \<Rightarrow> Some (Some (v_boolean from))
      | TYPE_FLOAT32 \<Rightarrow> real_to_int 0 (2 ^ 8 - 1) (v_float32 from)
      | TYPE_FLOAT64 \<Rightarrow> real_to_int 0 (2 ^ 8 - 1) (v_float64 from)
      | TYPE_INT8 \<Rightarrow> Some (Some (v_int8 from))
      | TYPE_INT16 \<Rightarrow> Some (Some (v_int16 from))
      | TYPE_INT32 \<Rightarrow> Some (Some (v_int32 from))
      | TYPE_INT64 \<Rightarrow> Some (Some (v_int64 from))
      | TYPE_UINT16 \<Rightarrow> Some (Some (v_uint16 from))
      | TYPE_UINT32 \<Rightarrow> Some (Some (v_uint32 from))
      | TYPE_UINT64 \<Rightarrow> Some (Some (v_uint64 from))
      | TYPE_STRING \<Rightarrow> parse_string os_strtoul h from
      | TYPE_NULL \<Rightarrow> Some (Some 0)
      | _ \<Rightarrow> Some None)"

definition perform_uint16 :: "(string \<Rightarrow> int) \<Rightarrow> heap \<Rightarrow> iot_data \<Rightarrow> int option option" where
  "perform_uint16 os_strtoul h from =
     (case dtype from of
        TYPE_BOOL \<Rightarrow> Some (Some (v_boolean from))
      | TYPE_FLOAT32 \<Rightarrow> real_to_int 0 (2 ^ 16 - 1) (v_float32 from)
      | TYPE_FLOAT64 \<Rightarrow> real_to_int 0 (2 ^ 16 - 1) (v_float64 from)
      | TYPE_INT8 \<Rightarrow> Some (Some (v_int8 from))
      | TYPE_INT16 \<Rightarrow> Some (Some (v_int16 from))
      | TYPE_INT32 \<Rightarrow> Some (Some (v_int32 from))
      | TYPE_INT64 \<Rightarrow> Some (Some (v_int64 from))
      | TYPE_UINT8 \<Rightarrow> Some (Some (v_uint8 from))
      | TYPE_UINT32 \<Rightarrow> Some (Some (v_uint32 from))
      | TYPE_UINT64 \<Rightarrow> Some (Some (v_uint64 from))
      | TYPE_STRING \<Rightarrow> parse_string os_strtoul h from
      | TYPE_NULL \<Rightarrow> Some (Some 0)
      | _ \<Rightarrow> Some None)"

definition perform_uint32 :: "(string \<Rightarrow> int) \<Rightarrow> heap \<Rightarrow> iot_data \<Rightarrow> int option option" where
  "perform_uint32 os_strtoul h from =
     (case dtype from of
        TYPE_BOOL \<Rightarrow> Some (Some (v_boolean from))
      | TYPE_FLOAT32 \<Rightarrow> real_to_int 0 (2 ^ 32 - 1) (v_float32 from)
      | TYPE_FLOAT64 \<Rightarrow> real_to_int 0 (2 ^ 32 - 1) (v_float64 from)
      | TYPE_INT8 \<Rightarrow> Some (Some (v_int8 from))
      | TYPE_INT16 \<Rightarrow> Some (Some (v_int16 from))
      | TYPE_INT32 \<Rightarrow> Some (Some (v_int32 from))
      | TYPE_INT64 \<Rightarrow> Some (Some (v_int64 from))
      | TYPE_UINT8 \<Rightarrow> Some (Some (v_uint8 from))
      | TYPE_UINT16 \<Rightarrow> Some (Some (v_uint16 from))
      | TYPE_UINT64 \<Rightarrow> Some (Some (v_uint64 from))
      | TYPE_STRING \<Rightarrow> parse_string os_strtoul h from
      | TYPE_NULL \<Rightarrow> Some (Some 0)
      | _ \<Rightarrow> Some None)"

definition perform_uint64 :: "(string \<Rightarrow> int) \<Rightarrow> heap \<Rightarrow> iot_data \<Rightarrow> int option option" where
  "perform_uint64 os_strtoul h from =
     (case dtype from of
        TYPE_BOOL \<Rightarrow> Some (Some (v_boolean from))
      | TYPE_FLOAT32 \<Rightarrow> real_to_int 0 (2 ^ 64 - 1) (v_float32 from)
      | TYPE_FLOAT64 \<Rightarrow> real_to_int 0 (2 ^ 64 - 1) (v_float64 from)
      | TYPE_INT8 \<Rightarrow> Some (Some (v_int8 from))
      | TYPE_INT16 \<Rightarrow> Some (Some (v_int16 from))
      | TYPE_INT32 \<Rightarrow> Some (Some (v_int32 from))
      | TYPE_INT64 \<Rightarrow> Some (Some (v_int64 from))
      | TYPE_UINT8 \<Rightarrow> Some (Some (v_uint8 from))
      | TYPE_UINT16 \<Rightarrow> Some (Some (v_uint16 from))
      | TYPE_UINT32 \<Rightarrow> Some (Some (v_uint32 from))
      | TYPE_STRING \<Rightarrow> parse_string os_strtoul h from
      | TYPE_NULL \<Rightarrow> Some (Some 0)
      | _ \<Rightarrow> Some None)"

definition perform_raw :: "heap \<Rightarrow> iot_data \<Rightarrow> iot_data \<Rightarrow> iot_data option option" where
  "perform_raw h from to =
     (case dtype from of
        TYPE_STRING \<Rightarrow>
          if lo from \<noteq> NULL
          then do {
            s \<leftarrow> read_string (lo from) h;
            Some (Some (to\<lparr>lo := of_nat (length s), hi := lo from\<rparr>))
          }
          else Some (Some (to\<lparr>lo := 0, hi := NULL\<rparr>))
      | TYPE_NULL \<Rightarrow> Some (Some (to\<lparr>lo := 0, hi := NULL\<rparr>))
      | _ \<Rightarrow> Some None)"

text \<open>The \<open>switch\<close> on the target type; \<open>Some None\<close> leaves the result a bad request.\<close>

definition perform_switch ::
    "(string \<Rightarrow> int) \<Rightarrow> (string \<Rightarrow> int) \<Rightarrow> heap \<Rightarrow> iot_data \<Rightarrow> iot_data \<Rightarrow> iot_data option option" where
  "perform_switch os_strtol os_strtoul h from to =
     (let int = (\<lambda>w. map_option (map_option (\<lambda>i. set_member w i to))) in
      case dtype to of
        TYPE_BOOL \<Rightarrow> map_option Some (perform_bool h from to)
      | TYPE_FLOAT32 \<Rightarrow> Some None
      | TYPE_FLOAT64 \<Rightarrow> Some None
      | TYPE_INT8 \<Rightarrow> int 8 (perform_int8 os_strtol h from)
      | TYPE_INT16 \<Rightarrow> int 16 (perform_int16 os_strtol h from)
      | TYPE_INT32 \<Rightarrow> int 32 (perform_int32 os_strtol h from)
      | TYPE_INT64 \<Rightarrow> int 64 (perform_int64 os_strtol h from)
      | TYPE_UINT8 \<Rightarrow> int 8 (perform_uint8 os_strtoul h from)
      | TYPE_UINT16 \<Rightarrow> int 16 (perform_uint16 os_strtoul h from)
      | TYPE_UINT32 \<Rightarrow> int 32 (perform_uint32 os_strtoul h from)
      | TYPE_UINT64 \<Rightarrow> int 64 (perform_uint64 os_strtoul h from)
      | TYPE_LOCATION \<Rightarrow> Some None
      | TYPE_RAW \<Rightarrow> perform_raw h from to
      | TYPE_STRING \<Rightarrow> Some None
      | TYPE_NULL \<Rightarrow> Some (Some to))"

definition iot_perform_conversion ::
    "(string \<Rightarrow> int) \<Rightarrow> (string \<Rightarrow> int) \<Rightarrow> heap \<Rightarrow> iot_data \<Rightarrow> iot_data \<Rightarrow> bool \<Rightarrow>
     (iot_status \<times> iot_data) option" where
  "iot_perform_conversion os_strtol os_strtoul h to from convert =
     (if dtype to = dtype from then Some (STATUS_SUCCESS, from\<lparr>heap_storage := NULL\<rparr>)
      else if has_value from \<and> convert
      then do {
        let to = to\<lparr>heap_storage := NULL\<rparr>;
        r \<leftarrow> perform_switch os_strtol os_strtoul h from to;
        Some (case r of
            Some to \<Rightarrow> (STATUS_SUCCESS, to\<lparr>has_value := True\<rparr>)
          | None \<Rightarrow> (STATUS_BAD_REQUEST, to))
      }
      else Some (STATUS_BAD_REQUEST, to))"

section \<open>Reading a value into a variable\<close>

text \<open>What is stored through the destination pointer, by type of the destination.\<close>

datatype arg_out =
    OutBool int | OutFloat32 u32 | OutFloat64 u64
  | OutInt int | OutLocation ptr | OutRaw u64 ptr | OutString ptr

definition arg_out_of :: "iot_type \<Rightarrow> iot_data \<Rightarrow> arg_out option" where
  "arg_out_of type d =
     (case type of
        TYPE_BOOL \<Rightarrow> Some (OutBool (v_boolean d))
      | TYPE_FLOAT32 \<Rightarrow> Some (OutFloat32 (ucast (lo d)))
      | TYPE_FLOAT64 \<Rightarrow> Some (OutFloat64 (lo d))
      | TYPE_INT8 \<Rightarrow> Some (OutInt (v_int8 d))
      | TYPE_INT16 \<Rightarrow> Some (OutInt (v_int16 d))
      | TYPE_INT32 \<Rightarrow> Some (OutInt (v_int32 d))
      | TYPE_INT64 \<Rightarrow> Some (OutInt (v_int64 d))
      | TYPE_LOCATION \<Rightarrow> Some (OutLocation (lo d))
      | TYPE_RAW \<Rightarrow> Some (OutRaw (lo d) (hi d))
      | TYPE_NULL \<Rightarrow> None
      | TYPE_STRING \<Rightarrow> Some (OutString (lo d))
      | TYPE_UINT8 \<Rightarrow> Some (OutInt (v_uint8 d))
      | TYPE_UINT16 \<Rightarrow> Some (OutInt (v_uint16 d))
      | TYPE_UINT32 \<Rightarrow> Some (OutInt (v_uint32 d))
      | TYPE_UINT64 \<Rightarrow> Some (OutInt (v_uint64 d)))"

text \<open>
  \<open>dest\<close> says that the destination pointer is not NULL; a NULL one is skipped without an
  error. The result is the status and what was stored, if anything.
\<close>

definition iot_common_arg_get ::
    "(string \<Rightarrow> int) \<Rightarrow> (string \<Rightarrow> int) \<Rightarrow> heap \<Rightarrow> iot_data option \<Rightarrow> bool \<Rightarrow> iot_type \<Rightarrow> bool \<Rightarrow>
     (iot_status \<times> arg_out option) option" where
  "iot_common_arg_get os_strtol os_strtoul h obj convert type dest =
     (case obj of
        None \<Rightarrow> Some (STATUS_BAD_PARAMETER, None)
      | Some obj \<Rightarrow> do {
          (result, from_data) \<leftarrow>
            iot_perform_conversion os_strtol os_strtoul h (data_zero\<lparr>dtype := type\<rparr>) obj convert;
          Some (result,
            if result = STATUS_SUCCESS \<and> has_value from_data \<and> dest
            then arg_out_of type from_data else None)
        })"

section \<open>Writing a value\<close>

text \<open>
  A variable argument after the default promotions; \<open>ARaw\<close> is a pointer to a
  \<open>struct iot_data_raw\<close>, given by its fields unless it is NULL.
\<close>

datatype va_arg =
    AInt int | ADouble u64 | AU64 u64 | ALocation ptr | ARaw "(u64 \<times> ptr) option"
  | AString ptr | ANone

definition arg_set_scalar :: "iot_data \<Rightarrow> va_arg \<Rightarrow> iot_data option" where
  "arg_set_scalar obj args =
     (case (dtype obj, args) of
        (TYPE_BOOL, AInt i) \<Rightarrow> Some (set_member 32 i obj)
      | (TYPE_FLOAT32, ADouble x) \<Rightarrow>
          Some (set_member 32 (int (fp_convert 23 8 (fp_decode 52 11 (unat x)))) obj)
      | (TYPE_FLOAT64, ADouble x) \<Rightarrow> Some (set_member 64 (uint x) obj)
      | (TYPE_INT8, AInt i) \<Rightarrow> Some (set_member 8 i obj)
      | (TYPE_INT16, AInt i) \<Rightarrow> Some (set_member 16 i obj)
      | (TYPE_INT32, AInt i) \<Rightarrow> Some (set_member 32 i obj)
      | (TYPE_INT64, AU64 x) \<Rightarrow> Some (set_member 64 (uint x) obj)
      | (TYPE_UINT8, AInt i) \<Rightarrow> Some (set_member 8 i obj)
      | (TYPE_UINT16, AInt i) \<Rightarrow> Some (set_member 16 i obj)
      | (TYPE_UINT32, AInt i) \<Rightarrow> Some (set_member 32 i obj)
      | (TYPE_UINT64, AU64 x) \<Rightarrow> Some (set_member 64 (uint x) obj)
      | (TYPE_NULL, _) \<Rightarrow> Some (obj\<lparr>lo := 0, hi := NULL, has_value := False\<rparr>)
      | _ \<Rightarrow> None)"

definition arg_set_location ::
    "bool \<Rightarrow> heap \<Rightarrow> iot_data \<Rightarrow> ptr \<Rightarrow> (iot_status \<times> iot_data \<times> heap) option" where
  "arg_set_location heap_alloc h obj data_obj =
     (let obj = obj\<lparr>lo := NULL\<rparr> in
      if data_obj = NULL then Some (STATUS_SUCCESS, obj, h)
      else if heap_alloc
      then do {
        l \<leftarrow> read_location data_obj h;
        let (p, h) = os_malloc (Loc l) h;
        Some (if p \<noteq> NULL then (STATUS_SUCCESS, obj\<lparr>heap_storage := p, lo := p\<rparr>, h)
              else (STATUS_NO_MEMORY, obj\<lparr>heap_storage := NULL\<rparr>, h))
      }
      else Some (STATUS_SUCCESS, obj\<lparr>lo := data_obj\<rparr>, h))"

definition arg_set_raw ::
    "bool \<Rightarrow> heap \<Rightarrow> iot_data \<Rightarrow> (u64 \<times> ptr) option \<Rightarrow> (iot_status \<times> iot_data \<times> heap) option" where
  "arg_set_raw heap_alloc h obj data_obj =
     (let obj = obj\<lparr>lo := 0, hi := NULL\<rparr> in
      case data_obj of
        Some (len, p) \<Rightarrow>
          if p = NULL then Some (STATUS_BAD_PARAMETER, obj, h)
          else if heap_alloc
          then do {
            b \<leftarrow> read_bytes p h;
            (if length b < unat len then None
             else (let (q, h) = os_malloc (Bytes (take (unat len) b)) h in
               Some (if q \<noteq> NULL
                     then (STATUS_SUCCESS, obj\<lparr>heap_storage := q, lo := len, hi := q\<rparr>, h)
                     else (STATUS_NO_MEMORY, obj\<lparr>heap_storage := NULL\<rparr>, h))))
          }
          else Some (STATUS_SUCCESS, obj\<lparr>lo := len, hi := p\<rparr>, h)
      | None \<Rightarrow> Some (STATUS_BAD_PARAMETER, obj, h))"

text \<open>A NULL source with \<open>heap_alloc\<close> is stored as the empty string.\<close>

definition arg_set_string ::
    "bool \<Rightarrow> heap \<Rightarrow> iot_data \<Rightarrow> ptr \<Rightarrow> (iot_status \<times> iot_data \<times> heap) option" where
  "arg_set_string heap_alloc h obj src_str =
     (if heap_alloc
      then do {
        s \<leftarrow> (if src_str \<noteq> NULL then read_string src_str h else Some []);
        let (dest_str, h) = os_malloc (string_block s) h;
        Some (if dest_str \<noteq> NULL
              then (STATUS_SUCCESS, obj\<lparr>heap_storage := dest_str, lo := dest_str\<rparr>, h)
              else (STATUS_NO_MEMORY, obj\<lparr>lo := NULL\<rparr>, h))
      }
      else Some (STATUS_SUCCESS, obj\<lparr>lo := src_str\<rparr>, h))"

text \<open>
  The whole function on a non-NULL \<open>obj\<close>: whatever the object held before is erased first
  (its heap storage is not released), so only the type and the arguments matter.
\<close>

definition iot_common_arg_set ::
    "bool \<Rightarrow> iot_type \<Rightarrow> va_arg \<Rightarrow> heap \<Rightarrow> (iot_status \<times> iot_data \<times> heap) option" where
  "iot_common_arg_set heap_alloc type args h =
     (let obj = data_zero\<lparr>dtype := type, has_value := True\<rparr> in
      case (type, args) of
        (TYPE_LOCATION, ALocation p) \<Rightarrow> arg_set_location heap_alloc h obj p
      | (TYPE_RAW, ARaw r) \<Rightarrow> arg_set_raw heap_alloc h obj r
      | (TYPE_STRING, AString p) \<Rightarrow> arg_set_string heap_alloc h obj p
      | _ \<Rightarrow> do { obj \<leftarrow> arg_set_scalar obj args; Some (STATUS_SUCCESS, obj, h) })"

section \<open>Copying\<close>

text \<open>
  The part of \<open>iot_common_data_copy\<close> after the structure copy, when dynamic data is copied:
  the size to allocate (0: nothing), then the copy. \<open>strncpy\<close> from a NULL string is undefined.
\<close>

definition copy_size :: "heap \<Rightarrow> iot_data \<Rightarrow> (nat \<times> iot_data) option" where
  "copy_size h to =
     (case dtype to of
        TYPE_RAW \<Rightarrow>
          Some (if hi to \<noteq> NULL then (unat (lo to), to)
                else (0, to\<lparr>has_value := False, lo := 0\<rparr>))
      | TYPE_STRING \<Rightarrow>
          if lo to \<noteq> NULL then do { s \<leftarrow> read_string (lo to) h; Some (1 + length s, to) }
          else Some (1, to)
      | TYPE_LOCATION \<Rightarrow> Some (if lo to \<noteq> NULL then 80 else 0, to)
      | _ \<Rightarrow> Some (0, to))"

definition copy_content :: "heap \<Rightarrow> iot_data \<Rightarrow> block option" where
  "copy_content h to =
     (case dtype to of
        TYPE_RAW \<Rightarrow> do {
          b \<leftarrow> read_bytes (hi to) h;
          if length b < unat (lo to) then None else Some (Bytes (take (unat (lo to)) b))
        }
      | TYPE_STRING \<Rightarrow> do { s \<leftarrow> read_string (lo to) h; Some (string_block s) }
      | _ \<Rightarrow> do { l \<leftarrow> read_location (lo to) h; Some (Loc l) })"

definition set_pointer :: "ptr \<Rightarrow> iot_data \<Rightarrow> iot_data" where
  "set_pointer p d =
     (case dtype d of
        TYPE_RAW \<Rightarrow> d\<lparr>hi := p\<rparr>
      | TYPE_STRING \<Rightarrow> d\<lparr>lo := p\<rparr>
      | TYPE_LOCATION \<Rightarrow> d\<lparr>lo := p\<rparr>
      | _ \<Rightarrow> d)"

definition copy_failed :: "iot_data \<Rightarrow> iot_data" where
  "copy_failed d =
     (set_pointer NULL (if dtype d = TYPE_RAW then d\<lparr>lo := 0\<rparr> else d))
       \<lparr>has_value := False, heap_storage := NULL\<rparr>"

text \<open>
  \<open>alias\<close> says that \<open>to\<close> and \<open>from\<close> are the same object. The content is only read when the
  allocation succeeds.
\<close>

definition iot_common_data_copy ::
    "bool \<Rightarrow> bool \<Rightarrow> heap \<Rightarrow> iot_data \<Rightarrow> iot_data \<Rightarrow> (iot_status \<times> iot_data \<times> heap) option" where
  "iot_common_data_copy alias copy_dynamic_data h to from = do {
     (to, h) \<leftarrow> (if alias then Some (to, h)
                  else do { h \<leftarrow> os_free (heap_storage to) h; Some (from, h) });
     (if copy_dynamic_data \<and> has_value to
      then do {
        (mem_size, to) \<leftarrow> copy_size h to;
        (if 0 < mem_size \<and> (\<not> alias \<or> heap_storage to = NULL)
         then (if fst (os_malloc (Bytes []) h) = NULL
               then Some (STATUS_NO_MEMORY, copy_failed to, snd (os_malloc (Bytes []) h))
               else do {
                 b \<leftarrow> copy_content h to;
                 let (p, h) = os_malloc b h;
                 Some (STATUS_SUCCESS, (set_pointer p to)\<lparr>heap_storage := p\<rparr>, h)
               })
         else Some (STATUS_SUCCESS, if alias then to else to\<lparr>heap_storage := NULL\<rparr>, h))
      }
      else Some (STATUS_SUCCESS, if alias then to else to\<lparr>heap_storage := NULL\<rparr>, h))
   }"

section \<open>Values by content\<close>

text \<open>
  The abstract view of an object: what it stands for, following its pointers. An object
  without a value, and a RAW one without data, stands for nothing.
\<close>

datatype content =
    NoValue | Scalar iot_type u64 u64 | RawBytes bytes | Text string | NoLocation | Place iot_location

definition content_of :: "heap \<Rightarrow> iot_data \<Rightarrow> content option" where
  "content_of h d =
     (if \<not> has_value d then Some NoValue
      else case dtype d of
        TYPE_RAW \<Rightarrow>
          if hi d = NULL then Some NoValue
          else if lo d = 0 then Some (RawBytes [])
          else do {
            b \<leftarrow> read_bytes (hi d) h;
            if length b < unat (lo d) then None else Some (RawBytes (take (unat (lo d)) b))
          }
      | TYPE_STRING \<Rightarrow> map_option Text (read_string (lo d) h)
      | TYPE_LOCATION \<Rightarrow>
          if lo d = NULL then Some NoLocation else map_option Place (read_location (lo d) h)
      | _ \<Rightarrow> Some (Scalar (dtype d) (lo d) (hi d)))"

definition data_pointer :: "iot_data \<Rightarrow> ptr" where
  "data_pointer d =
     (if \<not> has_value d then NULL
      else case dtype d of
        TYPE_RAW \<Rightarrow> if lo d = 0 then NULL else hi d
      | TYPE_STRING \<Rightarrow> lo d | TYPE_LOCATION \<Rightarrow> lo d | _ \<Rightarrow> NULL)"

text \<open>Content depends only on the block the object points at, if it needs one.\<close>

lemma content_of_cong:
  assumes "data_pointer d = NULL \<or> cells h (data_pointer d) = cells h' (data_pointer d)"
  shows "content_of h d = content_of h' d"
  using assms
  by (cases "dtype d")
    (auto simp: content_of_def data_pointer_def read_bytes_def read_location_def read_string_def)

lemma content_live:
  assumes "content_of h d = Some c" and "data_pointer d \<noteq> NULL"
  shows "cells h (data_pointer d) \<noteq> None"
  using assms
  by (cases "dtype d")
    (auto simp: content_of_def data_pointer_def read_bytes_def read_location_def read_string_def
      split: if_splits option.splits bind_splits)

lemma content_of_storage [simp]:
  "content_of h (d\<lparr>heap_storage := p\<rparr>) = content_of h d"
  "data_pointer (d\<lparr>heap_storage := p\<rparr>) = data_pointer d"
proof -
  obtain l i v s t where "d = \<lparr>lo = l, hi = i, has_value = v, heap_storage = s, dtype = t\<rparr>"
    by (cases d)
  then show "content_of h (d\<lparr>heap_storage := p\<rparr>) = content_of h d"
    and "data_pointer (d\<lparr>heap_storage := p\<rparr>) = data_pointer d"
    by (simp_all add: content_of_def data_pointer_def cong del: if_weak_cong iot_type.case_cong_weak)
qed

lemma copy_size_of:
  assumes "content_of h d = Some c" and "has_value d"
  obtains n where "copy_size h d = Some (n, d)" and "c \<noteq> NoValue"
    and "0 < n \<longleftrightarrow> data_pointer d \<noteq> NULL"
  | d' where "copy_size h d = Some (0, d')" and "c = NoValue" and "\<not> has_value d'"
proof (cases "dtype d = TYPE_RAW")
  case True
  then show ?thesis using assms that
    by (cases "hi d = NULL") (auto simp: content_of_def copy_size_def data_pointer_def unat_eq_zero unat_gt_0
        split: bind_splits if_splits)
next
  case False
  then show ?thesis using assms that(1)
    by (cases "dtype d")
      (auto simp: content_of_def copy_size_def data_pointer_def read_string_def read_bytes_def
        split: bind_splits if_splits)
qed

lemma copy_content_of:
  assumes "content_of h d = Some c" and "has_value d" and "copy_size h d = Some (n, d)" and "0 < n"
  obtains b where "copy_content h d = Some b" and "cells h (data_pointer d) \<noteq> None"
    and "\<And>p h'. cells h' p = Some b \<Longrightarrow> p \<noteq> NULL \<Longrightarrow>
      content_of h' ((set_pointer p d)\<lparr>heap_storage := p\<rparr>) = Some c
      \<and> data_pointer ((set_pointer p d)\<lparr>heap_storage := p\<rparr>) = p"
proof -
  consider "dtype d = TYPE_RAW" | "dtype d = TYPE_STRING" | "dtype d = TYPE_LOCATION"
    using assms(3,4) by (cases "dtype d") (auto simp: copy_size_def)
  then show ?thesis
  proof cases
    case 1
    with assms obtain b where "hi d \<noteq> NULL" "lo d \<noteq> 0" "read_bytes (hi d) h = Some b" "unat (lo d) \<le> length b"
        "c = RawBytes (take (unat (lo d)) b)"
      by (auto simp: content_of_def copy_size_def split: bind_splits if_splits)
    then show ?thesis using 1 assms(2)
      by (intro that[of "Bytes (take (unat (lo d)) b)"])
        (auto simp: copy_content_def content_of_def set_pointer_def data_pointer_def
          read_bytes_def split: option.splits)
  next
    case 2
    with assms obtain s where s: "read_string (lo d) h = Some s" "c = Text s"
      by (auto simp: content_of_def)
    moreover have "cells h (lo d) \<noteq> None"
      using s(1) by (auto simp: read_string_def read_bytes_def split: bind_splits if_splits option.splits)
    ultimately show ?thesis using 2 assms(2) read_string_no_nul[OF s(1)] read_string_block
      by (intro that[of "string_block s"])
        (simp_all add: copy_content_def content_of_def set_pointer_def data_pointer_def)
  next
    case 3
    with assms obtain l where "lo d \<noteq> NULL" "read_location (lo d) h = Some l" "c = Place l"
      by (auto simp: content_of_def copy_size_def split: if_splits)
    then show ?thesis using 3 assms(2)
      by (intro that[of "Loc l"])
        (auto simp: copy_content_def content_of_def set_pointer_def data_pointer_def
          read_location_def split: option.splits)
  qed
qed

text \<open>The deep copy, case by case.\<close>

lemma data_copy_spec:
  assumes "content_of h from = Some c"
    and "heap_storage to = NULL \<or> cells h (heap_storage to) \<noteq> None \<and> heap_storage to \<noteq> data_pointer from"
  shows "\<exists>st to' h'. iot_common_data_copy False True h to from = Some (st, to', h')
    \<and> (st = STATUS_SUCCESS \<and> content_of h' to' = Some c \<and> content_of h' from = Some c
          \<and> data_pointer to' = heap_storage to'
          \<and> (heap_storage to' = NULL \<or> heap_storage to' = heap_storage to
               \<or> cells h (heap_storage to') = None)
       \<or> st = STATUS_NO_MEMORY \<and> content_of h' to' = Some NoValue \<and> heap_storage to' = NULL)
    \<and> (\<forall>q. q = NULL \<or> q = heap_storage to' \<or>
          cells h' q = (if q = heap_storage to then None else cells h q))"
proof -
  obtain h1 where free: "os_free (heap_storage to) h = Some h1"
    and h1: "\<And>q. q = NULL \<or> cells h1 q = (if q = heap_storage to then None else cells h q)"
    using assms(2) by (cases "heap_storage to = NULL") (auto simp: os_free_def)
  have keep: "cells h (data_pointer from) = cells h1 (data_pointer from)"
    using free assms(2) by (auto simp: os_free_def split: if_splits)
  then have c1: "content_of h1 from = Some c" using assms(1) content_of_cong by metis
  show ?thesis
  proof (cases "has_value from")
    case False
    then have "c = NoValue" using assms(1) by (simp add: content_of_def)
    with False free h1 show ?thesis
      by (intro exI[of _ STATUS_SUCCESS] exI[of _ "from\<lparr>heap_storage := NULL\<rparr>"] exI[of _ h1])
        (auto simp: iot_common_data_copy_def content_of_def data_pointer_def)
  next
    case True
    from copy_size_of[OF c1 True] show ?thesis
    proof cases
      case (2 d')
      with True free h1 c1 show ?thesis
        by (intro exI[of _ STATUS_SUCCESS] exI[of _ "d'\<lparr>heap_storage := NULL\<rparr>"] exI[of _ h1])
          (auto simp: iot_common_data_copy_def content_of_def data_pointer_def)
    next
      case (1 n)
      show ?thesis
      proof (cases "n = 0")
        case True
        have "content_of h1 (from\<lparr>heap_storage := NULL\<rparr>) = content_of h1 from"
          by simp
        with True \<open>has_value from\<close> 1 free h1 c1 show ?thesis
          by (intro exI[of _ STATUS_SUCCESS] exI[of _ "from\<lparr>heap_storage := NULL\<rparr>"] exI[of _ h1])
            (auto simp: iot_common_data_copy_def)
      next
        case False
        from copy_content_of[OF c1 \<open>has_value from\<close> 1(1)] False obtain b where
          b: "copy_content h1 from = Some b" and live: "cells h1 (data_pointer from) \<noteq> None" and
          new: "\<And>p h'. cells h' p = Some b \<Longrightarrow> p \<noteq> NULL \<Longrightarrow>
            content_of h' ((set_pointer p from)\<lparr>heap_storage := p\<rparr>) = Some c
            \<and> data_pointer ((set_pointer p from)\<lparr>heap_storage := p\<rparr>) = p" by blast
        show ?thesis
        proof (cases rule: os_malloc_cases[of h1])
          case (fail r)
          have "iot_common_data_copy False True h to from =
              Some (STATUS_NO_MEMORY, copy_failed from, h1\<lparr>allocator := r\<rparr>)"
            using fail \<open>copy_size h1 from = Some (n, from)\<close> False \<open>has_value from\<close> free
            by (simp add: iot_common_data_copy_def)
          then show ?thesis using h1
            by (auto simp: copy_failed_def content_of_def)
        next
          case (ok p r)
          let ?h2 = "h1\<lparr>allocator := r, cells := (cells h1)(p \<mapsto> b)\<rparr>"
          let ?to = "(set_pointer p from)\<lparr>heap_storage := p\<rparr>"
          have r: "iot_common_data_copy False True h to from = Some (STATUS_SUCCESS, ?to, ?h2)"
            using ok b \<open>copy_size h1 from = Some (n, from)\<close> False \<open>has_value from\<close> free
            by (simp add: iot_common_data_copy_def)
          have "data_pointer from \<noteq> p" using live ok(3) by auto
          then have "content_of ?h2 from = Some c"
            using c1 content_of_cong[of "from" h1 ?h2] by simp
          moreover have "\<forall>q. q = NULL \<or> q = p \<or>
              cells ?h2 q = (if q = heap_storage to then None else cells h q)"
            using h1 by (metis (no_types, lifting) fun_upd_other heap.select_convs(1)
                heap.surjective heap.update_convs(1,2))
          moreover have "p = heap_storage to \<or> cells h p = None"
            using h1[of p] ok(2,3) by (cases "p = heap_storage to") auto
          ultimately show ?thesis
            using r new[of ?h2 p] ok(2) \<open>data_pointer from \<noteq> p\<close>
            by (intro exI[of _ STATUS_SUCCESS] exI[of _ ?to] exI[of _ ?h2]) simp
        qed
      qed
    qed
  qed
qed

text \<open>
  Replacing the value of an object that owns the storage \<open>s\<close>: release, then copy.
\<close>

lemma replace_data:
  assumes v: "content_of h data = Some v"
    and s: "s = NULL \<or> cells h s \<noteq> None \<and> s \<noteq> data_pointer data"
  obtains h1 st d h2 where "os_free s h = Some h1"
    and "iot_common_data_copy False True h1 (old\<lparr>heap_storage := NULL\<rparr>) data = Some (st, d, h2)"
    and "st = STATUS_SUCCESS \<and> content_of h2 d = Some v \<and> data_pointer d = heap_storage d
        \<and> (heap_storage d = NULL \<or> heap_storage d = s \<or> cells h (heap_storage d) = None)
      \<or> st = STATUS_NO_MEMORY \<and> heap_storage d = NULL"
    and "\<And>q. q \<noteq> NULL \<Longrightarrow> q \<noteq> heap_storage d \<Longrightarrow> cells h2 q = (if q = s then None else cells h q)"
proof -
  obtain h1 where free: "os_free s h = Some h1"
    and h1: "\<And>q. q \<noteq> NULL \<Longrightarrow> cells h1 q = (if q = s then None else cells h q)"
    using s by (cases "s = NULL") (auto simp: os_free_def)
  have "data_pointer data = NULL \<or> cells h (data_pointer data) = cells h1 (data_pointer data)"
    using s h1[of "data_pointer data"] by (cases "data_pointer data = NULL") auto
  then have "content_of h1 data = Some v" using v content_of_cong by metis
  then obtain st d h2 where
    "iot_common_data_copy False True h1 (old\<lparr>heap_storage := NULL\<rparr>) data = Some (st, d, h2)"
    "st = STATUS_SUCCESS \<and> content_of h2 d = Some v \<and> data_pointer d = heap_storage d
        \<and> (heap_storage d = NULL \<or> cells h1 (heap_storage d) = None)
      \<or> st = STATUS_NO_MEMORY \<and> heap_storage d = NULL"
    "\<forall>q. q = NULL \<or> q = heap_storage d \<or> cells h2 q = (if q = NULL then None else cells h1 q)"
    using data_copy_spec[of h1 data v "old\<lparr>heap_storage := NULL\<rparr>"] by auto
  with free h1 show thesis
    by (intro that[of h1 st d h2]) (auto split: if_splits)
qed

section \<open>Properties\<close>


text \<open>A string of one letter copied over an object that owns storage.\<close>

definition example_heap :: heap where
  "example_heap =
     \<lparr>cells = [8 \<mapsto> Bytes [0x61, 0], 16 \<mapsto> Bytes []], allocator = [Some 24]\<rparr>"

definition example_text :: "ptr \<Rightarrow> iot_data" where
  "example_text p =
     \<lparr>lo = p, hi = 0, has_value = True, heap_storage = NULL, dtype = TYPE_STRING\<rparr>"


text \<open>
  C33: Strings stored with \<open>heap_alloc\<close> are private copies: for a readable source string the
  call always returns; either the object owns a fresh block that holds the string, nothing
  else in memory changed, and reading the object back as a STRING yields a pointer to that
  string; or memory ran out, and the object points nowhere and memory is as before.
\<close>

theorem arg_set_get_string:
  assumes "read_string p h = Some s"
  shows "\<exists>st d h'. iot_common_arg_set True TYPE_STRING (AString p) h = Some (st, d, h')
    \<and> (st = STATUS_SUCCESS \<and> lo d \<noteq> NULL \<and> lo d \<noteq> p \<and> heap_storage d = lo d
          \<and> cells h (lo d) = None \<and> cells h' = (cells h)(lo d \<mapsto> string_block s)
          \<and> iot_common_arg_get f g h' (Some d) convert TYPE_STRING True =
              Some (STATUS_SUCCESS, Some (OutString (lo d)))
          \<and> read_string (lo d) h' = Some s
       \<or> st = STATUS_NO_MEMORY \<and> lo d = NULL \<and> heap_storage d = NULL \<and> cells h' = cells h)"
proof -
  have p: "p \<noteq> NULL" "CHR 0x00 \<notin> set s" and live: "cells h p \<noteq> None"
    using assms read_string_no_nul[OF assms]
    by (auto simp: read_string_def read_bytes_def split: bind_splits if_splits option.splits)
  show ?thesis
  proof (cases rule: os_malloc_cases[of h])
    case (fail r)
    then show ?thesis using assms p
      by (simp add: iot_common_arg_set_def arg_set_string_def Let_def data_zero_def)
  next
    case (ok q r)
    have "q \<noteq> p" using live ok(3) by auto
    with ok assms p show ?thesis
      by (auto simp: iot_common_arg_set_def arg_set_string_def Let_def data_zero_def
          iot_common_arg_get_def iot_perform_conversion_def arg_out_of_def intro!: read_string_block)
  qed
qed

theorem arg_set_get_string_witness:
  "\<exists>st d h'. iot_common_arg_set True TYPE_STRING (AString 8) example_heap = Some (st, d, h')
    \<and> (st = STATUS_SUCCESS \<and> lo d \<noteq> NULL \<and> lo d \<noteq> 8 \<and> heap_storage d = lo d
          \<and> cells example_heap (lo d) = None
          \<and> cells h' = (cells example_heap)(lo d \<mapsto> string_block ''a'')
          \<and> iot_common_arg_get (\<lambda>_. 0) (\<lambda>_. 0) h' (Some d) False TYPE_STRING True =
              Some (STATUS_SUCCESS, Some (OutString (lo d)))
          \<and> read_string (lo d) h' = Some ''a''
       \<or> st = STATUS_NO_MEMORY \<and> lo d = NULL \<and> heap_storage d = NULL
          \<and> cells h' = cells example_heap)"
  by (rule arg_set_get_string)
    (simp add: example_heap_def read_string_def read_bytes_def chars_of_def char_of_def bit_0)

text \<open>
  C13. Integers stored are integers read: for every integer type and every number of its
  range, passed the way C passes it, storing succeeds without touching memory, the object
  then has that number, and reading it back at the same type gives that number whether or
  not conversion is allowed.
\<close>

definition int_arg :: "iot_type \<Rightarrow> int \<Rightarrow> va_arg" where
  "int_arg t i = (if t \<in> {TYPE_INT64, TYPE_UINT64} then AU64 (word_of_int i) else AInt i)"

lemma signed_wrap_64: "signed_take_bit 63 (i mod 18446744073709551616) = signed_take_bit 63 (i :: int)"
  using signed_take_bit_take_bit[of 63 64 i] by (simp add: take_bit_eq_mod)

theorem arg_set_get_int:
  assumes "int_range t = Some (a, b)" and "a \<le> i" and "i \<le> b"
  shows "\<exists>d. iot_common_arg_set heap_alloc t (int_arg t i) h = Some (STATUS_SUCCESS, d, h)
    \<and> int_value d = Some i \<and> has_value d
    \<and> iot_common_arg_get f g h (Some d) convert t True = Some (STATUS_SUCCESS, Some (OutInt i))"
  using assms
  by (cases t)
    (simp_all add: int_range_def int_arg_def iot_common_arg_set_def arg_set_scalar_def Let_def
      data_zero_def int_value_def iot_common_arg_get_def iot_perform_conversion_def arg_out_of_def
      signed_take_bit_int_eq_self take_bit_int_eq_self uint_word_of_int signed_wrap_64)

theorem arg_set_get_int_witness:
  "\<exists>d. iot_common_arg_set True TYPE_INT64 (int_arg TYPE_INT64 (-7)) empty_heap = Some (STATUS_SUCCESS, d, empty_heap)
    \<and> int_value d = Some (-7) \<and> has_value d
    \<and> iot_common_arg_get (\<lambda>_. 0) (\<lambda>_. 0) empty_heap (Some d) False TYPE_INT64 True =
        Some (STATUS_SUCCESS, Some (OutInt (-7)))"
  by (rule arg_set_get_int[where a = LONG_MIN and b = LONG_MAX]) (simp_all add: int_range_def)

text \<open>
  Reading an integer at another integer type, with conversion allowed, always succeeds
  and wraps around: the number read is the one number of the target's range that is congruent
  to the object's modulo 2 to the target's width, so it is the same number exactly when the
  target can hold it; at BOOL it is 1 for a nonzero number and 0 for zero.
\<close>

lemma perform_switch_int:
  assumes "int_value d = Some v" and "int_range t = Some (a, b)" and "t \<noteq> dtype d" and "dtype to = t"
  shows "perform_switch f g h d to = Some (Some (set_member (type_width t) v to))"
  using assms
  by (cases t; cases "dtype d")
    (simp_all add: perform_switch_def int_value_def int_range_def type_width_def perform_int8_def
      perform_int16_def perform_int32_def perform_int64_def perform_uint8_def perform_uint16_def
      perform_uint32_def perform_uint64_def)

lemma arg_out_int: "int_value d = Some v \<Longrightarrow> arg_out_of (dtype d) d = Some (OutInt v)"
  by (cases "dtype d") (simp_all add: int_value_def arg_out_of_def)

lemma int_value_has_value:
  "int_value (d\<lparr>has_value := x\<rparr>) = int_value d"
  "int_value (d\<lparr>heap_storage := p\<rparr>) = int_value d"
  by (cases "dtype d"; simp add: int_value_def)+

lemma int_value_in_range:
  assumes "int_value d = Some v" and "int_range (dtype d) = Some (a, b)"
  shows "a \<le> v \<and> v \<le> b"
  using assms member_ranges[of d]
  by (cases "dtype d") (auto simp: int_value_def int_range_def)

text \<open>The number a truncated value becomes.\<close>

lemma int_value_wraps:
  assumes "int_range t = Some (a, b)" and "dtype d = t"
  obtains i where "int_value (set_member (type_width t) v d) = Some i"
    and "a \<le> i" and "i \<le> b" and "take_bit (type_width t) i = take_bit (type_width t) v"
    and "(i = v) = (a \<le> v \<and> v \<le> b)"
proof -
  let ?w = "type_width t"
  obtain i where i: "int_value (set_member ?w v d) = Some i"
    and c: "i = signed_take_bit (?w - 1) v \<and> a = - (2 ^ (?w - 1)) \<and> b = 2 ^ (?w - 1) - 1
      \<or> i = take_bit ?w v \<and> a = 0 \<and> b = 2 ^ ?w - 1" and w: "0 < ?w"
    using assms by (cases t) (auto simp: int_range_def type_width_def int_value_def)
  have "a \<le> i" "i \<le> b"
    using int_value_in_range[OF i] assms by simp_all
  moreover have "take_bit ?w i = take_bit ?w v"
    using c w by (auto simp: take_bit_signed_take_bit)
  moreover have "(i = v) = (a \<le> v \<and> v \<le> b)"
    using c w by (auto simp: signed_take_bit_int_eq_self_iff take_bit_int_eq_self_iff)
  ultimately show thesis using that i by blast
qed

text \<open>
  Reading an integer at another integer type with conversion always succeeds and never checks
  the range: the result is the number modulo the width of the type, in the range of the type, and
  it is the number itself exactly when that number lies in the range. Read as BOOL it says whether
  the number is not 0.
\<close>

theorem arg_get_int_wraps:
  assumes "has_value d" and "int_value d = Some v" and "int_range t = Some (a, b)"
  shows "\<exists>i. iot_common_arg_get f g h (Some d) True t True = Some (STATUS_SUCCESS, Some (OutInt i))
    \<and> a \<le> i \<and> i \<le> b \<and> take_bit (type_width t) i = take_bit (type_width t) v
    \<and> (i = v) = (a \<le> v \<and> v \<le> b)
    \<and> iot_common_arg_get f g h (Some d) True TYPE_BOOL True =
        Some (STATUS_SUCCESS, Some (OutBool (of_bool (v \<noteq> 0))))"
proof -
  have bool: "iot_common_arg_get f g h (Some d) True TYPE_BOOL True =
      Some (STATUS_SUCCESS, Some (OutBool (of_bool (v \<noteq> 0))))"
    using assms(1,2)
    by (cases "dtype d")
      (simp_all add: iot_common_arg_get_def iot_perform_conversion_def perform_switch_def
        perform_bool_def int_value_def data_zero_def arg_out_of_def)
  show ?thesis
  proof (cases "t = dtype d")
    case True
    have "arg_out_of t (d\<lparr>heap_storage := NULL\<rparr>) = Some (OutInt v)"
      using arg_out_int[of "d\<lparr>heap_storage := NULL\<rparr>" v] assms(2) True
      by (simp add: int_value_has_value)
    then have "iot_common_arg_get f g h (Some d) True t True = Some (STATUS_SUCCESS, Some (OutInt v))"
      using True assms(1) by (simp add: iot_common_arg_get_def iot_perform_conversion_def data_zero_def)
    then show ?thesis
      using bool int_value_in_range[OF assms(2)] assms(3) True by auto
  next
    case False
    let ?z = "data_zero\<lparr>dtype := t, heap_storage := NULL\<rparr>"
    obtain i where i: "int_value (set_member (type_width t) v ?z) = Some i"
      "a \<le> i" "i \<le> b" "take_bit (type_width t) i = take_bit (type_width t) v"
      "(i = v) = (a \<le> v \<and> v \<le> b)"
      using int_value_wraps[OF assms(3), of ?z v] by auto
    have "perform_switch f g h d ?z = Some (Some (set_member (type_width t) v ?z))"
      using perform_switch_int[OF assms(2,3) False] by simp
    moreover have "arg_out_of t ((set_member (type_width t) v ?z)\<lparr>has_value := True\<rparr>) = Some (OutInt i)"
      using arg_out_int[of "(set_member (type_width t) v ?z)\<lparr>has_value := True\<rparr>" i] i(1)
      by (simp add: int_value_has_value)
    ultimately have "iot_common_arg_get f g h (Some d) True t True = Some (STATUS_SUCCESS, Some (OutInt i))"
      using False assms(1) by (simp add: iot_common_arg_get_def iot_perform_conversion_def data_zero_def)
    then show ?thesis using bool i by blast
  qed
qed

theorem arg_get_int_wraps_witness:
  "\<exists>i. iot_common_arg_get (\<lambda>_. 0) (\<lambda>_. 0) empty_heap (Some (example_int64 300)) True TYPE_INT8 True =
      Some (STATUS_SUCCESS, Some (OutInt i))
    \<and> SCHAR_MIN \<le> i \<and> i \<le> SCHAR_MAX
    \<and> take_bit (type_width TYPE_INT8) i = take_bit (type_width TYPE_INT8) 300
    \<and> (i = 300) = (SCHAR_MIN \<le> 300 \<and> 300 \<le> SCHAR_MAX)
    \<and> iot_common_arg_get (\<lambda>_. 0) (\<lambda>_. 0) empty_heap (Some (example_int64 300)) True TYPE_BOOL True =
        Some (STATUS_SUCCESS, Some (OutBool (of_bool (300 \<noteq> (0 :: int)))))"
  by (rule arg_get_int_wraps)
    (simp_all add: example_int64_def data_zero_def int_value_def int_range_def signed_member_def)

text \<open>The tests on reals are the wrong way round: the FLOAT64 3.0 reads as false.\<close>

lemma arg_get_float64_bool:
  "iot_common_arg_get f g h (Some (example_float64 0x4008000000000000)) True TYPE_BOOL True =
     Some (STATUS_SUCCESS, Some (OutBool 0))"
proof -
  have "v_float64 (example_float64 0x4008000000000000) = FFin False (3 * 2 ^ 51) (-51)"
    by (simp add: example_float64_def data_zero_def v_float64_def unsigned_member_def fp_decode_def
        fp_emin_def Let_def)
  moreover have "has_value (example_float64 x)" "dtype (example_float64 x) = TYPE_FLOAT64" for x
    by (simp_all add: example_float64_def data_zero_def)
  ultimately show ?thesis
    by (simp add: iot_common_arg_get_def iot_perform_conversion_def data_zero_def perform_switch_def
        perform_bool_def fp_less_def fp_abs_def signed_mant_def arg_out_of_def)
qed

text \<open>Copying a STRING object that has a value but a NULL string is undefined.\<close>

lemma data_copy_null_string:
  "iot_common_data_copy False True \<lparr>cells = Map.empty, allocator = [Some 8]\<rparr> data_zero (example_text 0) = None"
  by (simp add: iot_common_data_copy_def data_zero_def os_free_def example_text_def copy_size_def
      os_malloc_def copy_content_def read_string_def read_bytes_def)


end
