(* ===== verification/Location.thy ===== *)
theory Location
  imports Common
begin

text \<open>
  Location samples (\<open>src/src/api/iot_location.c\<close>): objects of the heap whose coordinates are
  checked when they are set. A \<open>iot_float64_t\<close> is its 64 bits; a comparison with NaN is false.
\<close>

definition float64_value :: "u64 \<Rightarrow> fp" where
  "float64_value x = fp_decode 52 11 (unat x)"

definition coordinate_in :: "nat \<Rightarrow> u64 \<Rightarrow> bool" where
  "coordinate_in m x \<longleftrightarrow>
     fp_le (FFin True m 0) (float64_value x) \<and> fp_le (float64_value x) (FFin False m 0)"

definition heading_in :: "u64 \<Rightarrow> bool" where
  "heading_in x \<longleftrightarrow> fp_le (FFin False 0 0) (float64_value x) \<and>
     fp_less (float64_value x) (FFin False 360 0)"

abbreviation LOCATION_TAG_MAX :: nat where "LOCATION_TAG_MAX \<equiv> 128"

abbreviation FLAG_ACCURACY :: u32 where "FLAG_ACCURACY \<equiv> 0x01"
abbreviation FLAG_ALTITUDE :: u32 where "FLAG_ALTITUDE \<equiv> 0x02"
abbreviation FLAG_ALTITUDE_ACCURACY :: u32 where "FLAG_ALTITUDE_ACCURACY \<equiv> 0x04"
abbreviation FLAG_HEADING :: u32 where "FLAG_HEADING \<equiv> 0x08"
abbreviation FLAG_SOURCE :: u32 where "FLAG_SOURCE \<equiv> 0x10"
abbreviation FLAG_SPEED :: u32 where "FLAG_SPEED \<equiv> 0x20"
abbreviation FLAG_TAG :: u32 where "FLAG_TAG \<equiv> 0x40"

section \<open>The operations\<close>

definition location_zero :: iot_location where
  "location_zero = \<lparr>accuracy = 0, altitude = 0, altitude_accuracy = 0, heading = 0, flags = 0,
     latitude = 0, longitude = 0, source = 0, speed = 0, tag = NULL\<rparr>"

definition write_location :: "ptr \<Rightarrow> iot_location \<Rightarrow> heap \<Rightarrow> heap" where
  "write_location p l h = h\<lparr>cells := (cells h)(p \<mapsto> Loc l)\<rparr>"

text \<open>An update of a sample: a NULL sample is refused, and reading another object is undefined.\<close>

definition on_sample ::
    "ptr \<Rightarrow> heap \<Rightarrow> (iot_location \<Rightarrow> iot_status \<times> iot_location) \<Rightarrow> (iot_status \<times> heap) option" where
  "on_sample sample h f =
     (if sample = NULL then Some (STATUS_BAD_PARAMETER, h)
      else do {
        l \<leftarrow> read_location sample h;
        let (result, l) = f l;
        Some (result, write_location sample l h)
      })"

definition iot_location_accuracy_set :: "ptr \<Rightarrow> u64 \<Rightarrow> heap \<Rightarrow> (iot_status \<times> heap) option" where
  "iot_location_accuracy_set sample x h = on_sample sample h (\<lambda>l.
     (STATUS_SUCCESS, l\<lparr>accuracy := x, flags := or (flags l) FLAG_ACCURACY\<rparr>))"

definition iot_location_allocate :: "u64 \<Rightarrow> u64 \<Rightarrow> heap \<Rightarrow> ptr \<times> heap" where
  "iot_location_allocate lat lon h =
     (if coordinate_in 90 lat \<and> coordinate_in 180 lon
      then os_malloc (Loc (location_zero\<lparr>latitude := lat, longitude := lon\<rparr>)) h
      else (NULL, h))"

definition iot_location_altitude_accuracy_set :: "ptr \<Rightarrow> u64 \<Rightarrow> heap \<Rightarrow> (iot_status \<times> heap) option" where
  "iot_location_altitude_accuracy_set sample x h = on_sample sample h (\<lambda>l.
     (STATUS_SUCCESS, l\<lparr>altitude_accuracy := x, flags := or (flags l) FLAG_ALTITUDE_ACCURACY\<rparr>))"

definition iot_location_altitude_set :: "ptr \<Rightarrow> u64 \<Rightarrow> heap \<Rightarrow> (iot_status \<times> heap) option" where
  "iot_location_altitude_set sample x h = on_sample sample h (\<lambda>l.
     (STATUS_SUCCESS, l\<lparr>altitude := x, flags := or (flags l) FLAG_ALTITUDE\<rparr>))"

definition iot_location_free :: "ptr \<Rightarrow> heap \<Rightarrow> (iot_status \<times> heap) option" where
  "iot_location_free sample h =
     (if sample = NULL then Some (STATUS_BAD_PARAMETER, h)
      else do {
        l \<leftarrow> read_location sample h;
        h \<leftarrow> os_free (tag l) h;
        h \<leftarrow> os_free sample h;
        Some (STATUS_SUCCESS, h)
      })"

definition iot_location_heading_set :: "ptr \<Rightarrow> u64 \<Rightarrow> heap \<Rightarrow> (iot_status \<times> heap) option" where
  "iot_location_heading_set sample x h = on_sample sample h (\<lambda>l.
     if heading_in x
     then (STATUS_SUCCESS, l\<lparr>heading := x, flags := or (flags l) FLAG_HEADING\<rparr>)
     else (STATUS_OUT_OF_RANGE, l))"

definition iot_location_set :: "ptr \<Rightarrow> u64 \<Rightarrow> u64 \<Rightarrow> heap \<Rightarrow> (iot_status \<times> heap) option" where
  "iot_location_set sample lat lon h = on_sample sample h (\<lambda>l.
     if coordinate_in 90 lat \<and> coordinate_in 180 lon
     then (STATUS_SUCCESS, l\<lparr>latitude := lat, longitude := lon\<rparr>)
     else (STATUS_OUT_OF_RANGE, l))"

text \<open>The sources are the enumerators 0 (unknown) to 3 (wireless).\<close>

definition iot_location_source_set :: "ptr \<Rightarrow> u32 \<Rightarrow> heap \<Rightarrow> (iot_status \<times> heap) option" where
  "iot_location_source_set sample src h = on_sample sample h (\<lambda>l.
     if src \<le> 3
     then (STATUS_SUCCESS, l\<lparr>source := src, flags := or (flags l) FLAG_SOURCE\<rparr>)
     else (STATUS_BAD_PARAMETER, l))"

definition iot_location_speed_set :: "ptr \<Rightarrow> u64 \<Rightarrow> heap \<Rightarrow> (iot_status \<times> heap) option" where
  "iot_location_speed_set sample x h = on_sample sample h (\<lambda>l.
     (STATUS_SUCCESS, l\<lparr>speed := x, flags := or (flags l) FLAG_SPEED\<rparr>))"

text \<open>
  \<open>realloc\<close> of a block that is then filled with \<open>b\<close>: the block may stay where it is or move,
  and is unchanged when there is no memory.
\<close>

definition os_realloc :: "ptr \<Rightarrow> block \<Rightarrow> heap \<Rightarrow> (ptr \<times> heap) option" where
  "os_realloc p b h =
     (if p \<noteq> NULL \<and> cells h p = None then None
      else case allocator h of
        [] \<Rightarrow> Some (NULL, h)
      | a # r \<Rightarrow>
          (case a of
             Some q \<Rightarrow>
               Some (if q = NULL \<or> (cells h q \<noteq> None \<and> q \<noteq> p) then (NULL, h\<lparr>allocator := r\<rparr>)
                     else (q, h\<lparr>allocator := r, cells := (cells h)(p := None, q \<mapsto> b)\<rparr>))
           | None \<Rightarrow> Some (NULL, h\<lparr>allocator := r\<rparr>)))"

text \<open>Copying a tag from the very block that was reallocated is undefined.\<close>

definition iot_location_tag_set :: "ptr \<Rightarrow> ptr \<Rightarrow> heap \<Rightarrow> (iot_status \<times> heap) option" where
  "iot_location_tag_set sample t h =
     (if sample = NULL then Some (STATUS_BAD_PARAMETER, h)
      else do {
        l \<leftarrow> read_location sample h;
        (if t \<noteq> NULL
         then do {
           s \<leftarrow> read_string t h;
           (q, h) \<leftarrow> os_realloc (tag l) (string_block (take LOCATION_TAG_MAX s)) h;
           (if q = NULL then Some (STATUS_NO_MEMORY, h)
            else if t = tag l then None
            else Some (STATUS_SUCCESS,
              write_location sample (l\<lparr>tag := q, flags := or (flags l) FLAG_TAG\<rparr>) h))
         }
         else do {
           h \<leftarrow> os_free (tag l) h;
           Some (STATUS_SUCCESS,
             write_location sample (l\<lparr>tag := NULL, flags := and (flags l) (not FLAG_TAG)\<rparr>) h)
         })
      })"

section \<open>Samples stay valid\<close>

text \<open>
  What holds of every sample: coordinates on the globe, a heading in range once one is set, a
  known source, and a tag exactly when its flag says so, in a block of its own.
\<close>

definition tag_ok :: "heap \<Rightarrow> ptr \<Rightarrow> iot_location \<Rightarrow> bool" where
  "tag_ok h p l \<longleftrightarrow>
     (if tag l = NULL then \<not> bit (flags l) 6
      else tag l \<noteq> p \<and> bit (flags l) 6 \<and>
        (\<exists>s. read_string (tag l) h = Some s \<and> length s \<le> LOCATION_TAG_MAX))"

definition values_ok :: "iot_location \<Rightarrow> bool" where
  "values_ok l \<longleftrightarrow> coordinate_in 90 (latitude l) \<and> coordinate_in 180 (longitude l) \<and>
     (bit (flags l) 3 \<longrightarrow> heading_in (heading l)) \<and> source l \<le> 3"

definition location_ok :: "heap \<Rightarrow> ptr \<Rightarrow> bool" where
  "location_ok h p \<longleftrightarrow> (\<exists>l. read_location p h = Some l \<and> values_ok l \<and> tag_ok h p l)"

text \<open>Anything else the program does leaves the sample and its tag alone.\<close>

inductive location_step :: "ptr \<Rightarrow> heap \<Rightarrow> heap \<Rightarrow> bool" for p where
  accuracy: "iot_location_accuracy_set p x h = Some (r, h') \<Longrightarrow> location_step p h h'"
| altitude_accuracy: "iot_location_altitude_accuracy_set p x h = Some (r, h') \<Longrightarrow> location_step p h h'"
| altitude: "iot_location_altitude_set p x h = Some (r, h') \<Longrightarrow> location_step p h h'"
| heading: "iot_location_heading_set p x h = Some (r, h') \<Longrightarrow> location_step p h h'"
| position: "iot_location_set p x y h = Some (r, h') \<Longrightarrow> location_step p h h'"
| source: "iot_location_source_set p src h = Some (r, h') \<Longrightarrow> location_step p h h'"
| speed: "iot_location_speed_set p x h = Some (r, h') \<Longrightarrow> location_step p h h'"
| tag: "iot_location_tag_set p t h = Some (r, h') \<Longrightarrow> location_step p h h'"
| other: "(\<And>l q. read_location p h = Some l \<Longrightarrow> q = p \<or> q = tag l \<Longrightarrow> cells h' q = cells h q) \<Longrightarrow>
    location_step p h h'"

lemma read_written: "p \<noteq> NULL \<Longrightarrow> read_location p (write_location p l h) = Some l"
  by (simp add: read_location_def write_location_def)

lemma read_string_cells: "cells h' q = cells h q \<Longrightarrow> read_string q h' = read_string q h"
  by (simp add: read_string_def read_bytes_def)

lemma read_location_pointer: "read_location p h = Some l \<Longrightarrow> p \<noteq> NULL \<and> cells h p = Some (Loc l)"
  by (auto simp: read_location_def split: if_splits option.splits block.splits)

lemma on_sample_ok:
  assumes run: "on_sample p h f = Some (r, h')" and ok: "location_ok h p"
    and f: "\<And>l. values_ok l \<Longrightarrow> values_ok (snd (f l)) \<and> tag (snd (f l)) = tag l \<and>
      (bit (flags (snd (f l))) 6 \<longleftrightarrow> bit (flags l) 6)"
  shows "location_ok h' p"
proof -
  obtain l where l: "read_location p h = Some l" "values_ok l" "tag_ok h p l"
    using ok by (auto simp: location_ok_def)
  have pz: "p \<noteq> NULL" using read_location_pointer[OF l(1)] by blast
  have h': "h' = write_location p (snd (f l)) h"
    using run l pz by (simp add: on_sample_def split_beta)
  have "tag_ok h' p (snd (f l))"
    using l(3) f[OF l(2)] read_string_cells[of h' "tag l" h]
    by (auto simp: tag_ok_def h' write_location_def split: if_splits)
  then show ?thesis
    using read_written[OF pz, of "snd (f l)" h] f[OF l(2)] by (auto simp: location_ok_def h')
qed

lemma flag_bits:
  "bit (or x FLAG_ACCURACY) 3 = bit x 3" "bit (or x FLAG_ACCURACY) 6 = bit x 6"
  "bit (or x FLAG_ALTITUDE) 3 = bit x 3" "bit (or x FLAG_ALTITUDE) 6 = bit x 6"
  "bit (or x FLAG_ALTITUDE_ACCURACY) 3 = bit x 3" "bit (or x FLAG_ALTITUDE_ACCURACY) 6 = bit x 6"
  "bit (or x FLAG_HEADING) 6 = bit x 6" "bit (or x FLAG_SOURCE) 3 = bit x 3"
  "bit (or x FLAG_SOURCE) 6 = bit x 6" "bit (or x FLAG_SPEED) 3 = bit x 3"
  "bit (or x FLAG_SPEED) 6 = bit x 6" "bit (or x FLAG_TAG) 3 = bit x 3" "bit (or x FLAG_TAG) 6"
  "bit (and x (- 65)) 3 = bit x 3" "\<not> bit (and x (- 65)) 6"
  for x :: u32
  by (simp_all add: bit_simps bit_numeral_word_iff)

lemma os_realloc_spec:
  assumes "os_realloc p b h = Some (q, h')"
  shows "(q = NULL \<and> cells h' = cells h) \<or>
    (q \<noteq> NULL \<and> (q = p \<or> cells h q = None) \<and> cells h' = (cells h)(p := None, q \<mapsto> b))"
  using assms by (auto simp: os_realloc_def split: if_splits list.splits option.splits)

lemma string_block_reads: "CHR 0x00 \<notin> set s \<Longrightarrow> q \<noteq> NULL \<Longrightarrow> cells h q = Some (string_block s) \<Longrightarrow>
   read_string q h = Some s"
  by (rule read_string_block)

lemma tag_set_ok:
  assumes ok: "location_ok h p" and run: "iot_location_tag_set p t h = Some (r, h')"
  shows "location_ok h' p"
proof -
  obtain l where l: "read_location p h = Some l" "values_ok l" "tag_ok h p l"
    using ok by (auto simp: location_ok_def)
  note pl = read_location_pointer[OF l(1)]
  have tp: "tag l \<noteq> p" using l(3) pl by (auto simp: tag_ok_def split: if_splits)
  show ?thesis
  proof (cases "t = NULL")
    case True
    let ?l = "l\<lparr>tag := NULL, flags := and (flags l) (not FLAG_TAG)\<rparr>"
    obtain h1 where h': "h' = write_location p ?l h1"
      using run True l(1) pl by (auto simp: iot_location_tag_set_def split: bind_splits)
    have "values_ok ?l" "tag_ok h' p ?l" using l(2) by (simp_all add: values_ok_def tag_ok_def flag_bits)
    then show ?thesis using read_written pl by (auto simp: location_ok_def h')
  next
    case False
    obtain s q h1 where s: "read_string t h = Some s"
      and re: "os_realloc (tag l) (string_block (take LOCATION_TAG_MAX s)) h = Some (q, h1)"
      and out: "if q = NULL then h' = h1
        else h' = write_location p (l\<lparr>tag := q, flags := or (flags l) FLAG_TAG\<rparr>) h1"
      using run False l(1) pl
      by (auto simp: iot_location_tag_set_def split: bind_splits if_splits)
    show ?thesis
    proof (cases "q = NULL")
      case True
      then have "cells h' = cells h" using os_realloc_spec[OF re] out by auto
      then show ?thesis
        using ok by (auto simp: location_ok_def tag_ok_def read_location_def read_string_def read_bytes_def)
    next
      case q: False
      let ?l = "l\<lparr>tag := q, flags := or (flags l) FLAG_TAG\<rparr>"
      have h1: "q = tag l \<or> cells h q = None"
        "cells h1 = (cells h)(tag l := None, q \<mapsto> string_block (take LOCATION_TAG_MAX s))"
        using os_realloc_spec[OF re] q by auto
      have qp: "q \<noteq> p" using h1(1) tp pl by auto
      have "CHR 0x00 \<notin> set (take LOCATION_TAG_MAX s)"
        using read_string_no_nul[OF s] by (auto dest: in_set_takeD)
      then have "read_string q h' = Some (take LOCATION_TAG_MAX s)"
        using q qp h1(2) out by (intro string_block_reads) (simp_all add: write_location_def)
      then have "tag_ok h' p ?l" using q qp by (simp add: tag_ok_def flag_bits)
      moreover have "values_ok ?l" using l(2) by (simp add: values_ok_def flag_bits)
      ultimately show ?thesis using read_written pl out q by (auto simp: location_ok_def)
    qed
  qed
qed

lemma other_ok:
  assumes "location_ok h p"
    and "\<And>l q. read_location p h = Some l \<Longrightarrow> q = p \<or> q = tag l \<Longrightarrow> cells h' q = cells h q"
  shows "location_ok h' p"
proof -
  obtain l where l: "read_location p h = Some l" "values_ok l" "tag_ok h p l"
    using assms(1) by (auto simp: location_ok_def)
  have same: "cells h' p = cells h p" "cells h' (tag l) = cells h (tag l)"
    by (rule assms(2)[OF l(1)], simp)+
  have "read_location p h' = Some l" using l(1) unfolding read_location_def same(1) .
  moreover have "tag_ok h' p l"
    using l(3) read_string_cells[OF same(2)] by (simp add: tag_ok_def)
  ultimately show ?thesis using l(2) unfolding location_ok_def by blast
qed

lemma location_step_ok:
  assumes "location_step p h h'" and "location_ok h p"
  shows "location_ok h' p"
  using assms
proof cases
  case (tag t r)
  then show ?thesis using tag_set_ok assms(2) by blast
next
  case other
  then show ?thesis using other_ok assms(2) by blast
qed (use assms(2) in \<open>auto simp: iot_location_accuracy_set_def iot_location_altitude_accuracy_set_def
  iot_location_altitude_set_def iot_location_heading_set_def iot_location_set_def
  iot_location_source_set_def iot_location_speed_set_def values_ok_def flag_bits
  elim!: on_sample_ok split: if_splits\<close>)

section \<open>Properties\<close>

text \<open>
  C37: A location sample made by \<open>iot_location_allocate\<close> is valid, and stays so through every
  sequence of setters and of anything else that leaves its memory alone: its coordinates are
  numbers in range (never NaN), its heading is in range if it was ever set, its source is one
  of the four known, and its tag is a string of at most \<open>LOCATION_TAG_MAX\<close> characters in a
  block of its own, present exactly when its flag is set. Coordinates out of range give NULL.
\<close>

theorem location_valid:
  assumes "iot_location_allocate lat lon h = (p, h1)" and "(location_step p)\<^sup>*\<^sup>* h1 h2"
  shows "(p \<noteq> NULL \<longrightarrow> location_ok h2 p) \<and>
    (\<not> (coordinate_in 90 lat \<and> coordinate_in 180 lon) \<longrightarrow> p = NULL \<and> h1 = h)"
proof (intro conjI impI)
  assume p: "p \<noteq> NULL"
  let ?l = "location_zero\<lparr>latitude := lat, longitude := lon\<rparr>"
  have range: "coordinate_in 90 lat \<and> coordinate_in 180 lon"
    using assms(1) p by (auto simp: iot_location_allocate_def split: if_splits)
  then have m: "os_malloc (Loc ?l) h = (p, h1)" using assms(1) by (simp add: iot_location_allocate_def)
  have "read_location p h1 = Some ?l"
    by (rule os_malloc_cases[of h]) (use m p in \<open>auto simp: read_location_def\<close>)
  then have start: "location_ok h1 p"
    using range by (auto simp: location_ok_def values_ok_def tag_ok_def location_zero_def)
  show "location_ok h2 p"
    using assms(2) by (induction rule: rtranclp_induct) (use start location_step_ok in blast)+
qed (use assms(1) in \<open>auto simp: iot_location_allocate_def split: if_splits\<close>)

text \<open>A sample at 45 degrees north, 90 degrees west.\<close>

theorem location_valid_witness:
  "\<exists>h1. iot_location_allocate 0x4046800000000000 0xC056800000000000 (empty_heap\<lparr>allocator := [Some 8]\<rparr>) = (8, h1) \<and>
     location_ok h1 8"
proof -
  have "float64_value 0x4046800000000000 = FFin False (45 * 2 ^ 47) (-47)"
    "float64_value 0xC056800000000000 = FFin True (45 * 2 ^ 47) (-46)"
    by (simp_all add: float64_value_def fp_decode_def fp_emin_def Let_def)
  then have "coordinate_in 90 0x4046800000000000" "coordinate_in 180 0xC056800000000000"
    by (simp_all add: coordinate_in_def signed_mant_def)
  then have "\<exists>h1. iot_location_allocate 0x4046800000000000 0xC056800000000000 (empty_heap\<lparr>allocator := [Some 8]\<rparr>) = (8, h1)"
    by (simp add: iot_location_allocate_def os_malloc_def empty_heap_def)
  then obtain h1 where "iot_location_allocate 0x4046800000000000 0xC056800000000000
      (empty_heap\<lparr>allocator := [Some 8]\<rparr>) = (8, h1)" by blast
  with location_valid[OF this rtranclp.rtrancl_refl] show ?thesis by auto
qed

end
