(* ===== verification/Options.thy ===== *)
theory Options
  imports Common "HOL-Library.Multiset"
begin

text \<open>
  The option maps of \<open>src/src/api/iot_option.c\<close>: a table of at most \<open>IOT_OPTION_MAX\<close> named
  values, kept ordered by name so that \<open>iot_options_find\<close> can search it by halving.

  \<open>option_array\<close> is the allocated array, of which the first \<open>option_count\<close> elements are in use.
  An entry's name is kept by value (\<open>None\<close> is a NULL name pointer); its allocation is a request
  to the allocator like any other. The properties relate the table to a finite map from
  case-folded names to contents.
\<close>

abbreviation IOT_OPTION_MAX :: nat where "IOT_OPTION_MAX \<equiv> 20"

record iot_option =
  opt_name :: "string option"
  opt_data :: iot_data

record iot_options =
  option_array :: "iot_option list"
  option_count :: nat

definition option_zero :: iot_option where
  "option_zero = \<lparr>opt_name = None, opt_data = data_zero\<rparr>"

section \<open>Searching\<close>

text \<open>The loop returns whether the name was found, and the last index.\<close>

function options_find_loop ::
    "iot_option list \<Rightarrow> string \<Rightarrow> nat \<Rightarrow> nat \<Rightarrow> nat \<Rightarrow> (bool \<times> nat) option" where
  "options_find_loop arr name cur_idx min_idx max_idx =
     (if 0 < max_idx - min_idx
      then do {
        let cur_idx = (max_idx - min_idx) div 2 + min_idx;
        opt \<leftarrow> load arr cur_idx;
        nm \<leftarrow> opt_name opt;
        let cmp_result = strncasecmp name nm IOT_NAME_MAX_LEN;
        (if 0 < cmp_result then options_find_loop arr name (cur_idx + 1) (cur_idx + 1) max_idx
         else if cmp_result < 0 then options_find_loop arr name cur_idx min_idx cur_idx
         else Some (True, cur_idx))
      }
      else Some (False, cur_idx))"
  by pat_completeness auto
termination
  by (relation "measure (\<lambda>(arr, name, cur, lo, hi). hi - lo)") auto

declare options_find_loop.simps [simp del]

definition iot_options_find :: "iot_options \<Rightarrow> string \<Rightarrow> (bool \<times> nat) option" where
  "iot_options_find options name = do {
     (opt, cur_idx) \<leftarrow> options_find_loop (option_array options) name 0 0 (option_count options);
     (if \<not> opt \<and> 0 < option_count options \<and> cur_idx < option_count options - 1
      then do {
        next \<leftarrow> load (option_array options) (cur_idx + 1);
        nm \<leftarrow> opt_name next;
        Some (if strncasecmp name nm IOT_NAME_MAX_LEN \<noteq> 0 then (False, cur_idx)
              else (True, cur_idx + 1))
      }
      else Some (opt, cur_idx))
   }"

section \<open>Storing\<close>

text \<open>
  Removing the entry at \<open>cur_idx\<close>: the code moves \<open>option_count - cur_idx\<close> elements down,
  one more than there are behind it.
\<close>

definition options_remove :: "heap \<Rightarrow> iot_options \<Rightarrow> nat \<Rightarrow> (iot_options \<times> heap) option" where
  "options_remove h options cur_idx = do {
     opt \<leftarrow> load (option_array options) cur_idx;
     h \<leftarrow> os_free (heap_storage (opt_data opt)) h;
     arr \<leftarrow> memmove cur_idx (cur_idx + 1) (option_count options - cur_idx) (option_array options);
     Some (options\<lparr>option_array := arr, option_count := option_count options - 1\<rparr>, h)
   }"

text \<open>
  Growing the array by one and opening a zeroed entry at \<open>cur_idx\<close>. The new last element is
  indeterminate until the move or the store below writes it.
\<close>

definition options_open ::
    "heap \<Rightarrow> iot_options \<Rightarrow> nat \<Rightarrow> (bool \<times> iot_options \<times> heap) option" where
  "options_open h options cur_idx =
     (let n = option_count options; (ok, h) = os_grab h in
      if ok
      then do {
        let arr = take (n + 1) (option_array options @ [option_zero]);
        arr \<leftarrow> memmove (cur_idx + 1) cur_idx (n - cur_idx) arr;
        arr \<leftarrow> store cur_idx option_zero arr;
        Some (True, options\<lparr>option_array := arr, option_count := n + 1\<rparr>, h)
      }
      else Some (False, options, h))"

text \<open>
  Copying a value into the entry \<open>opt\<close> at \<open>cur_idx\<close>; a failed copy drops the entry.
\<close>

definition options_put ::
    "heap \<Rightarrow> iot_options \<Rightarrow> nat \<Rightarrow> iot_option \<Rightarrow> iot_data \<Rightarrow> (iot_status \<times> iot_options \<times> heap) option" where
  "options_put h options cur_idx opt data = do {
     h \<leftarrow> os_free (heap_storage (opt_data opt)) h;
     (result, d, h) \<leftarrow>
       iot_common_data_copy False True h ((opt_data opt)\<lparr>heap_storage := NULL\<rparr>) data;
     arr \<leftarrow> store cur_idx (opt\<lparr>opt_data := d\<rparr>) (option_array options);
     (if result \<noteq> STATUS_SUCCESS
      then do {
        let n = option_count options - 1;
        arr \<leftarrow> memmove cur_idx (cur_idx + 1) (n - cur_idx) arr;
        Some (result, options\<lparr>option_array := arr, option_count := n\<rparr>, h)
      }
      else Some (result, options\<lparr>option_array := arr\<rparr>, h))
   }"

text \<open>
  Naming the entry at \<open>cur_idx\<close> if it has no name, then storing the value. When the name cannot
  be allocated, the entry stays in the table without one.
\<close>

definition options_update ::
    "heap \<Rightarrow> iot_options \<Rightarrow> nat \<Rightarrow> string \<Rightarrow> iot_data \<Rightarrow> (iot_status \<times> iot_options \<times> heap) option" where
  "options_update h options cur_idx name data = do {
     opt \<leftarrow> load (option_array options) cur_idx;
     (if opt_name opt \<in> {None, Some []}
      then (let (ok, h) = os_grab h in
            if ok
            then options_put h options cur_idx
                   (opt\<lparr>opt_name := Some (take IOT_NAME_MAX_LEN name)\<rparr>) data
            else do {
              arr \<leftarrow> store cur_idx (opt\<lparr>opt_name := None\<rparr>) (option_array options);
              Some (STATUS_NO_MEMORY, options\<lparr>option_array := arr\<rparr>, h)
            })
      else options_put h options cur_idx opt data)
   }"

text \<open>
  The status a deletion sets is overwritten by \<open>FULL\<close>; an insertion that is not followed by an
  update (the type is NULL) ends with \<open>NO_MEMORY\<close>.
\<close>

definition iot_options_set_data ::
    "heap \<Rightarrow> iot_options \<Rightarrow> string option \<Rightarrow> iot_data \<Rightarrow> (iot_status \<times> iot_options \<times> heap) option" where
  "iot_options_set_data h options name data =
     (case name of
        Some name \<Rightarrow>
          if name = '''' then Some (STATUS_BAD_PARAMETER, options, h)
          else do {
            (opt, cur_idx) \<leftarrow> iot_options_find options name;
            (options, h) \<leftarrow>
              (if opt \<and> dtype data = TYPE_NULL then options_remove h options cur_idx
               else Some (options, h));
            (opt, result, options, h) \<leftarrow>
              (if \<not> opt \<and> option_count options < IOT_OPTION_MAX
               then do {
                 (opt, options, h) \<leftarrow> options_open h options cur_idx;
                 Some (opt, STATUS_NO_MEMORY, options, h)
               }
               else Some (opt, STATUS_FULL, options, h));
            (if opt \<and> dtype data \<noteq> TYPE_NULL
             then options_update h options cur_idx name data
             else Some (result, options, h))
          }
      | None \<Rightarrow> Some (STATUS_BAD_PARAMETER, options, h))"

text \<open>The temporary value owns heap storage that is not released afterwards.\<close>

definition iot_options_set_args ::
    "heap \<Rightarrow> iot_options \<Rightarrow> string option \<Rightarrow> iot_type \<Rightarrow> va_arg \<Rightarrow>
     (iot_status \<times> iot_options \<times> heap) option" where
  "iot_options_set_args h options name type args = do {
     (result, data, h) \<leftarrow> iot_common_arg_set True type args h;
     (if result = STATUS_SUCCESS then iot_options_set_data h options name data
      else Some (result, options, h))
   }"

definition iot_options_clear ::
    "heap \<Rightarrow> iot_options \<Rightarrow> string option \<Rightarrow> (iot_status \<times> iot_options \<times> heap) option" where
  "iot_options_clear h options name = iot_options_set_args h options name TYPE_NULL ANone"

definition iot_options_get_args ::
    "(string \<Rightarrow> int) \<Rightarrow> (string \<Rightarrow> int) \<Rightarrow> heap \<Rightarrow> iot_options \<Rightarrow> string option \<Rightarrow> bool \<Rightarrow> iot_type \<Rightarrow>
     bool \<Rightarrow> (iot_status \<times> arg_out option) option" where
  "iot_options_get_args f g h options name convert type dest =
     (case name of
        Some name \<Rightarrow> do {
          (opt, cur_idx) \<leftarrow> iot_options_find options name;
          (if opt
           then do {
             e \<leftarrow> load (option_array options) cur_idx;
             iot_common_arg_get f g h (Some (opt_data e)) convert type dest
           }
           else Some (STATUS_NOT_FOUND, None))
        }
      | None \<Rightarrow> Some (STATUS_BAD_PARAMETER, None))"

section \<open>The table as an ordered list\<close>

definition entries :: "iot_options \<Rightarrow> iot_option list" where
  "entries t = take (option_count t) (option_array t)"

definition entry_key :: "iot_option \<Rightarrow> string" where
  "entry_key e = casekey IOT_NAME_MAX_LEN (the (opt_name e))"

definition option_keys :: "iot_options \<Rightarrow> string list" where
  "option_keys t = map entry_key (entries t)"

definition named :: "iot_option \<Rightarrow> bool" where
  "named e \<longleftrightarrow> opt_name e \<noteq> None \<and> opt_name e \<noteq> Some ''''"

text \<open>The shape of a table: capacity, names and strict order of the keys.\<close>

definition options_shape :: "iot_options \<Rightarrow> bool" where
  "options_shape t \<longleftrightarrow> option_count t \<le> length (option_array t) \<and> option_count t \<le> IOT_OPTION_MAX
     \<and> list_all named (entries t) \<and> sorted_wrt (<) (option_keys t)"

lemma length_entries [simp]:
  "option_count t \<le> length (option_array t) \<Longrightarrow> length (entries t) = option_count t"
  by (simp add: entries_def)

text \<open>Index \<open>c\<close> holds the key \<open>k\<close>, or it is where \<open>k\<close> belongs among the first \<open>n\<close> entries.\<close>

definition located :: "iot_option list \<Rightarrow> nat \<Rightarrow> string \<Rightarrow> (bool \<times> nat) option \<Rightarrow> bool" where
  "located arr n k r \<longleftrightarrow> (\<exists>found c. r = Some (found, c)
    \<and> (if found then c < n \<and> entry_key (arr ! c) = k
       else c \<le> n \<and> (\<forall>i < c. entry_key (arr ! i) < k)
         \<and> (\<forall>i. c \<le> i \<and> i < n \<longrightarrow> k < entry_key (arr ! i))))"

lemma find_loop_spec:
  assumes "sorted_wrt (<) (map entry_key (take n arr))" and "list_all named (take n arr)"
    and "n \<le> length arr" and "mn \<le> mx" and "mx \<le> n" and "mn < mx \<or> cur = mn"
    and "\<forall>i < mn. entry_key (arr ! i) < casekey IOT_NAME_MAX_LEN name"
    and "\<forall>i. mx \<le> i \<and> i < n \<longrightarrow> casekey IOT_NAME_MAX_LEN name < entry_key (arr ! i)"
  shows "located arr n (casekey IOT_NAME_MAX_LEN name) (options_find_loop arr name cur mn mx)"
  using assms
proof (induction arr name cur mn mx rule: options_find_loop.induct)
  case (1 arr name cur mn mx)
  note prems = "1.prems"
  show ?case
  proof (cases "0 < mx - mn")
    case False
    with prems have "mx = mn" "cur = mn" by auto
    with prems show ?thesis by (subst options_find_loop.simps) (auto simp: located_def)
  next
    case True
    define c where "c = (mx - mn) div 2 + mn"
    have c: "mn \<le> c" "c < mx" "c < n" using True prems(5) by (auto simp: c_def)
    then have ld: "load arr c = Some (arr ! c)" using prems(3) by (simp add: load_def)
    have "arr ! c \<in> set (take n arr)"
      using c prems(3) by (metis in_set_conv_nth length_take min.absorb2 nth_take)
    then obtain nm where nm: "opt_name (arr ! c) = Some nm"
      using prems(2) by (auto simp: list_all_iff named_def)
    then have key: "casekey IOT_NAME_MAX_LEN nm = entry_key (arr ! c)" by (simp add: entry_key_def)
    have ord: "entry_key (arr ! i) < entry_key (arr ! j)" if "i < j" "j < n" for i j
      using sorted_wrt_nth_less[OF prems(1), of i j] that prems(3) by simp
    let ?k = "casekey IOT_NAME_MAX_LEN name"
    have step: "options_find_loop arr name cur mn mx =
        (if entry_key (arr ! c) < ?k then options_find_loop arr name (c + 1) (c + 1) mx
         else if ?k < entry_key (arr ! c) then options_find_loop arr name c mn c
         else Some (True, c))"
      using True ld nm by (subst options_find_loop.simps) (simp add: Let_def c_def[symmetric] key)
    consider "entry_key (arr ! c) < ?k" | "?k < entry_key (arr ! c)" | "entry_key (arr ! c) = ?k"
      by fastforce
    then show ?thesis
    proof cases
      case 1
      have "\<forall>i < c + 1. entry_key (arr ! i) < ?k"
        using 1 ord[of _ c] c(3) by (metis Suc_eq_plus1 less_Suc_eq less_trans)
      moreover have "c + 1 \<le> mx" using c by simp
      ultimately show ?thesis
        using "1.IH"(1)[OF True c_def ld nm refl _ prems(1-3)] step 1 key prems(5,8)
        by simp
    next
      case 2
      have "\<forall>i. c \<le> i \<and> i < n \<longrightarrow> ?k < entry_key (arr ! i)"
        using 2 ord[of c] by (metis le_neq_implies_less less_trans)
      moreover have "mn < c \<or> c = mn" using c by auto
      moreover have "options_find_loop arr name cur mn mx = options_find_loop arr name c mn c"
        using step 2 by auto
      ultimately show ?thesis
        using "1.IH"(2)[OF True c_def ld nm refl _ _ prems(1-3)] 2 key prems(7) c
        by (simp add: less_not_sym)
    next
      case 3
      then show ?thesis using step c(3) by (auto simp: located_def)
    qed
  qed
qed

lemma entries_nth: "i < option_count t \<Longrightarrow> entries t ! i = option_array t ! i"
  by (simp add: entries_def)

text \<open>The search finds the entry with the name's key, or the place where it belongs.\<close>

lemma options_find_spec:
  assumes "options_shape t"
  shows "\<exists>found c. iot_options_find t name = Some (found, c)
    \<and> (if found then c < option_count t \<and> option_keys t ! c = casekey IOT_NAME_MAX_LEN name
       else c \<le> option_count t \<and> (\<forall>i < c. option_keys t ! i < casekey IOT_NAME_MAX_LEN name)
         \<and> (\<forall>i. c \<le> i \<and> i < option_count t \<longrightarrow> casekey IOT_NAME_MAX_LEN name < option_keys t ! i))"
proof -
  let ?n = "option_count t" and ?arr = "option_array t" and ?k = "casekey IOT_NAME_MAX_LEN name"
  have n: "?n \<le> length ?arr" and srt: "sorted_wrt (<) (map entry_key (take ?n ?arr))"
    and nmd: "list_all named (take ?n ?arr)"
    using assms by (auto simp: options_shape_def option_keys_def entries_def)
  have key: "option_keys t ! i = entry_key (?arr ! i)" if "i < ?n" for i
    using that n by (simp add: option_keys_def entries_nth)
  have "located ?arr ?n ?k (options_find_loop ?arr name 0 0 ?n)"
    by (rule find_loop_spec[OF srt nmd n]) auto
  then obtain found c where
    loop: "options_find_loop ?arr name 0 0 ?n = Some (found, c)" and
    spec: "if found then c < ?n \<and> entry_key (?arr ! c) = ?k
      else c \<le> ?n \<and> (\<forall>i < c. entry_key (?arr ! i) < ?k) \<and> (\<forall>i. c \<le> i \<and> i < ?n \<longrightarrow> ?k < entry_key (?arr ! i))"
    unfolding located_def by blast
  show ?thesis
  proof (cases "\<not> found \<and> 0 < ?n \<and> c < ?n - 1")
    case True
    then have "c + 1 < ?n" by linarith
    then have ld: "load ?arr (c + 1) = Some (?arr ! (c + 1))" using n by (simp add: load_def)
    have "?arr ! (c + 1) \<in> set (take ?n ?arr)"
      using \<open>c + 1 < ?n\<close> n by (metis in_set_conv_nth length_take min.absorb2 nth_take)
    then obtain nm where nm: "opt_name (?arr ! (c + 1)) = Some nm"
      using nmd by (auto simp: list_all_iff named_def)
    have "?k < entry_key (?arr ! (c + 1))" using spec True \<open>c + 1 < ?n\<close> by auto
    then have "strncasecmp name nm IOT_NAME_MAX_LEN \<noteq> 0" using nm by (auto simp: entry_key_def)
    then have "iot_options_find t name = Some (False, c)"
      using loop True ld nm by (simp add: iot_options_find_def)
    moreover have "\<forall>i < c. option_keys t ! i < ?k" using spec True key by (auto split: if_splits)
    moreover have "\<forall>i. c \<le> i \<and> i < ?n \<longrightarrow> ?k < option_keys t ! i" using spec True key by auto
    ultimately show ?thesis
      using True \<open>c + 1 < ?n\<close> by (intro exI[of _ False] exI[of _ c]) simp
  next
    case False
    then have "iot_options_find t name = Some (found, c)"
      using loop by (auto simp: iot_options_find_def)
    then show ?thesis using spec key by (cases found) auto
  qed
qed
section \<open>Ownership and the abstract map\<close>

definition owns :: "heap \<Rightarrow> iot_option \<Rightarrow> bool" where
  "owns h e \<longleftrightarrow> data_pointer (opt_data e) = heap_storage (opt_data e)
     \<and> content_of h (opt_data e) \<noteq> None"

definition storage :: "iot_option list \<Rightarrow> ptr list" where
  "storage es = filter (\<lambda>p. p \<noteq> NULL) (map (\<lambda>e. heap_storage (opt_data e)) es)"

text \<open>
  A well-formed table: every entry points only into storage of its own, and no two entries
  share storage.
\<close>

definition options_ok :: "heap \<Rightarrow> iot_options \<Rightarrow> bool" where
  "options_ok h t \<longleftrightarrow> options_shape t \<and> list_all (owns h) (entries t) \<and> distinct (storage (entries t))"

definition entry_pair :: "heap \<Rightarrow> iot_option \<Rightarrow> string \<times> content" where
  "entry_pair h e = (entry_key e, the (content_of h (opt_data e)))"

definition options_map :: "heap \<Rightarrow> iot_options \<Rightarrow> string \<Rightarrow> content option" where
  "options_map h t = map_of (map (entry_pair h) (entries t))"

lemma storage_insert: "mset (storage (insert_at i e es)) = mset (storage [e]) + mset (storage es)"
proof -
  have "mset (insert_at i e es) = add_mset e (mset es)"
    by (simp add: insert_at_def) (metis append_take_drop_id mset_append)
  then have "image_mset (\<lambda>e. heap_storage (opt_data e)) (mset (insert_at i e es)) =
      add_mset (heap_storage (opt_data e)) (image_mset (\<lambda>e. heap_storage (opt_data e)) (mset es))"
    by simp
  then have "mset (map (\<lambda>e. heap_storage (opt_data e)) (insert_at i e es)) =
      add_mset (heap_storage (opt_data e)) (mset (map (\<lambda>e. heap_storage (opt_data e)) es))"
    by (simp only: mset_map)
  then show ?thesis by (simp add: storage_def)
qed

lemma insert_delete_update:
  assumes "i < length es"
  shows "insert_at i e (delete_at i es) = es[i := e]" and "insert_at i (es ! i) (delete_at i es) = es"
  using assms
  by (simp_all add: insert_at_def delete_at_def upd_conv_take_nth_drop id_take_nth_drop[symmetric]
      min_def)

lemma delete_insert: "i \<le> length es \<Longrightarrow> delete_at i (insert_at i e es) = es"
  by (simp add: insert_at_def delete_at_def min_def)

text \<open>
  A table is determined by the entries around index \<open>c\<close> and the entry there; strict order of
  the keys around \<open>c\<close> is what the search establishes.
\<close>

definition fits :: "string \<Rightarrow> nat \<Rightarrow> iot_option list \<Rightarrow> bool" where
  "fits k c es \<longleftrightarrow> c \<le> length es \<and> (\<forall>i < c. entry_key (es ! i) < k)
     \<and> (\<forall>i. c \<le> i \<and> i < length es \<longrightarrow> k < entry_key (es ! i))"

lemma fits_sets:
  assumes "fits k c es"
  shows "\<forall>e \<in> set (take c es). entry_key e < k" and "\<forall>e \<in> set (drop c es). k < entry_key e"
proof -
  show "\<forall>e \<in> set (take c es). entry_key e < k"
    using assms by (auto simp: fits_def in_set_conv_nth)
  show "\<forall>e \<in> set (drop c es). k < entry_key e"
  proof
    fix e assume "e \<in> set (drop c es)"
    then obtain j where "j < length es - c" "e = es ! (c + j)"
      by (metis in_set_conv_nth length_drop nth_drop fits_def assms)
    then show "k < entry_key e" using assms by (simp add: fits_def)
  qed
qed

lemma sorted_insert_fits:
  assumes "fits (entry_key e) c es" and "sorted_wrt (<) (map entry_key es)"
  shows "sorted_wrt (<) (map entry_key (insert_at c e es))"
proof -
  have "sorted_wrt (<) (map entry_key (take c es @ drop c es))" using assms(2) by simp
  then have "sorted_wrt (<) (map entry_key (take c es))" "sorted_wrt (<) (map entry_key (drop c es))"
    unfolding map_append sorted_wrt_append by blast+
  then show ?thesis
    using fits_sets[OF assms(1)]
    by (auto simp: insert_at_def sorted_wrt_append) (meson less_trans)
qed

lemma sorted_delete:
  assumes "sorted_wrt (<) (map entry_key es)" and "c < length es"
  shows "sorted_wrt (<) (map entry_key (delete_at c es))" and "fits (entry_key (es ! c)) c (delete_at c es)"
proof -
  have split: "es = take c es @ es ! c # drop (Suc c) es"
    using assms(2) by (rule id_take_nth_drop)
  then have "sorted_wrt (<) (map entry_key (take c es @ es ! c # drop (Suc c) es))"
    using assms(1) by simp
  then have s: "sorted_wrt (<) (map entry_key (take c es))"
      "sorted_wrt (<) (map entry_key (drop (Suc c) es))"
      "\<forall>x \<in> set (take c es). \<forall>y \<in> set (es ! c # drop (Suc c) es). entry_key x < entry_key y"
      "\<forall>y \<in> set (drop (Suc c) es). entry_key (es ! c) < entry_key y"
    unfolding map_append sorted_wrt_append list.map sorted_wrt.simps by auto
  then show "sorted_wrt (<) (map entry_key (delete_at c es))"
    by (auto simp: delete_at_def sorted_wrt_append)
  have "entry_key (es ! i) < entry_key (es ! c)" if "i < c" for i
    using s(3) that assms(2) by (metis in_set_conv_nth length_take list.set_intros(1) min.absorb2
        nth_take order_less_imp_le)
  moreover have "entry_key (es ! c) < entry_key (es ! Suc i)" if "c \<le> i" "Suc i < length es" for i
    using sorted_wrt_nth_less[OF assms(1), of c "Suc i"] that by simp
  ultimately show "fits (entry_key (es ! c)) c (delete_at c es)"
    using assms(2) by (auto simp: fits_def delete_at_def nth_append)
qed

lemma map_of_insert:
  assumes "fits (entry_key e) c es" and "sorted_wrt (<) (map entry_key es)"
  shows "map_of (map (entry_pair h) (insert_at c e es)) =
    (map_of (map (entry_pair h) es))(entry_key e \<mapsto> the (content_of h (opt_data e)))"
proof -
  have "map_of (map (entry_pair h) (take c es)) (entry_key e) = None"
    using fits_sets(1)[OF assms(1)] by (auto simp: map_of_eq_None_iff entry_pair_def)
  moreover have "map_of (map (entry_pair h) es) =
      map_of (map (entry_pair h) (take c es @ drop c es))" by simp
  ultimately show ?thesis
    unfolding insert_at_def map_append map_of_append
    by (auto simp: entry_pair_def map_add_def split: option.splits)
qed
lemma distinct_storage_insert:
  "distinct (storage (insert_at i e es)) \<longleftrightarrow> distinct (storage es)
     \<and> (heap_storage (opt_data e) = NULL \<or> heap_storage (opt_data e) \<notin> set (storage es))"
proof -
  have "mset (storage (insert_at i e es)) =
      mset (if heap_storage (opt_data e) = NULL then storage es
            else heap_storage (opt_data e) # storage es)"
    by (simp add: storage_insert) (simp add: storage_def)
  then have "distinct (storage (insert_at i e es)) =
      distinct (if heap_storage (opt_data e) = NULL then storage es
            else heap_storage (opt_data e) # storage es)"
    by (rule mset_eq_imp_distinct_iff)
  then show ?thesis by auto
qed

lemma list_all_insert_at: "list_all P (insert_at i e es) \<longleftrightarrow> P e \<and> list_all P es"
  by (simp add: list_all_iff)

lemma nth_insert_at: "i \<le> length xs \<Longrightarrow> insert_at i x xs ! i = x"
  by (simp add: insert_at_def nth_append)

lemma entries_store:
  assumes "store c e (option_array t) = Some arr" and "c < option_count t"
    and "option_count t \<le> length (option_array t)"
  shows "entries (t\<lparr>option_array := arr\<rparr>) = (entries t)[c := e]"
  using assms by (auto simp: store_def entries_def take_update_swap split: if_splits)

lemma entries_close:
  assumes "c < option_count t" and "option_count t \<le> length (option_array t)"
  shows "\<exists>arr. memmove c (c + 1) (option_count t - 1 - c) (option_array t) = Some arr
    \<and> length arr = length (option_array t)
    \<and> entries (t\<lparr>option_array := arr, option_count := option_count t - 1\<rparr>) = delete_at c (entries t)"
  using memmove_close_gap[OF assms] by (auto simp: entries_def diff_commute)

text \<open>Entries whose storage is not the one being replaced keep their content.\<close>

lemma owns_frame:
  assumes "owns h e" and "heap_storage (opt_data e) = NULL \<or> heap_storage (opt_data e) \<noteq> s"
    and "p = NULL \<or> p = s \<or> cells h p = None"
    and "\<And>q. q \<noteq> NULL \<Longrightarrow> q \<noteq> p \<Longrightarrow> cells h2 q = (if q = s then None else cells h q)"
  shows "owns h2 e" and "entry_pair h2 e = entry_pair h e"
    and "heap_storage (opt_data e) = NULL \<or> heap_storage (opt_data e) \<noteq> p"
proof -
  let ?q = "heap_storage (opt_data e)"
  have q: "data_pointer (opt_data e) = ?q" and c: "content_of h (opt_data e) \<noteq> None"
    using assms(1) by (auto simp: owns_def)
  have live: "?q \<noteq> NULL \<Longrightarrow> cells h ?q \<noteq> None" using content_live q c by fastforce
  then show fresh: "?q = NULL \<or> ?q \<noteq> p" using assms(2,3) by auto
  have "?q = NULL \<or> cells h ?q = cells h2 ?q"
    using assms(2,4) fresh by (cases "?q = NULL") auto
  then have "content_of h (opt_data e) = content_of h2 (opt_data e)"
    using content_of_cong[of "opt_data e" h h2] q by simp
  then show "owns h2 e" and "entry_pair h2 e = entry_pair h e"
    using q c by (simp_all add: owns_def entry_pair_def)
qed

lemma storage_mem: "e \<in> set es \<Longrightarrow> heap_storage (opt_data e) = NULL \<or> heap_storage (opt_data e) \<in> set (storage es)"
  by (auto simp: storage_def)

text \<open>Putting a value into a named entry, over the list of the other entries.\<close>

lemma options_put_spec:
  assumes shape: "option_count t \<le> length (option_array t)" "option_count t \<le> IOT_OPTION_MAX"
    and c: "c < option_count t" and rest: "delete_at c (entries t) = rest"
    and key: "fits (entry_key e) c rest" "sorted_wrt (<) (map entry_key rest)"
    and nmd: "named e" "list_all named rest"
    and own: "list_all (owns h) rest" "distinct (storage rest)"
    and s: "heap_storage (opt_data e) = NULL \<or> heap_storage (opt_data e) \<notin> set (storage rest)
        \<and> cells h (heap_storage (opt_data e)) \<noteq> None \<and> heap_storage (opt_data e) \<noteq> data_pointer data"
    and v: "content_of h data = Some v"
  obtains st t' h' where "options_put h t c e data = Some (st, t', h')"
    and "options_ok h' t'"
    and "st = STATUS_SUCCESS \<and> option_count t' = option_count t
        \<and> options_map h' t' = (map_of (map (entry_pair h) rest))(entry_key e \<mapsto> v)
      \<or> st = STATUS_NO_MEMORY \<and> option_count t' = option_count t - 1
        \<and> options_map h' t' = map_of (map (entry_pair h) rest)"
proof -
  let ?s = "heap_storage (opt_data e)"
  from replace_data[OF v, of ?s "opt_data e"] s obtain h1 st d h2 where
    free: "os_free ?s h = Some h1" and
    cp: "iot_common_data_copy False True h1 ((opt_data e)\<lparr>heap_storage := NULL\<rparr>) data = Some (st, d, h2)" and
    res: "st = STATUS_SUCCESS \<and> content_of h2 d = Some v \<and> data_pointer d = heap_storage d
        \<and> (heap_storage d = NULL \<or> heap_storage d = ?s \<or> cells h (heap_storage d) = None)
      \<or> st = STATUS_NO_MEMORY \<and> heap_storage d = NULL" and
    fr: "\<And>q. q \<noteq> NULL \<Longrightarrow> q \<noteq> heap_storage d \<Longrightarrow> cells h2 q = (if q = ?s then None else cells h q)"
    by blast
  let ?e = "e\<lparr>opt_data := d\<rparr>"
  obtain arr where st: "store c ?e (option_array t) = Some arr" and len: "length arr = length (option_array t)"
    using c shape by (auto simp: store_def)
  let ?t1 = "t\<lparr>option_array := arr\<rparr>"
  have e1: "entries ?t1 = (entries t)[c := ?e]" using entries_store[OF st c shape(1)] .
  have len_es: "length (entries t) = option_count t" using shape(1) by simp
  have p: "heap_storage d = NULL \<or> heap_storage d = ?s \<or> cells h (heap_storage d) = None"
    using res by auto
  have keep: "owns h2 x" "entry_pair h2 x = entry_pair h x"
      "heap_storage (opt_data x) = NULL \<or> heap_storage (opt_data x) \<noteq> heap_storage d" if "x \<in> set rest" for x
  proof -
    have o: "owns h x" using own(1) that by (simp add: list_all_iff)
    have n: "heap_storage (opt_data x) = NULL \<or> heap_storage (opt_data x) \<noteq> ?s"
      using s storage_mem[OF that] by auto
    show "owns h2 x" "entry_pair h2 x = entry_pair h x"
      "heap_storage (opt_data x) = NULL \<or> heap_storage (opt_data x) \<noteq> heap_storage d"
      using owns_frame[OF o n p fr] by simp_all
  qed
  have own2: "list_all (owns h2) rest" using keep(1) by (simp add: list_all_iff)
  have map2: "map (entry_pair h2) rest = map (entry_pair h) rest" using keep(2) by simp
  have key_e: "entry_key ?e = entry_key e" by (simp add: entry_key_def)
  show thesis
  proof (cases "st = STATUS_SUCCESS")
    case True
    have es: "entries ?t1 = insert_at c ?e rest"
      using e1 insert_delete_update(1)[of c "entries t" ?e] c len_es rest by simp
    have "heap_storage d = NULL \<or> heap_storage d \<notin> set (storage rest)"
      by (auto simp: storage_def) (metis keep(3))
    then have "distinct (storage (entries ?t1))"
      using own(2) by (simp add: es distinct_storage_insert)
    moreover have "owns h2 ?e" using res True by (simp add: owns_def)
    then have "list_all (owns h2) (entries ?t1)" using own2 by (simp add: es list_all_insert_at)
    moreover have "named ?e" using nmd(1) by (simp add: named_def)
    then have "options_shape ?t1"
      using nmd(2) shape len sorted_insert_fits[of ?e c rest] key key_e
      by (simp add: options_shape_def option_keys_def es list_all_insert_at)
    ultimately have "options_ok h2 ?t1" by (simp add: options_ok_def)
    moreover have "options_map h2 ?t1 = (map_of (map (entry_pair h) rest))(entry_key e \<mapsto> v)"
      using map_of_insert[of ?e c rest h2] key key_e res True
      by (simp add: options_map_def es map2)
    moreover have "options_put h t c e data = Some (st, ?t1, h2)"
      using free cp st True by (simp add: options_put_def)
    ultimately show ?thesis using True by (intro that[of st ?t1 h2]) auto
  next
    case False
    then have nm: "st = STATUS_NO_MEMORY" using res by simp
    from entries_close[of c ?t1] c shape len obtain arr2 where
      mv: "memmove c (c + 1) (option_count t - 1 - c) arr = Some arr2" "length arr2 = length arr" and
      es: "entries (t\<lparr>option_array := arr2, option_count := option_count t - 1\<rparr>) = delete_at c (entries ?t1)"
      by auto
    let ?t2 = "t\<lparr>option_array := arr2, option_count := option_count t - 1\<rparr>"
    have es2: "entries ?t2 = rest"
      unfolding es e1 using rest c len_es by (simp add: delete_at_def)
    have "options_map h2 ?t2 = map_of (map (entry_pair h) rest)"
      by (simp only: options_map_def es2 map2)
    moreover have "option_count t - 1 \<le> length arr2" "option_count t - 1 \<le> IOT_OPTION_MAX"
      using shape len mv(2) by linarith+
    then have "options_ok h2 ?t2"
      using es2 own2 own(2) key(2) nmd(2) by (simp add: options_ok_def options_shape_def option_keys_def)
    moreover have "options_put h t c e data = Some (st, ?t2, h2)"
      using free cp st nm mv(1) by (simp add: options_put_def Let_def)
    ultimately show ?thesis using nm by (intro that[of st ?t2 h2]) auto
  qed
qed

text \<open>Opening an entry shifts the others up.\<close>

lemma options_open_spec:
  assumes "c \<le> option_count t" and "option_count t \<le> length (option_array t)"
    and "os_grab h = (ok, h')"
  shows "if ok then \<exists>arr. options_open h t c =
            Some (True, t\<lparr>option_array := arr, option_count := option_count t + 1\<rparr>, h')
          \<and> length arr = option_count t + 1 \<and> arr ! c = option_zero
          \<and> entries (t\<lparr>option_array := arr, option_count := option_count t + 1\<rparr>) =
              insert_at c option_zero (entries t)
         else options_open h t c = Some (False, t, h')"
proof (cases ok)
  case True
  let ?n = "option_count t"
  let ?arr = "take (?n + 1) (option_array t @ [option_zero])"
  have "?n < length ?arr" using assms(2) by simp
  from memmove_open_gap[OF assms(1) this, of option_zero] obtain ys where
    ys: "memmove (Suc c) c (?n - c) ?arr = Some ys" "length ys = length ?arr"
      "take (Suc ?n) (ys[c := option_zero]) = insert_at c option_zero (take ?n ?arr)" by blast
  have "take ?n ?arr = entries t" using assms(2) by (simp add: entries_def)
  moreover have "length ys = ?n + 1" using ys(2) assms(2) by simp
  ultimately show ?thesis
    using True ys assms(1,3)
    by (intro if_P[THEN iffD2] exI[of _ "ys[c := option_zero]"])
      (auto simp: options_open_def Let_def store_def entries_def nth_insert_at)
next
  case False
  then show ?thesis using assms(3) by (simp add: options_open_def Let_def)
qed
lemma same_cells:
  assumes "cells h' = cells h"
  shows "content_of h' d = content_of h d" and "owns h' = owns h" and "entry_pair h' = entry_pair h"
proof -
  have "content_of h' d = content_of h d" for d
    by (rule content_of_cong) (simp add: assms)
  then show "content_of h' d = content_of h d" and "owns h' = owns h"
    and "entry_pair h' = entry_pair h"
    by (simp_all add: owns_def entry_pair_def fun_eq_iff)
qed

text \<open>Setting a value: the three cases of the search and of the allocations.\<close>

lemma options_set_data_spec:
  assumes ok: "options_ok h t" and name: "name \<noteq> []" and v: "content_of h data = Some v"
    and ty: "dtype data \<noteq> TYPE_NULL" and sep: "data_pointer data \<notin> set (storage (entries t))"
    and g1: "os_grab h = (array_ok, h1)" and g2: "os_grab h1 = (name_ok, h2)"
  shows "\<exists>st t' h'. iot_options_set_data h t (Some name) data = Some (st, t', h') \<and>
    (let k = casekey IOT_NAME_MAX_LEN name; m = options_map h t in
      if k \<in> dom m
      then options_ok h' t' \<and> (st = STATUS_SUCCESS \<and> options_map h' t' = m(k \<mapsto> v) \<and> option_count t' = option_count t
        \<or> st = STATUS_NO_MEMORY \<and> options_map h' t' = m(k := None) \<and> option_count t' = option_count t - 1)
      else if option_count t = IOT_OPTION_MAX then st = STATUS_FULL \<and> t' = t \<and> h' = h
      else if \<not> array_ok then st = STATUS_NO_MEMORY \<and> t' = t \<and> h' = h1
      else if \<not> name_ok then st = STATUS_NO_MEMORY \<and> h' = h2 \<and> option_count t' = option_count t + 1
        \<and> (\<exists>c \<le> option_count t. entries t' = insert_at c option_zero (entries t))
      else options_ok h' t' \<and> (st = STATUS_SUCCESS \<and> options_map h' t' = m(k \<mapsto> v) \<and> option_count t' = option_count t + 1
        \<or> st = STATUS_NO_MEMORY \<and> options_map h' t' = m \<and> option_count t' = option_count t))"
proof -
  let ?k = "casekey IOT_NAME_MAX_LEN name" and ?n = "option_count t" and ?es = "entries t"
  have shape: "options_shape t" and own: "list_all (owns h) ?es" and dist: "distinct (storage ?es)"
    using ok by (auto simp: options_ok_def)
  have cap: "?n \<le> length (option_array t)" "?n \<le> IOT_OPTION_MAX"
    and srt: "sorted_wrt (<) (map entry_key ?es)" and nmd: "list_all named ?es"
    using shape by (auto simp: options_shape_def option_keys_def)
  have len: "length ?es = ?n" using cap by simp
  from options_find_spec[OF shape, of name] obtain found c where
    find: "iot_options_find t name = Some (found, c)" and
    fnd: "if found then c < ?n \<and> option_keys t ! c = ?k
      else c \<le> ?n \<and> (\<forall>i < c. option_keys t ! i < ?k) \<and> (\<forall>i. c \<le> i \<and> i < ?n \<longrightarrow> ?k < option_keys t ! i)"
    by blast
  show ?thesis
  proof (cases found)
    case True
    then have cn: "c < ?n" using fnd by simp
    then have "option_keys t ! c = entry_key (?es ! c)" using len by (simp add: option_keys_def)
    then have c: "c < ?n" "entry_key (?es ! c) = ?k" using cn fnd True by simp_all
    let ?e = "?es ! c" and ?rest = "delete_at c ?es"
    have ins: "insert_at c ?e ?rest = ?es" using insert_delete_update(2) c len by metis
    have mem: "?e \<in> set ?es" using c len by simp
    have rest: "list_all (owns h) ?rest" "list_all named ?rest" "distinct (storage ?rest)"
        "heap_storage (opt_data ?e) = NULL \<or> heap_storage (opt_data ?e) \<notin> set (storage ?rest)"
      using own nmd dist ins list_all_insert_at[of _ c ?e ?rest] distinct_storage_insert[of c ?e ?rest]
      by metis+
    have e: "named ?e" "owns h ?e" using mem nmd own by (auto simp: list_all_iff)
    have srt2: "sorted_wrt (<) (map entry_key ?rest)" "fits (entry_key ?e) c ?rest"
      using sorted_delete[OF srt, of c] c len by auto
    have live: "heap_storage (opt_data ?e) = NULL \<or> cells h (heap_storage (opt_data ?e)) \<noteq> None"
      using e(2) content_live by (fastforce simp: owns_def)
    have ne: "heap_storage (opt_data ?e) = NULL \<or> heap_storage (opt_data ?e) \<noteq> data_pointer data"
      using storage_mem[OF mem] sep by auto
    have m: "options_map h t = (map_of (map (entry_pair h) ?rest))(?k \<mapsto> the (content_of h (opt_data ?e)))"
      using map_of_insert[OF srt2(2,1), of h] c(2) by (simp add: options_map_def ins)
    have kr: "map_of (map (entry_pair h) ?rest) ?k = None"
      using fits_sets[OF srt2(2)] c(2)
      by (auto simp: map_of_eq_None_iff entry_pair_def)
        (metis (no_types, lifting) Un_iff append_take_drop_id less_irrefl set_append)
    from options_put_spec[OF cap c(1) refl srt2(2,1) e(1) rest(2,1,3) _ v] rest(4) live ne obtain st t' h' where
      put: "options_put h t c ?e data = Some (st, t', h')" "options_ok h' t'" and
      res: "st = STATUS_SUCCESS \<and> option_count t' = ?n
          \<and> options_map h' t' = (map_of (map (entry_pair h) ?rest))(entry_key ?e \<mapsto> v)
        \<or> st = STATUS_NO_MEMORY \<and> option_count t' = ?n - 1
          \<and> options_map h' t' = map_of (map (entry_pair h) ?rest)"
      by blast
    have "iot_options_set_data h t (Some name) data = Some (st, t', h')"
      using find True name ty put(1) c cap e(1)
      by (auto simp: iot_options_set_data_def options_update_def load_def entries_nth named_def)
    moreover have "(map_of (map (entry_pair h) ?rest))(?k := None) = map_of (map (entry_pair h) ?rest)"
      using kr by auto
    moreover have "?k \<in> dom (options_map h t)" using m by simp
    ultimately show ?thesis
      using put(2) res m kr c(2) by (auto simp: Let_def)
  next
    case False
    then have fit: "fits ?k c ?es" using fnd len by (auto simp: fits_def option_keys_def)
    have c: "c \<le> ?n" using False fnd by simp
    have kd: "?k \<notin> dom (options_map h t)"
      using fits_sets[OF fit]
      by (auto simp: options_map_def dom_map_of_conv_image_fst entry_pair_def)
        (metis (no_types, lifting) Un_iff append_take_drop_id less_irrefl set_append)
    show ?thesis
    proof (cases "?n < IOT_OPTION_MAX")
      case full: False
      then have "iot_options_set_data h t (Some name) data = Some (STATUS_FULL, t, h)"
        using find False name by (simp add: iot_options_set_data_def)
      then show ?thesis using kd full cap by auto
    next
      case room: True
      have cells: "cells h1 = cells h" "cells h2 = cells h" using g1 g2 by simp_all
      note same = same_cells[OF cells(1)] same_cells[OF cells(2)]
      note opn = options_open_spec[OF c cap(1) g1]
      show ?thesis
      proof (cases array_ok)
        case no: False
        then have "iot_options_set_data h t (Some name) data = Some (STATUS_NO_MEMORY, t, h1)"
          using find False name room opn by (simp add: iot_options_set_data_def)
        then show ?thesis using kd room no by (simp add: Let_def)
      next
        case yes: True
        with opn obtain arr where
          o: "options_open h t c = Some (True, t\<lparr>option_array := arr, option_count := ?n + 1\<rparr>, h1)" and
          arr: "length arr = ?n + 1" "arr ! c = option_zero" and
          es1: "entries (t\<lparr>option_array := arr, option_count := ?n + 1\<rparr>) = insert_at c option_zero ?es"
          by auto
        let ?t1 = "t\<lparr>option_array := arr, option_count := ?n + 1\<rparr>"
        have step: "iot_options_set_data h t (Some name) data = options_update h1 ?t1 c name data"
          using find False name room o ty by (simp add: iot_options_set_data_def)
        have ld: "load arr c = Some option_zero" using arr c by (simp add: load_def)
        show ?thesis
        proof (cases name_ok)
          case no2: False
          let ?t2 = "?t1\<lparr>option_array := arr[c := option_zero]\<rparr>"
          have "options_update h1 ?t1 c name data = Some (STATUS_NO_MEMORY, ?t2, h2)"
            using no2 g2 ld arr c by (simp add: options_update_def option_zero_def store_def)
          moreover have "arr[c := option_zero] = arr" using arr c by (metis list_update_id)
          ultimately have "iot_options_set_data h t (Some name) data = Some (STATUS_NO_MEMORY, ?t1, h2)"
            using step by simp
          then show ?thesis using kd room yes no2 es1 c by (simp add: Let_def) blast
        next
          case yes2: True
          let ?e = "option_zero\<lparr>opt_name := Some (take IOT_NAME_MAX_LEN name)\<rparr>"
          have upd: "options_update h1 ?t1 c name data = options_put h2 ?t1 c ?e data"
            using yes2 g2 ld by (simp add: options_update_def option_zero_def)
          have e: "named ?e" "entry_key ?e = ?k" "heap_storage (opt_data ?e) = NULL"
            using name by (simp_all add: named_def entry_key_def option_zero_def data_zero_def)
          have "delete_at c (entries ?t1) = ?es" using es1 c len delete_insert by metis
          from options_put_spec[of ?t1 c ?es ?e h2 data v] this arr c room fit srt nmd e own dist v
          obtain st t' h' where put: "options_put h2 ?t1 c ?e data = Some (st, t', h')" "options_ok h' t'" and
            res: "st = STATUS_SUCCESS \<and> option_count t' = option_count ?t1
                \<and> options_map h' t' = (map_of (map (entry_pair h2) ?es))(?k \<mapsto> v)
              \<or> st = STATUS_NO_MEMORY \<and> option_count t' = option_count ?t1 - 1
                \<and> options_map h' t' = map_of (map (entry_pair h2) ?es)"
            by (auto simp: same)
          have "map_of (map (entry_pair h2) ?es) = options_map h t"
            by (simp add: options_map_def same)
          then show ?thesis using step upd put res kd room yes yes2 by (auto simp: Let_def)
        qed
      qed
    qed
  qed
qed

text \<open>In short, for a caller who does not look at the memory.\<close>

lemma options_set_data_cases:
  assumes "options_ok h t" "name \<noteq> []" "content_of h data = Some v"
    and "dtype data \<noteq> TYPE_NULL" "data_pointer data \<notin> set (storage (entries t))"
  shows "\<exists>st t' h'. iot_options_set_data h t (Some name) data = Some (st, t', h') \<and>
    (let k = casekey IOT_NAME_MAX_LEN name; m = options_map h t in
      st = STATUS_SUCCESS \<and> options_ok h' t' \<and> options_map h' t' = m(k \<mapsto> v)
        \<and> option_count t' = option_count t + (if k \<in> dom m then 0 else 1)
    \<or> st = STATUS_NO_MEMORY
    \<or> st = STATUS_FULL \<and> t' = t \<and> h' = h \<and> k \<notin> dom m \<and> option_count t = IOT_OPTION_MAX)"
proof -
  obtain array_ok h1 where g1: "os_grab h = (array_ok, h1)" by fastforce
  obtain name_ok h2 where g2: "os_grab h1 = (name_ok, h2)" by fastforce
  show ?thesis
    using options_set_data_spec[OF assms g1 g2] by (auto simp: Let_def split: if_splits)
qed

text \<open>Removing an entry needs one element more than the table uses.\<close>

lemma options_remove_spec:
  assumes ok: "options_ok h t" and c: "c < option_count t"
  shows "if option_count t < length (option_array t)
    then \<exists>t' h'. options_remove h t c = Some (t', h') \<and> options_ok h' t'
      \<and> option_count t' = option_count t - 1
      \<and> options_map h' t' = (options_map h t)(option_keys t ! c := None)
    else options_remove h t c = None"
proof -
  let ?n = "option_count t" and ?arr = "option_array t" and ?es = "entries t"
  let ?e = "?es ! c" and ?rest = "delete_at c ?es"
  let ?s = "heap_storage (opt_data ?e)"
  have shape: "options_shape t" and own: "list_all (owns h) ?es" and dist: "distinct (storage ?es)"
    using ok by (auto simp: options_ok_def)
  have cap: "?n \<le> length ?arr" "?n \<le> IOT_OPTION_MAX"
    and srt: "sorted_wrt (<) (map entry_key ?es)" and nmd: "list_all named ?es"
    using shape by (auto simp: options_shape_def option_keys_def)
  have len: "length ?es = ?n" using cap by simp
  have mem: "?e \<in> set ?es" using c len by simp
  have ins: "insert_at c ?e ?rest = ?es" using insert_delete_update(2) c len by metis
  have rest: "list_all (owns h) ?rest" "list_all named ?rest" "distinct (storage ?rest)"
      "?s = NULL \<or> ?s \<notin> set (storage ?rest)"
    using own nmd dist ins list_all_insert_at[of _ c ?e ?rest] distinct_storage_insert[of c ?e ?rest]
    by metis+
  have srt2: "sorted_wrt (<) (map entry_key ?rest)" "fits (entry_key ?e) c ?rest"
    using sorted_delete[OF srt, of c] c len by auto
  have "owns h ?e" using mem own by (auto simp: list_all_iff)
  then have "?s = NULL \<or> cells h ?s \<noteq> None" using content_live by (fastforce simp: owns_def)
  then obtain h' where free: "os_free ?s h = Some h'"
    and h': "\<And>q. q \<noteq> NULL \<Longrightarrow> q \<noteq> NULL \<Longrightarrow> cells h' q = (if q = ?s then None else cells h q)"
    by (cases "?s = NULL") (auto simp: os_free_def)
  have ld: "load ?arr c = Some ?e" using c cap by (simp add: load_def entries_nth)
  show ?thesis
  proof (cases "?n < length ?arr")
    case False
    then have "memmove c (c + 1) (?n - c) ?arr = None" using c by (simp add: memmove_def)
    then show ?thesis using False ld free by (simp add: options_remove_def)
  next
    case True
    then have "Suc ?n \<le> length ?arr" "c < Suc ?n" using c by simp_all
    from memmove_close_gap[OF this(2,1)] obtain ys where
      ys: "memmove c (Suc c) (?n - c) ?arr = Some ys" "length ys = length ?arr"
        "take ?n ys = delete_at c (take (Suc ?n) ?arr)" by auto
    let ?t = "t\<lparr>option_array := ys, option_count := ?n - 1\<rparr>"
    have "entries ?t = take (?n - 1) (take ?n ys)" by (simp add: entries_def)
    also have "\<dots> = ?rest"
    proof -
      consider "c = ?n - 1" | "c < ?n - 1" using c by linarith
      then show ?thesis
        by cases (use c True in \<open>simp_all add: ys(3) delete_at_def entries_def take_drop min_def\<close>)
    qed
    finally have es: "entries ?t = ?rest" .
    have keep: "owns h' x" "entry_pair h' x = entry_pair h x" if "x \<in> set ?rest" for x
    proof -
      have o: "owns h x" using rest(1) that by (simp add: list_all_iff)
      have n: "heap_storage (opt_data x) = NULL \<or> heap_storage (opt_data x) \<noteq> ?s"
        using rest(4) storage_mem[OF that] by auto
      show "owns h' x" "entry_pair h' x = entry_pair h x"
        using owns_frame[OF o n, of NULL h'] h' by auto
    qed
    have map2: "map (entry_pair h') ?rest = map (entry_pair h) ?rest" using keep(2) by simp
    have kr: "map_of (map (entry_pair h) ?rest) (entry_key ?e) = None"
      using fits_sets[OF srt2(2)]
      by (auto simp: map_of_eq_None_iff entry_pair_def)
        (metis (no_types, lifting) Un_iff append_take_drop_id less_irrefl set_append)
    have key: "option_keys t ! c = entry_key ?e" using c len by (simp add: option_keys_def)
    have "?n - 1 \<le> length ys" "?n - 1 \<le> IOT_OPTION_MAX" using cap ys(2) by linarith+
    moreover have "list_all (owns h') ?rest" using keep(1) by (simp add: list_all_iff)
    ultimately have "options_ok h' ?t"
      using rest srt2 by (simp add: options_ok_def options_shape_def option_keys_def es[unfolded One_nat_def])
    moreover have "options_map h' ?t = map_of (map (entry_pair h) ?rest)"
      by (simp only: options_map_def es map2)
    then have "options_map h' ?t = (options_map h t)(option_keys t ! c := None)"
      using map_of_insert[OF srt2(2,1), of h] kr by (auto simp: options_map_def ins key)
    moreover have "options_remove h t c = Some (?t, h')"
      using ld free ys(1) by (simp add: options_remove_def)
    ultimately show ?thesis using True by simp
  qed
qed

lemma options_map_nth:
  assumes "options_shape t" and "c < option_count t"
  shows "options_map h t (option_keys t ! c) = Some (the (content_of h (opt_data (entries t ! c))))"
proof -
  have len: "length (entries t) = option_count t" and srt: "sorted_wrt (<) (option_keys t)"
    using assms(1) by (auto simp: options_shape_def)
  have "distinct (map fst (map (entry_pair h) (entries t)))"
  proof -
    have "map fst (map (entry_pair h) (entries t)) = option_keys t"
      by (simp add: option_keys_def entry_pair_def)
    then show ?thesis using srt strict_sorted_iff by metis
  qed
  moreover have "entry_pair h (entries t ! c) \<in> set (map (entry_pair h) (entries t))"
    using assms(2) len by simp
  ultimately show ?thesis
    using assms(2) len by (simp add: options_map_def option_keys_def entry_pair_def)
qed
section \<open>Creating and releasing option maps\<close>

text \<open>
  The library's list of option maps: the handles in use in order (the array and its count),
  and the object behind each handle, whose memory is an opaque block of the heap.
\<close>

record options_store =
  handles :: "ptr list"
  tables :: "ptr \<Rightarrow> iot_options option"

text \<open>NULL is returned when the list is full or an allocation fails.\<close>

definition iot_options_allocate :: "heap \<Rightarrow> options_store \<Rightarrow> (ptr \<times> options_store \<times> heap) option" where
  "iot_options_allocate h lib =
     (if length (handles lib) < IOT_OPTION_MAX
      then (let (result, h) = os_malloc (Bytes []) h in
        if result \<noteq> NULL
        then (let (arr, h) = os_grab h in
          if arr
          then Some (result, lib\<lparr>handles := handles lib @ [result],
                 tables := (tables lib)(result \<mapsto> \<lparr>option_array = [], option_count = 0\<rparr>)\<rparr>, h)
          else do { h \<leftarrow> os_free result h; Some (NULL, lib, h) })
        else Some (NULL, lib, h))
      else Some (NULL, lib, h))"

text \<open>The loop over the entries of the released table.\<close>

fun options_free_data :: "iot_option list \<Rightarrow> heap \<Rightarrow> heap option" where
  "options_free_data [] h = Some h"
| "options_free_data (e # es) h = do {
     h \<leftarrow> os_free (heap_storage (opt_data e)) h;
     options_free_data es h
   }"

definition iot_options_free ::
    "heap \<Rightarrow> options_store \<Rightarrow> ptr \<Rightarrow> (iot_status \<times> options_store \<times> heap) option" where
  "iot_options_free h lib options =
     (if options = NULL then Some (STATUS_BAD_PARAMETER, lib, h)
      else do {
        t \<leftarrow> tables lib options;
        let i = length (takeWhile (\<lambda>p. p \<noteq> options) (handles lib));
        (if i < length (handles lib)
         then do {
           h \<leftarrow> options_free_data (take (option_count t) (option_array t)) h;
           h \<leftarrow> os_free options h;
           Some (STATUS_SUCCESS, lib\<lparr>handles := delete_at i (handles lib),
             tables := (tables lib)(options := None)\<rparr>, h)
         }
         else Some (STATUS_NOT_FOUND, lib, h))
      })"

lemma delete_first:
  assumes "p \<in> set xs" and "distinct xs"
  shows "length (takeWhile (\<lambda>q. q \<noteq> p) xs) < length xs"
    and "delete_at (length (takeWhile (\<lambda>q. q \<noteq> p) xs)) xs = removeAll p xs"
proof -
  from assms(1) obtain ys zs where xs: "xs = ys @ p # zs" "p \<notin> set ys"
    by (meson split_list_first)
  then have "takeWhile (\<lambda>q. q \<noteq> p) xs = ys" by (auto simp: takeWhile_append)
  moreover have "p \<notin> set zs" using assms(2) xs by simp
  ultimately show "length (takeWhile (\<lambda>q. q \<noteq> p) xs) < length xs"
    and "delete_at (length (takeWhile (\<lambda>q. q \<noteq> p) xs)) xs = removeAll p xs"
    using xs by (simp_all add: delete_at_def)
qed

lemma options_free_data_spec:
  assumes "list_all (owns h) es" and "distinct (storage es)"
  shows "\<exists>h'. options_free_data es h = Some h'
    \<and> (\<forall>q. cells h' q = (if q \<in> set (storage es) then None else cells h q))"
  using assms
proof (induction es arbitrary: h)
  case Nil
  then show ?case by (simp add: storage_def)
next
  case (Cons e es)
  let ?s = "heap_storage (opt_data e)"
  have o: "owns h e" using Cons.prems(1) by simp
  show ?case
  proof (cases "?s = NULL")
    case True
    then have "storage (e # es) = storage es" by (simp add: storage_def)
    then show ?thesis using Cons True by (simp add: os_free_def)
  next
    case False
    then have st: "storage (e # es) = ?s # storage es" by (simp add: storage_def)
    have live: "cells h ?s \<noteq> None" using o False content_live by (fastforce simp: owns_def)
    let ?h = "h\<lparr>cells := (cells h)(?s := None)\<rparr>"
    have "owns ?h x" if "x \<in> set es" for x
    proof -
      have n: "heap_storage (opt_data x) = NULL \<or> heap_storage (opt_data x) \<noteq> ?s"
        using Cons.prems(2) st storage_mem[OF that] by auto
      show ?thesis
        using owns_frame(1)[of h x ?s NULL ?h] n Cons.prems(1) that by (auto simp: list_all_iff)
    qed
    then have "list_all (owns ?h) es" by (simp add: list_all_iff)
    then obtain h' where "options_free_data es ?h = Some h'"
      "\<forall>q. cells h' q = (if q \<in> set (storage es) then None else cells ?h q)"
      using Cons.IH[of ?h] Cons.prems(2) st by auto
    then show ?thesis using False live st by (auto simp: os_free_def)
  qed
qed

section \<open>Properties\<close>

text \<open>A table with one entry, \<open>Speed\<close>, of type INT64.\<close>

definition example_options :: iot_options where
  "example_options =
     \<lparr>option_array = [\<lparr>opt_name = Some ''Speed'', opt_data = example_int64 7\<rparr>], option_count = 1\<rparr>"

lemma example_options_ok: "options_ok h example_options"
  by (simp add: options_ok_def options_shape_def example_options_def entries_def option_keys_def
      named_def owns_def storage_def example_int64_def data_zero_def data_pointer_def content_of_def)

lemma options_get_spec:
  assumes "options_ok h t"
  shows "case options_map h t (casekey IOT_NAME_MAX_LEN name) of
      None \<Rightarrow> iot_options_get_args f g h t (Some name) convert type dest = Some (STATUS_NOT_FOUND, None)
    | Some v \<Rightarrow> \<exists>d. content_of h d = Some v
        \<and> iot_options_get_args f g h t (Some name) convert type dest =
            iot_common_arg_get f g h (Some d) convert type dest
        \<and> (case v of
             Text s \<Rightarrow> \<exists>p. read_string p h = Some s
               \<and> iot_options_get_args f g h t (Some name) convert TYPE_STRING True =
                   Some (STATUS_SUCCESS, Some (OutString p))
           | _ \<Rightarrow> True)"
proof -
  let ?k = "casekey IOT_NAME_MAX_LEN name" and ?n = "option_count t" and ?es = "entries t"
  have shape: "options_shape t" and own: "list_all (owns h) ?es"
    using assms by (auto simp: options_ok_def)
  have cap: "?n \<le> length (option_array t)" using shape by (auto simp: options_shape_def)
  then have len: "length ?es = ?n" by simp
  from options_find_spec[OF shape, of name] obtain found c where
    find: "iot_options_find t name = Some (found, c)" and
    fnd: "if found then c < ?n \<and> option_keys t ! c = ?k
      else c \<le> ?n \<and> (\<forall>i < c. option_keys t ! i < ?k) \<and> (\<forall>i. c \<le> i \<and> i < ?n \<longrightarrow> ?k < option_keys t ! i)"
    by blast
  show ?thesis
  proof (cases found)
    case True
    then have c: "c < ?n" "option_keys t ! c = ?k" using fnd by simp_all
    let ?d = "opt_data (?es ! c)"
    have "owns h (?es ! c)" using own c len by (simp add: list_all_length)
    then obtain v where v: "content_of h ?d = Some v" by (auto simp: owns_def)
    then have m: "options_map h t ?k = Some v" using options_map_nth[OF shape c(1), of h] c(2) by simp
    have get: "iot_options_get_args f g h t (Some name) convert ty ds =
        iot_common_arg_get f g h (Some ?d) convert ty ds" for ty ds
      using find True c cap by (simp add: iot_options_get_args_def load_def entries_nth)
    have "\<exists>p. read_string p h = Some s \<and>
        iot_common_arg_get f g h (Some ?d) convert TYPE_STRING True = Some (STATUS_SUCCESS, Some (OutString p))"
      if "v = Text s" for s
    proof -
      have "has_value ?d" "dtype ?d = TYPE_STRING" "read_string (lo ?d) h = Some s"
        using v that by (auto simp: content_of_def split: if_splits iot_type.splits bind_splits)
      then show ?thesis
        by (simp add: iot_common_arg_get_def iot_perform_conversion_def arg_out_of_def data_zero_def)
    qed
    then show ?thesis using m v get by (auto split: content.splits)
  next
    case False
    then have "fits ?k c ?es" using fnd len by (auto simp: fits_def option_keys_def)
    then have "options_map h t ?k = None"
      using fits_sets
      by (auto simp: options_map_def map_of_eq_None_iff entry_pair_def)
        (metis (no_types, lifting) Un_iff append_take_drop_id less_irrefl set_append)
    then show ?thesis using find False by (simp add: iot_options_get_args_def)
  qed
qed

text \<open>
  C16: Getting an option looks its name up in the abstract map, ignoring case and everything
  after the first 128 characters: an absent name is \<open>NOT_FOUND\<close>; for a present one the
  result is what \<open>iot_common_arg_get\<close> gives for the stored object, whose content is the map's;
  in particular a stored text read as a STRING yields a pointer to exactly that text.
\<close>

theorem options_get_reads_map:
  assumes "options_ok h t"
  shows "case options_map h t (casekey IOT_NAME_MAX_LEN name) of
      None \<Rightarrow> iot_options_get_args f g h t (Some name) convert type dest = Some (STATUS_NOT_FOUND, None)
    | Some v \<Rightarrow> \<exists>d. content_of h d = Some v
        \<and> iot_options_get_args f g h t (Some name) convert type dest =
            iot_common_arg_get f g h (Some d) convert type dest
        \<and> (case v of
             Text s \<Rightarrow> \<exists>p. read_string p h = Some s
               \<and> iot_options_get_args f g h t (Some name) convert TYPE_STRING True =
                   Some (STATUS_SUCCESS, Some (OutString p))
           | _ \<Rightarrow> True)"
  by (rule options_get_spec[OF assms])

theorem options_get_reads_map_witness:
  "case options_map example_heap example_options (casekey IOT_NAME_MAX_LEN ''SPEED'') of
      None \<Rightarrow> iot_options_get_args (\<lambda>_. 0) (\<lambda>_. 0) example_heap example_options (Some ''SPEED'') True
          TYPE_INT64 True = Some (STATUS_NOT_FOUND, None)
    | Some v \<Rightarrow> \<exists>d. content_of example_heap d = Some v
        \<and> iot_options_get_args (\<lambda>_. 0) (\<lambda>_. 0) example_heap example_options (Some ''SPEED'') True
            TYPE_INT64 True = iot_common_arg_get (\<lambda>_. 0) (\<lambda>_. 0) example_heap (Some d) True TYPE_INT64 True
        \<and> (case v of
             Text s \<Rightarrow> \<exists>p. read_string p example_heap = Some s
               \<and> iot_options_get_args (\<lambda>_. 0) (\<lambda>_. 0) example_heap example_options (Some ''SPEED'') True
                   TYPE_STRING True = Some (STATUS_SUCCESS, Some (OutString p))
           | _ \<Rightarrow> True)"
  by (rule options_get_reads_map[OF example_options_ok])

text \<open>
  Deleting an option (\<open>iot_options_clear\<close> on a present name): when the array has more room
  than the table uses, the entry disappears and everything else stays, but the status is
  \<open>FULL\<close>, never success; when the table fills its array exactly, as it does after every
  insertion, the code reads one element past the end of the array.
\<close>

theorem options_clear_present:
  assumes "options_ok h t" and "name \<noteq> []"
    and "casekey IOT_NAME_MAX_LEN name \<in> dom (options_map h t)"
  shows "if option_count t < length (option_array t)
    then \<exists>t' h'. iot_options_clear h t (Some name) = Some (STATUS_FULL, t', h') \<and> options_ok h' t'
      \<and> options_map h' t' = (options_map h t)(casekey IOT_NAME_MAX_LEN name := None)
      \<and> option_count t' = option_count t - 1
    else iot_options_clear h t (Some name) = None"
proof -
  let ?k = "casekey IOT_NAME_MAX_LEN name" and ?n = "option_count t"
  have shape: "options_shape t" using assms(1) by (auto simp: options_ok_def)
  then have len: "length (entries t) = ?n" by (simp add: options_shape_def)
  let ?z = "data_zero\<lparr>dtype := TYPE_NULL, has_value := False, lo := 0, hi := NULL\<rparr>"
  have arg: "iot_common_arg_set True TYPE_NULL ANone h = Some (STATUS_SUCCESS, ?z, h)"
    by (simp add: iot_common_arg_set_def arg_set_scalar_def data_zero_def)
  from options_find_spec[OF shape, of name] obtain found c where
    find: "iot_options_find t name = Some (found, c)" and
    fnd: "if found then c < ?n \<and> option_keys t ! c = ?k
      else c \<le> ?n \<and> (\<forall>i < c. option_keys t ! i < ?k) \<and> (\<forall>i. c \<le> i \<and> i < ?n \<longrightarrow> ?k < option_keys t ! i)"
    by blast
  have found
  proof (rule ccontr)
    assume "\<not> found"
    then have "fits ?k c (entries t)" using fnd len by (auto simp: fits_def option_keys_def)
    then have "options_map h t ?k = None"
      using fits_sets
      by (auto simp: options_map_def map_of_eq_None_iff entry_pair_def)
        (metis (no_types, lifting) Un_iff append_take_drop_id less_irrefl set_append)
    then show False using assms(3) by auto
  qed
  then have c: "c < ?n" "option_keys t ! c = ?k" using fnd by simp_all
  have set: "iot_options_clear h t (Some name) =
      Option.bind (options_remove h t c) (\<lambda>(t, h). Some (STATUS_FULL, t, h))"
    using \<open>found\<close> find arg assms(2)
    by (cases "options_remove h t c")
      (auto simp: iot_options_clear_def iot_options_set_args_def iot_options_set_data_def)
  show ?thesis
    using options_remove_spec[OF assms(1) c(1)] c(2) by (auto simp: set)
qed

theorem options_clear_present_witness:
  "if option_count example_options < length (option_array example_options)
    then \<exists>t' h'. iot_options_clear example_heap example_options (Some ''speed'') = Some (STATUS_FULL, t', h')
      \<and> options_ok h' t'
      \<and> options_map h' t' = (options_map example_heap example_options)(casekey IOT_NAME_MAX_LEN ''speed'' := None)
      \<and> option_count t' = option_count example_options - 1
    else iot_options_clear example_heap example_options (Some ''speed'') = None"
  by (rule options_clear_present[OF example_options_ok])
    (simp_all add: options_map_def example_options_def entries_def entry_pair_def entry_key_def
      casekey_def tolower_def char_of_def bit_0)

text \<open>
  Releasing a registered option map succeeds, removes exactly its handle from the library's
  list (each handle occurs once) and frees exactly the storage of its entries and the object
  itself; a handle that is not in the list is reported and nothing changes.
\<close>

theorem options_free_releases:
  assumes "tables lib p = Some t" and "p \<noteq> NULL" and "options_ok h t"
    and "cells h p \<noteq> None" and "p \<notin> set (storage (entries t))" and "distinct (handles lib)"
  shows "if p \<in> set (handles lib)
    then \<exists>lib' h'. iot_options_free h lib p = Some (STATUS_SUCCESS, lib', h')
      \<and> handles lib' = removeAll p (handles lib) \<and> tables lib' = (tables lib)(p := None)
      \<and> (\<forall>q. cells h' q = (if q = p \<or> q \<in> set (storage (entries t)) then None else cells h q))
    else iot_options_free h lib p = Some (STATUS_NOT_FOUND, lib, h)"
proof -
  let ?i = "length (takeWhile (\<lambda>q. q \<noteq> p) (handles lib))"
  from options_free_data_spec[of h "entries t"] assms(3) obtain h1 where
    h1: "options_free_data (entries t) h = Some h1"
      "\<forall>q. cells h1 q = (if q \<in> set (storage (entries t)) then None else cells h q)"
    by (auto simp: options_ok_def)
  show ?thesis
  proof (cases "p \<in> set (handles lib)")
    case True
    note del = delete_first[OF True assms(6)]
    then show ?thesis
      using True del h1 assms(1,2,4,5)
      by (simp add: iot_options_free_def Let_def entries_def[symmetric] os_free_def)
  next
    case False
    then have "takeWhile (\<lambda>q. q \<noteq> p) (handles lib) = handles lib" by (auto simp: takeWhile_eq_all_conv)
    then have "?i = length (handles lib)" by (rule arg_cong)
    then show ?thesis using False assms(1,2) by (simp add: iot_options_free_def Let_def)
  qed
qed

theorem options_free_releases_witness:
  "if (16 :: ptr) \<in> set (handles \<lparr>handles = [16], tables = [16 \<mapsto> example_options]\<rparr>)
    then \<exists>lib' h'. iot_options_free example_heap \<lparr>handles = [16], tables = [16 \<mapsto> example_options]\<rparr> 16 =
        Some (STATUS_SUCCESS, lib', h')
      \<and> handles lib' = removeAll 16 (handles \<lparr>handles = [16], tables = [16 \<mapsto> example_options]\<rparr>)
      \<and> tables lib' = (tables \<lparr>handles = [16], tables = [16 \<mapsto> example_options]\<rparr>)(16 := None)
      \<and> (\<forall>q. cells h' q = (if q = 16 \<or> q \<in> set (storage (entries example_options)) then None
                           else cells example_heap q))
    else iot_options_free example_heap \<lparr>handles = [16], tables = [16 \<mapsto> example_options]\<rparr> 16 =
      Some (STATUS_NOT_FOUND, \<lparr>handles = [16], tables = [16 \<mapsto> example_options]\<rparr>, example_heap)"
  by (rule options_free_releases[OF _ _ example_options_ok])
    (simp_all add: example_heap_def example_options_def entries_def storage_def example_int64_def
      data_zero_def)

text \<open>
  A nameless entry is fatal: clearing an absent name inserts one, and the next search is
  undefined. Setting a string also leaks the temporary copy of its argument.
\<close>

lemma options_clear_absent:
  "\<exists>t' h'. iot_options_clear \<lparr>cells = Map.empty, allocator = [Some 8]\<rparr>
      \<lparr>option_array = [], option_count = 0\<rparr> (Some ''a'') = Some (STATUS_NO_MEMORY, t', h')
    \<and> iot_options_find t' ''b'' = None"
  by (simp add: iot_options_clear_def iot_options_set_args_def iot_options_set_data_def
      iot_common_arg_set_def arg_set_scalar_def data_zero_def iot_options_find_def
      options_find_loop.simps options_open_def Let_def os_grab_def memmove_def store_def
      option_zero_def load_def)

end
