(* ===== verification/Registry.thy ===== *)
theory Registry
  imports Data
begin

text \<open>
  What the library's registries have in common (actions, telemetry and alarms in
  \<open>src/src/api/iot_action.c\<close>, \<open>iot_telemetry.c\<close>, \<open>iot_alarm.c\<close>): a table of pointers to
  items, of which the first ones are in use and ordered, and the rest are the free objects of
  the stack (or NULL, for an item to be allocated on the heap).

  The first part models the code the three repeat; the second states the contract of an
  ordered table as a locale, which every registry of the library (the enabled plug-ins too)
  interprets.
\<close>

section \<open>Tables of items\<close>

record 'i registry =
  mem :: "ptr \<Rightarrow> 'i option"
  slots :: "ptr list"
  used :: nat

text \<open>A new object at the next answer of the allocator, which no live object occupies.\<close>

definition os_new :: "'i registry \<Rightarrow> heap \<Rightarrow> ptr \<times> heap" where
  "os_new R h =
     (case allocator h of
        [] \<Rightarrow> (NULL, h)
      | a # r \<Rightarrow>
          (case a of
             Some p \<Rightarrow> (if p = NULL \<or> mem R p \<noteq> None \<or> cells h p \<noteq> None then NULL else p,
               h\<lparr>allocator := r\<rparr>)
           | None \<Rightarrow> (NULL, h\<lparr>allocator := r\<rparr>)))"

definition poke :: "ptr \<Rightarrow> 'i option \<Rightarrow> 'i registry \<Rightarrow> 'i registry" where
  "poke p it R = R\<lparr>mem := (mem R)(p := it)\<rparr>"

text \<open>
  The object of a new item: the one the free part of the table offers, or a new one on the
  heap. The result says whether it is in the heap.
\<close>

definition take_object :: "'i registry \<Rightarrow> heap \<Rightarrow> (ptr \<times> bool \<times> heap) option" where
  "take_object R h = do {
     p \<leftarrow> load (slots R) (used R);
     (if p = NULL then (let (q, h) = os_new R h in Some (q, True, h))
      else do {
        _ \<leftarrow> mem R p;
        Some (p, False, h)
      })
   }"

text \<open>
  The search for the place of a new item: the comparison reads an entry, which is undefined
  when the entry or its name cannot be read.
\<close>

function place ::
    "(nat \<Rightarrow> bool option) \<Rightarrow> nat \<Rightarrow> nat \<Rightarrow> nat \<Rightarrow> nat option" where
  "place gt cur_idx min_idx max_idx =
     (if 0 < max_idx - min_idx
      then Option.bind (gt ((max_idx - min_idx) div 2 + min_idx)) (\<lambda>g.
        (let cur_idx = (max_idx - min_idx) div 2 + min_idx
         in if g then place gt (cur_idx + 1) (cur_idx + 1) max_idx
            else place gt cur_idx min_idx cur_idx))
      else Some cur_idx)"
  by pat_completeness auto
termination
  by (relation "measure (\<lambda>(gt, cur_idx, min_idx, max_idx). max_idx - min_idx)") auto

declare place.simps [simp del]

definition table_insert ::
    "(nat \<Rightarrow> bool option) \<Rightarrow> ptr \<Rightarrow> 'i registry \<Rightarrow> 'i registry option" where
  "table_insert gt p R = do {
     cur_idx \<leftarrow> place gt 0 0 (used R);
     arr \<leftarrow> memmove (cur_idx + 1) cur_idx (used R - cur_idx) (slots R);
     arr \<leftarrow> store cur_idx p arr;
     Some (R\<lparr>slots := arr, used := used R + 1\<rparr>)
   }"

text \<open>The index of a pointer among the used ones, or the count.\<close>

definition table_index :: "ptr \<Rightarrow> 'i registry \<Rightarrow> nat" where
  "table_index p R = length (takeWhile (\<lambda>q. q \<noteq> p) (take (used R) (slots R)))"

text \<open>Closing the gap at \<open>i\<close> and putting \<open>free\<close> (a stack object, or NULL) behind the used ones.\<close>

definition table_remove :: "nat \<Rightarrow> ptr \<Rightarrow> 'i registry \<Rightarrow> 'i registry option" where
  "table_remove i free R = do {
     arr \<leftarrow> memmove i (i + 1) (used R - i - 1) (slots R);
     arr \<leftarrow> store (used R - 1) free arr;
     Some (R\<lparr>slots := arr, used := used R - 1\<rparr>)
   }"

text \<open>
  Allocating an item by name, as actions and telemetry do: \<open>gt\<close> compares the name with that of
  an entry, \<open>mk\<close> is the new item given the name cut to \<open>IOT_NAME_MAX_LEN\<close> and whether it is in
  the heap. When the name cannot be allocated for an object of the stack, the zeroed object is
  returned anyway.
\<close>

definition table_allocate ::
    "nat \<Rightarrow> ('i registry \<Rightarrow> string \<Rightarrow> nat \<Rightarrow> bool option) \<Rightarrow> (string \<Rightarrow> bool \<Rightarrow> 'i) \<Rightarrow> 'i \<Rightarrow>
     'i registry \<Rightarrow> heap \<Rightarrow> string option \<Rightarrow> (ptr \<times> 'i registry \<times> heap) option" where
  "table_allocate cap gt mk zero R h name =
     (case name of
        None \<Rightarrow> Some (NULL, R, h)
      | Some name \<Rightarrow>
          if name \<noteq> [] \<and> used R < cap
          then do {
            (result, is_in_heap, h) \<leftarrow> take_object R h;
            (if result = NULL then Some (NULL, R, h)
             else do {
               let (ok, h) = os_grab h;
               (if ok
                then do {
                  let R = poke result (Some (mk (take IOT_NAME_MAX_LEN name) is_in_heap)) R;
                  R \<leftarrow> table_insert (gt R name) result R;
                  Some (result, R, h)
                }
                else if is_in_heap then Some (NULL, poke result None R, h)
                else Some (result, poke result (Some zero) R, h))
             })
          }
          else Some (NULL, R, h))"

section \<open>Well-formed tables\<close>

definition items :: "'i registry \<Rightarrow> ptr list" where
  "items R = take (used R) (slots R)"

definition item_key :: "('i \<Rightarrow> 'k option) \<Rightarrow> 'i registry \<Rightarrow> ptr \<Rightarrow> 'k option" where
  "item_key key R p = Option.bind (mem R p) key"

definition table_keys :: "('i \<Rightarrow> 'k option) \<Rightarrow> 'i registry \<Rightarrow> 'k list" where
  "table_keys key R = map (\<lambda>p. the (item_key key R p)) (items R)"

definition registry_ok :: "('i \<Rightarrow> ('k :: linorder) option) \<Rightarrow> nat \<Rightarrow> 'i registry \<Rightarrow> bool" where
  "registry_ok key cap R \<longleftrightarrow>
     length (slots R) = cap \<and> used R \<le> cap \<and>
     distinct (filter (\<lambda>p. p \<noteq> NULL) (slots R)) \<and> NULL \<notin> set (items R) \<and>
     (\<forall>p \<in> set (slots R). p \<noteq> NULL \<longrightarrow> mem R p \<noteq> None) \<and>
     (\<forall>p \<in> set (items R). item_key key R p \<noteq> None) \<and> sorted (table_keys key R)"

lemma registry_okD:
  assumes "registry_ok key cap R"
  shows "length (slots R) = cap" "used R \<le> cap" "distinct (filter (\<lambda>p. p \<noteq> NULL) (slots R))"
    "NULL \<notin> set (items R)" "\<And>p. p \<in> set (slots R) \<Longrightarrow> p \<noteq> NULL \<Longrightarrow> mem R p \<noteq> None"
    "\<And>p. p \<in> set (items R) \<Longrightarrow> item_key key R p \<noteq> None" "sorted (table_keys key R)"
    "length (items R) = used R"
  using assms unfolding registry_ok_def items_def by simp_all

lemma slots_split: "slots R = items R @ drop (used R) (slots R)"
  by (simp add: items_def)

lemma items_distinct:
  assumes "registry_ok key cap R"
  shows "distinct (items R)"
proof -
  have "filter (\<lambda>p. p \<noteq> NULL) (items R) = items R"
    using registry_okD(4)[OF assms] by (intro filter_True) metis
  then show ?thesis
    using registry_okD(3)[OF assms] slots_split[of R] by (metis distinct_append filter_append)
qed

lemma items_live: "registry_ok key cap R \<Longrightarrow> p \<in> set (items R) \<Longrightarrow> \<exists>it k. mem R p = Some it \<and> key it = Some k"
  using registry_okD(6)[of key cap R p] by (auto simp: item_key_def bind_eq_Some_conv)

lemma place_insert_pos:
  assumes "\<And>i. i < n \<Longrightarrow> gt i = Some (g i)" and "b \<le> n"
  shows "place gt cur a b = Some (insert_pos g cur a b)"
  using assms
proof (induction gt cur a b rule: place.induct)
  case (1 gt cur a b)
  show ?case
  proof (cases "0 < b - a")
    case True
    define c where "c = (b - a) div 2 + a"
    have c: "c < b" using True by (auto simp: c_def)
    then have g: "gt c = Some (g c)" using "1.prems" by simp
    show ?thesis
      using "1.IH" "1.prems" c g True
      by (subst place.simps, subst insert_pos.simps) (simp add: c_def Let_def)
  qed (simp add: place.simps insert_pos.simps)
qed

text \<open>
  Inserting a live object \<open>p\<close> that is free (the stack object offered at the end of the used
  part, or a new one when there is none) into a table with room.
\<close>

definition offered :: "'i registry \<Rightarrow> ptr \<Rightarrow> bool" where
  "offered R p \<longleftrightarrow> p \<noteq> NULL \<and> used R < length (slots R) \<and>
     (if slots R ! used R = NULL then p \<notin> set (slots R) else p = slots R ! used R)"

lemma slots_split_at:
  "used R < length (slots R) \<Longrightarrow>
   slots R = items R @ slots R ! used R # drop (Suc (used R)) (slots R)"
  unfolding items_def by (rule id_take_nth_drop)

lemma offered_fresh:
  assumes ok: "registry_ok key cap R" and p: "offered R p"
  shows "p \<notin> set (items R)" "p \<notin> set (drop (Suc (used R)) (slots R))"
proof -
  have lt: "used R < length (slots R)" and nz: "p \<noteq> NULL" using p by (simp_all add: offered_def)
  note split = slots_split_at[OF lt]
  have "p \<notin> set (items R) \<and> p \<notin> set (drop (Suc (used R)) (slots R))"
  proof (cases "slots R ! used R = NULL")
    case True
    then have "p \<notin> set (slots R)" using p by (simp add: offered_def)
    then show ?thesis by (subst (asm) split) auto
  next
    case False
    then show ?thesis
      using registry_okD(3)[OF ok] p nz by (subst (asm) split) (auto simp: offered_def)
  qed
  then show "p \<notin> set (items R)" "p \<notin> set (drop (Suc (used R)) (slots R))" by blast+
qed

lemma offered_distinct:
  assumes ok: "registry_ok key cap R" and p: "offered R p"
  shows "distinct (filter (\<lambda>q. q \<noteq> NULL) (insert_at i p (items R) @ drop (Suc (used R)) (slots R)))"
proof -
  let ?f = "filter (\<lambda>q. q \<noteq> NULL)" and ?d = "drop (Suc (used R)) (slots R)"
  have lt: "used R < length (slots R)" and nz: "p \<noteq> NULL" using p by (simp_all add: offered_def)
  have d: "distinct (?f (items R) @ ?f ?d)"
    using registry_okD(3)[OF ok] by (subst (asm) slots_split_at[OF lt]) (auto split: if_splits)
  have "?f (insert_at i p (items R)) = ?f (take i (items R)) @ p # ?f (drop i (items R))"
    using nz by (simp add: insert_at_def)
  moreover have "?f (items R) = ?f (take i (items R)) @ ?f (drop i (items R))"
    by (metis append_take_drop_id filter_append)
  moreover have "p \<notin> set (take i (items R))" "p \<notin> set (drop i (items R))"
    using offered_fresh(1)[OF ok p] by (auto dest: in_set_takeD in_set_dropD)
  ultimately show ?thesis using d offered_fresh(2)[OF ok p] by auto
qed

lemma table_insert_spec:
  fixes k :: "'k :: linorder"
  assumes ok: "registry_ok key cap R" and p: "offered R p"
    and live: "mem R' p = Some it" "key it = Some k"
    and R': "R' = poke p (Some it) R"
    and gt: "\<And>i. i < used R \<Longrightarrow> gt i = Some (table_keys key R ! i < k)"
  obtains i S where "table_insert gt p R' = Some S" "registry_ok key cap S"
    "items S = insert_at i p (items R)" "i \<le> used R" "mem S = mem R'" "used S = used R + 1"
    "p \<notin> set (items R)" "slots S = insert_at i p (items R) @ drop (Suc (used R)) (slots R)"
proof -
  let ?n = "used R" and ?ks = "table_keys key R"
  have lenk: "length ?ks = ?n" using registry_okD(8)[OF ok] by (simp add: table_keys_def)
  note fresh = offered_fresh(1)[OF ok p]
  define i where "i = insert_pos (\<lambda>j. ?ks ! j < k) 0 0 ?n"
  note srt = registry_okD(7)[OF ok]
  note lb = insert_pos_lower_bound[OF srt, of "\<lambda>j. ?ks ! j < k" k, unfolded lenk, folded i_def]
  have i: "i \<le> ?n" by (rule lb(1)) simp
  have pos: "\<And>j. j < ?n \<Longrightarrow> ?ks ! j < k \<longleftrightarrow> j < i" by (rule lb(2)) simp_all
  have place: "place gt 0 0 ?n = Some i"
    unfolding i_def by (rule place_insert_pos[of ?n]) (simp_all add: gt)
  have lt: "?n < length (slots R)" using p by (simp add: offered_def)
  obtain ys where ys: "memmove (Suc i) i (?n - i) (slots R) = Some ys" "length ys = length (slots R)"
    "take (Suc ?n) (ys[i := p]) = insert_at i p (items R)"
    "drop (Suc ?n) (ys[i := p]) = drop (Suc ?n) (slots R)"
    using memmove_open_gap[OF i lt, of p] unfolding items_def by blast
  define S where "S = R'\<lparr>slots := ys[i := p], used := ?n + 1\<rparr>"
  have S: "table_insert gt p R' = Some S"
    using place ys i lt by (simp add: table_insert_def R' poke_def store_def S_def)
  have items: "items S = insert_at i p (items R)" using ys(3) by (simp add: items_def S_def)
  have other: "item_key key S q = item_key key R q" if "q \<in> set (items R)" for q
    using that fresh by (auto simp: item_key_def S_def R' poke_def)
  have keyp: "item_key key S p = Some k" using live by (simp add: item_key_def S_def)
  have "map (\<lambda>q. the (item_key key S q)) (items R) = ?ks"
    unfolding table_keys_def using other by (intro map_cong) auto
  then have keys: "table_keys key S = insert_at i k ?ks"
    by (simp only: table_keys_def[of key S] items map_insert_at keyp option.sel)
  have slotsS: "slots S = insert_at i p (items R) @ drop (Suc ?n) (slots R)"
    using ys(3,4) by (simp add: S_def) (metis append_take_drop_id)
  have "registry_ok key cap S"
    unfolding registry_ok_def
  proof (intro conjI ballI impI)
    show "length (slots S) = cap" "used S \<le> cap"
      using ys(2) lt registry_okD(1)[OF ok] by (simp_all add: S_def)
    show "distinct (filter (\<lambda>p. p \<noteq> NULL) (slots S))"
      unfolding slotsS by (rule offered_distinct[OF ok p])
    show "NULL \<notin> set (items S)"
      using registry_okD(4)[OF ok] p by (simp add: items offered_def)
    show "item_key key S q \<noteq> None" if "q \<in> set (items S)" for q
      using that other keyp registry_okD(6)[OF ok] by (auto simp: items)
    show "mem S q \<noteq> None" if "q \<in> set (slots S)" "q \<noteq> NULL" for q
    proof (cases "q = p")
      case True
      then show ?thesis using live by (simp add: S_def)
    next
      case False
      then have "q \<in> set (slots R)"
        using that(1) unfolding slotsS by (auto simp: items_def dest: in_set_takeD in_set_dropD)
      then show ?thesis
        using False registry_okD(5)[OF ok] that(2) by (simp add: S_def R' poke_def)
    qed
    show "sorted (table_keys key S)"
      unfolding keys by (rule sorted_insert_at[OF srt]) (simp_all add: lenk i pos)
  qed
  then show thesis using that[OF S _ items i _ _ fresh slotsS] by (simp add: S_def)
qed

lemma os_new_spec: "os_new R h = (p, h') \<Longrightarrow> cells h' = cells h \<and> (p \<noteq> NULL \<longrightarrow> mem R p = None)"
  by (auto simp: os_new_def split: list.splits option.splits if_splits)

lemma take_object_spec:
  assumes ok: "registry_ok key cap R" and room: "used R < cap"
  obtains p b h' where "take_object R h = Some (p, b, h')" "cells h' = cells h"
    "p \<noteq> NULL \<Longrightarrow> offered R p" "p \<noteq> NULL \<Longrightarrow> b \<longleftrightarrow> p \<notin> set (slots R)" "p = NULL \<Longrightarrow> b"
proof (cases "slots R ! used R = NULL")
  case True
  obtain q h' where q: "os_new R h = (q, h')" by fastforce
  have "q \<noteq> NULL \<Longrightarrow> q \<notin> set (slots R)"
    using os_new_spec[OF q] registry_okD(5)[OF ok] by blast
  then show thesis
    using that[of q True h'] True q os_new_spec[OF q] room registry_okD(1)[OF ok]
    by (auto simp: take_object_def load_def offered_def)
next
  case False
  have "slots R ! used R \<in> set (slots R)" using room registry_okD(1)[OF ok] by simp
  then obtain it where "mem R (slots R ! used R) = Some it"
    using False registry_okD(5)[OF ok] by blast
  then show thesis
    using that[of "slots R ! used R" False h] False room registry_okD(1)[OF ok]
    by (auto simp: take_object_def load_def offered_def)
qed

text \<open>
  Removing the item at \<open>i\<close>; \<open>free\<close> is its own address, when it is an object of the stack, or
  NULL. The memory may change at \<open>p\<close> alone, which must stay live when it is put back.
\<close>

lemma distinct_delete: "distinct xs \<Longrightarrow> i < length xs \<Longrightarrow> set (delete_at i xs) = set xs - {xs ! i} \<and> distinct (delete_at i xs)"
  by (subst (asm) id_take_nth_drop, assumption, subst (3) id_take_nth_drop, assumption)
    (auto simp: delete_at_def)

lemma table_index_spec:
  assumes "registry_ok key cap R"
  shows "table_index p R < used R \<longleftrightarrow> p \<in> set (items R)"
    and "p \<in> set (items R) \<Longrightarrow> items R ! table_index p R = p"
proof -
  have *: "length (takeWhile P xs) < length xs \<longleftrightarrow> (\<exists>x \<in> set xs. \<not> P x)" for P and xs :: "ptr list"
    by (induction xs) auto
  show **: "table_index p R < used R \<longleftrightarrow> p \<in> set (items R)"
    using *[of "\<lambda>q. q \<noteq> p" "items R"] registry_okD(8)[OF assms]
    by (auto simp: table_index_def items_def)
  show "p \<in> set (items R) \<Longrightarrow> items R ! table_index p R = p"
    using nth_length_takeWhile[of "\<lambda>q. q \<noteq> p" "items R"] ** registry_okD(8)[OF assms]
    by (simp add: table_index_def items_def)
qed

lemma table_remove_spec:
  fixes key :: "'i \<Rightarrow> ('k :: linorder) option"
  assumes ok: "registry_ok key cap R" and p: "p \<in> set (items R)"
    and R': "R' = poke p it R" and free: "free = NULL \<or> (free = p \<and> it \<noteq> None)"
  obtains S where "table_remove (table_index p R) free R' = Some S" "registry_ok key cap S"
    "items S = delete_at (table_index p R) (items R)" "set (items S) = set (items R) - {p}"
    "mem S = mem R'" "used S = used R - 1" "slots S = items S @ free # drop (used R) (slots R)"
proof -
  let ?n = "used R" and ?i = "table_index p R"
  have i: "?i < ?n" using p table_index_spec(1)[OF ok] by blast
  have le: "?n \<le> length (slots R)" using registry_okD(1,2)[OF ok] by simp
  obtain ys where ys: "memmove ?i (Suc ?i) (?n - ?i - 1) (slots R) = Some ys"
    "length ys = length (slots R)" "take (?n - 1) ys = delete_at ?i (items R)"
    "drop ?n ys = drop ?n (slots R)"
    using memmove_close_gap[OF i le] unfolding items_def by blast
  define S where "S = R'\<lparr>slots := ys[?n - 1 := free], used := ?n - 1\<rparr>"
  have S: "table_remove ?i free R' = Some S"
    using ys i le by (simp add: table_remove_def R' poke_def store_def S_def)
  have items: "items S = delete_at ?i (items R)" using ys(3) by (simp add: items_def S_def)
  have del: "set (items S) = set (items R) - {p}" "distinct (items S)"
    using distinct_delete[OF items_distinct[OF ok], of ?i] i registry_okD(8)[OF ok]
      table_index_spec(2)[OF ok p] by (simp_all add: items)
  have slotsS: "slots S = items S @ free # drop ?n (slots R)"
    using id_take_nth_drop[of "?n - 1" "ys[?n - 1 := free]"] ys i le
    by (simp add: S_def items_def)
  have sub: "set (drop ?n (slots R)) \<subseteq> set (slots R)" by (rule set_drop_subset)
  have tail: "q \<notin> set (items R)" if "q \<in> set (drop ?n (slots R))" "q \<noteq> NULL" for q
    using registry_okD(3)[OF ok] that by (subst (asm) slots_split) auto
  have "registry_ok key cap S"
    unfolding registry_ok_def
  proof (intro conjI ballI impI)
    show "length (slots S) = cap" "used S \<le> cap"
      using ys(2) registry_okD(1,2)[OF ok] by (simp_all add: S_def)
    show "distinct (filter (\<lambda>p. p \<noteq> NULL) (slots S))"
      using registry_okD(3)[OF ok] del free p tail unfolding slotsS
      by (subst (asm) slots_split) auto
    show "NULL \<notin> set (items S)" using del registry_okD(4)[OF ok] by simp
    show "item_key key S q \<noteq> None" if "q \<in> set (items S)" for q
      using that del registry_okD(6)[OF ok, of q] by (auto simp: item_key_def S_def R' poke_def)
    show "mem S q \<noteq> None" if "q \<in> set (slots S)" "q \<noteq> NULL" for q
    proof (cases "q = p")
      case True
      then show ?thesis
        using that del(1) tail[of p] p free unfolding slotsS by (auto simp: S_def R' poke_def)
    next
      case False
      then have "q \<in> set (slots R)"
        using that free del(1) sub unfolding slotsS by (auto simp: items_def dest: in_set_takeD)
      then show ?thesis
        using False registry_okD(5)[OF ok] that(2) by (simp add: S_def R' poke_def)
    qed
    have "table_keys key S = delete_at ?i (table_keys key R)"
    proof -
      have "map (\<lambda>q. the (item_key key S q)) (items S) = map (\<lambda>q. the (item_key key R q)) (items S)"
        using del(1) by (intro map_cong) (auto simp: item_key_def S_def R' poke_def)
      then show ?thesis by (simp only: table_keys_def items map_delete_at)
    qed
    then show "sorted (table_keys key S)"
      using sorted_delete_at[OF registry_okD(7)[OF ok]] by simp
  qed
  then show thesis using that[OF S _ items del(1) _ _ slotsS] by (simp add: S_def)
qed

text \<open>An update of an item that keeps its key keeps the table.\<close>

lemma poke_ok:
  assumes "registry_ok key cap R" and "mem R p = Some it" and "key it' = key it"
  shows "registry_ok key cap (poke p (Some it') R)" "items (poke p (Some it') R) = items R"
    "table_keys key (poke p (Some it') R) = table_keys key R"
proof -
  have key: "item_key key (poke p (Some it') R) = item_key key R"
    using assms(2,3) by (auto simp: item_key_def poke_def)
  show it: "items (poke p (Some it') R) = items R" by (simp add: items_def poke_def)
  show keys: "table_keys key (poke p (Some it') R) = table_keys key R"
    by (simp add: table_keys_def key it)
  show "registry_ok key cap (poke p (Some it') R)"
    using assms(1) unfolding registry_ok_def key it keys by (auto simp: poke_def)
qed

lemma poke_free_ok:
  assumes "registry_ok key cap R" and "p \<notin> set (items R)" and "it \<noteq> None \<or> p \<notin> set (slots R)"
  shows "registry_ok key cap (poke p it R)" "items (poke p it R) = items R"
    "table_keys key (poke p it R) = table_keys key R"
proof -
  have key: "item_key key (poke p it R) q = item_key key R q" if "q \<in> set (items R)" for q
    using assms(2) that by (auto simp: item_key_def poke_def)
  show it: "items (poke p it R) = items R" by (simp add: items_def poke_def)
  show keys: "table_keys key (poke p it R) = table_keys key R"
    unfolding table_keys_def it using key by (intro map_cong) auto
  show "registry_ok key cap (poke p it R)"
    using assms(1,3) key unfolding registry_ok_def it keys by (auto simp: poke_def)
qed

section \<open>The pool of objects behind a table\<close>

text \<open>
  The objects of the stack are either in use or offered behind the used part of the table; an
  item in use belongs to the library and knows whether it was allocated, a free one does not.
\<close>

definition free_objects :: "'i registry \<Rightarrow> ptr set" where
  "free_objects R = set (drop (used R) (slots R)) - {NULL}"

definition pool_ok ::
    "('i \<Rightarrow> ('k :: linorder) option) \<Rightarrow> ('i \<Rightarrow> bool) \<Rightarrow> ('i \<Rightarrow> bool) \<Rightarrow> nat \<Rightarrow> ptr set \<Rightarrow> 'i registry \<Rightarrow> bool" where
  "pool_ok key owned heaped cap stack R \<longleftrightarrow>
     registry_ok key cap R \<and> NULL \<notin> stack \<and>
     free_objects R \<subseteq> stack \<and> stack \<subseteq> set (items R) \<union> free_objects R \<and>
     (\<forall>p \<in> set (items R). \<forall>it. mem R p = Some it \<longrightarrow> owned it \<and> (heaped it \<longleftrightarrow> p \<notin> stack)) \<and>
     (\<forall>p \<in> free_objects R. \<forall>it. mem R p = Some it \<longrightarrow> \<not> owned it)"

lemma pool_okD:
  assumes "pool_ok key owned heaped cap stack R"
  shows "registry_ok key cap R" "NULL \<notin> stack" "free_objects R \<subseteq> stack"
    "stack \<subseteq> set (items R) \<union> free_objects R"
    "\<And>p it. p \<in> set (items R) \<Longrightarrow> mem R p = Some it \<Longrightarrow> owned it \<and> (heaped it \<longleftrightarrow> p \<notin> stack)"
    "\<And>p it. p \<in> free_objects R \<Longrightarrow> mem R p = Some it \<Longrightarrow> \<not> owned it"
  using assms unfolding pool_ok_def by blast+

lemma free_disjoint:
  assumes "registry_ok key cap R"
  shows "set (items R) \<inter> free_objects R = {}"
  using registry_okD(3,4)[OF assms] by (subst (asm) slots_split) (auto simp: free_objects_def)

lemma slots_objects: "set (slots R) - {NULL} = (set (items R) - {NULL}) \<union> free_objects R"
  by (subst slots_split) (auto simp: free_objects_def)

lemma pool_took:
  assumes ok: "pool_ok key owned heaped cap stack R" and room: "used R < cap"
    and took: "take_object R h = Some (p, b, h')" and p: "p \<noteq> NULL"
  shows "b \<longleftrightarrow> p \<notin> stack"
proof -
  note tab = pool_okD(1)[OF ok]
  have off: "offered R p" "b \<longleftrightarrow> p \<notin> set (slots R)"
    using take_object_spec[OF tab room, of h] took p by auto
  have "p \<in> free_objects R" if "slots R ! used R \<noteq> NULL"
  proof -
    have "p = slots R ! used R" "used R < length (slots R)"
      using off(1) that by (auto simp: offered_def)
    then show ?thesis
      using p Cons_nth_drop_Suc[of "used R" "slots R"] by (auto simp: free_objects_def) (metis list.set_intros(1))
  qed
  then show ?thesis
    using off p pool_okD(3,4)[OF ok] slots_objects[of R]
    by (cases "slots R ! used R = NULL") (auto simp: offered_def)
qed

lemma pool_insert:
  fixes key :: "'i \<Rightarrow> ('k :: linorder) option"
  assumes ok: "pool_ok key owned heaped cap stack R" and room: "used R < cap"
    and took: "take_object R h = Some (p, b, h')" and p: "p \<noteq> NULL"
    and it: "key it = Some k" "owned it" "heaped it \<longleftrightarrow> b"
    and gt: "\<And>i. i < used R \<Longrightarrow> p \<notin> set (items R) \<Longrightarrow> gt i = Some (table_keys key R ! i < k)"
  obtains S where "table_insert gt p (poke p (Some it) R) = Some S"
    "pool_ok key owned heaped cap stack S" "p \<notin> set (items R)"
    "set (items S) = insert p (set (items R))" "mem S = (mem R)(p \<mapsto> it)"
proof -
  note tab = pool_okD(1)[OF ok]
  have off: "offered R p" "b \<longleftrightarrow> p \<notin> set (slots R)"
    using take_object_spec[OF tab room, of h] took p by auto
  have live: "mem (poke p (Some it) R) p = Some it" by (simp add: poke_def)
  have gt': "\<And>i. i < used R \<Longrightarrow> gt i = Some (table_keys key R ! i < k)"
    using gt offered_fresh(1)[OF tab off(1)] by blast
  obtain i S where S: "table_insert gt p (poke p (Some it) R) = Some S" "registry_ok key cap S"
    "items S = insert_at i p (items R)" "mem S = mem (poke p (Some it) R)" "p \<notin> set (items R)"
    "slots S = insert_at i p (items R) @ drop (Suc (used R)) (slots R)" "used S = used R + 1" "i \<le> used R"
    using table_insert_spec[OF tab off(1) live it(1) refl gt'] by metis
  have set: "set (items S) = insert p (set (items R))" by (simp add: S(3))
  have "length (insert_at i p (items R)) = used R + 1" using registry_okD(8)[OF tab] by simp
  then have "drop (used S) (slots S) = drop (Suc (used R)) (slots R)" by (simp add: S(6,7))
  then have free: "free_objects S = set (drop (Suc (used R)) (slots R)) - {NULL}"
    by (simp add: free_objects_def)
  have lt: "used R < length (slots R)" using off(1) by (simp add: offered_def)
  have "drop (used R) (slots R) = slots R ! used R # drop (Suc (used R)) (slots R)"
    by (rule Cons_nth_drop_Suc[OF lt, symmetric])
  then have free': "free_objects R = free_objects S \<union> ({slots R ! used R} - {NULL})"
    unfolding free by (auto simp: free_objects_def)
  have pS: "p \<notin> free_objects S" using offered_fresh(2)[OF tab off(1)] by (simp add: free)
  have stack: "b \<longleftrightarrow> p \<notin> stack" by (rule pool_took[OF ok room took p])
  have eqp: "slots R ! used R = NULL \<or> slots R ! used R = p"
    using off(1) by (auto simp: offered_def split: if_splits)
  have "pool_ok key owned heaped cap stack S"
    unfolding pool_ok_def
  proof (intro conjI ballI allI impI)
    show "registry_ok key cap S" "NULL \<notin> stack" by (rule S(2), rule pool_okD(2)[OF ok])
    show "free_objects S \<subseteq> stack" using free' pool_okD(3)[OF ok] by blast
    show "stack \<subseteq> set (items S) \<union> free_objects S"
      using pool_okD(4)[OF ok] free' eqp by (auto simp: set)
    show "owned jt" "heaped jt \<longleftrightarrow> q \<notin> stack" if "q \<in> set (items S)" "mem S q = Some jt" for q jt
      using that pool_okD(5)[OF ok, of q jt] it stack by (auto simp: set S(4) poke_def split: if_splits)
    show "\<not> owned jt" if "q \<in> free_objects S" "mem S q = Some jt" for q jt
      using that pS pool_okD(6)[OF ok, of q jt] free' by (auto simp: S(4) poke_def split: if_splits)
  qed
  then show thesis using that[OF S(1) _ S(5) set] S(4) by (simp add: poke_def)
qed

text \<open>A registration that fails after taking its object leaves the table as it was.\<close>

lemma pool_abort:
  assumes ok: "pool_ok key owned heaped cap stack R" and room: "used R < cap"
    and took: "take_object R h = Some (p, b, h')" and p: "p \<noteq> NULL" and it: "\<not> owned it"
  shows "pool_ok key owned heaped cap stack (poke p (if b then None else Some it) R)"
    "items (poke p (if b then None else Some it) R) = items R"
proof -
  note tab = pool_okD(1)[OF ok]
  have off: "offered R p" "b \<longleftrightarrow> p \<notin> set (slots R)"
    using take_object_spec[OF tab room, of h] took p by auto
  have fresh: "p \<notin> set (items R)" by (rule offered_fresh(1)[OF tab off(1)])
  let ?S = "poke p (if b then None else Some it) R"
  have same: "registry_ok key cap ?S" "items ?S = items R"
    using poke_free_ok[OF tab fresh, of "if b then None else Some it"] off(2) by auto
  then show "items ?S = items R" by simp
  have free: "free_objects ?S = free_objects R" by (simp add: free_objects_def poke_def)
  show "pool_ok key owned heaped cap stack ?S"
    using pool_okD[OF ok] fresh it unfolding pool_ok_def free same(2)
    by (auto simp: poke_def same(1)[unfolded poke_def] split: if_splits)
qed

text \<open>Removing an item: an allocated one is released, one of the stack is offered again.\<close>

lemma pool_remove:
  fixes key :: "'i \<Rightarrow> ('k :: linorder) option"
  assumes ok: "pool_ok key owned heaped cap stack R" and p: "p \<in> set (items R)"
    and it: "mem R p = Some it" and jt: "\<not> owned jt"
  obtains S where
    "table_remove (table_index p R) (if heaped it then NULL else p)
       (poke p (if heaped it then None else Some jt) R) = Some S"
    "pool_ok key owned heaped cap stack S" "set (items S) = set (items R) - {p}"
    "table_index p R < used R" "mem S = (mem R)(p := if heaped it then None else Some jt)"
proof -
  note tab = pool_okD(1)[OF ok]
  let ?free = "if heaped it then NULL else p" and ?jt = "if heaped it then None else Some jt"
  have cond: "?free = NULL \<or> (?free = p \<and> ?jt \<noteq> None)" by simp
  obtain S where S: "table_remove (table_index p R) ?free (poke p ?jt R) = Some S"
    "registry_ok key cap S" "set (items S) = set (items R) - {p}" "mem S = mem (poke p ?jt R)"
    "used S = used R - 1" "slots S = items S @ ?free # drop (used R) (slots R)"
    using table_remove_spec[OF tab p refl cond] by metis
  have pz: "p \<noteq> NULL" using registry_okD(4)[OF tab] p by blast
  have heap: "heaped it \<longleftrightarrow> p \<notin> stack" using pool_okD(5)[OF ok p it] by blast
  have "drop (used S) (slots S) = ?free # drop (used R) (slots R)"
    using registry_okD(8)[OF S(2)] by (subst S(6)) simp
  then have free: "free_objects S = free_objects R \<union> ({?free} - {NULL})"
    by (auto simp: free_objects_def)
  have pf: "p \<notin> free_objects R" using free_disjoint[OF tab] p by blast
  have "pool_ok key owned heaped cap stack S"
    unfolding pool_ok_def
  proof (intro conjI ballI allI impI)
    show "registry_ok key cap S" "NULL \<notin> stack" by (rule S(2), rule pool_okD(2)[OF ok])
    show "free_objects S \<subseteq> stack" using pool_okD(3)[OF ok] heap by (auto simp: free)
    show "stack \<subseteq> set (items S) \<union> free_objects S"
      using pool_okD(4)[OF ok] heap pz by (auto simp: free S(3))
    show "owned kt" "heaped kt \<longleftrightarrow> q \<notin> stack" if "q \<in> set (items S)" "mem S q = Some kt" for q kt
      using that pool_okD(5)[OF ok, of q kt] by (auto simp: S(3,4) poke_def split: if_splits)
    show "\<not> owned kt" if "q \<in> free_objects S" "mem S q = Some kt" for q kt
      using that pf jt pool_okD(6)[OF ok, of q kt] by (auto simp: S(4) free poke_def split: if_splits)
  qed
  then show thesis
    using that[OF S(1) _ S(3)] table_index_spec(1)[OF tab] p S(4) by (simp add: poke_def)
qed

text \<open>An update of an object that keeps its key, its owner and where it lives.\<close>

lemma pool_update:
  assumes ok: "pool_ok key owned heaped cap stack R" and it: "mem R p = Some it"
    and same: "key jt = key it" "owned jt = owned it" "heaped jt = heaped it"
  shows "pool_ok key owned heaped cap stack (poke p (Some jt) R)"
    "items (poke p (Some jt) R) = items R" "table_keys key (poke p (Some jt) R) = table_keys key R"
proof -
  let ?S = "poke p (Some jt) R"
  note upd = poke_ok[OF pool_okD(1)[OF ok] it same(1)]
  show "items ?S = items R" "table_keys key ?S = table_keys key R" by (rule upd(2), rule upd(3))
  have free: "free_objects ?S = free_objects R" by (simp add: free_objects_def poke_def)
  show "pool_ok key owned heaped cap stack ?S"
    unfolding pool_ok_def free upd(2)
    using upd(1) pool_okD(2-4)[OF ok] pool_okD(5,6)[OF ok, of p it] pool_okD(5,6)[OF ok] it same
    by (auto simp: poke_def)
qed

text \<open>An item that belongs to the library is in the table, unless its address is unknown to it.\<close>

lemma pool_owned:
  assumes "pool_ok key owned heaped cap stack R" and "mem R p = Some it" and "owned it"
    and "p \<in> set (slots R)" and "p \<noteq> NULL"
  shows "p \<in> set (items R)"
  using pool_okD(6)[OF assms(1), of p it] slots_objects[of R] assms(2-5) by auto

text \<open>The pool the library starts with: the objects of the stack, all free.\<close>

definition pool_initial :: "('i \<Rightarrow> bool) \<Rightarrow> nat \<Rightarrow> ptr list \<Rightarrow> 'i registry \<Rightarrow> bool" where
  "pool_initial owned cap stack R \<longleftrightarrow>
     NULL \<notin> set stack \<and> distinct stack \<and> length stack \<le> cap \<and> used R = 0 \<and>
     slots R = stack @ replicate (cap - length stack) NULL \<and>
     (\<forall>p \<in> set stack. \<exists>it. mem R p = Some it \<and> \<not> owned it)"

lemma pool_initial_ok:
  assumes "pool_initial owned cap stack R"
  shows "pool_ok key owned heaped cap (set stack) R" "items R = []"
proof -
  have "filter (\<lambda>p. p \<noteq> NULL) (slots R) = stack"
    using assms by (auto simp: pool_initial_def intro: filter_True)
  moreover show "items R = []" using assms by (simp add: items_def pool_initial_def)
  ultimately show "pool_ok key owned heaped cap (set stack) R"
    using assms
    by (auto simp: pool_ok_def registry_ok_def free_objects_def pool_initial_def table_keys_def)
qed

lemma pool_sorted:
  "pool_ok key owned heaped cap stack R \<Longrightarrow> sorted (map (\<lambda>p. the (item_key key R p)) (items R))"
  using registry_okD(7)[OF pool_okD(1)] by (fastforce simp: table_keys_def)

text \<open>What allocating by name does to a pool whose order the comparison follows.\<close>

lemma table_allocate_spec:
  fixes key :: "'i \<Rightarrow> ('k :: linorder) option"
  assumes ok: "pool_ok key owned heaped cap stack R"
    and gt: "\<And>R p a nm i. registry_ok key cap R \<Longrightarrow> i < used R \<Longrightarrow> p \<notin> set (items R) \<Longrightarrow>
      gt (poke p a R) nm i = Some (table_keys key R ! i < k nm)"
    and mk: "\<And>nm b. key (mk (take IOT_NAME_MAX_LEN nm) b) = Some (k nm)"
      "\<And>nm b. owned (mk nm b)" "\<And>nm b. heaped (mk nm b) \<longleftrightarrow> b"
    and zero: "\<not> owned zero"
  obtains (none) S h' where "table_allocate cap gt mk zero R h name = Some (NULL, S, h')"
      "pool_ok key owned heaped cap stack S" "items S = items R"
  | (stray) p S h' where "table_allocate cap gt mk zero R h name = Some (p, S, h')" "p \<noteq> NULL"
      "pool_ok key owned heaped cap stack S" "items S = items R" "p \<in> stack" "mem S p = Some zero"
  | (new) p S h' nm where "table_allocate cap gt mk zero R h name = Some (p, S, h')" "p \<noteq> NULL"
      "pool_ok key owned heaped cap stack S" "p \<notin> set (items R)" "set (items S) = insert p (set (items R))"
      "name = Some nm" "nm \<noteq> []" "mem S = (mem R)(p \<mapsto> mk (take IOT_NAME_MAX_LEN nm) (p \<notin> stack))"
proof (cases "\<exists>nm. name = Some nm \<and> nm \<noteq> [] \<and> used R < cap")
  case False
  then have "table_allocate cap gt mk zero R h name = Some (NULL, R, h)"
    by (auto simp: table_allocate_def split: option.split)
  then show thesis using none ok by blast
next
  case True
  then obtain nm where nm: "name = Some nm" "nm \<noteq> []" and room: "used R < cap" by blast
  obtain p b h1 where took: "take_object R h = Some (p, b, h1)"
    using take_object_spec[OF pool_okD(1)[OF ok] room] by metis
  obtain g h2 where grab: "os_grab h1 = (g, h2)" by fastforce
  note body = table_allocate_def nm room took grab
  show thesis
  proof (cases "p = NULL")
    case True
    then have "table_allocate cap gt mk zero R h name = Some (NULL, R, h1)" by (simp add: body)
    then show thesis using none ok by blast
  next
    case p: False
    have heap: "b \<longleftrightarrow> p \<notin> stack" by (rule pool_took[OF ok room took p])
    note ab = pool_abort[OF ok room took p zero]
    consider "\<not> g" "b" | "\<not> g" "\<not> b" | "g" by blast
    then show thesis
    proof cases
      case 1
      then have "table_allocate cap gt mk zero R h name = Some (NULL, poke p None R, h2)"
        using p by (simp add: body Let_def)
      then show thesis using none ab 1 by simp
    next
      case 2
      then have "table_allocate cap gt mk zero R h name = Some (p, poke p (Some zero) R, h2)"
        using p by (simp add: body Let_def)
      then show thesis
        by (rule stray) (use ab 2 p heap in \<open>simp_all add: poke_def\<close>)
    next
      case 3
      let ?it = "mk (take IOT_NAME_MAX_LEN nm) b"
      obtain S where S: "table_insert (gt (poke p (Some ?it) R) nm) p (poke p (Some ?it) R) = Some S"
        "pool_ok key owned heaped cap stack S" "p \<notin> set (items R)" "set (items S) = insert p (set (items R))"
        "mem S = (mem R)(p \<mapsto> ?it)"
        by (rule pool_insert[OF ok room took p mk(1) mk(2) mk(3) gt[OF pool_okD(1)[OF ok]]])
      have "table_allocate cap gt mk zero R h name = Some (p, S, h2)"
        using p 3 S(1) by (simp add: body Let_def)
      then show thesis
        by (rule new[OF _ p S(2-4) nm]) (simp add: heap S(5))
    qed
  qed
qed

section \<open>The contract of an ordered table\<close>

text \<open>What happens to a table, and the set of elements a history of events leaves.\<close>

datatype 'e table_event = Added 'e | Removed 'e | Kept

fun replay :: "'e table_event list \<Rightarrow> 'e set \<Rightarrow> 'e set" where
  "replay [] A = A"
| "replay (Added e # evs) A = replay evs (insert e A)"
| "replay (Removed e # evs) A = replay evs (A - {e})"
| "replay (Kept # evs) A = replay evs A"

fun legal :: "'e table_event list \<Rightarrow> 'e set \<Rightarrow> bool" where
  "legal [] A \<longleftrightarrow> True"
| "legal (Added e # evs) A \<longleftrightarrow> e \<notin> A \<and> legal evs (insert e A)"
| "legal (Removed e # evs) A \<longleftrightarrow> e \<in> A \<and> legal evs (A - {e})"
| "legal (Kept # evs) A \<longleftrightarrow> legal evs A"

inductive table_run ::
    "('t \<Rightarrow> 'e \<Rightarrow> 't \<Rightarrow> bool) \<Rightarrow> ('t \<Rightarrow> 'e \<Rightarrow> 't \<Rightarrow> bool) \<Rightarrow> ('t \<Rightarrow> 't \<Rightarrow> bool) \<Rightarrow>
     't \<Rightarrow> 'e table_event list \<Rightarrow> 't \<Rightarrow> bool"
  for adds removes keeps where
  stop: "table_run adds removes keeps t [] t"
| add: "adds t e u \<Longrightarrow> table_run adds removes keeps u evs v \<Longrightarrow>
    table_run adds removes keeps t (Added e # evs) v"
| remove: "removes t e u \<Longrightarrow> table_run adds removes keeps u evs v \<Longrightarrow>
    table_run adds removes keeps t (Removed e # evs) v"
| keep: "keeps t u \<Longrightarrow> table_run adds removes keeps u evs v \<Longrightarrow>
    table_run adds removes keeps t (Kept # evs) v"

inductive_cases table_run_NilE: "table_run adds removes keeps t [] v"

locale ordered_table =
  fixes wf :: "'t \<Rightarrow> bool" and elems :: "'t \<Rightarrow> 'e list" and key :: "'t \<Rightarrow> 'e \<Rightarrow> 'k :: linorder"
    and cap :: nat and adds removes :: "'t \<Rightarrow> 'e \<Rightarrow> 't \<Rightarrow> bool" and keeps :: "'t \<Rightarrow> 't \<Rightarrow> bool"
  assumes wf_distinct: "wf t \<Longrightarrow> distinct (elems t)"
    and wf_sorted: "wf t \<Longrightarrow> sorted (map (key t) (elems t))"
    and wf_cap: "wf t \<Longrightarrow> length (elems t) \<le> cap"
    and adds_wf: "wf t \<Longrightarrow> adds t e u \<Longrightarrow> wf u"
    and adds_new: "wf t \<Longrightarrow> adds t e u \<Longrightarrow> e \<notin> set (elems t)"
    and adds_elems: "wf t \<Longrightarrow> adds t e u \<Longrightarrow> set (elems u) = insert e (set (elems t))"
    and removes_wf: "wf t \<Longrightarrow> removes t e u \<Longrightarrow> wf u"
    and removes_old: "wf t \<Longrightarrow> removes t e u \<Longrightarrow> e \<in> set (elems t)"
    and removes_elems: "wf t \<Longrightarrow> removes t e u \<Longrightarrow> set (elems u) = set (elems t) - {e}"
    and keeps_wf: "wf t \<Longrightarrow> keeps t u \<Longrightarrow> wf u"
    and keeps_elems: "wf t \<Longrightarrow> keeps t u \<Longrightarrow> set (elems u) = set (elems t)"
begin

lemma run_wf: "table_run adds removes keeps t evs u \<Longrightarrow> wf t \<Longrightarrow> wf u"
  by (induction rule: table_run.induct) (auto intro: adds_wf removes_wf keeps_wf)

lemma run_replay:
  "table_run adds removes keeps t evs u \<Longrightarrow> wf t \<Longrightarrow>
   set (elems u) = replay evs (set (elems t)) \<and> legal evs (set (elems t))"
proof (induction rule: table_run.induct)
  case (add t e u evs v)
  then show ?case using adds_wf adds_new adds_elems by auto
next
  case (remove t e u evs v)
  then show ?case using removes_wf removes_old removes_elems by auto
next
  case (keep t u evs v)
  then show ?case using keeps_wf keeps_elems by auto
qed simp

lemma run_card:
  assumes "table_run adds removes keeps t evs u" and "wf t"
  shows "card (replay evs (set (elems t))) \<le> cap"
proof -
  have "card (set (elems u)) \<le> length (elems u)" by (rule card_length)
  then show ?thesis
    using run_replay[OF assms] wf_cap[OF run_wf[OF assms]] by simp
qed

text \<open>The table is its set of elements in the order of their keys.\<close>

lemma run_table:
  assumes "table_run adds removes keeps t evs u" and "wf t"
  shows "set (elems u) = replay evs (set (elems t)) \<and> distinct (elems u) \<and>
    sorted (map (key u) (elems u)) \<and> length (elems u) \<le> cap"
  using run_replay[OF assms] run_wf[OF assms] wf_distinct wf_sorted wf_cap by simp

end

text \<open>A pool of objects is an ordered table as soon as its operations respect it.\<close>

lemma pool_ordered_table:
  fixes key :: "'i \<Rightarrow> ('k :: linorder) option" and tab :: "'t \<Rightarrow> 'i registry"
  assumes adds: "\<And>t p u. adds t p u \<Longrightarrow> pool_ok key owned heaped cap stack (tab t) \<Longrightarrow>
      pool_ok key owned heaped cap stack (tab u) \<and> p \<notin> set (items (tab t)) \<and>
      set (items (tab u)) = insert p (set (items (tab t)))"
    and removes: "\<And>t p u. removes t p u \<Longrightarrow> pool_ok key owned heaped cap stack (tab t) \<Longrightarrow>
      pool_ok key owned heaped cap stack (tab u) \<and> p \<in> set (items (tab t)) \<and>
      set (items (tab u)) = set (items (tab t)) - {p}"
    and keeps: "\<And>t u. keeps t u \<Longrightarrow> pool_ok key owned heaped cap stack (tab t) \<Longrightarrow>
      pool_ok key owned heaped cap stack (tab u) \<and> items (tab u) = items (tab t)"
  shows "ordered_table (\<lambda>t. pool_ok key owned heaped cap stack (tab t)) (\<lambda>t. items (tab t))
    (\<lambda>t p. the (item_key key (tab t) p)) cap adds removes keeps"
proof
  fix t assume ok: "pool_ok key owned heaped cap stack (tab t)"
  note table = pool_okD(1)[OF ok]
  show "distinct (items (tab t))" by (rule items_distinct[OF table])
  show "sorted (map (\<lambda>p. the (item_key key (tab t) p)) (items (tab t)))" by (rule pool_sorted[OF ok])
  show "length (items (tab t)) \<le> cap" using registry_okD(2,8)[OF table] by simp
qed (use adds removes keeps in \<open>auto 0 3\<close>)

end
