(* ===== verification/Plugin.thy ===== *)
theory Plugin
  imports Options Registry
begin

text \<open>
  The plug-in registry and the operation pipeline of \<open>src/src/api/iot_plugin.c\<close>.

  A plug-in is named by its slot number in \<open>lib->plugin\<close>. Its callbacks are parameters of the
  model, kept in its record: functions on an abstract world \<open>'s\<close> that return a status; an
  absent function pointer is \<open>None\<close>. Callbacks do not change the registry itself. \<open>execute\<close>
  receives a pointer to the pipeline's loop counter, so it also returns the step number.
\<close>

abbreviation IOT_PLUGIN_MAX :: nat where "IOT_PLUGIN_MAX \<equiv> 5"

abbreviation (input) IOT_STEP_BEFORE :: nat where "IOT_STEP_BEFORE \<equiv> 0"
abbreviation (input) IOT_STEP_AFTER :: nat where "IOT_STEP_AFTER \<equiv> 2"

type_synonym pid = nat

text \<open>What \<open>execute\<close> is called with: operation, transaction, time left, step.\<close>

type_synonym 'o request = "'o \<times> u8 option \<times> u32 \<times> nat"

record ('s, 'o) iot_plugin =
  p_name :: "string option"
  p_info :: "bool \<times> int"
  p_enable :: "('s \<Rightarrow> iot_status \<times> 's) option"
  p_disable :: "(bool \<Rightarrow> 's \<Rightarrow> iot_status \<times> 's) option"
  p_execute :: "('o request \<Rightarrow> 's \<Rightarrow> iot_status \<times> nat \<times> 's) option"
  p_initialize :: "('s \<Rightarrow> 's) option"
  p_terminate :: "('s \<Rightarrow> 's) option"

record ('s, 'o) plugin_lib =
  plugins :: "pid \<Rightarrow> ('s, 'o) iot_plugin"
  plugin_ptr :: "pid option list"
  plugin_count :: nat
  plugin_enabled :: "(pid option \<times> int) list"
  plugin_enabled_count :: nat
  transaction_count :: u8

section \<open>Enabling and disabling\<close>

text \<open>The index of the first enabled entry holding \<open>p\<close>, or the count.\<close>

definition enabled_index :: "('s, 'o) plugin_lib \<Rightarrow> pid option \<Rightarrow> nat" where
  "enabled_index lib p =
     length (takeWhile (\<lambda>e. fst e \<noteq> p) (take (plugin_enabled_count lib) (plugin_enabled lib)))"

definition iot_plugin_disable_by_ptr ::
    "('s, 'o) plugin_lib \<Rightarrow> pid option \<Rightarrow> bool \<Rightarrow> 's \<Rightarrow>
     (iot_status \<times> ('s, 'o) plugin_lib \<times> 's) option" where
  "iot_plugin_disable_by_ptr lib p force s =
     (let i = enabled_index lib p in
      case p of
        Some q \<Rightarrow>
          if i < plugin_enabled_count lib
          then (let (result, s) = (case p_disable (plugins lib q) of
                    Some disable \<Rightarrow> disable force s | None \<Rightarrow> (STATUS_SUCCESS, s))
            in if result = STATUS_SUCCESS \<or> force
               then do {
                 let n = plugin_enabled_count lib - 1;
                 arr \<leftarrow> memmove i (i + 1) (n - i) (plugin_enabled lib);
                 Some (result, lib\<lparr>plugin_enabled := arr, plugin_enabled_count := n\<rparr>, s)
               }
               else Some (result, lib, s))
          else Some (STATUS_NOT_FOUND, lib, s)
      | None \<Rightarrow> Some (STATUS_NOT_FOUND, lib, s))"

text \<open>Search of a list of plug-in pointers by name; a NULL name is undefined in \<open>os_strcmp\<close>.\<close>

fun enabled_by_name ::
    "('s, 'o) plugin_lib \<Rightarrow> (pid option \<times> int) list \<Rightarrow> string \<Rightarrow> pid option option" where
  "enabled_by_name lib [] name = Some None"
| "enabled_by_name lib ((ptr, ord) # es) name =
     (case ptr of
        Some p \<Rightarrow> do {
          nm \<leftarrow> p_name (plugins lib p);
          (if nm = name then Some (Some p) else enabled_by_name lib es name)
        }
      | None \<Rightarrow> enabled_by_name lib es name)"

definition iot_plugin_disable ::
    "('s, 'o) plugin_lib \<Rightarrow> string option \<Rightarrow> 's \<Rightarrow> (iot_status \<times> ('s, 'o) plugin_lib \<times> 's) option" where
  "iot_plugin_disable lib name s =
     (case name of
        Some name \<Rightarrow> do {
          p \<leftarrow> enabled_by_name lib (take (plugin_enabled_count lib) (plugin_enabled lib)) name;
          iot_plugin_disable_by_ptr lib p False s
        }
      | None \<Rightarrow> Some (STATUS_BAD_PARAMETER, lib, s))"

text \<open>
  The loop disables the last enabled plug-in by force until none is left. It never ends when
  the last entry is a NULL pointer, hence the fixed point over \<open>option\<close>.
\<close>

partial_function (option) disable_all_loop ::
    "('s, 'o) plugin_lib \<Rightarrow> 's \<Rightarrow> (('s, 'o) plugin_lib \<times> 's) option" where
  "disable_all_loop lib s =
     (if plugin_enabled_count lib = 0 then Some (lib, s)
      else Option.bind (load (plugin_enabled lib) (plugin_enabled_count lib - 1))
        (\<lambda>e. Option.bind (iot_plugin_disable_by_ptr lib (fst e) True s)
          (\<lambda>r. disable_all_loop (fst (snd r)) (snd (snd r)))))"

definition iot_plugin_disable_all ::
    "('s, 'o) plugin_lib \<Rightarrow> 's \<Rightarrow> (iot_status \<times> ('s, 'o) plugin_lib \<times> 's) option" where
  "iot_plugin_disable_all lib s = do {
     (lib, s) \<leftarrow> disable_all_loop lib s;
     Some (STATUS_BAD_PARAMETER, lib, s)
   }"

text \<open>
  An enabled plug-in is found by the first loop, which clears \<open>p\<close>; the status \<open>EXISTS\<close> it sets
  is overwritten by the assignment that follows.
\<close>

definition iot_plugin_enable_by_ptr ::
    "('s, 'o) plugin_lib \<Rightarrow> pid option \<Rightarrow> 's \<Rightarrow> (iot_status \<times> ('s, 'o) plugin_lib \<times> 's) option" where
  "iot_plugin_enable_by_ptr lib p s =
     (case p of
        None \<Rightarrow> Some (STATUS_NOT_FOUND, lib, s)
      | Some q \<Rightarrow>
          let n = plugin_enabled_count lib; arr = plugin_enabled lib;
              known = list_ex (\<lambda>e. fst e = Some q) (take n arr);
              (info, order) = p_info (plugins lib q)
          in if \<not> known \<and> info
             then (let cur_idx = insert_pos (\<lambda>i. snd (arr ! i) < order) 0 0 n;
                       (result, s) = (case p_enable (plugins lib q) of
                          Some enable \<Rightarrow> enable s | None \<Rightarrow> (STATUS_SUCCESS, s))
                   in if result = STATUS_SUCCESS
                      then do {
                        arr \<leftarrow> memmove (cur_idx + 1) cur_idx (n - cur_idx) arr;
                        arr \<leftarrow> store cur_idx (Some q, order) arr;
                        Some (result, lib\<lparr>plugin_enabled := arr, plugin_enabled_count := n + 1\<rparr>, s)
                      }
                      else Some (result, lib, s))
             else Some (STATUS_FAILURE, lib, s))"

text \<open>Search of the loaded plug-ins; the result is the index after the match, as in the code.\<close>

fun loaded_by_name ::
    "('s, 'o) plugin_lib \<Rightarrow> pid option list \<Rightarrow> string \<Rightarrow> nat \<Rightarrow> pid option \<times> nat" where
  "loaded_by_name lib [] name i = (None, i)"
| "loaded_by_name lib (ptr # ps) name i =
     (case ptr of
        Some p \<Rightarrow> if p_name (plugins lib p) = Some name then (Some p, i + 1)
                  else loaded_by_name lib ps name (i + 1)
      | None \<Rightarrow> loaded_by_name lib ps name (i + 1))"

definition iot_plugin_enable ::
    "('s, 'o) plugin_lib \<Rightarrow> string option \<Rightarrow> 's \<Rightarrow> (iot_status \<times> ('s, 'o) plugin_lib \<times> 's) option" where
  "iot_plugin_enable lib name s =
     (case name of
        Some name \<Rightarrow>
          if plugin_enabled_count lib < IOT_PLUGIN_MAX
          then iot_plugin_enable_by_ptr lib
                 (fst (loaded_by_name lib (take (plugin_count lib) (plugin_ptr lib)) name 0)) s
          else Some (STATUS_FULL, lib, s)
      | None \<Rightarrow> Some (STATUS_BAD_PARAMETER, lib, s))"

section \<open>Performing an operation\<close>

text \<open>
  One pass over the enabled plug-ins; \<open>i\<close> is the loop counter of the caller, which \<open>execute\<close>
  may change, and \<open>result\<close> the worst status so far.
\<close>

fun perform_pass ::
    "('s, 'o) plugin_lib \<Rightarrow> 'o \<Rightarrow> u8 option \<Rightarrow> u32 \<Rightarrow> (pid option \<times> int) list \<Rightarrow> nat \<Rightarrow> iot_status \<Rightarrow> 's
     \<Rightarrow> nat \<times> iot_status \<times> 's" where
  "perform_pass lib op txn time [] i result s = (i, result, s)"
| "perform_pass lib op txn time ((ptr, ord) # es) i result s =
     (case ptr of
        Some p \<Rightarrow>
          (case p_execute (plugins lib p) of
             Some execute \<Rightarrow>
               let (interim_result, i, s) = execute (op, txn, time, i) s
               in perform_pass lib op txn time es i
                    (if result < interim_result then interim_result else result) s
           | None \<Rightarrow> perform_pass lib op txn time es i result s)
      | None \<Rightarrow> perform_pass lib op txn time es i result s)"

partial_function (option) perform_loop ::
    "('s, 'o) plugin_lib \<Rightarrow> 'o \<Rightarrow> u8 option \<Rightarrow> u32 \<Rightarrow> bool \<Rightarrow> nat \<Rightarrow> iot_status \<Rightarrow> 's
     \<Rightarrow> (iot_status \<times> 's) option" where
  "perform_loop lib op txn time ignore_time_out i result s =
     (if i \<le> IOT_STEP_AFTER \<and> (ignore_time_out \<or> 0 < time)
      then (case perform_pass lib op txn time
                   (take (plugin_enabled_count lib) (plugin_enabled lib)) i result s of
              (i, result, s) \<Rightarrow> perform_loop lib op txn time ignore_time_out (i + 1) result s)
      else Some (result, s))"

definition next_transaction :: "u8 \<Rightarrow> u8 \<times> u8" where
  "next_transaction n = (let n = (if n = 0 then n + 1 else n) in (n, n + 1))"

text \<open>
  \<open>options\<close> is the option map with its heap, if one is given; the time limit it names is read
  as a UINT32 and added to the caller's, wrapping around. Result: the status, what is stored
  through \<open>txn\<close> and \<open>max_time_out\<close> (when asked for), the library and the world.
\<close>

definition option_time_out ::
    "(string \<Rightarrow> int) \<Rightarrow> (string \<Rightarrow> int) \<Rightarrow> (heap \<times> iot_options) option \<Rightarrow> u32 option" where
  "option_time_out f g options =
     (case options of
        None \<Rightarrow> Some 0
      | Some (h, t) \<Rightarrow> do {
          (_, out) \<leftarrow> iot_options_get_args f g h t (Some ''max_time_out'') True TYPE_UINT32 True;
          Some (case out of Some (OutInt i) \<Rightarrow> word_of_int i | _ \<Rightarrow> 0)
        })"

definition iot_plugin_perform ::
    "(string \<Rightarrow> int) \<Rightarrow> (string \<Rightarrow> int) \<Rightarrow> ('s, 'o) plugin_lib \<Rightarrow> bool \<Rightarrow> u32 option \<Rightarrow> 'o \<Rightarrow>
     (heap \<times> iot_options) option \<Rightarrow> 's \<Rightarrow>
     (iot_status \<times> u8 option \<times> u32 option \<times> ('s, 'o) plugin_lib \<times> 's) option" where
  "iot_plugin_perform f g lib txn max_time_out op options s = do {
     u32 \<leftarrow> option_time_out f g options;
     let time_remaining = u32 + (case max_time_out of Some t \<Rightarrow> t | None \<Rightarrow> 0);
     let (t, next) = next_transaction (transaction_count lib);
     let lib = (if txn then lib\<lparr>transaction_count := next\<rparr> else lib);
     let txn = (if txn then Some t else None);
     (result, s) \<leftarrow> perform_loop lib op txn time_remaining (time_remaining = 0) IOT_STEP_BEFORE
       STATUS_SUCCESS s;
     Some (result, txn, map_option (\<lambda>_. time_remaining) max_time_out, lib, s)
   }"

section \<open>Loading and unloading\<close>

definition iot_plugin_initialize :: "('s, 'o) plugin_lib \<Rightarrow> pid \<Rightarrow> 's \<Rightarrow> 's" where
  "iot_plugin_initialize lib p s =
     (case p_initialize (plugins lib p) of Some f \<Rightarrow> f s | None \<Rightarrow> s)"

definition iot_plugin_terminate :: "('s, 'o) plugin_lib \<Rightarrow> pid \<Rightarrow> 's \<Rightarrow> 's" where
  "iot_plugin_terminate lib p s =
     (case p_terminate (plugins lib p) of Some f \<Rightarrow> f s | None \<Rightarrow> s)"

text \<open>
  A dynamic library is opened by the operating system; what it finds there is a parameter:
  \<open>None\<close> when the file cannot be opened, otherwise what \<open>iot_info\<close> reports (success, minimum
  and maximum library version) and the plug-in \<open>iot_load\<close> fills in, when both exist.
\<close>

definition iot_plugin_load ::
    "(string \<Rightarrow> ((bool \<times> u32 \<times> u32) \<times> ('s, 'o) iot_plugin) option option) \<Rightarrow> u32 \<Rightarrow>
     ('s, 'o) plugin_lib \<Rightarrow> string option \<Rightarrow> 's \<Rightarrow>
     (iot_status \<times> ('s, 'o) plugin_lib \<times> 's) option" where
  "iot_plugin_load open_library ver lib file s =
     (case file of
        None \<Rightarrow> Some (STATUS_BAD_PARAMETER, lib, s)
      | Some file \<Rightarrow>
          if plugin_count lib < IOT_PLUGIN_MAX
          then (case open_library file of
                  Some (Some ((True, mn, mx), p)) \<Rightarrow>
                    if (mn = 0 \<or> ver \<le> mn) \<and> (mx = 0 \<or> mx \<le> ver)
                    then do {
                      let q = plugin_count lib;
                      let lib = lib\<lparr>plugins := (plugins lib)(q := p)\<rparr>;
                      let s = iot_plugin_initialize lib q s;
                      let lib = lib\<lparr>plugin_count := plugin_count lib + 1\<rparr>;
                      (_, lib, s) \<leftarrow> iot_plugin_enable_by_ptr lib (Some q) s;
                      Some (STATUS_SUCCESS, lib, s)
                    }
                    else Some (STATUS_NOT_SUPPORTED, lib, s)
                | _ \<Rightarrow> Some (STATUS_NOT_EXECUTABLE, lib, s))
          else Some (STATUS_FULL, lib, s))"

text \<open>
  After the search \<open>i\<close> is one past the plug-in found, and the number of pointers to move,
  \<open>plugin_count - i\<close>, is computed on unsigned integers: for the last plug-in it wraps around.
\<close>

definition iot_plugin_unload ::
    "('s, 'o) plugin_lib \<Rightarrow> string option \<Rightarrow> 's \<Rightarrow> (iot_status \<times> ('s, 'o) plugin_lib \<times> 's) option" where
  "iot_plugin_unload lib name s =
     (case name of
        None \<Rightarrow> Some (STATUS_BAD_PARAMETER, lib, s)
      | Some name \<Rightarrow>
          (case loaded_by_name lib (take (plugin_count lib) (plugin_ptr lib)) name 0 of
             (Some p, i) \<Rightarrow> do {
               (_, lib, s) \<leftarrow> iot_plugin_disable_by_ptr lib (Some p) True s;
               let s = iot_plugin_terminate lib p s;
               let n = plugin_count lib - 1;
               arr \<leftarrow> (if n < i then None else memmove i (i + 1) (n - i) (plugin_ptr lib));
               arr \<leftarrow> store n (Some p) arr;
               Some (STATUS_SUCCESS, lib\<lparr>plugin_ptr := arr, plugin_count := n\<rparr>, s)
             }
           | (None, _) \<Rightarrow> Some (STATUS_NOT_FOUND, lib, s)))"

section \<open>The table of enabled plug-ins\<close>

text \<open>
  The abstract value of the table is the list of its used entries. A plug-in lives in one of
  the \<open>IOT_PLUGIN_MAX\<close> slots of the library, is enabled at most once, and the entries are
  ordered by the order number their plug-in reports.
\<close>

definition enabled :: "('s, 'o) plugin_lib \<Rightarrow> (pid option \<times> int) list" where
  "enabled lib = take (plugin_enabled_count lib) (plugin_enabled lib)"

definition plugin_slots :: "pid option set" where
  "plugin_slots = Some ` {..<IOT_PLUGIN_MAX}"

definition plugins_ok :: "('s, 'o) plugin_lib \<Rightarrow> bool" where
  "plugins_ok lib \<longleftrightarrow>
     length (plugin_enabled lib) = IOT_PLUGIN_MAX \<and> plugin_enabled_count lib \<le> IOT_PLUGIN_MAX \<and>
     length (plugin_ptr lib) = IOT_PLUGIN_MAX \<and> plugin_count lib \<le> IOT_PLUGIN_MAX \<and>
     set (plugin_ptr lib) \<subseteq> insert None plugin_slots \<and>
     set (map fst (enabled lib)) \<subseteq> plugin_slots \<and> distinct (map fst (enabled lib)) \<and>
     sorted (map snd (enabled lib))"

lemma plugins_okD:
  assumes "plugins_ok lib"
  shows "length (plugin_enabled lib) = IOT_PLUGIN_MAX" "plugin_enabled_count lib \<le> IOT_PLUGIN_MAX"
    "length (plugin_ptr lib) = IOT_PLUGIN_MAX" "plugin_count lib \<le> IOT_PLUGIN_MAX"
    "set (plugin_ptr lib) \<subseteq> insert None plugin_slots" "set (map fst (enabled lib)) \<subseteq> plugin_slots"
    "distinct (map fst (enabled lib))" "sorted (map snd (enabled lib))"
    "length (enabled lib) = plugin_enabled_count lib"
  using assms by (simp_all add: plugins_ok_def enabled_def)

text \<open>A plug-in that is not enabled leaves room for itself, whatever the caller checked.\<close>

lemma room_for_plugin:
  assumes ok: "plugins_ok lib" and p: "p \<in> plugin_slots" "p \<notin> set (map fst (enabled lib))"
  shows "plugin_enabled_count lib < IOT_PLUGIN_MAX"
proof -
  have fin: "finite plugin_slots" and card: "card plugin_slots = IOT_PLUGIN_MAX"
    by (simp_all add: plugin_slots_def card_image)
  have "set (map fst (enabled lib)) \<subset> plugin_slots"
    using p plugins_okD(6)[OF ok] by blast
  then have "card (set (map fst (enabled lib))) < IOT_PLUGIN_MAX"
    using psubset_card_mono[OF fin] card by metis
  then show ?thesis
    using distinct_card[OF plugins_okD(7)[OF ok]] plugins_okD(9)[OF ok] by simp
qed

lemma set_delete_at: "set (delete_at i xs) \<subseteq> set xs"
  unfolding delete_at_def by (auto dest: in_set_takeD in_set_dropD)

lemma distinct_delete_at: "distinct xs \<Longrightarrow> distinct (delete_at i xs)"
proof -
  assume "distinct xs"
  then have "distinct (take i xs @ drop i xs)" by simp
  moreover have "drop (Suc i) xs = tl (drop i xs)" by (simp add: drop_Suc tl_drop)
  ultimately show ?thesis
    unfolding delete_at_def distinct_append by (cases "drop i xs") auto
qed

lemma distinct_insert_at: "distinct (insert_at i x xs) \<longleftrightarrow> x \<notin> set xs \<and> distinct xs"
proof -
  have "distinct (ys @ x # zs) \<longleftrightarrow> x \<notin> set (ys @ zs) \<and> distinct (ys @ zs)" for ys zs
    by auto
  from this[of "take i xs" "drop i xs"] show ?thesis
    unfolding insert_at_def append_take_drop_id .
qed

text \<open>The \<open>enable\<close> callback of a plug-in, and the status that enabling it ends with.\<close>

definition call_enable :: "('s, 'o) plugin_lib \<Rightarrow> pid \<Rightarrow> 's \<Rightarrow> iot_status \<times> 's" where
  "call_enable lib q s =
     (case p_enable (plugins lib q) of Some enable \<Rightarrow> enable s | None \<Rightarrow> (STATUS_SUCCESS, s))"

definition enable_status :: "('s, 'o) plugin_lib \<Rightarrow> pid option \<Rightarrow> 's \<Rightarrow> iot_status" where
  "enable_status lib p s =
     (if p = None then STATUS_NOT_FOUND
      else if p \<in> set (map fst (enabled lib)) \<or> \<not> fst (p_info (plugins lib (the p))) then STATUS_FAILURE
      else fst (call_enable lib (the p) s))"

lemma enable_by_ptr_spec:
  assumes ok: "plugins_ok lib" and p: "p \<in> insert None plugin_slots"
  obtains r lib' s' where "iot_plugin_enable_by_ptr lib p s = Some (r, lib', s')"
    "plugins_ok lib'" "plugins lib' = plugins lib" "plugin_ptr lib' = plugin_ptr lib"
    "plugin_count lib' = plugin_count lib" "r = enable_status lib p s"
    "r \<noteq> STATUS_SUCCESS \<Longrightarrow> lib' = lib"
    "r = STATUS_SUCCESS \<Longrightarrow> p \<noteq> None \<and> p \<notin> set (map fst (enabled lib)) \<and>
       (\<exists>i \<le> length (enabled lib). enabled lib' =
          insert_at i (p, snd (p_info (plugins lib (the p)))) (enabled lib))"
proof -
  show thesis
  proof (cases p)
    case None
    then show ?thesis
      using that[of STATUS_NOT_FOUND lib s] ok by (simp add: iot_plugin_enable_by_ptr_def enable_status_def)
  next
    case (Some q)
    let ?n = "plugin_enabled_count lib" and ?arr = "plugin_enabled lib"
    obtain info order where info: "p_info (plugins lib q) = (info, order)" by fastforce
    obtain r s1 where en: "(case p_enable (plugins lib q) of Some enable \<Rightarrow> enable s
        | None \<Rightarrow> (STATUS_SUCCESS, s)) = (r, s1)" by fastforce
    have known: "list_ex (\<lambda>e. fst e = Some q) (take ?n ?arr) \<longleftrightarrow> p \<in> set (map fst (enabled lib))"
      unfolding list_ex_iff enabled_def Some by force
    consider (no) "p \<in> set (map fst (enabled lib)) \<or> \<not> info"
      | (err) "p \<notin> set (map fst (enabled lib))" info "r \<noteq> STATUS_SUCCESS"
      | (added) "p \<notin> set (map fst (enabled lib))" info "r = STATUS_SUCCESS" by blast
    then show ?thesis
    proof cases
      case no
      then have "iot_plugin_enable_by_ptr lib p s = Some (STATUS_FAILURE, lib, s)"
        using known info by (auto simp: iot_plugin_enable_by_ptr_def Some Let_def)
      moreover have "enable_status lib p s = STATUS_FAILURE"
        using no Some info by (auto simp: enable_status_def)
      ultimately show ?thesis using that[of STATUS_FAILURE lib s] ok by simp
    next
      case err
      then have "iot_plugin_enable_by_ptr lib p s = Some (r, lib, s1)"
        using known info en by (simp add: iot_plugin_enable_by_ptr_def Some Let_def)
      moreover have "enable_status lib p s = r"
        using err Some info en by (simp add: enable_status_def call_enable_def)
      ultimately show ?thesis using that ok err by metis
    next
      case added
      define ks where "ks = map snd (enabled lib)"
      define i where "i = insert_pos (\<lambda>i. snd (?arr ! i) < order) 0 0 ?n"
      have len: "length ks = ?n" using plugins_okD(9)[OF ok] by (simp add: ks_def)
      have nth: "\<And>j. j < length ks \<Longrightarrow> snd (?arr ! j) = ks ! j"
        unfolding ks_def len using plugins_okD(1,2)[OF ok] by (simp add: enabled_def)
      have srt: "sorted ks" using plugins_okD(8)[OF ok] by (simp add: ks_def)
      note lb = insert_pos_lower_bound[OF srt, of "\<lambda>i. snd (?arr ! i) < order" order,
          unfolded len, folded i_def]
      have i: "i \<le> ?n" by (rule lb(1)) (simp add: nth len)
      have pos: "\<And>j. j < ?n \<Longrightarrow> ks ! j < order \<longleftrightarrow> j < i" by (rule lb(2)) (simp_all add: nth len)
      have lt: "?n < length ?arr"
        using room_for_plugin[OF ok] p Some added plugins_okD(1)[OF ok] by auto
      obtain ys where ys: "memmove (Suc i) i (?n - i) ?arr = Some ys" "length ys = length ?arr"
        "take (Suc ?n) (ys[i := (Some q, order)]) = insert_at i (Some q, order) (take ?n ?arr)"
        using memmove_open_gap[OF i lt, of "(Some q, order)"] by blast
      define lib' where "lib' = lib\<lparr>plugin_enabled := ys[i := (Some q, order)],
        plugin_enabled_count := ?n + 1\<rparr>"
      have en': "enabled lib' = insert_at i (p, order) (enabled lib)"
        using ys by (simp add: enabled_def lib'_def Some)
      have "sorted (map snd (enabled lib'))"
        unfolding en' map_insert_at using sorted_insert_at[OF srt] i pos len
        by (simp add: ks_def)
      moreover have "distinct (map fst (enabled lib'))"
        unfolding en' map_insert_at distinct_insert_at
        using added(1) plugins_okD(7)[OF ok] by simp
      moreover have "set (map fst (enabled lib')) \<subseteq> plugin_slots"
        unfolding en' map_insert_at using p Some plugins_okD(6)[OF ok] by simp
      ultimately have ok': "plugins_ok lib'"
        using plugins_okD[OF ok] lt ys(2) unfolding plugins_ok_def
        by (simp add: lib'_def)
      have "iot_plugin_enable_by_ptr lib p s = Some (r, lib', s1)"
        using known info en added ys i lt
        by (simp add: iot_plugin_enable_by_ptr_def Some Let_def i_def[symmetric] store_def lib'_def)
      moreover have "p \<noteq> None \<and> p \<notin> set (map fst (enabled lib)) \<and>
          (\<exists>i \<le> length (enabled lib). enabled lib' =
            insert_at i (p, snd (p_info (plugins lib (the p)))) (enabled lib))"
        using added(1) en' i info Some plugins_okD(9)[OF ok] by auto
      moreover have "enable_status lib p s = r"
        using added Some info en by (simp add: enable_status_def call_enable_def)
      ultimately show ?thesis using that ok' added(3) by (simp add: lib'_def)
    qed
  qed
qed

lemma enabled_index_eq: "enabled_index lib p = length (takeWhile (\<lambda>e. fst e \<noteq> p) (enabled lib))"
  by (simp add: enabled_index_def enabled_def)

lemma enabled_index_less:
  assumes "plugins_ok lib"
  shows "enabled_index lib p < plugin_enabled_count lib \<longleftrightarrow> p \<in> set (map fst (enabled lib))"
proof -
  have "length (takeWhile P xs) < length xs \<longleftrightarrow> (\<exists>x \<in> set xs. \<not> P x)" for P and xs :: "'c list"
    by (induction xs) auto
  from this[of "\<lambda>e. fst e \<noteq> p" "enabled lib"] show ?thesis
    using plugins_okD(9)[OF assms] by (auto simp: enabled_index_eq)
qed

lemma enabled_index_nth:
  assumes "plugins_ok lib" and "p \<in> set (map fst (enabled lib))"
  shows "fst (enabled lib ! enabled_index lib p) = p"
  using nth_length_takeWhile[of "\<lambda>e. fst e \<noteq> p" "enabled lib"]
    enabled_index_less[OF assms(1), of p] assms(2) plugins_okD(9)[OF assms(1)]
  by (simp add: enabled_index_eq)

text \<open>The \<open>disable\<close> callback of a plug-in, and the library left when the callback allows it.\<close>

definition call_disable ::
    "('s, 'o) plugin_lib \<Rightarrow> bool \<Rightarrow> pid \<Rightarrow> 's \<Rightarrow> iot_status \<times> 's" where
  "call_disable lib force q s =
     (case p_disable (plugins lib q) of Some disable \<Rightarrow> disable force s | None \<Rightarrow> (STATUS_SUCCESS, s))"

lemma disable_by_ptr_spec:
  assumes ok: "plugins_ok lib"
  obtains r lib' s' where "iot_plugin_disable_by_ptr lib p force s = Some (r, lib', s')"
    "plugins_ok lib'" "plugins lib' = plugins lib" "plugin_ptr lib' = plugin_ptr lib"
    "plugin_count lib' = plugin_count lib"
    "p \<notin> set (map fst (enabled lib)) \<Longrightarrow> r = STATUS_NOT_FOUND \<and> lib' = lib \<and> s' = s"
    "p \<in> set (map fst (enabled lib)) \<Longrightarrow> (r, s') = call_disable lib force (the p) s \<and>
       enabled lib' = (if r = STATUS_SUCCESS \<or> force
         then delete_at (enabled_index lib p) (enabled lib) else enabled lib)"
proof -
  let ?n = "plugin_enabled_count lib" and ?i = "enabled_index lib p"
  show thesis
  proof (cases "p \<in> set (map fst (enabled lib))")
    case False
    then have "iot_plugin_disable_by_ptr lib p force s = Some (STATUS_NOT_FOUND, lib, s)"
      using enabled_index_less[OF ok, of p]
      by (cases p) (simp_all add: iot_plugin_disable_by_ptr_def Let_def)
    then show ?thesis using that ok False by blast
  next
    case True
    then obtain q where q: "p = Some q"
      using plugins_okD(6)[OF ok] by (auto simp: plugin_slots_def)
    have i: "?i < ?n" using True enabled_index_less[OF ok] by blast
    obtain r s1 where call: "call_disable lib force q s = (r, s1)" by fastforce
    have body: "iot_plugin_disable_by_ptr lib p force s =
        (if r = STATUS_SUCCESS \<or> force
         then Option.bind (memmove ?i (?i + 1) (?n - 1 - ?i) (plugin_enabled lib))
           (\<lambda>arr. Some (r, lib\<lparr>plugin_enabled := arr, plugin_enabled_count := ?n - 1\<rparr>, s1))
         else Some (r, lib, s1))"
      using i call by (simp add: iot_plugin_disable_by_ptr_def q call_disable_def Let_def)
    show ?thesis
    proof (cases "r = STATUS_SUCCESS \<or> force")
      case False
      then have "iot_plugin_disable_by_ptr lib p force s = Some (r, lib, s1)" using body by simp
      then show ?thesis using that ok True call False q by fastforce
    next
      case rm: True
      obtain ys where ys: "memmove ?i (Suc ?i) (?n - ?i - 1) (plugin_enabled lib) = Some ys"
        "length ys = length (plugin_enabled lib)"
        "take (?n - 1) ys = delete_at ?i (take ?n (plugin_enabled lib))"
        using memmove_close_gap[OF i] plugins_okD(1,2)[OF ok] by metis
      define lib' where "lib' = lib\<lparr>plugin_enabled := ys, plugin_enabled_count := ?n - 1\<rparr>"
      have en: "enabled lib' = delete_at ?i (enabled lib)"
        using ys(3) by (simp add: enabled_def lib'_def)
      have "set (map fst (enabled lib')) \<subseteq> plugin_slots"
        using set_delete_at plugins_okD(6)[OF ok] by (fastforce simp: en map_delete_at)
      moreover have "sorted (map snd (enabled lib'))" "distinct (map fst (enabled lib'))"
        unfolding en map_delete_at
        using sorted_delete_at[OF plugins_okD(8)[OF ok]] distinct_delete_at[OF plugins_okD(7)[OF ok]] .
      ultimately have "plugins_ok lib'"
        using plugins_okD(1-5)[OF ok] ys(2) unfolding plugins_ok_def by (simp add: lib'_def)
      moreover have "?n - 1 - ?i = ?n - ?i - 1" by simp
      then have "iot_plugin_disable_by_ptr lib p force s = Some (r, lib', s1)"
        using body rm ys(1) by (simp add: lib'_def)
      ultimately show ?thesis using that True call rm q en by (simp add: lib'_def)
    qed
  qed
qed

text \<open>What disabling all plug-ins does to the world: the callbacks, by force, from last to first.\<close>

definition disable_all_effect :: "('s, 'o) plugin_lib \<Rightarrow> 's \<Rightarrow> 's" where
  "disable_all_effect lib s =
     fold (\<lambda>e s. snd (call_disable lib True (the (fst e)) s)) (rev (enabled lib)) s"

lemma disable_all_loop_spec:
  assumes "plugins_ok lib"
  shows "\<exists>lib'. disable_all_loop lib s = Some (lib', disable_all_effect lib s) \<and> plugins_ok lib' \<and>
    enabled lib' = [] \<and> plugins lib' = plugins lib \<and> plugin_ptr lib' = plugin_ptr lib \<and>
    plugin_count lib' = plugin_count lib"
  using assms
proof (induction "plugin_enabled_count lib" arbitrary: lib s)
  case 0
  then show ?case
    by (intro exI[of _ lib]) (simp add: disable_all_loop.simps enabled_def disable_all_effect_def)
next
  case (Suc n)
  note ok = Suc.prems
  have len: "length (enabled lib) = Suc n" using plugins_okD(9)[OF ok] Suc.hyps(2) by simp
  then obtain es e where es: "enabled lib = es @ [e]" "length es = n"
    by (metis length_Suc_conv_rev)
  have last: "load (plugin_enabled lib) n = Some e"
  proof -
    have "plugin_enabled lib ! n = enabled lib ! n"
      using Suc.hyps(2) by (simp add: enabled_def flip: Suc.hyps(2))
    moreover have "enabled lib ! n = e" unfolding es(1) by (simp add: nth_append es(2))
    ultimately show ?thesis using plugins_okD(1,2)[OF ok] Suc.hyps(2) by (simp add: load_def)
  qed
  have mem: "fst e \<in> set (map fst (enabled lib))" and new: "fst e \<notin> set (map fst es)"
    using es plugins_okD(7)[OF ok] by auto
  obtain r lib1 s1 where d: "iot_plugin_disable_by_ptr lib (fst e) True s = Some (r, lib1, s1)"
    "plugins_ok lib1" "plugins lib1 = plugins lib" "plugin_ptr lib1 = plugin_ptr lib"
    "plugin_count lib1 = plugin_count lib"
    and d': "(r, s1) = call_disable lib True (the (fst e)) s"
      "enabled lib1 = delete_at (enabled_index lib (fst e)) (enabled lib)"
    using disable_by_ptr_spec[OF ok, of "fst e" True s] mem by metis
  have "takeWhile (\<lambda>x. fst x \<noteq> fst e) (enabled lib) = es"
    using new unfolding es(1) by (subst takeWhile_append2) (auto simp: image_iff)
  then have "enabled lib1 = es"
    using d'(2) es by (simp add: enabled_index_eq delete_at_def)
  moreover from this have "n = plugin_enabled_count lib1"
    using es(2) plugins_okD(9)[OF d(2)] by simp
  moreover have "disable_all_effect lib1 s1 = disable_all_effect lib s"
    using calculation d' d(3) es(1)
    by (simp add: disable_all_effect_def call_disable_def) (metis snd_conv)
  moreover have "disable_all_loop lib s = disable_all_loop lib1 s1"
    using d(1) last Suc.hyps(2)[symmetric] by (subst disable_all_loop.simps) simp
  ultimately show ?case using Suc.hyps(1)[OF _ d(2), of s1] d by metis
qed

section \<open>Every reachable registry is well formed\<close>

text \<open>
  The registry starts with every slot pointed to and nothing loaded; the interface functions
  are the steps. Unloading is one of them, whatever it does to the table of loaded plug-ins.
\<close>

definition plugin_initial :: "('s, 'o) plugin_lib \<Rightarrow> bool" where
  "plugin_initial lib \<longleftrightarrow>
     plugin_ptr lib = map Some [0..<IOT_PLUGIN_MAX] \<and> plugin_count lib = 0 \<and>
     length (plugin_enabled lib) = IOT_PLUGIN_MAX \<and> plugin_enabled_count lib = 0"

inductive plugin_step ::
    "(string \<Rightarrow> ((bool \<times> u32 \<times> u32) \<times> ('s, 'o) iot_plugin) option option) \<Rightarrow> u32 \<Rightarrow>
     ('s, 'o) plugin_lib \<times> 's \<Rightarrow> ('s, 'o) plugin_lib \<times> 's \<Rightarrow> bool"
  for open_library ver where
  enable: "iot_plugin_enable lib name s = Some (r, lib', s') \<Longrightarrow>
    plugin_step open_library ver (lib, s) (lib', s')"
| disable: "iot_plugin_disable lib name s = Some (r, lib', s') \<Longrightarrow>
    plugin_step open_library ver (lib, s) (lib', s')"
| disable_all: "iot_plugin_disable_all lib s = Some (r, lib', s') \<Longrightarrow>
    plugin_step open_library ver (lib, s) (lib', s')"
| perform: "iot_plugin_perform f g lib txn max_time_out op options s = Some (r, t, m, lib', s') \<Longrightarrow>
    plugin_step open_library ver (lib, s) (lib', s')"
| load: "iot_plugin_load open_library ver lib file s = Some (r, lib', s') \<Longrightarrow>
    plugin_step open_library ver (lib, s) (lib', s')"
| unload: "iot_plugin_unload lib name s = Some (r, lib', s') \<Longrightarrow>
    plugin_step open_library ver (lib, s) (lib', s')"

lemma plugin_initial_ok: "plugin_initial lib \<Longrightarrow> plugins_ok lib"
  unfolding plugins_ok_def plugin_initial_def
  by (auto simp: enabled_def plugin_slots_def)

lemma loaded_by_name_mem:
  "fst (loaded_by_name lib ps name i) \<in> insert None (set ps)"
  by (induction lib ps name i rule: loaded_by_name.induct) (auto split: option.splits)

lemma loaded_by_name_slot:
  assumes "plugins_ok lib"
  shows "fst (loaded_by_name lib (take n (plugin_ptr lib)) name i) \<in> insert None plugin_slots"
  using loaded_by_name_mem[of lib "take n (plugin_ptr lib)" name i] plugins_okD(5)[OF assms]
  by (auto dest: in_set_takeD)

lemma enable_ok:
  assumes "plugins_ok lib" and "iot_plugin_enable lib name s = Some (r, lib', s')"
  shows "plugins_ok lib'"
proof (cases "\<exists>n. name = Some n \<and> plugin_enabled_count lib < IOT_PLUGIN_MAX")
  case True
  then obtain n where n: "name = Some n" "plugin_enabled_count lib < IOT_PLUGIN_MAX" by blast
  have "iot_plugin_enable_by_ptr lib
      (fst (loaded_by_name lib (take (plugin_count lib) (plugin_ptr lib)) n 0)) s = Some (r, lib', s')"
    using assms(2) n by (simp add: iot_plugin_enable_def)
  then show ?thesis
    using enable_by_ptr_spec[OF assms(1) loaded_by_name_slot[OF assms(1)]]
    by (metis Pair_inject option.inject)
next
  case False
  then show ?thesis using assms by (auto simp: iot_plugin_enable_def split: option.splits)
qed

lemma disable_by_ptr_ok:
  assumes "plugins_ok lib" and "iot_plugin_disable_by_ptr lib p force s = Some (r, lib', s')"
  shows "plugins_ok lib'" "plugin_ptr lib' = plugin_ptr lib" "plugin_count lib' = plugin_count lib"
  using disable_by_ptr_spec[OF assms(1), of p force s] assms(2) by (metis Pair_inject option.inject)+

lemma disable_ok:
  assumes "plugins_ok lib" and "iot_plugin_disable lib name s = Some (r, lib', s')"
  shows "plugins_ok lib'"
  using assms disable_by_ptr_ok(1)[OF assms(1)]
  by (auto simp: iot_plugin_disable_def split: option.splits bind_splits)

lemma disable_all_ok:
  assumes "plugins_ok lib" and "iot_plugin_disable_all lib s = Some (r, lib', s')"
  shows "plugins_ok lib'"
  using assms(2) disable_all_loop_spec[OF assms(1), of s]
  by (auto simp: iot_plugin_disable_all_def)

lemma plugins_ok_transaction [simp]:
  "plugins_ok (lib\<lparr>transaction_count := c\<rparr>) = plugins_ok lib"
  by (simp add: plugins_ok_def enabled_def)

lemma perform_ok:
  assumes "plugins_ok lib"
    and "iot_plugin_perform f g lib txn max_time_out op options s = Some (r, t, m, lib', s')"
  shows "plugins_ok lib'"
  using assms by (auto simp: iot_plugin_perform_def Let_def split: bind_splits prod.splits)

lemma plugins_ok_slot:
  "plugins_ok lib \<Longrightarrow> plugin_count lib < IOT_PLUGIN_MAX \<Longrightarrow>
   plugins_ok (lib\<lparr>plugins := ps, plugin_count := plugin_count lib + 1\<rparr>)"
  by (simp add: plugins_ok_def enabled_def)

lemma load_spec:
  assumes ok: "plugins_ok lib"
  obtains r lib' s' where "iot_plugin_load open_library ver lib file s = Some (r, lib', s')"
    "plugins_ok lib'"
proof (cases "\<exists>n p mn mx. file = Some n \<and> plugin_count lib < IOT_PLUGIN_MAX \<and>
    open_library n = Some (Some ((True, mn, mx), p)) \<and> (mn = 0 \<or> ver \<le> mn) \<and> (mx = 0 \<or> mx \<le> ver)")
  case True
  then obtain n p mn mx where c: "file = Some n" "plugin_count lib < IOT_PLUGIN_MAX"
    "open_library n = Some (Some ((True, mn, mx), p))" "mn = 0 \<or> ver \<le> mn" "mx = 0 \<or> mx \<le> ver"
    by blast
  define q where "q = plugin_count lib"
  define lib1 where "lib1 = lib\<lparr>plugins := (plugins lib)(q := p)\<rparr>"
  define s1 where "s1 = iot_plugin_initialize lib1 q s"
  define lib2 where "lib2 = lib1\<lparr>plugin_count := q + 1\<rparr>"
  have "plugins_ok lib2"
    using plugins_ok_slot[OF ok c(2)] by (simp add: lib2_def lib1_def q_def)
  moreover have "Some q \<in> insert None plugin_slots" using c(2) by (simp add: q_def plugin_slots_def)
  ultimately obtain r lib' s' where "iot_plugin_enable_by_ptr lib2 (Some q) s1 = Some (r, lib', s')"
    "plugins_ok lib'"
    using enable_by_ptr_spec by metis
  then have "iot_plugin_load open_library ver lib file s = Some (STATUS_SUCCESS, lib', s')"
    using c unfolding iot_plugin_load_def Let_def
    by (simp add: lib2_def lib1_def s1_def q_def)
  then show ?thesis using that \<open>plugins_ok lib'\<close> by blast
next
  case False
  then have "\<exists>r. iot_plugin_load open_library ver lib file s = Some (r, lib, s)"
    unfolding iot_plugin_load_def Let_def
    by (auto split: option.splits bool.splits if_splits prod.splits)
  then show ?thesis using that ok by blast
qed

lemma load_ok:
  assumes "plugins_ok lib" and "iot_plugin_load open_library ver lib file s = Some (r, lib', s')"
  shows "plugins_ok lib'"
  using load_spec[OF assms(1)] assms(2) by (metis Pair_inject option.inject)

lemma memmove_set: "memmove d i n xs = Some ys \<Longrightarrow> set ys \<subseteq> set xs"
  unfolding memmove_def by (auto split: if_splits) (meson in_set_takeD in_set_dropD)+

lemma unload_ok:
  assumes ok: "plugins_ok lib" and un: "iot_plugin_unload lib name s = Some (r, lib', s')"
  shows "plugins_ok lib'"
proof (cases "\<exists>n p i. name = Some n \<and>
    loaded_by_name lib (take (plugin_count lib) (plugin_ptr lib)) n 0 = (Some p, i)")
  case False
  then show ?thesis using un ok
    by (auto simp: iot_plugin_unload_def split: option.splits prod.splits)
next
  case True
  then obtain n p i where found: "name = Some n"
    "loaded_by_name lib (take (plugin_count lib) (plugin_ptr lib)) n 0 = (Some p, i)" by blast
  obtain r1 lib1 s1 where d: "iot_plugin_disable_by_ptr lib (Some p) True s = Some (r1, lib1, s1)"
    using disable_by_ptr_spec[OF ok] by metis
  note lib1 = disable_by_ptr_ok[OF ok d]
  let ?n = "plugin_count lib1 - 1"
  obtain a1 a2 where a: "memmove i (i + 1) (?n - i) (plugin_ptr lib1) = Some a1"
    "store ?n (Some p) a1 = Some a2" and lib': "lib' = lib1\<lparr>plugin_ptr := a2, plugin_count := ?n\<rparr>"
    using un found d unfolding iot_plugin_unload_def Let_def
    by (auto split: bind_splits if_splits)
  have p: "Some p \<in> plugin_slots" using loaded_by_name_slot[OF ok, of "plugin_count lib" n 0] found by simp
  have "set a2 \<subseteq> insert None plugin_slots"
    using a(2) p memmove_set[OF a(1)] plugins_okD(5)[OF lib1(1)] set_update_subset_insert[of a1 ?n "Some p"]
    by (auto simp: store_def split: if_splits)
  moreover have "length a2 = IOT_PLUGIN_MAX"
    using a(2) length_memmove[OF a(1)] plugins_okD(3)[OF lib1(1)] by (auto simp: store_def split: if_splits)
  ultimately show ?thesis
    using plugins_okD[OF lib1(1)] unfolding plugins_ok_def lib' by (simp add: enabled_def)
qed

lemma plugin_step_ok:
  assumes "plugin_step open_library ver (lib, s) (lib', s')" and "plugins_ok lib"
  shows "plugins_ok lib'"
  using assms
  by cases (rule enable_ok disable_ok disable_all_ok perform_ok load_ok unload_ok; assumption)+

lemma plugin_reachable_ok:
  assumes "(plugin_step open_library ver)\<^sup>*\<^sup>* a b" and "plugins_ok (fst a)"
  shows "plugins_ok (fst b)"
  using assms
proof (induction rule: rtranclp_induct)
  case (step y z)
  then show ?case using plugin_step_ok by (metis prod.collapse)
qed

section \<open>The enabled plug-ins as an ordered table\<close>

definition plugin_adds :: "('s, 'o) plugin_lib \<Rightarrow> pid option \<Rightarrow> ('s, 'o) plugin_lib \<Rightarrow> bool" where
  "plugin_adds lib p lib' \<longleftrightarrow> p \<in> plugin_slots \<and>
     (\<exists>s s'. iot_plugin_enable_by_ptr lib p s = Some (STATUS_SUCCESS, lib', s'))"

definition plugin_removes :: "('s, 'o) plugin_lib \<Rightarrow> pid option \<Rightarrow> ('s, 'o) plugin_lib \<Rightarrow> bool" where
  "plugin_removes lib p lib' \<longleftrightarrow> p \<in> set (map fst (enabled lib)) \<and>
     (\<exists>force s r s'. iot_plugin_disable_by_ptr lib p force s = Some (r, lib', s') \<and>
        (r = STATUS_SUCCESS \<or> force))"

definition plugin_keeps :: "('s, 'o) plugin_lib \<Rightarrow> ('s, 'o) plugin_lib \<Rightarrow> bool" where
  "plugin_keeps lib lib' \<longleftrightarrow>
     (\<exists>p s r s'. p \<in> insert None plugin_slots \<and> r \<noteq> STATUS_SUCCESS \<and>
        iot_plugin_enable_by_ptr lib p s = Some (r, lib', s')) \<or>
     (\<exists>p s r s'. r \<noteq> STATUS_SUCCESS \<and> iot_plugin_disable_by_ptr lib p False s = Some (r, lib', s'))"

definition plugin_order :: "('s, 'o) plugin_lib \<Rightarrow> pid option \<Rightarrow> int" where
  "plugin_order lib p = the (map_of (enabled lib) p)"

lemma plugin_adds_spec:
  assumes "plugins_ok lib" and "plugin_adds lib p lib'"
  shows "plugins_ok lib'" "p \<notin> set (map fst (enabled lib))"
    "set (map fst (enabled lib')) = insert p (set (map fst (enabled lib)))"
proof -
  obtain s s' where p: "p \<in> insert None plugin_slots"
    and e: "iot_plugin_enable_by_ptr lib p s = Some (STATUS_SUCCESS, lib', s')"
    using assms(2) by (auto simp: plugin_adds_def)
  obtain i where "plugins_ok lib'" "p \<notin> set (map fst (enabled lib))"
    "enabled lib' = insert_at i (p, snd (p_info (plugins lib (the p)))) (enabled lib)"
    by (rule enable_by_ptr_spec[OF assms(1) p, of s]) (use e in auto)
  then show "plugins_ok lib'" "p \<notin> set (map fst (enabled lib))"
    "set (map fst (enabled lib')) = insert p (set (map fst (enabled lib)))"
    by (simp_all add: map_insert_at)
qed

lemma plugin_removes_spec:
  assumes ok: "plugins_ok lib" and "plugin_removes lib p lib'"
  shows "plugins_ok lib'" "p \<in> set (map fst (enabled lib))"
    "set (map fst (enabled lib')) = set (map fst (enabled lib)) - {p}"
proof -
  obtain force s r s' where d: "iot_plugin_disable_by_ptr lib p force s = Some (r, lib', s')"
    "r = STATUS_SUCCESS \<or> force" and p: "p \<in> set (map fst (enabled lib))"
    using assms(2) by (auto simp: plugin_removes_def)
  have en: "plugins_ok lib'" "enabled lib' = delete_at (enabled_index lib p) (enabled lib)"
    by (rule disable_by_ptr_spec[OF ok, of p force s], use d p in auto)+
  have i: "enabled_index lib p < length (map fst (enabled lib))"
    using enabled_index_less[OF ok] p plugins_okD(9)[OF ok] by simp
  have "map fst (enabled lib) ! enabled_index lib p = p"
    using enabled_index_nth[OF ok p] i by simp
  then show "plugins_ok lib'" "p \<in> set (map fst (enabled lib))"
    "set (map fst (enabled lib')) = set (map fst (enabled lib)) - {p}"
    using distinct_delete[OF plugins_okD(7)[OF ok] i] en p by (simp_all add: map_delete_at)
qed

lemma plugin_keeps_spec:
  assumes "plugins_ok lib" and "plugin_keeps lib lib'"
  shows "plugins_ok lib'" "set (map fst (enabled lib')) = set (map fst (enabled lib))"
proof -
  have "plugins_ok lib' \<and> enabled lib' = enabled lib"
    using assms(2) unfolding plugin_keeps_def
  proof (elim disjE exE conjE)
    fix p s r s'
    assume "p \<in> insert None plugin_slots" "r \<noteq> STATUS_SUCCESS"
      "iot_plugin_enable_by_ptr lib p s = Some (r, lib', s')"
    then show ?thesis
      using enable_by_ptr_spec[OF assms(1), of p s] assms(1) by (metis Pair_inject option.inject)
  next
    fix p s r s'
    assume "r \<noteq> STATUS_SUCCESS" "iot_plugin_disable_by_ptr lib p False s = Some (r, lib', s')"
    then show ?thesis
      using disable_by_ptr_spec[OF assms(1), of p False s] by (metis Pair_inject option.inject)
  qed
  then show "plugins_ok lib'" "set (map fst (enabled lib')) = set (map fst (enabled lib))" by simp_all
qed

lemma plugin_order_sorted:
  assumes "plugins_ok lib"
  shows "map (plugin_order lib) (map fst (enabled lib)) = map snd (enabled lib)"
proof -
  have "plugin_order lib (fst e) = snd e" if "e \<in> set (enabled lib)" for e
    using map_of_is_SomeI[OF plugins_okD(7)[OF assms], of "fst e" "snd e"] that
    by (simp add: plugin_order_def)
  then show ?thesis by simp
qed

interpretation plugin_table: ordered_table plugins_ok "\<lambda>lib. map fst (enabled lib)" plugin_order
  IOT_PLUGIN_MAX plugin_adds plugin_removes plugin_keeps
proof
  fix lib lib' :: "('s, 'o) plugin_lib" and p
  assume ok: "plugins_ok lib"
  show "distinct (map fst (enabled lib))" by (rule plugins_okD(7)[OF ok])
  show "sorted (map (plugin_order lib) (map fst (enabled lib)))"
    unfolding plugin_order_sorted[OF ok] by (rule plugins_okD(8)[OF ok])
  show "length (map fst (enabled lib)) \<le> IOT_PLUGIN_MAX"
    using plugins_okD(2,9)[OF ok] by simp
  show "plugin_adds lib p lib' \<Longrightarrow> plugins_ok lib'" by (rule plugin_adds_spec(1)[OF ok])
  show "plugin_adds lib p lib' \<Longrightarrow> p \<notin> set (map fst (enabled lib))" by (rule plugin_adds_spec(2)[OF ok])
  show "plugin_adds lib p lib' \<Longrightarrow> set (map fst (enabled lib')) = insert p (set (map fst (enabled lib)))"
    by (rule plugin_adds_spec(3)[OF ok])
  show "plugin_removes lib p lib' \<Longrightarrow> plugins_ok lib'" by (rule plugin_removes_spec(1)[OF ok])
  show "plugin_removes lib p lib' \<Longrightarrow> p \<in> set (map fst (enabled lib))"
    by (rule plugin_removes_spec(2)[OF ok])
  show "plugin_removes lib p lib' \<Longrightarrow> set (map fst (enabled lib')) = set (map fst (enabled lib)) - {p}"
    by (rule plugin_removes_spec(3)[OF ok])
  show "plugin_keeps lib lib' \<Longrightarrow> plugins_ok lib'" by (rule plugin_keeps_spec(1)[OF ok])
  show "plugin_keeps lib lib' \<Longrightarrow> set (map fst (enabled lib')) = set (map fst (enabled lib))"
    by (rule plugin_keeps_spec(2)[OF ok])
qed

section \<open>What an operation does to the world\<close>

text \<open>The \<open>execute\<close> callbacks of the enabled plug-ins, in order.\<close>

definition executors ::
    "('s, 'o) plugin_lib \<Rightarrow> ('o request \<Rightarrow> 's \<Rightarrow> iot_status \<times> nat \<times> 's) list" where
  "executors lib = List.map_filter
     (\<lambda>e. Option.bind (fst e) (\<lambda>p. p_execute (plugins lib p))) (enabled lib)"

definition leaves_step :: "('o request \<Rightarrow> 's \<Rightarrow> iot_status \<times> nat \<times> 's) \<Rightarrow> bool" where
  "leaves_step ex \<longleftrightarrow> (\<forall>op txn time i s. fst (snd (ex (op, txn, time, i) s)) = i)"

text \<open>Calls made one after the other, with the statuses they return.\<close>

fun run_calls ::
    "(('o request \<Rightarrow> 's \<Rightarrow> iot_status \<times> nat \<times> 's) \<times> 'o request) list \<Rightarrow> 's \<Rightarrow> iot_status list \<times> 's" where
  "run_calls [] s = ([], s)"
| "run_calls ((ex, req) # cs) s =
     (let (st, _, s) = ex req s; (sts, s) = run_calls cs s in (st # sts, s))"

lemma run_calls_append:
  "run_calls (xs @ ys) s =
     (let (a, s) = run_calls xs s; (b, s) = run_calls ys s in (a @ b, s))"
  by (induction xs arbitrary: s) (simp_all add: split_beta Let_def split_paired_all)

definition pass_calls ::
    "('s, 'o) plugin_lib \<Rightarrow> 'o \<Rightarrow> u8 option \<Rightarrow> u32 \<Rightarrow> nat \<Rightarrow>
     (('o request \<Rightarrow> 's \<Rightarrow> iot_status \<times> nat \<times> 's) \<times> 'o request) list" where
  "pass_calls lib op txn time i = map (\<lambda>ex. (ex, (op, txn, time, i))) (executors lib)"

lemma executors_cong:
  "enabled lib' = enabled lib \<Longrightarrow> plugins lib' = plugins lib \<Longrightarrow> executors lib' = executors lib"
  by (simp add: executors_def)

lemma perform_pass_calls:
  assumes "\<forall>ex \<in> set (List.map_filter
    (\<lambda>e. Option.bind (fst e) (\<lambda>p. p_execute (plugins lib p))) es). leaves_step ex"
  shows "perform_pass lib op txn time es i result s =
    (case run_calls (map (\<lambda>ex. (ex, (op, txn, time, i)))
        (List.map_filter (\<lambda>e. Option.bind (fst e) (\<lambda>p. p_execute (plugins lib p))) es)) s of
       (sts, s') \<Rightarrow> (i, fold max sts result, s'))"
  using assms
proof (induction es arbitrary: result s)
  case Nil
  then show ?case by (simp add: List.map_filter_def)
next
  case (Cons e es)
  obtain ptr ord where e: "e = (ptr, ord)" by fastforce
  show ?case
  proof (cases "Option.bind ptr (\<lambda>p. p_execute (plugins lib p))")
    case None
    then show ?thesis using Cons
      by (cases ptr) (auto simp: e List.map_filter_def)
  next
    case (Some ex)
    then obtain p where p: "ptr = Some p" "p_execute (plugins lib p) = Some ex"
      by (cases ptr) auto
    obtain st j s1 where call: "ex (op, txn, time, i) s = (st, j, s1)" by (metis prod_cases3)
    have "leaves_step ex" using Cons.prems Some by (simp add: e List.map_filter_def)
    then have "j = i" using call unfolding leaves_step_def by (metis fst_conv snd_conv)
    then show ?thesis using Cons p call
      by (simp add: e List.map_filter_def split_beta Let_def max_def not_le)
         (metis leD linorder_linear order_antisym_conv not_less)
  qed
qed

lemma perform_pass_spec:
  assumes "\<forall>ex \<in> set (executors lib). leaves_step ex"
  shows "perform_pass lib op txn time (take (plugin_enabled_count lib) (plugin_enabled lib)) i result s =
    (case run_calls (pass_calls lib op txn time i) s of (sts, s') \<Rightarrow> (i, fold max sts result, s'))"
  using perform_pass_calls[of lib "enabled lib"] assms
  by (simp add: executors_def pass_calls_def enabled_def)

lemma perform_loop_spec:
  assumes ex: "\<forall>ex \<in> set (executors lib). leaves_step ex" and t: "ignore \<or> 0 < time"
  shows "perform_loop lib op txn time ignore 0 result s =
    (case run_calls (concat (map (pass_calls lib op txn time) [0, 1, 2])) s of
       (sts, s') \<Rightarrow> Some (fold max sts result, s'))"
proof -
  have go: "perform_loop lib op txn time ignore i result s =
      (case run_calls (pass_calls lib op txn time i) s of
         (sts, s') \<Rightarrow> perform_loop lib op txn time ignore (i + 1) (fold max sts result) s')"
    if "i \<le> 2" for i result s
    using that t perform_pass_spec[OF ex] by (subst perform_loop.simps) (simp add: split_beta)
  have stop: "perform_loop lib op txn time ignore 3 result s = Some (result, s)" for result s
    by (subst perform_loop.simps) simp
  show ?thesis
    using stop by (simp add: go split_beta run_calls_append Let_def fold_append numeral_2_eq_2 numeral_3_eq_3)
qed

lemma loaded_by_name_index:
  "loaded_by_name lib ps name i = (Some p, j) \<Longrightarrow>
   i < j \<and> j \<le> i + length ps \<and> ps ! (j - i - 1) = Some p \<and> p_name (plugins lib p) = Some name"
proof (induction lib ps name i rule: loaded_by_name.induct)
  case (2 lib ptr ps name i)
  show ?case
  proof (cases "\<exists>q. ptr = Some q \<and> p_name (plugins lib q) = Some name")
    case True
    then show ?thesis using "2.prems" by auto
  next
    case False
    then have "loaded_by_name lib ps name (i + 1) = (Some p, j)"
      using "2.prems" by (auto split: option.splits)
    then have "i + 1 < j \<and> j \<le> i + 1 + length ps \<and> ps ! (j - (i + 1) - 1) = Some p \<and>
        p_name (plugins lib p) = Some name"
      using "2.IH" False by (cases ptr) auto
    moreover from this have "j - i - 1 = Suc (j - (i + 1) - 1)" by arith
    ultimately show ?thesis by simp
  qed
qed simp

section \<open>Properties\<close>

text \<open>An example plug-in: order \<open>n\<close>, its \<open>execute\<close> logs the order and step it is called at.\<close>

definition example_plugin :: "string \<Rightarrow> int \<Rightarrow> iot_status \<Rightarrow> ((int \<times> nat) list, unit) iot_plugin" where
  "example_plugin name n st = \<lparr>p_name = Some name, p_info = (True, n), p_enable = None,
     p_disable = Some (\<lambda>force log. (STATUS_SUCCESS, log @ [(n, 9)])),
     p_execute = Some (\<lambda>(op, txn, time, i) log. (st, i, log @ [(n, i)])),
     p_initialize = None, p_terminate = None\<rparr>"

definition example_plugins :: "(pid option \<times> int) list \<Rightarrow> ((int \<times> nat) list, unit) plugin_lib" where
  "example_plugins es = \<lparr>
     plugins = (\<lambda>p. if p = 0 then example_plugin ''a'' 5 STATUS_NOT_FOUND
                    else example_plugin ''b'' 3 STATUS_SUCCESS),
     plugin_ptr = map Some [0..<IOT_PLUGIN_MAX], plugin_count = length es,
     plugin_enabled = take IOT_PLUGIN_MAX (es @ replicate IOT_PLUGIN_MAX (None, 0)),
     plugin_enabled_count = length es, transaction_count = 255\<rparr>"

lemma example_plugins_ok: "plugins_ok (example_plugins [(Some 1, 3), (Some 0, 5)])"
  by (auto simp: plugins_ok_def example_plugins_def enabled_def plugin_slots_def)

text \<open>A directory of three libraries, of orders 7, 4 and 5.\<close>

definition example_libraries ::
    "string \<Rightarrow> ((bool \<times> u32 \<times> u32) \<times> ((int \<times> nat) list, unit) iot_plugin) option option" where
  "example_libraries file =
     (if file = ''x.so'' then Some (Some ((True, 0, 0), example_plugin ''x'' 7 STATUS_SUCCESS))
      else if file = ''y.so'' then Some (Some ((True, 0, 0), example_plugin ''y'' 4 STATUS_SUCCESS))
      else if file = ''z.so'' then Some (Some ((True, 0, 0), example_plugin ''z'' 5 STATUS_SUCCESS))
      else None)"

text \<open>
  C8: Every registry the interface functions can produce from the initial one is well formed:
  the plug-ins enabled are distinct slots of the library, ordered by their order number, and
  never more than the table holds. This includes \<open>iot_plugin_load\<close>, which enables without
  checking for room and is nevertheless always defined.
\<close>

theorem plugin_registry_well_formed:
  assumes "plugin_initial lib"
    and "(plugin_step open_library ver)\<^sup>*\<^sup>* (lib, s) (lib', s')"
  shows "plugins_ok lib' \<and> iot_plugin_load open_library ver lib' file s' \<noteq> None"
proof -
  have ok: "plugins_ok lib'"
    using plugin_reachable_ok[OF assms(2)] plugin_initial_ok[OF assms(1)] by simp
  then show ?thesis using load_spec[OF ok] by (metis option.distinct(1))
qed

theorem plugin_registry_well_formed_witness:
  "\<exists>lib'. (plugin_step example_libraries 0)\<^sup>*\<^sup>* (example_plugins [], []) (lib', [(4, 9)]) \<and>
     enabled lib' = [(Some 1, 4), (Some 2, 5), (Some 0, 7)] \<and> plugins_ok lib' \<and>
     iot_plugin_load example_libraries 0 lib' (Some ''x.so'') [(4, 9)] \<noteq> None"
proof -
  let ?open = example_libraries and ?x = "example_plugin ''x'' 7 STATUS_SUCCESS"
  let ?y = "example_plugin ''y'' 4 STATUS_SUCCESS" and ?z = "example_plugin ''z'' 5 STATUS_SUCCESS"
  let ?N = "(None, 0)" and ?ps = "plugins (example_plugins [])"
  let ?lib = "\<lambda>ps n es k. (example_plugins [])\<lparr>plugins := ps, plugin_count := n,
      plugin_enabled := es, plugin_enabled_count := k\<rparr>"
  let ?l1 = "?lib (?ps(0 := ?x)) 1 [(Some 0, 7), ?N, ?N, ?N, ?N] 1"
  let ?l2 = "?lib (?ps(0 := ?x, 1 := ?y)) 2 [(Some 1, 4), (Some 0, 7), ?N, ?N, ?N] 2"
  let ?ps3 = "?ps(0 := ?x, 1 := ?y, 2 := ?z)"
  let ?l3 = "?lib ?ps3 3 [(Some 1, 4), (Some 2, 5), (Some 0, 7), ?N, ?N] 3"
  let ?l4 = "?lib ?ps3 3 [(Some 2, 5), (Some 0, 7), (Some 0, 7), ?N, ?N] 2"
  note compute = iot_plugin_load_def iot_plugin_initialize_def iot_plugin_enable_by_ptr_def
    iot_plugin_enable_def iot_plugin_disable_def iot_plugin_disable_by_ptr_def enabled_index_def
    example_libraries_def example_plugin_def example_plugins_def Let_def memmove_def store_def
    insert_pos.simps upt_rec
  have "iot_plugin_load ?open 0 (example_plugins []) (Some ''x.so'') [] = Some (STATUS_SUCCESS, ?l1, [])"
    by (simp add: compute) (simp add: numeral_eq_Suc)
  then have s1: "plugin_step ?open 0 (example_plugins [], []) (?l1, [])" by (rule plugin_step.load)
  have "iot_plugin_load ?open 0 ?l1 (Some ''y.so'') [] = Some (STATUS_SUCCESS, ?l2, [])"
    by (simp add: compute)
  then have s2: "plugin_step ?open 0 (?l1, []) (?l2, [])" by (rule plugin_step.load)
  have "iot_plugin_load ?open 0 ?l2 (Some ''z.so'') [] = Some (STATUS_SUCCESS, ?l3, [])"
    by (simp add: compute)
  then have s3: "plugin_step ?open 0 (?l2, []) (?l3, [])" by (rule plugin_step.load)
  have "iot_plugin_disable ?l3 (Some ''y'') [] = Some (STATUS_SUCCESS, ?l4, [(4, 9)])"
    by (simp add: compute)
  then have s4: "plugin_step ?open 0 (?l3, []) (?l4, [(4, 9)])" by (rule plugin_step.disable)
  have "iot_plugin_enable ?l4 (Some ''y'') [(4, 9)] = Some (STATUS_SUCCESS, ?l3, [(4, 9)])"
    by (simp add: compute)
  then have s5: "plugin_step ?open 0 (?l4, [(4, 9)]) (?l3, [(4, 9)])" by (rule plugin_step.enable)
  have run: "(plugin_step ?open 0)\<^sup>*\<^sup>* (example_plugins [], []) (?l3, [(4, 9)])"
    using s1 s2 s3 s4 s5 by (meson converse_rtranclp_into_rtranclp rtranclp.rtrancl_refl)
  have init: "plugin_initial (example_plugins [])"
    by (simp add: plugin_initial_def example_plugins_def)
  have "enabled ?l3 = [(Some 1, 4), (Some 2, 5), (Some 0, 7)]" by (simp add: enabled_def)
  with run plugin_registry_well_formed[OF init run, of "Some ''x.so''"] show ?thesis by blast
qed

text \<open>
  Enabling by name on a well-formed registry: a full table is \<open>FULL\<close>; otherwise the first
  loaded plug-in of that name decides. None is \<open>NOT_FOUND\<close>; one that is enabled already (or
  has no information) is reported as \<open>FAILURE\<close>; otherwise the status is that of its \<open>enable\<close>
  callback. The table gains the plug-in on success and is unchanged in every other case.
\<close>

theorem plugin_enable_by_name:
  assumes "plugins_ok lib"
  shows "\<exists>r lib' s'. iot_plugin_enable lib (Some name) s = Some (r, lib', s') \<and>
    (let p = fst (loaded_by_name lib (take (plugin_count lib) (plugin_ptr lib)) name 0) in
     r = (if plugin_enabled_count lib = IOT_PLUGIN_MAX then STATUS_FULL else enable_status lib p s) \<and>
     (if r = STATUS_SUCCESS
      then p \<notin> set (map fst (enabled lib)) \<and>
        (\<exists>i \<le> length (enabled lib). enabled lib' =
           insert_at i (p, snd (p_info (plugins lib (the p)))) (enabled lib))
      else lib' = lib))"
proof (cases "plugin_enabled_count lib < IOT_PLUGIN_MAX")
  case True
  define p where "p = fst (loaded_by_name lib (take (plugin_count lib) (plugin_ptr lib)) name 0)"
  have "iot_plugin_enable lib (Some name) s = iot_plugin_enable_by_ptr lib p s"
    using True by (simp add: iot_plugin_enable_def p_def)
  moreover have "p \<in> insert None plugin_slots"
    unfolding p_def by (rule loaded_by_name_slot[OF assms])
  ultimately show ?thesis
    unfolding Let_def p_def[symmetric] using True enable_by_ptr_spec[OF assms, of p s]
    by (metis less_irrefl)
next
  case False
  then show ?thesis
    using plugins_okD(2)[OF assms] by (simp add: iot_plugin_enable_def Let_def)
qed

theorem plugin_enable_by_name_witness:
  "\<exists>s'. iot_plugin_enable (example_plugins [(Some 1, 3), (Some 0, 5)]) (Some ''b'') [] =
     Some (STATUS_FAILURE, example_plugins [(Some 1, 3), (Some 0, 5)], s')"
proof -
  let ?lib = "example_plugins [(Some 1, 3), (Some 0, 5)]"
  have found: "loaded_by_name ?lib (take (plugin_count ?lib) (plugin_ptr ?lib)) ''b'' 0 = (Some 1, 2)"
    by (simp add: example_plugins_def example_plugin_def upt_rec)
  have "enable_status ?lib (Some 1) [] = STATUS_FAILURE"
    by (simp add: enable_status_def enabled_def example_plugins_def)
  moreover have "plugin_enabled_count ?lib \<noteq> IOT_PLUGIN_MAX" by (simp add: example_plugins_def)
  ultimately show ?thesis
    using plugin_enable_by_name[OF example_plugins_ok, of "''b''" "[]"]
    unfolding found Let_def fst_conv by auto
qed

text \<open>
  C38: \<open>iot_plugin_disable_all\<close> terminates on every well-formed registry: it calls each enabled
  plug-in's \<open>disable\<close> callback by force, from the last to the first, and leaves the table
  empty. The status it then returns is \<open>BAD_PARAMETER\<close>.
\<close>

theorem plugin_disable_all:
  assumes "plugins_ok lib"
  shows "\<exists>lib'. iot_plugin_disable_all lib s =
      Some (STATUS_BAD_PARAMETER, lib', disable_all_effect lib s) \<and>
    plugins_ok lib' \<and> enabled lib' = []"
  using disable_all_loop_spec[OF assms, of s] by (auto simp: iot_plugin_disable_all_def)

theorem plugin_disable_all_witness:
  "\<exists>lib'. iot_plugin_disable_all (example_plugins [(Some 1, 3), (Some 0, 5)]) [] =
     Some (STATUS_BAD_PARAMETER, lib', [(5, 9), (3, 9)]) \<and> plugins_ok lib' \<and> enabled lib' = []"
proof -
  have "disable_all_effect (example_plugins [(Some 1, 3), (Some 0, 5)]) [] = [(5, 9), (3, 9)]"
    by (simp add: disable_all_effect_def enabled_def example_plugins_def call_disable_def example_plugin_def)
  then show ?thesis using plugin_disable_all[OF example_plugins_ok, of "[]"] by simp
qed

text \<open>
  C7: An operation on plug-ins that leave the step counter alone always returns. It calls the
  \<open>execute\<close> functions of the enabled plug-ins in order, for the steps before, during and after;
  the status is the greatest they return (success when there is none), and the transaction
  number stored, when one is asked for, is not zero.
\<close>

theorem plugin_perform_runs_steps:
  assumes "option_time_out f g options = Some u"
    and "\<forall>ex \<in> set (executors lib). leaves_step ex"
  shows "\<exists>t lib'. iot_plugin_perform f g lib txn max_time_out op options s =
     (let time = u + (case max_time_out of Some m \<Rightarrow> m | None \<Rightarrow> 0) in
      case run_calls (concat (map (pass_calls lib op t time) [0, 1, 2])) s of
        (sts, s') \<Rightarrow> Some (Max (set (STATUS_SUCCESS # sts)), t, map_option (\<lambda>_. time) max_time_out, lib', s')) \<and>
     (t \<noteq> None \<longleftrightarrow> txn) \<and> t \<noteq> Some 0 \<and> enabled lib' = enabled lib \<and> plugins lib' = plugins lib"
proof -
  define time where "time = u + (case max_time_out of Some m \<Rightarrow> m | None \<Rightarrow> 0)"
  obtain t0 nx where tn: "next_transaction (transaction_count lib) = (t0, nx)" by fastforce
  then have t0: "t0 \<noteq> 0" by (auto simp: next_transaction_def Let_def split: if_splits)
  define lib' where "lib' = (if txn then lib\<lparr>transaction_count := nx\<rparr> else lib)"
  define t where "t = (if txn then Some t0 else None)"
  have same: "enabled lib' = enabled lib" "plugins lib' = plugins lib"
    by (simp_all add: lib'_def enabled_def)
  note cong = executors_cong[OF same]
  have calls: "pass_calls lib' op t time = pass_calls lib op t time"
    by (simp add: pass_calls_def cong fun_eq_iff)
  have "iot_plugin_perform f g lib txn max_time_out op options s =
      Option.bind (perform_loop lib' op t time (time = 0) 0 STATUS_SUCCESS s)
        (\<lambda>(result, s). Some (result, t, map_option (\<lambda>_. time) max_time_out, lib', s))"
    using assms(1) tn by (simp add: iot_plugin_perform_def time_def t_def lib'_def Let_def)
  also have "perform_loop lib' op t time (time = 0) 0 STATUS_SUCCESS s =
      (case run_calls (concat (map (pass_calls lib op t time) [0, 1, 2])) s of
         (sts, s') \<Rightarrow> Some (fold max sts STATUS_SUCCESS, s'))"
    unfolding calls[symmetric]
    by (rule perform_loop_spec) (use assms(2) cong in \<open>auto simp: word_gt_0\<close>)
  finally have "iot_plugin_perform f g lib txn max_time_out op options s =
      (case run_calls (concat (map (pass_calls lib op t time) [0, 1, 2])) s of
        (sts, s') \<Rightarrow> Some (Max (set (STATUS_SUCCESS # sts)), t, map_option (\<lambda>_. time) max_time_out, lib', s'))"
    by (simp add: split_beta Max.set_eq_fold del: concat.simps list.map list.set)
  then show ?thesis
    unfolding Let_def time_def[symmetric] using t0 same by (intro exI[of _ t] exI[of _ lib']) (simp add: t_def)
qed

theorem plugin_perform_runs_steps_witness:
  "\<exists>t lib'. iot_plugin_perform (\<lambda>_. 0) (\<lambda>_. 0) (example_plugins [(Some 1, 3), (Some 0, 5)]) True None
       () None [] =
     Some (STATUS_NOT_FOUND, t, None, lib', [(3, 0), (5, 0), (3, 1), (5, 1), (3, 2), (5, 2)]) \<and> t \<noteq> Some 0"
proof -
  let ?lib = "example_plugins [(Some 1, 3), (Some 0, 5)]"
  have ex: "executors ?lib = [the (p_execute (example_plugin ''b'' 3 STATUS_SUCCESS)),
      the (p_execute (example_plugin ''a'' 5 STATUS_NOT_FOUND))]"
    by (simp add: executors_def enabled_def List.map_filter_def example_plugins_def example_plugin_def)
  have ls: "\<forall>e \<in> set (executors ?lib). leaves_step e"
    unfolding ex by (simp add: leaves_step_def example_plugin_def)
  have calls: "run_calls (concat (map (pass_calls ?lib () t 0) [0, 1, 2])) [] =
      ([STATUS_SUCCESS, STATUS_NOT_FOUND, STATUS_SUCCESS, STATUS_NOT_FOUND, STATUS_SUCCESS,
        STATUS_NOT_FOUND], [(3, 0), (5, 0), (3, 1), (5, 1), (3, 2), (5, 2)])" for t
    by (simp only: list.map concat.simps pass_calls_def ex) (simp add: example_plugin_def)
  have top: "Max (set [STATUS_SUCCESS, STATUS_SUCCESS, STATUS_NOT_FOUND, STATUS_SUCCESS,
      STATUS_NOT_FOUND, STATUS_SUCCESS, STATUS_NOT_FOUND]) = STATUS_NOT_FOUND"
    by (rule Max_eqI) auto
  have opt: "option_time_out (\<lambda>_. 0) (\<lambda>_. 0) None = Some 0" by (simp add: option_time_out_def)
  show ?thesis
    using plugin_perform_runs_steps[OF opt ls, of True None "()" "[]"]
    unfolding Let_def option.case add_0 calls prod.case top by auto
qed

text \<open>
  Unloading never removes the plug-in it found. For the last one of the table, the number
  of pointers to move wraps around and the move leaves the table: the behaviour is undefined.
  For any other, the plug-in after it is dropped and its own slot, although it was terminated,
  is still listed as loaded.
\<close>

theorem plugin_unload_wrong_slot:
  assumes ok: "plugins_ok lib"
    and found: "loaded_by_name lib (take (plugin_count lib) (plugin_ptr lib)) name 0 = (Some p, i)"
  shows "if i = plugin_count lib then iot_plugin_unload lib (Some name) s = None
    else \<exists>lib' s'. iot_plugin_unload lib (Some name) s = Some (STATUS_SUCCESS, lib', s') \<and>
      plugin_count lib' = plugin_count lib - 1 \<and>
      Some p \<in> set (take (plugin_count lib') (plugin_ptr lib'))"
proof -
  obtain r1 lib1 s1 where d: "iot_plugin_disable_by_ptr lib (Some p) True s = Some (r1, lib1, s1)"
    using disable_by_ptr_spec[OF ok] by metis
  note lib1 = disable_by_ptr_ok[OF ok d]
  let ?c = "plugin_count lib" and ?xs = "plugin_ptr lib"
  have len: "length ?xs = IOT_PLUGIN_MAX" and c: "?c \<le> IOT_PLUGIN_MAX" using plugins_okD[OF ok] by simp_all
  have i: "0 < i" "i \<le> ?c" "?xs ! (i - 1) = Some p"
    using loaded_by_name_index[OF found] len c by auto
  show ?thesis
  proof (cases "i = ?c")
    case True
    then show ?thesis using found d i lib1 by (simp add: iot_plugin_unload_def Let_def)
  next
    case False
    define ys where "ys = take i ?xs @ take (?c - 1 - i) (drop (i + 1) ?xs) @ drop (i + (?c - 1 - i)) ?xs"
    have mv: "memmove i (i + 1) (?c - 1 - i) ?xs = Some ys" "length ys = IOT_PLUGIN_MAX"
      using False i len c by (auto simp: memmove_def ys_def)
    have "\<not> ?c - 1 < i" "?c - 1 < IOT_PLUGIN_MAX" using i False c by auto
    then have "iot_plugin_unload lib (Some name) s =
        Some (STATUS_SUCCESS, lib1\<lparr>plugin_ptr := ys[?c - 1 := Some p], plugin_count := ?c - 1\<rparr>,
          iot_plugin_terminate lib1 p s1)"
      using found d i lib1 mv c False by (simp add: iot_plugin_unload_def Let_def store_def)
    moreover have "ys ! (i - 1) = Some p"
      using i len c by (simp add: ys_def nth_append)
    then have "take (?c - 1) (ys[?c - 1 := Some p]) ! (i - 1) = Some p"
      using i False by simp
    moreover have "i - 1 < length (take (?c - 1) (ys[?c - 1 := Some p]))"
      using i False c mv(2) by simp
    ultimately have "iot_plugin_unload lib (Some name) s = Some (STATUS_SUCCESS,
          lib1\<lparr>plugin_ptr := ys[?c - 1 := Some p], plugin_count := ?c - 1\<rparr>, iot_plugin_terminate lib1 p s1)"
      and "Some p \<in> set (take (?c - 1) (ys[?c - 1 := Some p]))"
      by (simp, metis nth_mem)
    then show ?thesis using False by simp
  qed
qed

theorem plugin_unload_wrong_slot_witness:
  "iot_plugin_unload (example_plugins [(Some 1, 3), (Some 0, 5)]) (Some ''b'') [] = None"
  using plugin_unload_wrong_slot[OF example_plugins_ok, of "''b''" 1 2 "[]"]
  by (simp add: example_plugins_def example_plugin_def upt_rec)

text \<open>
  C9: The enabled plug-ins after any sequence of enabling, disabling and failed attempts are
  those the sequence leaves, each change is to a plug-in that was not (or was) there, and the
  table lists them without repetition by ascending order number.
\<close>

theorem plugin_history:
  assumes "plugin_initial lib" and "table_run plugin_adds plugin_removes plugin_keeps lib evs lib'"
  shows "set (map fst (enabled lib')) = replay evs {} \<and> legal evs {} \<and>
    distinct (map fst (enabled lib')) \<and> sorted (map snd (enabled lib')) \<and>
    card (replay evs {}) \<le> IOT_PLUGIN_MAX"
proof -
  have ok: "plugins_ok lib" and none: "enabled lib = []"
    using plugin_initial_ok[OF assms(1)] assms(1) by (simp_all add: enabled_def plugin_initial_def)
  have ok': "plugins_ok lib'" by (rule plugin_table.run_wf[OF assms(2) ok])
  show ?thesis
    using plugin_table.run_replay[OF assms(2) ok] plugin_table.run_card[OF assms(2) ok]
      plugins_okD(7,8)[OF ok'] by (simp add: none)
qed

theorem plugin_history_witness:
  "\<exists>lib'. table_run plugin_adds plugin_removes plugin_keeps (example_plugins []) [Added (Some 1)] lib' \<and>
     set (map fst (enabled lib')) = {Some 1}"
proof -
  have init: "plugin_initial (example_plugins [])"
    by (simp add: plugin_initial_def example_plugins_def)
  have slot: "(Some 1 :: pid option) \<in> insert None plugin_slots" by (simp add: plugin_slots_def)
  have "enable_status (example_plugins []) (Some 1) [] = STATUS_SUCCESS"
    by (simp add: enable_status_def enabled_def example_plugins_def example_plugin_def call_enable_def)
  then obtain lib' s' where
    "iot_plugin_enable_by_ptr (example_plugins []) (Some 1) [] = Some (STATUS_SUCCESS, lib', s')"
    using enable_by_ptr_spec[OF plugin_initial_ok[OF init] slot, of "[]"] by metis
  then have "plugin_adds (example_plugins []) (Some 1) lib'"
    using slot by (auto simp: plugin_adds_def)
  then have run: "table_run plugin_adds plugin_removes plugin_keeps (example_plugins []) [Added (Some 1)] lib'"
    by (rule table_run.add[OF _ table_run.stop])
  from plugin_history[OF init run] run show ?thesis by auto
qed

end
