(* ===== verification/Library.thy ===== *)
theory Library
  imports Plugin
begin

text \<open>
  The operations the library's interfaces hand to the plug-ins: the operation code of
  \<open>src/src/api/public/iot_plugin.h\<close> with the item and the value that go with it, which may be an
  action request.
\<close>

abbreviation PATH_MAX :: nat where "PATH_MAX \<equiv> 4096"

datatype iot_operation =
    OPERATION_UNKNOWN
  | OPERATION_ACTION_CHECK
  | OPERATION_ACTION_COMPLETE
  | OPERATION_ACTION_DEREGISTER
  | OPERATION_ACTION_REGISTER
  | OPERATION_ATTRIBUTE_PUBLISH
  | OPERATION_ALARM_PUBLISH
  | OPERATION_CLIENT_CONNECT
  | OPERATION_CLIENT_DISCONNECT
  | OPERATION_CLIENT_HEARTBEAT
  | OPERATION_CLIENT_MESSAGE
  | OPERATION_EVENT_PUBLISH
  | OPERATION_FILE_DOWNLOAD
  | OPERATION_FILE_UPLOAD
  | OPERATION_ITERATION
  | OPERATION_PROPERTY_PUBLISH
  | OPERATION_TELEMETRY_DEREGISTER
  | OPERATION_TELEMETRY_PUBLISH
  | OPERATION_TELEMETRY_REGISTER
  | OPERATION_TRANSACTION_STATUS

record iot_action_parameter =
  ap_name :: "string option"
  ap_data :: iot_data
  ap_type :: u8

text \<open>
  Parameters and requests of actions. The parameter array is \<open>None\<close> once the code has released it
  while the request still points to it. The source string is kept with whether a NUL follows it;
  without one it cannot be read.
\<close>

record iot_action_request =
  rq_lib :: bool
  rq_option :: "iot_option list"
  rq_error :: "string option"
  rq_name :: "string option"
  rq_flags :: u8
  rq_source :: "(string \<times> bool) option"
  rq_parameter :: "iot_action_parameter list option"
  rq_parameter_count :: nat
  rq_time_limit :: u32
  rq_result :: iot_status

definition request_zero :: iot_action_request where
  "request_zero = \<lparr>rq_lib = False, rq_option = [], rq_error = None, rq_name = None, rq_flags = 0,
     rq_source = None, rq_parameter = Some [], rq_parameter_count = 0, rq_time_limit = 0,
     rq_result = STATUS_SUCCESS\<rparr>"

text \<open>
  What goes with an operation: among it the message of an event, the key and the value of an attribute,
  and the cloud's name and the local path of a file to transfer.
\<close>

datatype op_value =
    ValueNone
  | ValueData iot_data
  | ValueAlarm u32 "string option"
  | ValueRequest iot_action_request
  | ValueText "string option"
  | ValueAttribute string string
  | ValueTransfer "string option" string

text \<open>Operation, item (NULL when there is none), value and options.\<close>

type_synonym plugin_op = "iot_operation \<times> ptr \<times> op_value \<times> iot_options option"

type_synonym 's iot_lib = "('s, plugin_op) plugin_lib"

datatype iot_item_state = DEREGISTERED | DEREGISTER_PENDING | REGISTERED | REGISTER_PENDING

text \<open>An operation performed for an item: status, transaction, library and world.\<close>

definition perform_op ::
    "(string \<Rightarrow> int) \<Rightarrow> (string \<Rightarrow> int) \<Rightarrow> 's iot_lib \<Rightarrow> bool \<Rightarrow> u32 option \<Rightarrow> iot_operation \<Rightarrow> ptr \<Rightarrow>
     op_value \<Rightarrow> (heap \<times> iot_options) option \<Rightarrow> 's \<Rightarrow>
     (iot_status \<times> u8 option \<times> 's iot_lib \<times> 's) option" where
  "perform_op f g lib txn max_time_out op item val options s = do {
     (result, t, _, lib, s) \<leftarrow> iot_plugin_perform f g lib txn max_time_out
       (op, item, val, map_option snd options) options s;
     Some (result, t, lib, s)
   }"

text \<open>Releasing the values of options, whose names are kept by value.\<close>

fun free_option_data :: "iot_option list \<Rightarrow> heap \<Rightarrow> heap option" where
  "free_option_data [] h = Some h"
| "free_option_data (e # es) h = do {
     h \<leftarrow> os_free (heap_storage (opt_data e)) h;
     free_option_data es h
   }"

text \<open>Releasing the values of parameters, whose names are kept by value.\<close>

fun free_parameter_data :: "iot_action_parameter list \<Rightarrow> heap \<Rightarrow> heap option" where
  "free_parameter_data [] h = Some h"
| "free_parameter_data (p # ps) h = do {
     h \<leftarrow> os_free (heap_storage (ap_data p)) h;
     free_parameter_data ps h
   }"

text \<open>A library without plug-ins, for examples.\<close>

definition example_plugin_lib :: "'s iot_lib" where
  "example_plugin_lib = \<lparr>plugins = (\<lambda>_. \<lparr>p_name = None, p_info = (False, 0), p_enable = None, p_disable = None,
       p_execute = None, p_initialize = None, p_terminate = None\<rparr>),
     plugin_ptr = map Some [0..<IOT_PLUGIN_MAX], plugin_count = 0,
     plugin_enabled = replicate IOT_PLUGIN_MAX (None, 0), plugin_enabled_count = 0, transaction_count = 0\<rparr>"

end
