(* ===== verification/Memory.thy ===== *)
theory Memory
  imports Library
begin

text \<open>
  What the operations on values and option tables do to the heap as a whole: which objects they
  leave alone, and how many allocations they need. A sequence of calls is followed with these
  facts alone.
\<close>

section \<open>Enough memory\<close>

text \<open>The next \<open>n\<close> requests are answered with different addresses that are not in use.\<close>

definition ample :: "nat \<Rightarrow> heap \<Rightarrow> bool" where
  "ample n h \<longleftrightarrow> (\<exists>ps r. allocator h = map Some ps @ r \<and> length ps = n \<and> distinct ps \<and>
     (\<forall>p \<in> set ps. p \<noteq> NULL \<and> cells h p = None))"

text \<open>Objects outside \<open>S\<close> are left alone, and at most \<open>k\<close> allocations are made.\<close>

definition spends :: "nat \<Rightarrow> ptr set \<Rightarrow> heap \<Rightarrow> heap \<Rightarrow> bool" where
  "spends k S h h' \<longleftrightarrow> (\<forall>q. cells h q \<noteq> None \<longrightarrow> q \<notin> S \<longrightarrow> cells h' q = cells h q) \<and>
     (\<forall>n. ample (n + k) h \<longrightarrow> ample n h')"

lemma ample_less: "ample (n + k) h \<Longrightarrow> ample n h"
proof -
  assume "ample (n + k) h"
  then obtain ps r where "allocator h = map Some ps @ r" "length ps = n + k" "distinct ps"
    "\<forall>p \<in> set ps. p \<noteq> NULL \<and> cells h p = None" by (auto simp: ample_def)
  then show ?thesis
    unfolding ample_def
    by (intro exI[of _ "take n ps"] exI[of _ "map Some (drop n ps) @ r"])
      (auto simp: map_append[symmetric] simp del: map_append dest: in_set_takeD)
qed

lemma ample_Suc:
  assumes "ample (Suc n) h"
  obtains p r where "allocator h = Some p # r" "p \<noteq> NULL" "cells h p = None"
    "ample n (h\<lparr>allocator := r\<rparr>)" "\<And>b. ample n (h\<lparr>allocator := r, cells := (cells h)(p \<mapsto> b)\<rparr>)"
proof -
  from assms obtain ps r where ps: "allocator h = map Some ps @ r" "length ps = Suc n" "distinct ps"
    "\<forall>p \<in> set ps. p \<noteq> NULL \<and> cells h p = None" by (auto simp: ample_def)
  then obtain p qs where q: "ps = p # qs" by (cases ps) auto
  have "ample n (h\<lparr>allocator := map Some qs @ r\<rparr>)"
    "ample n (h\<lparr>allocator := map Some qs @ r, cells := (cells h)(p \<mapsto> b)\<rparr>)" for b
    using ps q by (auto simp: ample_def intro!: exI[of _ qs] exI[of _ r])
  then show thesis using ps q by (intro that[of p "map Some qs @ r"]) auto
qed

lemma ample_malloc:
  assumes "ample (Suc n) h" and "os_malloc b h = (p, h')"
  shows "p \<noteq> NULL \<and> cells h p = None \<and> cells h' = (cells h)(p \<mapsto> b) \<and> ample n h'"
proof -
  obtain q r where q: "allocator h = Some q # r" "q \<noteq> NULL" "cells h q = None"
    "\<And>b. ample n (h\<lparr>allocator := r, cells := (cells h)(q \<mapsto> b)\<rparr>)"
    using ample_Suc[OF assms(1)] by metis
  then have "p = q" "h' = h\<lparr>allocator := r, cells := (cells h)(q \<mapsto> b)\<rparr>"
    using assms(2) by (auto simp: os_malloc_def)
  then show ?thesis using q by simp
qed

lemma ample_grab:
  assumes "ample (Suc n) h" and "os_grab h = (ok, h')"
  shows "ok \<and> cells h' = cells h \<and> ample n h'"
proof -
  obtain q r where q: "allocator h = Some q # r" "q \<noteq> NULL" "cells h q = None" "ample n (h\<lparr>allocator := r\<rparr>)"
    using ample_Suc[OF assms(1)] by metis
  then have "ok" "h' = h\<lparr>allocator := r\<rparr>"
    using assms(2) by (simp_all add: os_grab_def)
  then show ?thesis using q by simp
qed

lemma ample_free: "os_free p h = Some h' \<Longrightarrow> ample n h \<Longrightarrow> ample n h'"
proof -
  assume f: "os_free p h = Some h'" and a: "ample n h"
  from a obtain ps r where ps: "allocator h = map Some ps @ r" "length ps = n" "distinct ps"
    "\<forall>p \<in> set ps. p \<noteq> NULL \<and> cells h p = None" by (auto simp: ample_def)
  have "allocator h' = allocator h" "\<And>q. cells h q = None \<Longrightarrow> cells h' q = None"
    using f by (auto simp: os_free_def split: if_splits)
  then show ?thesis unfolding ample_def using ps by (intro exI[of _ ps] exI[of _ r]) simp
qed

lemma ample_cells: "cells h' = cells h \<Longrightarrow> allocator h' = allocator h \<Longrightarrow> ample n h' = ample n h"
  by (simp add: ample_def)

section \<open>Steps\<close>

lemma spends_refl [intro]: "spends 0 S h h"
  by (simp add: spends_def)

lemma spends_trans:
  assumes "spends k S h h'" and "spends l T h' h''"
    and "\<And>q. q \<in> T \<Longrightarrow> q \<in> S \<or> cells h q = None"
  shows "spends (k + l) S h h''"
proof -
  have "cells h'' q = cells h q" if q: "cells h q \<noteq> None" "q \<notin> S" for q
  proof -
    have "cells h' q = cells h q" using assms(1) q by (simp add: spends_def)
    moreover have "q \<notin> T" using assms(3)[of q] q by blast
    ultimately show ?thesis using assms(2) q(1) by (simp add: spends_def)
  qed
  moreover have "ample n h''" if "ample (n + (k + l)) h" for n
  proof -
    have "ample ((n + l) + k) h" using that by (simp add: add.commute add.left_commute)
    then show ?thesis using assms(1,2) by (simp add: spends_def)
  qed
  ultimately show ?thesis by (simp add: spends_def)
qed

lemma spends_weaken:
  assumes "spends k S h h'" and "k \<le> l" and "S \<subseteq> T"
  shows "spends l T h h'"
proof -
  have "ample n h'" if "ample (n + l) h" for n
  proof -
    have "ample ((n + k) + (l - k)) h" using that assms(2) by simp
    then show ?thesis using assms(1) ample_less by (auto simp: spends_def)
  qed
  then show ?thesis using assms(1,3) by (auto simp: spends_def)
qed

lemma spends_malloc: "os_malloc b h = (p, h') \<Longrightarrow> spends 1 {} h h'"
proof -
  assume m: "os_malloc b h = (p, h')"
  have "cells h' q = cells h q" if "cells h q \<noteq> None" for q
    using m that by (cases rule: os_malloc_cases[of h]) auto
  moreover have "ample n h'" if "ample (n + 1) h" for n
    using ample_malloc[of n h b p h'] that m by simp
  ultimately show ?thesis by (simp add: spends_def)
qed

lemma spends_grab: "os_grab h = (ok, h') \<Longrightarrow> spends 1 {} h h'"
  using ample_grab[of _ h ok h'] by (auto simp: spends_def)

lemma spends_free: "os_free p h = Some h' \<Longrightarrow> spends 0 ({p} - {NULL}) h h'"
  using ample_free[of p h h'] by (auto simp: spends_def os_free_def split: if_splits)

lemma spends_live: "spends k S h h' \<Longrightarrow> cells h q = Some b \<Longrightarrow> q \<notin> S \<Longrightarrow> cells h' q = Some b"
  by (simp add: spends_def)

lemma spends_ample: "spends k S h h' \<Longrightarrow> ample (n + k) h \<Longrightarrow> ample n h'"
  by (simp add: spends_def)

section \<open>Values and option tables\<close>

lemma copy_spends:
  assumes "iot_common_data_copy False True h to from = Some (st, d, h')"
  shows "spends 1 ({heap_storage to} - {NULL}) h h'" and "st \<in> {STATUS_SUCCESS, STATUS_NO_MEMORY}"
    and "heap_storage d = NULL \<or> heap_storage d = heap_storage to \<or> cells h (heap_storage d) = None"
    and "ample 1 h \<Longrightarrow> st = STATUS_SUCCESS"
proof -
  obtain h1 where f: "os_free (heap_storage to) h = Some h1"
    using assms by (cases "os_free (heap_storage to) h") (simp_all add: iot_common_data_copy_def)
  note s1 = spends_free[OF f]
  have cell: "cells h1 q = (if q = heap_storage to \<and> q \<noteq> NULL then None else cells h q)" for q
    using f by (auto simp: os_free_def split: if_splits)
  consider (none) "h' = h1" "st = STATUS_SUCCESS" "heap_storage d = NULL"
    | (copy) b p h2 where "os_malloc b h1 = (p, h2)" "h' = h2"
        "p = NULL \<and> st = STATUS_NO_MEMORY \<and> heap_storage d = NULL \<or> p \<noteq> NULL \<and> st = STATUS_SUCCESS \<and> heap_storage d = p"
  proof (cases "has_value from")
    case False
    then show thesis using assms f by (intro none) (auto simp: iot_common_data_copy_def)
  next
    case True
    then obtain n d' where n: "copy_size h1 from = Some (n, d')"
      using assms f by (cases "copy_size h1 from") (auto simp: iot_common_data_copy_def)
    obtain p0 h0 where m0: "os_malloc (Bytes []) h1 = (p0, h0)" by fastforce
    show thesis
    proof (cases "0 < n \<and> p0 \<noteq> NULL")
      case new: True
      then obtain b where b: "copy_content h1 d' = Some b"
        using assms f True n m0 by (cases "copy_content h1 d'") (simp_all add: iot_common_data_copy_def)
      obtain p h2 where m: "os_malloc b h1 = (p, h2)" by fastforce
      have "p \<noteq> NULL" using os_malloc_fst[of "Bytes []" h1 b] m m0 new by simp
      then show thesis
        using assms f True n m0 b m new by (intro copy[OF m]) (auto simp: iot_common_data_copy_def)
    next
      case False
      show thesis
      proof (cases "n = 0")
        case zero: True
        then show thesis using assms f True n by (intro none) (auto simp: iot_common_data_copy_def)
      next
        case pos: False
        then show thesis using assms f True n m0 False
          by (intro copy[OF m0]) (auto simp: iot_common_data_copy_def copy_failed_def)
      qed
    qed
  qed
  then have "spends 1 ({heap_storage to} - {NULL}) h h' \<and> st \<in> {STATUS_SUCCESS, STATUS_NO_MEMORY} \<and>
    (heap_storage d = NULL \<or> heap_storage d = heap_storage to \<or> cells h (heap_storage d) = None) \<and>
    (ample 1 h \<longrightarrow> st = STATUS_SUCCESS)"
  proof cases
    case none
    then show ?thesis using spends_weaken[OF s1] by simp
  next
    case copy
    have "spends 1 ({heap_storage to} - {NULL}) h h'"
      using spends_trans[OF s1 spends_malloc[OF copy(1)]] copy(2) by simp
    moreover have "heap_storage d = NULL \<or> heap_storage d = heap_storage to \<or> cells h (heap_storage d) = None"
      using copy(1,3) cell[of p] by (cases rule: os_malloc_cases[of h1]) (auto split: if_splits)
    moreover have "st = STATUS_SUCCESS" if "ample 1 h"
      using ample_malloc[of 0 h1 b p h2] copy(1,3) ample_free[OF f that] by auto
    ultimately show ?thesis using copy(3) by auto
  qed
  then show "spends 1 ({heap_storage to} - {NULL}) h h'" "st \<in> {STATUS_SUCCESS, STATUS_NO_MEMORY}"
    "heap_storage d = NULL \<or> heap_storage d = heap_storage to \<or> cells h (heap_storage d) = None"
    "ample 1 h \<Longrightarrow> st = STATUS_SUCCESS" by simp_all
qed

text \<open>Setting an option: what it may touch, where the storage of the new entries comes from.\<close>

lemma put_spends:
  assumes put: "options_put h t c e data = Some (st, t', h')" and c: "c < option_count t"
    and len: "option_count t \<le> length (option_array t)"
  shows "spends 1 ({heap_storage (opt_data e)} - {NULL}) h h'" and "ample 1 h \<Longrightarrow> st = STATUS_SUCCESS"
    and "\<exists>x. set (entries t') \<subseteq> insert x (set (entries t)) \<and>
      (heap_storage (opt_data x) = NULL \<or> heap_storage (opt_data x) = heap_storage (opt_data e) \<or>
       cells h (heap_storage (opt_data x)) = None)"
proof -
  let ?s = "heap_storage (opt_data e)"
  obtain h1 where f: "os_free ?s h = Some h1"
    using put by (cases "os_free ?s h") (simp_all add: options_put_def)
  obtain r d h2 where cp: "iot_common_data_copy False True h1 ((opt_data e)\<lparr>heap_storage := NULL\<rparr>) data = Some (r, d, h2)"
    using put f by (cases "iot_common_data_copy False True h1 ((opt_data e)\<lparr>heap_storage := NULL\<rparr>) data")
      (auto simp: options_put_def)
  let ?x = "e\<lparr>opt_data := d\<rparr>"
  obtain arr where st: "store c ?x (option_array t) = Some arr" and la: "length arr = length (option_array t)"
    using c len by (auto simp: store_def)
  have res: "st = r \<and> h' = h2"
    using put f cp st by (auto simp: options_put_def Let_def split: if_splits bind_splits)
  have es: "entries (t\<lparr>option_array := arr\<rparr>) = (entries t)[c := ?x]" using entries_store[OF st c len] .
  have "set (entries t') \<subseteq> set ((entries t)[c := ?x])"
  proof (cases "r = STATUS_SUCCESS")
    case True
    then show ?thesis using put f cp st es by (simp add: options_put_def)
  next
    case False
    from entries_close[of c "t\<lparr>option_array := arr\<rparr>"] c len la obtain arr2 where
      "memmove c (c + 1) (option_count t - 1 - c) arr = Some arr2"
      "entries (t\<lparr>option_array := arr2, option_count := option_count t - 1\<rparr>) = delete_at c ((entries t)[c := ?x])"
      using es by auto
    then have "entries t' = delete_at c ((entries t)[c := ?x])"
      using put f cp st False by (auto simp: options_put_def Let_def)
    then show ?thesis by (simp add: set_delete_at)
  qed
  moreover have "set ((entries t)[c := ?x]) \<subseteq> insert ?x (set (entries t))" by (rule set_update_subset_insert)
  moreover have "heap_storage d = NULL \<or> cells h1 (heap_storage d) = None" using copy_spends(3)[OF cp] by simp
  moreover have "cells h1 (heap_storage d) = None \<Longrightarrow> heap_storage d = ?s \<or> cells h (heap_storage d) = None"
    using f by (auto simp: os_free_def split: if_splits)
  ultimately show "\<exists>x. set (entries t') \<subseteq> insert x (set (entries t)) \<and>
      (heap_storage (opt_data x) = NULL \<or> heap_storage (opt_data x) = ?s \<or>
       cells h (heap_storage (opt_data x)) = None)"
    by (intro exI[of _ ?x]) auto
  have "spends 1 {} h1 h2" using copy_spends(1)[OF cp] by simp
  then show "spends 1 ({?s} - {NULL}) h h'"
    using spends_trans[OF spends_free[OF f], of 1 "{}"] res by simp
  show "ample 1 h \<Longrightarrow> st = STATUS_SUCCESS"
    using copy_spends(4)[OF cp] ample_free[OF f, of 1] res by simp
qed

lemma storage_subset:
  assumes "set (entries t') \<subseteq> insert x (set es)"
    and "heap_storage (opt_data x) = NULL \<or> heap_storage (opt_data x) \<in> A"
  shows "set (storage (entries t')) \<subseteq> set (storage es) \<union> A"
  using assms by (auto simp: storage_def)

lemma set_spends:
  assumes ok: "options_shape t" and name: "name \<noteq> []" and ty: "dtype data \<noteq> TYPE_NULL"
    and set: "iot_options_set_data h t (Some name) data = Some (st, t', h')"
  shows "spends 3 (set (storage (entries t))) h h' \<and> (ample 3 h \<longrightarrow> st \<noteq> STATUS_NO_MEMORY) \<and>
    (st \<noteq> STATUS_NO_MEMORY \<longrightarrow> set (storage (entries t')) \<subseteq> set (storage (entries t)) \<union> {q. cells h q = None})"
proof -
  let ?n = "option_count t" and ?S = "set (storage (entries t))"
  have cap: "?n \<le> length (option_array t)" "list_all named (entries t)" using ok by (auto simp: options_shape_def)
  have len: "length (entries t) = ?n" using cap by simp
  from options_find_spec[OF ok, of name] obtain found c where
    find: "iot_options_find t name = Some (found, c)" and
    fnd: "if found then c < ?n else c \<le> ?n" by (metis (full_types))
  show ?thesis
  proof (cases found)
    case True
    let ?e = "entries t ! c"
    have c: "c < ?n" using fnd True by simp
    have mem: "?e \<in> set (entries t)" using c len by simp
    then have nm: "named ?e" using cap(2) by (simp add: list_all_iff)
    then have put: "options_put h t c ?e data = Some (st, t', h')"
      using find True name ty set c cap
      by (auto simp: iot_options_set_data_def options_update_def load_def entries_nth named_def)
    note sp = put_spends[OF put c cap(1)]
    have e: "heap_storage (opt_data ?e) = NULL \<or> heap_storage (opt_data ?e) \<in> ?S" by (rule storage_mem[OF mem])
    from sp(3) obtain x where x: "set (entries t') \<subseteq> insert x (set (entries t))"
      "heap_storage (opt_data x) = NULL \<or> heap_storage (opt_data x) = heap_storage (opt_data ?e) \<or>
       cells h (heap_storage (opt_data x)) = None" by blast
    have "{heap_storage (opt_data ?e)} - {NULL} \<subseteq> ?S" using e by auto
    then have wide: "spends 3 ?S h h'" by (intro spends_weaken[OF sp(1)]) simp_all
    have "set (storage (entries t')) \<subseteq> ?S \<union> (?S \<union> {q. cells h q = None})"
      using x e by (intro storage_subset[OF x(1)]) auto
    moreover have "ample 1 h" if "ample 3 h" using ample_less[of 1 2 h] that by (simp add: numeral_3_eq_3)
    ultimately show ?thesis using sp(2) wide by auto
  next
    case False
    show ?thesis
    proof (cases "?n < IOT_OPTION_MAX")
      case full: False
      then have "st = STATUS_FULL \<and> t' = t \<and> h' = h"
        using set find False name by (simp add: iot_options_set_data_def)
      then show ?thesis using spends_weaken[OF spends_refl, of 3] by auto
    next
      case room: True
      obtain ok1 h1 where g1: "os_grab h = (ok1, h1)" by fastforce
      obtain ok2 h2 where g2: "os_grab h1 = (ok2, h2)" by fastforce
      have c: "c \<le> ?n" using False fnd by simp
      note opn = options_open_spec[OF c cap(1) g1]
      have am: "ample 1 h2 \<and> ok1 \<and> ok2" if "ample 3 h"
        using ample_grab[OF _ g1, of 2] ample_grab[OF _ g2, of 1] that by (simp add: numeral_3_eq_3 numeral_2_eq_2)
      have sp2: "spends 2 {} h h2" using spends_trans[OF spends_grab[OF g1] spends_grab[OF g2]] by (simp add: numeral_2_eq_2)
      show ?thesis
      proof (cases ok1)
        case no: False
        then have "st = STATUS_NO_MEMORY \<and> h' = h1"
          using set find False name room opn by (simp add: iot_options_set_data_def)
        then show ?thesis using spends_weaken[OF spends_grab[OF g1], of 3] am no by auto
      next
        case yes: True
        with opn obtain arr where
          o: "options_open h t c = Some (True, t\<lparr>option_array := arr, option_count := ?n + 1\<rparr>, h1)" and
          arr: "length arr = ?n + 1" "arr ! c = option_zero" and
          es1: "entries (t\<lparr>option_array := arr, option_count := ?n + 1\<rparr>) = insert_at c option_zero (entries t)"
          by auto
        let ?t1 = "t\<lparr>option_array := arr, option_count := ?n + 1\<rparr>"
        have step: "options_update h1 ?t1 c name data = Some (st, t', h')"
          using set find False name room o ty by (simp add: iot_options_set_data_def)
        have ld: "load arr c = Some option_zero" using arr c by (simp add: load_def)
        show ?thesis
        proof (cases ok2)
          case no2: False
          then have "st = STATUS_NO_MEMORY \<and> h' = h2"
            using step g2 ld arr c by (auto simp: options_update_def option_zero_def store_def)
          then show ?thesis using spends_weaken[OF sp2, of 3] am no2 by auto
        next
          case yes2: True
          let ?e = "option_zero\<lparr>opt_name := Some (take IOT_NAME_MAX_LEN name)\<rparr>"
          have put: "options_put h2 ?t1 c ?e data = Some (st, t', h')"
            using step yes2 g2 ld by (simp add: options_update_def option_zero_def)
          have c1: "c < option_count ?t1" "option_count ?t1 \<le> length (option_array ?t1)" using c arr by simp_all
          note sp = put_spends[OF put c1]
          have z: "heap_storage (opt_data ?e) = NULL" "heap_storage (opt_data option_zero) = NULL"
            by (simp_all add: option_zero_def data_zero_def)
          have cells: "cells h2 = cells h" using g1 g2 by simp
          from sp(3) obtain x where x: "set (entries t') \<subseteq> insert x (set (entries ?t1))"
            "heap_storage (opt_data x) = NULL \<or> cells h (heap_storage (opt_data x)) = None"
            using z cells by auto
          have "set (storage (entries t')) \<subseteq> set (storage (entries ?t1)) \<union> {q. cells h q = None}"
            using x(2) by (intro storage_subset[OF x(1)]) auto
          moreover have "set (storage (entries ?t1)) = ?S"
            using z unfolding es1 by (auto simp: storage_def)
          moreover have "spends 3 ?S h h'"
          proof -
            have one: "spends 1 {} h2 h'" using sp(1) z by simp
            have "spends (2 + 1) {} h h'" by (rule spends_trans[OF sp2 one]) simp
            then show ?thesis by (rule spends_weaken) simp_all
          qed
          ultimately show ?thesis using sp(2) am by auto
        qed
      qed
    qed
  qed
qed

section \<open>Setting an option\<close>

lemma result_with:
  "\<exists>a b c. P a b c \<and> R a b c \<Longrightarrow> (\<And>a b c. P a b c \<Longrightarrow> Q a b c) \<Longrightarrow> \<exists>a b c. P a b c \<and> Q a b c \<and> R a b c"
  by blast

text \<open>
  C15: Setting an option refines a map update: on a well-formed table, for every non-empty name
  and readable value, \<open>iot_options_set_data\<close> returns. On success the table is well formed and
  stands for the old map updated at the name's case-folded key (a new entry or an overwritten
  one). With three allocations that succeed, only a full table makes it fail, and then nothing
  changes. When memory runs out: an old entry is dropped and all others stay; a new one is not
  added, to a table that is as it was; but when the array has grown and the name cannot be
  allocated, a nameless entry is left in the table, and that is all that changes in it.
\<close>

theorem options_set_data_refines:
  assumes "options_ok h t" and "name \<noteq> []" and "content_of h data = Some v"
    and "dtype data \<noteq> TYPE_NULL" and "data_pointer data \<notin> set (storage (entries t))"
    and "os_grab h = (array_ok, h1)" and "os_grab h1 = (name_ok, h2)"
  shows "\<exists>st t' h'. iot_options_set_data h t (Some name) data = Some (st, t', h') \<and>
    (ample 3 h \<longrightarrow> st \<noteq> STATUS_NO_MEMORY) \<and>
    (let k = casekey IOT_NAME_MAX_LEN name; m = options_map h t in
      if k \<in> dom m
      then options_ok h' t' \<and> (st = STATUS_SUCCESS \<and> options_map h' t' = m(k \<mapsto> v) \<and> option_count t' = option_count t
        \<or> st = STATUS_NO_MEMORY \<and> options_map h' t' = m(k := None) \<and> option_count t' = option_count t - 1)
      else if option_count t = IOT_OPTION_MAX then st = STATUS_FULL \<and> t' = t \<and> h' = h
      else if \<not> array_ok then st = STATUS_NO_MEMORY \<and> t' = t \<and> h' = h1
      else if \<not> name_ok then st = STATUS_NO_MEMORY \<and> h' = h2 \<and> option_count t' = option_count t + 1
        \<and> (\<exists>c \<le> option_count t. entries t' = insert_at c option_zero (entries t))
      else options_ok h' t' \<and> (st = STATUS_SUCCESS \<and> options_map h' t' = m(k \<mapsto> v) \<and> option_count t' = option_count t + 1
        \<or> st = STATUS_NO_MEMORY \<and> options_map h' t' = m \<and> option_count t' = option_count t))"
proof -
  have shape: "options_shape t" using assms(1) by (simp add: options_ok_def)
  show ?thesis
    by (rule result_with[OF options_set_data_spec[OF assms]]) (use set_spends[OF shape assms(2,4)] in blast)
qed

text \<open>A name that is new, when there is memory for it and when there is none.\<close>

theorem options_set_data_refines_witness:
  "(\<exists>t' h'. iot_options_set_data (example_heap\<lparr>allocator := [Some 24, Some 32, Some 40]\<rparr>) example_options
       (Some ''mode'') (example_text 8) = Some (STATUS_SUCCESS, t', h') \<and> options_ok h' t' \<and>
     options_map h' t' (casekey IOT_NAME_MAX_LEN ''mode'') = Some (Text ''a'') \<and> option_count t' = 2) \<and>
   (\<exists>h'. iot_options_set_data (example_heap\<lparr>allocator := [None]\<rparr>) example_options (Some ''mode'')
       (example_text 8) = Some (STATUS_NO_MEMORY, example_options, h'))"
proof -
  let ?h = "example_heap\<lparr>allocator := [Some 24, Some 32, Some 40]\<rparr>" and ?g = "example_heap\<lparr>allocator := [None]\<rparr>"
  let ?k = "casekey IOT_NAME_MAX_LEN ''mode''"
  have v: "content_of (example_heap\<lparr>allocator := a\<rparr>) (example_text 8) = Some (Text ''a'')" for a
    by (simp add: example_heap_def example_text_def content_of_def read_string_def read_bytes_def
      chars_of_def char_of_def bit_0)
  have sep: "data_pointer (example_text 8) \<notin> set (storage (entries example_options))"
    by (simp add: example_options_def entries_def storage_def example_int64_def data_zero_def)
  have ty: "''mode'' \<noteq> []" "dtype (example_text 8) \<noteq> TYPE_NULL" by (simp_all add: example_text_def)
  have new: "?k \<notin> dom (options_map h example_options)" "option_count example_options = 1" for h
    by (simp_all add: options_map_def example_options_def entries_def entry_pair_def entry_key_def
      casekey_def tolower_def char_of_def bit_0)
  have room: "ample 3 ?h"
    unfolding ample_def by (intro exI[of _ "[24, 32, 40]"] exI[of _ "[]"]) (simp add: example_heap_def)
  have grabs: "os_grab ?h = (True, example_heap\<lparr>allocator := [Some 32, Some 40]\<rparr>)"
    "os_grab (example_heap\<lparr>allocator := [Some 32, Some 40]\<rparr>) = (True, example_heap\<lparr>allocator := [Some 40]\<rparr>)"
    "os_grab ?g = (False, example_heap\<lparr>allocator := []\<rparr>)"
    "os_grab (example_heap\<lparr>allocator := []\<rparr>) = (False, example_heap\<lparr>allocator := []\<rparr>)"
    by (simp_all add: os_grab_def example_heap_def)
  note set = options_set_data_refines[OF example_options_ok ty(1) v ty(2) sep grabs(1,2)]
  note none = options_set_data_refines[OF example_options_ok ty(1) v ty(2) sep grabs(3,4)]
  show ?thesis
    using set room none new by (auto simp: Let_def)
qed

end
