(* ===== verification/Config.thy ===== *)
theory Config
  imports Memory
begin

text \<open>
  The configuration of the client (\<open>src/src/api/iot_base.c\<close>): an option map that is filled from
  configuration files. A file holds a JSON object; each scalar in it becomes an option whose name is
  the path to it, joined with dots.

  The decoder of \<open>src/src/api/json\<close> hands its calls on to an external JSON library. It is a parameter:
  from the text to the tree that its iterators visit. So are the operations on files.
\<close>

section \<open>Settings\<close>

text \<open>The option maps of the library with the one of the configuration (NULL until it is needed).\<close>

record iot_config =
  cf_options :: options_store
  options_config :: ptr

definition iot_config_get ::
    "(string \<Rightarrow> int) \<Rightarrow> (string \<Rightarrow> int) \<Rightarrow> heap \<Rightarrow> iot_config \<Rightarrow> string option \<Rightarrow> bool \<Rightarrow> iot_type \<Rightarrow>
     bool \<Rightarrow> (iot_status \<times> arg_out option) option" where
  "iot_config_get f g h C name convert type dest =
     (case name of
        None \<Rightarrow> Some (STATUS_BAD_PARAMETER, None)
      | Some name \<Rightarrow>
          if options_config C = NULL then Some (STATUS_NOT_FOUND, None)
          else do {
            t \<leftarrow> tables (cf_options C) (options_config C);
            iot_options_get_args f g h t (Some name) convert type dest
          })"

text \<open>The length and the pointer that are stored are zero unless the value was found.\<close>

definition iot_config_get_raw ::
    "(string \<Rightarrow> int) \<Rightarrow> (string \<Rightarrow> int) \<Rightarrow> heap \<Rightarrow> iot_config \<Rightarrow> string option \<Rightarrow> bool \<Rightarrow> bool \<Rightarrow>
     (iot_status \<times> u64 \<times> ptr) option" where
  "iot_config_get_raw f g h C name convert data =
     (if \<not> data then Some (STATUS_BAD_PARAMETER, 0, NULL)
      else do {
        (result, out) \<leftarrow> iot_config_get f g h C name convert TYPE_RAW True;
        Some (result, case out of Some (OutRaw len p) \<Rightarrow> (len, p) | _ \<Rightarrow> (0, NULL))
      })"

definition iot_config_set_data ::
    "heap \<Rightarrow> iot_config \<Rightarrow> string option \<Rightarrow> iot_data \<Rightarrow> (iot_status \<times> iot_config \<times> heap) option" where
  "iot_config_set_data h C name data = do {
     (C, h) \<leftarrow> (if options_config C = NULL
       then do {
         (p, lib, h) \<leftarrow> iot_options_allocate h (cf_options C);
         Some (C\<lparr>cf_options := lib, options_config := p\<rparr>, h)
       }
       else Some (C, h));
     (if options_config C \<noteq> NULL
      then do {
        t \<leftarrow> tables (cf_options C) (options_config C);
        (result, t, h) \<leftarrow> iot_options_set_data h t name data;
        let lib = (cf_options C)\<lparr>tables := (tables (cf_options C))(options_config C \<mapsto> t)\<rparr>;
        Some (result, C\<lparr>cf_options := lib\<rparr>, h)
      }
      else Some (STATUS_NO_MEMORY, C, h))
   }"

text \<open>The status of \<open>iot_common_arg_set\<close> is not looked at.\<close>

definition iot_config_set ::
    "heap \<Rightarrow> iot_config \<Rightarrow> string option \<Rightarrow> iot_type \<Rightarrow> va_arg \<Rightarrow> (iot_status \<times> iot_config \<times> heap) option" where
  "iot_config_set h C name type args =
     (if name \<in> {None, Some []} then Some (STATUS_BAD_PARAMETER, C, h)
      else do {
        (_, data, h) \<leftarrow> iot_common_arg_set True type args h;
        (result, C, h) \<leftarrow> iot_config_set_data h C name data;
        h \<leftarrow> os_free (heap_storage data) h;
        Some (result, C, h)
      })"

definition iot_config_set_raw ::
    "heap \<Rightarrow> iot_config \<Rightarrow> string option \<Rightarrow> u64 \<Rightarrow> ptr \<Rightarrow> (iot_status \<times> iot_config \<times> heap) option" where
  "iot_config_set_raw h C name len p =
     (if name \<in> {None, Some []} then Some (STATUS_BAD_PARAMETER, C, h)
      else iot_config_set_data h C name (data_zero\<lparr>dtype := TYPE_RAW, hi := p, lo := len, has_value := True\<rparr>))"

section \<open>Configuration objects\<close>

datatype json =
    JNull
  | JBool bool
  | JInteger int
  | JReal u64
  | JString string
  | JArray "json list"
  | JObject "(string \<times> json) list"

text \<open>The buffer for a string value: the characters before a NUL, padded with NULs.\<close>

definition string_buffer :: "string \<Rightarrow> block" where
  "string_buffer s =
     (let t = takeWhile (\<lambda>c. c \<noteq> CHR 0x00) s in Bytes (bytes_of t @ replicate (length s - length t + 1) 0))"

definition config_set_string :: "heap \<Rightarrow> iot_config \<Rightarrow> string \<Rightarrow> string \<Rightarrow> (iot_config \<times> heap) option" where
  "config_set_string h C key s =
     (let (v_ptr, h) = os_malloc (string_buffer s) h in
      if v_ptr \<noteq> NULL
      then do {
        (_, C, h) \<leftarrow> iot_config_set h C (Some key) TYPE_STRING (AString v_ptr);
        h \<leftarrow> os_free v_ptr h;
        Some (C, h)
      }
      else Some (C, h))"

definition config_set_scalar :: "heap \<Rightarrow> iot_config \<Rightarrow> string \<Rightarrow> iot_type \<Rightarrow> va_arg \<Rightarrow> (iot_config \<times> heap) option" where
  "config_set_scalar h C key type args = do {
     (_, C, h) \<leftarrow> iot_config_set h C (Some key) type args;
     Some (C, h)
   }"

abbreviation KEY_BUFFER :: nat where "KEY_BUFFER \<equiv> 256"

text \<open>
  The names are built in one buffer: \<open>key\<close> is its content before the member's own name, and a write
  past its end is undefined. A member object is parsed with its name as the new prefix.
\<close>

fun parse_members :: "heap \<Rightarrow> iot_config \<Rightarrow> string \<Rightarrow> (string \<times> json) list \<Rightarrow> (iot_config \<times> heap) option"
  and parse_member :: "heap \<Rightarrow> iot_config \<Rightarrow> string \<Rightarrow> json \<Rightarrow> (iot_config \<times> heap) option" where
  "parse_members h C key [] = Some (C, h)"
| "parse_members h C key ((cur_key, item) # members) =
     (if length (key @ cur_key) < KEY_BUFFER
      then do {
        (C, h) \<leftarrow> parse_member h C (key @ cur_key) item;
        parse_members h C key members
      }
      else None)"
| "parse_member h C key (JBool b) = config_set_scalar h C key TYPE_BOOL (AInt (if b then 1 else 0))"
| "parse_member h C key (JInteger i) = config_set_scalar h C key TYPE_INT64 (AU64 (word_of_int i))"
| "parse_member h C key (JReal x) = config_set_scalar h C key TYPE_FLOAT64 (ADouble x)"
| "parse_member h C key (JString s) = config_set_string h C key s"
| "parse_member h C key (JObject ms) = parse_members h C (if key = [] then [] else key @ ''.'') ms"
| "parse_member h C key (JArray js) = Some (C, h)"
| "parse_member h C key JNull = Some (C, h)"

definition iot_base_configuration_parse_object ::
    "heap \<Rightarrow> iot_config \<Rightarrow> json \<Rightarrow> (iot_config \<times> heap) option" where
  "iot_base_configuration_parse_object h C root =
     (case root of JObject ms \<Rightarrow> parse_members h C [] ms | _ \<Rightarrow> Some (C, h))"

section \<open>Configuration files\<close>

text \<open>
  Opening a file for reading: \<open>None\<close> when there is none of that name, \<open>Some None\<close> when it cannot be
  opened. Reading gives at most the number of bytes asked for.
\<close>

record 'f os_files =
  os_file_open :: "string \<Rightarrow> 'f option option"
  os_file_read :: "'f \<Rightarrow> nat \<Rightarrow> bytes \<times> 'f"
  os_file_eof :: "'f \<Rightarrow> bool"

type_synonym decoder = "bytes \<Rightarrow> json option"

text \<open>
  When the decoder cannot be allocated, the message that is logged was never written. The text of
  an empty file is a bad parameter.
\<close>

definition iot_base_configuration_parse ::
    "decoder \<Rightarrow> heap \<Rightarrow> iot_config \<Rightarrow> bytes \<Rightarrow> (iot_status \<times> iot_config \<times> heap) option" where
  "iot_base_configuration_parse decode h C buf =
     (if buf = [] then Some (STATUS_BAD_PARAMETER, C, h)
      else
        let (json, h) = os_grab h in
        if \<not> json then None
        else (case decode buf of
                Some root \<Rightarrow> do {
                  (C, h) \<leftarrow> iot_base_configuration_parse_object h C root;
                  Some (STATUS_SUCCESS, C, h)
                }
              | None \<Rightarrow> Some (STATUS_PARSE_ERROR, C, h)))"

abbreviation READ_BLOCK_SIZE :: nat where "READ_BLOCK_SIZE \<equiv> 512"

text \<open>The buffer grows before each read, so that reading ends at the latest when memory does.\<close>

function read_loop ::
    "'f os_files \<Rightarrow> 'f \<Rightarrow> bytes \<Rightarrow> heap \<Rightarrow> iot_status \<times> bytes \<times> heap" where
  "read_loop files fd buf h =
     (if allocator h = [] \<or> \<not> fst (os_grab h) then (STATUS_NO_MEMORY, buf, snd (os_grab h))
      else
        let h = snd (os_grab h); (data, fd) = os_file_read files fd READ_BLOCK_SIZE in
        if data = [] then (if os_file_eof files fd then STATUS_SUCCESS else STATUS_FAILURE, buf, h)
        else read_loop files fd (buf @ data) h)"
  by pat_completeness auto
termination
proof (relation "measure (\<lambda>(files, fd, buf, h). length (allocator h))")
  fix h :: heap
  assume "\<not> (allocator h = [] \<or> \<not> fst (os_grab h))"
  then have "length (allocator (snd (os_grab h))) < length (allocator h)"
    by (cases "allocator h") (simp_all add: os_grab_def)
  note less = this
  fix x xa y and files :: "'a os_files" and fd :: 'a and buf :: bytes
  assume "x = snd (os_grab h)"
  then show "((files, y, buf @ xa, x), files, fd, buf, h) \<in> measure (\<lambda>(files, fd, buf, h). length (allocator h))"
    using less by simp
qed simp

declare read_loop.simps [simp del]

definition iot_base_configuration_read ::
    "'f os_files \<Rightarrow> decoder \<Rightarrow> heap \<Rightarrow> iot_config \<Rightarrow> string \<Rightarrow> (iot_status \<times> iot_config \<times> heap) option" where
  "iot_base_configuration_read files decode h C file_path =
     (case os_file_open files file_path of
        None \<Rightarrow> Some (STATUS_NOT_FOUND, C, h)
      | Some None \<Rightarrow> Some (STATUS_FILE_OPEN_FAILED, C, h)
      | Some (Some fd) \<Rightarrow>
          let (result, buf, h) = read_loop files fd [] h in
          if result = STATUS_SUCCESS then iot_base_configuration_parse decode h C buf
          else Some (result, C, h))"

datatype iot_dir_type = DIR_CONFIG | DIR_RUNTIME

primrec directory_format :: "iot_dir_type \<Rightarrow> string" where
  "directory_format DIR_CONFIG = ''/etc/iot''"
| "directory_format DIR_RUNTIME = ''/var/lib/iot''"

text \<open>The length, 0 when the buffer is too small, and the text that is written to the buffer.\<close>

definition iot_directory_name_get :: "iot_dir_type \<Rightarrow> nat option \<Rightarrow> nat \<times> string option" where
  "iot_directory_name_get type buf_len =
     (let dir_fmt = directory_format type; n = length dir_fmt in
      case buf_len of
        None \<Rightarrow> (n, None)
      | Some len \<Rightarrow> if len > n then (n, Some (take (len - 1) dir_fmt)) else (0, None))"

text \<open>The path that names the configuration file; the old one is lost when there is no memory.\<close>

definition iot_configuration_file_set ::
    "heap \<Rightarrow> string option \<Rightarrow> string option \<Rightarrow> iot_status \<times> string option \<times> heap" where
  "iot_configuration_file_set h cfg_file_path file_path =
     (case file_path of
        None \<Rightarrow> (STATUS_BAD_PARAMETER, cfg_file_path, h)
      | Some path \<Rightarrow>
          if length path \<le> PATH_MAX
          then (let (ok, h) = os_grab h in
                if ok then (STATUS_SUCCESS, Some path, h) else (STATUS_NO_MEMORY, None, h))
          else (STATUS_BAD_PARAMETER, cfg_file_path, h))"

text \<open>
  The two files: one for every application, and one of the application's own. The terminating
  NUL is written at the length the whole path would have, whatever fits the buffer.
\<close>

definition global_config_path :: string where
  "global_config_path = directory_format DIR_CONFIG @ ''/iot-connect.cfg''"

definition app_config_path :: "string option \<Rightarrow> string \<Rightarrow> string option" where
  "app_config_path cfg_file_path ident =
     (let path = (case cfg_file_path of
        Some p \<Rightarrow> p | None \<Rightarrow> directory_format DIR_CONFIG @ ''/'' @ ident @ ''.cfg'') in
      if length path \<le> PATH_MAX
      then Some (if cfg_file_path = None then take (PATH_MAX - 1) path else path) else None)"

definition configuration_file ::
    "'f os_files \<Rightarrow> decoder \<Rightarrow> heap \<Rightarrow> iot_config \<Rightarrow> string \<Rightarrow> (iot_status \<times> iot_config \<times> heap) option" where
  "configuration_file files decode h C file_path =
     (if file_path = [] then Some (STATUS_SUCCESS, C, h)
      else do {
        (result, C, h) \<leftarrow> iot_base_configuration_read files decode h C file_path;
        Some (if result \<in> {STATUS_SUCCESS, STATUS_NOT_FOUND} then STATUS_SUCCESS else result, C, h)
      })"

definition iot_base_configuration_load ::
    "'f os_files \<Rightarrow> decoder \<Rightarrow> heap \<Rightarrow> iot_config \<Rightarrow> string option \<Rightarrow> string \<Rightarrow>
     (iot_status \<times> iot_config \<times> heap) option" where
  "iot_base_configuration_load files decode h C cfg_file_path ident = do {
     (result, C, h) \<leftarrow> configuration_file files decode h C global_config_path;
     (if result = STATUS_SUCCESS
      then do {
        path \<leftarrow> app_config_path cfg_file_path ident;
        configuration_file files decode h C path
      }
      else Some (result, C, h))
   }"

section \<open>The configuration as a map\<close>

definition config_table :: "iot_config \<Rightarrow> iot_options" where
  "config_table C = the (tables (cf_options C) (options_config C))"

definition config_map :: "heap \<Rightarrow> iot_config \<Rightarrow> string \<Rightarrow> content option" where
  "config_map h C = (if options_config C = NULL then Map.empty else options_map h (config_table C))"

text \<open>The objects of the heap that belong to the configuration.\<close>

definition config_owns :: "iot_config \<Rightarrow> ptr set" where
  "config_owns C = (if options_config C = NULL then {}
     else insert (options_config C) (set (storage (entries (config_table C)))))"

definition config_ok :: "heap \<Rightarrow> iot_config \<Rightarrow> bool" where
  "config_ok h C \<longleftrightarrow>
     (if options_config C = NULL then length (handles (cf_options C)) < IOT_OPTION_MAX
      else tables (cf_options C) (options_config C) \<noteq> None \<and> options_ok h (config_table C) \<and>
        cells h (options_config C) \<noteq> None \<and> options_config C \<notin> set (storage (entries (config_table C))))"

text \<open>
  What setting an option does to the map: a name that is there is overwritten; a new one is added
  unless the table is full. An option needs a name.
\<close>

definition remember :: "(string \<Rightarrow> content option) \<Rightarrow> string \<times> content \<Rightarrow> (string \<Rightarrow> content option)" where
  "remember m kv = (let k = casekey IOT_NAME_MAX_LEN (fst kv) in
     if fst kv \<noteq> [] \<and> (k \<in> dom m \<or> card (dom m) < IOT_OPTION_MAX) then m(k \<mapsto> snd kv) else m)"

lemma owns_live: "owns h e \<Longrightarrow> heap_storage (opt_data e) \<noteq> NULL \<Longrightarrow> cells h (heap_storage (opt_data e)) \<noteq> None"
  using content_live by (fastforce simp: owns_def)

lemma options_cong:
  assumes "\<forall>q \<in> set (storage (entries t)). cells h' q = cells h q" and "options_ok h t"
  shows "options_ok h' t" and "options_map h' t = options_map h t"
proof -
  have same: "content_of h' (opt_data e) = content_of h (opt_data e)" if "e \<in> set (entries t)" for e
  proof -
    have "owns h e" using assms(2) that by (simp add: options_ok_def list_all_iff)
    then have "data_pointer (opt_data e) = heap_storage (opt_data e)" by (simp add: owns_def)
    moreover have "heap_storage (opt_data e) = NULL \<or> cells h' (heap_storage (opt_data e)) = cells h (heap_storage (opt_data e))"
      using storage_mem[OF that] assms(1) by auto
    ultimately show ?thesis by (intro content_of_cong) simp
  qed
  then show "options_ok h' t" using assms(2) by (simp add: options_ok_def list_all_iff owns_def)
  show "options_map h' t = options_map h t"
    unfolding options_map_def using same by (intro arg_cong[of _ _ map_of] map_cong) (simp_all add: entry_pair_def)
qed

lemma storage_live:
  assumes "options_ok h t" and "q \<in> set (storage (entries t))"
  shows "cells h q \<noteq> None"
proof -
  from assms(2) obtain e where "e \<in> set (entries t)" "q = heap_storage (opt_data e)" "q \<noteq> NULL"
    by (auto simp: storage_def)
  then show ?thesis using assms(1) owns_live by (auto simp: options_ok_def list_all_iff)
qed

lemma config_cong:
  assumes "\<forall>q \<in> config_owns C. cells h' q = cells h q" and "config_ok h C"
  shows "config_ok h' C" and "config_map h' C = config_map h C"
proof -
  have "config_ok h' C \<and> config_map h' C = config_map h C"
  proof (cases "options_config C = NULL")
    case False
    then have "\<forall>q \<in> set (storage (entries (config_table C))). cells h' q = cells h q" "options_ok h (config_table C)"
      using assms by (auto simp: config_owns_def config_ok_def)
    note opt = options_cong[OF this]
    show ?thesis using False assms opt by (simp add: config_ok_def config_map_def config_owns_def)
  qed (use assms(2) in \<open>simp add: config_ok_def config_map_def\<close>)
  then show "config_ok h' C" and "config_map h' C = config_map h C" by simp_all
qed

lemma config_live: "config_ok h C \<Longrightarrow> q \<in> config_owns C \<Longrightarrow> cells h q \<noteq> None"
  using storage_live[of h "config_table C"] by (auto simp: config_ok_def config_owns_def split: if_splits)

lemma card_options:
  assumes "options_shape t"
  shows "card (dom (options_map h t)) = option_count t"
proof -
  have "sorted_wrt (<) (option_keys t)" and len: "length (option_keys t) = option_count t"
    using assms by (simp_all add: options_shape_def option_keys_def)
  then have "distinct (option_keys t)" by (simp add: strict_sorted_iff)
  moreover have "dom (options_map h t) = set (option_keys t)"
    by (simp add: options_map_def dom_map_of_conv_image_fst option_keys_def entry_pair_def image_image)
  ultimately show ?thesis using len distinct_card by metis
qed

text \<open>The table is created when the first option is set.\<close>

lemma config_table_ready:
  assumes ok: "config_ok h C" and room: "ample (n + 2) h"
  obtains C1 h1 where "(if options_config C = NULL
       then do {
         (p, lib, h) \<leftarrow> iot_options_allocate h (cf_options C);
         Some (C\<lparr>cf_options := lib, options_config := p\<rparr>, h)
       }
       else Some (C, h)) = Some (C1, h1)"
    "options_config C1 \<noteq> NULL" "config_ok h1 C1" "config_map h1 C1 = config_map h C"
    "config_owns C1 \<subseteq> config_owns C \<union> {q. cells h q = None}" "spends 2 {} h h1"
proof (cases "options_config C = NULL")
  case False
  then show thesis
    using ok by (intro that[of C h]) (auto intro: spends_weaken[OF spends_refl])
next
  case True
  obtain p h1 where m: "os_malloc (Bytes []) h = (p, h1)" by fastforce
  obtain ok2 h2 where g: "os_grab h1 = (ok2, h2)" by fastforce
  have p: "p \<noteq> NULL" "cells h p = None" "cells h1 = (cells h)(p \<mapsto> Bytes [])" and r1: "ample (n + 1) h1"
    using ample_malloc[OF _ m, of "n + 1"] room by simp_all
  have ok2: ok2 "cells h2 = cells h1" using ample_grab[OF _ g, of n] r1 by simp_all
  let ?t = "\<lparr>option_array = [], option_count = 0\<rparr>"
  let ?C = "C\<lparr>cf_options := (cf_options C)\<lparr>handles := handles (cf_options C) @ [p],
       tables := (tables (cf_options C))(p \<mapsto> ?t)\<rparr>, options_config := p\<rparr>"
  have tab: "config_table ?C = ?t" by (simp add: config_table_def)
  have "options_ok h2 ?t" "options_map h2 ?t = Map.empty" "storage (entries ?t) = []"
    by (simp_all add: options_ok_def options_shape_def entries_def option_keys_def storage_def options_map_def)
  moreover have "spends (1 + 1) {} h h2" by (rule spends_trans[OF spends_malloc[OF m] spends_grab[OF g]]) simp
  ultimately show thesis
    using True ok p m g ok2
    by (intro that[of ?C h2])
      (auto simp: iot_options_allocate_def config_ok_def config_map_def config_owns_def tab numeral_2_eq_2)
qed

lemma config_set_data_spec:
  assumes ok: "config_ok h C" and room: "ample (n + 5) h" and name: "name \<noteq> []"
    and v: "content_of h data = Some v" and ty: "dtype data \<noteq> TYPE_NULL"
    and sep: "data_pointer data \<notin> config_owns C"
  obtains st C' h' where "iot_config_set_data h C (Some name) data = Some (st, C', h')"
    "config_ok h' C'" "config_map h' C' = remember (config_map h C) (name, v)" "st \<noteq> STATUS_NO_MEMORY"
    "config_owns C' \<subseteq> config_owns C \<union> {q. cells h q = None}" "spends 5 (config_owns C) h h'"
proof -
  have "n + 3 + 2 = n + 5" by simp
  then have room': "ample (n + 3 + 2) h" using room by (simp only:)
  obtain C1 h1 where start: "(if options_config C = NULL
       then do {
         (p, lib, h) \<leftarrow> iot_options_allocate h (cf_options C);
         Some (C\<lparr>cf_options := lib, options_config := p\<rparr>, h)
       }
       else Some (C, h)) = Some (C1, h1)"
    and C1: "options_config C1 \<noteq> NULL" "config_ok h1 C1" "config_map h1 C1 = config_map h C"
      "config_owns C1 \<subseteq> config_owns C \<union> {q. cells h q = None}" and sp1: "spends 2 {} h h1"
    by (rule config_table_ready[OF ok room'])
  let ?t = "config_table C1" and ?k = "casekey IOT_NAME_MAX_LEN name"
  have t: "tables (cf_options C1) (options_config C1) = Some ?t" "options_ok h1 ?t"
      "options_config C1 \<notin> set (storage (entries ?t))" "cells h1 (options_config C1) \<noteq> None"
    using C1(1,2) by (auto simp: config_ok_def config_table_def)
  have owns1: "config_owns C1 = insert (options_config C1) (set (storage (entries ?t)))"
    using C1(1) by (simp add: config_owns_def)
  have ptr: "data_pointer data = NULL \<or> cells h (data_pointer data) \<noteq> None"
    using content_live[OF v] by auto
  have v1: "content_of h1 data = Some v"
    using v ptr sp1 content_of_cong[of data h h1] by (auto simp: spends_def)
  have null: "NULL \<notin> set (storage (entries ?t))" by (simp add: storage_def)
  have sep1: "data_pointer data \<notin> set (storage (entries ?t))"
    using sep ptr C1(4) null by (auto simp: owns1)
  have room1: "ample 3 h1" using ample_less[of 3 n h1] spends_ample[OF sp1, of "n + 3"] room' by (simp add: add.commute)
  from options_set_data_cases[OF t(2) name v1 ty sep1] obtain st t' h' where
    set: "iot_options_set_data h1 ?t (Some name) data = Some (st, t', h')" and
    res: "st = STATUS_SUCCESS \<and> options_ok h' t' \<and> options_map h' t' = (options_map h1 ?t)(?k \<mapsto> v)
        \<and> option_count t' = option_count ?t + (if ?k \<in> dom (options_map h1 ?t) then 0 else 1)
      \<or> st = STATUS_NO_MEMORY
      \<or> st = STATUS_FULL \<and> t' = ?t \<and> h' = h1 \<and> ?k \<notin> dom (options_map h1 ?t) \<and> option_count ?t = IOT_OPTION_MAX"
    unfolding Let_def by blast
  have shape: "options_shape ?t" using t(2) by (simp add: options_ok_def)
  note sp2 = set_spends[OF shape name ty set]
  have st: "st \<noteq> STATUS_NO_MEMORY" using sp2 room1 by simp
  have card: "card (dom (options_map h1 ?t)) = option_count ?t" by (rule card_options[OF shape])
  have t': "options_ok h' t'" "options_map h' t' = remember (options_map h1 ?t) (name, v)"
  proof -
    show "options_ok h' t'" using res st t(2) by auto
    show "options_map h' t' = remember (options_map h1 ?t) (name, v)"
    proof (cases "st = STATUS_SUCCESS")
      case True
      then have "option_count t' \<le> IOT_OPTION_MAX" using res by (auto simp: options_ok_def options_shape_def)
      then show ?thesis using True res card name by (auto simp: remember_def Let_def split: if_splits)
    next
      case False
      then show ?thesis using res st card by (auto simp: remember_def Let_def)
    qed
  qed
  let ?C = "C1\<lparr>cf_options := (cf_options C1)\<lparr>tables := (tables (cf_options C1))(options_config C1 \<mapsto> t')\<rparr>\<rparr>"
  have tab: "config_table ?C = t'" by (simp add: config_table_def)
  have keep: "cells h' (options_config C1) = cells h1 (options_config C1)"
    using sp2 t(3,4) by (auto simp: spends_def)
  have stor: "set (storage (entries t')) \<subseteq> set (storage (entries ?t)) \<union> {q. cells h1 q = None}"
    using sp2 st by simp
  have dead: "cells h1 q = None \<Longrightarrow> cells h q = None" for q
    using sp1 by (auto simp: spends_def)
  have "config_ok h' ?C"
    using C1(1) t' keep t(3,4) stor by (auto simp: config_ok_def tab)
  moreover have "config_map h' ?C = remember (config_map h C) (name, v)"
    using C1(1,3) t'(2) by (simp add: config_map_def tab)
  moreover have "config_owns ?C \<subseteq> config_owns C \<union> {q. cells h q = None}"
    using stor C1(1,4) dead by (auto simp: config_owns_def[of ?C] tab owns1)
  moreover have "spends 5 (config_owns C) h h'"
  proof -
    have "spends (2 + 3) (config_owns C) h h'"
    proof (rule spends_trans)
      show "spends 2 (config_owns C) h h1" using spends_weaken[OF sp1] by simp
      show "spends 3 (set (storage (entries ?t))) h1 h'" using sp2 by simp
      show "q \<in> config_owns C \<or> cells h q = None" if "q \<in> set (storage (entries ?t))" for q
        using that C1(4) owns1 by auto
    qed
    then show ?thesis by simp
  qed
  moreover have "iot_config_set_data h C (Some name) data = Some (st, ?C, h')"
    unfolding iot_config_set_data_def start using C1(1) t(1) set by simp
  ultimately show thesis using st that by blast
qed

text \<open>The temporary value is released again.\<close>

lemma spends_dead: "spends k {} h h' \<Longrightarrow> cells h' q = None \<Longrightarrow> cells h q = None"
  by (auto simp: spends_def)

lemma config_null: "NULL \<notin> config_owns C"
  by (auto simp: config_owns_def storage_def)

lemma config_step:
  assumes "config_ok h C" and "spends k {} h h'"
  shows "config_ok h' C" and "config_map h' C = config_map h C"
proof -
  have "\<forall>q \<in> config_owns C. cells h' q = cells h q"
    using config_live[OF assms(1)] assms(2) by (auto simp: spends_def)
  note same = config_cong[OF this assms(1)]
  show "config_ok h' C" and "config_map h' C = config_map h C" by (rule same)+
qed

lemma config_release:
  assumes ok: "config_ok h C" and live: "p = NULL \<or> cells h p \<noteq> None" and p: "p \<notin> config_owns C"
  obtains h' where "os_free p h = Some h'" "config_ok h' C" "config_map h' C = config_map h C"
    "spends 0 ({p} - {NULL}) h h'"
proof -
  obtain h' where f: "os_free p h = Some h'" using live by (cases "p = NULL") (auto simp: os_free_def)
  then have "\<forall>q \<in> config_owns C. cells h' q = cells h q"
    using p by (auto simp: os_free_def split: if_splits)
  note same = config_cong[OF this ok]
  show thesis by (rule that[OF f same spends_free[OF f]])
qed

lemma config_set_spec:
  assumes ok: "config_ok h C" and room: "ample (n + 6) h" and name: "name \<noteq> []"
    and arg: "iot_common_arg_set True type args h = Some (STATUS_SUCCESS, data, h1)"
    and sp1: "spends 1 {} h h1" and v: "content_of h1 data = Some v" and ty: "dtype data \<noteq> TYPE_NULL"
    and own: "data_pointer data = heap_storage data"
    and new: "heap_storage data = NULL \<or> cells h (heap_storage data) = None"
  obtains st C' h' where "iot_config_set h C (Some name) type args = Some (st, C', h')"
    "config_ok h' C'" "config_map h' C' = remember (config_map h C) (name, v)" "st \<noteq> STATUS_NO_MEMORY"
    "config_owns C' \<subseteq> config_owns C \<union> {q. cells h q = None}" "spends 6 (config_owns C) h h'"
proof -
  let ?p = "heap_storage data"
  have p: "?p = NULL \<or> cells h1 ?p \<noteq> None" using content_live[OF v] own by auto
  have room1: "ample (n + 5) h1"
  proof -
    have "(n + 5) + 1 = n + 6" by simp
    then have "ample ((n + 5) + 1) h" using room by (simp only:)
    then show ?thesis by (rule spends_ample[OF sp1])
  qed
  note ok1 = config_step[OF ok sp1]
  have sep: "?p \<notin> config_owns C"
    using new config_live[OF ok] config_null[of C] by (metis (full_types))
  then have "data_pointer data \<notin> config_owns C" using own by simp
  from config_set_data_spec[OF ok1(1) room1 name v ty this] obtain st C' h2 where
    set: "iot_config_set_data h1 C (Some name) data = Some (st, C', h2)" and
    C': "config_ok h2 C'" "config_map h2 C' = remember (config_map h1 C) (name, v)" "st \<noteq> STATUS_NO_MEMORY"
      "config_owns C' \<subseteq> config_owns C \<union> {q. cells h1 q = None}" and sp2: "spends 5 (config_owns C) h1 h2" .
  have "?p = NULL \<or> cells h2 ?p \<noteq> None" using p sep sp2 by (auto simp: spends_def)
  moreover have sep2: "?p \<notin> config_owns C'" using C'(4) sep p config_null[of C'] by auto
  ultimately obtain h3 where f: "os_free ?p h2 = Some h3" "config_ok h3 C'" "config_map h3 C' = config_map h2 C'"
    and sp3: "spends 0 ({?p} - {NULL}) h2 h3" using config_release[OF C'(1)] by metis
  have "spends (1 + 5) (config_owns C) h h2"
    by (rule spends_trans[OF spends_weaken[OF sp1] sp2]) simp_all
  then have "spends (1 + 5 + 0) (config_owns C) h h3"
    by (rule spends_trans[OF _ sp3]) (use new in auto)
  then have "spends 6 (config_owns C) h h3" by simp
  moreover have "iot_config_set h C (Some name) type args = Some (st, C', h3)"
    using name arg set f(1) by (simp add: iot_config_set_def)
  moreover have "config_owns C' \<subseteq> config_owns C \<union> {q. cells h q = None}"
    using C'(4) spends_dead[OF sp1] by auto
  ultimately show thesis using that f(2,3) C'(2,3) ok1(2) by simp
qed

section \<open>What a configuration object sets\<close>

primrec json_content :: "json \<Rightarrow> content option" where
  "json_content JNull = None"
| "json_content (JBool b) = Some (Scalar TYPE_BOOL (if b then 1 else 0) 0)"
| "json_content (JInteger i) = Some (Scalar TYPE_INT64 (word_of_int i) 0)"
| "json_content (JReal x) = Some (Scalar TYPE_FLOAT64 x 0)"
| "json_content (JString s) = Some (Text (takeWhile (\<lambda>c. c \<noteq> CHR 0x00) s))"
| "json_content (JArray js) = None"
| "json_content (JObject ms) = None"

text \<open>The options of an object in the order they are set, and whether every name fits the buffer.\<close>

fun settings :: "string \<Rightarrow> (string \<times> json) list \<Rightarrow> (string \<times> content) list"
  and setting :: "string \<Rightarrow> json \<Rightarrow> (string \<times> content) list" where
  "settings key [] = []"
| "settings key ((k, v) # ms) = setting (key @ k) v @ settings key ms"
| "setting key (JObject ms) = settings (if key = [] then [] else key @ ''.'') ms"
| "setting key v = (case json_content v of Some c \<Rightarrow> [(key, c)] | None \<Rightarrow> [])"

fun names_fit :: "string \<Rightarrow> (string \<times> json) list \<Rightarrow> bool"
  and name_fits :: "string \<Rightarrow> json \<Rightarrow> bool" where
  "names_fit key [] = True"
| "names_fit key ((k, v) # ms) = (length (key @ k) < KEY_BUFFER \<and> name_fits (key @ k) v \<and> names_fit key ms)"
| "name_fits key (JObject ms) = names_fit (if key = [] then [] else key @ ''.'') ms"
| "name_fits key v = True"

text \<open>The effect of setting a list of options.\<close>

definition loads :: "(string \<times> content) list \<Rightarrow> heap \<Rightarrow> iot_config \<Rightarrow> heap \<Rightarrow> iot_config \<Rightarrow> bool" where
  "loads kvs h C h' C' \<longleftrightarrow> config_ok h' C' \<and> config_map h' C' = foldl remember (config_map h C) kvs \<and>
     config_owns C' \<subseteq> config_owns C \<union> {q. cells h q = None} \<and>
     spends (7 * length kvs) (config_owns C) h h'"

lemma loads_nil: "config_ok h C \<Longrightarrow> loads [] h C h C"
  by (auto simp: loads_def)

lemma loads_append:
  assumes a: "loads xs h C h1 C1" and b: "loads ys h1 C1 h2 C2"
  shows "loads (xs @ ys) h C h2 C2"
proof -
  have sp: "spends (7 * length xs) (config_owns C) h h1" and o1: "config_owns C1 \<subseteq> config_owns C \<union> {q. cells h q = None}"
    using a by (simp_all add: loads_def)
  have "spends (7 * length xs + 7 * length ys) (config_owns C) h h2"
    using b by (intro spends_trans[OF sp]) (use o1 in \<open>auto simp: loads_def\<close>)
  moreover have "q \<in> config_owns C \<or> cells h q = None" if "cells h1 q = None" for q
    using sp that by (auto simp: spends_def)
  then have "config_owns C2 \<subseteq> config_owns C \<union> {q. cells h q = None}"
    using b o1 by (auto simp: loads_def)
  ultimately show ?thesis using a b by (simp add: loads_def)
qed

lemma loads_more: "loads kvs h C h' C' \<Longrightarrow> ample (n + 7 * length kvs) h \<Longrightarrow> ample n h'"
  using spends_ample by (auto simp: loads_def)

lemma string_buffer_reads:
  assumes "cells h p = Some (string_buffer s)" and "p \<noteq> NULL"
  shows "read_string p h = Some (takeWhile (\<lambda>c. c \<noteq> CHR 0x00) s)"
proof -
  let ?t = "takeWhile (\<lambda>c. c \<noteq> CHR 0x00) s"
  have "CHR 0x00 \<notin> set ?t" by (auto dest: set_takeWhileD)
  then have "\<forall>x \<in> set (bytes_of ?t). x \<noteq> 0" using bytes_of_zero[of ?t] by auto
  then have "takeWhile (\<lambda>x. x \<noteq> 0) (bytes_of ?t @ replicate (length s - length ?t + 1) 0) = bytes_of ?t"
    by simp
  then show ?thesis using assms by (simp add: read_string_def read_bytes_def string_buffer_def Let_def)
qed

text \<open>A scalar value.\<close>

lemma scalar_loads:
  assumes ok: "config_ok h C" and room: "ample 7 h"
    and arg: "iot_common_arg_set True type args h = Some (STATUS_SUCCESS, data, h)"
    and v: "content_of h data = Some v" and ty: "dtype data \<noteq> TYPE_NULL"
    and none: "data_pointer data = NULL" "heap_storage data = NULL"
  shows "\<exists>C' h'. config_set_scalar h C key type args = Some (C', h') \<and> loads [(key, v)] h C h' C'"
proof (cases "key = []")
  case True
  then have "config_set_scalar h C key type args = Some (C, h)"
    by (simp add: config_set_scalar_def iot_config_set_def)
  moreover have "loads [(key, v)] h C h C"
    using True ok spends_weaken[OF spends_refl, of 7] by (auto simp: loads_def remember_def)
  ultimately show ?thesis by blast
next
  case False
  have room1: "ample (1 + 6) h" using room by simp
  have sp: "spends 1 {} h h" by (rule spends_weaken[OF spends_refl]) simp_all
  have own: "data_pointer data = heap_storage data" "heap_storage data = NULL \<or> cells h (heap_storage data) = None"
    using none by simp_all
  obtain st C' h' where set: "iot_config_set h C (Some key) type args = Some (st, C', h')" "config_ok h' C'"
    "config_map h' C' = remember (config_map h C) (key, v)" "st \<noteq> STATUS_NO_MEMORY"
    "config_owns C' \<subseteq> config_owns C \<union> {q. cells h q = None}" and sp: "spends 6 (config_owns C) h h'"
    by (rule config_set_spec[OF ok room1 False arg sp v ty own])
  note set
  moreover have "spends 7 (config_owns C) h h'" by (rule spends_weaken[OF sp]) simp_all
  ultimately show ?thesis by (simp add: config_set_scalar_def loads_def)
qed

text \<open>A string goes through two temporary copies.\<close>

lemma string_loads:
  assumes ok: "config_ok h C" and room: "ample 7 h"
  shows "\<exists>C' h'. config_set_string h C key s = Some (C', h') \<and>
    loads [(key, Text (takeWhile (\<lambda>c. c \<noteq> CHR 0x00) s))] h C h' C'"
proof -
  let ?t = "takeWhile (\<lambda>c. c \<noteq> CHR 0x00) s"
  obtain p h1 where m1: "os_malloc (string_buffer s) h = (p, h1)" by fastforce
  have a1: "ample (Suc 6) h" using room by simp
  have p: "p \<noteq> NULL" "cells h p = None" "cells h1 = (cells h)(p \<mapsto> string_buffer s)" and r1: "ample 6 h1"
    using ample_malloc[OF a1 m1] by simp_all
  note sp1 = spends_malloc[OF m1]
  note ok1 = config_step[OF ok sp1]
  have pC: "p \<notin> config_owns C" using config_live[OF ok, of p] p(2) by auto
  show ?thesis
  proof (cases "key = []")
    case True
    obtain h2 where f: "os_free p h1 = Some h2" "config_ok h2 C" "config_map h2 C = config_map h1 C"
      and sp2: "spends 0 ({p} - {NULL}) h1 h2"
      by (rule config_release[OF ok1(1) _ pC]) (use p(3) in simp)
    have "spends (1 + 0) (config_owns C) h h2"
      by (rule spends_trans[OF spends_weaken[OF sp1] sp2]) (use p(2) in auto)
    then have "spends 7 (config_owns C) h h2" using spends_weaken by fastforce
    then have "loads [(key, Text ?t)] h C h2 C"
      using f(2,3) ok1(2) True by (auto simp: loads_def remember_def)
    then show ?thesis using True m1 p(1) f(1) by (auto simp: config_set_string_def iot_config_set_def)
  next
    case False
    obtain q h2 where m2: "os_malloc (string_block ?t) h1 = (q, h2)" by fastforce
    have a2: "ample (Suc 5) h1" using r1 by simp
    have q: "q \<noteq> NULL" "cells h1 q = None" "cells h2 = (cells h1)(q \<mapsto> string_block ?t)"
      using ample_malloc[OF a2 m2] by simp_all
    let ?d = "data_zero\<lparr>dtype := TYPE_STRING, has_value := True, heap_storage := q, lo := q\<rparr>"
    have rd: "read_string p h1 = Some ?t" using string_buffer_reads[of h1 p s] p by simp
    have nul: "CHR 0x00 \<notin> set ?t" by (auto dest: set_takeWhileD)
    have arg: "iot_common_arg_set True TYPE_STRING (AString p) h1 = Some (STATUS_SUCCESS, ?d, h2)"
      using p(1) rd m2 q(1) by (simp add: iot_common_arg_set_def arg_set_string_def data_zero_def)
    have v: "content_of h2 ?d = Some (Text ?t)"
      using read_string_block[of h2 q ?t] q nul by (simp add: content_of_def)
    have d: "dtype ?d \<noteq> TYPE_NULL" "data_pointer ?d = heap_storage ?d"
      "heap_storage ?d = NULL \<or> cells h1 (heap_storage ?d) = None"
      using q by (simp_all add: data_pointer_def)
    have r6: "ample (0 + 6) h1" using r1 by simp
    obtain st C' h3 where set: "iot_config_set h1 C (Some key) TYPE_STRING (AString p) = Some (st, C', h3)"
        "config_ok h3 C'" "config_map h3 C' = remember (config_map h1 C) (key, Text ?t)" "st \<noteq> STATUS_NO_MEMORY"
        "config_owns C' \<subseteq> config_owns C \<union> {q. cells h1 q = None}" and sp3: "spends 6 (config_owns C) h1 h3"
      by (rule config_set_spec[OF ok1(1) r6 False arg spends_malloc[OF m2] v d])
    have live: "cells h3 p \<noteq> None" using spends_live[OF sp3] pC p(3) by simp
    have pC': "p \<notin> config_owns C'" using set(5) pC p(3) by auto
    obtain h4 where f: "os_free p h3 = Some h4" "config_ok h4 C'" "config_map h4 C' = config_map h3 C'"
      and sp4: "spends 0 ({p} - {NULL}) h3 h4"
      by (rule config_release[OF set(2) _ pC']) (use live in simp)
    have "spends (1 + 6) (config_owns C) h h3"
      by (rule spends_trans[OF spends_weaken[OF sp1] sp3]) simp_all
    then have "spends (1 + 6 + 0) (config_owns C) h h4"
      by (rule spends_trans[OF _ sp4]) (use p(2) in auto)
    then have "spends 7 (config_owns C) h h4" by simp
    moreover have "config_owns C' \<subseteq> config_owns C \<union> {q. cells h q = None}"
      using set(5) spends_dead[OF sp1] by auto
    ultimately have "loads [(key, Text ?t)] h C h4 C'"
      using f(2,3) set(3) ok1(2) by (simp add: loads_def)
    then show ?thesis using m1 p(1) set(1) f(1) by (auto simp: config_set_string_def)
  qed
qed

lemma member_loads:
  assumes "json_content v = Some c" and "config_ok h C" and "ample 7 h"
  shows "\<exists>C' h'. parse_member h C key v = Some (C', h') \<and> loads [(key, c)] h C h' C'"
proof (cases v)
  case (JString s)
  then show ?thesis using assms(1) string_loads[OF assms(2,3)] by auto
next
  case (JBool b)
  let ?d = "data_zero\<lparr>dtype := TYPE_BOOL, has_value := True, lo := if b then 1 else 0\<rparr>"
  have "take_bit 32 (1 :: u64) = 1" by simp
  then have "iot_common_arg_set True TYPE_BOOL (AInt (if b then 1 else 0)) h = Some (STATUS_SUCCESS, ?d, h)"
    by (simp add: iot_common_arg_set_def arg_set_scalar_def set_member_def data_zero_def)
  from scalar_loads[OF assms(2,3) this, of c key] show ?thesis
    using assms(1) JBool by (simp add: content_of_def data_pointer_def data_zero_def)
next
  case (JInteger i)
  let ?d = "data_zero\<lparr>dtype := TYPE_INT64, has_value := True, lo := word_of_int i\<rparr>"
  have "take_bit 64 (word_of_int i :: u64) = word_of_int i" by (rule take_bit_word_eq_self) simp
  then have "iot_common_arg_set True TYPE_INT64 (AU64 (word_of_int i)) h = Some (STATUS_SUCCESS, ?d, h)"
    by (simp add: iot_common_arg_set_def arg_set_scalar_def set_member_def data_zero_def)
  from scalar_loads[OF assms(2,3) this, of c key] show ?thesis
    using assms(1) JInteger by (simp add: content_of_def data_pointer_def data_zero_def)
next
  case (JReal x)
  let ?d = "data_zero\<lparr>dtype := TYPE_FLOAT64, has_value := True, lo := x\<rparr>"
  have "take_bit 64 x = x" by (rule take_bit_word_eq_self) simp
  then have "iot_common_arg_set True TYPE_FLOAT64 (ADouble x) h = Some (STATUS_SUCCESS, ?d, h)"
    by (simp add: iot_common_arg_set_def arg_set_scalar_def set_member_def data_zero_def)
  from scalar_loads[OF assms(2,3) this, of c key] show ?thesis
    using assms(1) JReal by (simp add: content_of_def data_pointer_def data_zero_def)
qed (use assms(1) in simp_all)

lemma setting_scalar: "json_content v = Some c \<Longrightarrow> setting key v = [(key, c)] \<and> name_fits key v"
  by (cases v) auto

lemma setting_other: "json_content v = None \<Longrightarrow> (\<And>ms. v \<noteq> JObject ms) \<Longrightarrow>
    setting key v = [] \<and> name_fits key v \<and> parse_member h C key v = Some (C, h)"
  by (cases v) auto

lemma member_case:
  assumes "\<forall>ms. v \<noteq> JObject ms" and "config_ok h C" and "ample (7 * length (setting key v)) h"
  shows "if name_fits key v
    then \<exists>C' h'. parse_member h C key v = Some (C', h') \<and> loads (setting key v) h C h' C'
    else parse_member h C key v = None"
proof (cases "json_content v")
  case None
  then show ?thesis using setting_other assms(1) loads_nil[OF assms(2)] by auto
next
  case (Some c)
  then show ?thesis using setting_scalar[OF Some] member_loads[OF Some assms(2)] assms(3) by auto
qed

lemma parse_loads:
  "config_ok h C \<Longrightarrow> ample (7 * length (settings key ms)) h \<Longrightarrow>
   (if names_fit key ms
    then \<exists>C' h'. parse_members h C key ms = Some (C', h') \<and> loads (settings key ms) h C h' C'
    else parse_members h C key ms = None)"
  "config_ok h C \<Longrightarrow> ample (7 * length (setting key v)) h \<Longrightarrow>
   (if name_fits key v
    then \<exists>C' h'. parse_member h C key v = Some (C', h') \<and> loads (setting key v) h C h' C'
    else parse_member h C key v = None)"
proof (induction key ms and key v arbitrary: h C and h C rule: settings_setting.induct)
  case (1 key)
  then show ?case using loads_nil by auto
next
  case (2 key k v ms)
  let ?n = "7 * length (setting (key @ k) v)" and ?m = "7 * length (settings key ms)"
  have room: "ample (?n + ?m) h" using "2.prems"(2) by (simp add: add_mult_distrib2)
  have r1: "ample ?n h" by (rule ample_less[OF room])
  show ?case
  proof (cases "length (key @ k) < KEY_BUFFER \<and> name_fits (key @ k) v")
    case False
    then show ?thesis using "2.IH"(1)[OF "2.prems"(1) r1] by auto
  next
    case True
    then obtain C1 h1 where p1: "parse_member h C (key @ k) v = Some (C1, h1)"
      and l1: "loads (setting (key @ k) v) h C h1 C1" using "2.IH"(1)[OF "2.prems"(1) r1] by auto
    have "ample ?m h1" by (rule loads_more[OF l1]) (use room in \<open>simp add: add.commute\<close>)
    moreover have "config_ok h1 C1" using l1 by (simp add: loads_def)
    ultimately have "if names_fit key ms
        then \<exists>C' h'. parse_members h1 C1 key ms = Some (C', h') \<and> loads (settings key ms) h1 C1 h' C'
        else parse_members h1 C1 key ms = None" using "2.IH"(2) by blast
    then show ?thesis using True p1 loads_append[OF l1] by (auto split: if_splits)
  qed
next
  case (3 key ms)
  then show ?case by simp
qed (rule member_case; simp)+

section \<open>What the configuration files set\<close>

text \<open>The pieces in which a file is read.\<close>

fun delivers :: "'f os_files \<Rightarrow> 'f \<Rightarrow> bytes list \<Rightarrow> bool" where
  "delivers files fd [] \<longleftrightarrow>
     (let (data, fd) = os_file_read files fd READ_BLOCK_SIZE in data = [] \<and> os_file_eof files fd)"
| "delivers files fd (c # cs) \<longleftrightarrow> c \<noteq> [] \<and>
     (let (data, fd) = os_file_read files fd READ_BLOCK_SIZE in data = c \<and> delivers files fd cs)"

lemma read_loop_all:
  assumes "delivers files fd cs" and "ample (n + (length cs + 1)) h"
  obtains h' where "read_loop files fd buf h = (STATUS_SUCCESS, buf @ concat cs, h')"
    "spends (length cs + 1) {} h h'"
proof -
  have "\<exists>h'. read_loop files fd buf h = (STATUS_SUCCESS, buf @ concat cs, h') \<and> spends (length cs + 1) {} h h'"
    using assms
  proof (induction cs arbitrary: fd buf h)
    case Nil
    obtain ok h1 where g: "os_grab h = (ok, h1)" by fastforce
    have "ok" using ample_grab[OF _ g, of n] Nil(2) by simp
    moreover from this have "allocator h \<noteq> []" using g by (auto simp: os_grab_def)
    ultimately show ?case using Nil(1) g spends_grab[OF g]
      by (intro exI[of _ h1]) (auto simp: read_loop.simps[of files fd buf h] Let_def split: prod.splits)
  next
    case (Cons c cs)
    obtain ok h1 where g: "os_grab h = (ok, h1)" by fastforce
    have a: "ample (Suc (n + (length cs + 1))) h" using Cons.prems(2) by simp
    have ok: "ok" and a1: "ample (n + (length cs + 1)) h1" using ample_grab[OF a g] by simp_all
    from ok have ne: "allocator h \<noteq> []" using g by (auto simp: os_grab_def)
    obtain fd' where rd: "os_file_read files fd READ_BLOCK_SIZE = (c, fd')" "c \<noteq> []" "delivers files fd' cs"
      using Cons.prems(1) by (auto split: prod.splits)
    from Cons.IH[OF rd(3) a1, of "buf @ c"] obtain h' where
      l: "read_loop files fd' (buf @ c) h1 = (STATUS_SUCCESS, (buf @ c) @ concat cs, h')"
      and sp: "spends (length cs + 1) {} h1 h'" by blast
    have "spends (1 + (length cs + 1)) {} h h'" by (rule spends_trans[OF spends_grab[OF g] sp]) simp
    then show ?case using ok ne g rd l
      by (intro exI[of _ h']) (simp add: read_loop.simps[of files fd buf h] Let_def)
  qed
  then show thesis using that by blast
qed

text \<open>A file that is missing, or that holds an object.\<close>

definition file_holds :: "'f os_files \<Rightarrow> decoder \<Rightarrow> string \<Rightarrow> bytes list \<Rightarrow> (string \<times> json) list \<Rightarrow> bool" where
  "file_holds files decode path cs ms \<longleftrightarrow>
     os_file_open files path = None \<and> cs = [] \<and> ms = [] \<or>
     (\<exists>fd. os_file_open files path = Some (Some fd) \<and> delivers files fd cs \<and> cs \<noteq> [] \<and>
       decode (concat cs) = Some (JObject ms))"

definition file_cost :: "bytes list \<Rightarrow> (string \<times> json) list \<Rightarrow> nat" where
  "file_cost cs ms = length cs + 2 + 7 * length (settings [] ms)"

lemma file_loads:
  assumes ok: "config_ok h C" and path: "path \<noteq> []" and held: "file_holds files decode path cs ms"
    and room: "ample (n + file_cost cs ms) h"
  shows "if names_fit [] ms
    then \<exists>C' h'. configuration_file files decode h C path = Some (STATUS_SUCCESS, C', h') \<and> config_ok h' C' \<and>
      config_map h' C' = foldl remember (config_map h C) (settings [] ms) \<and> ample n h'
    else configuration_file files decode h C path = None"
proof (cases "os_file_open files path")
  case None
  then have "ms = []" using held by (simp add: file_holds_def)
  moreover have "ample n h" by (rule ample_less[OF room])
  ultimately show ?thesis using None ok path
    by (simp add: configuration_file_def iot_base_configuration_read_def)
next
  case (Some o1)
  then obtain fd where fd: "o1 = Some fd" "delivers files fd cs" "cs \<noteq> []" "decode (concat cs) = Some (JObject ms)"
    using held by (auto simp: file_holds_def)
  let ?m = "7 * length (settings [] ms)"
  have "n + file_cost cs ms = ((n + ?m) + 1) + (length cs + 1)" by (simp add: file_cost_def)
  then have r0: "ample (((n + ?m) + 1) + (length cs + 1)) h" using room by (simp only:)
  obtain h1 where rd: "read_loop files fd [] h = (STATUS_SUCCESS, [] @ concat cs, h1)"
    and sp1: "spends (length cs + 1) {} h h1" by (rule read_loop_all[OF fd(2) r0])
  have ne: "concat cs \<noteq> []" using fd(2,3) by (cases cs) (auto split: prod.splits)
  have r1: "ample ((n + ?m) + 1) h1" by (rule spends_ample[OF sp1 r0])
  obtain got h2 where g: "os_grab h1 = (got, h2)" by fastforce
  have got: got using ample_grab[OF _ g, of "n + ?m"] r1 by simp
  have sp2: "spends (length cs + 1 + 1) {} h h2" by (rule spends_trans[OF sp1 spends_grab[OF g]]) simp
  have r2: "ample (n + ?m) h2" by (rule spends_ample[OF spends_grab[OF g] r1])
  then have r2': "ample ?m h2" using ample_less[of ?m n h2] by (simp add: add.commute)
  note ok2 = config_step[OF ok sp2]
  have run: "configuration_file files decode h C path = (case parse_members h2 C [] ms of
      Some (C', h') \<Rightarrow> Some (STATUS_SUCCESS, C', h') | None \<Rightarrow> None)"
    using Some fd rd ne g got path
    by (simp add: configuration_file_def iot_base_configuration_read_def iot_base_configuration_parse_def
        iot_base_configuration_parse_object_def split: option.splits)
  from parse_loads(1)[OF ok2(1) r2'] show ?thesis
    using loads_more[of "settings [] ms" h2 C _ _ n] r2 ok2(2)
    by (auto simp: run loads_def split: if_splits)
qed

section \<open>Properties\<close>

lemma config_get_spec:
  assumes "config_ok h C"
  shows "case config_map h C (casekey IOT_NAME_MAX_LEN name) of
      None \<Rightarrow> iot_config_get f g h C (Some name) convert type dest = Some (STATUS_NOT_FOUND, None)
    | Some (Text s) \<Rightarrow> \<exists>p. read_string p h = Some s \<and>
        iot_config_get f g h C (Some name) convert TYPE_STRING True = Some (STATUS_SUCCESS, Some (OutString p))
    | _ \<Rightarrow> True"
proof (cases "options_config C = NULL")
  case True
  then show ?thesis by (simp add: config_map_def iot_config_get_def)
next
  case False
  then have t: "tables (cf_options C) (options_config C) = Some (config_table C)" "options_ok h (config_table C)"
    using assms by (auto simp: config_ok_def config_table_def)
  from options_get_spec[OF t(2), where name = name and f = f and g = g and convert = convert and type = type and dest = dest] show ?thesis
    using False t(1)
    by (auto simp: config_map_def iot_config_get_def split: option.splits content.splits)
qed

text \<open>
  C12: Loading the configuration: when the global file and the application's own file are each
  missing or hold an object, the configuration afterwards is the one before with the options of
  the global file, then those of the application, set one by one; so the application's file
  overrides the global one, and a new option is dropped without notice once there are twenty.
  What \<open>iot_config_get\<close> then returns for a name is what this map says. When a dotted name does not
  fit the buffer of 256 characters, the load writes past its end.
\<close>

theorem configuration_loaded:
  assumes ok: "config_ok h C" and path: "app_config_path cfg_file_path ident = Some path" "path \<noteq> []"
    and files: "file_holds files decode global_config_path gs globals" "file_holds files decode path cs ms"
    and room: "ample (file_cost gs globals + file_cost cs ms) h"
  shows "let m = foldl remember (config_map h C) (settings [] globals @ settings [] ms) in
    if names_fit [] globals \<and> names_fit [] ms
    then \<exists>C' h'. iot_base_configuration_load files decode h C cfg_file_path ident = Some (STATUS_SUCCESS, C', h') \<and>
      config_ok h' C' \<and> config_map h' C' = m \<and>
      (\<forall>name. case m (casekey IOT_NAME_MAX_LEN name) of
           None \<Rightarrow> iot_config_get f g h' C' (Some name) False TYPE_STRING True = Some (STATUS_NOT_FOUND, None)
         | Some (Text s) \<Rightarrow> \<exists>p. read_string p h' = Some s \<and>
             iot_config_get f g h' C' (Some name) False TYPE_STRING True = Some (STATUS_SUCCESS, Some (OutString p))
         | _ \<Rightarrow> True)
    else iot_base_configuration_load files decode h C cfg_file_path ident = None"
proof (cases "names_fit [] globals")
  case False
  have "global_config_path \<noteq> []" by (simp add: global_config_path_def)
  from file_loads[OF ok this files(1), of "file_cost cs ms"] show ?thesis
    using False room by (simp add: iot_base_configuration_load_def Let_def add.commute)
next
  case True
  have "global_config_path \<noteq> []" by (simp add: global_config_path_def)
  from file_loads[OF ok this files(1), of "file_cost cs ms"] obtain C1 h1 where
    one: "configuration_file files decode h C global_config_path = Some (STATUS_SUCCESS, C1, h1)" "config_ok h1 C1"
      "config_map h1 C1 = foldl remember (config_map h C) (settings [] globals)" "ample (0 + file_cost cs ms) h1"
    using True room by (auto simp: add.commute)
  have load: "iot_base_configuration_load files decode h C cfg_file_path ident =
      configuration_file files decode h1 C1 path"
    using one(1) path(1) by (simp add: iot_base_configuration_load_def)
  note two = file_loads[OF one(2) path(2) files(2) one(4)]
  show ?thesis
  proof (cases "names_fit [] ms")
    case False
    then show ?thesis using two load by (simp add: Let_def)
  next
    case fit: True
    then obtain C' h' where run: "configuration_file files decode h1 C1 path = Some (STATUS_SUCCESS, C', h')"
      "config_ok h' C'" and m: "config_map h' C' = foldl remember (config_map h C) (settings [] globals @ settings [] ms)"
      using two one(3) by auto
    note get = config_get_spec[OF run(2), where f = f and g = g and convert = False and type = TYPE_STRING and dest = True]
    show ?thesis
      unfolding Let_def load m[symmetric] using True fit run get by simp
  qed
qed

text \<open>The application's file names a log level; there is no global file.\<close>

definition example_json :: "(string \<times> json) list" where
  "example_json = [(''log'', JObject [(''level'', JString ''INFO'')])]"

definition example_files :: "nat os_files" where
  "example_files = \<lparr>os_file_open = (\<lambda>path. if path = ''app'' then Some (Some 0) else None),
     os_file_read = (\<lambda>fd n. if fd = 0 then ([7], 1) else ([], 1)), os_file_eof = (\<lambda>fd. fd = 1)\<rparr>"

definition example_memory :: heap where
  "example_memory = \<lparr>cells = Map.empty, allocator =
     map Some [8, 16, 24, 32, 40, 48, 56, 64, 72, 80, 88, 96]\<rparr>"

definition example_config :: iot_config where
  "example_config = \<lparr>cf_options = \<lparr>handles = [], tables = Map.empty\<rparr>, options_config = NULL\<rparr>"

lemma example_memory_ample: "ample 12 example_memory"
  unfolding ample_def example_memory_def
  by (intro exI[of _ "[8, 16, 24, 32, 40, 48, 56, 64, 72, 80, 88, 96]"] exI[of _ "[]"]) simp

theorem configuration_loaded_witness:
  "\<exists>C' h' p. iot_base_configuration_load example_files (\<lambda>_. Some (JObject example_json)) example_memory example_config
      (Some ''app'') ''demo'' = Some (STATUS_SUCCESS, C', h') \<and>
    read_string p h' = Some ''INFO'' \<and>
    iot_config_get (\<lambda>_. 0) (\<lambda>_. 0) h' C' (Some ''log.level'') False TYPE_STRING True =
      Some (STATUS_SUCCESS, Some (OutString p))"
proof -
  have ok: "config_ok example_memory example_config" "config_map example_memory example_config = Map.empty"
    by (simp_all add: config_ok_def example_config_def config_map_def)
  have path: "app_config_path (Some ''app'') ''demo'' = Some ''app''" by (simp add: app_config_path_def)
  have files: "file_holds example_files (\<lambda>_. Some (JObject example_json)) global_config_path [] []"
    "file_holds example_files (\<lambda>_. Some (JObject example_json)) ''app'' [[7]] example_json"
    by (simp_all add: file_holds_def example_files_def global_config_path_def)
  have sets: "settings [] example_json = [(''log.level'', Text ''INFO'')]" by (simp add: example_json_def)
  have fit: "names_fit [] example_json" by (simp add: example_json_def)
  have room: "ample (file_cost [] [] + file_cost [[7]] example_json) example_memory"
    using example_memory_ample by (simp add: file_cost_def sets)
  have m: "foldl remember Map.empty [(''log.level'', Text ''INFO'')] =
      [casekey IOT_NAME_MAX_LEN ''log.level'' \<mapsto> Text ''INFO'']" by (simp add: remember_def)
  let ?key = "casekey IOT_NAME_MAX_LEN ''log.level''"
  have "\<exists>C' h'. iot_base_configuration_load example_files (\<lambda>_. Some (JObject example_json)) example_memory
      example_config (Some ''app'') ''demo'' = Some (STATUS_SUCCESS, C', h') \<and> config_ok h' C' \<and>
    config_map h' C' = [?key \<mapsto> Text ''INFO''] \<and>
    (\<forall>name. case [?key \<mapsto> Text ''INFO''] (casekey IOT_NAME_MAX_LEN name) of
         None \<Rightarrow> iot_config_get (\<lambda>_. 0) (\<lambda>_. 0) h' C' (Some name) False TYPE_STRING True = Some (STATUS_NOT_FOUND, None)
       | Some (Text s) \<Rightarrow> \<exists>p. read_string p h' = Some s \<and>
           iot_config_get (\<lambda>_. 0) (\<lambda>_. 0) h' C' (Some name) False TYPE_STRING True = Some (STATUS_SUCCESS, Some (OutString p))
       | _ \<Rightarrow> True)"
    using configuration_loaded[OF ok(1) path _ files room, where f = "\<lambda>_. 0" and g = "\<lambda>_. 0"] fit
    by (simp only: sets m ok(2) Let_def settings.simps(1) names_fit.simps(1) append_Nil if_True simp_thms list.distinct not_False_eq_True)
  then obtain C' h' where
    run: "iot_base_configuration_load example_files (\<lambda>_. Some (JObject example_json)) example_memory example_config
      (Some ''app'') ''demo'' = Some (STATUS_SUCCESS, C', h')" and
    get: "\<forall>name. case [?key \<mapsto> Text ''INFO''] (casekey IOT_NAME_MAX_LEN name) of
         None \<Rightarrow> iot_config_get (\<lambda>_. 0) (\<lambda>_. 0) h' C' (Some name) False TYPE_STRING True = Some (STATUS_NOT_FOUND, None)
       | Some (Text s) \<Rightarrow> \<exists>p. read_string p h' = Some s \<and>
           iot_config_get (\<lambda>_. 0) (\<lambda>_. 0) h' C' (Some name) False TYPE_STRING True = Some (STATUS_SUCCESS, Some (OutString p))
       | _ \<Rightarrow> True" by (elim exE conjE) (rule that)
  have "\<exists>p. read_string p h' = Some ''INFO'' \<and> iot_config_get (\<lambda>_. 0) (\<lambda>_. 0) h' C' (Some ''log.level'') False
        TYPE_STRING True = Some (STATUS_SUCCESS, Some (OutString p))"
    using spec[OF get, of "''log.level''"] by simp
  then show ?thesis using run by blast
qed

end
