(* ===== verification/Files.thy ===== *)
theory Files
  imports Config
begin

text \<open>
  What is handed to the plug-ins as it comes (\<open>src/src/api/iot_attribute.c\<close>, \<open>iot_event.c\<close>) and the
  transfer of files (\<open>iot_file.c\<close>): the local path and the name in the cloud of what is transferred,
  and the archive that stands for a directory.

  Directories and the file system belong to the OS abstraction library, archives to an external one:
  parameters. An archive is modelled as the list of the entries that are written to it.
\<close>

section \<open>Attributes and events\<close>

definition iot_attribute_publish_string ::
    "(string \<Rightarrow> int) \<Rightarrow> (string \<Rightarrow> int) \<Rightarrow> 's iot_lib \<Rightarrow> bool \<Rightarrow> (heap \<times> iot_options) option \<Rightarrow> string option \<Rightarrow>
     string option \<Rightarrow> 's \<Rightarrow> (iot_status \<times> u8 option \<times> 's iot_lib \<times> 's) option" where
  "iot_attribute_publish_string f g lib txn options key val s =
     (case (key, val) of
        (Some key, Some val) \<Rightarrow>
          perform_op f g lib txn None OPERATION_ATTRIBUTE_PUBLISH NULL (ValueAttribute key val) options s
      | _ \<Rightarrow> Some (STATUS_BAD_PARAMETER, None, lib, s))"

definition iot_event_publish ::
    "(string \<Rightarrow> int) \<Rightarrow> (string \<Rightarrow> int) \<Rightarrow> 's iot_lib \<Rightarrow> bool \<Rightarrow> (heap \<times> iot_options) option \<Rightarrow> string option \<Rightarrow>
     's \<Rightarrow> (iot_status \<times> u8 option \<times> 's iot_lib \<times> 's) option" where
  "iot_event_publish f g lib txn options message s =
     perform_op f g lib txn None OPERATION_EVENT_PUBLISH NULL (ValueText message) options s"

section \<open>Archives\<close>

text \<open>
  \<open>os_directory_next\<close> writes the next name to the buffer, whose content it is given. Its status is not
  looked at: the walk ends with a file that cannot be opened.
\<close>

record ('f, 'd) os_paths = "'f os_files" +
  os_directory_open :: "string \<Rightarrow> 'd option"
  os_directory_next :: "'d \<Rightarrow> string \<Rightarrow> string \<times> 'd"
  os_file_size :: "string \<Rightarrow> nat"
  os_directory_exists :: "string \<Rightarrow> bool"
  os_file_exists :: "string \<Rightarrow> bool"
  os_directory_create :: "string \<Rightarrow> bool"
  os_file_temp :: "string \<Rightarrow> string"

text \<open>An entry of an archive: name, size as the file system tells it, and data.\<close>

type_synonym archive_entry = "string \<times> nat \<times> bytes"

partial_function (option) archive_data :: "('f, 'd) os_paths \<Rightarrow> 'f \<Rightarrow> bytes \<Rightarrow> bytes option" where
  "archive_data os fd data =
     (case os_file_read os fd 1024 of
        (buff, fd) \<Rightarrow> if buff = [] then Some data else archive_data os fd (data @ buff))"

partial_function (option) archive_walk ::
    "('f, 'd) os_paths \<Rightarrow> 'd \<Rightarrow> string \<Rightarrow> archive_entry list \<Rightarrow> iot_status \<Rightarrow> (iot_status \<times> archive_entry list) option" where
  "archive_walk os dir file_name written result =
     (case os_directory_next os dir file_name of
        (file_name, dir) \<Rightarrow>
          (case os_file_open os file_name of
             Some (Some fd) \<Rightarrow> Option.bind (archive_data os fd [])
               (\<lambda>data. archive_walk os dir file_name (written @ [(file_name, os_file_size os file_name, data)]) STATUS_SUCCESS)
           | _ \<Rightarrow> Some (result, written)))"

text \<open>The buffer holds \<open>junk\<close> before the first name. A directory without files is a bad parameter.\<close>

definition iot_file_archive_directory ::
    "('f, 'd) os_paths \<Rightarrow> string \<Rightarrow> string \<Rightarrow> (iot_status \<times> archive_entry list) option" where
  "iot_file_archive_directory os junk path =
     (case os_directory_open os path of
        None \<Rightarrow> Some (STATUS_BAD_PARAMETER, [])
      | Some dir \<Rightarrow> archive_walk os dir junk [] STATUS_BAD_PARAMETER)"

section \<open>Transfers\<close>

text \<open>
  The local path: one that does not begin with a separator is relative to a directory of the library.
  A path that is NULL is printed as a string, which is undefined; \<open>None\<close> in the result is the path for
  which there was no memory.
\<close>

abbreviation OS_DIR_SEP :: char where "OS_DIR_SEP \<equiv> CHR ''/''"

definition transfer_directory :: "iot_operation \<Rightarrow> string" where
  "transfer_directory op = directory_format DIR_RUNTIME @
     (if op = OPERATION_FILE_UPLOAD then ''/upload'' else ''/download'')"

definition transfer_path :: "iot_operation \<Rightarrow> string option \<Rightarrow> heap \<Rightarrow> (string option \<times> heap) option" where
  "transfer_path op file_path h =
     (if file_path \<noteq> None \<and> the file_path \<noteq> [] \<and> hd (the file_path) = OS_DIR_SEP
      then Some (file_path, h)
      else
        let (ok, h) = os_grab h in
        if \<not> ok then Some (None, h)
        else (case file_path of
            None \<Rightarrow> None
          | Some p \<Rightarrow> Some (Some (transfer_directory op @ [OS_DIR_SEP] @ p), h)))"

text \<open>
  The name of the archive of a directory: its path without the separators at both ends, the others
  turned into dashes. The name of a file is what follows the last separator.
\<close>

definition archive_name :: "string \<Rightarrow> string" where
  "archive_name path =
     (let heap_name = rev (dropWhile (\<lambda>c. c = OS_DIR_SEP) (rev path)) @ ''.tar'';
          pos = dropWhile (\<lambda>c. c = OS_DIR_SEP) heap_name
      in map (\<lambda>c. if c = OS_DIR_SEP then CHR ''-'' else c) pos)"

definition after_separator :: "string \<Rightarrow> string option" where
  "after_separator path =
     (if OS_DIR_SEP \<in> set path then Some (rev (takeWhile (\<lambda>c. c \<noteq> OS_DIR_SEP) (rev path))) else None)"

definition before_separator :: "string \<Rightarrow> string option" where
  "before_separator path =
     (if OS_DIR_SEP \<in> set path then Some (rev (tl (dropWhile (\<lambda>c. c \<noteq> OS_DIR_SEP) (rev path)))) else None)"

definition transfer_name ::
    "('f, 'd) os_paths \<Rightarrow> string option \<Rightarrow> string \<Rightarrow> heap \<Rightarrow> (string option \<times> heap) option" where
  "transfer_name os file_name path h =
     (if file_name \<noteq> None \<and> the file_name \<noteq> [] then Some (file_name, h)
      else if os_directory_exists os path
      then (let (ok, h) = os_grab h in Some (if ok then Some (archive_name path) else None, h))
      else map_option (\<lambda>name. (Some name, h)) (after_separator path))"

text \<open>
  What is uploaded: a file as it is, a directory as an archive in the directory of the library, which
  is written first. The result: status, path, archive and heap.
\<close>

definition archive_path :: string where
  "archive_path = directory_format DIR_RUNTIME @ ''/fileXXXXXX.tar''"

definition upload_source ::
    "('f, 'd) os_paths \<Rightarrow> string \<Rightarrow> string \<Rightarrow> heap \<Rightarrow>
     (iot_status \<times> string \<times> (string \<times> archive_entry list) option \<times> heap) option" where
  "upload_source os junk path h =
     (if os_directory_exists os path
      then (let (ok, h) = os_grab h in
        if \<not> ok then Some (STATUS_NO_MEMORY, path, None, h)
        else do {
          let temp = os_file_temp os archive_path;
          (result, written) \<leftarrow> iot_file_archive_directory os junk path;
          Some (result, if result = STATUS_SUCCESS then temp else path, Some (temp, written), h)
        })
      else Some (if os_file_exists os path then STATUS_SUCCESS else STATUS_FAILURE, path, None, h))"

text \<open>
  Where a download goes: the directory is created when it does not exist. Its path is copied to a
  buffer, where a longer one is not terminated.
\<close>

definition download_target :: "('f, 'd) os_paths \<Rightarrow> string \<Rightarrow> iot_status option" where
  "download_target os path =
     (if length path < PATH_MAX
      then do {
        dir \<leftarrow> before_separator path;
        Some (if os_file_exists os dir \<or> os_directory_create os dir then STATUS_SUCCESS else STATUS_FAILURE)
      }
      else None)"

definition iot_file_transfer ::
    "(string \<Rightarrow> int) \<Rightarrow> (string \<Rightarrow> int) \<Rightarrow> ('f, 'd) os_paths \<Rightarrow> string \<Rightarrow> 's iot_lib \<Rightarrow> bool \<Rightarrow>
     (heap \<times> iot_options) option \<Rightarrow> iot_operation \<Rightarrow> string option \<Rightarrow> string option \<Rightarrow> heap \<Rightarrow> 's \<Rightarrow>
     (iot_status \<times> u8 option \<times> (string \<times> archive_entry list) option \<times> 's iot_lib \<times> heap \<times> 's) option" where
  "iot_file_transfer f g os junk lib txn options op file_name file_path h s = do {
     (path, h) \<leftarrow> transfer_path op file_path h;
     path \<leftarrow> path;
     (name, h) \<leftarrow> transfer_name os file_name path h;
     (result, path, archive, h) \<leftarrow> (if op = OPERATION_FILE_UPLOAD then upload_source os junk path h
       else map_option (\<lambda>r. (r, path, None, h)) (download_target os path));
     (if result = STATUS_SUCCESS
      then do {
        (result, tx, lib, s) \<leftarrow> perform_op f g lib txn None op NULL (ValueTransfer name path) options s;
        Some (result, tx, archive, lib, h, s)
      }
      else Some (result, None, archive, lib, h, s))
   }"

definition iot_file_download ::
    "(string \<Rightarrow> int) \<Rightarrow> (string \<Rightarrow> int) \<Rightarrow> ('f, 'd) os_paths \<Rightarrow> string \<Rightarrow> 's iot_lib \<Rightarrow> bool \<Rightarrow>
     (heap \<times> iot_options) option \<Rightarrow> string option \<Rightarrow> string option \<Rightarrow> heap \<Rightarrow> 's \<Rightarrow>
     (iot_status \<times> u8 option \<times> (string \<times> archive_entry list) option \<times> 's iot_lib \<times> heap \<times> 's) option" where
  "iot_file_download f g os junk lib txn options file_name file_path h s =
     (if file_path = None then Some (STATUS_BAD_PARAMETER, None, None, lib, h, s)
      else iot_file_transfer f g os junk lib txn options OPERATION_FILE_DOWNLOAD file_name file_path h s)"

definition iot_file_upload ::
    "(string \<Rightarrow> int) \<Rightarrow> (string \<Rightarrow> int) \<Rightarrow> ('f, 'd) os_paths \<Rightarrow> string \<Rightarrow> 's iot_lib \<Rightarrow> bool \<Rightarrow>
     (heap \<times> iot_options) option \<Rightarrow> string option \<Rightarrow> string option \<Rightarrow> heap \<Rightarrow> 's \<Rightarrow>
     (iot_status \<times> u8 option \<times> (string \<times> archive_entry list) option \<times> 's iot_lib \<times> heap \<times> 's) option" where
  "iot_file_upload f g os junk lib txn options file_name file_path h s =
     iot_file_transfer f g os junk lib txn options OPERATION_FILE_UPLOAD file_name file_path h s"

text \<open>What a callback can ask of the progress of a transfer.\<close>

record iot_file_progress =
  pr_completed :: bool
  pr_percentage :: u32
  pr_status :: iot_status

definition iot_file_progress_get ::
    "iot_file_progress option \<Rightarrow> bool \<times> bool \<times> bool \<Rightarrow>
     iot_status \<times> iot_status option \<times> u32 option \<times> bool option" where
  "iot_file_progress_get progress wanted =
     (case (progress, wanted) of
        (None, _) \<Rightarrow> (STATUS_BAD_PARAMETER, None, None, None)
      | (Some p, status, percentage, is_completed) \<Rightarrow>
          (STATUS_SUCCESS, if status then Some (pr_status p) else None,
           if percentage then Some (pr_percentage p) else None,
           if is_completed then Some (pr_completed p) else None))"

section \<open>Paths and names\<close>

definition local_path :: "iot_operation \<Rightarrow> string \<Rightarrow> string" where
  "local_path op p = (if p \<noteq> [] \<and> hd p = OS_DIR_SEP then p else transfer_directory op @ [OS_DIR_SEP] @ p)"

lemma local_path_sep: "OS_DIR_SEP \<in> set (local_path op p)"
  by (cases p) (auto simp: local_path_def)

lemma transfer_path_spec:
  assumes "ample (Suc n) h"
  obtains h' where "transfer_path op (Some p) h = Some (Some (local_path op p), h')" "cells h' = cells h" "ample n h'"
proof (cases "p \<noteq> [] \<and> hd p = OS_DIR_SEP")
  case True
  have "ample (n + 1) h" using assms by simp
  then have "ample n h" by (rule ample_less)
  then show thesis using that[of h] True by (simp add: transfer_path_def local_path_def)
next
  case False
  obtain ok h1 where g: "os_grab h = (ok, h1)" by fastforce
  have "ok" "cells h1 = cells h" "ample n h1" using ample_grab[OF assms g] by simp_all
  then show thesis using that[of h1] False g by (simp add: transfer_path_def local_path_def)
qed

lemma split_separator:
  assumes "OS_DIR_SEP \<in> set path"
  obtains dir base where "path = dir @ OS_DIR_SEP # base" "OS_DIR_SEP \<notin> set base"
    "before_separator path = Some dir" "after_separator path = Some base"
proof -
  obtain dir base where p: "path = dir @ OS_DIR_SEP # base" "OS_DIR_SEP \<notin> set base"
    using split_list_last[OF assms] by blast
  have "takeWhile (\<lambda>c. c \<noteq> OS_DIR_SEP) (rev base @ OS_DIR_SEP # rev dir) = rev base"
    "dropWhile (\<lambda>c. c \<noteq> OS_DIR_SEP) (rev base @ OS_DIR_SEP # rev dir) = OS_DIR_SEP # rev dir"
    using p(2) by (auto simp: takeWhile_append2 dropWhile_append3 takeWhile_append dropWhile_append)
  then show thesis using that p by (simp add: before_separator_def after_separator_def)
qed

text \<open>The name for the cloud when the caller gives none.\<close>

definition derived_name :: "('f, 'd) os_paths \<Rightarrow> string \<Rightarrow> string" where
  "derived_name os path = (if os_directory_exists os path then archive_name path else the (after_separator path))"

definition cloud_name :: "('f, 'd) os_paths \<Rightarrow> string option \<Rightarrow> string \<Rightarrow> string" where
  "cloud_name os file_name path =
     (case file_name of Some n \<Rightarrow> if n = [] then derived_name os path else n | None \<Rightarrow> derived_name os path)"

lemma derived_name_flat: "OS_DIR_SEP \<in> set path \<Longrightarrow> OS_DIR_SEP \<notin> set (derived_name os path)"
  by (auto simp: derived_name_def archive_name_def after_separator_def Let_def split: if_splits dest: set_takeWhileD)

lemma transfer_name_spec:
  assumes "ample (Suc n) h" and "OS_DIR_SEP \<in> set path"
  obtains h' where "transfer_name os file_name path h = Some (Some (cloud_name os file_name path), h')"
    "cells h' = cells h" "ample n h'"
proof -
  obtain ok h1 where g: "os_grab h = (ok, h1)" by fastforce
  have g': "ok" "cells h1 = cells h" "ample n h1" using ample_grab[OF assms(1) g] by simp_all
  have "ample (n + 1) h" using assms(1) by simp
  then have l: "ample n h" by (rule ample_less)
  show thesis
  proof (cases "(file_name = None \<or> file_name = Some []) \<and> os_directory_exists os path")
    case True
    then show thesis
      using that[of h1] g g' by (auto simp: transfer_name_def cloud_name_def derived_name_def)
  next
    case False
    then show thesis
      using that[of h] l assms(2)
      by (cases file_name) (auto simp: transfer_name_def cloud_name_def derived_name_def after_separator_def)
  qed
qed

section \<open>The walk over a directory\<close>

fun yields :: "('f, 'd) os_paths \<Rightarrow> 'f \<Rightarrow> bytes list \<Rightarrow> bool" where
  "yields os fd [] \<longleftrightarrow> fst (os_file_read os fd 1024) = []"
| "yields os fd (c # cs) \<longleftrightarrow>
     (case os_file_read os fd 1024 of (data, fd) \<Rightarrow> c \<noteq> [] \<and> data = c \<and> yields os fd cs)"

lemma archive_data_all: "yields os fd cs \<Longrightarrow> archive_data os fd data = Some (data @ concat cs)"
proof (induction cs arbitrary: fd data)
  case Nil
  then show ?case by (cases "os_file_read os fd 1024") (simp add: archive_data.simps[of os fd])
next
  case (Cons c cs)
  then show ?case by (simp add: archive_data.simps[of os fd] split: prod.splits)
qed

text \<open>
  What a directory holds: the names it gives, in order and whatever is in the buffer, up to its end.
  A file that opens yields its content in some pieces. Neither depends on when the walk stops.
\<close>

fun enumerates :: "('f, 'd) os_paths \<Rightarrow> 'd \<Rightarrow> string list \<Rightarrow> 'd \<Rightarrow> bool" where
  "enumerates os dir [] fin \<longleftrightarrow> dir = fin"
| "enumerates os dir (n # ns) fin \<longleftrightarrow>
     (\<exists>dir'. (\<forall>buf. os_directory_next os dir buf = (n, dir')) \<and> enumerates os dir' ns fin)"

definition opens :: "('f, 'd) os_paths \<Rightarrow> string \<Rightarrow> bool" where
  "opens os n \<longleftrightarrow> (\<exists>fd. os_file_open os n = Some (Some fd))"

definition readable :: "('f, 'd) os_paths \<Rightarrow> string \<times> bytes list \<Rightarrow> bool" where
  "readable os e \<longleftrightarrow> (\<exists>fd. os_file_open os (fst e) = Some (Some fd) \<and> yields os fd (snd e))"

definition archive_of :: "('f, 'd) os_paths \<Rightarrow> (string \<times> bytes list) list \<Rightarrow> archive_entry list" where
  "archive_of os es = map (\<lambda>(name, cs). (name, os_file_size os name, concat cs)) es"

lemma archive_walk_end:
  "\<not> opens os (fst (os_directory_next os dir buf)) \<Longrightarrow>
    archive_walk os dir buf written result = Some (result, written)"
  by (subst archive_walk.simps) (auto simp: opens_def split: prod.splits option.splits)

lemma archive_walk_file:
  assumes "os_directory_next os dir buf = (n, dir')" and "readable os (n, cs)"
  shows "archive_walk os dir buf written result =
    archive_walk os dir' n (written @ archive_of os [(n, cs)]) STATUS_SUCCESS"
  using assms by (subst archive_walk.simps) (auto simp: archive_of_def readable_def archive_data_all)

text \<open>The files in front of the first one that does not open are archived; then the walk is over.\<close>

lemma archive_walk_prefix:
  assumes "enumerates os dir ns fin" and "map fst es = takeWhile (opens os) ns" and "\<forall>e \<in> set es. readable os e"
    and "\<not> opens os (if list_all (opens os) ns then fst (os_directory_next os fin (last (buf # ns)))
      else hd (dropWhile (opens os) ns))"
  shows "archive_walk os dir buf written result =
     Some (if es = [] then result else STATUS_SUCCESS, written @ archive_of os es)"
  using assms
proof (induction ns arbitrary: dir buf es written result)
  case Nil
  then show ?case by (simp add: archive_walk_end archive_of_def)
next
  case (Cons n ns)
  obtain dir' where d: "os_directory_next os dir buf = (n, dir')" "enumerates os dir' ns fin" using Cons.prems(1) by auto
  show ?case
  proof (cases "opens os n")
    case False
    then show ?thesis using Cons.prems(2) d(1) by (simp add: archive_walk_end archive_of_def)
  next
    case True
    then obtain cs es' where es: "es = (n, cs) # es'" "map fst es' = takeWhile (opens os) ns"
      using Cons.prems(2) by (cases es) auto
    have "\<forall>e \<in> set es'. readable os e" using Cons.prems(3) es(1) by simp
    moreover have "\<not> opens os (if list_all (opens os) ns then fst (os_directory_next os fin (last (n # ns)))
        else hd (dropWhile (opens os) ns))"
      using Cons.prems(4) True by (cases ns) (auto split: if_splits)
    ultimately have "archive_walk os dir' n (written @ archive_of os [(n, cs)]) STATUS_SUCCESS =
        Some (STATUS_SUCCESS, (written @ archive_of os [(n, cs)]) @ archive_of os es')"
      using Cons.IH[OF d(2) es(2), of n "written @ archive_of os [(n, cs)]" STATUS_SUCCESS] by simp
    moreover have "readable os (n, cs)" using Cons.prems(3) es(1) by simp
    ultimately show ?thesis
      unfolding es(1) archive_walk_file[OF d(1) \<open>readable os (n, cs)\<close>] by (simp add: archive_of_def)
  qed
qed

text \<open>A directory that leaves the buffer as it is at its end is walked for ever.\<close>

lemma archive_walk_stuck:
  assumes "os_directory_next os dir buf = (buf, dir)" and "os_file_open os buf = Some (Some fd)"
  shows "archive_walk os dir buf written result = None"
proof (rule ccontr)
  assume "archive_walk os dir buf written result \<noteq> None"
  then obtain r where "archive_walk os dir buf written result = Some r" by blast
  then have "\<not> (os_directory_next os dir buf = (buf, dir) \<and> os_file_open os buf = Some (Some fd))"
    by (rule archive_walk.raw_induct[where P = "\<lambda>os dir buf _ _ _.
        \<not> (os_directory_next os dir buf = (buf, dir) \<and> os_file_open os buf = Some (Some fd))", rotated])
      (auto simp: bind_eq_Some_conv)
  then show False using assms by simp
qed

lemma archive_walk_endless:
  assumes "enumerates os dir ns fin" and "map fst es = ns" and "\<forall>e \<in> set es. readable os e"
    and "os_directory_next os fin (last (buf # ns)) = (last (buf # ns), fin)" and "opens os (last (buf # ns))"
  shows "archive_walk os dir buf written result = None"
  using assms
proof (induction ns arbitrary: dir buf es written result)
  case Nil
  then show ?case by (auto simp: opens_def intro: archive_walk_stuck)
next
  case (Cons n ns)
  obtain dir' where d: "os_directory_next os dir buf = (n, dir')" "enumerates os dir' ns fin" using Cons.prems(1) by auto
  obtain cs es' where es: "es = (n, cs) # es'" "map fst es' = ns" using Cons.prems(2) by (cases es) auto
  have "readable os (n, cs)" using Cons.prems(3) es(1) by simp
  from archive_walk_file[OF d(1) this] show ?case
    using Cons.IH[OF d(2) es(2)] Cons.prems(3-5) es(1) by simp
qed

section \<open>Properties\<close>

text \<open>
  C31: A download is handed to the plug-ins with the absolute path below which it is to be stored, and
  with a name for the cloud that holds no separator when the caller gives none, exactly when the
  directory of that path exists or can be created; otherwise it fails and the plug-ins are not asked. A
  path that fills the buffer is undefined.
\<close>

theorem file_downloaded:
  assumes "ample 2 h"
  shows "let path = local_path OPERATION_FILE_DOWNLOAD p; name = cloud_name os file_name path in
    \<exists>dir base h'. path = dir @ OS_DIR_SEP # base \<and> OS_DIR_SEP \<notin> set base \<and> cells h' = cells h \<and>
      hd path = OS_DIR_SEP \<and> (file_name \<in> {None, Some []} \<longrightarrow> OS_DIR_SEP \<notin> set name) \<and>
      iot_file_download f g os junk lib txn options file_name (Some p) h s =
        (if PATH_MAX \<le> length path then None
         else if os_file_exists os dir \<or> os_directory_create os dir
         then Option.bind (perform_op f g lib txn None OPERATION_FILE_DOWNLOAD NULL (ValueTransfer (Some name) path) options s)
           (\<lambda>(result, tx, lib, s). Some (result, tx, None, lib, h', s))
         else Some (STATUS_FAILURE, None, None, lib, h', s))"
proof -
  let ?path = "local_path OPERATION_FILE_DOWNLOAD p"
  have h: "ample (Suc (Suc 0)) h" using assms by (simp add: numeral_2_eq_2)
  obtain h1 where h1: "transfer_path OPERATION_FILE_DOWNLOAD (Some p) h = Some (Some ?path, h1)"
    "cells h1 = cells h" "ample (Suc 0) h1" by (rule transfer_path_spec[OF h])
  note sep = local_path_sep[of OPERATION_FILE_DOWNLOAD p]
  obtain h2 where h2: "transfer_name os file_name ?path h1 = Some (Some (cloud_name os file_name ?path), h2)"
    "cells h2 = cells h1" by (rule transfer_name_spec[OF h1(3) sep])
  obtain dir base where d: "?path = dir @ OS_DIR_SEP # base" "OS_DIR_SEP \<notin> set base"
    "before_separator ?path = Some dir" by (rule split_separator[OF sep])
  have flat: "file_name \<in> {None, Some []} \<longrightarrow> OS_DIR_SEP \<notin> set (cloud_name os file_name ?path)"
    using derived_name_flat[OF sep, of os] by (auto simp: cloud_name_def)
  have abs: "hd ?path = OS_DIR_SEP" by (auto simp: local_path_def transfer_directory_def)
  have "iot_file_download f g os junk lib txn options file_name (Some p) h s =
      (if PATH_MAX \<le> length ?path then None
       else if os_file_exists os dir \<or> os_directory_create os dir
       then Option.bind (perform_op f g lib txn None OPERATION_FILE_DOWNLOAD NULL
           (ValueTransfer (Some (cloud_name os file_name ?path)) ?path) options s)
         (\<lambda>(result, tx, lib, s). Some (result, tx, None, lib, h2, s))
       else Some (STATUS_FAILURE, None, None, lib, h2, s))"
    using h1(1) h2(1) d(3) by (simp add: iot_file_download_def iot_file_transfer_def download_target_def)
  then show ?thesis
    unfolding Let_def using d(1,2) h1(2) h2(2) flat abs by (intro exI[of _ dir] exI[of _ base] exI[of _ h2]) simp
qed

definition example_paths :: "(nat, nat) os_paths" where
  "example_paths = \<lparr>os_file_open = (\<lambda>name. if name = ''log'' then Some (Some 0) else None),
     os_file_read = (\<lambda>fd n. if fd = 0 then ([7, 8], 1) else ([], 1)), os_file_eof = (\<lambda>fd. fd = 1),
     os_directory_open = (\<lambda>path. if path = ''/srv/data/'' then Some 0 else None),
     os_directory_next = (\<lambda>d buf. if d = 0 then (''log'', 1) else ([], d)), os_file_size = (\<lambda>_. 2),
     os_directory_exists = (\<lambda>path. path = ''/srv/data/''), os_file_exists = (\<lambda>path. path = ''/srv''),
     os_directory_create = (\<lambda>_. False), os_file_temp = (\<lambda>_. ''/var/lib/iot/file123456.tar'')\<rparr>"

definition example_room :: heap where
  "example_room = \<lparr>cells = Map.empty, allocator = [Some 8, Some 16, Some 24]\<rparr>"

lemma example_room_ample: "n \<le> 3 \<Longrightarrow> ample n example_room"
proof -
  assume "n \<le> 3"
  have "ample 3 example_room"
    unfolding ample_def example_room_def by (intro exI[of _ "[8, 16, 24]"] exI[of _ "[]"]) simp
  then have "ample (n + (3 - n)) example_room" using \<open>n \<le> 3\<close> by simp
  then show ?thesis by (rule ample_less)
qed

lemma example_perform:
  "perform_op f g example_plugin_lib False None op item val None s = Some (STATUS_SUCCESS, None, example_plugin_lib, s)"
  by (simp add: perform_op_def iot_plugin_perform_def option_time_out_def next_transaction_def
      perform_loop.simps example_plugin_lib_def)

theorem file_downloaded_witness:
  "\<exists>h'. iot_file_download (\<lambda>_. 0) (\<lambda>_. 0) example_paths [] example_plugin_lib False None None (Some ''/srv/app.bin'')
      example_room () = Some (STATUS_SUCCESS, None, None, example_plugin_lib, h', ()) \<and> cells h' = Map.empty"
proof -
  have path: "local_path OPERATION_FILE_DOWNLOAD ''/srv/app.bin'' = ''/srv/app.bin''" by (simp add: local_path_def)
  have a: "ample 2 example_room" by (rule example_room_ample) simp
  obtain dir base h' where d: "''/srv/app.bin'' = dir @ OS_DIR_SEP # base" "OS_DIR_SEP \<notin> set base"
    "cells h' = cells example_room"
    and run: "iot_file_download (\<lambda>_. 0) (\<lambda>_. 0) example_paths [] example_plugin_lib False None None
        (Some ''/srv/app.bin'') example_room () =
      (if PATH_MAX \<le> length ''/srv/app.bin'' then None
       else if os_file_exists example_paths dir \<or> os_directory_create example_paths dir
       then Option.bind (perform_op (\<lambda>_. 0) (\<lambda>_. 0) example_plugin_lib False None OPERATION_FILE_DOWNLOAD NULL
           (ValueTransfer (Some (cloud_name example_paths None ''/srv/app.bin'')) ''/srv/app.bin'') None ())
         (\<lambda>(result, tx, lib, s). Some (result, tx, None, lib, h', s))
       else Some (STATUS_FAILURE, None, None, example_plugin_lib, h', ()))"
    using file_downloaded[OF a, of "''/srv/app.bin''" example_paths None "\<lambda>_. 0" "\<lambda>_. 0" "[]"
        example_plugin_lib False None "()", unfolded path Let_def] by (elim exE conjE) (rule that)
  have "dir = ''/srv''" using d(1,2) by (auto simp: append_eq_Cons_conv Cons_eq_append_conv)
  then show ?thesis
    using run d(3) by (simp add: example_perform) (simp add: example_paths_def example_room_def)
qed

text \<open>
  C30: Uploading a directory writes an archive in the directory of the library with the files it lists
  in front of the first one that does not open, in order and each with its whole content, and hands
  that archive to the plug-ins under the directory's own name, as a success even when files are
  missing behind the one that did not open. When no file is in front of it, or the directory is empty,
  the upload is a bad parameter and the plug-ins are not asked. All files are in the archive when all
  of them open; this needs that asking for a name behind the last one leaves something in the buffer
  that does not open. When it leaves the buffer alone, the last file is archived for ever.
\<close>

theorem directory_uploaded:
  assumes "ample 3 h" and "local_path OPERATION_FILE_UPLOAD p = path" and "os_directory_exists os path"
    and "os_directory_open os path = Some dir" and "enumerates os dir ns fin"
    and "map fst es = takeWhile (opens os) ns" and "\<forall>e \<in> set es. readable os e"
  shows "let temp = os_file_temp os archive_path; archive = Some (temp, archive_of os es);
      buf = last (junk # ns); next = os_directory_next os fin buf;
      up = iot_file_upload f g os junk lib txn options file_name (Some p) h s in
    (takeWhile (opens os) ns \<noteq> ns \<or> \<not> opens os (fst next) \<longrightarrow>
      (\<exists>h'. cells h' = cells h \<and> up =
        (if es = [] then Some (STATUS_BAD_PARAMETER, None, archive, lib, h', s)
         else Option.bind (perform_op f g lib txn None OPERATION_FILE_UPLOAD NULL
             (ValueTransfer (Some (cloud_name os file_name path)) temp) options s)
           (\<lambda>(result, tx, lib, s). Some (result, tx, archive, lib, h', s))))) \<and>
    (takeWhile (opens os) ns = ns \<and> next = (buf, fin) \<and> opens os buf \<longrightarrow> up = None)"
proof -
  have h: "ample (Suc (Suc (Suc 0))) h" using assms(1) by (simp add: numeral_3_eq_3)
  obtain h1 where h1: "transfer_path OPERATION_FILE_UPLOAD (Some p) h = Some (Some path, h1)"
    "cells h1 = cells h" "ample (Suc (Suc 0)) h1" using transfer_path_spec[OF h] assms(2) by metis
  have sep: "OS_DIR_SEP \<in> set path" using local_path_sep[of OPERATION_FILE_UPLOAD p] assms(2) by simp
  obtain h2 where h2: "transfer_name os file_name path h1 = Some (Some (cloud_name os file_name path), h2)"
    "cells h2 = cells h1" "ample (Suc 0) h2" by (rule transfer_name_spec[OF h1(3) sep])
  obtain ok h3 where g: "os_grab h2 = (ok, h3)" by fastforce
  have h3: "ok" "cells h3 = cells h2" using ample_grab[OF h2(3) g] by simp_all
  have c: "cells h3 = cells h" using h1(2) h2(2) h3(2) by simp
  let ?temp = "os_file_temp os archive_path" and ?st = "if es = [] then STATUS_BAD_PARAMETER else STATUS_SUCCESS"
  have archived: "iot_file_archive_directory os junk path = archive_walk os dir junk [] STATUS_BAD_PARAMETER"
    using assms(4) by (simp add: iot_file_archive_directory_def)
  have source: "upload_source os junk path h2 = Option.bind (iot_file_archive_directory os junk path)
      (\<lambda>(r, w). Some (r, if r = STATUS_SUCCESS then ?temp else path, Some (?temp, w), h3))"
    using assms(3) g h3(1) by (simp add: upload_source_def Let_def)
  have all: "takeWhile (opens os) ns = ns \<longleftrightarrow> list_all (opens os) ns" by (simp add: takeWhile_eq_all_conv list_all_iff)
  have up: "iot_file_upload f g os junk lib txn options file_name (Some p) h s =
      (if es = [] then Some (STATUS_BAD_PARAMETER, None, Some (?temp, archive_of os es), lib, h3, s)
       else Option.bind (perform_op f g lib txn None OPERATION_FILE_UPLOAD NULL
           (ValueTransfer (Some (cloud_name os file_name path)) ?temp) options s)
         (\<lambda>(result, tx, lib, s). Some (result, tx, Some (?temp, archive_of os es), lib, h3, s)))"
    if over: "takeWhile (opens os) ns \<noteq> ns \<or> \<not> opens os (fst (os_directory_next os fin (last (junk # ns))))"
  proof -
    have "\<not> opens os (if list_all (opens os) ns then fst (os_directory_next os fin (last (junk # ns)))
        else hd (dropWhile (opens os) ns))"
      using over hd_dropWhile[of "opens os" ns] unfolding all by (auto simp: list_all_iff dropWhile_eq_Nil_conv)
    from archive_walk_prefix[OF assms(5-7) this]
    have "iot_file_archive_directory os junk path = Some (?st, archive_of os es)" by (simp add: archived)
    then have "upload_source os junk path h2 = Some (?st, if es = [] then path else ?temp, Some (?temp, archive_of os es), h3)"
      unfolding source by simp
    then show ?thesis using h1(1) h2(1) by (simp add: iot_file_upload_def iot_file_transfer_def)
  qed
  have endless: "iot_file_upload f g os junk lib txn options file_name (Some p) h s = None"
    if all: "takeWhile (opens os) ns = ns \<and> os_directory_next os fin (last (junk # ns)) = (last (junk # ns), fin) \<and>
      opens os (last (junk # ns))"
  proof -
    have "iot_file_archive_directory os junk path = None"
      using archive_walk_endless[OF assms(5) _ assms(7)] assms(6) all by (simp add: archived)
    then show ?thesis using h1(1) h2(1) by (simp add: iot_file_upload_def iot_file_transfer_def source)
  qed
  show ?thesis unfolding Let_def using up endless c by blast
qed

text \<open>A directory of three files; the second cannot be opened in the one called \<open>mixed\<close>.\<close>

definition example_directory :: "bool \<Rightarrow> (nat, nat) os_paths" where
  "example_directory locked = example_paths\<lparr>
     os_file_open := (\<lambda>name. if name = ''log'' then Some (Some 0) else if name = ''cfg'' \<and> \<not> locked then Some (Some 2)
       else if name = ''new'' then Some (Some 3) else None),
     os_file_read := (\<lambda>fd n. if fd = 0 then ([7, 8], 1) else if fd = 2 then ([5], 1) else ([], 1)),
     os_directory_next := (\<lambda>d buf. if d = 0 then (''log'', 1) else if d = 1 then (''cfg'', 2)
       else if d = 2 then (''new'', 3) else ([], d))\<rparr>"

theorem directory_uploaded_witness:
  "(\<exists>h'. iot_file_upload (\<lambda>_. 0) (\<lambda>_. 0) (example_directory False) [] example_plugin_lib False None None
      (Some ''/srv/data/'') example_room () =
      Some (STATUS_SUCCESS, None, Some (''/var/lib/iot/file123456.tar'',
        [(''log'', 2, [7, 8]), (''cfg'', 2, [5]), (''new'', 2, [])]), example_plugin_lib, h', ())) \<and>
   (\<exists>h'. iot_file_upload (\<lambda>_. 0) (\<lambda>_. 0) (example_directory True) [] example_plugin_lib False None None
      (Some ''/srv/data/'') example_room () =
      Some (STATUS_SUCCESS, None, Some (''/var/lib/iot/file123456.tar'', [(''log'', 2, [7, 8])]),
        example_plugin_lib, h', ()))"
proof -
  let ?d = example_directory and ?ns = "[''log'', ''cfg'', ''new'']"
  let ?all = "[(''log'', [[7, 8]]), (''cfg'', [[5]]), (''new'', [])] :: (string \<times> bytes list) list"
  have path: "local_path OPERATION_FILE_UPLOAD ''/srv/data/'' = ''/srv/data/''" by (simp add: local_path_def)
  have dir: "os_directory_exists (?d locked) ''/srv/data/''"
    "os_directory_open (?d locked) ''/srv/data/'' = Some 0" for locked
    by (simp_all add: example_directory_def example_paths_def)
  have names: "enumerates (?d locked) 0 ?ns 3" for locked by (simp add: example_directory_def)
  have opened: "opens (?d False) ''log''" "opens (?d False) ''cfg''" "opens (?d False) ''new''"
    "opens (?d True) ''log''" "\<not> opens (?d True) ''cfg''" "\<not> opens (?d False) ''''"
    by (simp_all add: opens_def example_directory_def)
  have es: "map fst ?all = takeWhile (opens (?d False)) ?ns" "\<forall>e \<in> set ?all. readable (?d False) e"
    "map fst (take 1 ?all) = takeWhile (opens (?d True)) ?ns" "\<forall>e \<in> set (take 1 ?all). readable (?d True) e"
    using opened by (simp_all add: readable_def example_directory_def)
  have over: "fst (os_directory_next (?d False) 3 (last ([] # ?ns))) = ''''" by (simp add: example_directory_def)
  note whole = directory_uploaded[where junk = "[]" and f = "\<lambda>_. 0" and g = "\<lambda>_. 0" and lib = example_plugin_lib
      and txn = False and options = None and file_name = None and s = "()", OF example_room_ample path dir names es(1,2)]
  note part = directory_uploaded[where junk = "[]" and f = "\<lambda>_. 0" and g = "\<lambda>_. 0" and lib = example_plugin_lib
      and txn = False and options = None and file_name = None and s = "()", OF example_room_ample path dir names es(3,4)]
  have archives: "archive_of (?d False) ?all = [(''log'', 2, [7, 8]), (''cfg'', 2, [5]), (''new'', 2, [])]"
    "archive_of (?d True) (take 1 ?all) = [(''log'', 2, [7, 8])]"
    "os_file_temp (?d locked) archive_path = ''/var/lib/iot/file123456.tar''" for locked
    by (simp_all add: archive_of_def example_directory_def example_paths_def)
  show ?thesis
  proof (rule conjI)
    show "\<exists>h'. iot_file_upload (\<lambda>_. 0) (\<lambda>_. 0) (?d False) [] example_plugin_lib False None None
        (Some ''/srv/data/'') example_room () =
      Some (STATUS_SUCCESS, None, Some (''/var/lib/iot/file123456.tar'',
        [(''log'', 2, [7, 8]), (''cfg'', 2, [5]), (''new'', 2, [])]), example_plugin_lib, h', ())"
      using whole unfolding over Let_def archives using opened(6) by (auto simp: example_perform)
    show "\<exists>h'. iot_file_upload (\<lambda>_. 0) (\<lambda>_. 0) (?d True) [] example_plugin_lib False None None
        (Some ''/srv/data/'') example_room () =
      Some (STATUS_SUCCESS, None, Some (''/var/lib/iot/file123456.tar'', [(''log'', 2, [7, 8])]),
        example_plugin_lib, h', ())"
      using part unfolding Let_def archives using opened(4,5) by (auto simp: example_perform)
  qed
qed

end
