(* ===== verification/Alarm.thy ===== *)
theory Alarm
  imports Library
begin

text \<open>
  Alarms (\<open>src/src/api/iot_alarm.c\<close>): registration in a table ordered by name, removal, and
  publication through the plug-ins. The library pointer of an alarm is modelled by whether it
  is set. Each function holds the alarm mutex for its whole access to the table, so a run is a
  sequence of these functions.
\<close>

abbreviation IOT_ALARM_MAX :: nat where "IOT_ALARM_MAX \<equiv> 255"

record iot_alarm =
  al_lib :: bool
  al_name :: "string option"
  al_in_heap :: bool

definition alarm_zero :: iot_alarm where
  "alarm_zero = \<lparr>al_lib = False, al_name = None, al_in_heap = False\<rparr>"

text \<open>The comparison of the search: only the characters of the new name count.\<close>

definition alarm_greater :: "iot_alarm registry \<Rightarrow> string \<Rightarrow> nat \<Rightarrow> nat \<Rightarrow> bool option" where
  "alarm_greater R name name_len i = do {
     p \<leftarrow> load (slots R) i;
     a \<leftarrow> mem R p;
     nm \<leftarrow> al_name a;
     Some (0 < strncmp name nm name_len)
   }"

definition iot_alarm_register ::
    "iot_alarm registry \<Rightarrow> heap \<Rightarrow> string option \<Rightarrow> (ptr \<times> iot_alarm registry \<times> heap) option" where
  "iot_alarm_register R h name =
     (case name of
        None \<Rightarrow> Some (NULL, R, h)
      | Some name \<Rightarrow>
          if name \<noteq> '''' \<and> used R < IOT_ALARM_MAX
          then do {
            (alarm, is_in_heap, h) \<leftarrow> take_object R h;
            (if alarm = NULL then Some (NULL, R, h)
             else do {
               let name_len = min (length name) IOT_NAME_MAX_LEN;
               let (ok, h) = os_grab h;
               (if ok
                then do {
                  let a = \<lparr>al_lib = True, al_name = Some (take name_len name), al_in_heap = is_in_heap\<rparr>;
                  let R = poke alarm (Some a) R;
                  R \<leftarrow> table_insert (alarm_greater R name name_len) alarm R;
                  Some (alarm, R, h)
                }
                else Some (NULL, poke alarm (if is_in_heap then None else Some alarm_zero) R, h))
             })
          }
          else Some (NULL, R, h))"

text \<open>
  An alarm on the stack keeps the pointer to its released name, which must not be read: it
  becomes \<open>None\<close>, like NULL.
\<close>

definition iot_alarm_deregister ::
    "iot_alarm registry \<Rightarrow> ptr \<Rightarrow> (iot_status \<times> iot_alarm registry) option" where
  "iot_alarm_deregister R alarm =
     (if alarm = NULL then Some (STATUS_BAD_PARAMETER, R)
      else do {
        a \<leftarrow> mem R alarm;
        (if al_lib a
         then (let i = table_index alarm R in
               if i < used R
               then (if al_in_heap a
                     then do {
                       R \<leftarrow> table_remove i NULL (poke alarm None R);
                       Some (STATUS_SUCCESS, R)
                     }
                     else do {
                       let R = poke alarm (Some (a\<lparr>al_name := None, al_lib := False\<rparr>)) R;
                       R \<leftarrow> table_remove i alarm R;
                       Some (STATUS_SUCCESS, R)
                     })
               else Some (STATUS_NOT_INITIALIZED, R))
         else Some (STATUS_NOT_INITIALIZED, R))
      })"

definition iot_alarm_publish_string ::
    "(string \<Rightarrow> int) \<Rightarrow> (string \<Rightarrow> int) \<Rightarrow> 's iot_lib \<Rightarrow> iot_alarm registry \<Rightarrow> ptr \<Rightarrow> bool \<Rightarrow>
     (heap \<times> iot_options) option \<Rightarrow> u32 \<Rightarrow> string option \<Rightarrow> 's \<Rightarrow>
     (iot_status \<times> u8 option \<times> 's iot_lib \<times> 's) option" where
  "iot_alarm_publish_string f g lib R alarm txn options severity message s =
     (if alarm = NULL then Some (STATUS_BAD_PARAMETER, None, lib, s)
      else do {
        a \<leftarrow> mem R alarm;
        (if al_lib a
         then perform_op f g lib txn None OPERATION_ALARM_PUBLISH alarm
                (ValueAlarm severity message) options s
         else Some (STATUS_NOT_INITIALIZED, None, lib, s))
      })"

definition iot_alarm_publish ::
    "(string \<Rightarrow> int) \<Rightarrow> (string \<Rightarrow> int) \<Rightarrow> 's iot_lib \<Rightarrow> iot_alarm registry \<Rightarrow> ptr \<Rightarrow> bool \<Rightarrow>
     (heap \<times> iot_options) option \<Rightarrow> u32 \<Rightarrow> 's \<Rightarrow>
     (iot_status \<times> u8 option \<times> 's iot_lib \<times> 's) option" where
  "iot_alarm_publish f g lib R alarm txn options severity s =
     iot_alarm_publish_string f g lib R alarm txn options severity None s"

section \<open>The table of alarms\<close>

text \<open>
  The alarms form a pool: the table is ordered by name, every alarm in use points to the
  library, and an alarm is marked as allocated exactly when it is not one of the stack's.
\<close>

abbreviation alarms_ok :: "ptr set \<Rightarrow> iot_alarm registry \<Rightarrow> bool" where
  "alarms_ok \<equiv> pool_ok al_name al_lib al_in_heap IOT_ALARM_MAX"

lemma take_length_less: "take (length k) s < k \<longleftrightarrow> s < (k :: string)"
proof (induction k arbitrary: s)
  case (Cons c k)
  then show ?case by (cases s) auto
qed simp

lemma alarm_greater_spec:
  assumes ok: "registry_ok al_name IOT_ALARM_MAX R" and p: "p \<notin> set (items R)" and i: "i < used R"
  shows "alarm_greater (poke p a R) name (min (length name) IOT_NAME_MAX_LEN) i =
    Some (table_keys al_name R ! i < take IOT_NAME_MAX_LEN name)"
proof -
  let ?n = "min (length name) IOT_NAME_MAX_LEN" and ?q = "items R ! i"
  have q: "?q \<in> set (items R)" using i registry_okD(8)[OF ok] by simp
  then obtain it k where it: "mem R ?q = Some it" "al_name it = Some k"
    using items_live[OF ok] by blast
  have "slots R ! i = ?q" using i by (simp add: items_def)
  moreover have "i < length (slots R)" using i registry_okD(1,2)[OF ok] by simp
  moreover have "?q \<noteq> p" using p q by blast
  ultimately have "alarm_greater (poke p a R) name ?n i = Some (0 < strncmp name k ?n)"
    using it by (simp add: alarm_greater_def load_def poke_def)
  moreover have "table_keys al_name R ! i = k"
    using i it registry_okD(8)[OF ok] by (simp add: table_keys_def item_key_def)
  moreover have "take ?n name = take IOT_NAME_MAX_LEN name" "length (take IOT_NAME_MAX_LEN name) = ?n"
    by (simp_all add: min_def)
  ultimately show ?thesis
    using take_length_less[of "take IOT_NAME_MAX_LEN name" k] by simp
qed

lemma alarm_register_spec:
  assumes ok: "alarms_ok stack R"
  obtains p S h' where "iot_alarm_register R h name = Some (p, S, h')" "alarms_ok stack S"
    "p = NULL \<Longrightarrow> items S = items R"
    "p \<noteq> NULL \<Longrightarrow> p \<notin> set (items R) \<and> set (items S) = insert p (set (items R)) \<and>
       (\<exists>nm a. name = Some nm \<and> nm \<noteq> '''' \<and>
          mem S = (mem R)(p \<mapsto> a) \<and> al_name a = Some (take IOT_NAME_MAX_LEN nm) \<and> al_lib a)"
proof -
  show thesis
  proof (cases "\<exists>nm. name = Some nm \<and> nm \<noteq> '''' \<and> used R < IOT_ALARM_MAX")
    case False
    then have "iot_alarm_register R h name = Some (NULL, R, h)"
      by (auto simp: iot_alarm_register_def split: option.split)
    then show thesis using that ok by blast
  next
    case True
    then obtain nm where nm: "name = Some nm" "nm \<noteq> ''''" and room: "used R < IOT_ALARM_MAX" by blast
    obtain p b h1 where took: "take_object R h = Some (p, b, h1)"
      using take_object_spec[OF pool_okD(1)[OF ok] room] by metis
    obtain g h2 where grab: "os_grab h1 = (g, h2)" by fastforce
    let ?len = "min (length nm) IOT_NAME_MAX_LEN"
    note body = iot_alarm_register_def nm room took grab
    show thesis
    proof (cases "p = NULL")
      case True
      then have "iot_alarm_register R h name = Some (NULL, R, h1)" by (simp add: body)
      then show thesis using that ok by blast
    next
      case p: False
      show thesis
      proof (cases g)
        case False
        then have "iot_alarm_register R h name =
            Some (NULL, poke p (if b then None else Some alarm_zero) R, h2)"
          using p by (simp add: body Let_def)
        moreover have "\<not> al_lib alarm_zero" by (simp add: alarm_zero_def)
        ultimately show thesis using that pool_abort[OF ok room took p] by blast
      next
        case True
        let ?a = "\<lparr>al_lib = True, al_name = Some (take IOT_NAME_MAX_LEN nm), al_in_heap = b\<rparr>"
        have a: "al_name ?a = Some (take IOT_NAME_MAX_LEN nm)" "al_lib ?a" "al_in_heap ?a \<longleftrightarrow> b" by simp_all
        have cut: "take ?len nm = take IOT_NAME_MAX_LEN nm" by (simp add: min_def)
        obtain S where S: "table_insert (alarm_greater (poke p (Some ?a) R) nm ?len) p (poke p (Some ?a) R) = Some S"
          "alarms_ok stack S" "p \<notin> set (items R)" "set (items S) = insert p (set (items R))"
          "mem S = (mem R)(p \<mapsto> ?a)"
          by (rule pool_insert[OF ok room took p a alarm_greater_spec[OF pool_okD(1)[OF ok]]])
        have "iot_alarm_register R h name = Some (p, S, h2)"
          using p True S(1) by (simp add: body Let_def cut)
        then show thesis
          by (rule that[OF _ S(2)]) (use p nm a S in \<open>auto\<close>)
      qed
    qed
  qed
qed

lemma alarm_deregister_spec:
  assumes ok: "alarms_ok stack R" and p: "p \<in> set (items R)"
  obtains S where "iot_alarm_deregister R p = Some (STATUS_SUCCESS, S)" "alarms_ok stack S"
    "set (items S) = set (items R) - {p}"
    "mem S p = (if p \<in> stack then map_option (\<lambda>a. a\<lparr>al_name := None, al_lib := False\<rparr>) (mem R p) else None)"
proof -
  obtain a where a: "mem R p = Some a" using items_live[OF pool_okD(1)[OF ok] p] by blast
  have lib: "al_lib a" "al_in_heap a \<longleftrightarrow> p \<notin> stack" using pool_okD(5)[OF ok p a] by blast+
  have pz: "p \<noteq> NULL" using registry_okD(4)[OF pool_okD(1)[OF ok]] p by blast
  have jt: "\<not> al_lib (a\<lparr>al_name := None, al_lib := False\<rparr>)" by simp
  obtain S where S: "table_remove (table_index p R) (if al_in_heap a then NULL else p)
      (poke p (if al_in_heap a then None else Some (a\<lparr>al_name := None, al_lib := False\<rparr>)) R) = Some S"
    "alarms_ok stack S" "set (items S) = set (items R) - {p}" "table_index p R < used R"
    "mem S = (mem R)(p := if al_in_heap a then None else Some (a\<lparr>al_name := None, al_lib := False\<rparr>))"
    by (rule pool_remove[OF ok p a jt])
  have "iot_alarm_deregister R p = Some (STATUS_SUCCESS, S)"
    using S(1,4) a lib pz by (cases "al_in_heap a") (simp_all add: iot_alarm_deregister_def Let_def)
  then show thesis using that S(2,3,5) a lib by simp
qed

section \<open>The alarms as an ordered table\<close>

definition alarm_adds :: "iot_alarm registry \<Rightarrow> ptr \<Rightarrow> iot_alarm registry \<Rightarrow> bool" where
  "alarm_adds R p S \<longleftrightarrow> p \<noteq> NULL \<and> (\<exists>h name h'. iot_alarm_register R h name = Some (p, S, h'))"

definition alarm_removes :: "iot_alarm registry \<Rightarrow> ptr \<Rightarrow> iot_alarm registry \<Rightarrow> bool" where
  "alarm_removes R p S \<longleftrightarrow> p \<in> set (items R) \<and> (\<exists>r. iot_alarm_deregister R p = Some (r, S))"

definition alarm_keeps :: "iot_alarm registry \<Rightarrow> iot_alarm registry \<Rightarrow> bool" where
  "alarm_keeps R S \<longleftrightarrow> (\<exists>h name h'. iot_alarm_register R h name = Some (NULL, S, h'))"

definition alarm_key :: "iot_alarm registry \<Rightarrow> ptr \<Rightarrow> string" where
  "alarm_key R p = the (item_key al_name R p)"

lemma alarm_adds_spec:
  assumes "alarm_adds R p S" and "alarms_ok stack R"
  shows "alarms_ok stack S \<and> p \<notin> set (items R) \<and> set (items S) = insert p (set (items R))"
proof -
  obtain h name h' where r: "p \<noteq> NULL" "iot_alarm_register R h name = Some (p, S, h')"
    using assms(1) by (auto simp: alarm_adds_def)
  show ?thesis by (rule alarm_register_spec[OF assms(2), of h name]) (use r in simp)
qed

lemma alarm_removes_spec:
  assumes "alarm_removes R p S" and "alarms_ok stack R"
  shows "alarms_ok stack S \<and> p \<in> set (items R) \<and> set (items S) = set (items R) - {p}"
proof -
  obtain r where r: "p \<in> set (items R)" "iot_alarm_deregister R p = Some (r, S)"
    using assms(1) by (auto simp: alarm_removes_def)
  show ?thesis by (rule alarm_deregister_spec[OF assms(2) r(1)]) (use r in simp)
qed

lemma alarm_keeps_spec:
  assumes "alarm_keeps R S" and "alarms_ok stack R"
  shows "alarms_ok stack S \<and> items S = items R"
proof -
  obtain h name h' where r: "iot_alarm_register R h name = Some (NULL, S, h')"
    using assms(1) by (auto simp: alarm_keeps_def)
  show ?thesis by (rule alarm_register_spec[OF assms(2), of h name]) (use r in simp)
qed

interpretation alarm_table: ordered_table "alarms_ok stack" items alarm_key IOT_ALARM_MAX
  alarm_adds alarm_removes alarm_keeps for stack
  unfolding alarm_key_def[abs_def]
  by (rule pool_ordered_table[where tab = "\<lambda>R. R"])
    (erule (1) alarm_adds_spec alarm_removes_spec alarm_keeps_spec)+

section \<open>Properties\<close>

text \<open>Three alarms on the stack, at the addresses 1, 2 and 3.\<close>

definition example_alarms :: "iot_alarm registry" where
  "example_alarms = \<lparr>mem = (\<lambda>p. if p \<in> set [1, 2, 3] then Some alarm_zero else None),
     slots = [1, 2, 3] @ replicate (IOT_ALARM_MAX - 3) NULL, used = 0\<rparr>"

lemma example_alarms_initial: "pool_initial al_lib IOT_ALARM_MAX [1, 2, 3] example_alarms"
  by (simp add: pool_initial_def example_alarms_def alarm_zero_def)

lemma example_alarms_ok: "alarms_ok {1, 2, 3} example_alarms"
  using pool_initial_ok(1)[OF example_alarms_initial] by simp

text \<open>
  Registering an alarm is always defined on a well-formed table. Either it returns NULL
  and the alarms in use are the same, or it returns a new alarm, inserted in name order under
  the first \<open>IOT_NAME_MAX_LEN\<close> characters of the name, and no other alarm changes.
\<close>

theorem alarm_register:
  assumes "alarms_ok stack R"
  shows "\<exists>p S h'. iot_alarm_register R h name = Some (p, S, h') \<and> alarms_ok stack S \<and>
    sorted (map (alarm_key S) (items S)) \<and>
    (if p = NULL then items S = items R
     else \<exists>nm. name = Some nm \<and> nm \<noteq> '''' \<and> p \<notin> set (items R) \<and>
       set (items S) = insert p (set (items R)) \<and> alarm_key S p = take IOT_NAME_MAX_LEN nm \<and>
       (\<forall>q. q \<noteq> p \<longrightarrow> mem S q = mem R q))"
proof -
  obtain p S h' where reg: "iot_alarm_register R h name = Some (p, S, h')" "alarms_ok stack S"
    "p = NULL \<Longrightarrow> items S = items R"
    "p \<noteq> NULL \<Longrightarrow> p \<notin> set (items R) \<and> set (items S) = insert p (set (items R)) \<and>
       (\<exists>nm a. name = Some nm \<and> nm \<noteq> '''' \<and>
          mem S = (mem R)(p \<mapsto> a) \<and> al_name a = Some (take IOT_NAME_MAX_LEN nm) \<and> al_lib a)"
    by (rule alarm_register_spec[OF assms, where h = h and name = name]) blast
  have srt: "sorted (map (alarm_key S) (items S))" by (rule alarm_table.wf_sorted[OF reg(2)])
  have keys: "p \<noteq> NULL \<Longrightarrow> \<exists>nm. name = Some nm \<and> nm \<noteq> '''' \<and> p \<notin> set (items R) \<and>
       set (items S) = insert p (set (items R)) \<and> alarm_key S p = take IOT_NAME_MAX_LEN nm \<and>
       (\<forall>q. q \<noteq> p \<longrightarrow> mem S q = mem R q)"
    using reg(4) by (auto simp: alarm_key_def item_key_def)
  show ?thesis using reg(1-3) srt keys by (intro exI conjI) auto
qed

theorem alarm_register_witness:
  "\<exists>p S h'. iot_alarm_register example_alarms (empty_heap\<lparr>allocator := [Some 9]\<rparr>) (Some ''fire'') =
      Some (p, S, h') \<and> p = 1 \<and> alarm_key S p = ''fire''"
proof -
  have "\<exists>S h'. iot_alarm_register example_alarms (empty_heap\<lparr>allocator := [Some 9]\<rparr>) (Some ''fire'') =
      Some (1, S, h')"
    by (simp add: iot_alarm_register_def take_object_def load_def example_alarms_def os_grab_def
        empty_heap_def poke_def table_insert_def place.simps memmove_def store_def)
  with alarm_register[OF example_alarms_ok, of "empty_heap\<lparr>allocator := [Some 9]\<rparr>" "Some ''fire''"]
  show ?thesis by auto
qed

text \<open>
  An alarm in use can be published and deregistered: publishing performs the operation
  with the plug-ins, deregistering removes it. After that an alarm of the stack is refused
  with \<open>NOT_INITIALIZED\<close> by both, without any effect; using one of the heap again is
  undefined, its object having been released.
\<close>

theorem alarm_lifecycle:
  assumes "alarms_ok stack R" and "p \<in> set (items R)"
  shows "iot_alarm_publish_string f g lib R p txn options severity message s =
      perform_op f g lib txn None OPERATION_ALARM_PUBLISH p (ValueAlarm severity message) options s \<and>
    (\<exists>S. iot_alarm_deregister R p = Some (STATUS_SUCCESS, S) \<and> alarms_ok stack S \<and>
       set (items S) = set (items R) - {p} \<and>
       (if p \<in> stack
        then iot_alarm_deregister S p = Some (STATUS_NOT_INITIALIZED, S) \<and>
          iot_alarm_publish_string f g lib S p txn options severity message s =
            Some (STATUS_NOT_INITIALIZED, None, lib, s)
        else iot_alarm_deregister S p = None \<and>
          iot_alarm_publish_string f g lib S p txn options severity message s = None))"
proof -
  obtain a where a: "mem R p = Some a" using items_live[OF pool_okD(1)[OF assms(1)] assms(2)] by blast
  have lib: "al_lib a" using pool_okD(5)[OF assms a] by blast
  have pz: "p \<noteq> NULL" using registry_okD(4)[OF pool_okD(1)[OF assms(1)]] assms(2) by blast
  obtain S where S: "iot_alarm_deregister R p = Some (STATUS_SUCCESS, S)" "alarms_ok stack S"
    "set (items S) = set (items R) - {p}"
    "mem S p = (if p \<in> stack then map_option (\<lambda>a. a\<lparr>al_name := None, al_lib := False\<rparr>) (mem R p) else None)"
    by (rule alarm_deregister_spec[OF assms])
  show ?thesis
    using S a lib pz
    by (intro conjI exI[of _ S]) (simp_all add: iot_alarm_publish_string_def iot_alarm_deregister_def)
qed

text \<open>A table with one alarm on the stack in use.\<close>

definition example_alarms_used :: "iot_alarm registry" where
  "example_alarms_used = example_alarms\<lparr>
     mem := (mem example_alarms)(1 \<mapsto> \<lparr>al_lib = True, al_name = Some ''fire'', al_in_heap = False\<rparr>),
     used := 1\<rparr>"

lemma example_alarms_used_items: "items example_alarms_used = [1]"
  by (simp add: items_def example_alarms_used_def example_alarms_def)

lemma example_alarms_used_ok: "alarms_ok {1, 2, 3} example_alarms_used"
proof -
  have "filter (\<lambda>p. p \<noteq> NULL) (slots example_alarms_used) = [1, 2, 3]"
    by (simp add: example_alarms_used_def example_alarms_def)
  moreover have "table_keys al_name example_alarms_used = [''fire'']"
    by (simp add: table_keys_def example_alarms_used_items item_key_def)
      (simp add: example_alarms_used_def)
  moreover have "free_objects example_alarms_used = {2, 3}"
    by (auto simp: free_objects_def example_alarms_used_def example_alarms_def)
  ultimately show ?thesis
    by (auto simp: pool_ok_def registry_ok_def example_alarms_used_items item_key_def)
      (auto simp: example_alarms_used_def example_alarms_def alarm_zero_def)
qed

theorem alarm_lifecycle_witness:
  "\<exists>S. iot_alarm_deregister example_alarms_used 1 = Some (STATUS_SUCCESS, S) \<and>
     items S = [] \<and> iot_alarm_deregister S 1 = Some (STATUS_NOT_INITIALIZED, S)"
  using alarm_lifecycle[OF example_alarms_used_ok, where p = 1 and lib = example_plugin_lib and
      f = "\<lambda>_. 0" and g = "\<lambda>_. 0" and txn = False and options = None and severity = 0 and
      message = None and s = "()"]
  by (auto simp: example_alarms_used_items)

text \<open>
  C35: Every sequence of registrations, deregistrations and refused registrations from the
  initial table leaves exactly the alarms it should: each registration returned an alarm that
  was not in use, each deregistration removed one that was, and the table holds the set that
  is left, without repetition, ordered by name and within its capacity.
\<close>

theorem alarm_history:
  assumes "pool_initial al_lib IOT_ALARM_MAX stack R"
    and "table_run alarm_adds alarm_removes alarm_keeps R evs S"
  shows "set (items S) = replay evs {} \<and> legal evs {} \<and> distinct (items S) \<and>
    sorted (map (alarm_key S) (items S)) \<and> length (items S) \<le> IOT_ALARM_MAX"
  using alarm_table.run_table[OF assms(2)] alarm_table.run_replay[OF assms(2)]
    pool_initial_ok(1)[OF assms(1), of al_name al_in_heap] pool_initial_ok(2)[OF assms(1)] by simp

theorem alarm_history_witness:
  "\<exists>S. table_run alarm_adds alarm_removes alarm_keeps example_alarms
       [Added 1, Kept, Added 2, Removed 1] S \<and>
     items S = [2] \<and> alarm_key S 2 = ''fire''"
proof -
  let ?h = "empty_heap\<lparr>allocator := [Some 9]\<rparr>"
  let ?alarm = "\<lambda>name. \<lparr>al_lib = True, al_name = Some name, al_in_heap = False\<rparr>"
  let ?mem1 = "(mem example_alarms)(1 \<mapsto> ?alarm ''water'')"
  let ?one = "example_alarms\<lparr>mem := ?mem1, used := 1\<rparr>"
  let ?mem2 = "?mem1(2 \<mapsto> ?alarm ''fire'')"
  let ?slots = "[2, 1, 3] @ replicate (IOT_ALARM_MAX - 3) NULL"
  let ?two = "\<lparr>mem = ?mem2, slots = ?slots, used = 2\<rparr>"
  let ?left = "\<lparr>mem = ?mem2(1 \<mapsto> alarm_zero), slots = ?slots, used = 1\<rparr>"
  note compute = iot_alarm_register_def iot_alarm_deregister_def take_object_def load_def os_grab_def
    example_alarms_def empty_heap_def poke_def table_insert_def table_remove_def table_index_def
    place.simps memmove_def store_def alarm_greater_def
  have "iot_alarm_register example_alarms ?h (Some ''water'') = Some (1, ?one, empty_heap)"
    by (simp add: compute)
  then have add1: "alarm_adds example_alarms 1 ?one" unfolding alarm_adds_def by (intro conjI exI) auto
  have "iot_alarm_register ?one empty_heap (Some '''') = Some (NULL, ?one, empty_heap)"
    by (simp add: compute)
  then have keep: "alarm_keeps ?one ?one" unfolding alarm_keeps_def by blast
  have "iot_alarm_register ?one ?h (Some ''fire'') = Some (2, ?two, empty_heap)"
    by (simp add: compute)
  then have add2: "alarm_adds ?one 2 ?two" unfolding alarm_adds_def by (intro conjI exI) auto
  have "iot_alarm_deregister ?two 1 = Some (STATUS_SUCCESS, ?left)"
    by (simp add: compute alarm_zero_def)
  moreover have "1 \<in> set (items ?two)" by (simp add: items_def)
  ultimately have rem: "alarm_removes ?two 1 ?left" unfolding alarm_removes_def by blast
  have run: "table_run alarm_adds alarm_removes alarm_keeps example_alarms
      [Added 1, Kept, Added 2, Removed 1] ?left"
    by (rule table_run.intros add1 keep add2 rem)+
  have left: "items ?left = [2]" "alarm_key ?left 2 = ''fire''"
    by (simp_all add: items_def alarm_key_def item_key_def)
  from alarm_history[OF example_alarms_initial run] left run show ?thesis by blast
qed

end
