(* ===== verification/Telemetry.thy ===== *)
theory Telemetry
  imports Library
begin

text \<open>
  Telemetry (\<open>src/src/api/iot_telemetry.c\<close>): the objects and their table, their registration
  state, their options and the publication of samples. A function that performs an operation
  takes the plug-in registry and the world of the plug-ins; the telemetry mutex makes every
  access to the table one step.
\<close>

abbreviation IOT_TELEMETRY_MAX :: nat where "IOT_TELEMETRY_MAX \<equiv> 255"

text \<open>The option array is NULL (\<open>None\<close>) or allocated, its length being what was allocated.\<close>

record iot_telemetry =
  tl_lib :: bool
  tl_state :: iot_item_state
  tl_name :: "string option"
  tl_option :: "iot_option list option"
  tl_option_count :: nat
  tl_time_stamp :: u64
  tl_type :: iot_type
  tl_in_heap :: bool

definition telemetry_zero :: iot_telemetry where
  "telemetry_zero = \<lparr>tl_lib = False, tl_state = DEREGISTERED, tl_name = None, tl_option = None,
     tl_option_count = 0, tl_time_stamp = 0, tl_type = TYPE_NULL, tl_in_heap = False\<rparr>"

section \<open>Allocating\<close>

definition telemetry_greater ::
    "iot_telemetry registry \<Rightarrow> string \<Rightarrow> nat \<Rightarrow> bool option" where
  "telemetry_greater R name i = do {
     p \<leftarrow> load (slots R) i;
     t \<leftarrow> mem R p;
     nm \<leftarrow> tl_name t;
     Some (0 < strncmp name nm IOT_NAME_MAX_LEN)
   }"

definition iot_telemetry_allocate ::
    "iot_telemetry registry \<Rightarrow> heap \<Rightarrow> string option \<Rightarrow> iot_type \<Rightarrow>
     (ptr \<times> iot_telemetry registry \<times> heap) option" where
  "iot_telemetry_allocate R h name type =
     table_allocate IOT_TELEMETRY_MAX telemetry_greater
       (\<lambda>name is_in_heap. telemetry_zero\<lparr>tl_lib := True, tl_name := Some name, tl_type := type,
          tl_in_heap := is_in_heap\<rparr>)
       telemetry_zero R h name"

section \<open>Options\<close>

text \<open>
  The search for an option to read; it goes on after an option whose value could not be found.
\<close>

fun telemetry_option_get_loop ::
    "(string \<Rightarrow> int) \<Rightarrow> (string \<Rightarrow> int) \<Rightarrow> heap \<Rightarrow> iot_option list \<Rightarrow> string \<Rightarrow> bool \<Rightarrow> iot_type \<Rightarrow> bool \<Rightarrow>
     (iot_status \<times> arg_out option) option" where
  "telemetry_option_get_loop f g h [] name convert type dest = Some (STATUS_NOT_FOUND, None)"
| "telemetry_option_get_loop f g h (e # es) name convert type dest = do {
     nm \<leftarrow> opt_name e;
     (if strncmp nm name IOT_NAME_MAX_LEN = 0
      then do {
        (result, out) \<leftarrow> iot_common_arg_get f g h (Some (opt_data e)) convert type dest;
        (if result = STATUS_NOT_FOUND
         then telemetry_option_get_loop f g h es name convert type dest
         else Some (result, out))
      }
      else telemetry_option_get_loop f g h es name convert type dest)
   }"

text \<open>The options in use: reading beyond the array that was allocated is undefined.\<close>

definition telemetry_options :: "iot_telemetry \<Rightarrow> iot_option list option" where
  "telemetry_options t =
     (if tl_option_count t = 0 then Some []
      else do {
        arr \<leftarrow> tl_option t;
        (if tl_option_count t \<le> length arr then Some (take (tl_option_count t) arr) else None)
      })"

definition iot_telemetry_option_get ::
    "(string \<Rightarrow> int) \<Rightarrow> (string \<Rightarrow> int) \<Rightarrow> heap \<Rightarrow> iot_telemetry registry \<Rightarrow> ptr \<Rightarrow> string option \<Rightarrow>
     bool \<Rightarrow> iot_type \<Rightarrow> bool \<Rightarrow> (iot_status \<times> arg_out option) option" where
  "iot_telemetry_option_get f g h R telemetry name convert type dest =
     (case name of
        Some name \<Rightarrow>
          if telemetry = NULL then Some (STATUS_BAD_PARAMETER, None)
          else do {
            t \<leftarrow> mem R telemetry;
            es \<leftarrow> telemetry_options t;
            telemetry_option_get_loop f g h es name convert type dest
          }
      | None \<Rightarrow> Some (STATUS_BAD_PARAMETER, None))"

text \<open>The search for an option to set compares whole strings.\<close>

fun telemetry_option_index :: "iot_option list \<Rightarrow> string \<Rightarrow> nat \<Rightarrow> nat option option" where
  "telemetry_option_index [] name i = Some None"
| "telemetry_option_index (e # es) name i = do {
     nm \<leftarrow> opt_name e;
     (if nm = name then Some (Some i) else telemetry_option_index es name (i + 1))
   }"

text \<open>
  A new option: the array is allocated when there is none, for one element more than are in
  use, and is never made larger; writing beyond it is undefined.
\<close>

definition telemetry_option_new :: "iot_telemetry \<Rightarrow> heap \<Rightarrow> (nat option \<times> iot_telemetry \<times> heap) option" where
  "telemetry_option_new t h =
     (let n = tl_option_count t;
          (arr, h) = (case tl_option t of
             None \<Rightarrow> (let (ok, h) = os_grab h in
                      (if ok then Some (replicate (n + 1) option_zero) else None, h))
           | Some arr \<Rightarrow> (Some arr, h))
      in case arr of
           Some arr \<Rightarrow> do {
             arr \<leftarrow> store n option_zero arr;
             Some (Some n, t\<lparr>tl_option := Some arr, tl_option_count := n + 1\<rparr>, h)
           }
         | None \<Rightarrow> Some (None, t, h))"

definition iot_telemetry_option_set_data ::
    "iot_telemetry registry \<Rightarrow> heap \<Rightarrow> ptr \<Rightarrow> string \<Rightarrow> iot_data \<Rightarrow>
     (iot_status \<times> iot_telemetry registry \<times> heap) option" where
  "iot_telemetry_option_set_data R h telemetry name data =
     (if telemetry = NULL then Some (STATUS_BAD_PARAMETER, R, h)
      else do {
        t \<leftarrow> mem R telemetry;
        es \<leftarrow> telemetry_options t;
        opt \<leftarrow> telemetry_option_index es name 0;
        (opt, t, h) \<leftarrow>
          (if opt = None \<and> tl_option_count t < IOT_OPTION_MAX then telemetry_option_new t h
           else Some (opt, t, h));
        (case opt of
           None \<Rightarrow> Some (STATUS_FULL, poke telemetry (Some t) R, h)
         | Some i \<Rightarrow> do {
             arr \<leftarrow> tl_option t;
             e \<leftarrow> load arr i;
             let (update, e, h) =
               (if opt_name e \<in> {None, Some []}
                then (let (ok, h) = os_grab h in
                      (ok, e\<lparr>opt_name := if ok then Some (take IOT_NAME_MAX_LEN name) else None\<rparr>, h))
                else (True, e, h));
             let e = (if update then e\<lparr>opt_data := data\<rparr> else e);
             arr \<leftarrow> store i e arr;
             Some (if update then STATUS_SUCCESS else STATUS_FULL,
               poke telemetry (Some (t\<lparr>tl_option := Some arr\<rparr>)) R, h)
           })
      })"

text \<open>The status of reading the arguments is not looked at.\<close>

definition iot_telemetry_option_set ::
    "iot_telemetry registry \<Rightarrow> heap \<Rightarrow> ptr \<Rightarrow> string \<Rightarrow> iot_type \<Rightarrow> va_arg \<Rightarrow>
     (iot_status \<times> iot_telemetry registry \<times> heap) option" where
  "iot_telemetry_option_set R h telemetry name type args = do {
     (_, data, h) \<leftarrow> iot_common_arg_set True type args h;
     iot_telemetry_option_set_data R h telemetry name data
   }"

definition raw_data :: "u64 \<Rightarrow> ptr \<Rightarrow> iot_data" where
  "raw_data len p = data_zero\<lparr>dtype := TYPE_RAW, hi := p, lo := len, has_value := True\<rparr>"

definition iot_telemetry_option_set_raw ::
    "iot_telemetry registry \<Rightarrow> heap \<Rightarrow> ptr \<Rightarrow> string \<Rightarrow> u64 \<Rightarrow> ptr \<Rightarrow>
     (iot_status \<times> iot_telemetry registry \<times> heap) option" where
  "iot_telemetry_option_set_raw R h telemetry name len p =
     iot_telemetry_option_set_data R h telemetry name (raw_data len p)"

section \<open>Registering, publishing and releasing\<close>

definition iot_telemetry_register ::
    "(string \<Rightarrow> int) \<Rightarrow> (string \<Rightarrow> int) \<Rightarrow> 's iot_lib \<Rightarrow> iot_telemetry registry \<Rightarrow> ptr \<Rightarrow> bool \<Rightarrow> u32 \<Rightarrow> 's \<Rightarrow>
     (iot_status \<times> u8 option \<times> iot_telemetry registry \<times> 's iot_lib \<times> 's) option" where
  "iot_telemetry_register f g lib R telemetry txn max_time_out s =
     (if telemetry = NULL then Some (STATUS_BAD_PARAMETER, None, R, lib, s)
      else do {
        t \<leftarrow> mem R telemetry;
        (if tl_lib t
         then do {
           (result, tx, lib, s) \<leftarrow> perform_op f g lib txn (Some max_time_out)
             OPERATION_TELEMETRY_REGISTER telemetry ValueNone None s;
           let state = (if result = STATUS_SUCCESS then REGISTERED else REGISTER_PENDING);
           Some (result, tx, poke telemetry (Some (t\<lparr>tl_state := state\<rparr>)) R, lib, s)
         }
         else Some (STATUS_NOT_INITIALIZED, None, R, lib, s))
      })"

definition iot_telemetry_deregister ::
    "(string \<Rightarrow> int) \<Rightarrow> (string \<Rightarrow> int) \<Rightarrow> 's iot_lib \<Rightarrow> iot_telemetry registry \<Rightarrow> ptr \<Rightarrow> bool \<Rightarrow> u32 \<Rightarrow> 's \<Rightarrow>
     (iot_status \<times> u8 option \<times> iot_telemetry registry \<times> 's iot_lib \<times> 's) option" where
  "iot_telemetry_deregister f g lib R telemetry txn max_time_out s =
     (if telemetry = NULL then Some (STATUS_BAD_PARAMETER, None, R, lib, s)
      else do {
        t \<leftarrow> mem R telemetry;
        (if tl_lib t \<and> tl_state t \<noteq> DEREGISTERED
         then do {
           (result, tx, lib, s) \<leftarrow> perform_op f g lib txn (Some max_time_out)
             OPERATION_TELEMETRY_DEREGISTER NULL ValueNone None s;
           let state = (if result = STATUS_SUCCESS then DEREGISTERED else DEREGISTER_PENDING);
           Some (result, tx, poke telemetry (Some (t\<lparr>tl_state := state\<rparr>)) R, lib, s)
         }
         else Some (STATUS_NOT_INITIALIZED, None, R, lib, s))
      })"

text \<open>
  An object of the stack is emptied, but for its option count, and offered again; one of the
  heap is released.
\<close>

definition iot_telemetry_free ::
    "(string \<Rightarrow> int) \<Rightarrow> (string \<Rightarrow> int) \<Rightarrow> 's iot_lib \<Rightarrow> iot_telemetry registry \<Rightarrow> heap \<Rightarrow> ptr \<Rightarrow> u32 \<Rightarrow> 's \<Rightarrow>
     (iot_status \<times> iot_telemetry registry \<times> heap \<times> 's iot_lib \<times> 's) option" where
  "iot_telemetry_free f g lib R h telemetry max_time_out s =
     (if telemetry = NULL then Some (STATUS_BAD_PARAMETER, R, h, lib, s)
      else do {
        t \<leftarrow> mem R telemetry;
        (if tl_lib t
         then do {
           (result, _, R, lib, s) \<leftarrow>
             iot_telemetry_deregister f g lib R telemetry False max_time_out s;
           t \<leftarrow> mem R telemetry;
           let i = table_index telemetry R;
           (if i < used R
            then do {
              es \<leftarrow> telemetry_options t;
              h \<leftarrow> free_option_data es h;
              R \<leftarrow> (if tl_in_heap t then table_remove i NULL (poke telemetry None R)
                   else table_remove i telemetry (poke telemetry
                     (Some (t\<lparr>tl_lib := False, tl_option := None, tl_name := None\<rparr>)) R));
              Some (STATUS_SUCCESS, R, h, lib, s)
            }
            else Some (result, R, h, lib, s))
         }
         else Some (STATUS_NOT_INITIALIZED, R, h, lib, s))
      })"

definition iot_telemetry_name_get :: "iot_telemetry registry \<Rightarrow> ptr \<Rightarrow> string option option" where
  "iot_telemetry_name_get R t =
     (if t = NULL then Some None else do { t \<leftarrow> mem R t; Some (tl_name t) })"

definition iot_telemetry_publish_data ::
    "(string \<Rightarrow> int) \<Rightarrow> (string \<Rightarrow> int) \<Rightarrow> 's iot_lib \<Rightarrow> iot_telemetry registry \<Rightarrow> ptr \<Rightarrow> bool \<Rightarrow> u32 \<Rightarrow>
     iot_data \<Rightarrow> 's \<Rightarrow> (iot_status \<times> u8 option \<times> iot_telemetry registry \<times> 's iot_lib \<times> 's) option" where
  "iot_telemetry_publish_data f g lib R telemetry txn max_time_out data s =
     (if telemetry = NULL then Some (STATUS_BAD_PARAMETER, None, R, lib, s)
      else do {
        t \<leftarrow> mem R telemetry;
        (if \<not> tl_lib t then Some (STATUS_NOT_INITIALIZED, None, R, lib, s)
         else if tl_type t = TYPE_NULL \<or> tl_type t = dtype data
         then do {
           (result, tx, lib, s) \<leftarrow> perform_op f g lib txn (Some max_time_out)
             OPERATION_TELEMETRY_PUBLISH telemetry (ValueData data) None s;
           Some (result, tx,
             if result = STATUS_SUCCESS then poke telemetry (Some (t\<lparr>tl_time_stamp := 0\<rparr>)) R else R,
             lib, s)
         }
         else Some (STATUS_BAD_REQUEST, None, R, lib, s))
      })"

definition iot_telemetry_publish ::
    "(string \<Rightarrow> int) \<Rightarrow> (string \<Rightarrow> int) \<Rightarrow> 's iot_lib \<Rightarrow> iot_telemetry registry \<Rightarrow> heap \<Rightarrow> ptr \<Rightarrow> bool \<Rightarrow> u32 \<Rightarrow>
     iot_type \<Rightarrow> va_arg \<Rightarrow> 's \<Rightarrow>
     (iot_status \<times> u8 option \<times> iot_telemetry registry \<times> 's iot_lib \<times> 's) option" where
  "iot_telemetry_publish f g lib R h telemetry txn max_time_out type args s = do {
     (_, data, _) \<leftarrow> iot_common_arg_set False type args h;
     iot_telemetry_publish_data f g lib R telemetry txn max_time_out data s
   }"

definition iot_telemetry_publish_raw ::
    "(string \<Rightarrow> int) \<Rightarrow> (string \<Rightarrow> int) \<Rightarrow> 's iot_lib \<Rightarrow> iot_telemetry registry \<Rightarrow> ptr \<Rightarrow> bool \<Rightarrow> u32 \<Rightarrow>
     u64 \<Rightarrow> ptr \<Rightarrow> 's \<Rightarrow> (iot_status \<times> u8 option \<times> iot_telemetry registry \<times> 's iot_lib \<times> 's) option" where
  "iot_telemetry_publish_raw f g lib R telemetry txn max_time_out len p s =
     iot_telemetry_publish_data f g lib R telemetry txn max_time_out (raw_data len p) s"

definition iot_telemetry_timestamp_set ::
    "iot_telemetry registry \<Rightarrow> ptr \<Rightarrow> u64 \<Rightarrow> (iot_status \<times> iot_telemetry registry) option" where
  "iot_telemetry_timestamp_set R telemetry time_stamp =
     (if telemetry = NULL then Some (STATUS_BAD_PARAMETER, R)
      else do {
        t \<leftarrow> mem R telemetry;
        Some (STATUS_SUCCESS, poke telemetry (Some (t\<lparr>tl_time_stamp := time_stamp\<rparr>)) R)
      })"

section \<open>The table of telemetry\<close>

definition telemetry_name :: "iot_telemetry \<Rightarrow> string option" where
  "telemetry_name t = map_option (take IOT_NAME_MAX_LEN) (tl_name t)"

abbreviation telemetry_ok :: "ptr set \<Rightarrow> iot_telemetry registry \<Rightarrow> bool" where
  "telemetry_ok \<equiv> pool_ok telemetry_name tl_lib tl_in_heap IOT_TELEMETRY_MAX"

lemma telemetry_greater_spec:
  assumes ok: "registry_ok telemetry_name IOT_TELEMETRY_MAX R" and i: "i < used R" and p: "p \<notin> set (items R)"
  shows "telemetry_greater (poke p a R) name i =
    Some (table_keys telemetry_name R ! i < take IOT_NAME_MAX_LEN name)"
proof -
  let ?q = "items R ! i"
  have q: "?q \<in> set (items R)" using i registry_okD(8)[OF ok] by simp
  then obtain it nm where it: "mem R ?q = Some it" "tl_name it = Some nm"
    using items_live[OF ok q] by (auto simp: telemetry_name_def)
  have "slots R ! i = ?q" using i by (simp add: items_def)
  moreover have "i < length (slots R)" using i registry_okD(1,2)[OF ok] by simp
  moreover have "?q \<noteq> p" using p q by blast
  moreover have "table_keys telemetry_name R ! i = take IOT_NAME_MAX_LEN nm"
    using i it registry_okD(8)[OF ok] by (simp add: table_keys_def item_key_def telemetry_name_def)
  ultimately show ?thesis using it by (simp add: telemetry_greater_def load_def poke_def)
qed

lemma telemetry_allocate_spec:
  assumes ok: "telemetry_ok stack R"
  obtains (none) S h' where "iot_telemetry_allocate R h name type = Some (NULL, S, h')"
      "telemetry_ok stack S" "items S = items R"
  | (stray) p S h' where "iot_telemetry_allocate R h name type = Some (p, S, h')" "p \<noteq> NULL"
      "telemetry_ok stack S" "items S = items R" "p \<in> stack" "mem S p = Some telemetry_zero"
  | (new) p S h' nm t where "iot_telemetry_allocate R h name type = Some (p, S, h')" "p \<noteq> NULL"
      "telemetry_ok stack S" "p \<notin> set (items R)" "set (items S) = insert p (set (items R))"
      "name = Some nm" "nm \<noteq> ''''" "mem S = (mem R)(p \<mapsto> t)"
      "t = telemetry_zero\<lparr>tl_lib := True, tl_name := Some (take IOT_NAME_MAX_LEN nm),
         tl_type := type, tl_in_heap := p \<notin> stack\<rparr>"
proof -
  let ?mk = "\<lambda>name is_in_heap. telemetry_zero\<lparr>tl_lib := True, tl_name := Some name, tl_type := type,
    tl_in_heap := is_in_heap\<rparr>"
  have mk: "telemetry_name (?mk (take IOT_NAME_MAX_LEN nm) b) = Some (take IOT_NAME_MAX_LEN nm)"
    "tl_lib (?mk nm b)" "tl_in_heap (?mk nm b) \<longleftrightarrow> b" "\<not> tl_lib telemetry_zero" for nm b
    by (simp_all add: telemetry_name_def telemetry_zero_def)
  show thesis
  proof (rule table_allocate_spec[where gt = telemetry_greater and k = "take IOT_NAME_MAX_LEN" and mk = ?mk
        and zero = telemetry_zero and h = h and name = name, OF ok])
    fix R p a nm i
    assume "registry_ok telemetry_name IOT_TELEMETRY_MAX R" "i < used R" "p \<notin> set (items R)"
    then show "telemetry_greater (poke p a R) nm i =
        Some (table_keys telemetry_name R ! i < take IOT_NAME_MAX_LEN nm)"
      by (rule telemetry_greater_spec)
  qed (rule mk | erule (2) none[unfolded iot_telemetry_allocate_def]
      | erule (5) stray[unfolded iot_telemetry_allocate_def]
      | erule (7) new[unfolded iot_telemetry_allocate_def], rule refl)+
qed

lemma telemetry_update:
  assumes "telemetry_ok stack R" and "mem R p = Some t"
    and "tl_name t' = tl_name t" "tl_lib t' = tl_lib t" "tl_in_heap t' = tl_in_heap t"
  shows "telemetry_ok stack (poke p (Some t') R)" "items (poke p (Some t') R) = items R"
  using pool_update[OF assms(1,2), of t'] assms(3-5) by (simp_all add: telemetry_name_def)

text \<open>Registration and deregistration change nothing but the state of the object.\<close>

lemma telemetry_register_frame:
  assumes "iot_telemetry_register f g lib R p txn m s = Some (r, tx, S, lib', s')"
  shows "S = R \<or> (\<exists>t st. mem R p = Some t \<and> S = poke p (Some (t\<lparr>tl_state := st\<rparr>)) R)"
  using assms by (auto simp: iot_telemetry_register_def Let_def split: if_splits bind_splits)

lemma telemetry_deregister_frame:
  assumes "iot_telemetry_deregister f g lib R p txn m s = Some (r, tx, S, lib', s')"
  shows "S = R \<or> (\<exists>t st. mem R p = Some t \<and> S = poke p (Some (t\<lparr>tl_state := st\<rparr>)) R)"
  using assms by (auto simp: iot_telemetry_deregister_def Let_def split: if_splits bind_splits)

lemma telemetry_state_frame:
  assumes "telemetry_ok stack R"
    and "S = R \<or> (\<exists>t st. mem R p = Some t \<and> S = poke p (Some (t\<lparr>tl_state := st\<rparr>)) R)"
  shows "telemetry_ok stack S" "items S = items R"
  using assms telemetry_update[OF assms(1), of p] by auto

lemma telemetry_option_index_bound:
  "telemetry_option_index es name i = Some (Some j) \<Longrightarrow> j < i + length es"
proof (induction es name i rule: telemetry_option_index.induct)
  case (2 e es name i)
  then show ?case by (auto split: if_splits bind_splits)
qed simp

lemma telemetry_option_new_frame:
  assumes "telemetry_option_new t h = Some (k, t', h')"
  shows "tl_name t' = tl_name t \<and> tl_lib t' = tl_lib t \<and> tl_in_heap t' = tl_in_heap t"
  using assms
  by (auto simp: telemetry_option_new_def Let_def split: option.splits bind_splits prod.splits)

lemma telemetry_option_set_frame:
  assumes "telemetry_ok stack R" and "iot_telemetry_option_set_data R h p name data = Some (r, S, h')"
  shows "telemetry_ok stack S" "items S = items R"
proof -
  have "S = R \<or> (\<exists>t t'. mem R p = Some t \<and> S = poke p (Some t') R \<and>
      tl_name t' = tl_name t \<and> tl_lib t' = tl_lib t \<and> tl_in_heap t' = tl_in_heap t)"
    using assms(2) unfolding iot_telemetry_option_set_data_def Let_def
    by (auto split: if_splits bind_splits option.splits prod.splits dest!: telemetry_option_new_frame)
  then show "telemetry_ok stack S" "items S = items R"
    using assms(1) telemetry_update[OF assms(1)] by auto
qed

lemma telemetry_publish_frame:
  assumes "telemetry_ok stack R"
    and "iot_telemetry_publish_data f g lib R p txn m data s = Some (r, tx, S, lib', s')"
  shows "telemetry_ok stack S" "items S = items R"
proof -
  have "S = R \<or> (\<exists>t. mem R p = Some t \<and> S = poke p (Some (t\<lparr>tl_time_stamp := 0\<rparr>)) R)"
    using assms(2) by (auto simp: iot_telemetry_publish_data_def split: if_splits bind_splits)
  then show "telemetry_ok stack S" "items S = items R"
    using assms(1) telemetry_update[OF assms(1), of p] by auto
qed

lemma telemetry_free_spec:
  assumes ok: "telemetry_ok stack R" and p: "p \<in> set (items R)"
    and run: "iot_telemetry_free f g lib R h p m s = Some (r, S, h', lib', s')"
  shows "r = STATUS_SUCCESS" "telemetry_ok stack S" "set (items S) = set (items R) - {p}"
proof -
  obtain t where t: "mem R p = Some t" using items_live[OF pool_okD(1)[OF ok] p] by blast
  have lib: "tl_lib t" using pool_okD(5)[OF ok p t] by blast
  have pz: "p \<noteq> NULL" using registry_okD(4)[OF pool_okD(1)[OF ok]] p by blast
  obtain r1 tx R1 lib1 s1 where d: "iot_telemetry_deregister f g lib R p False m s = Some (r1, tx, R1, lib1, s1)"
    using run t lib pz by (auto simp: iot_telemetry_free_def split: bind_splits)
  note R1 = telemetry_state_frame[OF ok telemetry_deregister_frame[OF d]]
  have p1: "p \<in> set (items R1)" using p R1(2) by simp
  obtain t1 where t1: "mem R1 p = Some t1" using items_live[OF pool_okD(1)[OF R1(1)] p1] by blast
  let ?t = "t1\<lparr>tl_lib := False, tl_option := None, tl_name := None\<rparr>"
  have nl: "\<not> tl_lib ?t" by simp
  obtain S1 where S1: "table_remove (table_index p R1) (if tl_in_heap t1 then NULL else p)
      (poke p (if tl_in_heap t1 then None else Some ?t) R1) = Some S1"
    "telemetry_ok stack S1" "set (items S1) = set (items R1) - {p}" "table_index p R1 < used R1"
    by (rule pool_remove[OF R1(1) p1 t1 nl])
  have "r = STATUS_SUCCESS \<and> S = S1"
    using run t lib pz d t1 S1(1,4)
    by (cases "tl_in_heap t1") (auto simp: iot_telemetry_free_def Let_def split: bind_splits)
  then show "r = STATUS_SUCCESS" "telemetry_ok stack S" "set (items S) = set (items R) - {p}"
    using S1(2,3) R1(2) by simp_all
qed

section \<open>Telemetry as an ordered table\<close>

text \<open>
  The state of a run: the objects, the plug-ins and the world of the plug-ins.
\<close>

type_synonym 's telemetry_state = "iot_telemetry registry \<times> 's iot_lib \<times> 's"

inductive telemetry_adds :: "'s telemetry_state \<Rightarrow> ptr \<Rightarrow> 's telemetry_state \<Rightarrow> bool" where
  "iot_telemetry_allocate R h name type = Some (p, S, h') \<Longrightarrow> p \<noteq> NULL \<Longrightarrow> mem S p = Some t \<Longrightarrow> tl_lib t \<Longrightarrow>
    telemetry_adds (R, lib, s) p (S, lib, s)"

inductive telemetry_removes :: "'s telemetry_state \<Rightarrow> ptr \<Rightarrow> 's telemetry_state \<Rightarrow> bool" where
  "p \<in> set (items R) \<Longrightarrow> iot_telemetry_free f g lib R h p m s = Some (r, S, h', lib', s') \<Longrightarrow>
    telemetry_removes (R, lib, s) p (S, lib', s')"

text \<open>Every other function, and an allocation that adds nothing.\<close>

inductive telemetry_keeps :: "'s telemetry_state \<Rightarrow> 's telemetry_state \<Rightarrow> bool" where
  "iot_telemetry_allocate R h name type = Some (p, S, h') \<Longrightarrow> p = NULL \<or> \<not> tl_lib (the (mem S p)) \<Longrightarrow>
    telemetry_keeps (R, lib, s) (S, lib, s)"
| "iot_telemetry_option_set_data R h p name data = Some (r, S, h') \<Longrightarrow>
    telemetry_keeps (R, lib, s) (S, lib, s)"
| "iot_telemetry_publish_data f g lib R p txn m data s = Some (r, tx, S, lib', s') \<Longrightarrow>
    telemetry_keeps (R, lib, s) (S, lib', s')"
| "iot_telemetry_register f g lib R p txn m s = Some (r, tx, S, lib', s') \<Longrightarrow>
    telemetry_keeps (R, lib, s) (S, lib', s')"
| "iot_telemetry_deregister f g lib R p txn m s = Some (r, tx, S, lib', s') \<Longrightarrow>
    telemetry_keeps (R, lib, s) (S, lib', s')"
| "iot_telemetry_timestamp_set R p stamp = Some (r, S) \<Longrightarrow>
    telemetry_keeps (R, lib, s) (S, lib, s)"

definition telemetry_key :: "'s telemetry_state \<Rightarrow> ptr \<Rightarrow> string" where
  "telemetry_key t p = the (item_key telemetry_name (fst t) p)"

lemma telemetry_timestamp_frame:
  assumes "telemetry_ok stack R" and "iot_telemetry_timestamp_set R p stamp = Some (r, S)"
  shows "telemetry_ok stack S" "items S = items R"
proof -
  have "S = R \<or> (\<exists>t. mem R p = Some t \<and> S = poke p (Some (t\<lparr>tl_time_stamp := stamp\<rparr>)) R)"
    using assms(2) by (auto simp: iot_telemetry_timestamp_set_def split: if_splits bind_splits)
  then show "telemetry_ok stack S" "items S = items R"
    using assms(1) telemetry_update[OF assms(1), of p] by auto
qed

lemma telemetry_adds_spec:
  assumes "telemetry_adds t p u" and "telemetry_ok stack (fst t)"
  shows "telemetry_ok stack (fst u) \<and> p \<notin> set (items (fst t)) \<and>
    set (items (fst u)) = insert p (set (items (fst t)))"
  using assms
proof cases
  case (1 R h name type S h' it lib s)
  have ok: "telemetry_ok stack R" using assms(2) 1 by simp
  show ?thesis
    by (rule telemetry_allocate_spec[OF ok, of h name type])
      (use 1 in \<open>auto simp: telemetry_zero_def\<close>)
qed

lemma telemetry_removes_spec:
  assumes "telemetry_removes t p u" and "telemetry_ok stack (fst t)"
  shows "telemetry_ok stack (fst u) \<and> p \<in> set (items (fst t)) \<and>
    set (items (fst u)) = set (items (fst t)) - {p}"
  using assms
proof cases
  case (1 R f g lib h m s r S h' lib' s')
  then show ?thesis using telemetry_free_spec[OF _ 1(3,4), of stack] assms(2) by simp
qed

lemma telemetry_keeps_spec:
  assumes "telemetry_keeps t u" and "telemetry_ok stack (fst t)"
  shows "telemetry_ok stack (fst u) \<and> items (fst u) = items (fst t)"
  using assms
proof cases
  case (1 R h name type p S h' lib s)
  have ok: "telemetry_ok stack R" using assms(2) 1 by simp
  have "telemetry_ok stack S \<and> items S = items R"
    by (rule telemetry_allocate_spec[OF ok, of h name type]) (use 1(3,4) in auto)
  then show ?thesis using 1 by simp
next
  case 2
  then show ?thesis using telemetry_option_set_frame[OF _ 2(3)] assms(2) by simp
next
  case 3
  then show ?thesis using telemetry_publish_frame[OF _ 3(3)] assms(2) by simp
next
  case 4
  then show ?thesis using telemetry_state_frame[OF _ telemetry_register_frame[OF 4(3)]] assms(2) by simp
next
  case 5
  then show ?thesis using telemetry_state_frame[OF _ telemetry_deregister_frame[OF 5(3)]] assms(2) by simp
next
  case 6
  then show ?thesis using telemetry_timestamp_frame[OF _ 6(3)] assms(2) by simp
qed

interpretation telemetry_table: ordered_table "\<lambda>t. telemetry_ok stack (fst t)" "\<lambda>t. items (fst t)"
  telemetry_key IOT_TELEMETRY_MAX telemetry_adds telemetry_removes telemetry_keeps for stack
  unfolding telemetry_key_def[abs_def]
  by (rule pool_ordered_table) (erule (1) telemetry_adds_spec telemetry_removes_spec telemetry_keeps_spec)+

section \<open>Properties\<close>

text \<open>Three objects on the stack; the first one allocated as telemetry ''temp'' of type INT32.\<close>

definition example_telemetry :: "iot_telemetry registry" where
  "example_telemetry = \<lparr>mem = (\<lambda>p. if p \<in> set [1, 2, 3] then Some telemetry_zero else None),
     slots = [1, 2, 3] @ replicate (IOT_TELEMETRY_MAX - 3) NULL, used = 0\<rparr>"

lemma example_telemetry_initial: "pool_initial tl_lib IOT_TELEMETRY_MAX [1, 2, 3] example_telemetry"
  by (simp add: pool_initial_def example_telemetry_def telemetry_zero_def)

lemma example_telemetry_ok: "telemetry_ok {1, 2, 3} example_telemetry"
  using pool_initial_ok(1)[OF example_telemetry_initial] by simp

definition example_temp :: "iot_telemetry registry" where
  "example_temp = example_telemetry\<lparr>mem := (mem example_telemetry)(1 \<mapsto>
     telemetry_zero\<lparr>tl_lib := True, tl_name := Some ''temp'', tl_type := TYPE_INT32\<rparr>), used := 1\<rparr>"

text \<open>
  C34: Telemetry follows its history: whatever sequence of allocations, releases, failed
  allocations, option settings, publications, registrations, deregistrations and time stamps
  runs from the initial table, the objects in use are exactly those the history leaves,
  without repetition, in name order and within capacity. In particular an object is never
  allocated while it is in use.
\<close>

theorem telemetry_history:
  assumes "pool_initial tl_lib IOT_TELEMETRY_MAX stack R"
    and "table_run telemetry_adds telemetry_removes telemetry_keeps (R, lib, s) evs (S, lib', s')"
  shows "set (items S) = replay evs {} \<and> legal evs {} \<and> distinct (items S) \<and>
    sorted (map (telemetry_key (S, lib', s')) (items S)) \<and> length (items S) \<le> IOT_TELEMETRY_MAX"
  using telemetry_table.run_table[OF assms(2)] telemetry_table.run_replay[OF assms(2)]
    pool_initial_ok(1)[OF assms(1), of telemetry_name tl_in_heap] pool_initial_ok(2)[OF assms(1)] by simp

theorem telemetry_history_witness:
  "\<exists>S. table_run telemetry_adds telemetry_removes telemetry_keeps
       (example_telemetry, example_plugin_lib, ()) [Added 1, Kept, Added 2, Removed 1]
       (S, example_plugin_lib, ()) \<and>
     items S = [2] \<and> telemetry_key (S, example_plugin_lib, ()) 2 = ''hum''"
proof -
  let ?h = "empty_heap\<lparr>allocator := [Some 9]\<rparr>"
  let ?lib = "example_plugin_lib" and ?f = "\<lambda>_. 0 :: int"
  let ?item = "\<lambda>name. telemetry_zero\<lparr>tl_lib := True, tl_name := Some name, tl_type := TYPE_INT32\<rparr>"
  let ?mem1 = "(mem example_telemetry)(1 \<mapsto> ?item ''temp'')"
  let ?one = "example_telemetry\<lparr>mem := ?mem1, used := 1\<rparr>"
  let ?mem2 = "?mem1(1 \<mapsto> (?item ''temp'')\<lparr>tl_time_stamp := 7\<rparr>)"
  let ?set = "example_telemetry\<lparr>mem := ?mem2, used := 1\<rparr>"
  let ?mem3 = "?mem2(2 \<mapsto> ?item ''hum'')"
  let ?slots = "[2, 1, 3] @ replicate (IOT_TELEMETRY_MAX - 3) NULL"
  let ?two = "\<lparr>mem = ?mem3, slots = ?slots, used = 2\<rparr>"
  let ?left = "\<lparr>mem = ?mem3(1 \<mapsto> telemetry_zero\<lparr>tl_type := TYPE_INT32, tl_time_stamp := 7\<rparr>),
    slots = ?slots, used = 1\<rparr>"
  note compute = iot_telemetry_allocate_def table_allocate_def take_object_def load_def os_grab_def
    example_telemetry_def empty_heap_def poke_def table_insert_def table_remove_def table_index_def
    place.simps memmove_def store_def telemetry_greater_def telemetry_zero_def
  have "iot_telemetry_allocate example_telemetry ?h (Some ''temp'') TYPE_INT32 = Some (1, ?one, empty_heap)"
    by (simp add: compute)
  then have add1: "telemetry_adds (example_telemetry, ?lib, ()) 1 (?one, ?lib, ())"
    by (rule telemetry_adds.intros) (simp_all, simp add: telemetry_zero_def)
  have "iot_telemetry_timestamp_set ?one 1 7 = Some (STATUS_SUCCESS, ?set)"
    by (simp add: iot_telemetry_timestamp_set_def poke_def)
  then have keep: "telemetry_keeps (?one, ?lib, ()) (?set, ?lib, ())" by (rule telemetry_keeps.intros)
  have "iot_telemetry_allocate ?set ?h (Some ''hum'') TYPE_INT32 = Some (2, ?two, empty_heap)"
    by (simp add: compute)
  then have add2: "telemetry_adds (?set, ?lib, ()) 2 (?two, ?lib, ())"
    by (rule telemetry_adds.intros) (simp_all, simp add: telemetry_zero_def)
  have "iot_telemetry_free ?f ?f ?lib ?two empty_heap 1 0 () = Some (STATUS_SUCCESS, ?left, empty_heap, ?lib, ())"
    by (simp add: compute iot_telemetry_free_def iot_telemetry_deregister_def telemetry_options_def)
  moreover have "1 \<in> set (items ?two)" by (simp add: items_def)
  ultimately have rem: "telemetry_removes (?two, ?lib, ()) 1 (?left, ?lib, ())"
    by (intro telemetry_removes.intros)
  have run: "table_run telemetry_adds telemetry_removes telemetry_keeps (example_telemetry, ?lib, ())
      [Added 1, Kept, Added 2, Removed 1] (?left, ?lib, ())"
    by (rule table_run.intros add1 keep add2 rem)+
  have left: "items ?left = [2]" "telemetry_key (?left, ?lib, ()) 2 = ''hum''"
    by (simp_all add: items_def telemetry_key_def item_key_def telemetry_name_def)
  from telemetry_history[OF example_telemetry_initial run] left run show ?thesis by blast
qed

text \<open>
  Allocating telemetry. The result is NULL with the table as it was, or a new object in
  the table, deregistered, of the given type and name (cut to \<open>IOT_NAME_MAX_LEN\<close>); or, when the
  name of an object of the stack cannot be allocated, that object, which is zeroed, is not in
  the table and is refused by every function that needs the library.
\<close>

theorem telemetry_allocate_cases:
  assumes "telemetry_ok stack R"
  shows "\<exists>p S h'. iot_telemetry_allocate R h name type = Some (p, S, h') \<and> telemetry_ok stack S \<and>
    (p = NULL \<and> items S = items R
     \<or> (\<exists>nm t. name = Some nm \<and> nm \<noteq> '''' \<and> p \<notin> set (items R) \<and> set (items S) = insert p (set (items R)) \<and>
          mem S p = Some t \<and> tl_lib t \<and> tl_name t = Some (take IOT_NAME_MAX_LEN nm) \<and>
          tl_type t = type \<and> tl_state t = DEREGISTERED \<and> telemetry_options t = Some [])
     \<or> p \<in> stack \<and> items S = items R \<and>
       iot_telemetry_publish_data f g lib S p txn m data s =
         Some (STATUS_NOT_INITIALIZED, None, S, lib, s) \<and>
       iot_telemetry_register f g lib S p txn m s = Some (STATUS_NOT_INITIALIZED, None, S, lib, s) \<and>
       iot_telemetry_free f g lib S h' p m s = Some (STATUS_NOT_INITIALIZED, S, h', lib, s))"
proof (rule telemetry_allocate_spec[OF assms, of h name type])
  fix p S h'
  assume a: "iot_telemetry_allocate R h name type = Some (p, S, h')" "p \<noteq> NULL" "telemetry_ok stack S"
    "items S = items R" "p \<in> stack" "mem S p = Some telemetry_zero"
  then show ?thesis
    by (intro exI[of _ p] exI[of _ S] exI[of _ h'])
      (simp add: iot_telemetry_publish_data_def iot_telemetry_register_def iot_telemetry_free_def
        telemetry_zero_def)
next
  fix p S h' nm t
  assume "iot_telemetry_allocate R h name type = Some (p, S, h')" "p \<noteq> NULL" "telemetry_ok stack S"
    "p \<notin> set (items R)" "set (items S) = insert p (set (items R))" "name = Some nm" "nm \<noteq> ''''"
    "mem S = (mem R)(p \<mapsto> t)" "t = telemetry_zero\<lparr>tl_lib := True, tl_name := Some (take IOT_NAME_MAX_LEN nm),
       tl_type := type, tl_in_heap := p \<notin> stack\<rparr>"
  then show ?thesis
    by (intro exI[of _ p] exI[of _ S] exI[of _ h'] conjI disjI2 disjI1 exI[of _ nm] exI[of _ t])
      (simp_all add: telemetry_zero_def telemetry_options_def)
qed blast

theorem telemetry_allocate_cases_witness:
  "\<exists>p S h'. iot_telemetry_allocate example_telemetry (empty_heap\<lparr>allocator := [None]\<rparr>) (Some ''temp'') TYPE_INT32 =
     Some (p, S, h') \<and> p = 1 \<and> items S = []"
proof -
  have it: "items example_telemetry = []" by (rule pool_initial_ok(2)[OF example_telemetry_initial])
  have run: "\<exists>S h'. iot_telemetry_allocate example_telemetry (empty_heap\<lparr>allocator := [None]\<rparr>) (Some ''temp'') TYPE_INT32 =
      Some (1, S, h') \<and> mem S 1 = Some telemetry_zero"
    by (simp add: iot_telemetry_allocate_def table_allocate_def take_object_def load_def example_telemetry_def os_grab_def
        empty_heap_def poke_def)
  from telemetry_allocate_cases[OF example_telemetry_ok, of "empty_heap\<lparr>allocator := [None]\<rparr>" "Some ''temp''" TYPE_INT32
      "\<lambda>_. 0" "\<lambda>_. 0" example_plugin_lib False 0 data_zero "()"] run
  show ?thesis by (auto simp: it telemetry_zero_def)
qed

text \<open>
  The first option set on telemetry is the only one it can have: setting it stores the
  value under the name cut to \<open>IOT_NAME_MAX_LEN\<close> (or reports \<open>FULL\<close> when memory runs out),
  reading it gives what the value converts to, and setting a second option under a different
  name writes beyond the array, which is undefined.
\<close>

theorem telemetry_single_option:
  assumes "p \<noteq> NULL" and "mem R p = Some t" and "tl_option t = None" and "tl_option_count t = 0"
    and "name \<noteq> ''''"
  shows "\<exists>r S h'. iot_telemetry_option_set_data R h p name data = Some (r, S, h') \<and>
    (r = STATUS_FULL \<or>
     r = STATUS_SUCCESS \<and>
     iot_telemetry_option_get f g k S p (Some name) convert type dest =
       iot_common_arg_get f g k (Some data) convert type dest \<and>
     (\<forall>name2 data2 k. name2 \<noteq> take IOT_NAME_MAX_LEN name \<longrightarrow>
        iot_telemetry_option_set_data S k p name2 data2 = None))"
proof -
  obtain ok1 h1 where g1: "os_grab h = (ok1, h1)" by fastforce
  obtain ok2 h2 where g2: "os_grab h1 = (ok2, h2)" by fastforce
  note set_defs = iot_telemetry_option_set_data_def telemetry_options_def telemetry_option_new_def
    store_def load_def poke_def Let_def
  consider "\<not> ok1" | "ok1" "\<not> ok2" | (ok) "ok1" "ok2" by blast
  then show ?thesis
  proof cases
    case ok
    let ?e = "\<lparr>opt_name = Some (take IOT_NAME_MAX_LEN name), opt_data = data\<rparr>"
    let ?t = "t\<lparr>tl_option_count := 1, tl_option := Some [?e]\<rparr>"
    have set: "iot_telemetry_option_set_data R h p name data = Some (STATUS_SUCCESS, poke p (Some ?t) R, h2)"
      using assms ok g1 g2 by (simp add: set_defs option_zero_def)
    have opts: "telemetry_options ?t = Some [?e]" by (simp add: telemetry_options_def)
    have live: "mem (poke p (Some ?t) R) p = Some ?t" by (simp add: poke_def)
    have get: "iot_telemetry_option_get f g k (poke p (Some ?t) R) p (Some name) convert type dest =
        iot_common_arg_get f g k (Some data) convert type dest"
      using assms(1) opts live
      by (auto simp: iot_telemetry_option_get_def iot_common_arg_get_def split: bind_splits)
    have two: "iot_telemetry_option_set_data (poke p (Some ?t) R) k p name2 data2 = None"
      if "name2 \<noteq> take IOT_NAME_MAX_LEN name" for name2 data2 k
      using assms(1) that live opts
      by (simp add: iot_telemetry_option_set_data_def telemetry_option_new_def store_def)
    show ?thesis using set get two by blast
  qed (use assms g1 g2 in \<open>auto simp: set_defs option_zero_def\<close>)
qed

theorem telemetry_single_option_witness:
  "\<exists>r S h'. iot_telemetry_option_set_data example_temp (empty_heap\<lparr>allocator := [Some 8, Some 9]\<rparr>) 1 ''unit''
      data_zero = Some (r, S, h') \<and>
    (r = STATUS_FULL \<or> r = STATUS_SUCCESS \<and>
     (\<forall>name2 data2 k. name2 \<noteq> take IOT_NAME_MAX_LEN ''unit'' \<longrightarrow>
        iot_telemetry_option_set_data S k 1 name2 data2 = None))"
proof -
  let ?t = "telemetry_zero\<lparr>tl_lib := True, tl_name := Some ''temp'', tl_type := TYPE_INT32\<rparr>"
  have "(1 :: ptr) \<noteq> NULL" "mem example_temp 1 = Some ?t" "tl_option ?t = None" "tl_option_count ?t = 0"
    "''unit'' \<noteq> ''''"
    by (simp_all add: example_temp_def telemetry_zero_def)
  from telemetry_single_option[OF this, where h = "empty_heap\<lparr>allocator := [Some 8, Some 9]\<rparr>"
      and data = data_zero and f = "\<lambda>_. 0" and g = "\<lambda>_. 0" and k = empty_heap and convert = False
      and type = TYPE_BOOL and dest = True]
  show ?thesis by blast
qed

text \<open>
  The life of telemetry in use. A sample whose type is not the registered one is refused
  with \<open>BAD_REQUEST\<close> before any plug-in sees it; another one is the operation performed, and
  clears the time stamp when it succeeds. Registering performs its operation in every state
  and ends REGISTERED or, when it fails, pending. Deregistering telemetry that is not
  registered performs nothing and returns \<open>NOT_INITIALIZED\<close>; otherwise it ends DEREGISTERED
  or pending.
\<close>

theorem telemetry_life:
  assumes "p \<noteq> NULL" and "mem R p = Some t" and "tl_lib t"
  shows "iot_telemetry_publish_data f g lib R p txn m data s =
      (if tl_type t = TYPE_NULL \<or> tl_type t = dtype data
       then map_option (\<lambda>(r, tx, lib', s').
              (r, tx, if r = STATUS_SUCCESS then poke p (Some (t\<lparr>tl_time_stamp := 0\<rparr>)) R else R, lib', s'))
              (perform_op f g lib txn (Some m) OPERATION_TELEMETRY_PUBLISH p (ValueData data) None s)
       else Some (STATUS_BAD_REQUEST, None, R, lib, s)) \<and>
    iot_telemetry_register f g lib R p txn m s =
      map_option (\<lambda>(r, tx, lib', s'). (r, tx, poke p (Some (t\<lparr>tl_state :=
          if r = STATUS_SUCCESS then REGISTERED else REGISTER_PENDING\<rparr>)) R, lib', s'))
        (perform_op f g lib txn (Some m) OPERATION_TELEMETRY_REGISTER p ValueNone None s) \<and>
    iot_telemetry_deregister f g lib R p txn m s =
      (if tl_state t = DEREGISTERED then Some (STATUS_NOT_INITIALIZED, None, R, lib, s)
       else map_option (\<lambda>(r, tx, lib', s'). (r, tx, poke p (Some (t\<lparr>tl_state :=
              if r = STATUS_SUCCESS then DEREGISTERED else DEREGISTER_PENDING\<rparr>)) R, lib', s'))
            (perform_op f g lib txn (Some m) OPERATION_TELEMETRY_DEREGISTER NULL ValueNone None s))"
  using assms
  by (auto simp: iot_telemetry_publish_data_def iot_telemetry_register_def iot_telemetry_deregister_def
      Let_def bind_eq_None_conv split: option.splits bind_splits intro!: option.expand)

theorem telemetry_life_witness:
  "iot_telemetry_publish_data (\<lambda>_. 0) (\<lambda>_. 0) example_plugin_lib example_temp 1 False 0
     (data_zero\<lparr>dtype := TYPE_STRING\<rparr>) () = Some (STATUS_BAD_REQUEST, None, example_temp, example_plugin_lib, ())"
proof -
  have "mem example_temp 1 = Some (telemetry_zero\<lparr>tl_lib := True, tl_name := Some ''temp'', tl_type := TYPE_INT32\<rparr>)"
    by (simp add: example_temp_def)
  from telemetry_life[OF _ this, where f = "\<lambda>_. 0" and g = "\<lambda>_. 0" and lib = example_plugin_lib and txn = False
      and m = 0 and data = "data_zero\<lparr>dtype := TYPE_STRING\<rparr>" and s = "()"]
  show ?thesis by (simp add: data_zero_def)
qed

end
