(* ===== verification/Request.thy ===== *)
theory Request
  imports Library
begin

text \<open>
  Action requests (\<open>src/src/api/iot_action.c\<close>): their options and parameters, iteration over the
  parameters, copying into a caller's buffer, and the status. Arrays are kept by value.
\<close>

abbreviation IOT_PARAMETER_MAX :: nat where "IOT_PARAMETER_MAX \<equiv> 7"
abbreviation IOT_ID_MAX_LEN :: nat where "IOT_ID_MAX_LEN \<equiv> 36"

abbreviation PARAMETER_IN :: u8 where "PARAMETER_IN \<equiv> 0x1"
abbreviation PARAMETER_IN_REQUIRED :: u8 where "PARAMETER_IN_REQUIRED \<equiv> 0x2"
abbreviation PARAMETER_OUT :: u8 where "PARAMETER_OUT \<equiv> 0x4"
abbreviation PARAMETER_OUT_REQUIRED :: u8 where "PARAMETER_OUT_REQUIRED \<equiv> 0x8"

section \<open>Messages\<close>

text \<open>
  The message of a status; for \<open>FAILURE\<close> it is that of the last system error, if there is one
  (\<open>sys\<close>).
\<close>

primrec status_message :: "iot_status \<Rightarrow> string" where
  "status_message STATUS_SUCCESS = ''success''"
| "status_message STATUS_INVOKED = ''invoked''"
| "status_message STATUS_BAD_PARAMETER = ''invalid parameter''"
| "status_message STATUS_BAD_REQUEST = ''bad request''"
| "status_message STATUS_EXECUTION_ERROR = ''execution error''"
| "status_message STATUS_EXISTS = ''already exists''"
| "status_message STATUS_FILE_OPEN_FAILED = ''file open failed''"
| "status_message STATUS_FULL = ''storage is full''"
| "status_message STATUS_IO_ERROR = ''input/output error''"
| "status_message STATUS_NO_MEMORY = ''out of memory''"
| "status_message STATUS_NO_PERMISSION = ''permission denied''"
| "status_message STATUS_NOT_EXECUTABLE = ''not executable''"
| "status_message STATUS_NOT_FOUND = ''not found''"
| "status_message STATUS_NOT_INITIALIZED = ''not initialized''"
| "status_message STATUS_OUT_OF_RANGE = ''value out of range''"
| "status_message STATUS_PARSE_ERROR = ''error parsing message''"
| "status_message STATUS_TIMED_OUT = ''timed out''"
| "status_message STATUS_TRY_AGAIN = ''try again''"
| "status_message STATUS_NOT_SUPPORTED = ''not supported''"
| "status_message STATUS_FAILURE = ''internal error''"

definition iot_error :: "string option \<Rightarrow> iot_status \<Rightarrow> string" where
  "iot_error sys code =
     (case (code, sys) of (STATUS_FAILURE, Some msg) \<Rightarrow> msg | _ \<Rightarrow> status_message code)"

text \<open>
  The status of a request; \<open>msg\<close> is the formatted error message, \<open>None\<close> when there is no format.
  An empty message, or one that cannot be allocated, leaves the old one.
\<close>

definition iot_action_request_set_status ::
    "heap \<Rightarrow> iot_action_request \<Rightarrow> iot_status \<Rightarrow> string option \<Rightarrow> iot_action_request \<times> heap" where
  "iot_action_request_set_status h request status msg =
     (let (request, h) =
        (case msg of
           None \<Rightarrow> (request\<lparr>rq_error := None\<rparr>, h)
         | Some msg \<Rightarrow>
             if status = STATUS_SUCCESS then (request\<lparr>rq_error := None\<rparr>, h)
             else if msg = '''' then (request, h)
             else (let (ok, h) = os_grab h in
                   (if ok then request\<lparr>rq_error := Some msg\<rparr> else request, h)))
      in (request\<lparr>rq_result := status\<rparr>, h))"

text \<open>The result and the message; a NULL request is \<open>BAD_PARAMETER\<close>.\<close>

definition iot_action_request_status ::
    "string option \<Rightarrow> iot_action_request option \<Rightarrow> iot_status \<times> string option" where
  "iot_action_request_status sys request =
     (case request of
        None \<Rightarrow> (STATUS_BAD_PARAMETER, Some (iot_error sys STATUS_BAD_PARAMETER))
      | Some r \<Rightarrow> (rq_result r,
          if rq_result r = STATUS_SUCCESS then None
          else Some (case rq_error r of Some e \<Rightarrow> e | None \<Rightarrow> iot_error sys (rq_result r))))"

definition iot_action_request_source ::
    "iot_action_request option \<Rightarrow> (string \<times> bool) option" where
  "iot_action_request_source request = Option.bind request rq_source"

section \<open>Options\<close>

text \<open>
  Actions and requests keep their options the same way; only the comparison used to find the
  option to update differs. The search to read compares \<open>IOT_NAME_MAX_LEN\<close> characters.
\<close>

fun option_get_loop ::
    "(string \<Rightarrow> int) \<Rightarrow> (string \<Rightarrow> int) \<Rightarrow> heap \<Rightarrow> iot_option list \<Rightarrow> string \<Rightarrow> bool \<Rightarrow> iot_type \<Rightarrow> bool \<Rightarrow>
     (iot_status \<times> arg_out option) option" where
  "option_get_loop f g h [] name convert type dest = Some (STATUS_NOT_FOUND, None)"
| "option_get_loop f g h (e # es) name convert type dest = do {
     nm \<leftarrow> opt_name e;
     (if strncmp nm name IOT_NAME_MAX_LEN = 0
      then do {
        (result, out) \<leftarrow> iot_common_arg_get f g h (Some (opt_data e)) convert type dest;
        (if result = STATUS_NOT_FOUND then option_get_loop f g h es name convert type dest
         else Some (result, out))
      }
      else option_get_loop f g h es name convert type dest)
   }"

fun option_index ::
    "(string \<Rightarrow> string \<Rightarrow> bool) \<Rightarrow> iot_option list \<Rightarrow> string \<Rightarrow> nat \<Rightarrow> nat option option" where
  "option_index eq [] name i = Some None"
| "option_index eq (e # es) name i = do {
     nm \<leftarrow> opt_name e;
     (if eq nm name then Some (Some i) else option_index eq es name (i + 1))
   }"

text \<open>
  Naming the option at \<open>i\<close> when it has no name. When the name cannot be allocated the count goes
  down by one, which drops the last option, and the option at \<open>i\<close> has no name.
\<close>

definition option_name :: "heap \<Rightarrow> iot_option list \<Rightarrow> nat \<Rightarrow> string \<Rightarrow> bool \<times> iot_option list \<times> heap" where
  "option_name h es i name =
     (if opt_name (es ! i) \<in> {None, Some []}
      then (let (ok, h) = os_grab h in
            if ok then (True, es[i := (es ! i)\<lparr>opt_name := Some (take IOT_NAME_MAX_LEN name)\<rparr>], h)
            else (False, butlast (es[i := (es ! i)\<lparr>opt_name := None\<rparr>]), h))
      else (True, es, h))"

definition option_set_data ::
    "(string \<Rightarrow> string \<Rightarrow> bool) \<Rightarrow> heap \<Rightarrow> iot_option list \<Rightarrow> string \<Rightarrow> iot_data \<Rightarrow>
     (iot_status \<times> iot_option list \<times> heap) option" where
  "option_set_data eq h es name data = do {
     opt \<leftarrow> option_index eq es name 0;
     let (result, opt, es, h) =
       (if opt = None \<and> length es < IOT_OPTION_MAX
        then (let (ok, h) = os_grab h in
              if ok then (STATUS_FULL, Some (length es), es @ [option_zero], h)
              else (STATUS_NO_MEMORY, None, es, h))
        else (STATUS_FULL, opt, es, h));
     (result, es, h) \<leftarrow>
       (case opt of
          None \<Rightarrow> Some (result, es, h)
        | Some i \<Rightarrow>
            (case option_name h es i name of
               (True, es, h) \<Rightarrow> do {
                 h \<leftarrow> os_free (heap_storage (opt_data (es ! i))) h;
                 Some (STATUS_SUCCESS, es[i := (es ! i)\<lparr>opt_data := data\<rparr>], h)
               }
             | (False, es, h) \<Rightarrow> Some (STATUS_NO_MEMORY, es, h)));
     h \<leftarrow> (if result \<noteq> STATUS_SUCCESS then os_free (heap_storage data) h else Some h);
     Some (result, es, h)
   }"

definition iot_action_request_option_get ::
    "(string \<Rightarrow> int) \<Rightarrow> (string \<Rightarrow> int) \<Rightarrow> heap \<Rightarrow> iot_action_request \<Rightarrow> string option \<Rightarrow> bool \<Rightarrow> iot_type \<Rightarrow>
     bool \<Rightarrow> (iot_status \<times> arg_out option) option" where
  "iot_action_request_option_get f g h request name convert type dest =
     (case name of
        None \<Rightarrow> Some (STATUS_BAD_PARAMETER, None)
      | Some name \<Rightarrow> option_get_loop f g h (rq_option request) name convert type dest)"

definition iot_action_request_option_set_data ::
    "heap \<Rightarrow> iot_action_request \<Rightarrow> string \<Rightarrow> iot_data \<Rightarrow> (iot_status \<times> iot_action_request \<times> heap) option" where
  "iot_action_request_option_set_data h request name data = do {
     (result, es, h) \<leftarrow> option_set_data (=) h (rq_option request) name data;
     Some (result, request\<lparr>rq_option := es\<rparr>, h)
   }"

definition iot_action_request_option_set ::
    "heap \<Rightarrow> iot_action_request \<Rightarrow> string option \<Rightarrow> iot_type \<Rightarrow> va_arg \<Rightarrow>
     (iot_status \<times> iot_action_request \<times> heap) option" where
  "iot_action_request_option_set h request name type args =
     (case name of
        None \<Rightarrow> Some (STATUS_BAD_PARAMETER, request, h)
      | Some name \<Rightarrow> do {
          (result, data, h) \<leftarrow> iot_common_arg_set True type args h;
          (if result = STATUS_SUCCESS then iot_action_request_option_set_data h request name data
           else Some (result, request, h))
        })"

text \<open>
  The raw variants pass the address of a \<open>struct iot_data\<close>, whose first member is the raw value
  they filled in.
\<close>

definition iot_action_request_option_set_raw ::
    "heap \<Rightarrow> iot_action_request \<Rightarrow> string option \<Rightarrow> u64 \<Rightarrow> ptr \<Rightarrow>
     (iot_status \<times> iot_action_request \<times> heap) option" where
  "iot_action_request_option_set_raw h request name len p =
     iot_action_request_option_set h request name TYPE_RAW (ARaw (Some (len, p)))"

section \<open>Parameters\<close>

text \<open>The parameters in use; reading a released array is undefined.\<close>

definition parameters :: "iot_action_request \<Rightarrow> iot_action_parameter list option" where
  "parameters r =
     (if rq_parameter_count r = 0 then Some []
      else do {
        ps \<leftarrow> rq_parameter r;
        (if rq_parameter_count r \<le> length ps then Some (take (rq_parameter_count r) ps) else None)
      })"

fun parameter_get_loop ::
    "(string \<Rightarrow> int) \<Rightarrow> (string \<Rightarrow> int) \<Rightarrow> heap \<Rightarrow> iot_action_parameter list \<Rightarrow> string \<Rightarrow> bool \<Rightarrow>
     iot_type \<Rightarrow> bool \<Rightarrow> (iot_status \<times> arg_out option) option" where
  "parameter_get_loop f g h [] name convert type dest = Some (STATUS_NOT_FOUND, None)"
| "parameter_get_loop f g h (p # ps) name convert type dest = do {
     nm \<leftarrow> ap_name p;
     (if strncasecmp nm name IOT_NAME_MAX_LEN = 0
      then do {
        (result, out) \<leftarrow> iot_common_arg_get f g h (Some (ap_data p)) convert type dest;
        (if result = STATUS_NOT_FOUND then parameter_get_loop f g h ps name convert type dest
         else Some (result, out))
      }
      else parameter_get_loop f g h ps name convert type dest)
   }"

definition iot_action_parameter_get ::
    "(string \<Rightarrow> int) \<Rightarrow> (string \<Rightarrow> int) \<Rightarrow> heap \<Rightarrow> iot_action_request \<Rightarrow> string option \<Rightarrow> bool \<Rightarrow>
     iot_type \<Rightarrow> bool \<Rightarrow> (iot_status \<times> arg_out option) option" where
  "iot_action_parameter_get f g h request name convert type dest =
     (case name of
        None \<Rightarrow> Some (STATUS_BAD_PARAMETER, None)
      | Some name \<Rightarrow> do {
          ps \<leftarrow> parameters request;
          parameter_get_loop f g h ps name convert type dest
        })"

text \<open>The raw variant: length and pointer, zero when nothing was read.\<close>

definition raw_out :: "arg_out option \<Rightarrow> u64 \<times> ptr" where
  "raw_out out = (case out of Some (OutRaw len p) \<Rightarrow> (len, p) | _ \<Rightarrow> (0, NULL))"

definition iot_action_parameter_get_raw ::
    "(string \<Rightarrow> int) \<Rightarrow> (string \<Rightarrow> int) \<Rightarrow> heap \<Rightarrow> iot_action_request \<Rightarrow> string option \<Rightarrow> bool \<Rightarrow>
     (iot_status \<times> u64 \<times> ptr) option" where
  "iot_action_parameter_get_raw f g h request name convert = do {
     (result, out) \<leftarrow> iot_action_parameter_get f g h request name convert TYPE_RAW True;
     Some (result, raw_out out)
   }"

definition name_bad :: "string \<Rightarrow> bool" where
  "name_bad name \<longleftrightarrow> set name \<inter> {CHR ''='', CHR 0x5C, CHR '';'', CHR ''&'', CHR ''|''} \<noteq> {}"

text \<open>
  The search for the parameter to set: its index, or why there is none. It stops at the first
  parameter of that name.
\<close>

fun parameter_index ::
    "iot_action_parameter list \<Rightarrow> string \<Rightarrow> iot_type \<Rightarrow> nat \<Rightarrow> (iot_status \<times> nat) option" where
  "parameter_index [] name type i = Some (STATUS_NOT_FOUND, i)"
| "parameter_index (p # ps) name type i = do {
     nm \<leftarrow> ap_name p;
     (if strncasecmp nm name IOT_NAME_MAX_LEN = 0
      then Some (if dtype (ap_data p) = type \<or> dtype (ap_data p) = TYPE_NULL then STATUS_SUCCESS
                 else STATUS_BAD_REQUEST, i)
      else parameter_index ps name type (i + 1))
   }"

text \<open>
  A new parameter: the array grows by one and the name is allocated. When only the name cannot
  be allocated the array is released, although the request still points to it.
\<close>

definition parameter_new ::
    "heap \<Rightarrow> iot_action_request \<Rightarrow> string \<Rightarrow> (bool \<times> iot_action_request \<times> heap) option" where
  "parameter_new h request name = do {
     ps \<leftarrow> rq_parameter request;
     let (ok, h) = os_grab h;
     let (ok_name, h) = os_grab h;
     let p = \<lparr>ap_name = Some (take IOT_NAME_MAX_LEN name), ap_data = data_zero, ap_type = 0\<rparr>;
     Some (if ok \<and> ok_name
           then (True, request\<lparr>rq_parameter := Some (take (rq_parameter_count request) ps @ [p])\<rparr>, h)
           else (False, if ok \<and> ps \<noteq> [] then request\<lparr>rq_parameter := None\<rparr> else request, h))
   }"

definition iot_action_request_parameter_set_args ::
    "heap \<Rightarrow> iot_action_request \<Rightarrow> string option \<Rightarrow> iot_type \<Rightarrow> va_arg \<Rightarrow>
     (iot_status \<times> iot_action_request \<times> heap) option" where
  "iot_action_request_parameter_set_args h request name type args =
     (case name of
        None \<Rightarrow> Some (STATUS_BAD_PARAMETER, request, h)
      | Some name \<Rightarrow>
          if name_bad name then Some (STATUS_BAD_REQUEST, request, h)
          else do {
            ps \<leftarrow> parameters request;
            (result, i) \<leftarrow> parameter_index ps name type 0;
            (add, result, request, h) \<leftarrow>
              (if result = STATUS_NOT_FOUND
               then if rq_parameter_count request < IOT_PARAMETER_MAX
                    then do {
                      (ok, request, h) \<leftarrow> parameter_new h request name;
                      Some (if ok then (True, STATUS_SUCCESS, request, h)
                            else (False, STATUS_NO_MEMORY, request, h))
                    }
                    else Some (False, STATUS_FULL, request, h)
               else Some (False, result, request, h));
            (if result = STATUS_SUCCESS
             then do {
               (result, d, h) \<leftarrow> iot_common_arg_set True type args h;
               ps \<leftarrow> rq_parameter request;
               let ps = ps[i := (ps ! i)\<lparr>ap_type := PARAMETER_OUT, ap_data := d\<rparr>];
               Some (result, request\<lparr>rq_parameter := Some ps, rq_parameter_count :=
                 rq_parameter_count request + (if add \<and> result = STATUS_SUCCESS then 1 else 0)\<rparr>, h)
             }
             else Some (result, request, h))
          })"

text \<open>Both variadic interfaces are this function.\<close>

definition iot_action_request_parameter_set where
  "iot_action_request_parameter_set = iot_action_request_parameter_set_args"

definition iot_action_parameter_set where
  "iot_action_parameter_set = iot_action_request_parameter_set_args"

definition iot_action_parameter_set_raw ::
    "heap \<Rightarrow> iot_action_request \<Rightarrow> string option \<Rightarrow> u64 \<Rightarrow> ptr \<Rightarrow>
     (iot_status \<times> iot_action_request \<times> heap) option" where
  "iot_action_parameter_set_raw h request name len p =
     iot_action_parameter_set h request name TYPE_RAW (ARaw (Some (len, p)))"

section \<open>Iterating over the parameters\<close>

text \<open>
  An iterator packs an index and a parameter type: \<open>(idx << 8) | type\<close>; a type of 0 asks for
  every parameter.
\<close>

definition iter_pack :: "nat \<Rightarrow> u8 \<Rightarrow> u32" where
  "iter_pack idx type = or (push_bit 8 (of_nat idx)) (and (ucast type) 0xFF)"

definition iter_type :: "u32 \<Rightarrow> u8" where
  "iter_type iter = ucast (and iter 0xFF)"

definition iter_idx :: "u32 \<Rightarrow> u8" where
  "iter_idx iter = ucast (drop_bit 8 iter)"

text \<open>The loop over the parameters from \<open>idx\<close> on: the index of the first one of the type.\<close>

fun parameter_scan :: "iot_action_parameter list \<Rightarrow> u8 \<Rightarrow> nat \<Rightarrow> nat option" where
  "parameter_scan [] type idx = None"
| "parameter_scan (p # ps) type idx =
     (if and (ap_type p) type \<noteq> 0 then Some idx else parameter_scan ps type (idx + 1))"

definition iot_action_request_parameter_iterator ::
    "iot_action_request \<Rightarrow> u8 \<Rightarrow> (iot_status \<times> u32) option" where
  "iot_action_request_parameter_iterator request type = do {
     ps \<leftarrow> parameters request;
     let type = (if type = 0 then not 0 else type);
     Some (case parameter_scan ps type 0 of
             Some idx \<Rightarrow> (STATUS_SUCCESS, iter_pack idx type)
           | None \<Rightarrow> (STATUS_NOT_FOUND, 0))
   }"

text \<open>The index is counted in 8 bits, so the one after 255 is 0.\<close>

definition iot_action_request_parameter_iterator_next ::
    "iot_action_request \<Rightarrow> u32 \<Rightarrow> (iot_status \<times> u32) option" where
  "iot_action_request_parameter_iterator_next request iter = do {
     ps \<leftarrow> parameters request;
     let type = iter_type iter;
     let idx = unat (iter_idx iter + 1);
     Some (case parameter_scan (drop idx ps) type idx of
             Some idx \<Rightarrow> (STATUS_SUCCESS, iter_pack idx type)
           | None \<Rightarrow> (STATUS_NOT_FOUND, iter))
   }"

text \<open>The parameter an iterator stands for, if there is one.\<close>

definition iter_parameter :: "iot_action_request \<Rightarrow> u32 \<Rightarrow> iot_action_parameter option option" where
  "iter_parameter request iter = do {
     ps \<leftarrow> parameters request;
     Some (if unat (iter_idx iter) < rq_parameter_count request \<and> iter_type iter \<noteq> 0
           then Some (ps ! unat (iter_idx iter)) else None)
   }"

definition iot_action_request_parameter_iterator_data_type ::
    "iot_action_request \<Rightarrow> u32 \<Rightarrow> iot_type option" where
  "iot_action_request_parameter_iterator_data_type request iter = do {
     p \<leftarrow> iter_parameter request iter;
     Some (case p of Some p \<Rightarrow> dtype (ap_data p) | None \<Rightarrow> TYPE_NULL)
   }"

definition iot_action_request_parameter_iterator_name ::
    "iot_action_request \<Rightarrow> u32 \<Rightarrow> string option option" where
  "iot_action_request_parameter_iterator_name request iter = do {
     p \<leftarrow> iter_parameter request iter;
     Some (Option.bind p ap_name)
   }"

definition iot_action_request_parameter_iterator_get ::
    "(string \<Rightarrow> int) \<Rightarrow> (string \<Rightarrow> int) \<Rightarrow> heap \<Rightarrow> iot_action_request \<Rightarrow> u32 \<Rightarrow> bool \<Rightarrow> iot_type \<Rightarrow>
     bool \<Rightarrow> (iot_status \<times> arg_out option) option" where
  "iot_action_request_parameter_iterator_get f g h request iter convert type dest = do {
     p \<leftarrow> iter_parameter request iter;
     (case p of
        Some p \<Rightarrow> iot_common_arg_get f g h (Some (ap_data p)) convert type dest
      | None \<Rightarrow> Some (STATUS_NOT_FOUND, None))
   }"

definition iot_action_request_parameter_iterator_get_raw ::
    "(string \<Rightarrow> int) \<Rightarrow> (string \<Rightarrow> int) \<Rightarrow> heap \<Rightarrow> iot_action_request \<Rightarrow> u32 \<Rightarrow> bool \<Rightarrow>
     (iot_status \<times> u64 \<times> ptr) option" where
  "iot_action_request_parameter_iterator_get_raw f g h request iter convert = do {
     (result, out) \<leftarrow> iot_action_request_parameter_iterator_get f g h request iter convert TYPE_RAW True;
     Some (result, raw_out out)
   }"

text \<open>All the indices an iteration visits, in order; \<open>n\<close> bounds the number of steps.\<close>

fun iterate :: "nat \<Rightarrow> iot_action_request \<Rightarrow> iot_status \<times> u32 \<Rightarrow> nat list option" where
  "iterate 0 request st = Some []"
| "iterate (Suc n) request (st, iter) =
     (if st \<noteq> STATUS_SUCCESS then Some []
      else do {
        nx \<leftarrow> iot_action_request_parameter_iterator_next request iter;
        is \<leftarrow> iterate n request nx;
        Some (unat (iter_idx iter) # is)
      })"

section \<open>Copying a request\<close>

text \<open>\<open>sizeof (struct iot_action_parameter)\<close>: a pointer, 40 bytes of data and the type, padded.\<close>

abbreviation PARAMETER_SIZE :: nat where "PARAMETER_SIZE \<equiv> 56"

definition copy_bytes :: "heap \<Rightarrow> iot_action_parameter \<Rightarrow> nat option" where
  "copy_bytes h p =
     (if \<not> has_value (ap_data p) then Some 0
      else case dtype (ap_data p) of
        TYPE_RAW \<Rightarrow> Some (unat (lo (ap_data p)))
      | TYPE_STRING \<Rightarrow>
          if lo (ap_data p) = NULL then Some 1
          else do { s \<leftarrow> read_string (lo (ap_data p)) h; Some (1 + length s) }
      | _ \<Rightarrow> Some 0)"

fun copy_bytes_sum :: "heap \<Rightarrow> iot_action_parameter list \<Rightarrow> nat option" where
  "copy_bytes_sum h [] = Some 0"
| "copy_bytes_sum h (p # ps) = do {
     n \<leftarrow> copy_bytes h p;
     k \<leftarrow> copy_bytes_sum h ps;
     Some (n + k)
   }"

definition iot_action_request_copy_size :: "heap \<Rightarrow> iot_action_request \<Rightarrow> nat option" where
  "iot_action_request_copy_size h request = do {
     ps \<leftarrow> parameters request;
     n \<leftarrow> copy_bytes_sum h ps;
     Some (PARAMETER_SIZE * rq_parameter_count request + n)
   }"

text \<open>
  The buffer \<open>var_data\<close> starts with the new parameter array, whose elements are what the buffer
  holds already (\<open>junk\<close>): the loop only writes the pointer, and the length, of RAW and STRING
  values. What it writes behind the array is listed by offset; a pointer into the buffer is its
  address plus the offset.
\<close>

fun copy_loop ::
    "heap \<Rightarrow> ptr \<Rightarrow> iot_action_parameter list \<Rightarrow> iot_action_parameter list \<Rightarrow> nat \<Rightarrow> nat \<Rightarrow>
     (iot_status \<times> iot_action_parameter list \<times> (nat \<times> bytes) list) option" where
  "copy_loop h buf [] junk off room = Some (STATUS_SUCCESS, [], [])"
| "copy_loop h buf (p # ps) junk off room =
     (let d = ap_data p; q = hd junk; e = ap_data q; at = buf + of_nat off in
      if has_value d \<and> dtype d = TYPE_RAW
      then let n = unat (lo d) in
        if n \<le> room
        then do {
          b \<leftarrow> (if n = 0 then Some [] else read_bytes (hi d) h);
          (if length b < n then None else Some ());
          (st, qs, ws) \<leftarrow> copy_loop h buf ps (tl junk) (off + n) (room - n);
          Some (st, q\<lparr>ap_data := e\<lparr>hi := at, lo := lo d\<rparr>\<rparr> # qs, (off, take n b) # ws)
        }
        else Some (STATUS_NO_MEMORY, [], [])
      else if has_value d \<and> dtype d = TYPE_STRING
      then (if lo d = NULL then Some (STATUS_NO_MEMORY, [], [])
        else do {
          s \<leftarrow> read_string (lo d) h;
          let n = length s + 1;
          (if n \<le> room
           then do {
             (st, qs, ws) \<leftarrow> copy_loop h buf ps (tl junk) (off + n) (room - n);
             Some (st, q\<lparr>ap_data := e\<lparr>lo := at\<rparr>\<rparr> # qs, (off, bytes_of s @ [0]) # ws)
           }
           else Some (STATUS_NO_MEMORY, [], []))
        })
      else do {
        (st, qs, ws) \<leftarrow> copy_loop h buf ps (tl junk) off room;
        Some (st, q # qs, ws)
      })"

definition iot_action_request_copy ::
    "heap \<Rightarrow> iot_action_request \<Rightarrow> ptr \<Rightarrow> iot_action_parameter list \<Rightarrow> nat \<Rightarrow>
     (iot_status \<times> iot_action_request \<times> (nat \<times> bytes) list) option" where
  "iot_action_request_copy h request buf junk room =
     (let n = rq_parameter_count request; dest = request\<lparr>rq_parameter := Some [], rq_parameter_count := 0\<rparr> in
      if n = 0 then Some (STATUS_SUCCESS, dest, [])
      else if PARAMETER_SIZE * n \<le> room
      then do {
        ps \<leftarrow> parameters request;
        (st, qs, ws) \<leftarrow> copy_loop h buf ps junk (PARAMETER_SIZE * n) (room - PARAMETER_SIZE * n);
        Some (st, dest\<lparr>rq_parameter := Some qs, rq_parameter_count := length qs\<rparr>, ws)
      }
      else Some (STATUS_NO_MEMORY, dest, []))"

section \<open>Properties of iteration\<close>

lemma mask_255: "(0xFF :: u32) = mask 8"
  by (simp add: mask_eq_exp_minus_1)

lemma iter_pack_parts:
  assumes "idx < 256"
  shows "iter_idx (iter_pack idx type) = of_nat idx" "iter_type (iter_pack idx type) = type"
proof -
  have "(of_nat idx :: u32) = ucast (of_nat idx :: u8)"
    using assms by (simp add: word_unat_eq_iff unat_of_nat unsigned_ucast_eq take_bit_eq_mod)
  then obtain w :: u8 where w: "(of_nat idx :: u32) = ucast w" "w = of_nat idx" by blast
  show "iter_idx (iter_pack idx type) = of_nat idx"
    unfolding iter_pack_def iter_idx_def w
    by (rule bit_word_eqI) (auto simp: bit_simps)
  show "iter_type (iter_pack idx type) = type"
    unfolding iter_pack_def iter_type_def mask_255
    by (rule bit_word_eqI) (auto simp: bit_simps)
qed

lemma length_parameters: "parameters request = Some ps \<Longrightarrow> length ps = rq_parameter_count request"
  by (auto simp: parameters_def split: if_splits Option.bind_splits)

lemma parameter_scan_filter:
  "parameter_scan ps type idx =
     (case filter (\<lambda>i. and (ap_type (ps ! i)) type \<noteq> 0) [0..<length ps] of
        [] \<Rightarrow> None | i # _ \<Rightarrow> Some (idx + i))"
proof (induction ps arbitrary: idx)
  case (Cons p ps)
  have "[0..<length (p # ps)] = 0 # map Suc [0..<length ps]"
    by (simp add: map_Suc_upt upt_conv_Cons del: upt_Suc)
  then show ?case
    by (simp add: Cons.IH filter_map comp_def split: list.splits)
qed simp

lemma scan_from:
  assumes "idx \<le> length ps"
  shows "parameter_scan (drop idx ps) type idx =
     (case filter (\<lambda>i. and (ap_type (ps ! i)) type \<noteq> 0) [idx..<length ps] of
        [] \<Rightarrow> None | i # _ \<Rightarrow> Some i)"
proof -
  have "[idx..<length ps] = map (\<lambda>i. i + idx) [0..<length ps - idx]"
    using assms map_add_upt[of idx "length ps - idx"] by simp
  then show ?thesis
    using assms by (simp add: parameter_scan_filter filter_map comp_def nth_drop add.commute split: list.splits)
qed

lemma filter_upt_next:
  assumes "filter P [k..<n] = i # is"
  shows "filter P [Suc i..<n] = is \<and> k \<le> i \<and> i < n"
proof -
  have i: "i \<in> set (filter P [k..<n])" using assms by simp
  then have ki: "k \<le> i" "i < n" "P i" by auto
  have split: "[k..<n] = [k..<i] @ i # [Suc i..<n]"
    using ki by (metis less_imp_le_nat upt_add_eq_append upt_conv_Cons le_Suc_ex)
  have "filter P [k..<i] = []"
  proof (rule ccontr)
    assume "filter P [k..<i] \<noteq> []"
    then obtain j js where j: "filter P [k..<i] = j # js" by (cases "filter P [k..<i]") auto
    then have "j \<in> set (filter P [k..<i])" by simp
    then have "j < i" by auto
    moreover have "j = i" using assms split j ki(3) by simp
    ultimately show False by simp
  qed
  then show ?thesis using assms split ki by simp
qed

lemma iterate_from:
  assumes ps: "parameters request = Some ps" and len: "length ps < 256"
  shows "filter (\<lambda>i. and (ap_type (ps ! i)) type \<noteq> 0) [k..<length ps] = i # is \<Longrightarrow>
    length is < n \<Longrightarrow> iterate n request (STATUS_SUCCESS, iter_pack i type) = Some (i # is)"
proof (induction n arbitrary: i "is" k)
  case (Suc n)
  note nx = filter_upt_next[OF Suc.prems(1)]
  have i: "i < 256" "i < length ps" using nx len by auto
  have idx: "unat (iter_idx (iter_pack i type)) = i"
    using i by (simp add: iter_pack_parts unat_of_nat)
  have "unat (iter_idx (iter_pack i type) + 1) = Suc i"
    using i len by (simp add: unat_word_ariths idx)
  then have step: "iot_action_request_parameter_iterator_next request (iter_pack i type) =
      Some (case is of [] \<Rightarrow> (STATUS_NOT_FOUND, iter_pack i type)
            | j # _ \<Rightarrow> (STATUS_SUCCESS, iter_pack j type))"
    using ps nx i scan_from[of "Suc i" ps type]
    by (simp add: iot_action_request_parameter_iterator_next_def iter_pack_parts Let_def split: list.splits)
  show ?case
  proof (cases "is")
    case Nil
    then show ?thesis using step idx by (cases n) simp_all
  next
    case (Cons j js)
    then have "iterate n request (STATUS_SUCCESS, iter_pack j type) = Some (j # js)"
      using Suc.IH[of "Suc i" j js] nx Suc.prems(2) by simp
    then show ?thesis using step idx Cons by simp
  qed
qed simp

text \<open>
  C25: iterating over the parameters of a request visits exactly those whose type has a bit in
  common with the wanted type (all of them with a type, when it is 0), each one once and in
  order, and then ends with NOT_FOUND; each iterator on the way stands for the parameter at its
  index.
\<close>

theorem request_iteration:
  assumes ps: "parameters request = Some ps" and len: "length ps < 256"
    and wanted: "t = (if type = 0 then not 0 else type)" and steps: "length ps < n"
  shows "(\<exists>st. iot_action_request_parameter_iterator request type = Some st \<and>
      iterate n request st = Some (filter (\<lambda>i. and (ap_type (ps ! i)) t \<noteq> 0) [0..<length ps])) \<and>
    (\<forall>i < length ps. iter_parameter request (iter_pack i t) = Some (Some (ps ! i)))"
proof (rule conjI)
  let ?is = "filter (\<lambda>i. and (ap_type (ps ! i)) t \<noteq> 0) [0..<length ps]"
  have t: "t \<noteq> 0" using wanted by (cases "type = 0") simp_all
  have less: "length ?is < n" using steps length_filter_le[of _ "[0..<length ps]"] by (metis diff_zero le_less_trans length_upt)
  have first: "iot_action_request_parameter_iterator request type =
      Some (case ?is of [] \<Rightarrow> (STATUS_NOT_FOUND, 0) | i # _ \<Rightarrow> (STATUS_SUCCESS, iter_pack i t))"
    unfolding iot_action_request_parameter_iterator_def ps Let_def wanted[symmetric]
    by (cases ?is) (simp_all add: parameter_scan_filter)
  show "\<exists>st. iot_action_request_parameter_iterator request type = Some st \<and> iterate n request st = Some ?is"
  proof (cases ?is)
    case Nil
    then show ?thesis using first steps by (cases n) simp_all
  next
    case (Cons i js)
    then show ?thesis using first iterate_from[OF ps len Cons, of n] less by simp
  qed
  show "\<forall>i < length ps. iter_parameter request (iter_pack i t) = Some (Some (ps ! i))"
    using ps len t by (simp add: iter_parameter_def iter_pack_parts unat_of_nat length_parameters)
qed

definition example_parameter :: "string \<Rightarrow> u8 \<Rightarrow> iot_action_parameter" where
  "example_parameter name type = \<lparr>ap_name = Some name, ap_data = data_zero, ap_type = type\<rparr>"

definition example_request :: iot_action_request where
  "example_request = request_zero\<lparr>rq_parameter := Some [example_parameter ''a'' PARAMETER_IN,
     example_parameter ''b'' PARAMETER_OUT, example_parameter ''c'' PARAMETER_IN], rq_parameter_count := 3\<rparr>"

lemma example_parameters: "parameters example_request = Some [example_parameter ''a'' PARAMETER_IN,
     example_parameter ''b'' PARAMETER_OUT, example_parameter ''c'' PARAMETER_IN]"
  by (simp add: parameters_def example_request_def request_zero_def)

theorem request_iteration_witness:
  "\<exists>st. iot_action_request_parameter_iterator example_request PARAMETER_IN = Some st \<and>
     iterate 9 example_request st = Some [0, 2]"
proof -
  let ?ps = "[example_parameter ''a'' PARAMETER_IN, example_parameter ''b'' PARAMETER_OUT,
      example_parameter ''c'' PARAMETER_IN]"
  have visited: "filter (\<lambda>i. and (ap_type (?ps ! i)) 1 \<noteq> 0) [0..<length ?ps] = [0, 2]"
    by (simp add: upt_rec numeral_3_eq_3 numeral_2_eq_2 example_parameter_def)
  note iteration = request_iteration[OF example_parameters, of "1" "1" 9]
  have "\<exists>st. iot_action_request_parameter_iterator example_request PARAMETER_IN = Some st \<and>
      iterate 9 example_request st = Some (filter (\<lambda>i. and (ap_type (?ps ! i)) 1 \<noteq> 0) [0..<length ?ps])"
    by (rule conjunct1[OF iteration]) simp_all
  then show ?thesis unfolding visited .
qed

section \<open>Properties of copying\<close>

text \<open>
  What has to be copied of a parameter besides the structure: the bytes of a RAW or STRING value.
  A STRING value that is NULL, or memory that cannot be read, has none.
\<close>

definition value_bytes :: "heap \<Rightarrow> iot_action_parameter \<Rightarrow> bytes option" where
  "value_bytes h p =
     (let d = ap_data p in
      if \<not> has_value d then Some []
      else if dtype d = TYPE_RAW
      then if lo d = 0 then Some []
           else do {
             b \<leftarrow> read_bytes (hi d) h;
             (if length b < unat (lo d) then None else Some (take (unat (lo d)) b))
           }
      else if dtype d = TYPE_STRING
      then if lo d = NULL then None else do { s \<leftarrow> read_string (lo d) h; Some (bytes_of s @ [0]) }
      else Some [])"

definition in_buffer :: "iot_action_parameter \<Rightarrow> bool" where
  "in_buffer p \<longleftrightarrow> has_value (ap_data p) \<and> dtype (ap_data p) \<in> {TYPE_RAW, TYPE_STRING}"

text \<open>The pointer a copied parameter reads its bytes through.\<close>

definition buffer_pointer :: "iot_action_parameter \<Rightarrow> iot_action_parameter \<Rightarrow> ptr" where
  "buffer_pointer p q = (if dtype (ap_data p) = TYPE_RAW then hi (ap_data q) else lo (ap_data q))"

text \<open>Writes that follow each other from an offset on.\<close>

primrec contiguous :: "nat \<Rightarrow> (nat \<times> bytes) list \<Rightarrow> bool" where
  "contiguous off [] = True"
| "contiguous off (w # ws) = (fst w = off \<and> contiguous (off + length (snd w)) ws)"

text \<open>The fields of the buffer's parameters that copying never writes.\<close>

definition untouched :: "iot_action_parameter \<Rightarrow> string option \<times> u8 \<times> bool \<times> ptr \<times> iot_type" where
  "untouched q = (ap_name q, ap_type q, has_value (ap_data q), heap_storage (ap_data q), dtype (ap_data q))"

lemma contiguous_bound:
  "contiguous off ws \<Longrightarrow> w \<in> set ws \<Longrightarrow>
   off \<le> fst w \<and> fst w + length (snd w) \<le> off + length (concat (map snd ws))"
proof (induction ws arbitrary: off)
  case (Cons v ws)
  then show ?case
  proof (cases "w = v")
    case False
    then have "w \<in> set ws" using Cons.prems by simp
    moreover have "contiguous (off + length (snd v)) ws" using Cons.prems by simp
    ultimately show ?thesis using Cons.IH[of "off + length (snd v)"] by simp
  qed simp
qed simp

lemma copy_bytes_value: "value_bytes h p = Some v \<Longrightarrow> copy_bytes h p = Some (length v)"
  by (cases "dtype (ap_data p)")
    (auto simp: value_bytes_def copy_bytes_def Let_def bytes_of_def split: if_splits Option.bind_splits)

lemma copy_bytes_sum_values:
  "list_all2 (\<lambda>p v. value_bytes h p = Some v) ps vs \<Longrightarrow> copy_bytes_sum h ps = Some (length (concat vs))"
  by (induction rule: list_all2_induct) (simp_all add: copy_bytes_value)

text \<open>One step of the loop, on the bytes of the first parameter.\<close>

lemma copy_loop_step:
  assumes v: "value_bytes h p = Some v"
  shows "copy_loop h buf (p # ps) junk off room =
     (if in_buffer p \<and> room < length v then Some (STATUS_NO_MEMORY, [], [])
      else do {
        (st, qs, ws) \<leftarrow> copy_loop h buf ps (tl junk) (off + length v) (room - length v);
        Some (st, (if in_buffer p
                   then (hd junk)\<lparr>ap_data := (if dtype (ap_data p) = TYPE_RAW
                     then (ap_data (hd junk))\<lparr>hi := buf + of_nat off, lo := lo (ap_data p)\<rparr>
                     else (ap_data (hd junk))\<lparr>lo := buf + of_nat off\<rparr>)\<rparr>
                   else hd junk) # qs,
              (if in_buffer p then [(off, v)] else []) @ ws)
      })"
proof -
  consider "\<not> has_value (ap_data p)"
    | "has_value (ap_data p)" "dtype (ap_data p) = TYPE_RAW" "lo (ap_data p) = 0"
    | "has_value (ap_data p)" "dtype (ap_data p) = TYPE_RAW" "lo (ap_data p) \<noteq> 0"
    | "has_value (ap_data p)" "dtype (ap_data p) = TYPE_STRING"
    | "has_value (ap_data p)" "dtype (ap_data p) \<noteq> TYPE_RAW" "dtype (ap_data p) \<noteq> TYPE_STRING"
    by blast
  then show ?thesis
  proof cases
    case 3
    then obtain b where "read_bytes (hi (ap_data p)) h = Some b" "unat (lo (ap_data p)) \<le> length b"
      "v = take (unat (lo (ap_data p))) b"
      using v by (auto simp: value_bytes_def Let_def split: if_splits Option.bind_splits)
    then show ?thesis using 3 by (simp add: in_buffer_def Let_def unat_eq_zero not_le not_less min_absorb2)
  next
    case 4
    then show ?thesis using v
      by (auto simp: value_bytes_def in_buffer_def Let_def bytes_of_def split: if_splits Option.bind_splits)
  qed (use v in \<open>simp_all add: value_bytes_def in_buffer_def Let_def\<close>)
qed

lemma copy_loop_fits:
  assumes "list_all2 (\<lambda>p v. value_bytes h p = Some v) ps vs"
    and "length (concat vs) \<le> room" and "length ps \<le> length junk"
  shows "\<exists>qs ws. copy_loop h buf ps junk off room = Some (STATUS_SUCCESS, qs, ws) \<and>
    length qs = length ps \<and> map untouched qs = map untouched (take (length ps) junk) \<and>
    contiguous off ws \<and> concat (map snd ws) = concat vs \<and>
    (\<forall>i < length ps. if in_buffer (ps ! i)
       then (off + length (concat (take i vs)), vs ! i) \<in> set ws \<and>
            buffer_pointer (ps ! i) (qs ! i) = buf + of_nat (off + length (concat (take i vs)))
       else qs ! i = junk ! i)"
  using assms
proof (induction arbitrary: off room junk rule: list_all2_induct)
  case (Cons p ps v vs)
  obtain q js where junk: "junk = q # js" "length ps \<le> length js"
    using Cons.prems by (cases junk) auto
  have fits: "length (concat vs) \<le> room - length v" using Cons.prems by simp
  have empty: "v = []" if "\<not> in_buffer p"
    using Cons.hyps(1) that by (auto simp: in_buffer_def value_bytes_def Let_def split: if_splits)
  obtain qs ws where rest: "copy_loop h buf ps js (off + length v) (room - length v) = Some (STATUS_SUCCESS, qs, ws)"
    "length qs = length ps" "map untouched qs = map untouched (take (length ps) js)"
    "contiguous (off + length v) ws" "concat (map snd ws) = concat vs"
    "\<forall>i < length ps. if in_buffer (ps ! i)
       then (off + length v + length (concat (take i vs)), vs ! i) \<in> set ws \<and>
            buffer_pointer (ps ! i) (qs ! i) = buf + of_nat (off + length v + length (concat (take i vs)))
       else qs ! i = js ! i"
    using Cons.IH[OF fits junk(2), of "off + length v"] by (elim exE conjE) (rule that)
  let ?q = "if in_buffer p
     then q\<lparr>ap_data := (if dtype (ap_data p) = TYPE_RAW
       then (ap_data q)\<lparr>hi := buf + of_nat off, lo := lo (ap_data p)\<rparr>
       else (ap_data q)\<lparr>lo := buf + of_nat off\<rparr>)\<rparr> else q"
  let ?ws = "(if in_buffer p then [(off, v)] else []) @ ws"
  show ?case
  proof (intro exI conjI allI impI)
    show "copy_loop h buf (p # ps) junk off room = Some (STATUS_SUCCESS, ?q # qs, ?ws)"
      using Cons.prems rest(1) junk copy_loop_step[OF Cons.hyps(1), of buf ps junk off room] by simp
    show "length (?q # qs) = length (p # ps)" using rest(2) by simp
    have "untouched ?q = untouched q" by (simp add: untouched_def)
    then show "map untouched (?q # qs) = map untouched (take (length (p # ps)) junk)"
      using rest(3) junk by simp
    show "contiguous off ?ws" "concat (map snd ?ws) = concat (v # vs)"
      using rest(4,5) empty by auto
    fix i assume i: "i < length (p # ps)"
    show "if in_buffer ((p # ps) ! i)
       then (off + length (concat (take i (v # vs))), (v # vs) ! i) \<in> set ?ws \<and>
            buffer_pointer ((p # ps) ! i) ((?q # qs) ! i) = buf + of_nat (off + length (concat (take i (v # vs))))
       else (?q # qs) ! i = junk ! i"
    proof (cases i)
      case 0
      then show ?thesis using junk by (simp add: buffer_pointer_def)
    next
      case (Suc j)
      then have "j < length ps" using i by simp
      then show ?thesis using rest(6)[rule_format, of j] junk Suc by (simp add: add.assoc split: if_splits)
    qed
  qed
qed simp

lemma copy_loop_short:
  assumes "list_all2 (\<lambda>p v. value_bytes h p = Some v) ps vs" and "room < length (concat vs)"
  shows "\<exists>qs ws. copy_loop h buf ps junk off room = Some (STATUS_NO_MEMORY, qs, ws) \<and>
    length qs < length ps \<and> contiguous off ws \<and> length (concat (map snd ws)) \<le> room"
  using assms
proof (induction arbitrary: off room junk rule: list_all2_induct)
  case (Cons p ps v vs)
  note step = copy_loop_step[OF Cons.hyps(1), of buf ps junk off room]
  have empty: "v = []" if "\<not> in_buffer p"
    using Cons.hyps(1) that by (auto simp: in_buffer_def value_bytes_def Let_def split: if_splits)
  show ?case
  proof (cases "in_buffer p \<and> room < length v")
    case True
    then show ?thesis using step by simp
  next
    case False
    then have fits: "length v \<le> room" using empty by (cases "in_buffer p") auto
    have "room - length v < length (concat vs)" using Cons.prems fits by simp
    then obtain qs ws where "copy_loop h buf ps (tl junk) (off + length v) (room - length v) = Some (STATUS_NO_MEMORY, qs, ws)"
      "length qs < length ps" "contiguous (off + length v) ws" "length (concat (map snd ws)) \<le> room - length v"
      using Cons.IH by blast
    then show ?thesis using step False fits empty by (cases "in_buffer p") auto
  qed
qed simp

text \<open>
  C26: \<open>iot_action_request_copy_size\<close> is exactly the room a copy needs: with that much, copying
  succeeds, puts the bytes of the RAW and STRING values one after the other behind the parameter
  array, in order and within the room, and points each copied parameter to its bytes; with less
  it fails with NO_MEMORY and stays within the room. Names, types and every value that is
  not RAW or STRING are not copied: those fields are what the buffer held before.
\<close>

theorem request_copy:
  assumes ps: "parameters request = Some ps" and vs: "list_all2 (\<lambda>p v. value_bytes h p = Some v) ps vs"
    and junk: "length ps \<le> length junk"
    and needed: "needed = PARAMETER_SIZE * length ps + length (concat vs)"
  shows "iot_action_request_copy_size h request = Some needed \<and>
    (\<exists>st dest ws. iot_action_request_copy h request buf junk room = Some (st, dest, ws) \<and>
      st = (if needed \<le> room then STATUS_SUCCESS else STATUS_NO_MEMORY) \<and>
      (\<forall>w \<in> set ws. PARAMETER_SIZE * length ps \<le> fst w \<and> fst w + length (snd w) \<le> room) \<and>
      (needed \<le> room \<longrightarrow> concat (map snd ws) = concat vs \<and> contiguous (PARAMETER_SIZE * length ps) ws \<and>
        (\<exists>qs. parameters dest = Some qs \<and> map untouched qs = map untouched (take (length ps) junk) \<and>
          (\<forall>i < length ps. if in_buffer (ps ! i)
             then (\<exists>at. (at, vs ! i) \<in> set ws \<and> buffer_pointer (ps ! i) (qs ! i) = buf + of_nat at)
             else qs ! i = junk ! i))))"
proof (rule conjI)
  let ?n = "length ps"
  have n: "rq_parameter_count request = ?n" using length_parameters[OF ps] by simp
  have len: "length vs = ?n" using vs by (simp add: list_all2_lengthD)
  show "iot_action_request_copy_size h request = Some needed"
    using ps n needed by (simp add: iot_action_request_copy_size_def copy_bytes_sum_values[OF vs])
  consider "?n = 0" | "?n \<noteq> 0" "room < PARAMETER_SIZE * ?n"
    | "PARAMETER_SIZE * ?n \<le> room" "?n \<noteq> 0" "room < needed" | "needed \<le> room" "?n \<noteq> 0"
    by linarith
  then show "\<exists>st dest ws. iot_action_request_copy h request buf junk room = Some (st, dest, ws) \<and>
      st = (if needed \<le> room then STATUS_SUCCESS else STATUS_NO_MEMORY) \<and>
      (\<forall>w \<in> set ws. PARAMETER_SIZE * ?n \<le> fst w \<and> fst w + length (snd w) \<le> room) \<and>
      (needed \<le> room \<longrightarrow> concat (map snd ws) = concat vs \<and> contiguous (PARAMETER_SIZE * ?n) ws \<and>
        (\<exists>qs. parameters dest = Some qs \<and> map untouched qs = map untouched (take ?n junk) \<and>
          (\<forall>i < ?n. if in_buffer (ps ! i)
             then (\<exists>at. (at, vs ! i) \<in> set ws \<and> buffer_pointer (ps ! i) (qs ! i) = buf + of_nat at)
             else qs ! i = junk ! i)))"
  proof cases
    case 1
    then show ?thesis using n len needed by (simp add: iot_action_request_copy_def parameters_def)
  next
    case 2
    then show ?thesis using n needed by (simp add: iot_action_request_copy_def)
  next
    case 3
    then have "room - PARAMETER_SIZE * ?n < length (concat vs)" using needed by linarith
    then obtain qs ws where "copy_loop h buf ps junk (PARAMETER_SIZE * ?n) (room - PARAMETER_SIZE * ?n) =
        Some (STATUS_NO_MEMORY, qs, ws)" "contiguous (PARAMETER_SIZE * ?n) ws"
      "length (concat (map snd ws)) \<le> room - PARAMETER_SIZE * ?n"
      using copy_loop_short[OF vs] by blast
    then show ?thesis using 3 ps n contiguous_bound
      by (fastforce simp: iot_action_request_copy_def)
  next
    case 4
    then have fits: "length (concat vs) \<le> room - PARAMETER_SIZE * ?n" using needed by linarith
    obtain qs ws where loop: "copy_loop h buf ps junk (PARAMETER_SIZE * ?n) (room - PARAMETER_SIZE * ?n) =
        Some (STATUS_SUCCESS, qs, ws)" "length qs = ?n" "map untouched qs = map untouched (take ?n junk)"
      "contiguous (PARAMETER_SIZE * ?n) ws" "concat (map snd ws) = concat vs"
      "\<forall>i < ?n. if in_buffer (ps ! i)
         then (PARAMETER_SIZE * ?n + length (concat (take i vs)), vs ! i) \<in> set ws \<and>
              buffer_pointer (ps ! i) (qs ! i) = buf + of_nat (PARAMETER_SIZE * ?n + length (concat (take i vs)))
         else qs ! i = junk ! i"
      using copy_loop_fits[OF vs fits junk, of buf "PARAMETER_SIZE * ?n"] by (elim exE conjE) (rule that)
    let ?dest = "request\<lparr>rq_parameter := Some qs, rq_parameter_count := length qs\<rparr>"
    have "iot_action_request_copy h request buf junk room = Some (STATUS_SUCCESS, ?dest, ws)"
      using 4 ps n loop(1) needed by (simp add: iot_action_request_copy_def)
    moreover have "parameters ?dest = Some qs" by (simp add: parameters_def)
    moreover have "\<forall>w \<in> set ws. PARAMETER_SIZE * ?n \<le> fst w \<and> fst w + length (snd w) \<le> room"
      using contiguous_bound[OF loop(4)] loop(5) 4 needed by fastforce
    ultimately show ?thesis using loop 4 by (auto split: if_splits)
  qed
qed

definition example_values :: "iot_action_parameter list" where
  "example_values =
     [(example_parameter ''s'' PARAMETER_OUT)\<lparr>ap_data := example_text 8\<rparr>,
      (example_parameter ''n'' PARAMETER_OUT)\<lparr>ap_data := data_zero\<lparr>lo := 5, has_value := True, dtype := TYPE_INT64\<rparr>\<rparr>]"

definition example_full_request :: iot_action_request where
  "example_full_request = request_zero\<lparr>rq_parameter := Some example_values, rq_parameter_count := 2\<rparr>"

lemma example_value_bytes:
  "parameters example_full_request = Some example_values"
  "list_all2 (\<lambda>p v. value_bytes example_heap p = Some v) example_values [[0x61, 0], []]"
  by (simp_all add: example_full_request_def parameters_def example_values_def value_bytes_def Let_def
      example_parameter_def example_text_def example_heap_def data_zero_def read_string_def
      read_bytes_def chars_of_def bytes_of_def char_of_def bit_0)

abbreviation (input) example_junk :: "iot_action_parameter list" where
  "example_junk \<equiv> replicate 2 (example_parameter ''old'' 0)"

theorem request_copy_witness:
  "iot_action_request_copy_size example_heap example_full_request = Some 114 \<and>
   (\<exists>st dest ws. iot_action_request_copy example_heap example_full_request 64 example_junk 114 = Some (st, dest, ws) \<and>
      st = STATUS_SUCCESS \<and>
      (\<exists>qs. parameters dest = Some qs \<and> map untouched qs = map untouched (take 2 example_junk) \<and>
         (\<exists>at. (at, [0x61, 0]) \<in> set ws \<and> lo (ap_data (qs ! 0)) = 64 + of_nat at) \<and>
         qs ! 1 = example_parameter ''old'' 0))"
proof -
  have len: "length example_values = 2" by (simp add: example_values_def)
  have kinds: "in_buffer (example_values ! 0)" "dtype (ap_data (example_values ! 0)) = TYPE_STRING"
      "\<not> in_buffer (example_values ! 1)"
    by (simp_all add: example_values_def in_buffer_def example_text_def data_zero_def)
  have "length example_values \<le> length example_junk"
    "114 = PARAMETER_SIZE * length example_values + length (concat [[0x61 :: u8, 0], []])"
    using len by simp_all
  note copy = request_copy[OF example_value_bytes this, of 64 114]
  then obtain st dest ws qs where c:
    "iot_action_request_copy_size example_heap example_full_request = Some 114"
    "iot_action_request_copy example_heap example_full_request 64 example_junk 114 = Some (st, dest, ws)"
    "st = STATUS_SUCCESS" "parameters dest = Some qs"
    "map untouched qs = map untouched (take (length example_values) example_junk)"
    "\<forall>i < length example_values. if in_buffer (example_values ! i)
       then (\<exists>at. (at, [[0x61, 0], []] ! i) \<in> set ws \<and>
              buffer_pointer (example_values ! i) (qs ! i) = 64 + of_nat at)
       else qs ! i = example_junk ! i"
    by auto
  have "\<exists>at. (at, [0x61, 0]) \<in> set ws \<and> lo (ap_data (qs ! 0)) = 64 + of_nat at"
    using c(6)[rule_format, of 0] kinds len by (simp add: buffer_pointer_def)
  moreover have "qs ! 1 = example_parameter ''old'' 0"
    using c(6)[rule_format, of 1] kinds(3) len by simp
  ultimately show ?thesis using c(1-5) len by auto
qed

section \<open>Properties of setting a parameter\<close>

abbreviation parameter_key :: "iot_action_parameter \<Rightarrow> string" where
  "parameter_key p \<equiv> casekey IOT_NAME_MAX_LEN (the (ap_name p))"

text \<open>The parameters as a map from names, which are compared without regard to case.\<close>

definition parameter_map :: "iot_action_parameter list \<Rightarrow> string \<rightharpoonup> iot_action_parameter" where
  "parameter_map ps = map_of (map (\<lambda>p. (parameter_key p, p)) ps)"

definition named :: "iot_action_parameter list \<Rightarrow> bool" where
  "named ps \<longleftrightarrow> (\<forall>p \<in> set ps. ap_name p \<noteq> None) \<and> distinct (map parameter_key ps)"

definition request_ok :: "iot_action_request \<Rightarrow> bool" where
  "request_ok r \<longleftrightarrow> (\<exists>ps. rq_parameter r = Some ps \<and> rq_parameter_count r \<le> length ps) \<and>
     rq_parameter_count r \<le> IOT_PARAMETER_MAX \<and> named (the (parameters r))"

lemma parameters_ok: "request_ok r \<Longrightarrow> parameters r = Some (take (rq_parameter_count r) (the (rq_parameter r)))"
  by (auto simp: request_ok_def parameters_def)

lemma parameter_map_nth:
  assumes "named ps" "j < length ps" shows "parameter_map ps (parameter_key (ps ! j)) = Some (ps ! j)"
  unfolding parameter_map_def
  by (rule map_of_is_SomeI) (use assms in \<open>auto simp: named_def comp_def\<close>)

lemma parameter_map_Some: "parameter_map ps k = Some p \<Longrightarrow> p \<in> set ps \<and> parameter_key p = k"
  unfolding parameter_map_def by (drule map_of_SomeD) auto

lemma parameter_map_None: "parameter_map ps k = None \<longleftrightarrow> k \<notin> parameter_key ` set ps"
  by (simp add: parameter_map_def map_of_eq_None_iff image_image)

lemma parameter_map_update:
  assumes "named ps" "j < length ps" "parameter_key p = parameter_key (ps ! j)" "ap_name p \<noteq> None"
  shows "named (ps[j := p]) \<and> parameter_map (ps[j := p]) = (parameter_map ps)(parameter_key p \<mapsto> p)"
proof
  have keys: "map parameter_key (ps[j := p]) = map parameter_key ps"
    unfolding map_update assms(3) using list_update_id[of "map parameter_key ps" j] assms(2) by simp
  show nm: "named (ps[j := p])"
    using assms keys set_update_subset_insert[of ps j p] unfolding named_def by auto
  show "parameter_map (ps[j := p]) = (parameter_map ps)(parameter_key p \<mapsto> p)"
  proof
    fix k show "parameter_map (ps[j := p]) k = ((parameter_map ps)(parameter_key p \<mapsto> p)) k"
    proof (cases "k \<in> parameter_key ` set ps")
      case False
      then have "k \<notin> set (map parameter_key (ps[j := p]))" "k \<noteq> parameter_key p"
        unfolding keys using assms(2,3) by auto
      then have "parameter_map (ps[j := p]) k = None" unfolding parameter_map_None set_map by blast
      then show ?thesis using False \<open>k \<noteq> _\<close> by (simp add: parameter_map_None[symmetric])
    next
      case True
      then obtain i where i: "i < length ps" "k = parameter_key (ps ! i)" by (auto simp: in_set_conv_nth)
      have "parameter_map (ps[j := p]) (parameter_key (ps[j := p] ! i)) = Some (ps[j := p] ! i)"
        using parameter_map_nth[OF nm] i by simp
      moreover have "k = parameter_key p \<Longrightarrow> i = j"
        using assms i unfolding named_def by (auto simp: distinct_conv_nth)
      ultimately show ?thesis using i assms parameter_map_nth[OF assms(1) i(1)]
        by (cases "i = j") auto
    qed
  qed
qed

lemma parameter_map_add:
  assumes "named ps" "parameter_map ps (parameter_key p) = None" "ap_name p \<noteq> None"
  shows "named (ps @ [p]) \<and> parameter_map (ps @ [p]) = (parameter_map ps)(parameter_key p \<mapsto> p)"
proof
  show "named (ps @ [p])" using assms by (auto simp: named_def parameter_map_None)
  show "parameter_map (ps @ [p]) = (parameter_map ps)(parameter_key p \<mapsto> p)"
    using assms(2) by (auto simp: parameter_map_def fun_eq_iff map_add_def split: option.splits)
qed

lemma parameter_index_spec:
  assumes "\<forall>p \<in> set ps. ap_name p \<noteq> None"
  shows "case parameter_map ps (casekey IOT_NAME_MAX_LEN name) of
      None \<Rightarrow> \<exists>n. parameter_index ps name type i = Some (STATUS_NOT_FOUND, n)
    | Some p \<Rightarrow> \<exists>j < length ps. ps ! j = p \<and> parameter_key p = casekey IOT_NAME_MAX_LEN name \<and>
        parameter_index ps name type i =
          Some (if dtype (ap_data p) \<in> {type, TYPE_NULL} then STATUS_SUCCESS else STATUS_BAD_REQUEST, i + j)"
  using assms
proof (induction ps arbitrary: i)
  case Nil
  then show ?case by (simp add: parameter_map_def)
next
  case (Cons q ps)
  then obtain nm where nm: "ap_name q = Some nm" by auto
  show ?case
  proof (cases "parameter_key q = casekey IOT_NAME_MAX_LEN name")
    case True
    then show ?thesis using nm by (auto simp: parameter_map_def)
  next
    case False
    then have m: "parameter_map (q # ps) (casekey IOT_NAME_MAX_LEN name) = parameter_map ps (casekey IOT_NAME_MAX_LEN name)"
      by (auto simp: parameter_map_def)
    show ?thesis
      using Cons.IH[of "i + 1"] Cons.prems False nm unfolding m
      by (fastforce split: option.splits)
  qed
qed

lemma parameter_get_spec:
  assumes "named ps"
  shows "parameter_get_loop f g h ps name convert t dest =
    (case parameter_map ps (casekey IOT_NAME_MAX_LEN name) of
       None \<Rightarrow> Some (STATUS_NOT_FOUND, None)
     | Some p \<Rightarrow> do {
         (result, out) \<leftarrow> iot_common_arg_get f g h (Some (ap_data p)) convert t dest;
         Some (result, if result = STATUS_NOT_FOUND then None else out)
       })"
  using assms
proof (induction ps)
  case Nil
  then show ?case by (simp add: parameter_map_def)
next
  case (Cons q ps)
  then obtain nm where nm: "ap_name q = Some nm" by (auto simp: named_def)
  have nd: "named ps" using Cons.prems by (simp add: named_def)
  show ?case
  proof (cases "parameter_key q = casekey IOT_NAME_MAX_LEN name")
    case True
    then have "parameter_map ps (casekey IOT_NAME_MAX_LEN name) = None"
      using Cons.prems by (auto simp: named_def parameter_map_None)
    then show ?thesis using nm True Cons.IH[OF nd]
      by (cases "iot_common_arg_get f g h (Some (ap_data q)) convert t dest") (auto simp: parameter_map_def)
  next
    case False
    then show ?thesis using nm Cons.IH[OF nd] by (auto simp: parameter_map_def)
  qed
qed

lemma parameter_get_map:
  assumes "request_ok r" "parameters r = Some ps"
  shows "iot_action_parameter_get f g h r (Some name) convert t dest =
    (case parameter_map ps (casekey IOT_NAME_MAX_LEN name) of
       None \<Rightarrow> Some (STATUS_NOT_FOUND, None)
     | Some p \<Rightarrow> do {
         (result, out) \<leftarrow> iot_common_arg_get f g h (Some (ap_data p)) convert t dest;
         Some (result, if result = STATUS_NOT_FOUND then None else out)
       })"
  using assms by (simp add: iot_action_parameter_get_def request_ok_def parameter_get_spec)

lemma request_ok_array:
  assumes "request_ok r" "parameters r = Some ps"
  obtains all where "rq_parameter r = Some all" "ps = take (rq_parameter_count r) all"
    "rq_parameter_count r \<le> length all" "rq_parameter_count r \<le> 7" "named ps"
    "length ps = rq_parameter_count r"
  using assms parameters_ok[OF assms(1)] by (auto simp: request_ok_def intro: that)

lemma request_store:
  assumes r: "request_ok r" "parameters r = Some ps" and j: "j < length ps"
    and p: "parameter_key p = parameter_key (ps ! j)" "ap_name p \<noteq> None"
  defines "r' \<equiv> r\<lparr>rq_parameter := Some ((the (rq_parameter r))[j := p]), rq_parameter_count := rq_parameter_count r\<rparr>"
  shows "request_ok r' \<and> parameters r' = Some (ps[j := p]) \<and>
    parameter_map (ps[j := p]) = (parameter_map ps)(parameter_key p \<mapsto> p)"
proof -
  obtain all where all: "rq_parameter r = Some all" "ps = take (rq_parameter_count r) all"
    "rq_parameter_count r \<le> length all" "rq_parameter_count r \<le> 7" "named ps"
    "length ps = rq_parameter_count r"
    using request_ok_array[OF r] by blast
  have m: "named (ps[j := p])" "parameter_map (ps[j := p]) = (parameter_map ps)(parameter_key p \<mapsto> p)"
    using parameter_map_update[OF all(5) j p] by simp_all
  have "parameters r' = Some (ps[j := p])"
    using all j by (auto simp: parameters_def r'_def take_update_swap)
  then show ?thesis using m all by (simp add: request_ok_def r'_def)
qed

lemma request_new:
  assumes r: "request_ok r" "parameters r = Some ps" "length ps < 7"
    and p: "parameter_map ps (parameter_key p) = None" "ap_name p \<noteq> None"
  defines "r' \<equiv> \<lambda>n. r\<lparr>rq_parameter := Some (ps @ [p]), rq_parameter_count := n\<rparr>"
  shows "request_ok (r' (length ps + 1)) \<and> parameters (r' (length ps + 1)) = Some (ps @ [p]) \<and>
    parameter_map (ps @ [p]) = (parameter_map ps)(parameter_key p \<mapsto> p)"
    and "request_ok (r' (length ps)) \<and> parameters (r' (length ps)) = Some ps"
proof -
  have nm: "named ps" using request_ok_array[OF r(1,2)] by blast
  have m: "named (ps @ [p])" "parameter_map (ps @ [p]) = (parameter_map ps)(parameter_key p \<mapsto> p)"
    using parameter_map_add[OF nm p] by simp_all
  have "parameters (r' (length ps + 1)) = Some (ps @ [p])" by (simp add: parameters_def r'_def)
  then show "request_ok (r' (length ps + 1)) \<and> parameters (r' (length ps + 1)) = Some (ps @ [p]) \<and>
    parameter_map (ps @ [p]) = (parameter_map ps)(parameter_key p \<mapsto> p)"
    using m r(3) by (simp add: request_ok_def r'_def)
  have "parameters (r' (length ps)) = Some ps" by (simp add: parameters_def r'_def)
  then show "request_ok (r' (length ps)) \<and> parameters (r' (length ps)) = Some ps"
    using nm r(3) by (simp add: request_ok_def r'_def)
qed

lemma parameter_index_of:
  assumes "request_ok r" "parameters r = Some ps" "\<not> name_bad name"
  shows "iot_action_request_parameter_set_args h r (Some name) type args = do {
      (result, i) \<leftarrow> parameter_index ps name type 0;
      (add, result, request, h) \<leftarrow>
        (if result = STATUS_NOT_FOUND
         then if length ps < IOT_PARAMETER_MAX
              then do {
                (ok, request, h) \<leftarrow> parameter_new h r name;
                Some (if ok then (True, STATUS_SUCCESS, request, h)
                      else (False, STATUS_NO_MEMORY, request, h))
              }
              else Some (False, STATUS_FULL, r, h)
         else Some (False, result, r, h));
      (if result = STATUS_SUCCESS
       then do {
         (result, d, h) \<leftarrow> iot_common_arg_set True type args h;
         qs \<leftarrow> rq_parameter request;
         Some (result, request\<lparr>rq_parameter := Some (qs[i := (qs ! i)\<lparr>ap_type := PARAMETER_OUT, ap_data := d\<rparr>]),
           rq_parameter_count := rq_parameter_count request + (if add \<and> result = STATUS_SUCCESS then 1 else 0)\<rparr>, h)
       }
       else Some (result, request, h))
    }"
  unfolding iot_action_request_parameter_set_args_def assms(2) Let_def
    length_parameters[OF assms(2), symmetric]
  using assms(3) by simp

lemma parameter_set_existing:
  assumes r: "request_ok r" "parameters r = Some ps" "\<not> name_bad name"
    and p: "parameter_map ps (casekey IOT_NAME_MAX_LEN name) = Some p"
  shows "dtype (ap_data p) \<notin> {type, TYPE_NULL} \<Longrightarrow>
      iot_action_request_parameter_set_args h r (Some name) type args = Some (STATUS_BAD_REQUEST, r, h)"
    and "dtype (ap_data p) \<in> {type, TYPE_NULL} \<Longrightarrow>
      iot_common_arg_set True type args h = Some (st, d, h') \<Longrightarrow>
      \<exists>j < length ps. ps ! j = p \<and> parameter_key p = casekey IOT_NAME_MAX_LEN name \<and>
        iot_action_request_parameter_set_args h r (Some name) type args =
          Some (st, r\<lparr>rq_parameter := Some ((the (rq_parameter r))[j := p\<lparr>ap_type := PARAMETER_OUT, ap_data := d\<rparr>]),
            rq_parameter_count := rq_parameter_count r\<rparr>, h')"
proof -
  obtain all where all: "rq_parameter r = Some all" "ps = take (rq_parameter_count r) all"
    "length ps = rq_parameter_count r" "named ps"
    using request_ok_array[OF r(1,2)] by blast
  obtain j where j: "j < length ps" "ps ! j = p" "parameter_key p = casekey IOT_NAME_MAX_LEN name"
    "parameter_index ps name type 0 =
      Some (if dtype (ap_data p) \<in> {type, TYPE_NULL} then STATUS_SUCCESS else STATUS_BAD_REQUEST, j)"
    using parameter_index_spec[of ps name type 0] p all(4) by (auto simp: named_def)
  have "all ! j = p" using j all by simp
  then show "dtype (ap_data p) \<notin> {type, TYPE_NULL} \<Longrightarrow>
      iot_action_request_parameter_set_args h r (Some name) type args = Some (STATUS_BAD_REQUEST, r, h)"
    "dtype (ap_data p) \<in> {type, TYPE_NULL} \<Longrightarrow>
      iot_common_arg_set True type args h = Some (st, d, h') \<Longrightarrow>
      \<exists>j < length ps. ps ! j = p \<and> parameter_key p = casekey IOT_NAME_MAX_LEN name \<and>
        iot_action_request_parameter_set_args h r (Some name) type args =
          Some (st, r\<lparr>rq_parameter := Some ((the (rq_parameter r))[j := p\<lparr>ap_type := PARAMETER_OUT, ap_data := d\<rparr>]),
            rq_parameter_count := rq_parameter_count r\<rparr>, h')"
    using j all(1) by (auto simp: parameter_index_of[OF r])
qed

lemma parameter_set_fresh:
  assumes r: "request_ok r" "parameters r = Some ps" "\<not> name_bad name"
    and p: "parameter_map ps (casekey IOT_NAME_MAX_LEN name) = None"
    and grabs: "os_grab h = (ok, h1)" "os_grab h1 = (ok_name, h2)"
  shows "length ps = 7 \<Longrightarrow> iot_action_request_parameter_set_args h r (Some name) type args = Some (STATUS_FULL, r, h)"
    and "length ps < 7 \<Longrightarrow> iot_action_request_parameter_set_args h r (Some name) type args =
      (if ok \<and> ok_name then do {
         (st, d, h') \<leftarrow> iot_common_arg_set True type args h2;
         Some (st, r\<lparr>rq_parameter := Some (ps @ [\<lparr>ap_name = Some (take IOT_NAME_MAX_LEN name),
             ap_data = d, ap_type = PARAMETER_OUT\<rparr>]),
           rq_parameter_count := length ps + (if st = STATUS_SUCCESS then 1 else 0)\<rparr>, h')
       }
       else Some (STATUS_NO_MEMORY,
         if ok \<and> rq_parameter r \<noteq> Some [] then r\<lparr>rq_parameter := None\<rparr> else r, h2))"
proof -
  obtain all where all: "rq_parameter r = Some all" "ps = take (rq_parameter_count r) all"
    "length ps = rq_parameter_count r" "named ps"
    using request_ok_array[OF r(1,2)] by blast
  obtain n where idx: "parameter_index ps name type 0 = Some (STATUS_NOT_FOUND, n)"
    using parameter_index_spec[of ps name type 0] p all(4) by (auto simp: named_def)
  have n: "n = length ps"
    using idx
  proof -
    have "parameter_index ps name type i = Some (STATUS_NOT_FOUND, m) \<Longrightarrow> m = i + length ps" for i m
      by (induction ps name type i rule: parameter_index.induct)
        (auto split: if_splits Option.bind_splits)
    then show ?thesis using idx by fastforce
  qed
  show "length ps = 7 \<Longrightarrow> iot_action_request_parameter_set_args h r (Some name) type args = Some (STATUS_FULL, r, h)"
    using idx by (simp add: parameter_index_of[OF r])
  have fresh: "parameter_new h r name = Some (if ok \<and> ok_name
      then (True, r\<lparr>rq_parameter := Some (ps @ [\<lparr>ap_name = Some (take IOT_NAME_MAX_LEN name),
        ap_data = data_zero, ap_type = 0\<rparr>])\<rparr>, h2)
      else (False, if ok \<and> all \<noteq> [] then r\<lparr>rq_parameter := None\<rparr> else r, h2))"
    using grabs all(1,2) by (simp add: parameter_new_def Let_def)
  assume less: "length ps < 7"
  note eq = parameter_index_of[OF r, of h type args, unfolded idx n fresh]
  have count: "rq_parameter_count r = length ps" using all(3) by simp
  show "iot_action_request_parameter_set_args h r (Some name) type args =
      (if ok \<and> ok_name then do {
         (st, d, h') \<leftarrow> iot_common_arg_set True type args h2;
         Some (st, r\<lparr>rq_parameter := Some (ps @ [\<lparr>ap_name = Some (take IOT_NAME_MAX_LEN name),
             ap_data = d, ap_type = PARAMETER_OUT\<rparr>]),
           rq_parameter_count := length ps + (if st = STATUS_SUCCESS then 1 else 0)\<rparr>, h')
       }
       else Some (STATUS_NO_MEMORY,
         if ok \<and> rq_parameter r \<noteq> Some [] then r\<lparr>rq_parameter := None\<rparr> else r, h2))"
    unfolding eq using less by (cases "ok \<and> ok_name") (auto simp: count all(1))
qed

lemma parameter_set_old:
  assumes r: "request_ok r" "parameters r = Some ps" "\<not> name_bad name"
    and p: "parameter_map ps (casekey IOT_NAME_MAX_LEN name) = Some p" "dtype (ap_data p) \<in> {type, TYPE_NULL}"
    and arg: "iot_common_arg_set True type args h = Some (st, d, h')"
  shows "\<exists>r' qs. iot_action_request_parameter_set_args h r (Some name) type args = Some (st, r', h') \<and>
    request_ok r' \<and> parameters r' = Some qs \<and>
    parameter_map qs = (parameter_map ps)(casekey IOT_NAME_MAX_LEN name \<mapsto> p\<lparr>ap_type := PARAMETER_OUT, ap_data := d\<rparr>)"
proof -
  let ?p = "p\<lparr>ap_type := PARAMETER_OUT, ap_data := d\<rparr>"
  obtain j where j: "j < length ps" "ps ! j = p" "parameter_key p = casekey IOT_NAME_MAX_LEN name"
    "iot_action_request_parameter_set_args h r (Some name) type args =
      Some (st, r\<lparr>rq_parameter := Some ((the (rq_parameter r))[j := ?p]), rq_parameter_count := rq_parameter_count r\<rparr>, h')"
    using parameter_set_existing(2)[OF r p arg] by blast
  have "named ps" by (rule request_ok_array[OF r(1,2)])
  then have "ap_name p \<noteq> None" using j by (auto simp: named_def)
  then show ?thesis using request_store[OF r(1,2) j(1), of ?p] j by auto
qed

lemma parameter_set_new:
  assumes r: "request_ok r" "parameters r = Some ps" "\<not> name_bad name"
    and p: "parameter_map ps (casekey IOT_NAME_MAX_LEN name) = None" "length ps < 7"
    and grabs: "os_grab h = (True, h1)" "os_grab h1 = (True, h2)"
    and arg: "iot_common_arg_set True type args h2 = Some (st, d, h')"
  shows "\<exists>r' qs. iot_action_request_parameter_set_args h r (Some name) type args = Some (st, r', h') \<and>
       request_ok r' \<and> parameters r' = Some qs \<and>
       parameter_map qs = (if st = STATUS_SUCCESS
         then (parameter_map ps)(casekey IOT_NAME_MAX_LEN name \<mapsto> \<lparr>ap_name = Some (take IOT_NAME_MAX_LEN name),
           ap_data = d, ap_type = PARAMETER_OUT\<rparr>)
         else parameter_map ps)"
proof -
  let ?p = "\<lparr>ap_name = Some (take IOT_NAME_MAX_LEN name), ap_data = d, ap_type = PARAMETER_OUT\<rparr>"
  have none: "parameter_map ps (parameter_key ?p) = None" using p(1) by simp
  note new = request_new[OF r(1,2) p(2) none]
  note set = parameter_set_fresh(2)[OF r p(1) grabs p(2), of type args]
  show ?thesis using set arg new by (cases "st = STATUS_SUCCESS") auto
qed

text \<open>
  C24: setting a parameter of a request refines updating a map from names, without regard to
  case. A name with a forbidden character is BAD_REQUEST, as is an existing parameter of another
  type; an existing one gets the new value, even when storing it fails; a new one is added when
  there is room for it and both the array and the name can be allocated. When the array cannot be
  allocated the request is as it was. When the array can and the name cannot, an array that
  was there is lost (\<open>Some []\<close> is the request without one), and only then. In every other case the request stays well-formed, and reading a parameter reads
  the map.
\<close>

theorem request_parameter_set:
  assumes ok: "request_ok r" and ps: "parameters r = Some ps"
    and value_defined: "\<And>h'. cells h' = cells h \<Longrightarrow> iot_common_arg_set True type args h' \<noteq> None"
    and k: "k = casekey IOT_NAME_MAX_LEN name"
    and grabs: "os_grab h = (array_ok, h1)" "os_grab h1 = (name_ok, h2)"
  shows "\<exists>st r' h'. iot_action_request_parameter_set_args h r (Some name) type args = Some (st, r', h') \<and>
    (if \<not> name_bad name \<and> parameter_map ps k = None \<and> length ps < IOT_PARAMETER_MAX \<and>
        array_ok \<and> \<not> name_ok \<and> rq_parameter r \<noteq> Some []
     then st = STATUS_NO_MEMORY \<and> r' = r\<lparr>rq_parameter := None\<rparr> \<and> h' = h2
     else request_ok r' \<and> (\<exists>qs. parameters r' = Some qs \<and>
       iot_action_parameter_get f g h' r' (Some other) convert t dest =
         (case parameter_map qs (casekey IOT_NAME_MAX_LEN other) of
            None \<Rightarrow> Some (STATUS_NOT_FOUND, None)
          | Some p \<Rightarrow> do {
              (result, out) \<leftarrow> iot_common_arg_get f g h' (Some (ap_data p)) convert t dest;
              Some (result, if result = STATUS_NOT_FOUND then None else out)
            }) \<and>
       (if name_bad name then st = STATUS_BAD_REQUEST \<and> r' = r
        else case parameter_map ps k of
          Some p \<Rightarrow> if dtype (ap_data p) \<in> {type, TYPE_NULL}
            then \<exists>d. iot_common_arg_set True type args h = Some (st, d, h') \<and>
                   parameter_map qs = (parameter_map ps)(k \<mapsto> p\<lparr>ap_type := PARAMETER_OUT, ap_data := d\<rparr>)
            else st = STATUS_BAD_REQUEST \<and> r' = r
        | None \<Rightarrow>
            if length ps = IOT_PARAMETER_MAX then st = STATUS_FULL \<and> r' = r
            else if array_ok \<and> name_ok
            then \<exists>d. iot_common_arg_set True type args h2 = Some (st, d, h') \<and>
                 parameter_map qs = (if st = STATUS_SUCCESS
                   then (parameter_map ps)(k \<mapsto> \<lparr>ap_name = Some (take IOT_NAME_MAX_LEN name),
                     ap_data = d, ap_type = PARAMETER_OUT\<rparr>)
                   else parameter_map ps)
            else st = STATUS_NO_MEMORY \<and> r' = r \<and> h' = h2)))"
proof -
  define read where "read h' qs = (case parameter_map qs (casekey IOT_NAME_MAX_LEN other) of
      None \<Rightarrow> Some (STATUS_NOT_FOUND, None)
    | Some p \<Rightarrow> do {
        (result, out) \<leftarrow> iot_common_arg_get f g h' (Some (ap_data p)) convert t dest;
        Some (result, if result = STATUS_NOT_FOUND then None else out)
      })" for h' qs
  have reads: "iot_action_parameter_get f g h' r' (Some other) convert t dest = read h' qs"
    if "request_ok r'" "parameters r' = Some qs" for h' r' qs
    using parameter_get_map[OF that] by (simp add: read_def)
  note fits = request_ok_array[OF ok ps]
  have le: "length ps \<le> 7" by (rule fits) simp
  let ?set = "iot_action_request_parameter_set_args h r (Some name) type args"
  consider (bad) "name_bad name"
    | (old) p where "\<not> name_bad name" "parameter_map ps k = Some p" "dtype (ap_data p) \<in> {type, TYPE_NULL}"
    | (other) p where "\<not> name_bad name" "parameter_map ps k = Some p" "dtype (ap_data p) \<notin> {type, TYPE_NULL}"
    | (full) "\<not> name_bad name" "parameter_map ps k = None" "length ps = 7"
    | (fresh) "\<not> name_bad name" "parameter_map ps k = None" "length ps < 7"
    using le by (cases "name_bad name"; cases "parameter_map ps k"; cases "length ps = 7") auto
  then show ?thesis
  proof cases
    case bad
    then have "?set = Some (STATUS_BAD_REQUEST, r, h)" by (simp add: iot_action_request_parameter_set_args_def)
    then show ?thesis using bad ok ps reads[OF ok ps, of h] unfolding read_def[symmetric] by simp
  next
    case (other p)
    have "?set = Some (STATUS_BAD_REQUEST, r, h)"
      by (rule parameter_set_existing(1)[OF ok ps other(1) other(2)[unfolded k] other(3)])
    then show ?thesis using other ok ps reads[OF ok ps, of h] unfolding read_def[symmetric] by simp
  next
    case full
    have "?set = Some (STATUS_FULL, r, h)"
      by (rule parameter_set_fresh(1)[OF ok ps full(1) full(2)[unfolded k] grabs full(3)])
    then show ?thesis using full ok ps reads[OF ok ps, of h] unfolding read_def[symmetric] by simp
  next
    case (old p)
    obtain st d h' where arg: "iot_common_arg_set True type args h = Some (st, d, h')"
      using value_defined[of h] by auto
    obtain r' qs where r': "?set = Some (st, r', h')" "request_ok r'" "parameters r' = Some qs"
      "parameter_map qs = (parameter_map ps)(k \<mapsto> p\<lparr>ap_type := PARAMETER_OUT, ap_data := d\<rparr>)"
      using parameter_set_old[OF ok ps old(1) old(2)[unfolded k] old(3) arg] k by blast
    show ?thesis unfolding read_def[symmetric] using old arg r' reads[OF r'(2,3), of h'] by simp
  next
    case fresh
    note set = parameter_set_fresh(2)[OF ok ps fresh(1) fresh(2)[unfolded k] grabs fresh(3), of type args]
    show ?thesis
    proof (cases "array_ok \<and> name_ok")
      case True
      have "cells h2 = cells h" using os_grab_cells[OF grabs(1)] os_grab_cells[OF grabs(2)] by simp
      then obtain st d h' where arg: "iot_common_arg_set True type args h2 = Some (st, d, h')"
        using value_defined[of h2] by auto
      have g: "os_grab h = (True, h1)" "os_grab h1 = (True, h2)" using grabs True by simp_all
      obtain r' qs where r': "?set = Some (st, r', h')" "request_ok r'" "parameters r' = Some qs"
        "parameter_map qs = (if st = STATUS_SUCCESS
         then (parameter_map ps)(k \<mapsto> \<lparr>ap_name = Some (take IOT_NAME_MAX_LEN name),
           ap_data = d, ap_type = PARAMETER_OUT\<rparr>) else parameter_map ps)"
        using parameter_set_new[OF ok ps fresh(1) fresh(2)[unfolded k] fresh(3) g arg] k by blast
      show ?thesis unfolding read_def[symmetric] using fresh True arg r' reads[OF r'(2,3), of h']
        by (intro exI[of _ st] exI[of _ r'] exI[of _ h']) auto
    next
      case False
      show ?thesis
      proof (cases "array_ok \<and> rq_parameter r \<noteq> Some []")
        case True
        then show ?thesis using set False fresh by simp
      next
        case keep: False
        then have "?set = Some (STATUS_NO_MEMORY, r, h2)" using set False by auto
        then show ?thesis unfolding read_def[symmetric] using fresh False keep ok ps reads[OF ok ps, of h2]
          by (intro exI[of _ STATUS_NO_MEMORY] exI[of _ r] exI[of _ h2]) auto
      qed
    qed
  qed
qed

lemma example_request_ok: "request_ok example_request"
  by (simp add: request_ok_def example_parameters named_def casekey_def tolower_def char_of_def bit_0)
    (simp add: example_request_def request_zero_def example_parameter_def tolower_def char_of_def bit_0)

text \<open>A new parameter for which there is memory, and one for whose name there is none.\<close>

theorem request_parameter_set_witness:
  "(\<exists>r' h' qs d. iot_action_request_parameter_set_args (empty_heap\<lparr>allocator := [Some 8, Some 16]\<rparr>) example_request
       (Some ''D'') TYPE_INT8 (AInt 5) = Some (STATUS_SUCCESS, r', h') \<and> request_ok r' \<and> parameters r' = Some qs \<and>
     parameter_map qs ''d'' = Some \<lparr>ap_name = Some ''D'', ap_data = d, ap_type = PARAMETER_OUT\<rparr> \<and>
     parameter_map qs ''b'' = Some (example_parameter ''b'' PARAMETER_OUT)) \<and>
   (\<exists>h'. iot_action_request_parameter_set_args (empty_heap\<lparr>allocator := [Some 8, None]\<rparr>) example_request
       (Some ''D'') TYPE_INT8 (AInt 5) = Some (STATUS_NO_MEMORY, example_request\<lparr>rq_parameter := None\<rparr>, h'))"
proof -
  let ?ps = "[example_parameter ''a'' PARAMETER_IN, example_parameter ''b'' PARAMETER_OUT,
      example_parameter ''c'' PARAMETER_IN]"
  have defd: "iot_common_arg_set True TYPE_INT8 (AInt 5) h \<noteq> None" for h
    by (simp add: iot_common_arg_set_def arg_set_scalar_def Let_def data_zero_def)
  have stored: "st = STATUS_SUCCESS" if "iot_common_arg_set True TYPE_INT8 (AInt 5) h = Some (st, d, h')" for h st d h'
    using that by (simp add: iot_common_arg_set_def arg_set_scalar_def Let_def data_zero_def)
  have key: "''d'' = casekey IOT_NAME_MAX_LEN ''D''" by (simp add: casekey_def tolower_def char_of_def bit_0)
  have bad: "\<not> name_bad ''D''" by (simp add: name_bad_def)
  have m: "parameter_map ?ps ''d'' = None" "parameter_map ?ps ''b'' = Some (example_parameter ''b'' PARAMETER_OUT)"
    "rq_parameter example_request \<noteq> Some []"
    by (simp_all add: parameter_map_def example_parameter_def casekey_def tolower_def example_request_def)
  let ?h = "empty_heap\<lparr>allocator := [Some 8, Some 16]\<rparr>" and ?g = "empty_heap\<lparr>allocator := [Some 8, None]\<rparr>"
  have grabs: "os_grab ?h = (True, empty_heap\<lparr>allocator := [Some 16]\<rparr>)"
    "os_grab (empty_heap\<lparr>allocator := [Some 16]\<rparr>) = (True, empty_heap)"
    "os_grab ?g = (True, empty_heap\<lparr>allocator := [None]\<rparr>)"
    "os_grab (empty_heap\<lparr>allocator := [None]\<rparr>) = (False, empty_heap)"
    by (simp_all add: os_grab_def empty_heap_def)
  note set = request_parameter_set[OF example_request_ok example_parameters defd key, of ?h True _ True empty_heap
      "\<lambda>_. 0" "\<lambda>_. 0" "[]" False TYPE_INT8 True, OF grabs(1,2)]
  note lost = request_parameter_set[OF example_request_ok example_parameters defd key, of ?g True _ False empty_heap
      "\<lambda>_. 0" "\<lambda>_. 0" "[]" False TYPE_INT8 True, OF grabs(3,4)]
  obtain st r' h' qs d where new: "iot_action_request_parameter_set_args ?h example_request (Some ''D'') TYPE_INT8 (AInt 5) =
      Some (st, r', h')" "request_ok r'" "parameters r' = Some qs"
    "iot_common_arg_set True TYPE_INT8 (AInt 5) empty_heap = Some (st, d, h')"
    "parameter_map qs = (if st = STATUS_SUCCESS
       then (parameter_map ?ps)(''d'' \<mapsto> \<lparr>ap_name = Some (take IOT_NAME_MAX_LEN ''D''), ap_data = d, ap_type = PARAMETER_OUT\<rparr>)
       else parameter_map ?ps)"
    using set unfolding m(1) by (simp add: bad) blast
  have "parameter_map qs ''d'' = Some \<lparr>ap_name = Some ''D'', ap_data = d, ap_type = PARAMETER_OUT\<rparr>"
    "parameter_map qs ''b'' = Some (example_parameter ''b'' PARAMETER_OUT)"
    using new(5) stored[OF new(4)] m(2) by simp_all
  moreover have "\<exists>h'. iot_action_request_parameter_set_args ?g example_request (Some ''D'') TYPE_INT8 (AInt 5) =
      Some (STATUS_NO_MEMORY, example_request\<lparr>rq_parameter := None\<rparr>, h')"
    using lost unfolding m(1) by (simp add: bad m(3))
  ultimately show ?thesis using new(1-3) stored[OF new(4)] by blast
qed

end
