(* ===== verification/Action.thy ===== *)
theory Action
  imports Request
begin

text \<open>
  Actions (\<open>src/src/api/iot_action.c\<close>): allocation in a table ordered by name, options, the
  declared parameters, registration of a callback or a command with the plug-ins, and release.
  The library pointer is modelled by whether it is set, names and arrays are kept by value; an
  array is \<open>None\<close> once it is released while its count is kept.
\<close>

abbreviation IOT_ACTION_MAX :: nat where "IOT_ACTION_MAX \<equiv> 255"

abbreviation ACTION_NO_RETURN :: u8 where "ACTION_NO_RETURN \<equiv> 0x01"
abbreviation ACTION_EXCLUSIVE_APP :: u8 where "ACTION_EXCLUSIVE_APP \<equiv> 0x02"
abbreviation ACTION_NO_TIME_LIMIT :: u8 where "ACTION_NO_TIME_LIMIT \<equiv> 0x10"

text \<open>A callback may read and change the request it is called with, the memory and the world.\<close>

type_synonym 's action_callback =
  "iot_action_request \<Rightarrow> heap \<Rightarrow> 's \<Rightarrow> (iot_status \<times> iot_action_request \<times> heap \<times> 's) option"

record 's iot_action =
  ac_lib :: bool
  ac_name :: "string option"
  ac_flags :: u8
  ac_state :: iot_item_state
  ac_callback :: "'s action_callback option"
  ac_command :: "string option"
  ac_option :: "iot_option list option"
  ac_parameter :: "iot_action_parameter list option"
  ac_time_limit :: u32
  ac_in_heap :: bool

definition action_zero :: "'s iot_action" where
  "action_zero = \<lparr>ac_lib = False, ac_name = None, ac_flags = 0, ac_state = DEREGISTERED,
     ac_callback = None, ac_command = None, ac_option = Some [], ac_parameter = Some [],
     ac_time_limit = 0, ac_in_heap = False\<rparr>"

section \<open>Allocating\<close>

definition action_greater :: "'s iot_action registry \<Rightarrow> string \<Rightarrow> nat \<Rightarrow> bool option" where
  "action_greater R name i = do {
     p \<leftarrow> load (slots R) i;
     a \<leftarrow> mem R p;
     nm \<leftarrow> ac_name a;
     Some (0 < strncasecmp name nm IOT_NAME_MAX_LEN)
   }"

definition iot_action_allocate ::
    "'s iot_action registry \<Rightarrow> heap \<Rightarrow> string option \<Rightarrow> (ptr \<times> 's iot_action registry \<times> heap) option" where
  "iot_action_allocate R h name =
     table_allocate IOT_ACTION_MAX action_greater
       (\<lambda>name is_in_heap. action_zero\<lparr>ac_lib := True, ac_name := Some name, ac_in_heap := is_in_heap\<rparr>)
       action_zero R h name"

section \<open>Simple settings\<close>

text \<open>A function on an action that needs it not to be NULL.\<close>

definition with_action ::
    "'s iot_action registry \<Rightarrow> ptr \<Rightarrow> ('s iot_action \<Rightarrow> (iot_status \<times> 's iot_action \<times> 'b) option) \<Rightarrow> 'b \<Rightarrow>
     (iot_status \<times> 's iot_action registry \<times> 'b) option" where
  "with_action R action k b =
     (if action = NULL then Some (STATUS_BAD_PARAMETER, R, b)
      else do {
        a \<leftarrow> mem R action;
        (result, a, b) \<leftarrow> k a;
        Some (result, poke action (Some a) R, b)
      })"

definition iot_action_flags_set ::
    "'s iot_action registry \<Rightarrow> ptr \<Rightarrow> u8 \<Rightarrow> (iot_status \<times> 's iot_action registry \<times> unit) option" where
  "iot_action_flags_set R action fl =
     with_action R action (\<lambda>a. Some (STATUS_SUCCESS, a\<lparr>ac_flags := fl\<rparr>, ())) ()"

definition iot_action_time_limit_set ::
    "'s iot_action registry \<Rightarrow> ptr \<Rightarrow> u32 \<Rightarrow> (iot_status \<times> 's iot_action registry \<times> unit) option" where
  "iot_action_time_limit_set R action duration =
     with_action R action (\<lambda>a. Some (STATUS_SUCCESS,
       a\<lparr>ac_flags := if duration = 0 then or (ac_flags a) ACTION_NO_TIME_LIMIT
                     else and (ac_flags a) (not ACTION_NO_TIME_LIMIT),
         ac_time_limit := duration\<rparr>, ())) ()"

section \<open>Options\<close>

definition iot_action_option_get ::
    "(string \<Rightarrow> int) \<Rightarrow> (string \<Rightarrow> int) \<Rightarrow> heap \<Rightarrow> 's iot_action registry \<Rightarrow> ptr \<Rightarrow> string option \<Rightarrow>
     bool \<Rightarrow> iot_type \<Rightarrow> bool \<Rightarrow> (iot_status \<times> arg_out option) option" where
  "iot_action_option_get f g h R action name convert type dest =
     (case name of
        None \<Rightarrow> Some (STATUS_BAD_PARAMETER, None)
      | Some name \<Rightarrow>
          if action = NULL then Some (STATUS_BAD_PARAMETER, None)
          else do {
            a \<leftarrow> mem R action;
            es \<leftarrow> ac_option a;
            option_get_loop f g h es name convert type dest
          })"

text \<open>The option to update is looked up without regard to case.\<close>

definition iot_action_option_set_data ::
    "'s iot_action registry \<Rightarrow> heap \<Rightarrow> ptr \<Rightarrow> string \<Rightarrow> iot_data \<Rightarrow>
     (iot_status \<times> 's iot_action registry \<times> heap) option" where
  "iot_action_option_set_data R h action name data =
     with_action R action (\<lambda>a. do {
       es \<leftarrow> ac_option a;
       (result, es, h) \<leftarrow> option_set_data (\<lambda>x y. map tolower x = map tolower y) h es name data;
       Some (result, a\<lparr>ac_option := Some es\<rparr>, h)
     }) h"

definition iot_action_option_set ::
    "'s iot_action registry \<Rightarrow> heap \<Rightarrow> ptr \<Rightarrow> string option \<Rightarrow> iot_type \<Rightarrow> va_arg \<Rightarrow>
     (iot_status \<times> 's iot_action registry \<times> heap) option" where
  "iot_action_option_set R h action name type args =
     (case name of
        None \<Rightarrow> Some (STATUS_BAD_PARAMETER, R, h)
      | Some name \<Rightarrow>
          if action = NULL then Some (STATUS_BAD_PARAMETER, R, h)
          else do {
            (result, data, h) \<leftarrow> iot_common_arg_set True type args h;
            (if result = STATUS_SUCCESS then iot_action_option_set_data R h action name data
             else Some (result, R, h))
          })"

definition iot_action_option_set_raw ::
    "'s iot_action registry \<Rightarrow> heap \<Rightarrow> ptr \<Rightarrow> string option \<Rightarrow> u64 \<Rightarrow> ptr \<Rightarrow>
     (iot_status \<times> 's iot_action registry \<times> heap) option" where
  "iot_action_option_set_raw R h action name len p =
     iot_action_option_set R h action name TYPE_RAW (ARaw (Some (len, p)))"

section \<open>Declared parameters\<close>

text \<open>
  A required parameter is also one of its direction. Of the new array element only the name, the
  type and the type and storage of its data are written: \<open>junk\<close> is what it held before.
\<close>

definition parameter_type :: "u8 \<Rightarrow> u8" where
  "parameter_type param_type =
     (let t = (if and param_type PARAMETER_IN_REQUIRED \<noteq> 0 then or param_type PARAMETER_IN else param_type)
      in if and t PARAMETER_OUT_REQUIRED \<noteq> 0 then or t PARAMETER_OUT else t)"

fun parameter_used :: "iot_action_parameter list \<Rightarrow> string \<Rightarrow> bool option" where
  "parameter_used [] name = Some False"
| "parameter_used (p # ps) name = do {
     nm \<leftarrow> ap_name p;
     (if strncasecmp nm name IOT_NAME_MAX_LEN = 0 then Some True else parameter_used ps name)
   }"

definition iot_action_parameter_add ::
    "iot_data \<Rightarrow> 's iot_action registry \<Rightarrow> heap \<Rightarrow> ptr \<Rightarrow> string option \<Rightarrow> u8 \<Rightarrow> iot_type \<Rightarrow>
     (iot_status \<times> 's iot_action registry \<times> heap) option" where
  "iot_action_parameter_add junk R h action name param_type data_type =
     (case name of
        None \<Rightarrow> Some (STATUS_BAD_PARAMETER, R, h)
      | Some name \<Rightarrow> with_action R action (\<lambda>a.
          if name_bad name then Some (STATUS_BAD_REQUEST, a, h)
          else do {
            ps \<leftarrow> ac_parameter a;
            (if length ps < IOT_PARAMETER_MAX
             then do {
               taken \<leftarrow> parameter_used ps name;
               (if taken then Some (STATUS_BAD_REQUEST, a, h)
                else do {
                  let (ok, h) = os_grab h;
                  let (ok, h) = (if ok then os_grab h else (False, h));
                  let p = \<lparr>ap_name = Some (take IOT_NAME_MAX_LEN name),
                    ap_data = junk\<lparr>dtype := data_type, heap_storage := NULL\<rparr>,
                    ap_type = parameter_type param_type\<rparr>;
                  Some (if ok then (STATUS_SUCCESS, a\<lparr>ac_parameter := Some (ps @ [p])\<rparr>, h)
                        else (STATUS_NO_MEMORY, a, h))
                })
             }
             else Some (STATUS_FULL, a, h))
          }) h)"

section \<open>Registering\<close>

definition iot_action_register ::
    "(string \<Rightarrow> int) \<Rightarrow> (string \<Rightarrow> int) \<Rightarrow> 's iot_lib \<Rightarrow> 's iot_action registry \<Rightarrow> ptr \<Rightarrow> bool \<Rightarrow> u32 \<Rightarrow> 's \<Rightarrow>
     (iot_status \<times> u8 option \<times> 's iot_action registry \<times> 's iot_lib \<times> 's) option" where
  "iot_action_register f g lib R action txn max_time_out s =
     (if action = NULL then Some (STATUS_BAD_PARAMETER, None, R, lib, s)
      else do {
        a \<leftarrow> mem R action;
        (if ac_lib a
         then do {
           (result, tx, lib, s) \<leftarrow> perform_op f g lib txn (Some max_time_out)
             OPERATION_ACTION_REGISTER action ValueNone None s;
           let state = (if result = STATUS_SUCCESS then REGISTERED else REGISTER_PENDING);
           Some (result, tx, poke action (Some (a\<lparr>ac_state := state\<rparr>)) R, lib, s)
         }
         else Some (STATUS_BAD_PARAMETER, None, R, lib, s))
      })"

definition iot_action_register_callback ::
    "(string \<Rightarrow> int) \<Rightarrow> (string \<Rightarrow> int) \<Rightarrow> 's iot_lib \<Rightarrow> 's iot_action registry \<Rightarrow> ptr \<Rightarrow>
     's action_callback option \<Rightarrow> bool \<Rightarrow> u32 \<Rightarrow> 's \<Rightarrow>
     (iot_status \<times> u8 option \<times> 's iot_action registry \<times> 's iot_lib \<times> 's) option" where
  "iot_action_register_callback f g lib R action func txn max_time_out s =
     (if action = NULL then Some (STATUS_BAD_PARAMETER, None, R, lib, s)
      else do {
        a \<leftarrow> mem R action;
        let R = poke action (Some (a\<lparr>ac_command := None, ac_callback := func\<rparr>)) R;
        iot_action_register f g lib R action txn max_time_out s
      })"

definition iot_action_register_command ::
    "(string \<Rightarrow> int) \<Rightarrow> (string \<Rightarrow> int) \<Rightarrow> 's iot_lib \<Rightarrow> 's iot_action registry \<Rightarrow> heap \<Rightarrow> ptr \<Rightarrow>
     string option \<Rightarrow> bool \<Rightarrow> u32 \<Rightarrow> 's \<Rightarrow>
     (iot_status \<times> u8 option \<times> 's iot_action registry \<times> heap \<times> 's iot_lib \<times> 's) option" where
  "iot_action_register_command f g lib R h action command txn max_time_out s =
     (if action = NULL then Some (STATUS_BAD_PARAMETER, None, R, h, lib, s)
      else do {
        a \<leftarrow> mem R action;
        (case command of
           Some command \<Rightarrow>
             if ac_lib a
             then (let (ok, h) = os_grab h in
               (if ok
                then do {
                  let R = poke action (Some (a\<lparr>ac_command := Some (take PATH_MAX command),
                    ac_callback := None\<rparr>)) R;
                  (result, tx, R, lib, s) \<leftarrow> iot_action_register f g lib R action txn max_time_out s;
                  Some (result, tx, R, h, lib, s)
                }
                else Some (STATUS_NO_MEMORY, None, R, h, lib, s)))
             else Some (STATUS_BAD_PARAMETER, None, R, h, lib, s)
         | None \<Rightarrow> Some (STATUS_BAD_PARAMETER, None, R, h, lib, s))
      })"

definition iot_action_deregister ::
    "(string \<Rightarrow> int) \<Rightarrow> (string \<Rightarrow> int) \<Rightarrow> 's iot_lib \<Rightarrow> 's iot_action registry \<Rightarrow> ptr \<Rightarrow> bool \<Rightarrow> u32 \<Rightarrow> 's \<Rightarrow>
     (iot_status \<times> u8 option \<times> 's iot_action registry \<times> 's iot_lib \<times> 's) option" where
  "iot_action_deregister f g lib R action txn max_time_out s =
     (if action = NULL then Some (STATUS_BAD_PARAMETER, None, R, lib, s)
      else do {
        a \<leftarrow> mem R action;
        (if \<not> ac_lib a then Some (STATUS_NOT_INITIALIZED, None, R, lib, s)
         else if ac_state a = DEREGISTERED then Some (STATUS_SUCCESS, None, R, lib, s)
         else do {
           (result, tx, lib, s) \<leftarrow> perform_op f g lib txn (Some max_time_out)
             OPERATION_ACTION_DEREGISTER action ValueNone None s;
           let state = (if result = STATUS_SUCCESS then DEREGISTERED else DEREGISTER_PENDING);
           Some (result, tx, poke action (Some (a\<lparr>ac_state := state\<rparr>)) R, lib, s)
         })
      })"

definition iot_action_check ::
    "(string \<Rightarrow> int) \<Rightarrow> (string \<Rightarrow> int) \<Rightarrow> 's iot_lib \<Rightarrow> u32 \<Rightarrow> 's \<Rightarrow> (iot_status \<times> 's iot_lib \<times> 's) option" where
  "iot_action_check f g lib max_time_out s = do {
     (result, _, lib, s) \<leftarrow> perform_op f g lib False (Some max_time_out)
       OPERATION_ACTION_CHECK NULL ValueNone None s;
     Some (result, lib, s)
   }"

text \<open>An array that is released while its count stays, if there was one.\<close>

definition released :: "'b list \<Rightarrow> 'b list option" where
  "released xs = (if xs = [] then Some [] else None)"

text \<open>An action that cannot be deregistered stays. One of the stack is offered again.\<close>

definition iot_action_free ::
    "(string \<Rightarrow> int) \<Rightarrow> (string \<Rightarrow> int) \<Rightarrow> 's iot_lib \<Rightarrow> 's iot_action registry \<Rightarrow> heap \<Rightarrow> ptr \<Rightarrow> u32 \<Rightarrow> 's \<Rightarrow>
     (iot_status \<times> 's iot_action registry \<times> heap \<times> 's iot_lib \<times> 's) option" where
  "iot_action_free f g lib R h action max_time_out s =
     (if action = NULL then Some (STATUS_BAD_PARAMETER, R, h, lib, s)
      else do {
        a \<leftarrow> mem R action;
        (if ac_lib a
         then do {
           (result, _, R, lib, s) \<leftarrow> iot_action_deregister f g lib R action False max_time_out s;
           (if result = STATUS_SUCCESS
            then do {
              a \<leftarrow> mem R action;
              let i = table_index action R;
              (if i < used R
               then do {
                 ps \<leftarrow> ac_parameter a;
                 h \<leftarrow> free_parameter_data ps h;
                 es \<leftarrow> ac_option a;
                 h \<leftarrow> free_option_data es h;
                 R \<leftarrow> (if ac_in_heap a then table_remove i NULL (poke action None R)
                      else table_remove i action (poke action (Some (a\<lparr>ac_lib := False,
                        ac_option := released es, ac_name := None, ac_parameter := released ps,
                        ac_command := None\<rparr>)) R));
                 Some (STATUS_SUCCESS, R, h, lib, s)
               }
               else Some (STATUS_NOT_FOUND, R, h, lib, s))
            }
            else Some (result, R, h, lib, s))
         }
         else Some (STATUS_NOT_INITIALIZED, R, h, lib, s))
      })"

section \<open>The table of actions\<close>

definition action_name :: "'s iot_action \<Rightarrow> string option" where
  "action_name a = map_option (casekey IOT_NAME_MAX_LEN) (ac_name a)"

abbreviation action_ok :: "ptr set \<Rightarrow> 's iot_action registry \<Rightarrow> bool" where
  "action_ok \<equiv> pool_ok action_name ac_lib ac_in_heap IOT_ACTION_MAX"

lemma action_greater_spec:
  assumes ok: "registry_ok action_name IOT_ACTION_MAX R" and i: "i < used R" and p: "p \<notin> set (items R)"
  shows "action_greater (poke p a R) name i =
    Some (table_keys action_name R ! i < casekey IOT_NAME_MAX_LEN name)"
proof -
  let ?q = "items R ! i"
  have q: "?q \<in> set (items R)" using i registry_okD(8)[OF ok] by simp
  then obtain it nm where it: "mem R ?q = Some it" "ac_name it = Some nm"
    using items_live[OF ok q] by (auto simp: action_name_def)
  have "slots R ! i = ?q" using i by (simp add: items_def)
  moreover have "i < length (slots R)" using i registry_okD(1,2)[OF ok] by simp
  moreover have "?q \<noteq> p" using p q by blast
  moreover have "table_keys action_name R ! i = casekey IOT_NAME_MAX_LEN nm"
    using i it registry_okD(8)[OF ok] by (simp add: table_keys_def item_key_def action_name_def)
  ultimately show ?thesis using it by (simp add: action_greater_def load_def poke_def)
qed

lemma action_allocate_spec:
  assumes ok: "action_ok stack R"
  obtains (none) S h' where "iot_action_allocate R h name = Some (NULL, S, h')"
      "action_ok stack S" "items S = items R"
  | (stray) p S h' where "iot_action_allocate R h name = Some (p, S, h')" "p \<noteq> NULL"
      "action_ok stack S" "items S = items R" "p \<in> stack" "mem S p = Some action_zero"
  | (new) p S h' nm a where "iot_action_allocate R h name = Some (p, S, h')" "p \<noteq> NULL"
      "action_ok stack S" "p \<notin> set (items R)" "set (items S) = insert p (set (items R))"
      "name = Some nm" "nm \<noteq> []" "mem S = (mem R)(p \<mapsto> a)"
      "a = action_zero\<lparr>ac_lib := True, ac_name := Some (take IOT_NAME_MAX_LEN nm), ac_in_heap := p \<notin> stack\<rparr>"
proof -
  let ?mk = "\<lambda>name is_in_heap. action_zero\<lparr>ac_lib := True, ac_name := Some name, ac_in_heap := is_in_heap\<rparr>"
  have mk: "action_name (?mk (take IOT_NAME_MAX_LEN nm) b) = Some (casekey IOT_NAME_MAX_LEN nm)"
    "ac_lib (?mk nm b)" "ac_in_heap (?mk nm b) \<longleftrightarrow> b" "\<not> ac_lib action_zero" for nm b
    by (simp_all add: action_name_def action_zero_def)
  show thesis
  proof (rule table_allocate_spec[where gt = action_greater and k = "casekey IOT_NAME_MAX_LEN" and mk = ?mk
        and zero = action_zero and h = h and name = name, OF ok])
    fix R p a nm i
    assume "registry_ok action_name IOT_ACTION_MAX R" "i < used R" "p \<notin> set (items R)"
    then show "action_greater (poke p a R) nm i =
        Some (table_keys action_name R ! i < casekey IOT_NAME_MAX_LEN nm)"
      by (rule action_greater_spec)
  qed (rule mk | erule (2) none[unfolded iot_action_allocate_def]
      | erule (5) stray[unfolded iot_action_allocate_def]
      | erule (7) new[unfolded iot_action_allocate_def], rule refl)+
qed

text \<open>Functions that keep the name, the library and the place of an action keep the table.\<close>

definition action_changed :: "'s iot_action registry \<Rightarrow> ptr \<Rightarrow> 's iot_action registry \<Rightarrow> bool" where
  "action_changed R p S \<longleftrightarrow> S = R \<or> (\<exists>a a'. mem R p = Some a \<and> S = poke p (Some a') R \<and>
     ac_name a' = ac_name a \<and> ac_lib a' = ac_lib a \<and> ac_in_heap a' = ac_in_heap a)"

lemma action_changed_ok:
  assumes "action_ok stack R" and "action_changed R p S"
  shows "action_ok stack S" "items S = items R"
  using assms pool_update[OF assms(1), of p] by (auto simp: action_changed_def action_name_def)

lemma action_changed_refl [simp]: "action_changed R p R"
  by (simp add: action_changed_def)

lemma action_changed_trans: "action_changed R p S \<Longrightarrow> action_changed S p T \<Longrightarrow> action_changed R p T"
  by (auto simp: action_changed_def poke_def)

lemma with_action_changed:
  assumes "with_action R p k b = Some (r, S, b')"
    and "\<And>a r a' b'. k a = Some (r, a', b') \<Longrightarrow>
      ac_name a' = ac_name a \<and> ac_lib a' = ac_lib a \<and> ac_in_heap a' = ac_in_heap a"
  shows "action_changed R p S"
  using assms by (fastforce simp: with_action_def action_changed_def split: if_splits bind_splits)

named_theorems action_frames

lemma action_flags_frame [action_frames]: "iot_action_flags_set R p fl = Some (r, S, b) \<Longrightarrow> action_changed R p S"
  unfolding iot_action_flags_set_def by (erule with_action_changed) auto

lemma action_time_limit_frame [action_frames]:
  "iot_action_time_limit_set R p t = Some (r, S, b) \<Longrightarrow> action_changed R p S"
  unfolding iot_action_time_limit_set_def by (erule with_action_changed) auto

lemma action_option_set_frame [action_frames]:
  "iot_action_option_set_data R h p name data = Some (r, S, h') \<Longrightarrow> action_changed R p S"
  unfolding iot_action_option_set_data_def by (erule with_action_changed) (auto split: bind_splits)

lemma action_parameter_frame [action_frames]:
  "iot_action_parameter_add junk R h p name t d = Some (r, S, h') \<Longrightarrow> action_changed R p S"
  unfolding iot_action_parameter_add_def
  by (cases name) (auto simp: Let_def elim!: with_action_changed split: if_splits bind_splits prod.splits)

lemma action_register_frame [action_frames]:
  "iot_action_register f g lib R p txn m s = Some (r, tx, S, lib', s') \<Longrightarrow> action_changed R p S"
  by (auto simp: iot_action_register_def action_changed_def Let_def split: if_splits bind_splits)

lemma action_deregister_frame [action_frames]:
  "iot_action_deregister f g lib R p txn m s = Some (r, tx, S, lib', s') \<Longrightarrow> action_changed R p S"
  by (auto simp: iot_action_deregister_def action_changed_def Let_def split: if_splits bind_splits)

text \<open>Setting the callback or the command, and then registering.\<close>

lemma action_set_register:
  assumes "mem R p = Some a"
    and "iot_action_register f g lib (poke p (Some (a\<lparr>ac_command := c, ac_callback := func\<rparr>)) R) p txn m s =
      Some (r, tx, S, lib', s')"
  shows "action_changed R p S"
  by (rule action_changed_trans[OF _ action_register_frame[OF assms(2)]])
    (use assms(1) in \<open>auto simp: action_changed_def\<close>)

lemma action_register_callback_frame [action_frames]:
  "iot_action_register_callback f g lib R p func txn m s = Some (r, tx, S, lib', s') \<Longrightarrow> action_changed R p S"
  by (auto simp: iot_action_register_callback_def Let_def intro: action_set_register split: if_splits bind_splits)

lemma action_register_command_frame [action_frames]:
  "iot_action_register_command f g lib R h p command txn m s = Some (r, tx, S, h', lib', s') \<Longrightarrow> action_changed R p S"
  by (auto simp: iot_action_register_command_def Let_def intro: action_set_register
      split: if_splits bind_splits option.splits prod.splits)

text \<open>Releasing an action removes it, or leaves it when the plug-ins do not deregister it.\<close>

lemma action_free_spec:
  assumes ok: "action_ok stack R" and p: "p \<in> set (items R)"
    and run: "iot_action_free f g lib R h p m s = Some (r, S, h', lib', s')"
  shows "action_ok stack S \<and> (if r = STATUS_SUCCESS then set (items S) = set (items R) - {p} else items S = items R)"
proof -
  obtain a where a: "mem R p = Some a" using items_live[OF pool_okD(1)[OF ok] p] by blast
  have lib: "ac_lib a" using pool_okD(5)[OF ok p a] by blast
  have pz: "p \<noteq> NULL" using registry_okD(4)[OF pool_okD(1)[OF ok]] p by blast
  obtain r1 tx R1 lib1 s1 where d: "iot_action_deregister f g lib R p False m s = Some (r1, tx, R1, lib1, s1)"
    using run a lib pz by (auto simp: iot_action_free_def split: bind_splits)
  note R1 = action_changed_ok[OF ok action_deregister_frame[OF d]]
  show ?thesis
  proof (cases "r1 = STATUS_SUCCESS")
    case False
    then have "r = r1 \<and> S = R1" using run a lib pz d by (simp add: iot_action_free_def)
    then show ?thesis using R1 False by simp
  next
    case True
    have p1: "p \<in> set (items R1)" using p R1(2) by simp
    obtain a1 where a1: "mem R1 p = Some a1" using items_live[OF pool_okD(1)[OF R1(1)] p1] by blast
    let ?a = "a1\<lparr>ac_lib := False, ac_option := released (the (ac_option a1)), ac_name := None,
      ac_parameter := released (the (ac_parameter a1)), ac_command := None\<rparr>"
    have nl: "\<not> ac_lib ?a" by simp
    obtain S1 where S1: "table_remove (table_index p R1) (if ac_in_heap a1 then NULL else p)
        (poke p (if ac_in_heap a1 then None else Some ?a) R1) = Some S1"
      "action_ok stack S1" "set (items S1) = set (items R1) - {p}" "table_index p R1 < used R1"
      by (rule pool_remove[OF R1(1) p1 a1 nl])
    have "r = STATUS_SUCCESS \<and> S = S1"
      using run a lib pz d True a1 S1(1,4)
      by (cases "ac_in_heap a1") (auto simp: iot_action_free_def Let_def split: bind_splits)
    then show ?thesis using S1(2,3) R1(2) by simp
  qed
qed

section \<open>Actions as an ordered table\<close>

type_synonym 's action_state = "'s iot_action registry \<times> 's iot_lib \<times> 's"

inductive action_adds :: "'s action_state \<Rightarrow> ptr \<Rightarrow> 's action_state \<Rightarrow> bool" where
  "iot_action_allocate R h name = Some (p, S, h') \<Longrightarrow> p \<noteq> NULL \<Longrightarrow> mem S p = Some a \<Longrightarrow> ac_lib a \<Longrightarrow>
    action_adds (R, lib, s) p (S, lib, s)"

inductive action_removes :: "'s action_state \<Rightarrow> ptr \<Rightarrow> 's action_state \<Rightarrow> bool" where
  "p \<in> set (items R) \<Longrightarrow> iot_action_free f g lib R h p m s = Some (STATUS_SUCCESS, S, h', lib', s') \<Longrightarrow>
    action_removes (R, lib, s) p (S, lib', s')"

text \<open>Every other function, an allocation that adds nothing, and a release that is refused.\<close>

inductive action_keeps :: "'s action_state \<Rightarrow> 's action_state \<Rightarrow> bool" where
  allocate: "iot_action_allocate R h name = Some (p, S, h') \<Longrightarrow> p = NULL \<or> \<not> ac_lib (the (mem S p)) \<Longrightarrow>
    action_keeps (R, lib, s) (S, lib, s)"
| free: "p \<in> set (items R) \<Longrightarrow> iot_action_free f g lib R h p m s = Some (r, S, h', lib', s') \<Longrightarrow>
    r \<noteq> STATUS_SUCCESS \<Longrightarrow> action_keeps (R, lib, s) (S, lib', s')"
| option: "iot_action_option_set_data R h p name data = Some (r, S, h') \<Longrightarrow> action_keeps (R, lib, s) (S, lib, s)"
| param: "iot_action_parameter_add junk R h p nm t d = Some (r, S, h') \<Longrightarrow> action_keeps (R, lib, s) (S, lib, s)"
| fl: "iot_action_flags_set R p fl = Some (r, S, b) \<Longrightarrow> action_keeps (R, lib, s) (S, lib, s)"
| limit: "iot_action_time_limit_set R p dur = Some (r, S, b) \<Longrightarrow> action_keeps (R, lib, s) (S, lib, s)"
| callback: "iot_action_register_callback f g lib R p func txn m s = Some (r, tx, S, lib', s') \<Longrightarrow>
    action_keeps (R, lib, s) (S, lib', s')"
| command: "iot_action_register_command f g lib R h p cmd txn m s = Some (r, tx, S, h', lib', s') \<Longrightarrow>
    action_keeps (R, lib, s) (S, lib', s')"
| deregister: "iot_action_deregister f g lib R p txn m s = Some (r, tx, S, lib', s') \<Longrightarrow>
    action_keeps (R, lib, s) (S, lib', s')"

definition action_key :: "'s action_state \<Rightarrow> ptr \<Rightarrow> string" where
  "action_key t p = the (item_key action_name (fst t) p)"

lemma action_adds_spec:
  assumes "action_adds t p u" and "action_ok stack (fst t)"
  shows "action_ok stack (fst u) \<and> p \<notin> set (items (fst t)) \<and>
    set (items (fst u)) = insert p (set (items (fst t)))"
  using assms
proof cases
  case (1 R h name S h' a lib s)
  have ok: "action_ok stack R" using assms(2) 1 by simp
  show ?thesis
    by (rule action_allocate_spec[OF ok, of h name]) (use 1 in \<open>auto simp: action_zero_def\<close>)
qed

lemma action_removes_spec:
  assumes "action_removes t p u" and "action_ok stack (fst t)"
  shows "action_ok stack (fst u) \<and> p \<in> set (items (fst t)) \<and>
    set (items (fst u)) = set (items (fst t)) - {p}"
  using assms
proof cases
  case (1 R f g lib h m s S h' lib' s')
  then show ?thesis using action_free_spec[OF _ 1(3,4), of stack] assms(2) by simp
qed

lemma action_keeps_spec:
  assumes "action_keeps t u" and "action_ok stack (fst t)"
  shows "action_ok stack (fst u) \<and> items (fst u) = items (fst t)"
proof -
  have changed: "action_ok stack S \<and> items S = items R" if "action_changed R p S" "action_ok stack R" for R p S
    using action_changed_ok[OF that(2,1)] by simp
  show ?thesis
    using assms(1)
  proof cases
    case (allocate R h name p S h' lib s)
    have ok: "action_ok stack R" using assms(2) allocate by simp
    have "action_ok stack S \<and> items S = items R"
      by (rule action_allocate_spec[OF ok, of h name]) (use allocate(3,4) in auto)
    then show ?thesis using allocate by simp
  next
    case (free p R f g lib h m s r S h' lib' s')
    then show ?thesis using action_free_spec[OF _ free(3,4), of stack] assms(2) by simp
  qed (use assms(2) in \<open>auto dest!: action_frames intro!: changed\<close>)
qed

interpretation action_table: ordered_table "\<lambda>t. action_ok stack (fst t)" "\<lambda>t. items (fst t)"
  action_key IOT_ACTION_MAX action_adds action_removes action_keeps for stack
  unfolding action_key_def[abs_def]
  by (rule pool_ordered_table) (erule (1) action_adds_spec action_removes_spec action_keeps_spec)+

section \<open>Properties\<close>

text \<open>Three objects on the stack, all free.\<close>

definition example_actions :: "unit iot_action registry" where
  "example_actions = \<lparr>mem = (\<lambda>p. if p \<in> set [1, 2, 3] then Some action_zero else None),
     slots = [1, 2, 3] @ replicate (IOT_ACTION_MAX - 3) NULL, used = 0\<rparr>"

lemma example_actions_initial: "pool_initial ac_lib IOT_ACTION_MAX [1, 2, 3] example_actions"
  by (simp add: pool_initial_def example_actions_def action_zero_def)

text \<open>
  C10: actions follow their history: whatever sequence of allocations, releases, failed
  allocations and refused releases, settings of flags, time limits, options and parameters,
  registrations and deregistrations runs from the initial table, the actions in use are exactly
  those the history leaves, without repetition, in name order and within capacity.
\<close>

theorem action_history:
  assumes "pool_initial ac_lib IOT_ACTION_MAX stack R"
    and "table_run action_adds action_removes action_keeps (R, lib, s) evs (S, lib', s')"
  shows "set (items S) = replay evs {} \<and> legal evs {} \<and> distinct (items S) \<and>
    sorted (map (action_key (S, lib', s')) (items S)) \<and> length (items S) \<le> IOT_ACTION_MAX"
  using action_table.run_table[OF assms(2)] action_table.run_replay[OF assms(2)]
    pool_initial_ok(1)[OF assms(1), of action_name ac_in_heap] pool_initial_ok(2)[OF assms(1)] by simp

theorem action_history_witness:
  "\<exists>S. table_run action_adds action_removes action_keeps
     (example_actions, example_plugin_lib, ()) [Added 1, Kept] (S, example_plugin_lib, ()) \<and> set (items S) = {1}"
proof -
  let ?h = "empty_heap\<lparr>allocator := [Some 8]\<rparr>"
  obtain S a where S: "iot_action_allocate example_actions ?h (Some ''reboot'') = Some (1, S, empty_heap)"
    "mem S 1 = Some a" "ac_lib a"
    by (simp add: iot_action_allocate_def table_allocate_def take_object_def load_def example_actions_def os_grab_def
        empty_heap_def poke_def table_insert_def place.simps memmove_def store_def)
  have add: "action_adds (example_actions, example_plugin_lib, ()) 1 (S, example_plugin_lib, ())"
    by (rule action_adds.intros[OF S(1) _ S(2,3)]) simp
  have "iot_action_allocate S empty_heap None = Some (NULL, S, empty_heap)"
    by (simp add: iot_action_allocate_def table_allocate_def)
  then have keep: "action_keeps (S, example_plugin_lib, ()) (S, example_plugin_lib, ())"
    by (rule action_keeps.allocate) simp
  have run: "table_run action_adds action_removes action_keeps
     (example_actions, example_plugin_lib, ()) [Added 1, Kept] (S, example_plugin_lib, ())"
    by (rule table_run.add, rule add, rule table_run.keep, rule keep, rule table_run.stop)
  from action_history[OF example_actions_initial run] run show ?thesis by auto
qed

text \<open>
  Declaring a parameter. A name with a forbidden character or one that is taken (up to case)
  is BAD_REQUEST, an eighth parameter is refused, and a lack of memory changes nothing.
  Otherwise the parameter is declared last under its name, with the given type of data, and a
  required input or output is also an input or output. The declared names stay distinct.
\<close>

theorem action_parameter_add:
  assumes p: "p \<noteq> NULL" "mem R p = Some a"
    and ps: "ac_parameter a = Some ps" "named ps" "length ps \<le> IOT_PARAMETER_MAX"
    and q_def: "q = \<lparr>ap_name = Some (take IOT_NAME_MAX_LEN name), ap_data = junk\<lparr>dtype := t, heap_storage := NULL\<rparr>,
    ap_type = parameter_type pt\<rparr>"
  shows "\<exists>st S h'. iot_action_parameter_add junk R h p (Some name) pt t = Some (st, S, h') \<and>
    (if name_bad name then st = STATUS_BAD_REQUEST
     else if length ps = IOT_PARAMETER_MAX then st = STATUS_FULL
     else if parameter_map ps (parameter_key q) \<noteq> None then st = STATUS_BAD_REQUEST
     else st \<in> {STATUS_SUCCESS, STATUS_NO_MEMORY}) \<and>
    mem S = (mem R)(p \<mapsto> if st = STATUS_SUCCESS then a\<lparr>ac_parameter := Some (ps @ [q])\<rparr> else a) \<and>
    (st = STATUS_SUCCESS \<longrightarrow> named (ps @ [q]) \<and> length (ps @ [q]) \<le> IOT_PARAMETER_MAX \<and>
       (and pt PARAMETER_IN_REQUIRED \<noteq> 0 \<longrightarrow> and (ap_type q) PARAMETER_IN \<noteq> 0) \<and>
       (and pt PARAMETER_OUT_REQUIRED \<noteq> 0 \<longrightarrow> and (ap_type q) PARAMETER_OUT \<noteq> 0))"
proof -
  have key: "parameter_key q = casekey IOT_NAME_MAX_LEN name" by (simp add: q_def)
  have taken: "parameter_used ps name = Some (parameter_map ps (parameter_key q) \<noteq> None)"
    using ps(2) unfolding key
  proof (induction ps)
    case (Cons r ps)
    then obtain nm where "ap_name r = Some nm" "named ps" by (auto simp: named_def)
    then show ?case using Cons.IH by (auto simp: parameter_map_def)
  qed (simp add: parameter_map_def)
  obtain ok h1 ok2 h2 where grab: "os_grab h = (ok, h1)" "os_grab h1 = (ok2, h2)" by fastforce
  have type: "and pt PARAMETER_IN_REQUIRED \<noteq> 0 \<longrightarrow> and (ap_type q) PARAMETER_IN \<noteq> 0"
    "and pt PARAMETER_OUT_REQUIRED \<noteq> 0 \<longrightarrow> and (ap_type q) PARAMETER_OUT \<noteq> 0"
  proof -
    have m: "and (or x y) y = y" "and (or (or x y) z) y = y" for x y z :: u8
      by (rule bit_eqI, auto simp: bit_simps)+
    show "and pt PARAMETER_IN_REQUIRED \<noteq> 0 \<longrightarrow> and (ap_type q) PARAMETER_IN \<noteq> 0"
      "and pt PARAMETER_OUT_REQUIRED \<noteq> 0 \<longrightarrow> and (ap_type q) PARAMETER_OUT \<noteq> 0"
      by (auto simp: q_def parameter_type_def Let_def m bit.conj_disj_distrib2)
  qed
  have new: "named (ps @ [q])" if "parameter_map ps (parameter_key q) = None"
    using parameter_map_add[OF ps(2) that] by (simp add: q_def)
  note add = iot_action_parameter_add_def with_action_def p ps(1) poke_def
  show ?thesis
    using taken grab type new ps(3)
    by (cases "name_bad name"; cases "length ps = IOT_PARAMETER_MAX"; cases "parameter_map ps (parameter_key q) = None";
        cases ok; cases ok2) (simp_all add: add q_def Let_def)
qed

theorem action_parameter_add_witness:
  "\<exists>st S h'. iot_action_parameter_add data_zero
      (poke 1 (Some (action_zero\<lparr>ac_parameter := Some [example_parameter ''a'' PARAMETER_IN]\<rparr>)) example_actions)
      empty_heap 1 (Some ''A'') PARAMETER_IN TYPE_BOOL = Some (st, S, h') \<and> st = STATUS_BAD_REQUEST"
proof -
  let ?a = "action_zero\<lparr>ac_parameter := Some [example_parameter ''a'' PARAMETER_IN]\<rparr>"
  let ?R = "poke 1 (Some ?a) example_actions"
  have "mem ?R 1 = Some ?a" "ac_parameter ?a = Some [example_parameter ''a'' PARAMETER_IN]"
    "named [example_parameter ''a'' PARAMETER_IN]" "length [example_parameter ''a'' PARAMETER_IN] \<le> 7"
    by (simp_all add: poke_def named_def example_parameter_def)
  from action_parameter_add[OF _ this refl, where name = "''A''" and junk = data_zero
      and t = TYPE_BOOL and pt = PARAMETER_IN and h = empty_heap]
  show ?thesis
    by (simp add: name_bad_def parameter_map_def example_parameter_def casekey_def tolower_def char_of_def bit_0) blast
qed

text \<open>What reading an option gives that is found.\<close>

definition option_read ::
    "(string \<Rightarrow> int) \<Rightarrow> (string \<Rightarrow> int) \<Rightarrow> heap \<Rightarrow> iot_data \<Rightarrow> bool \<Rightarrow> iot_type \<Rightarrow> bool \<Rightarrow>
     (iot_status \<times> arg_out option) option" where
  "option_read f g h d convert t dest = do {
     (result, out) \<leftarrow> iot_common_arg_get f g h (Some d) convert t dest;
     Some (result, if result = STATUS_NOT_FOUND then None else out)
   }"

abbreviation same_case :: "string \<Rightarrow> string \<Rightarrow> bool" where
  "same_case x y \<equiv> map tolower x = map tolower y"

definition options_named :: "iot_option list \<Rightarrow> bool" where
  "options_named es \<longleftrightarrow> (\<forall>e \<in> set es. \<exists>nm. opt_name e = Some nm \<and> nm \<noteq> [] \<and> length nm \<le> IOT_NAME_MAX_LEN)"

lemma option_get_append:
  assumes "options_named es" and "\<forall>e \<in> set es. the (opt_name e) \<noteq> name" and "length name \<le> IOT_NAME_MAX_LEN"
  shows "option_get_loop f g h (es @ ds) name convert t dest = option_get_loop f g h ds name convert t dest"
  using assms
proof (induction es)
  case (Cons e es)
  then obtain nm where "opt_name e = Some nm" "nm \<noteq> name" "length nm \<le> IOT_NAME_MAX_LEN"
    by (auto simp: options_named_def)
  then show ?case using Cons by (simp add: options_named_def)
qed simp

lemma option_index_append:
  assumes "options_named es" and "\<forall>e \<in> set es. \<not> same_case (the (opt_name e)) name"
  shows "option_index same_case (es @ ds) name i = option_index same_case ds name (i + length es)"
  using assms
proof (induction es arbitrary: i)
  case (Cons e es)
  then show ?case by (auto simp: options_named_def)
qed simp

lemma option_set_fresh:
  assumes es: "options_named es" "\<forall>e \<in> set es. \<not> same_case (the (opt_name e)) name"
    and set: "option_set_data same_case h es name data = Some (STATUS_SUCCESS, fs, h')"
  shows "fs = es @ [\<lparr>opt_name = Some (take IOT_NAME_MAX_LEN name), opt_data = data\<rparr>]"
  using set option_index_append[OF es, of "[]" 0]
  by (auto simp: option_set_data_def option_name_def option_zero_def Let_def nth_append
      split: if_splits bind_splits prod.splits bool.splits)

text \<open>
  Options of an action are stored without regard to case and read with regard to it. After a
  new option has been set, reading it under the same name gives its value; reading it under the
  name in another case finds nothing, although setting it under that name replaces the value that
  the first name reads, and adds no option.
\<close>

theorem action_option_case:
  assumes p: "p \<noteq> NULL" "mem R p = Some a" "ac_option a = Some es"
    and es: "options_named es" "\<forall>e \<in> set es. \<not> same_case (the (opt_name e)) name"
    and name: "name \<noteq> []" "length name \<le> IOT_NAME_MAX_LEN"
    and other: "same_case other name" "other \<noteq> name"
    and set: "iot_action_option_set_data R h p name data = Some (STATUS_SUCCESS, S, h')"
  shows "iot_action_option_get f g k S p (Some name) convert t dest = option_read f g k data convert t dest \<and>
    iot_action_option_get f g k S p (Some other) convert t dest = Some (STATUS_NOT_FOUND, None) \<and>
    (\<forall>k data2. os_free (heap_storage data) k \<noteq> None \<longrightarrow>
       (\<exists>T k'. iot_action_option_set_data S k p other data2 = Some (STATUS_SUCCESS, T, k') \<and>
          length (the (ac_option (the (mem T p)))) = length (the (ac_option (the (mem S p)))) \<and>
          iot_action_option_get f g k' T p (Some name) convert t dest = option_read f g k' data2 convert t dest))"
proof -
  let ?e = "\<lambda>d. \<lparr>opt_name = Some name, opt_data = d\<rparr>"
  obtain fs where fs: "option_set_data same_case h es name data = Some (STATUS_SUCCESS, fs, h')"
    "S = poke p (Some (a\<lparr>ac_option := Some fs\<rparr>)) R"
    using set p by (auto simp: iot_action_option_set_data_def with_action_def split: bind_splits)
  have fs_eq: "fs = es @ [?e data]" using option_set_fresh[OF es fs(1)] name by simp
  have live: "mem (poke p (Some x) Q) p = Some x" for x and Q :: "'a iot_action registry" by (simp add: poke_def)
  have len: "length other = length name" using map_eq_imp_length_eq[OF other(1)] .
  have skip: "\<forall>e \<in> set es. the (opt_name e) \<noteq> name" "\<forall>e \<in> set es. the (opt_name e) \<noteq> other"
    using es(2) other(1) by metis+
  have get: "iot_action_option_get f g k (poke p (Some (b\<lparr>ac_option := Some (es @ [?e d])\<rparr>)) Q) p (Some name) convert t dest =
      option_read f g k d convert t dest" for k d b and Q :: "'a iot_action registry"
    using p(1) live option_get_append[OF es(1) skip(1) name(2)]
    by (auto simp: iot_action_option_get_def option_read_def split: bind_splits)
  have miss: "iot_action_option_get f g k S p (Some other) convert t dest = Some (STATUS_NOT_FOUND, None)"
    using p(1) live option_get_append[OF es(1) skip(2)] name len other(2)
    by (simp add: iot_action_option_get_def fs(2) fs_eq)
  have again: "\<exists>T k'. iot_action_option_set_data S k p other data2 = Some (STATUS_SUCCESS, T, k') \<and>
      T = poke p (Some (a\<lparr>ac_option := Some (es @ [?e data2])\<rparr>)) R"
    if "os_free (heap_storage data) k \<noteq> None" for k data2
  proof -
    have "\<forall>e \<in> set es. \<not> same_case (the (opt_name e)) other" using es(2) other(1) by metis
    then have ix: "option_index same_case (es @ [?e data]) other 0 = Some (Some (length es))"
      using option_index_append[OF es(1)] other(1) by simp
    then show ?thesis using that p live name
      by (auto simp: iot_action_option_set_data_def with_action_def fs(2) fs_eq option_set_data_def option_name_def
          Let_def poke_def)
  qed
  show ?thesis
  proof (intro conjI allI impI)
    show "iot_action_option_get f g k S p (Some name) convert t dest = option_read f g k data convert t dest"
      unfolding fs(2) fs_eq by (rule get)
  next
    fix k data2 assume "os_free (heap_storage data) k \<noteq> None"
    from again[OF this, of data2] obtain T k' where
      T: "iot_action_option_set_data S k p other data2 = Some (STATUS_SUCCESS, T, k')"
        "T = poke p (Some (a\<lparr>ac_option := Some (es @ [?e data2])\<rparr>)) R" by blast
    have "iot_action_option_get f g k' T p (Some name) convert t dest = option_read f g k' data2 convert t dest"
      unfolding T(2) by (rule get)
    moreover have "length (the (ac_option (the (mem T p)))) = length (the (ac_option (the (mem S p))))"
      by (simp add: T(2) fs(2) fs_eq live)
    ultimately show "\<exists>T k'. iot_action_option_set_data S k p other data2 = Some (STATUS_SUCCESS, T, k') \<and>
        length (the (ac_option (the (mem T p)))) = length (the (ac_option (the (mem S p)))) \<and>
        iot_action_option_get f g k' T p (Some name) convert t dest = option_read f g k' data2 convert t dest"
      using T(1) by blast
  qed (rule miss)
qed

theorem action_option_case_witness:
  "\<exists>S h'. iot_action_option_set_data example_actions (empty_heap\<lparr>allocator := [Some 8, Some 9]\<rparr>) 1 ''Level''
      (data_zero\<lparr>dtype := TYPE_INT8, has_value := True\<rparr>) = Some (STATUS_SUCCESS, S, h') \<and>
    iot_action_option_get (\<lambda>_. 0) (\<lambda>_. 0) empty_heap S 1 (Some ''level'') False TYPE_INT8 True =
      Some (STATUS_NOT_FOUND, None)"
proof -
  have live: "mem example_actions 1 = Some action_zero" "ac_option action_zero = Some []"
    by (simp_all add: example_actions_def action_zero_def)
  obtain S h' where set: "iot_action_option_set_data example_actions (empty_heap\<lparr>allocator := [Some 8, Some 9]\<rparr>) 1
      ''Level'' (data_zero\<lparr>dtype := TYPE_INT8, has_value := True\<rparr>) = Some (STATUS_SUCCESS, S, h')"
  proof -
    have "option_set_data same_case (empty_heap\<lparr>allocator := [Some 8, Some 9]\<rparr>) [] ''Level'' d =
        Some (STATUS_SUCCESS, [\<lparr>opt_name = Some ''Level'', opt_data = d\<rparr>], empty_heap)" for d
      by (simp add: option_set_data_def option_name_def option_zero_def os_grab_def empty_heap_def data_zero_def
          os_free_def)
    then show ?thesis by (intro that) (simp add: iot_action_option_set_data_def with_action_def live)
  qed
  have "same_case ''level'' ''Level''" "''level'' \<noteq> ''Level''" by (simp_all add: tolower_def char_of_def bit_0)
  from action_option_case[OF _ live _ _ _ _ this set, where f = "\<lambda>_. 0" and g = "\<lambda>_. 0" and k = empty_heap
      and convert = False and t = TYPE_INT8 and dest = True] set
  show ?thesis by (simp add: options_named_def)
qed

lemma poke_poke [simp]: "poke p x (poke p y R) = poke p x R"
  by (simp add: poke_def)

text \<open>
  The life of an action in use. Registering a callback drops the command and registering a
  command drops the callback, so an action never has both; a command is cut to \<open>PATH_MAX\<close>, and
  without memory for it nothing changes and no plug-in is asked. Both then perform the
  registration, and the action is registered or pending by its outcome. An action that was never
  registered is deregistered without asking the plug-ins; otherwise it ends deregistered or
  pending. When deregistering fails the action is not released.
\<close>

theorem action_life:
  assumes p: "p \<noteq> NULL" "mem R p = Some a" "ac_lib a"
  defines "registered \<equiv> \<lambda>b (r, tx, lib', s'). (r, tx,
      poke p (Some (b\<lparr>ac_state := if r = STATUS_SUCCESS then REGISTERED else REGISTER_PENDING\<rparr>)) R, lib', s')"
  shows "iot_action_register_callback f g lib R p func txn m s =
      map_option (registered (a\<lparr>ac_command := None, ac_callback := func\<rparr>))
        (perform_op f g lib txn (Some m) OPERATION_ACTION_REGISTER p ValueNone None s) \<and>
    iot_action_register_command f g lib R h p (Some command) txn m s =
      (if fst (os_grab h)
       then map_option (\<lambda>x. case registered (a\<lparr>ac_command := Some (take PATH_MAX command), ac_callback := None\<rparr>) x of
            (r, tx, S, lib', s') \<Rightarrow> (r, tx, S, snd (os_grab h), lib', s'))
          (perform_op f g lib txn (Some m) OPERATION_ACTION_REGISTER p ValueNone None s)
       else Some (STATUS_NO_MEMORY, None, R, snd (os_grab h), lib, s)) \<and>
    iot_action_deregister f g lib R p txn m s =
      (if ac_state a = DEREGISTERED then Some (STATUS_SUCCESS, None, R, lib, s)
       else map_option (\<lambda>(r, tx, lib', s'). (r, tx, poke p (Some (a\<lparr>ac_state :=
              if r = STATUS_SUCCESS then DEREGISTERED else DEREGISTER_PENDING\<rparr>)) R, lib', s'))
            (perform_op f g lib txn (Some m) OPERATION_ACTION_DEREGISTER p ValueNone None s)) \<and>
    (\<forall>r tx S lib' s'. iot_action_deregister f g lib R p False m s = Some (r, tx, S, lib', s') \<longrightarrow> r \<noteq> STATUS_SUCCESS \<longrightarrow>
       iot_action_free f g lib R h p m s = Some (r, S, h, lib', s'))"
proof -
  have live: "mem (poke p (Some b) R) p = Some b" for b by (simp add: poke_def)
  let ?op = "perform_op f g lib txn (Some m) OPERATION_ACTION_REGISTER p ValueNone None s"
  have reg: "iot_action_register f g lib (poke p (Some b) R) p txn m s = map_option (registered b) ?op" if "ac_lib b" for b
    using p(1) that live
    by (cases ?op) (auto simp: iot_action_register_def registered_def Let_def)
  have "iot_action_register_callback f g lib R p func txn m s =
      map_option (registered (a\<lparr>ac_command := None, ac_callback := func\<rparr>)) ?op"
    using p reg[of "a\<lparr>ac_command := None, ac_callback := func\<rparr>"] by (simp add: iot_action_register_callback_def Let_def)
  moreover have "iot_action_register_command f g lib R h p (Some command) txn m s =
      (if fst (os_grab h)
       then map_option (\<lambda>x. case registered (a\<lparr>ac_command := Some (take PATH_MAX command), ac_callback := None\<rparr>) x of
            (r, tx, S, lib', s') \<Rightarrow> (r, tx, S, snd (os_grab h), lib', s')) ?op
       else Some (STATUS_NO_MEMORY, None, R, snd (os_grab h), lib, s))"
    using p reg[of "a\<lparr>ac_command := Some (take PATH_MAX command), ac_callback := None\<rparr>"]
    by (cases "os_grab h"; cases ?op) (auto simp: iot_action_register_command_def Let_def registered_def)
  moreover have "iot_action_deregister f g lib R p txn m s =
      (if ac_state a = DEREGISTERED then Some (STATUS_SUCCESS, None, R, lib, s)
       else map_option (\<lambda>(r, tx, lib', s'). (r, tx, poke p (Some (a\<lparr>ac_state :=
              if r = STATUS_SUCCESS then DEREGISTERED else DEREGISTER_PENDING\<rparr>)) R, lib', s'))
            (perform_op f g lib txn (Some m) OPERATION_ACTION_DEREGISTER p ValueNone None s))"
    using p by (cases "perform_op f g lib txn (Some m) OPERATION_ACTION_DEREGISTER p ValueNone None s")
      (auto simp: iot_action_deregister_def Let_def)
  moreover have "iot_action_free f g lib R h p m s = Some (r, S, h, lib', s')"
    if "iot_action_deregister f g lib R p False m s = Some (r, tx, S, lib', s')" "r \<noteq> STATUS_SUCCESS" for r tx S lib' s'
    using p that by (simp add: iot_action_free_def)
  ultimately show ?thesis by blast
qed

theorem action_life_witness:
  "\<exists>S. iot_action_register_command (\<lambda>_. 0) (\<lambda>_. 0) example_plugin_lib
      (poke 1 (Some (action_zero\<lparr>ac_lib := True\<rparr>)) example_actions) empty_heap 1 (Some ''reboot'') False 0 () =
    Some (STATUS_NO_MEMORY, None, S, empty_heap, example_plugin_lib, ())"
proof -
  let ?R = "poke 1 (Some (action_zero\<lparr>ac_lib := True\<rparr>)) example_actions"
  have "mem ?R 1 = Some (action_zero\<lparr>ac_lib := True\<rparr>)" "ac_lib (action_zero\<lparr>ac_lib := True\<rparr>)"
    by (simp_all add: poke_def)
  note action_life[OF _ this, where f = "\<lambda>_. 0" and g = "\<lambda>_. 0" and lib = example_plugin_lib and func = None and txn = False
      and m = 0 and s = "()" and h = empty_heap and command = "''reboot''"]
  moreover have "os_grab empty_heap = (False, empty_heap)" by (simp add: os_grab_def empty_heap_def)
  ultimately show ?thesis by simp
qed

end
