(* ===== verification/Command.thy ===== *)
theory Command
  imports Base64 Action
begin

text \<open>
  The command an action runs (\<open>iot_action_execute_command\<close> and \<open>iot_action_parameter_adjustment\<close>
  in \<open>src/src/api/iot_action.c\<close>): the command line is built in a buffer of \<open>PATH_MAX + 1\<close>
  characters from the path and the request's parameters, and handed to the system, which is a
  parameter of the model. A write outside the buffer is undefined.
\<close>

section \<open>Numbers as text\<close>

fun digits :: "nat \<Rightarrow> string" where
  "digits n = (if n < 10 then [char_of (48 + n)] else digits (n div 10) @ [char_of (48 + n mod 10)])"

declare digits.simps [simp del]

definition show_int :: "int \<Rightarrow> string" where
  "show_int i = (if i < 0 then CHR ''-'' # digits (nat (- i)) else digits (nat i))"

text \<open>\<open>%f\<close>: six decimals, the exact value rounded to nearest even.\<close>

definition micros :: "nat \<Rightarrow> int \<Rightarrow> nat" where
  "micros m e = (if 0 \<le> e then m * 10 ^ 6 * 2 ^ nat e else round_half_even (m * 10 ^ 6) (nat (- e)))"

definition six_digits :: "nat \<Rightarrow> string" where
  "six_digits n = map (\<lambda>k. char_of (48 + n div 10 ^ k mod 10)) [5, 4, 3, 2, 1, 0]"

definition show_float :: "bool \<Rightarrow> fp \<Rightarrow> string" where
  "show_float negative x =
     (if negative then ''-'' else []) @
     (case x of
        FNaN \<Rightarrow> ''nan''
      | FInf s \<Rightarrow> ''inf''
      | FFin s m e \<Rightarrow> digits (micros m e div 10 ^ 6) @ ''.'' @ six_digits (micros m e mod 10 ^ 6))"

text \<open>A \<open>float\<close> is widened to \<open>double\<close>, which keeps its value; the sign is the highest bit.\<close>

definition show_float32 :: "iot_data \<Rightarrow> string" where
  "show_float32 d = show_float (bit (lo d) 31) (v_float32 d)"

definition show_float64 :: "u64 \<Rightarrow> string" where
  "show_float64 x = show_float (bit x 63) (fp_decode 52 11 (unat x))"

section \<open>The buffer\<close>

definition put_chars :: "nat \<Rightarrow> string \<Rightarrow> string \<Rightarrow> string option" where
  "put_chars pos cs buf =
     (if pos + length cs \<le> length buf
      then Some (take pos buf @ cs @ drop (pos + length cs) buf) else None)"

text \<open>The length of the string in the buffer; without a NUL it is undefined.\<close>

definition buffer_string :: "string \<Rightarrow> string option" where
  "buffer_string buf =
     (if CHR 0x00 \<in> set buf then Some (takeWhile (\<lambda>c. c \<noteq> CHR 0x00) buf) else None)"

definition os_snprintf :: "nat \<Rightarrow> nat \<Rightarrow> string \<Rightarrow> string \<Rightarrow> string option" where
  "os_snprintf pos n cs buf =
     (if n = 0 then Some buf else put_chars pos (take (n - 1) cs @ [CHR 0x00]) buf)"

text \<open>The characters of a STRING, with those that end or escape a quotation escaped.\<close>

fun quote_loop :: "string \<Rightarrow> nat \<Rightarrow> nat \<Rightarrow> string \<Rightarrow> (nat \<times> nat \<times> string) option" where
  "quote_loop [] pos space_left buf = Some (pos, space_left, buf)"
| "quote_loop (c # s) pos space_left buf =
     (if space_left = 0 then Some (pos, space_left, buf)
      else if c \<in> {CHR 0x22, CHR 0x5C}
      then if space_left > 1
           then do {
             buf \<leftarrow> put_chars pos [CHR 0x5C] buf;
             buf \<leftarrow> put_chars (pos + 1) [c] buf;
             quote_loop s (pos + 2) (space_left - 2) buf
           }
           else Some (pos, 0, buf)
      else do {
        buf \<leftarrow> put_chars pos [c] buf;
        quote_loop s (pos + 1) (space_left - 1) buf
      })"

definition put_quoted :: "string \<Rightarrow> nat \<Rightarrow> nat \<Rightarrow> string \<Rightarrow> string option" where
  "put_quoted s pos space_left buf =
     (if space_left > length s + 2
      then do {
        buf \<leftarrow> put_chars pos [CHR 0x22] buf;
        (pos, space_left, buf) \<leftarrow> quote_loop s (pos + 1) (space_left - 1) buf;
        (if space_left > 0
         then do {
           buf \<leftarrow> put_chars pos [CHR 0x22] buf;
           (if space_left - 1 > 0 then put_chars (pos + 1) [CHR 0x00] buf else Some buf)
         }
         else Some buf)
      }
      else Some buf)"

section \<open>One parameter\<close>

text \<open>The text of a value, but for RAW and STRING.\<close>

definition scalar_text :: "heap \<Rightarrow> iot_data \<Rightarrow> string option" where
  "scalar_text h d =
     (case dtype d of
        TYPE_NULL \<Rightarrow> Some ''[NULL]''
      | TYPE_BOOL \<Rightarrow> Some (if v_boolean d = 0 then ''0'' else ''1'')
      | TYPE_FLOAT32 \<Rightarrow> Some (show_float32 d)
      | TYPE_FLOAT64 \<Rightarrow> Some (show_float64 (lo d))
      | TYPE_INT8 \<Rightarrow> Some (show_int (v_int8 d))
      | TYPE_INT16 \<Rightarrow> Some (show_int (v_int16 d))
      | TYPE_INT32 \<Rightarrow> Some (show_int (v_int32 d))
      | TYPE_INT64 \<Rightarrow> Some (show_int (v_int64 d))
      | TYPE_LOCATION \<Rightarrow> do {
          (lon, lat) \<leftarrow> (if lo d = NULL then Some (0, 0)
            else do { l \<leftarrow> read_location (lo d) h; Some (longitude l, latitude l) });
          Some (''['' @ show_float64 lon @ '','' @ show_float64 lat @ '']'')
        }
      | TYPE_UINT8 \<Rightarrow> Some (show_int (v_uint8 d))
      | TYPE_UINT16 \<Rightarrow> Some (show_int (v_uint16 d))
      | TYPE_UINT32 \<Rightarrow> Some (show_int (v_uint32 d))
      | TYPE_UINT64 \<Rightarrow> Some (show_int (v_uint64 d))
      | _ \<Rightarrow> None)"

definition put_raw :: "heap \<Rightarrow> iot_data \<Rightarrow> nat \<Rightarrow> nat \<Rightarrow> string \<Rightarrow> string option" where
  "put_raw h d pos space_left buf =
     (let min_size = iot_base64_encode_size (unat (lo d)) in
      if space_left > min_size
      then do {
        raw \<leftarrow> (if hi d = NULL then Some None else do { b \<leftarrow> read_bytes (hi d) h; Some (Some b) });
        (text, _) \<leftarrow> iot_base64_encode True space_left raw (unat (lo d));
        buf \<leftarrow> put_chars pos text buf;
        put_chars (pos + min_size) [CHR 0x00] buf
      }
      else Some buf)"

text \<open>The blank and the name, if there is room; then the position and the space that is left.\<close>

definition put_name :: "iot_action_parameter \<Rightarrow> string \<Rightarrow> (nat \<times> nat \<times> string) option" where
  "put_name p buf = do {
     cur \<leftarrow> buffer_string buf;
     let cur_len = length cur;
     let space_left = PATH_MAX - cur_len;
     (if space_left > 0
      then do {
        buf \<leftarrow> put_chars cur_len '' '' buf;
        nm \<leftarrow> ap_name p;
        let name_len = length nm + 3;
        (if nm \<noteq> [] \<and> space_left - 1 > name_len
         then do {
           buf \<leftarrow> os_snprintf (cur_len + 1) (space_left - 1) (''--'' @ nm @ ''='') buf;
           Some (cur_len + 1 + name_len, space_left - 1 - name_len, buf)
         }
         else Some (cur_len + 1, space_left - 1, buf))
      }
      else Some (cur_len, space_left, buf))
   }"

definition put_parameter :: "heap \<Rightarrow> iot_action_parameter \<Rightarrow> string \<Rightarrow> string option" where
  "put_parameter h p buf = do {
     (pos, space_left, buf) \<leftarrow> put_name p buf;
     let d = ap_data p;
     (case dtype d of
        TYPE_RAW \<Rightarrow> put_raw h d pos space_left buf
      | TYPE_STRING \<Rightarrow> do { s \<leftarrow> read_string (lo d) h; put_quoted s pos space_left buf }
      | _ \<Rightarrow> do { t \<leftarrow> scalar_text h d; os_snprintf pos space_left t buf })
   }"

fun put_parameters :: "heap \<Rightarrow> iot_action_parameter list \<Rightarrow> string \<Rightarrow> string option" where
  "put_parameters h [] buf = Some buf"
| "put_parameters h (p # ps) buf = do {
     buf \<leftarrow> put_parameter h p buf;
     put_parameters h ps buf
   }"

section \<open>Removing a word\<close>

text \<open>The first occurrence of a word.\<close>

fun os_strstr :: "string \<Rightarrow> string \<Rightarrow> nat option" where
  "os_strstr [] word = (if word = [] then Some 0 else None)"
| "os_strstr (c # s) word =
     (if take (length word) (c # s) = word then Some 0 else map_option Suc (os_strstr s word))"

lemma os_strstr_bound: "os_strstr s word = Some i \<Longrightarrow> i + length word \<le> length s"
proof (induction s arbitrary: i)
  case (Cons c s)
  show ?case
  proof (cases "take (length word) (c # s) = word")
    case True
    then have "length (take (length word) (c # s)) = length word" by simp
    then have "length word \<le> length (c # s)" by (metis length_take min.cobounded1)
    then show ?thesis using True Cons.prems by (simp split: if_splits)
  next
    case False
    then show ?thesis using Cons by auto
  qed
qed (simp split: if_splits)

text \<open>The search goes on where the word was removed.\<close>

function adjust_loop :: "string \<Rightarrow> string \<Rightarrow> nat \<Rightarrow> string \<times> nat" where
  "adjust_loop s word param =
     (if word = [] then (s, 0)
      else case os_strstr (drop param s) word of
        None \<Rightarrow> (s, 0)
      | Some i \<Rightarrow>
          (let (s, count) = adjust_loop (take (param + i) s @ drop (param + i + length word) s) word (param + i)
           in (s, count + 1)))"
  by pat_completeness auto
termination
proof (relation "measure (\<lambda>(s, word, param). length s)")
  fix s word :: string and param i
  assume "word \<noteq> []" "os_strstr (drop param s) word = Some i"
  then have "0 < length word" "i + length word \<le> length s - param"
    using os_strstr_bound[of "drop param s" word i] by simp_all
  then have "length (take (param + i) s @ drop (param + i + length word) s) < length s"
    unfolding length_append length_take length_drop by linarith
  then show "((take (param + i) s @ drop (param + i + length word) s, word, param + i), s, word, param) \<in>
      measure (\<lambda>(s, word, param). length s)"
    by simp
qed simp

declare adjust_loop.simps [simp del]

definition iot_action_parameter_adjustment :: "string option \<Rightarrow> string option \<Rightarrow> string option \<times> nat" where
  "iot_action_parameter_adjustment command_param word =
     (case (command_param, word) of
        (Some s, Some w) \<Rightarrow>
          if w \<noteq> [] then (let (s, count) = adjust_loop s w 0 in (Some s, count)) else (Some s, 0)
      | _ \<Rightarrow> (command_param, 0))"

section \<open>The command line\<close>

definition command_line :: "heap \<Rightarrow> string \<Rightarrow> iot_action_parameter list \<Rightarrow> string option" where
  "command_line h command_path ps = do {
     buf \<leftarrow> put_chars 0 (take PATH_MAX command_path) (replicate (PATH_MAX + 1) CHR 0x00);
     buf \<leftarrow> put_chars PATH_MAX [CHR 0x00] buf;
     put_parameters h ps buf
   }"

section \<open>What the buffer holds\<close>

text \<open>A string in the buffer, followed by NULs up to its end.\<close>

definition line :: "string \<Rightarrow> string" where
  "line s = s @ replicate (PATH_MAX + 1 - length s) CHR 0x00"

definition good_line :: "string \<Rightarrow> bool" where
  "good_line s \<longleftrightarrow> length s \<le> PATH_MAX \<and> CHR 0x00 \<notin> set s"

lemma good_line_append [simp]:
  "good_line (s @ t) \<longleftrightarrow> good_line s \<and> length s + length t \<le> PATH_MAX \<and> CHR 0x00 \<notin> set t"
  by (auto simp: good_line_def)

lemma buffer_string_line: "good_line s \<Longrightarrow> buffer_string (line s) = Some s"
proof -
  assume good: "good_line s"
  then obtain k where k: "PATH_MAX + 1 - length s = Suc k" unfolding good_line_def by (metis Suc_diff_le Suc_eq_plus1)
  have "takeWhile (\<lambda>c. c \<noteq> CHR 0x00) (line s) = s"
    unfolding line_def k using good by (simp add: good_line_def takeWhile_append)
  moreover have "CHR 0x00 \<in> set (line s)" unfolding line_def k by simp
  ultimately show ?thesis by (simp add: buffer_string_def)
qed

lemma put_chars_line:
  "length s + length cs \<le> PATH_MAX \<Longrightarrow> put_chars (length s) cs (line s) = Some (line (s @ cs))"
  by (simp add: put_chars_def line_def)

lemma put_nul_line: "length s \<le> PATH_MAX \<Longrightarrow> put_chars (length s) [CHR 0x00] (line s) = Some (line s)"
proof -
  assume "length s \<le> PATH_MAX"
  then obtain k where k: "PATH_MAX + 1 - length s = Suc k" by (metis Suc_diff_le Suc_eq_plus1)
  show ?thesis unfolding put_chars_def line_def k by simp
qed

lemma put_chars_append:
  assumes "put_chars pos cs buf = Some buf'"
  shows "put_chars pos (cs @ ds) buf = put_chars (pos + length cs) ds buf'"
  using assms by (auto simp: put_chars_def ac_simps split: if_splits)

lemma os_snprintf_line:
  assumes "length s \<le> PATH_MAX"
  shows "os_snprintf (length s) (PATH_MAX - length s) cs (line s) =
    Some (line (s @ take (PATH_MAX - length s - 1) cs))"
proof (cases "PATH_MAX - length s = 0")
  case False
  let ?cs = "take (PATH_MAX - length s - 1) cs"
  have fit: "length s + length ?cs \<le> PATH_MAX" using assms by simp
  then have "put_chars (length s) (?cs @ [CHR 0x00]) (line s) = Some (line (s @ ?cs))"
    using put_chars_append[OF put_chars_line[OF fit], of "[CHR 0x00]"] put_nul_line[of "s @ ?cs"] by simp
  then show ?thesis using False by (simp add: os_snprintf_def)
qed (simp add: os_snprintf_def)

text \<open>The characters of a string as they stand between quotes.\<close>

definition escape :: "string \<Rightarrow> string" where
  "escape s = concat (map (\<lambda>c. if c \<in> {CHR 0x22, CHR 0x5C} then [CHR 0x5C, c] else [c]) s)"

lemma escape_simps [simp]:
  "escape [] = []"
  "escape (c # s) = (if c \<in> {CHR 0x22, CHR 0x5C} then [CHR 0x5C, c] else [c]) @ escape s"
  by (simp_all add: escape_def)

lemma escape_no_nul: "CHR 0x00 \<notin> set s \<Longrightarrow> CHR 0x00 \<notin> set (escape s)"
  by (induction s) auto

lemma length_escape: "length s \<le> length (escape s)"
  by (induction s) auto

lemma quote_loop_line:
  assumes "length s \<le> PATH_MAX" and "CHR 0x00 \<notin> set t"
  shows "\<exists>e n. quote_loop t (length s) (PATH_MAX - length s) (line s) = Some (length (s @ e), n, line (s @ e)) \<and>
    length (s @ e) \<le> PATH_MAX \<and> CHR 0x00 \<notin> set e \<and> n \<in> {0, PATH_MAX - length (s @ e)} \<and>
    (length s + length (escape t) \<le> PATH_MAX \<longrightarrow> e = escape t \<and> n = PATH_MAX - length (s @ e))"
  using assms
proof (induction t arbitrary: s)
  case Nil
  then show ?case by (intro exI[of _ "[]"] exI[of _ "PATH_MAX - length s"]) simp
next
  case (Cons c t)
  let ?c = "if c \<in> {CHR 0x22, CHR 0x5C} then [CHR 0x5C, c] else [c]"
  show ?case
  proof (cases "length ?c \<le> PATH_MAX - length s")
    case True
    have fit: "length (s @ ?c) \<le> PATH_MAX" using True Cons.prems(1) by (simp split: if_splits)
    have nul: "CHR 0x00 \<notin> set ?c" using Cons.prems(2) by auto
    obtain e n where e: "quote_loop t (length (s @ ?c)) (PATH_MAX - length (s @ ?c)) (line (s @ ?c)) =
        Some (length ((s @ ?c) @ e), n, line ((s @ ?c) @ e))"
      "length ((s @ ?c) @ e) \<le> PATH_MAX" "CHR 0x00 \<notin> set e" "n \<in> {0, PATH_MAX - length ((s @ ?c) @ e)}"
      "length (s @ ?c) + length (escape t) \<le> PATH_MAX \<longrightarrow> e = escape t \<and> n = PATH_MAX - length ((s @ ?c) @ e)"
      using Cons.IH[OF fit] Cons.prems(2) by auto
    have step: "quote_loop (c # t) (length s) (PATH_MAX - length s) (line s) =
        quote_loop t (length (s @ ?c)) (PATH_MAX - length (s @ ?c)) (line (s @ ?c))"
    proof (cases "c \<in> {CHR 0x22, CHR 0x5C}")
      case True
      then have two: "length s + 2 \<le> PATH_MAX" using fit by simp
      then have room: "1 < PATH_MAX - length s" "0 < PATH_MAX - length s" by linarith+
      have "put_chars (length s) [CHR 0x5C] (line s) = Some (line (s @ [CHR 0x5C]))"
        "put_chars (length s + 1) [c] (line (s @ [CHR 0x5C])) = Some (line (s @ [CHR 0x5C, c]))"
        using two put_chars_line[of s "[CHR 0x5C]"] put_chars_line[of "s @ [CHR 0x5C]" "[c]"] by simp_all
      then show ?thesis using True room by (simp add: diff_diff_left)
    next
      case False
      then show ?thesis using fit put_chars_line[of s "[c]"] by (simp add: diff_diff_left)
    qed
    show ?thesis
      unfolding step e(1)
      by (intro exI[of _ "?c @ e"] exI[of _ n]) (use e(2-5) nul in \<open>simp split: if_splits\<close>)
  next
    case False
    then have "quote_loop (c # t) (length s) (PATH_MAX - length s) (line s) = Some (length s, 0, line s)"
      using Cons.prems(1) by (auto split: if_splits)
    then show ?thesis
      using False Cons.prems(1) by (intro exI[of _ "[]"] exI[of _ 0]) (auto split: if_splits)
  qed
qed

lemma put_quoted_line:
  assumes "length s \<le> PATH_MAX" and "CHR 0x00 \<notin> set t"
  shows "\<exists>q. put_quoted t (length s) (PATH_MAX - length s) (line s) = Some (line (s @ q)) \<and>
    length (s @ q) \<le> PATH_MAX \<and> CHR 0x00 \<notin> set q \<and>
    (length s + length (escape t) + 2 < PATH_MAX \<longrightarrow> q = CHR 0x22 # escape t @ [CHR 0x22])"
proof (cases "PATH_MAX - length s > length t + 2")
  case False
  then have "put_quoted t (length s) (PATH_MAX - length s) (line s) = Some (line s)"
    by (simp add: put_quoted_def)
  then show ?thesis using False assms(1) length_escape[of t] by (intro exI[of _ "[]"]) auto
next
  case True
  let ?s = "s @ [CHR 0x22]"
  have fit: "length ?s \<le> PATH_MAX" using True by simp
  have put1: "put_chars (length s) [CHR 0x22] (line s) = Some (line ?s)" using put_chars_line[of s "[CHR 0x22]"] fit by simp
  obtain e n where e: "quote_loop t (length ?s) (PATH_MAX - length ?s) (line ?s) = Some (length (?s @ e), n, line (?s @ e))"
    "length (?s @ e) \<le> PATH_MAX" "CHR 0x00 \<notin> set e" "n \<in> {0, PATH_MAX - length (?s @ e)}"
    "length ?s + length (escape t) \<le> PATH_MAX \<longrightarrow> e = escape t \<and> n = PATH_MAX - length (?s @ e)"
    using quote_loop_line[OF fit assms(2)] by blast
  show ?thesis
  proof (cases "n > 0")
    case False
    then have "put_quoted t (length s) (PATH_MAX - length s) (line s) = Some (line (s @ CHR 0x22 # e))"
      using True put1 e(1) by (simp add: put_quoted_def diff_diff_left)
    then show ?thesis using False e by (intro exI[of _ "CHR 0x22 # e"]) auto
  next
    case more: True
    then have n: "n = PATH_MAX - length (?s @ e)" using e(4) by blast
    let ?q = "CHR 0x22 # e @ [CHR 0x22]"
    have room: "length (?s @ e) + 1 \<le> PATH_MAX" using n more by simp
    have put2: "put_chars (length (?s @ e)) [CHR 0x22] (line (?s @ e)) = Some (line (s @ ?q))"
      using put_chars_line[of "?s @ e" "[CHR 0x22]"] room by simp
    have put3: "put_chars (length (?s @ e) + 1) [CHR 0x00] (line (s @ ?q)) = Some (line (s @ ?q))"
      using put_nul_line[of "s @ ?q"] room by simp
    have "put_quoted t (length s) (PATH_MAX - length s) (line s) = Some (line (s @ ?q))"
      using True put1 e(1) more put2 put3 by (simp add: put_quoted_def diff_diff_left)
    then show ?thesis using room e by (intro exI[of _ ?q]) auto
  qed
qed

section \<open>The text of the values\<close>

lemma base64_char_no_nul: "unat v < 64 \<Longrightarrow> base64_char v \<noteq> CHR 0x00"
proof -
  assume "unat v < 64"
  then have "base64_char v \<in> set base64_list" by (simp add: base64_char_def base64_tables(3))
  moreover have "CHR 0x00 \<notin> set base64_list" by (simp add: base64_list_def)
  ultimately show ?thesis by metis
qed

lemma base64_text_no_nul: "CHR 0x00 \<notin> set (base64_text b)"
proof -
  have eq: "CHR 0x00 \<noteq> CHR ''=''" by simp
  note nz = sextets[THEN base64_char_no_nul, THEN not_sym]
  show ?thesis
    by (induction b rule: base64_text.induct)
      (simp_all only: base64_text.simps list.set set_append Un_iff insert_iff empty_iff nz eq simp_thms)
qed

lemma encode_whole:
  assumes "iot_base64_encode_size (length b) < n"
  shows "iot_base64_encode True n (Some b) (length b) = Some (base64_text b, length (base64_text b))"
proof -
  have "length (base64_text b) div 4 \<le> n div 4"
    using assms length_base64_text[of b] by (simp add: div_le_mono)
  then have "length (base64_text b) \<le> 4 * (n div 4)"
    using length_base64_text_mod[of b] by presburger
  then show ?thesis
    using encode_loop_text[of b n "[]" 0] assms by (cases "b = []") (simp_all add: iot_base64_encode_def)
qed

lemma digit_no_nul:
  fixes n :: nat
  assumes "n < 10"
  shows "char_of (48 + n) \<noteq> CHR 0x00"
proof -
  have "(48 + n) mod 256 \<noteq> 0" using assms by simp
  then show ?thesis unfolding char_of_zero[symmetric] by (simp add: char_of_eq_iff take_bit_eq_mod)
qed

lemma digits_no_nul: "CHR 0x00 \<notin> set (digits n)"
proof (induction n rule: digits.induct)
  case (1 n)
  then show ?case
    using digit_no_nul[of n] digit_no_nul[of "n mod 10"]
    by (subst digits.simps) (auto dest: sym)
qed

lemma show_int_no_nul: "CHR 0x00 \<notin> set (show_int i)"
  by (simp add: show_int_def digits_no_nul)

lemma six_digits_no_nul: "CHR 0x00 \<notin> set (six_digits n)"
  using digit_no_nul by (auto simp: six_digits_def dest: sym)

lemma show_float_no_nul: "CHR 0x00 \<notin> set (show_float b x)"
  by (simp add: show_float_def digits_no_nul six_digits_no_nul split: fp.split)

lemma scalar_text_no_nul: "scalar_text h d = Some t \<Longrightarrow> CHR 0x00 \<notin> set t"
  by (auto simp: scalar_text_def show_int_no_nul show_float32_def show_float64_def show_float_no_nul
      split: iot_type.splits if_splits bind_splits)

text \<open>What a value is written as, and the whole argument of a parameter.\<close>

definition value_text :: "heap \<Rightarrow> iot_data \<Rightarrow> string option" where
  "value_text h d =
     (case dtype d of
        TYPE_RAW \<Rightarrow>
          if hi d = NULL then Some []
          else do {
            b \<leftarrow> read_bytes (hi d) h;
            (if length b = unat (lo d) then Some (base64_text b) else None)
          }
      | TYPE_STRING \<Rightarrow> map_option (\<lambda>s. CHR 0x22 # escape s @ [CHR 0x22]) (read_string (lo d) h)
      | _ \<Rightarrow> scalar_text h d)"

definition argument :: "heap \<Rightarrow> iot_action_parameter \<Rightarrow> string option" where
  "argument h p = do {
     nm \<leftarrow> ap_name p;
     t \<leftarrow> value_text h (ap_data p);
     Some ('' '' @ (if nm = [] then [] else ''--'' @ nm @ ''='') @ t)
   }"

lemma put_nul_beyond:
  assumes "length s \<le> k" "k \<le> PATH_MAX"
  shows "put_chars k [CHR 0x00] (line s) = Some (line s)"
proof -
  define j n where "j = k - length s" and "n = PATH_MAX - k"
  have split: "PATH_MAX + 1 - length s = j + Suc n" "k = length s + j" using assms by (simp_all add: j_def n_def)
  have "put_chars (length (s @ replicate j CHR 0x00)) [CHR 0x00]
      ((s @ replicate j CHR 0x00) @ CHR 0x00 # replicate n CHR 0x00) =
    Some ((s @ replicate j CHR 0x00) @ CHR 0x00 # replicate n CHR 0x00)"
    unfolding put_chars_def by (simp del: replicate_app_Cons_same)
  moreover have "line s = (s @ replicate j CHR 0x00) @ CHR 0x00 # replicate n CHR 0x00"
    unfolding line_def split by (simp only: replicate_add replicate_Suc append_assoc)
  ultimately show ?thesis using split(2) by simp
qed

lemma put_value_line:
  assumes good: "good_line s" and val: "value_text h d = Some t"
  shows "\<exists>e. (case dtype d of
        TYPE_RAW \<Rightarrow> put_raw h d (length s) (PATH_MAX - length s) (line s)
      | TYPE_STRING \<Rightarrow> do { t \<leftarrow> read_string (lo d) h; put_quoted t (length s) (PATH_MAX - length s) (line s) }
      | _ \<Rightarrow> do { t \<leftarrow> scalar_text h d; os_snprintf (length s) (PATH_MAX - length s) t (line s) }) =
    Some (line (s @ e)) \<and> good_line (s @ e) \<and> (length s + length t < PATH_MAX \<longrightarrow> e = t)"
proof -
  have le: "length s \<le> PATH_MAX" using good by (simp add: good_line_def)
  consider (raw) "dtype d = TYPE_RAW" | (string) "dtype d = TYPE_STRING"
    | (scalar) "dtype d \<noteq> TYPE_RAW" "dtype d \<noteq> TYPE_STRING" by blast
  then show ?thesis
  proof cases
    case string
    then obtain x where x: "read_string (lo d) h = Some x" "t = CHR 0x22 # escape x @ [CHR 0x22]"
      using val by (auto simp: value_text_def)
    then have "CHR 0x00 \<notin> set x" using read_string_no_nul by blast
    then show ?thesis using put_quoted_line[OF le, of x] string x good by auto
  next
    case scalar
    then have t: "scalar_text h d = Some t" using val by (cases "dtype d") (simp_all add: value_text_def)
    let ?e = "take (PATH_MAX - length s - 1) t"
    have "CHR 0x00 \<notin> set ?e" using scalar_text_no_nul[OF t] by (meson in_set_takeD)
    then have "os_snprintf (length s) (PATH_MAX - length s) t (line s) = Some (line (s @ ?e)) \<and> good_line (s @ ?e) \<and>
        (length s + length t < PATH_MAX \<longrightarrow> ?e = t)"
      using os_snprintf_line[OF le, of t] good le by auto
    then show ?thesis using scalar t by (cases "dtype d") auto
  next
    case raw
    let ?size = "iot_base64_encode_size (unat (lo d))"
    show ?thesis
    proof (cases "PATH_MAX - length s > ?size")
      case False
      moreover have "length t = ?size" if "hi d \<noteq> NULL"
        using that raw val by (auto simp: value_text_def length_base64_text split: if_splits bind_splits)
      moreover have "t = []" if "hi d = NULL" using that raw val by (simp add: value_text_def)
      ultimately show ?thesis using raw good
        by (intro exI[of _ "[]"]; cases "hi d = NULL") (auto simp: put_raw_def)
    next
      case room: True
      show ?thesis
      proof (cases "hi d = NULL")
        case True
        then have "t = []" using raw val by (simp add: value_text_def)
        moreover have "iot_base64_encode True n None k = Some ([], 0)" for n k
          by (simp add: iot_base64_encode_def)
        moreover have "put_chars (length s) [] (line s) = Some (line s)" using put_chars_line[of s "[]"] le by simp
        moreover have "put_chars (length s + ?size) [CHR 0x00] (line s) = Some (line s)"
          by (rule put_nul_beyond) (use room in simp_all)
        ultimately show ?thesis using raw True room good
          by (intro exI[of _ "[]"]) (simp add: put_raw_def Let_def)
      next
        case False
        then obtain b where b: "read_bytes (hi d) h = Some b" "length b = unat (lo d)" "t = base64_text b"
          using raw val by (auto simp: value_text_def split: bind_splits if_splits)
        have size: "length t = ?size" using b by (simp add: length_base64_text)
        have fit: "length s + length t \<le> PATH_MAX" using room size by simp
        have enc: "iot_base64_encode True (PATH_MAX - length s) (Some b) (unat (lo d)) = Some (t, length t)"
          using encode_whole[of b "PATH_MAX - length s"] room b by simp
        have "put_chars (length s + ?size) [CHR 0x00] (line (s @ t)) = Some (line (s @ t))"
          by (rule put_nul_beyond) (use size fit in simp_all)
        then show ?thesis using raw False room good b enc put_chars_line[OF fit] fit base64_text_no_nul[of b]
          by (intro exI[of _ t]) (simp add: put_raw_def Let_def)
      qed
    qed
  qed
qed

section \<open>The whole line\<close>

lemma put_name_line:
  assumes good: "good_line s" and nm: "ap_name p = Some nm" "CHR 0x00 \<notin> set nm"
  defines "a \<equiv> '' '' @ (if nm = [] then [] else ''--'' @ nm @ ''='')"
  shows "\<exists>e. put_name p (line s) = Some (length (s @ e), PATH_MAX - length (s @ e), line (s @ e)) \<and>
    good_line (s @ e) \<and> (length s + length a < PATH_MAX \<longrightarrow> e = a)"
proof (cases "PATH_MAX - length s > 0")
  case False
  then show ?thesis using good buffer_string_line[OF good]
    by (intro exI[of _ "[]"]) (simp add: put_name_def Let_def)
next
  case True
  have blank: "put_chars (length s) '' '' (line s) = Some (line (s @ '' ''))"
    by (rule put_chars_line) (use True in simp)
  have good1: "good_line (s @ '' '')" using good True by simp
  show ?thesis
  proof (cases "nm \<noteq> [] \<and> PATH_MAX - length s - 1 > length nm + 3")
    case False
    then have "put_name p (line s) = Some (length (s @ '' ''), PATH_MAX - length (s @ '' ''), line (s @ '' ''))"
      using True nm(1) buffer_string_line[OF good] blank by (auto simp: put_name_def Let_def)
    moreover have "length s + length a < PATH_MAX \<longrightarrow> '' '' = a"
      using False by (cases "nm = []") (auto simp: a_def)
    ultimately show ?thesis using good1 by blast
  next
    case fit: True
    let ?cs = "''--'' @ nm @ ''=''"
    have "take (PATH_MAX - length (s @ '' '') - 1) ?cs = ?cs" by (rule take_all) (use fit in \<open>simp, linarith\<close>)
    then have put: "os_snprintf (length s + 1) (PATH_MAX - length s - 1) ?cs (line (s @ '' '')) = Some (line (s @ a))"
      using os_snprintf_line[of "s @ '' ''" ?cs] True fit by (simp add: a_def)
    have "put_name p (line s) = Some (length (s @ a), PATH_MAX - length (s @ a), line (s @ a))"
      using True nm(1) buffer_string_line[OF good] blank fit put
      by (simp add: put_name_def Let_def) (simp add: a_def)
    then show ?thesis using good fit nm(2) by (intro exI[of _ a]) (auto simp: a_def)
  qed
qed

lemma put_parameter_line:
  assumes good: "good_line s" and arg: "argument h p = Some a" and nul: "CHR 0x00 \<notin> set (the (ap_name p))"
  shows "\<exists>e. put_parameter h p (line s) = Some (line (s @ e)) \<and> good_line (s @ e) \<and>
    (length s + length a < PATH_MAX \<longrightarrow> e = a)"
proof -
  obtain nm t where nm: "ap_name p = Some nm" and t: "value_text h (ap_data p) = Some t"
    and a: "a = ('' '' @ (if nm = [] then [] else ''--'' @ nm @ ''='')) @ t"
    using arg by (auto simp: argument_def split: bind_splits)
  have "CHR 0x00 \<notin> set nm" using nul nm by simp
  from put_name_line[OF good nm this] obtain e1 where
    e1: "put_name p (line s) = Some (length (s @ e1), PATH_MAX - length (s @ e1), line (s @ e1))" "good_line (s @ e1)"
      "length s + length ('' '' @ (if nm = [] then [] else ''--'' @ nm @ ''='')) < PATH_MAX \<longrightarrow>
        e1 = '' '' @ (if nm = [] then [] else ''--'' @ nm @ ''='')" by blast
  from put_value_line[OF e1(2) t] obtain e2 where
    e2: "(case dtype (ap_data p) of
        TYPE_RAW \<Rightarrow> put_raw h (ap_data p) (length (s @ e1)) (PATH_MAX - length (s @ e1)) (line (s @ e1))
      | TYPE_STRING \<Rightarrow> do { t \<leftarrow> read_string (lo (ap_data p)) h; put_quoted t (length (s @ e1)) (PATH_MAX - length (s @ e1)) (line (s @ e1)) }
      | _ \<Rightarrow> do { t \<leftarrow> scalar_text h (ap_data p); os_snprintf (length (s @ e1)) (PATH_MAX - length (s @ e1)) t (line (s @ e1)) }) =
      Some (line ((s @ e1) @ e2))" "good_line ((s @ e1) @ e2)" "length (s @ e1) + length t < PATH_MAX \<longrightarrow> e2 = t"
    by blast
  have "put_parameter h p (line s) = Some (line (s @ e1 @ e2))"
    unfolding put_parameter_def e1(1) using e2(1) by (cases "dtype (ap_data p)") simp_all
  moreover have "length s + length a < PATH_MAX \<longrightarrow> e1 @ e2 = a"
    using e1(3) e2(3) by (auto simp: a)
  ultimately show ?thesis using e2(2) by (intro exI[of _ "e1 @ e2"]) simp
qed

definition arguments :: "heap \<Rightarrow> iot_action_parameter list \<Rightarrow> string" where
  "arguments h ps = concat (map (\<lambda>p. the (argument h p)) ps)"

lemma arguments_simps [simp]:
  "arguments h [] = []"
  "arguments h (p # ps) = the (argument h p) @ arguments h ps"
  by (simp_all add: arguments_def)

lemma put_parameters_line:
  assumes "good_line s" and "\<forall>p \<in> set ps. argument h p \<noteq> None \<and> CHR 0x00 \<notin> set (the (ap_name p))"
  shows "\<exists>e. put_parameters h ps (line s) = Some (line (s @ e)) \<and> good_line (s @ e) \<and>
    (length s + length (arguments h ps) < PATH_MAX \<longrightarrow> e = arguments h ps)"
  using assms
proof (induction ps arbitrary: s)
  case Nil
  then show ?case by (intro exI[of _ "[]"]) simp
next
  case (Cons p ps)
  then obtain a where a: "argument h p = Some a" "CHR 0x00 \<notin> set (the (ap_name p))" by auto
  obtain e1 where e1: "put_parameter h p (line s) = Some (line (s @ e1))" "good_line (s @ e1)"
    "length s + length a < PATH_MAX \<longrightarrow> e1 = a"
    using put_parameter_line[OF Cons.prems(1) a] by blast
  obtain e2 where e2: "put_parameters h ps (line (s @ e1)) = Some (line ((s @ e1) @ e2))" "good_line ((s @ e1) @ e2)"
    "length (s @ e1) + length (arguments h ps) < PATH_MAX \<longrightarrow>
      e2 = arguments h ps"
  proof -
    have "\<forall>p \<in> set ps. argument h p \<noteq> None \<and> CHR 0x00 \<notin> set (the (ap_name p))" using Cons.prems(2) by simp
    from Cons.IH[OF e1(2) this] show ?thesis using that by blast
  qed
  show ?case
    by (intro exI[of _ "e1 @ e2"]) (use a e1 e2 in auto)
qed

text \<open>Reading a quoted string back: up to the closing quotation mark.\<close>

fun unquote :: "string \<Rightarrow> (string \<times> string) option" where
  "unquote [] = None"
| "unquote (c # r) =
     (if c = CHR 0x22 then Some ([], r)
      else if c = CHR 0x5C
      then (case r of [] \<Rightarrow> None | d # r \<Rightarrow> map_option (\<lambda>(s, r). (d # s, r)) (unquote r))
      else map_option (\<lambda>(s, r). (c # s, r)) (unquote r))"

lemma unquote_escape: "unquote (escape s @ CHR 0x22 # r) = Some (s, r)"
  by (induction s) auto

text \<open>
  C11: the command line is built without ever writing outside its buffer, whatever the path, the
  names and the values are: it is always NUL-terminated and at most \<open>PATH_MAX\<close> long. When path
  and arguments are shorter than \<open>PATH_MAX\<close> together, it is exactly the path followed by one
  argument for each parameter, in order, and every string value in it can be read back from
  between its quotation marks.
\<close>

theorem command_line_built:
  assumes "CHR 0x00 \<notin> set path"
    and "\<forall>p \<in> set ps. argument h p \<noteq> None \<and> CHR 0x00 \<notin> set (the (ap_name p))"
  shows "\<exists>buf s. command_line h path ps = Some buf \<and> length buf = PATH_MAX + 1 \<and> buffer_string buf = Some s \<and>
    length s \<le> PATH_MAX \<and>
    (length (path @ arguments h ps) < PATH_MAX \<longrightarrow>
       s = path @ arguments h ps) \<and>
    (\<forall>p \<in> set ps. \<forall>t r. dtype (ap_data p) = TYPE_STRING \<longrightarrow> read_string (lo (ap_data p)) h = Some t \<longrightarrow>
       (\<exists>name q. argument h p = Some (name @ CHR 0x22 # q) \<and> unquote (q @ r) = Some (t, r)))"
proof -
  let ?path = "take PATH_MAX path"
  have good: "good_line ?path" using assms(1) by (auto simp: good_line_def dest: in_set_takeD)
  have empty: "replicate (PATH_MAX + 1) CHR 0x00 = line []" by (simp add: line_def)
  have "put_chars (length ([] :: string)) ?path (line []) = Some (line ([] @ ?path))"
    by (rule put_chars_line) simp
  then have start: "put_chars 0 ?path (line []) = Some (line ?path)" by simp
  have nul: "put_chars PATH_MAX [CHR 0x00] (line ?path) = Some (line ?path)"
    by (rule put_nul_beyond) simp_all
  obtain e where e: "put_parameters h ps (line ?path) = Some (line (?path @ e))" "good_line (?path @ e)"
    "length ?path + length (arguments h ps) < PATH_MAX \<longrightarrow> e = arguments h ps"
    using put_parameters_line[OF good assms(2)] by blast
  have cmd: "command_line h path ps = Some (line (?path @ e))"
    unfolding command_line_def empty using start nul e(1) by simp
  have len: "length (?path @ e) \<le> PATH_MAX" using e(2) unfolding good_line_def by (rule conjunct1)
  then have buf: "length (line (?path @ e)) = PATH_MAX + 1" by (simp add: line_def)
  have quoted: "\<exists>name q. argument h p = Some (name @ CHR 0x22 # q) \<and> unquote (q @ r) = Some (t, r)"
    if p: "p \<in> set ps" "dtype (ap_data p) = TYPE_STRING" "read_string (lo (ap_data p)) h = Some t" for p t r
  proof -
    obtain nm where "ap_name p = Some nm"
      using assms(2) p(1) by (cases "ap_name p") (auto simp: argument_def)
    then have "argument h p = Some (('' '' @ (if nm = [] then [] else ''--'' @ nm @ ''='')) @
        CHR 0x22 # (escape t @ [CHR 0x22]))"
      using p by (simp add: argument_def value_text_def)
    then show ?thesis using unquote_escape[of t r] by (metis append.assoc append_Cons append_Nil)
  qed
  have whole: "?path @ e = path @ arguments h ps"
    if "length (path @ arguments h ps) < PATH_MAX"
    using that e(3) by simp
  show ?thesis
    by (rule exI[of _ "line (?path @ e)"], rule exI[of _ "?path @ e"])
      (use cmd buf len buffer_string_line[OF e(2)] quoted whole in blast)
qed

definition example_echo :: iot_action_parameter where
  "example_echo = \<lparr>ap_name = Some ''m'', ap_data = data_zero\<lparr>lo := 8, has_value := True, dtype := TYPE_STRING\<rparr>,
     ap_type = PARAMETER_IN\<rparr>"

definition example_echo_heap :: heap where
  "example_echo_heap = empty_heap\<lparr>cells := [8 \<mapsto> string_block [CHR ''a'', CHR 0x22]]\<rparr>"

theorem command_line_built_witness:
  "\<exists>buf. command_line example_echo_heap ''/bin/echo'' [example_echo] = Some buf \<and>
     buffer_string buf = Some (''/bin/echo --m='' @ [CHR 0x22, CHR ''a'', CHR 0x5C, CHR 0x22, CHR 0x22])"
proof -
  have read: "read_string 8 example_echo_heap = Some [CHR ''a'', CHR 0x22]"
    by (rule read_string_block) (simp_all add: example_echo_heap_def)
  have arg: "argument example_echo_heap example_echo =
      Some ('' --m='' @ [CHR 0x22, CHR ''a'', CHR 0x5C, CHR 0x22, CHR 0x22])"
    by (simp add: argument_def value_text_def example_echo_def read)
  have "CHR 0x00 \<notin> set ''/bin/echo''" by simp
  moreover have "\<forall>p \<in> set [example_echo]. argument example_echo_heap p \<noteq> None \<and> CHR 0x00 \<notin> set (the (ap_name p))"
    using arg by (simp add: example_echo_def)
  ultimately obtain buf s where "command_line example_echo_heap ''/bin/echo'' [example_echo] = Some buf"
    "buffer_string buf = Some s" "length (''/bin/echo'' @ arguments example_echo_heap [example_echo]) < PATH_MAX \<longrightarrow>
       s = ''/bin/echo'' @ arguments example_echo_heap [example_echo]"
    using command_line_built by blast
  then show ?thesis using arg by simp
qed

section \<open>Removing a word\<close>

text \<open>Without pointers: every occurrence, from the left, that does not overlap the one before.\<close>

function remove_word :: "string \<Rightarrow> string \<Rightarrow> string \<times> nat" where
  "remove_word w s =
     (if w \<noteq> [] \<and> take (length w) s = w
      then (let (r, n) = remove_word w (drop (length w) s) in (r, n + 1))
      else case s of [] \<Rightarrow> ([], 0) | c # s \<Rightarrow> (let (r, n) = remove_word w s in (c # r, n)))"
  by pat_completeness auto
termination
proof (relation "measure (\<lambda>(w, s). length s)")
  fix w s :: string
  assume "w \<noteq> [] \<and> take (length w) s = w"
  then have "s \<noteq> []" "0 < length w" by auto
  then show "((w, drop (length w) s), w, s) \<in> measure (\<lambda>(w, s). length s)" by simp
qed auto

declare remove_word.simps [simp del]

lemma remove_word_strstr:
  assumes "w \<noteq> []"
  shows "remove_word w s = (case os_strstr s w of None \<Rightarrow> (s, 0)
    | Some i \<Rightarrow> (let (r, n) = remove_word w (drop (i + length w) s) in (take i s @ r, n + 1)))"
proof (induction s)
  case Nil
  then show ?case using assms by (simp add: remove_word.simps)
next
  case (Cons c s)
  show ?case
  proof (cases "take (length w) (c # s) = w")
    case True
    then show ?thesis using assms by (subst remove_word.simps) (simp add: Let_def)
  next
    case False
    then have "remove_word w (c # s) = (let (r, n) = remove_word w s in (c # r, n))"
      by (subst remove_word.simps) simp
    then show ?thesis using False unfolding Cons.IH
      by (cases "os_strstr s w") (auto simp: Let_def split: prod.splits)
  qed
qed

lemma adjust_loop_remove:
  assumes "w \<noteq> []" and "param \<le> length s"
  shows "adjust_loop s w param = (let (r, n) = remove_word w (drop param s) in (take param s @ r, n))"
  using assms
proof (induction s w param rule: adjust_loop.induct)
  case (1 s w param)
  show ?case
  proof (cases "os_strstr (drop param s) w")
    case None
    then show ?thesis using "1.prems"
      by (subst adjust_loop.simps, subst remove_word_strstr) simp_all
  next
    case (Some i)
    note i = os_strstr_bound[OF Some]
    let ?s = "take (param + i) s @ drop (param + i + length w) s"
    have le: "param + i \<le> length s" using i "1.prems" by simp
    have shift: "drop (param + i) ?s = drop (i + length w) (drop param s)" "take (param + i) ?s = take (param + i) s"
      using le by (simp_all add: ac_simps)
    have "adjust_loop ?s w (param + i) =
        (let (r, n) = remove_word w (drop (param + i) ?s) in (take (param + i) ?s @ r, n))"
      by (rule "1.IH"[OF _ Some]) (use "1.prems" le in simp_all)
    moreover have "take (param + i) s = take param s @ take i (drop param s)" by (simp add: take_add)
    ultimately show ?thesis using "1.prems" Some unfolding shift
      by (subst adjust_loop.simps, subst remove_word_strstr) (simp_all add: Let_def split: prod.splits)
  qed
qed

lemma remove_word_length: "length (fst (remove_word w s)) + snd (remove_word w s) * length w = length s"
proof (induction w s rule: remove_word.induct)
  case (1 w s)
  show ?case
  proof (cases "w \<noteq> [] \<and> take (length w) s = w")
    case True
    then have "length w \<le> length s" by (metis length_take min.cobounded1 min.absorb_iff2)
    moreover have "remove_word w s = (let (r, n) = remove_word w (drop (length w) s) in (r, n + 1))"
      using True by (subst remove_word.simps) simp
    ultimately show ?thesis using "1.IH"(1)[OF True] by (auto simp: Let_def split: prod.splits)
  next
    case False
    then have eq: "remove_word w s = (case s of [] \<Rightarrow> ([], 0) | c # s \<Rightarrow> (let (r, n) = remove_word w s in (c # r, n)))"
      by (subst remove_word.simps, subst if_not_P) simp_all
    show ?thesis
    proof (cases s)
      case (Cons c r)
      then show ?thesis using eq "1.IH"(2)[OF False Cons] by (auto simp: Let_def split: prod.splits)
    qed (use eq in simp)
  qed
qed

text \<open>
  C40: removing a word from the command line in place, by moving what follows each occurrence
  over it, is the same as removing every occurrence from the left; the number returned is the
  number of occurrences removed, and nothing else is lost. With no word, an empty one or no
  string nothing happens.
\<close>

theorem parameter_adjustment:
  shows "iot_action_parameter_adjustment (Some s) (Some w) =
      (if w = [] then (Some s, 0) else (Some (fst (remove_word w s)), snd (remove_word w s))) \<and>
    length (the (fst (iot_action_parameter_adjustment (Some s) (Some w)))) +
      snd (iot_action_parameter_adjustment (Some s) (Some w)) * length w = length s \<and>
    iot_action_parameter_adjustment None word = (None, 0) \<and>
    iot_action_parameter_adjustment command None = (command, 0)"
proof -
  have "iot_action_parameter_adjustment (Some s) (Some w) =
      (if w = [] then (Some s, 0) else (Some (fst (remove_word w s)), snd (remove_word w s)))"
    using adjust_loop_remove[of w 0 s] by (simp add: iot_action_parameter_adjustment_def Let_def split: prod.split)
  then show ?thesis
    using remove_word_length[of w s]
    by (simp add: iot_action_parameter_adjustment_def split: option.split)
qed

text \<open>
  An occurrence that only appears when another one is removed stays: the line breaks that the
  code means to remove can be left in the command.
\<close>

lemma adjustment_joined:
  "iot_action_parameter_adjustment (Some [CHR 0x0D, CHR 0x0D, CHR 0x0A, CHR 0x0A]) (Some [CHR 0x0D, CHR 0x0A]) =
     (Some [CHR 0x0D, CHR 0x0A], 1)"
  by (simp add: iot_action_parameter_adjustment_def adjust_loop.simps Let_def)

end
