(* ===== verification/Queue.thy ===== *)
theory Queue
  imports Request
begin

text \<open>
  The queue of action requests (\<open>src/src/api/iot_action.c\<close>): a pool of ten requests, the stack of
  pointers to the free ones, and the array of those waiting for a worker thread. A pointer to a
  request is its index in the pool. Every access to the arrays holds the worker mutex, so what
  the client and the workers do is a sequence of these operations.
\<close>

abbreviation IOT_ACTION_QUEUE_MAX :: nat where "IOT_ACTION_QUEUE_MAX \<equiv> 10"

record iot_requests =
  request_queue :: "iot_action_request list"
  request_queue_free :: "nat list"
  request_queue_free_count :: nat
  request_queue_wait :: "nat list"
  request_queue_wait_count :: nat

text \<open>What initialisation leaves: every request free; the waiting array holds NULL pointers.\<close>

definition requests_initial :: "nat list \<Rightarrow> iot_requests" where
  "requests_initial nulls = \<lparr>request_queue = replicate IOT_ACTION_QUEUE_MAX request_zero,
     request_queue_free = [0..<IOT_ACTION_QUEUE_MAX], request_queue_free_count = 0,
     request_queue_wait = nulls, request_queue_wait_count = 0\<rparr>"

section \<open>Memory copies that overlap\<close>

text \<open>
  \<open>os_memcpy\<close> is not part of the sources. What is documented of it: elements are copied when the
  two ranges do not overlap.
\<close>

type_synonym memcpy = "nat \<Rightarrow> nat \<Rightarrow> nat \<Rightarrow> nat list \<Rightarrow> nat list option"

definition copies_disjoint :: "memcpy \<Rightarrow> bool" where
  "copies_disjoint cpy \<longleftrightarrow>
     (\<forall>dst src n xs. dst + n \<le> src \<or> src + n \<le> dst \<longrightarrow> cpy dst src n xs = memmove dst src n xs)"

text \<open>Two ways to copy element by element: the first element first, or the last one first.\<close>

fun copy_first :: memcpy where
  "copy_first dst src 0 xs = (if dst \<le> length xs \<and> src \<le> length xs then Some xs else None)"
| "copy_first dst src (Suc n) xs = do {
     x \<leftarrow> load xs src;
     xs \<leftarrow> store dst x xs;
     copy_first (Suc dst) (Suc src) n xs
   }"

fun copy_last :: memcpy where
  "copy_last dst src 0 xs = (if dst \<le> length xs \<and> src \<le> length xs then Some xs else None)"
| "copy_last dst src (Suc n) xs = do {
     x \<leftarrow> load xs (src + n);
     xs \<leftarrow> store (dst + n) x xs;
     copy_last dst src n xs
   }"

section \<open>Operations\<close>

text \<open>
  A request for the action \<open>name\<close>: NULL when there is no free request or its name cannot be
  allocated. A source of more than \<open>IOT_ID_MAX_LEN\<close> characters is cut after one more and gets no NUL.
\<close>

definition source_copy :: "string option \<Rightarrow> (string \<times> bool) option" where
  "source_copy origin =
     (case origin of
        None \<Rightarrow> None
      | Some s \<Rightarrow> if s = [] then None else Some (take (IOT_ID_MAX_LEN + 1) s, length s \<le> IOT_ID_MAX_LEN))"

definition iot_action_request_allocate ::
    "heap \<Rightarrow> iot_requests \<Rightarrow> string option \<Rightarrow> string option \<Rightarrow>
     (nat option \<times> iot_requests \<times> heap) option" where
  "iot_action_request_allocate h Q name origin =
     (case name of
        None \<Rightarrow> Some (None, Q, h)
      | Some name \<Rightarrow>
          if name \<noteq> '''' \<and> request_queue_free_count Q < IOT_ACTION_QUEUE_MAX
          then do {
            result \<leftarrow> load (request_queue_free Q) (request_queue_free_count Q);
            let (ok, h) = os_grab h;
            let r = request_zero\<lparr>rq_lib := True\<rparr>;
            let r = (if ok then r\<lparr>rq_name := Some (take IOT_NAME_MAX_LEN name), rq_source := source_copy origin\<rparr>
                     else r);
            rs \<leftarrow> store result r (request_queue Q);
            Some (if ok
                  then (Some result, Q\<lparr>request_queue := rs,
                    request_queue_free_count := request_queue_free_count Q + 1\<rparr>, h)
                  else (None, Q\<lparr>request_queue := rs\<rparr>, h))
          }
          else Some (None, Q, h))"

text \<open>Appending to the waiting requests.\<close>

definition wait_put :: "iot_requests \<Rightarrow> nat \<Rightarrow> iot_requests option" where
  "wait_put Q i = do {
     ws \<leftarrow> store (request_queue_wait_count Q) i (request_queue_wait Q);
     Some (Q\<lparr>request_queue_wait := ws, request_queue_wait_count := request_queue_wait_count Q + 1\<rparr>)
   }"

text \<open>
  Handing a request over for execution. When the queue is full the plug-ins are told right away
  that it completed with \<open>FULL\<close>.
\<close>

definition iot_action_request_execute ::
    "(string \<Rightarrow> int) \<Rightarrow> (string \<Rightarrow> int) \<Rightarrow> 's iot_lib \<Rightarrow> heap \<Rightarrow> iot_requests \<Rightarrow> nat option \<Rightarrow> u32 \<Rightarrow> 's \<Rightarrow>
     (iot_status \<times> iot_requests \<times> 's iot_lib \<times> 's) option" where
  "iot_action_request_execute f g lib h Q request max_time_out s =
     (case request of
        None \<Rightarrow> Some (STATUS_BAD_PARAMETER, Q, lib, s)
      | Some i \<Rightarrow> do {
          r \<leftarrow> load (request_queue Q) i;
          (if \<not> rq_lib r then Some (STATUS_NOT_INITIALIZED, Q, lib, s)
           else if request_queue_wait_count Q < IOT_ACTION_QUEUE_MAX
           then do {
             Q \<leftarrow> wait_put Q i;
             Some (STATUS_SUCCESS, Q, lib, s)
           }
           else do {
             let (r, _) = iot_action_request_set_status h r STATUS_FULL None;
             (_, _, lib, s) \<leftarrow> perform_op f g lib False (Some max_time_out) OPERATION_ACTION_COMPLETE NULL
               (ValueRequest r) None s;
             Some (STATUS_FULL, Q\<lparr>request_queue := (request_queue Q)[i := r]\<rparr>, lib, s)
           })
        })"

text \<open>A worker takes the first waiting request and moves the others up.\<close>

definition wait_get :: "memcpy \<Rightarrow> iot_requests \<Rightarrow> (nat option \<times> iot_requests) option" where
  "wait_get cpy Q =
     (if request_queue_wait_count Q > 0
      then do {
        request \<leftarrow> load (request_queue_wait Q) 0;
        let count = request_queue_wait_count Q - 1;
        ws \<leftarrow> cpy 0 1 count (request_queue_wait Q);
        Some (Some request, Q\<lparr>request_queue_wait := ws, request_queue_wait_count := count\<rparr>)
      }
      else Some (None, Q))"

text \<open>
  Releasing a request: its storage, then the request itself, which goes back on the stack of free
  requests. With nothing in use the count wraps around and the store misses the array; a released
  parameter array would be released again.
\<close>

definition iot_action_request_free ::
    "heap \<Rightarrow> iot_requests \<Rightarrow> nat option \<Rightarrow> (iot_status \<times> iot_requests \<times> heap) option" where
  "iot_action_request_free h Q request =
     (case request of
        None \<Rightarrow> Some (STATUS_BAD_PARAMETER, Q, h)
      | Some i \<Rightarrow> do {
          r \<leftarrow> load (request_queue Q) i;
          (if \<not> rq_lib r then Some (STATUS_BAD_PARAMETER, Q, h)
           else do {
             h \<leftarrow> free_option_data (rq_option r) h;
             ps \<leftarrow> parameters r;
             h \<leftarrow> free_parameter_data ps h;
             _ \<leftarrow> rq_parameter r;
             (if request_queue_free_count Q = 0 then None else Some ());
             let count = request_queue_free_count Q - 1;
             fs \<leftarrow> store count i (request_queue_free Q);
             Some (STATUS_SUCCESS, Q\<lparr>request_queue := (request_queue Q)[i := request_zero],
               request_queue_free := fs, request_queue_free_count := count\<rparr>, h)
           })
        })"

section \<open>Copies\<close>

lemma memmove_nth:
  "memmove dst src n xs =
     (if dst + n \<le> length xs \<and> src + n \<le> length xs
      then Some (map (\<lambda>k. if dst \<le> k \<and> k < dst + n then xs ! (src + (k - dst)) else xs ! k) [0..<length xs])
      else None)"
  by (auto simp: memmove_def nth_append not_less intro!: nth_equalityI)

lemma memmove_first:
  assumes "dst \<le> src \<or> src + Suc n \<le> dst"
  shows "memmove dst src (Suc n) xs = do {
     x \<leftarrow> load xs src;
     xs \<leftarrow> store dst x xs;
     memmove (Suc dst) (Suc src) n xs
   }"
proof (cases "dst + Suc n \<le> length xs \<and> src + Suc n \<le> length xs")
  case False
  then show ?thesis by (auto simp: memmove_def load_def store_def)
next
  case True
  let ?ys = "xs[dst := xs ! src]"
  have "map (\<lambda>k. if dst \<le> k \<and> k < dst + Suc n then xs ! (src + (k - dst)) else xs ! k) [0..<length xs] =
     map (\<lambda>k. if Suc dst \<le> k \<and> k < Suc dst + n then ?ys ! (Suc src + (k - Suc dst)) else ?ys ! k) [0..<length ?ys]"
  proof (rule nth_equalityI)
    fix k assume "k < length (map (\<lambda>k. if dst \<le> k \<and> k < dst + Suc n then xs ! (src + (k - dst)) else xs ! k) [0..<length xs])"
    then have k: "k < length xs" by simp
    consider "k < dst" | "k = dst" | j where "k = Suc dst + j" "j < n" | "Suc dst + n \<le> k"
      by (metis add_Suc le_Suc_ex linorder_neqE_nat nat_add_left_cancel_less not_less Suc_leI)
    then show "map (\<lambda>k. if dst \<le> k \<and> k < dst + Suc n then xs ! (src + (k - dst)) else xs ! k) [0..<length xs] ! k =
       map (\<lambda>k. if Suc dst \<le> k \<and> k < Suc dst + n then ?ys ! (Suc src + (k - Suc dst)) else ?ys ! k) [0..<length ?ys] ! k"
    proof cases
      case (3 j)
      then have "dst \<noteq> Suc (src + j)" using assms by linarith
      then show ?thesis using 3 k True by simp
    qed (use k True in simp_all)
  qed simp
  then show ?thesis using True by (simp add: memmove_nth load_def store_def)
qed

lemma copy_first_memmove: "dst \<le> src \<or> src + n \<le> dst \<Longrightarrow> copy_first dst src n xs = memmove dst src n xs"
proof (induction n arbitrary: dst src xs)
  case 0
  then show ?case by (simp add: memmove_def)
next
  case (Suc n)
  have "copy_first (Suc dst) (Suc src) n = memmove (Suc dst) (Suc src) n"
    using Suc.prems by (intro ext Suc.IH) auto
  then show ?case by (simp add: memmove_first[OF Suc.prems])
qed

lemma copy_first_disjoint: "copies_disjoint copy_first"
  by (auto simp: copies_disjoint_def copy_first_memmove)

lemma memmove_last:
  assumes "src \<le> dst \<or> dst + Suc n \<le> src"
  shows "memmove dst src (Suc n) xs = do {
     x \<leftarrow> load xs (src + n);
     xs \<leftarrow> store (dst + n) x xs;
     memmove dst src n xs
   }"
proof (cases "dst + Suc n \<le> length xs \<and> src + Suc n \<le> length xs")
  case False
  then show ?thesis by (auto simp: memmove_def load_def store_def)
next
  case True
  let ?ys = "xs[dst + n := xs ! (src + n)]"
  have "map (\<lambda>k. if dst \<le> k \<and> k < dst + Suc n then xs ! (src + (k - dst)) else xs ! k) [0..<length xs] =
     map (\<lambda>k. if dst \<le> k \<and> k < dst + n then ?ys ! (src + (k - dst)) else ?ys ! k) [0..<length ?ys]"
  proof (rule nth_equalityI)
    fix k assume "k < length (map (\<lambda>k. if dst \<le> k \<and> k < dst + Suc n then xs ! (src + (k - dst)) else xs ! k) [0..<length xs])"
    then have k: "k < length xs" by simp
    consider "k < dst" | j where "k = dst + j" "j < n" | "k = dst + n" | "dst + n < k"
      by (metis le_Suc_ex linorder_neqE_nat nat_add_left_cancel_less not_less)
    then show "map (\<lambda>k. if dst \<le> k \<and> k < dst + Suc n then xs ! (src + (k - dst)) else xs ! k) [0..<length xs] ! k =
       map (\<lambda>k. if dst \<le> k \<and> k < dst + n then ?ys ! (src + (k - dst)) else ?ys ! k) [0..<length ?ys] ! k"
    proof cases
      case (2 j)
      then have "dst + n \<noteq> src + j" using assms by linarith
      then show ?thesis using 2 k True by simp
    qed (use k True in simp_all)
  qed simp
  then show ?thesis using True by (simp add: memmove_nth load_def store_def)
qed

lemma copy_last_disjoint: "copies_disjoint copy_last"
proof -
  have "copy_last dst src n xs = memmove dst src n xs" if "src \<le> dst \<or> dst + n \<le> src" for dst src n xs
    using that
  proof (induction n arbitrary: xs)
    case 0
    then show ?case by (simp add: memmove_def)
  next
    case (Suc n)
    have "copy_last dst src n = memmove dst src n" using Suc.prems by (intro ext Suc.IH) auto
    then show ?case by (simp add: memmove_last[OF Suc.prems])
  qed
  then show ?thesis by (auto simp: copies_disjoint_def)
qed

section \<open>First in, first out\<close>

text \<open>
  A bounded queue: what a client that puts and gets elements relies on. It gets elements while no
  more than \<open>limit\<close> are in it.
\<close>

datatype 'a queue_event = Put 'a | Got 'a

primrec puts :: "'a queue_event list \<Rightarrow> 'a list" where
  "puts [] = []"
| "puts (e # es) = (case e of Put x \<Rightarrow> x # puts es | Got x \<Rightarrow> puts es)"

primrec gots :: "'a queue_event list \<Rightarrow> 'a list" where
  "gots [] = []"
| "gots (e # es) = (case e of Put x \<Rightarrow> gots es | Got x \<Rightarrow> x # gots es)"

fun queue_run :: "('q \<Rightarrow> 'a \<Rightarrow> 'q option) \<Rightarrow> ('q \<Rightarrow> ('a option \<times> 'q) option) \<Rightarrow> 'q \<Rightarrow>
    'a queue_event list \<Rightarrow> 'q \<Rightarrow> bool" where
  "queue_run put get q [] q' \<longleftrightarrow> q = q'"
| "queue_run put get q (Put x # es) q' \<longleftrightarrow> (\<exists>r. put q x = Some r \<and> queue_run put get r es q')"
| "queue_run put get q (Got x # es) q' \<longleftrightarrow> (\<exists>r. get q = Some (Some x, r) \<and> queue_run put get r es q')"

primrec short_runs :: "nat \<Rightarrow> nat \<Rightarrow> 'a queue_event list \<Rightarrow> bool" where
  "short_runs limit n [] \<longleftrightarrow> True"
| "short_runs limit n (e # es) \<longleftrightarrow>
     (case e of Put x \<Rightarrow> short_runs limit (Suc n) es | Got x \<Rightarrow> n \<le> limit \<and> short_runs limit (n - 1) es)"

locale bounded_fifo =
  fixes put :: "'q \<Rightarrow> 'a \<Rightarrow> 'q option" and get :: "'q \<Rightarrow> ('a option \<times> 'q) option"
    and contents :: "'q \<Rightarrow> 'a list" and wf :: "'q \<Rightarrow> bool" and capacity limit :: nat
  assumes bounded: "wf q \<Longrightarrow> length (contents q) \<le> capacity"
    and put_full: "wf q \<Longrightarrow> length (contents q) = capacity \<Longrightarrow> put q x = None"
    and put_room: "wf q \<Longrightarrow> length (contents q) < capacity \<Longrightarrow>
      \<exists>r. put q x = Some r \<and> wf r \<and> contents r = contents q @ [x]"
    and get_empty: "wf q \<Longrightarrow> contents q = [] \<Longrightarrow> get q = Some (None, q)"
    and get_first: "wf q \<Longrightarrow> contents q = x # xs \<Longrightarrow> length (contents q) \<le> limit \<Longrightarrow>
      \<exists>r. get q = Some (Some x, r) \<and> wf r \<and> contents r = xs"
begin

lemma put_step: "wf q \<Longrightarrow> put q x = Some r \<Longrightarrow> wf r \<and> contents r = contents q @ [x]"
  using bounded[of q] put_full[of q x] put_room[of q x] by (cases "length (contents q) = capacity") auto

lemma get_step:
  "wf q \<Longrightarrow> get q = Some (Some x, r) \<Longrightarrow> length (contents q) \<le> limit \<Longrightarrow> wf r \<and> contents q = x # contents r"
  using get_empty[of q] get_first[of q] by (cases "contents q") fastforce+

lemma run_fifo:
  "queue_run put get q es q' \<Longrightarrow> wf q \<Longrightarrow> short_runs limit (length (contents q)) es \<Longrightarrow>
   wf q' \<and> contents q @ puts es = gots es @ contents q'"
proof (induction es arbitrary: q)
  case (Cons e es)
  show ?case
  proof (cases e)
    case (Put x)
    then obtain r where r: "put q x = Some r" "queue_run put get r es q'" using Cons.prems(1) by auto
    then show ?thesis using Cons.IH[OF r(2)] Cons.prems(2,3) put_step[OF _ r(1)] Put by simp
  next
    case (Got x)
    then obtain r where r: "get q = Some (Some x, r)" "queue_run put get r es q'" using Cons.prems(1) by auto
    then show ?thesis using Cons.IH[OF r(2)] Cons.prems(2,3) get_step[OF _ r(1)] Got by simp
  qed
qed simp

text \<open>Whatever is in the queue comes out after as many gets as there are elements before it.\<close>

lemma run_drain:
  "wf q \<Longrightarrow> n \<le> length (contents q) \<Longrightarrow> length (contents q) \<le> limit \<Longrightarrow>
   \<exists>q'. queue_run put get q (map Got (take n (contents q))) q' \<and> wf q' \<and> contents q' = drop n (contents q)"
proof (induction n arbitrary: q)
  case (Suc n)
  then obtain x xs where c: "contents q = x # xs" by (cases "contents q") auto
  obtain r where r: "get q = Some (Some x, r)" "wf r" "contents r = xs" using get_first[OF Suc.prems(1) c Suc.prems(3)] by blast
  then show ?case using Suc.IH[of r] Suc.prems c by simp
qed simp

end

text \<open>The waiting requests.\<close>

definition waiting :: "iot_requests \<Rightarrow> nat list" where
  "waiting Q = take (request_queue_wait_count Q) (request_queue_wait Q)"

definition wait_ok :: "iot_requests \<Rightarrow> bool" where
  "wait_ok Q \<longleftrightarrow> length (request_queue_wait Q) = IOT_ACTION_QUEUE_MAX \<and>
     request_queue_wait_count Q \<le> IOT_ACTION_QUEUE_MAX"

lemma length_waiting [simp]: "wait_ok Q \<Longrightarrow> length (waiting Q) = request_queue_wait_count Q"
  by (simp add: wait_ok_def waiting_def)

text \<open>The move of a single pointer does not overlap: with at most two waiting, any copy will do.\<close>

lemma wait_get_first:
  assumes "copies_disjoint cpy" "wait_ok Q" "waiting Q = x # xs" "length (waiting Q) \<le> 2"
  shows "\<exists>r. wait_get cpy Q = Some (Some x, r) \<and> wait_ok r \<and> waiting r = xs \<and>
    request_queue r = request_queue Q \<and> request_queue_free r = request_queue_free Q \<and>
    request_queue_free_count r = request_queue_free_count Q"
proof -
  obtain n where n: "request_queue_wait_count Q = Suc n" using assms(2,3) by (metis length_Cons length_waiting)
  obtain y ys where ws: "request_queue_wait Q = y # ys" "length ys = 9"
    using assms(2) by (cases "request_queue_wait Q") (auto simp: wait_ok_def)
  have one: "n \<le> 1" using assms(2,4) n by simp
  have "x = y" "xs = take n ys" using assms(3) n ws by (simp_all add: waiting_def)
  moreover have "cpy 0 1 n (request_queue_wait Q) = Some (take n ys @ drop n (y # ys))"
    using assms(1) ws one by (simp add: copies_disjoint_def memmove_def)
  ultimately show ?thesis using n ws one
    by (simp add: wait_get_def load_def Let_def wait_ok_def waiting_def)
qed

lemma wait_fifo:
  assumes "copies_disjoint cpy"
  shows "bounded_fifo wait_put (wait_get cpy) waiting wait_ok IOT_ACTION_QUEUE_MAX 2"
proof
  fix Q x assume "wait_ok Q" "length (waiting Q) < IOT_ACTION_QUEUE_MAX"
  then show "\<exists>r. wait_put Q x = Some r \<and> wait_ok r \<and> waiting r = waiting Q @ [x]"
    by (auto simp: wait_put_def store_def wait_ok_def waiting_def take_Suc_conv_app_nth)
next
  fix Q x xs assume "wait_ok Q" "waiting Q = x # xs" "length (waiting Q) \<le> 2"
  then show "\<exists>r. wait_get cpy Q = Some (Some x, r) \<and> wait_ok r \<and> waiting r = xs"
    using wait_get_first[OF assms] by blast
qed (auto simp: wait_put_def store_def wait_ok_def wait_get_def waiting_def)

text \<open>With either way to copy.\<close>

interpretation wait_queue: bounded_fifo wait_put "wait_get copy_first" waiting wait_ok IOT_ACTION_QUEUE_MAX 2
  by (rule wait_fifo[OF copy_first_disjoint])

interpretation wait_queue_last: bounded_fifo wait_put "wait_get copy_last" waiting wait_ok IOT_ACTION_QUEUE_MAX 2
  by (rule wait_fifo[OF copy_last_disjoint])

section \<open>Client and workers\<close>

text \<open>
  The requests, those the client holds, those each worker runs, and the library with the world.
  A client fills in the requests it holds and a worker those it runs; a request is handed over or
  released by its holder.
\<close>

type_synonym 's request_world = "iot_requests \<times> nat set \<times> (nat \<rightharpoonup> nat) \<times> 's iot_lib \<times> 's"

datatype request_event =
    Allocated nat | Refused | Changed nat | Enqueued nat | Dropped nat | Taken nat nat | Completed nat nat
  | Outside

inductive request_step ::
    "(string \<Rightarrow> int) \<Rightarrow> (string \<Rightarrow> int) \<Rightarrow> memcpy \<Rightarrow> 's request_world \<Rightarrow> request_event \<Rightarrow> 's request_world \<Rightarrow> bool"
  for f g cpy where
  allocate: "iot_action_request_allocate h Q name origin = Some (Some i, Q', h') \<Longrightarrow>
    request_step f g cpy (Q, H, run, lib, s) (Allocated i) (Q', insert i H, run, lib, s)"
| refuse: "iot_action_request_allocate h Q name origin = Some (None, Q', h') \<Longrightarrow>
    request_step f g cpy (Q, H, run, lib, s) Refused (Q', H, run, lib, s)"
| change: "i \<in> H \<union> ran run \<Longrightarrow> rq_lib r \<Longrightarrow>
    request_step f g cpy (Q, H, run, lib, s) (Changed i)
      (Q\<lparr>request_queue := (request_queue Q)[i := r]\<rparr>, H, run, lib, s)"
| enqueue: "i \<in> H \<Longrightarrow> iot_action_request_execute f g lib h Q (Some i) m s = Some (STATUS_SUCCESS, Q', lib', s') \<Longrightarrow>
    request_step f g cpy (Q, H, run, lib, s) (Enqueued i) (Q', H - {i}, run, lib', s')"
| drop: "i \<in> H \<Longrightarrow> iot_action_request_free h Q (Some i) = Some (STATUS_SUCCESS, Q', h') \<Longrightarrow>
    request_step f g cpy (Q, H, run, lib, s) (Dropped i) (Q', H - {i}, run, lib, s)"
| take: "run w = None \<Longrightarrow> wait_get cpy Q = Some (Some i, Q') \<Longrightarrow>
    request_step f g cpy (Q, H, run, lib, s) (Taken w i) (Q', H, run(w \<mapsto> i), lib, s)"
| complete: "run w = Some i \<Longrightarrow> iot_action_request_free h Q (Some i) = Some (STATUS_SUCCESS, Q', h') \<Longrightarrow>
    request_step f g cpy (Q, H, run, lib, s) (Completed w i) (Q', H, run(w := None), lib, s)"
| outside: "request_step f g cpy (Q, H, run, lib, s) Outside (Q, H, run, lib', s')"

inductive request_run ::
    "(string \<Rightarrow> int) \<Rightarrow> (string \<Rightarrow> int) \<Rightarrow> memcpy \<Rightarrow> 's request_world \<Rightarrow> request_event list \<Rightarrow> 's request_world \<Rightarrow> bool"
  for f g cpy where
  start: "request_run f g cpy W [] W"
| step: "request_run f g cpy W es V \<Longrightarrow> request_step f g cpy V e U \<Longrightarrow> request_run f g cpy W (es @ [e]) U"

definition available :: "iot_requests \<Rightarrow> nat list" where
  "available Q = List.drop (request_queue_free_count Q) (request_queue_free Q)"

text \<open>Every request of the pool is free, held, waiting or running, and only one of these.\<close>

definition shared :: "iot_requests \<Rightarrow> nat set \<Rightarrow> (nat \<rightharpoonup> nat) \<Rightarrow> bool" where
  "shared Q H run \<longleftrightarrow>
     set (available Q) \<union> H \<union> set (waiting Q) \<union> ran run = {..<IOT_ACTION_QUEUE_MAX} \<and>
     set (available Q) \<inter> H = {} \<and> set (available Q) \<inter> set (waiting Q) = {} \<and> set (available Q) \<inter> ran run = {} \<and>
     H \<inter> set (waiting Q) = {} \<and> H \<inter> ran run = {} \<and> set (waiting Q) \<inter> ran run = {} \<and>
     distinct (available Q) \<and> distinct (waiting Q) \<and> inj_on run (dom run)"

definition requests_ok :: "iot_requests \<Rightarrow> nat set \<Rightarrow> (nat \<rightharpoonup> nat) \<Rightarrow> bool" where
  "requests_ok Q H run \<longleftrightarrow>
     length (request_queue Q) = IOT_ACTION_QUEUE_MAX \<and> length (request_queue_free Q) = IOT_ACTION_QUEUE_MAX \<and>
     request_queue_free_count Q \<le> IOT_ACTION_QUEUE_MAX \<and> wait_ok Q \<and> shared Q H run \<and>
     (\<forall>i \<in> H \<union> set (waiting Q) \<union> ran run. rq_lib (request_queue Q ! i))"

lemma initial_ok: "length nulls = 10 \<Longrightarrow> requests_ok (requests_initial nulls) {} Map.empty"
  by (auto simp: requests_ok_def requests_initial_def shared_def available_def waiting_def wait_ok_def
      atLeast0LessThan)

lemma owned_less: "requests_ok Q H run \<Longrightarrow> i \<in> H \<union> set (waiting Q) \<union> ran run \<Longrightarrow> i < 10"
  unfolding requests_ok_def shared_def by blast

lemma owned_lib: "requests_ok Q H run \<Longrightarrow> i \<in> H \<union> set (waiting Q) \<union> ran run \<Longrightarrow>
    i < length (request_queue Q) \<and> rq_lib (request_queue Q ! i)"
  using owned_less unfolding requests_ok_def by auto

lemma allocate_cases:
  assumes "iot_action_request_allocate h Q name origin = Some (res, Q', h')"
  obtains "res = None" "Q' = Q"
  | i r rs where "request_queue_free_count Q < 10" "load (request_queue_free Q) (request_queue_free_count Q) = Some i"
      "store i r (request_queue Q) = Some rs" "rq_lib r" "res = None" "Q' = Q\<lparr>request_queue := rs\<rparr>"
  | i r rs where "request_queue_free_count Q < 10" "load (request_queue_free Q) (request_queue_free_count Q) = Some i"
      "store i r (request_queue Q) = Some rs" "rq_lib r" "res = Some i"
      "Q' = Q\<lparr>request_queue := rs, request_queue_free_count := request_queue_free_count Q + 1\<rparr>"
proof (cases "\<exists>n. name = Some n \<and> n \<noteq> [] \<and> request_queue_free_count Q < 10")
  case False
  then have "res = None \<and> Q' = Q" using assms
    by (auto simp: iot_action_request_allocate_def split: option.splits if_splits)
  then show ?thesis using that(1) by blast
next
  case True
  then obtain n where n: "name = Some n" "n \<noteq> []" "request_queue_free_count Q < 10" by blast
  obtain ok h1 where g: "os_grab h = (ok, h1)" by (cases "os_grab h")
  define r where "r = (if ok then request_zero\<lparr>rq_lib := True, rq_name := Some (take IOT_NAME_MAX_LEN n),
      rq_source := source_copy origin\<rparr> else request_zero\<lparr>rq_lib := True\<rparr>)"
  have lib: "rq_lib r" by (simp add: r_def request_zero_def)
  obtain i where i: "load (request_queue_free Q) (request_queue_free_count Q) = Some i"
    using assms n by (auto simp: iot_action_request_allocate_def split: Option.bind_splits)
  obtain rs where rs: "store i r (request_queue Q) = Some rs"
    using assms n i g by (cases ok) (auto simp: iot_action_request_allocate_def Let_def r_def split: Option.bind_splits)
  show ?thesis
  proof (cases ok)
    case True
    then show ?thesis using assms n i g rs lib that(3)[OF n(3) i rs lib]
      by (simp add: iot_action_request_allocate_def Let_def r_def)
  next
    case False
    then show ?thesis using assms n i g rs lib that(2)[OF n(3) i rs lib]
      by (simp add: iot_action_request_allocate_def Let_def r_def)
  qed
qed

lemma update_pool_ok:
  assumes "requests_ok Q H run" "store i r (request_queue Q) = Some rs" "rq_lib r"
  shows "requests_ok (Q\<lparr>request_queue := rs\<rparr>) H run \<and> waiting (Q\<lparr>request_queue := rs\<rparr>) = waiting Q"
  using assms unfolding requests_ok_def shared_def
  by (auto simp: store_def available_def waiting_def wait_ok_def nth_list_update split: if_splits)

lemma allocate_ok:
  assumes ok: "requests_ok Q H run" and al: "iot_action_request_allocate h Q name origin = Some (res, Q', h')"
  shows "requests_ok Q' (set_option res \<union> H) run \<and> waiting Q' = waiting Q"
  using al
proof (cases rule: allocate_cases)
  case 1
  then show ?thesis using ok by simp
next
  case (2 i r rs)
  then show ?thesis using update_pool_ok[OF ok] by simp
next
  case (3 i r rs)
  have av: "available Q = i # available Q'"
    using 3 by (auto simp: available_def load_def Cons_nth_drop_Suc split: if_splits)
  have w: "waiting Q' = waiting Q" "wait_ok Q' = wait_ok Q" using 3 by (simp_all add: waiting_def wait_ok_def)
  have rs: "rs = (request_queue Q)[i := r]" "i < length (request_queue Q)"
    using 3(3) by (auto simp: store_def split: if_splits)
  have "shared Q' (insert i H) run"
    using ok unfolding requests_ok_def shared_def av w by auto
  then show ?thesis
    using ok 3 rs w unfolding requests_ok_def by (auto simp: nth_list_update)
qed

lemma length_less_pool:
  assumes "set xs \<subseteq> {..<10} - {i}" "distinct xs" "i < (10 :: nat)" shows "length xs < 10"
proof -
  have "card (set xs) \<le> card ({..<10} - {i})" by (rule card_mono) (use assms(1) in auto)
  then show ?thesis using assms(2,3) by (simp add: distinct_card)
qed

lemma owned_room:
  assumes ok: "requests_ok Q H run" and i: "i \<in> H \<union> ran run"
  shows "request_queue_wait_count Q < 10" "0 < request_queue_free_count Q"
proof -
  have sh: "shared Q H run" using ok by (simp add: requests_ok_def)
  have "i < 10" using owned_less[OF ok] i by blast
  have "set (waiting Q) \<subseteq> {..<10} - {i}" "set (available Q) \<subseteq> {..<10} - {i}"
    "distinct (waiting Q)" "distinct (available Q)"
    using sh i unfolding shared_def by blast+
  then have "length (waiting Q) < 10" "length (available Q) < 10"
    using length_less_pool \<open>i < 10\<close> by blast+
  then show "request_queue_wait_count Q < 10" "0 < request_queue_free_count Q"
    using ok by (simp_all add: requests_ok_def available_def)
qed

lemma enqueue_ok:
  assumes ok: "requests_ok Q H run" and i: "i \<in> H"
  shows "\<exists>Q'. iot_action_request_execute f g lib h Q (Some i) m s = Some (STATUS_SUCCESS, Q', lib, s) \<and>
    wait_put Q i = Some Q' \<and> requests_ok Q' (H - {i}) run \<and> waiting Q' = waiting Q @ [i]"
proof -
  have room: "request_queue_wait_count Q < 10" using owned_room(1)[OF ok] i by blast
  have lib: "i < length (request_queue Q)" "rq_lib (request_queue Q ! i)" using owned_lib[OF ok, of i] i by auto
  have wok: "wait_ok Q" using ok by (simp add: requests_ok_def)
  obtain Q' where Q': "wait_put Q i = Some Q'" "wait_ok Q'" "waiting Q' = waiting Q @ [i]"
    using bounded_fifo.put_room[OF wait_fifo[OF copy_first_disjoint] wok, of i] room wok by auto
  have same: "request_queue Q' = request_queue Q" "request_queue_free Q' = request_queue_free Q"
    "request_queue_free_count Q' = request_queue_free_count Q"
    using Q'(1) by (auto simp: wait_put_def store_def split: if_splits)
  have "shared Q' (H - {i}) run"
    using ok i same unfolding requests_ok_def shared_def available_def Q'(3) by auto
  then have "requests_ok Q' (H - {i}) run"
    using ok i same Q' unfolding requests_ok_def by auto
  moreover have "iot_action_request_execute f g lib h Q (Some i) m s = Some (STATUS_SUCCESS, Q', lib, s)"
    using lib room Q'(1) by (simp add: iot_action_request_execute_def load_def)
  ultimately show ?thesis using Q' by blast
qed

lemma free_eq:
  assumes "iot_action_request_free h Q (Some i) = Some (STATUS_SUCCESS, Q', h')"
  shows "0 < request_queue_free_count Q \<and> i < length (request_queue Q) \<and>
    request_queue_free_count Q - 1 < length (request_queue_free Q) \<and>
    Q' = Q\<lparr>request_queue := (request_queue Q)[i := request_zero],
      request_queue_free := (request_queue_free Q)[request_queue_free_count Q - 1 := i],
      request_queue_free_count := request_queue_free_count Q - 1\<rparr>"
  using assms by (auto simp: iot_action_request_free_def Let_def load_def store_def
      split: if_splits Option.bind_splits)

lemma free_ok:
  assumes ok: "requests_ok Q H run" and fr: "iot_action_request_free h Q (Some i) = Some (STATUS_SUCCESS, Q', h')"
    and own: "H' \<subseteq> H" "ran run' \<subseteq> ran run" "inj_on run' (dom run')" "i \<notin> H'" "i \<notin> ran run'"
      "H \<union> ran run = insert i (H' \<union> ran run')"
  shows "requests_ok Q' H' run' \<and> waiting Q' = waiting Q"
proof -
  note eq = free_eq[OF fr]
  have w: "waiting Q' = waiting Q" "wait_ok Q' = wait_ok Q" using eq by (simp_all add: waiting_def wait_ok_def)
  have av: "available Q' = i # available Q"
  proof -
    have "List.drop (request_queue_free_count Q - 1) ((request_queue_free Q)[request_queue_free_count Q - 1 := i]) =
        i # List.drop (request_queue_free_count Q) (request_queue_free Q)"
      using eq Cons_nth_drop_Suc[of "request_queue_free_count Q - 1" "(request_queue_free Q)[request_queue_free_count Q - 1 := i]"]
      by simp
    then show ?thesis using eq by (simp add: available_def)
  qed
  have i: "i \<in> H \<union> ran run" using own(6) by auto
  have sh: "shared Q H run" using ok by (simp add: requests_ok_def)
  then have fresh: "i \<notin> set (available Q)" "i \<notin> set (waiting Q)" using i unfolding shared_def by auto
  have "set (available Q') \<union> H' \<union> set (waiting Q') \<union> ran run' = {..<IOT_ACTION_QUEUE_MAX}"
    using sh own(6) unfolding shared_def av w by auto
  then have "shared Q' H' run'"
    using sh own fresh unfolding shared_def av w by auto
  then show ?thesis
    using ok eq w own fresh unfolding requests_ok_def by (auto simp: nth_list_update)
qed

lemma take_ok:
  assumes ok: "requests_ok Q H run" and idle: "run w = None" and cpy: "copies_disjoint cpy"
    and few: "length (waiting Q) \<le> 2" and got: "wait_get cpy Q = Some (Some i, Q')"
  shows "requests_ok Q' H (run(w \<mapsto> i)) \<and> waiting Q = i # waiting Q'"
proof -
  have wok: "wait_ok Q" using ok by (simp add: requests_ok_def)
  have step: "wait_ok Q' \<and> waiting Q = i # waiting Q'"
    using bounded_fifo.get_step[OF wait_fifo[OF cpy] wok got few] .
  then have same: "request_queue Q' = request_queue Q" "request_queue_free Q' = request_queue_free Q"
    "request_queue_free_count Q' = request_queue_free_count Q"
    using wait_get_first[OF cpy wok, of i "waiting Q'"] got few by auto
  have ran: "ran (run(w \<mapsto> i)) = insert i (ran run)" using idle by (rule ran_map_upd)
  have sh: "shared Q H run" using ok by (simp add: requests_ok_def)
  have "i \<notin> ran run" using sh step unfolding shared_def by auto
  then have inj: "inj_on (run(w \<mapsto> i)) (dom (run(w \<mapsto> i)))"
    using sh idle unfolding shared_def by (auto simp: inj_on_def ran_def dom_def)
  have "shared Q' H (run(w \<mapsto> i))"
    using sh step inj unfolding shared_def available_def same ran by auto
  then show ?thesis using ok step same ran unfolding requests_ok_def by auto
qed

primrec event_enqueued :: "request_event \<Rightarrow> nat list" where
  "event_enqueued (Allocated i) = []" | "event_enqueued Refused = []" | "event_enqueued (Changed i) = []"
| "event_enqueued (Enqueued i) = [i]" | "event_enqueued (Dropped i) = []" | "event_enqueued (Taken w i) = []"
| "event_enqueued (Completed w i) = []" | "event_enqueued Outside = []"

primrec event_taken :: "request_event \<Rightarrow> nat list" where
  "event_taken (Allocated i) = []" | "event_taken Refused = []" | "event_taken (Changed i) = []"
| "event_taken (Enqueued i) = []" | "event_taken (Dropped i) = []" | "event_taken (Taken w i) = [i]"
| "event_taken (Completed w i) = []" | "event_taken Outside = []"

lemma step_ok:
  assumes "request_step f g cpy (Q, H, run, lib, s) e (Q', H', run', lib', s')"
    and cpy: "copies_disjoint cpy" and ok: "requests_ok Q H run"
    and few: "event_taken e \<noteq> [] \<Longrightarrow> length (waiting Q) \<le> 2"
  shows "requests_ok Q' H' run' \<and> waiting Q @ event_enqueued e = event_taken e @ waiting Q'"
  using assms(1)
proof cases
  case (allocate h name origin i h')
  then show ?thesis using allocate_ok[OF ok, of h name origin "Some i" Q' h'] by simp
next
  case (refuse h name origin h')
  then show ?thesis using allocate_ok[OF ok, of h name origin None Q' h'] by simp
next
  case (change i r)
  then have "i < length (request_queue Q)" using owned_lib[OF ok, of i] by blast
  then show ?thesis using change update_pool_ok[OF ok, of i r] by (simp add: store_def)
next
  case (enqueue i h m)
  then show ?thesis using enqueue_ok[OF ok, of i f g lib h m s] by auto
next
  case (drop i h h')
  have sh: "shared Q H run" using ok by (simp add: requests_ok_def)
  then have "i \<notin> ran run" "inj_on run (dom run)" using drop(6) unfolding shared_def by auto
  then have "requests_ok Q' (H - {i}) run \<and> waiting Q' = waiting Q"
    using drop by (intro free_ok[OF ok drop(7)]) auto
  then show ?thesis using drop by simp
next
  case (take w i)
  then show ?thesis using take_ok[OF ok _ cpy, of w i Q'] few by simp
next
  case (complete w i h h')
  have sh: "shared Q H run" using ok by (simp add: requests_ok_def)
  then have inj: "inj_on run (dom run)" "H \<inter> ran run = {}" unfolding shared_def by auto
  have ran: "ran (run(w := None)) = ran run - {i}"
    using inj(1) complete(6) by (auto simp: ran_def inj_on_def dom_def split: if_splits) (metis option.inject)
  have "i \<in> ran run" using complete(6) by (auto simp: ran_def)
  moreover have "inj_on (run(w := None)) (dom (run(w := None)))"
    using inj(1) by (auto simp: inj_on_def dom_def)
  ultimately have "requests_ok Q' H (run(w := None)) \<and> waiting Q' = waiting Q"
    using inj ran by (intro free_ok[OF ok complete(7)]) auto
  then show ?thesis using complete by simp
next
  case outside
  then show ?thesis using ok by simp
qed

text \<open>
  Where at most two requests wait whenever one is taken: \<open>n\<close> are waiting at first, and each event
  finds those that were enqueued before it and not taken.
\<close>

definition few_waiting :: "nat \<Rightarrow> request_event list \<Rightarrow> bool" where
  "few_waiting n es \<longleftrightarrow> (\<forall>k < length es. event_taken (es ! k) \<noteq> [] \<longrightarrow>
     n + length (concat (map event_enqueued (take k es))) \<le> length (concat (map event_taken (take k es))) + 2)"

lemma few_waiting_snoc:
  "few_waiting n (es @ [e]) \<longleftrightarrow> few_waiting n es \<and> (event_taken e \<noteq> [] \<longrightarrow>
     n + length (concat (map event_enqueued es)) \<le> length (concat (map event_taken es)) + 2)"
  by (auto simp: few_waiting_def nth_append less_Suc_eq)

lemma run_ok:
  assumes "request_run f g cpy (Q, H, run, lib, s) es W" "copies_disjoint cpy" "requests_ok Q H run"
    and "few_waiting (length (waiting Q)) es"
  shows "\<exists>Q' H' run' lib' s'. W = (Q', H', run', lib', s') \<and> requests_ok Q' H' run' \<and>
    waiting Q @ concat (map event_enqueued es) = concat (map event_taken es) @ waiting Q'"
  using assms(1,4)
proof (induction "(Q, H, run, lib, s)" es W rule: request_run.induct)
  case start
  then show ?case using assms(3) by simp
next
  case (step es V e U)
  have few: "few_waiting (length (waiting Q)) es" "event_taken e \<noteq> [] \<longrightarrow>
      length (waiting Q) + length (concat (map event_enqueued es)) \<le> length (concat (map event_taken es)) + 2"
    using step.prems by (simp_all add: few_waiting_snoc)
  with step obtain Q' H' run' lib' s' where V: "V = (Q', H', run', lib', s')" "requests_ok Q' H' run'"
    "waiting Q @ concat (map event_enqueued es) = concat (map event_taken es) @ waiting Q'" by blast
  obtain Q2 H2 run2 lib2 s2 where U: "U = (Q2, H2, run2, lib2, s2)" by (cases U)
  have "requests_ok Q2 H2 run2 \<and> waiting Q' @ event_enqueued e = event_taken e @ waiting Q2"
  proof (rule step_ok[OF step.hyps(3)[unfolded V(1) U] assms(2) V(2)])
    assume "event_taken e \<noteq> []"
    moreover have "length (waiting Q) + length (concat (map event_enqueued es)) =
        length (concat (map event_taken es)) + length (waiting Q')"
      using arg_cong[OF V(3), of length] by simp
    ultimately show "length (waiting Q') \<le> 2" using few(2) by simp
  qed
  then show ?case using V(3) U by simp (metis append_assoc)
qed

lemma used_count:
  assumes "requests_ok Q H run"
  shows "card H + length (waiting Q) + card (ran run) = request_queue_free_count Q"
proof -
  have sh: "shared Q H run" and len: "length (available Q) = 10 - request_queue_free_count Q"
    "request_queue_free_count Q \<le> 10" using assms by (simp_all add: requests_ok_def available_def)
  have fin: "finite H" "finite (ran run)"
    using sh unfolding shared_def by (metis finite_Un finite_lessThan)+
  have apart: "set (available Q) \<inter> H = {}" "(set (available Q) \<union> H) \<inter> set (waiting Q) = {}"
    "(set (available Q) \<union> H \<union> set (waiting Q)) \<inter> ran run = {}"
    using sh unfolding shared_def by blast+
  have "card ({..<10} :: nat set) = card (set (available Q) \<union> H \<union> set (waiting Q) \<union> ran run)"
    using sh unfolding shared_def by simp
  also have "\<dots> = card (set (available Q)) + card H + card (set (waiting Q)) + card (ran run)"
    by (simp add: card_Un_disjoint fin apart)
  also have "\<dots> = length (available Q) + card H + length (waiting Q) + card (ran run)"
    using sh unfolding shared_def by (simp add: distinct_card)
  finally show ?thesis using len by simp
qed

section \<open>Properties\<close>

text \<open>
  C3: whatever clients and workers do, as long as no more than two requests wait when one is
  taken, every request of the pool is free, held by a client, waiting or run by one worker, and
  never two of these at once. So the waiting array, as large as the pool, always has room for a
  request that is held; taking (from at most two), allocating and releasing never leave the
  arrays; and the count of requests in use is the number of those held, waiting and running. With
  three or more waiting, the code copies between areas that overlap, of which nothing is
  documented: of the copy, \<open>copies_disjoint\<close> is all that is used.
\<close>

theorem requests_safe:
  assumes run: "request_run f g cpy (requests_initial nulls, {}, Map.empty, lib0, s0) es (Q, H, run, lib, s)"
    and nulls: "length nulls = IOT_ACTION_QUEUE_MAX"
    and cpy: "copies_disjoint cpy" and few: "few_waiting 0 es"
  shows "requests_ok Q H run \<and>
    card H + length (waiting Q) + card (ran run) = request_queue_free_count Q \<and>
    (\<forall>i \<in> H. \<exists>Q'. iot_action_request_execute f g lib h Q (Some i) m s = Some (STATUS_SUCCESS, Q', lib, s)) \<and>
    (length (waiting Q) \<le> 2 \<longrightarrow> wait_get cpy Q \<noteq> None) \<and> iot_action_request_allocate h Q name origin \<noteq> None \<and>
    (\<forall>i \<in> H \<union> ran run. \<forall>h1 h2 ps. free_option_data (rq_option (request_queue Q ! i)) h = Some h1 \<longrightarrow>
       parameters (request_queue Q ! i) = Some ps \<longrightarrow> rq_parameter (request_queue Q ! i) \<noteq> None \<longrightarrow>
       free_parameter_data ps h1 = Some h2 \<longrightarrow>
       (\<exists>Q'. iot_action_request_free h Q (Some i) = Some (STATUS_SUCCESS, Q', h2)))"
proof -
  have "waiting (requests_initial nulls) = []" by (simp add: waiting_def requests_initial_def)
  then have ok: "requests_ok Q H run" using run_ok[OF run cpy initial_ok[OF nulls]] few by simp
  have wok: "wait_ok Q" using ok by (simp add: requests_ok_def)
  have get: "length (waiting Q) \<le> 2 \<longrightarrow> wait_get cpy Q \<noteq> None"
    using wait_get_first[OF cpy wok] bounded_fifo.get_empty[OF wait_fifo[OF cpy] wok]
    by (cases "waiting Q") fastforce+
  have free: "i < 10" if "i \<in> set (available Q)" for i
    using ok that unfolding requests_ok_def shared_def by blast
  have "request_queue_free Q ! request_queue_free_count Q \<in> set (available Q)"
    if "request_queue_free_count Q < 10"
    using that ok by (simp add: available_def requests_ok_def flip: Cons_nth_drop_Suc)
  then have alloc: "iot_action_request_allocate h Q name origin \<noteq> None"
    using ok free by (auto simp: iot_action_request_allocate_def load_def store_def requests_ok_def Let_def
        split: option.splits prod.splits)
  have release: "\<exists>Q'. iot_action_request_free h Q (Some i) = Some (STATUS_SUCCESS, Q', h2)"
    if "i \<in> H \<union> ran run" "free_option_data (rq_option (request_queue Q ! i)) h = Some h1"
      "parameters (request_queue Q ! i) = Some ps" "rq_parameter (request_queue Q ! i) \<noteq> None"
      "free_parameter_data ps h1 = Some h2" for i h1 h2 ps
    using that owned_lib[OF ok, of i] owned_room(2)[OF ok that(1)] ok
    by (auto simp: iot_action_request_free_def load_def store_def Let_def requests_ok_def)
  show ?thesis
  proof (intro conjI ballI allI impI)
    fix i assume "i \<in> H"
    then show "\<exists>Q'. iot_action_request_execute f g lib h Q (Some i) m s = Some (STATUS_SUCCESS, Q', lib, s)"
      using enqueue_ok[OF ok, of i f g lib h m s] by blast
  next
    fix i h1 h2 ps
    assume "i \<in> H \<union> ran run" "free_option_data (rq_option (request_queue Q ! i)) h = Some h1"
      "parameters (request_queue Q ! i) = Some ps" "rq_parameter (request_queue Q ! i) \<noteq> None"
      "free_parameter_data ps h1 = Some h2"
    then show "\<exists>Q'. iot_action_request_free h Q (Some i) = Some (STATUS_SUCCESS, Q', h2)" by (rule release)
  qed (use ok used_count[OF ok] get alloc in simp_all)
qed

text \<open>
  C4: as long as no more than two requests wait when one is taken, they are handed to the workers
  in the order in which clients handed them over: the requests taken so far followed by those that
  wait are those enqueued so far; and one of at most two that wait is taken after exactly as many
  takes as there are requests before it.
\<close>

theorem requests_in_order:
  assumes run: "request_run f g cpy (requests_initial nulls, {}, Map.empty, lib0, s0) es (Q, H, run, lib, s)"
    and nulls: "length nulls = IOT_ACTION_QUEUE_MAX"
    and cpy: "copies_disjoint cpy" and few: "few_waiting 0 es"
  shows "concat (map event_enqueued es) = concat (map event_taken es) @ waiting Q \<and>
    (waiting Q = before @ i # after \<and> length (waiting Q) \<le> 2 \<longrightarrow>
      (\<exists>Q'. queue_run wait_put (wait_get cpy) Q (map Got (before @ [i])) Q' \<and> waiting Q' = after))"
proof -
  have nil: "waiting (requests_initial nulls) = []" by (simp add: waiting_def requests_initial_def)
  have r: "requests_ok Q H run"
    "waiting (requests_initial nulls) @ concat (map event_enqueued es) = concat (map event_taken es) @ waiting Q"
    using run_ok[OF run cpy initial_ok[OF nulls]] few nil by simp_all
  have wok: "wait_ok Q" using r(1) by (simp add: requests_ok_def)
  have "\<exists>Q'. queue_run wait_put (wait_get cpy) Q (map Got (before @ [i])) Q' \<and> waiting Q' = after"
    if "waiting Q = before @ i # after" "length (waiting Q) \<le> 2"
    using bounded_fifo.run_drain[OF wait_fifo[OF cpy] wok, of "length (before @ [i])"] that by auto
  then have "waiting Q = before @ i # after \<and> length (waiting Q) \<le> 2 \<longrightarrow>
      (\<exists>Q'. queue_run wait_put (wait_get cpy) Q (map Got (before @ [i])) Q' \<and> waiting Q' = after)" by blast
  then show ?thesis using r(2)[unfolded nil] by simp
qed

text \<open>
  C39: \<open>os_memcpy\<close> is used on ranges that overlap. With a copy that does what is documented for
  ranges that do not, taking a request works while at most two wait; but with one that moves the
  last element first, taking a request replaces every other waiting request by the last one: all
  but one of them are lost and that one runs again and again.
\<close>

theorem requests_overlap:
  assumes "wait_ok Q" and "waiting Q = x # xs"
  shows "copies_disjoint copy_last \<and> wait_get copy_last Q \<noteq> None \<and>
    (\<forall>Q'. wait_get copy_last Q = Some (Some x, Q') \<longrightarrow>
       waiting Q' = replicate (length xs) (last (waiting Q))) \<and>
    (\<forall>cpy. copies_disjoint cpy \<longrightarrow> length xs \<le> 1 \<longrightarrow>
       (\<exists>Q'. wait_get cpy Q = Some (Some x, Q') \<and> waiting Q' = xs))"
proof -
  have last_copy: "copy_last 0 1 n ws = Some (replicate n (ws ! n) @ List.drop n ws)" if "n < length ws"
    for n and ws :: "nat list"
    using that
  proof (induction n arbitrary: ws)
    case (Suc n)
    then show ?case
      by (simp add: load_def store_def replicate_append_same[symmetric] Cons_nth_drop_Suc[symmetric])
  qed (simp add: Suc_le_eq)
  have n: "request_queue_wait_count Q = Suc (length xs)"
    using assms by (metis length_Cons length_waiting)
  have len: "length (request_queue_wait Q) = 10" "Suc (length xs) \<le> 10"
    using assms(1) n by (simp_all add: wait_ok_def)
  then obtain ws where ws: "request_queue_wait Q = x # ws" "xs = take (length xs) ws"
    using assms(2) n by (cases "request_queue_wait Q") (auto simp: waiting_def)
  have lst: "last (waiting Q) = request_queue_wait Q ! length xs"
    using n len by (simp add: waiting_def take_Suc_conv_app_nth)
  have cp: "copy_last 0 1 (length xs) (request_queue_wait Q) =
      Some (replicate (length xs) (last (waiting Q)) @ List.drop (length xs) (request_queue_wait Q))"
    using last_copy[of "length xs" "request_queue_wait Q"] len lst by simp
  have lasts: "wait_get copy_last Q = Some (Some x, Q\<lparr>request_queue_wait :=
      replicate (length xs) (last (waiting Q)) @ List.drop (length xs) (request_queue_wait Q),
      request_queue_wait_count := length xs\<rparr>)"
    using n cp ws by (simp add: wait_get_def Let_def load_def)
  have "\<exists>Q'. wait_get cpy Q = Some (Some x, Q') \<and> waiting Q' = xs"
    if "copies_disjoint cpy" "length xs \<le> 1" for cpy
  proof -
    have "cpy 0 1 (length xs) (request_queue_wait Q) = memmove 0 1 (length xs) (request_queue_wait Q)"
      using that by (simp add: copies_disjoint_def)
    then show ?thesis using n ws len that(2)
      by (auto simp: wait_get_def Let_def load_def memmove_def waiting_def)
  qed
  then show ?thesis using copy_last_disjoint lasts by (simp add: waiting_def)
qed

abbreviation (input) example_nulls :: "nat list" where "example_nulls \<equiv> replicate 10 0"

text \<open>A run in which two requests are allocated and handed over, and one is taken and completed.\<close>

definition example_requests :: "request_event list" where
  "example_requests = [Allocated 0, Allocated 1, Enqueued 1, Enqueued 0, Taken 7 1]"

lemma example_requests_run:
  "\<exists>Q H run lib s. request_run (\<lambda>_. 0) (\<lambda>_. 0) copy_first
     (requests_initial example_nulls, {}, Map.empty, example_plugin_lib, ()) example_requests (Q, H, run, lib, s) \<and>
     waiting Q = [0] \<and> run = [7 \<mapsto> 1]"
proof -
  let ?h = "empty_heap\<lparr>allocator := [Some 8, Some 16]\<rparr>"
  let ?run = "request_run (\<lambda>_. 0) (\<lambda>_. 0) copy_first
     (requests_initial example_nulls, {}, Map.empty, example_plugin_lib, ())"
  note alloc = iot_action_request_allocate_def requests_initial_def load_def store_def os_grab_def
    empty_heap_def Let_def source_copy_def
  obtain Q1 h1 where 1: "iot_action_request_allocate ?h (requests_initial example_nulls) (Some ''a'') None =
      Some (Some 0, Q1, h1)" "h1 = empty_heap\<lparr>allocator := [Some 16]\<rparr>"
    "request_queue_free_count Q1 = 1" "request_queue_free Q1 = [0..<10]" "length (request_queue Q1) = 10"
    by (simp add: alloc upt_rec)
  obtain Q2 h2 where 2: "iot_action_request_allocate h1 Q1 (Some ''b'') None = Some (Some 1, Q2, h2)"
    using 1 by (simp add: alloc upt_rec)
  have len: "length example_nulls = 10" by simp
  have ok1: "requests_ok Q1 {0} Map.empty \<and> waiting Q1 = []"
    using allocate_ok[OF initial_ok[OF len] 1(1)] by (simp add: waiting_def requests_initial_def)
  then have ok2: "requests_ok Q2 {0, 1} Map.empty \<and> waiting Q2 = []"
    using allocate_ok[OF _ 2, of "{0}" Map.empty] by (simp add: insert_commute)
  obtain Q3 where 3: "iot_action_request_execute (\<lambda>_. 0) (\<lambda>_. 0) example_plugin_lib h2 Q2 (Some 1) 0 () =
      Some (STATUS_SUCCESS, Q3, example_plugin_lib, ())" "requests_ok Q3 {0} Map.empty" "waiting Q3 = [1]"
    using enqueue_ok[of Q2 "{0, 1}" Map.empty 1 "\<lambda>_. 0" "\<lambda>_. 0" example_plugin_lib h2 0 "()"] ok2
    by (auto simp: insert_Diff_if)
  obtain Q4 where 4: "iot_action_request_execute (\<lambda>_. 0) (\<lambda>_. 0) example_plugin_lib h2 Q3 (Some 0) 0 () =
      Some (STATUS_SUCCESS, Q4, example_plugin_lib, ())" "requests_ok Q4 {} Map.empty" "waiting Q4 = [1, 0]"
    using enqueue_ok[of Q3 "{0}" Map.empty 0 "\<lambda>_. 0" "\<lambda>_. 0" example_plugin_lib h2 0 "()"] 3 by auto
  have "wait_ok Q4" using 4(2) by (simp add: requests_ok_def)
  then obtain Q5 where 5: "wait_get copy_first Q4 = Some (Some 1, Q5)" "waiting Q5 = [0]"
    using wait_get_first[OF copy_first_disjoint _ 4(3)] unfolding 4(3) by auto
  have "?run ([] @ [Allocated 0]) (Q1, insert 0 {}, Map.empty, example_plugin_lib, ())"
    by (rule request_run.step[OF request_run.start request_step.allocate[OF 1(1)]])
  then have "?run (([] @ [Allocated 0]) @ [Allocated 1]) (Q2, insert 1 (insert 0 {}), Map.empty, example_plugin_lib, ())"
    by (rule request_run.step[OF _ request_step.allocate[OF 2]])
  then have "?run ((([] @ [Allocated 0]) @ [Allocated 1]) @ [Enqueued 1])
      (Q3, insert 1 (insert 0 {}) - {1}, Map.empty, example_plugin_lib, ())"
    by (rule request_run.step[OF _ request_step.enqueue[OF _ 3(1)]]) simp
  then have "?run (((([] @ [Allocated 0]) @ [Allocated 1]) @ [Enqueued 1]) @ [Enqueued 0])
      (Q4, insert 1 (insert 0 {}) - {1} - {0}, Map.empty, example_plugin_lib, ())"
    by (rule request_run.step[OF _ request_step.enqueue[OF _ 4(1)]]) simp
  then have "?run ((((([] @ [Allocated 0]) @ [Allocated 1]) @ [Enqueued 1]) @ [Enqueued 0]) @ [Taken 7 1])
      (Q5, insert 1 (insert 0 {}) - {1} - {0}, [7 \<mapsto> 1], example_plugin_lib, ())"
    by (rule request_run.step[OF _ request_step.take[OF _ 5(1)]]) simp
  then show ?thesis using 5(2) unfolding example_requests_def by auto
qed

theorem requests_safe_witness:
  "\<exists>Q H run lib s. request_run (\<lambda>_. 0) (\<lambda>_. 0) copy_first
     (requests_initial example_nulls, {}, Map.empty, example_plugin_lib, ()) example_requests (Q, H, run, lib, s) \<and>
     requests_ok Q H run \<and> card H + 2 = request_queue_free_count Q"
proof -
  obtain Q H run lib s where r: "request_run (\<lambda>_. 0) (\<lambda>_. 0) copy_first
     (requests_initial example_nulls, {}, Map.empty, example_plugin_lib, ()) example_requests (Q, H, run, lib, s)"
    "waiting Q = [0]" "run = [7 \<mapsto> 1]"
    using example_requests_run by blast
  have few: "few_waiting 0 example_requests"
    by (simp add: few_waiting_def example_requests_def less_Suc_eq numeral_2_eq_2 numeral_3_eq_3 eval_nat_numeral)
  have "length example_nulls = 10" by simp
  note safe = requests_safe[OF r(1) this copy_first_disjoint few, of empty_heap 0 None None]
  have "ran run = {1}" using r(3) by simp
  then have "card H + 2 = request_queue_free_count Q" using conjunct1[OF conjunct2[OF safe]] r(2) by simp
  then show ?thesis using r(1) conjunct1[OF safe] by blast
qed

theorem requests_in_order_witness:
  "\<exists>Q H run lib s. request_run (\<lambda>_. 0) (\<lambda>_. 0) copy_first
     (requests_initial example_nulls, {}, Map.empty, example_plugin_lib, ()) example_requests (Q, H, run, lib, s) \<and>
     [1, 0] = [1] @ waiting Q \<and> (\<exists>Q'. queue_run wait_put (wait_get copy_first) Q [Got 0] Q' \<and> waiting Q' = [])"
proof -
  obtain Q H run lib s where r: "request_run (\<lambda>_. 0) (\<lambda>_. 0) copy_first
     (requests_initial example_nulls, {}, Map.empty, example_plugin_lib, ()) example_requests (Q, H, run, lib, s)"
    "waiting Q = [0]"
    using example_requests_run by blast
  have few: "few_waiting 0 example_requests"
    by (simp add: few_waiting_def example_requests_def less_Suc_eq numeral_2_eq_2 numeral_3_eq_3 eval_nat_numeral)
  have "length example_nulls = 10" by simp
  note order = requests_in_order[OF r(1) this copy_first_disjoint few, of "[]" 0 "[]"]
  have "[1, 0] = [1] @ waiting Q" using conjunct1[OF order] by (simp add: example_requests_def)
  moreover have "\<exists>Q'. queue_run wait_put (wait_get copy_first) Q [Got 0] Q' \<and> waiting Q' = []"
    using mp[OF conjunct2[OF order]] r(2) by simp
  ultimately show ?thesis using r(1) by blast
qed

definition example_waiting :: iot_requests where
  "example_waiting = (requests_initial [3, 1, 2, 0, 0, 0, 0, 0, 0, 0])\<lparr>request_queue_wait_count := 3\<rparr>"

theorem requests_overlap_witness:
  "\<exists>Q'. wait_get copy_last example_waiting = Some (Some 3, Q') \<and> waiting Q' = [2, 2]"
proof -
  have w: "wait_ok example_waiting" "waiting example_waiting = 3 # [1, 2]"
    by (simp_all add: example_waiting_def requests_initial_def wait_ok_def waiting_def)
  note lap = requests_overlap[OF w]
  obtain Q' where Q': "wait_get copy_last example_waiting = Some (Some 3, Q')"
    by (simp add: wait_get_def example_waiting_def requests_initial_def load_def store_def numeral_2_eq_2)
  have "waiting Q' = replicate (length [1, 2 :: nat]) (last (waiting example_waiting))"
    using lap Q' by blast
  then show ?thesis using Q' w(2) by (simp add: numeral_2_eq_2)
qed

end
