(* ===== verification/Process.thy ===== *)
theory Process
  imports Command Queue
begin

text \<open>
  Running an action (\<open>iot_action_execute\<close>, \<open>iot_action_execute_command\<close> and
  \<open>iot_action_process\<close> in \<open>src/src/api/iot_action.c\<close>): a worker takes a waiting request, finds
  its action, checks the request's parameters against those the action declares, runs the
  callback or the command, tells the plug-ins the outcome and releases the request.

  The callback and \<open>os_system_run\<close> are parameters of the model. A callback changes the request,
  the heap and the outside world; it does not call back into the queue.
\<close>

section \<open>Commands\<close>

datatype os_status = OS_SUCCESS | OS_INVOKED | OS_OTHER

text \<open>
  \<open>os_system_run\<close>: the command, whether its output is wanted, and the time limit; it gives the
  status, the return code and what the two output buffers hold.
\<close>

type_synonym 's system_run = "string \<Rightarrow> bool \<Rightarrow> u32 \<Rightarrow> 's \<Rightarrow> os_status \<times> int \<times> bytes \<times> bytes \<times> 's"

text \<open>The two buffers are local objects: they live at addresses of their own during the call.\<close>

definition with_locals :: "(ptr \<times> bytes) list \<Rightarrow> heap \<Rightarrow> heap" where
  "with_locals ls h = h\<lparr>cells := (\<lambda>p. case map_of ls p of Some b \<Rightarrow> Some (Bytes b) | None \<Rightarrow> cells h p)\<rparr>"

definition without_locals :: "(ptr \<times> bytes) list \<Rightarrow> heap \<Rightarrow> heap" where
  "without_locals ls h = h\<lparr>cells := (\<lambda>p. if map_of ls p = None then cells h p else None)\<rparr>"

text \<open>One of the outputs becomes a parameter of the request unless it is empty.\<close>

definition set_output ::
    "string \<Rightarrow> ptr \<Rightarrow> bytes \<Rightarrow> heap \<Rightarrow> iot_action_request \<Rightarrow> (iot_action_request \<times> heap) option" where
  "set_output name p buf h request = do {
     b \<leftarrow> load buf 0;
     (if b \<noteq> 0
      then do {
        (_, request, h) \<leftarrow> iot_action_request_parameter_set h request (Some name) TYPE_STRING (AString p);
        Some (request, h)
      }
      else Some (request, h))
   }"

definition command_time_out :: "u8 \<Rightarrow> u32 \<Rightarrow> u32 \<Rightarrow> u32" where
  "command_time_out fl time_limit max_time_out =
     (if and fl ACTION_NO_TIME_LIMIT = 0 \<and> (max_time_out = 0 \<or> max_time_out > time_limit)
      then time_limit else max_time_out)"

text \<open>What the code sets in the request when the command has run and its output is returned.\<close>

definition set_outputs ::
    "ptr \<times> ptr \<Rightarrow> int \<Rightarrow> bytes \<Rightarrow> bytes \<Rightarrow> heap \<Rightarrow> iot_action_request \<Rightarrow> (iot_action_request \<times> heap) option" where
  "set_outputs bufs return_code out err h request = do {
     let ls = [(fst bufs, out), (snd bufs, err)];
     let h = with_locals ls h;
     (_, request, h) \<leftarrow> iot_action_request_parameter_set h request (Some ''retval'') TYPE_INT32 (AInt return_code);
     (request, h) \<leftarrow> set_output ''stdout'' (fst bufs) out h request;
     (request, h) \<leftarrow> set_output ''stderr'' (snd bufs) err h request;
     Some (request, without_locals ls h)
   }"

definition CRLF :: string where "CRLF = [CHR 0x0D, CHR 0x0A]"

definition iot_action_execute_command ::
    "'s system_run \<Rightarrow> ptr \<times> ptr \<Rightarrow> 's iot_action \<Rightarrow> iot_action_request \<Rightarrow> u32 \<Rightarrow> heap \<Rightarrow> 's \<Rightarrow>
     (iot_status \<times> iot_action_request \<times> heap \<times> 's) option" where
  "iot_action_execute_command os_system_run bufs action request max_time_out h s =
     (case ac_command action of
        None \<Rightarrow> Some (STATUS_BAD_PARAMETER, request, h, s)
      | Some command_path \<Rightarrow> do {
          ps \<leftarrow> parameters request;
          buf \<leftarrow> command_line h command_path ps;
          command_with_params \<leftarrow> buffer_string buf;
          cmd \<leftarrow> fst (iot_action_parameter_adjustment (Some command_with_params) (Some CRLF));
          let return_output = (and (ac_flags action) ACTION_NO_RETURN = 0);
          let (system_res, return_code, out, err, s) = os_system_run cmd return_output
            (command_time_out (ac_flags action) (ac_time_limit action) max_time_out) s;
          (if system_res = OS_SUCCESS
           then do {
             (request, h) \<leftarrow> (if return_output then set_outputs bufs return_code out err h request
                              else Some (request, h));
             Some (if return_code \<noteq> 0 then STATUS_EXECUTION_ERROR else STATUS_SUCCESS, request, h, s)
           }
           else if \<not> return_output \<and> system_res = OS_INVOKED then Some (STATUS_INVOKED, request, h, s)
           else Some (STATUS_FAILURE, request, h, s))
        })"

section \<open>Checking the parameters\<close>

text \<open>The request parameter of a declared name.\<close>

fun request_parameter :: "string \<Rightarrow> iot_action_parameter list \<Rightarrow> nat option option" where
  "request_parameter name [] = Some None"
| "request_parameter name (p # ps) = do {
     nm \<leftarrow> ap_name p;
     (if strncasecmp name nm IOT_NAME_MAX_LEN = 0 then Some (Some 0)
      else do { i \<leftarrow> request_parameter name ps; Some (map_option Suc i) })
   }"

text \<open>
  The loop over the declared parameters: each marks the request parameter of its name with its
  own type. It stops at the first required one without a value or the first value that does not
  convert: those two names, and the request's parameters.
\<close>

fun check_parameters ::
    "iot_action_parameter list \<Rightarrow> iot_action_parameter list \<Rightarrow> heap \<Rightarrow>
     (string option \<times> string option \<times> iot_action_parameter list \<times> heap) option" where
  "check_parameters [] ps h = Some (None, None, ps, h)"
| "check_parameters (reg # regs) ps h = do {
     name \<leftarrow> ap_name reg;
     i \<leftarrow> request_parameter name ps;
     (case i of
        None \<Rightarrow>
          if and (ap_type reg) PARAMETER_IN_REQUIRED \<noteq> 0 then Some (Some name, None, ps, h)
          else check_parameters regs ps h
      | Some i \<Rightarrow> do {
          let p = (ps ! i)\<lparr>ap_type := ap_type reg\<rparr>;
          (if and (ap_type reg) PARAMETER_IN_REQUIRED \<noteq> 0 \<and> \<not> has_value (ap_data p)
           then Some (Some name, None, ps[i := p], h)
           else do {
             (ok, d, h) \<leftarrow> iot_common_data_convert CONVERSION_BASIC (dtype (ap_data reg)) h (Some (ap_data p));
             d \<leftarrow> d;
             let ps = ps[i := p\<lparr>ap_data := d\<rparr>];
             (if ok then check_parameters regs ps h else Some (None, Some name, ps, h))
           })
        })
   }"

text \<open>The last parameter of the request that no declaration has marked.\<close>

definition unknown_parameter :: "iot_action_parameter list \<Rightarrow> iot_action_parameter option" where
  "unknown_parameter ps = List.find (\<lambda>p. ap_type p = PARAMETER_OUT) (rev ps)"

text \<open>The first required output the request has no value for.\<close>

fun missing_output ::
    "iot_action_parameter list \<Rightarrow> iot_action_parameter list \<Rightarrow> string option option" where
  "missing_output [] ps = Some None"
| "missing_output (reg # regs) ps =
     (if and (ap_type reg) PARAMETER_OUT_REQUIRED \<noteq> 0
      then do {
        name \<leftarrow> ap_name reg;
        i \<leftarrow> request_parameter name ps;
        (if i = None \<or> \<not> has_value (ap_data (ps ! the i)) then Some (Some name)
         else missing_output regs ps)
      }
      else missing_output regs ps)"

section \<open>Executing an action\<close>

text \<open>The request with other parameters in place of its own.\<close>

definition with_parameters :: "iot_action_parameter list \<Rightarrow> iot_action_request \<Rightarrow> iot_action_request" where
  "with_parameters ps r = r\<lparr>rq_parameter := map_option (\<lambda>as. ps @ drop (length ps) as) (rq_parameter r)\<rparr>"

definition refused ::
    "heap \<Rightarrow> iot_action_request \<Rightarrow> string \<Rightarrow> 's \<Rightarrow>
     (iot_status \<times> iot_action_request \<times> heap \<times> 's) option" where
  "refused h request msg s =
     (let (request, h) = iot_action_request_set_status h request STATUS_BAD_REQUEST (Some msg)
      in Some (STATUS_BAD_REQUEST, request, h, s))"

definition perform_action ::
    "'s system_run \<Rightarrow> ptr \<times> ptr \<Rightarrow> 's iot_action \<Rightarrow> iot_action_request \<Rightarrow> u32 \<Rightarrow> heap \<Rightarrow> 's \<Rightarrow>
     (iot_status \<times> iot_action_request \<times> heap \<times> 's) option" where
  "perform_action os_system_run bufs action request max_time_out h s =
     (let request = request\<lparr>rq_flags := ac_flags action, rq_time_limit := ac_time_limit action\<rparr> in
      case ac_callback action of
        Some callback \<Rightarrow> callback request h s
      | None \<Rightarrow>
          if ac_command action \<noteq> None \<and> ac_command action \<noteq> Some []
          then iot_action_execute_command os_system_run bufs action request max_time_out h s
          else do {
            name \<leftarrow> ac_name action;
            let (request, h) = iot_action_request_set_status h request STATUS_FAILURE
              (Some (''no execution method registered for: '' @ name));
            Some (STATUS_FAILURE, request, h, s)
          })"

definition iot_action_execute ::
    "'s system_run \<Rightarrow> ptr \<times> ptr \<Rightarrow> 's iot_action option \<Rightarrow> iot_action_request \<Rightarrow> u32 \<Rightarrow> heap \<Rightarrow> 's \<Rightarrow>
     (iot_status \<times> iot_action_request \<times> heap \<times> 's) option" where
  "iot_action_execute os_system_run bufs action request max_time_out h s =
     (case action of
        None \<Rightarrow> Some (STATUS_BAD_PARAMETER, request, h, s)
      | Some a \<Rightarrow>
          if \<not> ac_lib a then Some (STATUS_NOT_FOUND, request, h, s)
          else do {
            regs \<leftarrow> ac_parameter a;
            ps \<leftarrow> parameters request;
            (required, bad_type, ps, h) \<leftarrow> check_parameters regs ps h;
            let request = with_parameters ps request;
            (result, request, h, s) \<leftarrow>
              (case (required, bad_type, unknown_parameter ps) of
                 (None, None, None) \<Rightarrow> perform_action os_system_run bufs a request max_time_out h s
               | (Some name, _) \<Rightarrow> refused h request (''required IN parameter missing: '' @ name) s
               | (_, Some name, _) \<Rightarrow> refused h request (''invalid value for parameter: '' @ name) s
               | (_, _, Some p) \<Rightarrow> do {
                   name \<leftarrow> ap_name p;
                   refused h request (''unknown IN parameter: '' @ name) s
                 });
            (if result = STATUS_SUCCESS
             then do {
               ps \<leftarrow> parameters request;
               missing \<leftarrow> missing_output regs ps;
               (case missing of
                  None \<Rightarrow> Some (result, request, h, s)
                | Some name \<Rightarrow> refused h request (''required OUT parameter missing: '' @ name) s)
             }
             else Some (result, request, h, s))
          })"

section \<open>The worker\<close>

text \<open>
  The action of a request: the first one whose name is the request's up to case. An action
  without a name would match every request.
\<close>

fun find_action ::
    "'s iot_action registry \<Rightarrow> ptr list \<Rightarrow> string option \<Rightarrow> ptr option" where
  "find_action R [] name = Some NULL"
| "find_action R (p # ps) name =
     (if p = NULL then find_action R ps name
      else do {
        a \<leftarrow> mem R p;
        (case ac_name a of
           None \<Rightarrow> Some p
         | Some nm \<Rightarrow> do {
             name' \<leftarrow> name;
             (if strncasecmp nm name' IOT_NAME_MAX_LEN \<noteq> 0 then find_action R ps name else Some p)
           })
      })"

definition set_request :: "nat \<Rightarrow> iot_action_request \<Rightarrow> iot_requests \<Rightarrow> iot_requests" where
  "set_request i r Q = Q\<lparr>request_queue := (request_queue Q)[i := r]\<rparr>"

text \<open>What a worker does with the request it took, up to its release.\<close>

definition process_request ::
    "'s system_run \<Rightarrow> ptr \<times> ptr \<Rightarrow> 's iot_action registry \<Rightarrow> bool \<Rightarrow> iot_action_request \<Rightarrow> u32 \<Rightarrow> heap \<Rightarrow> 's \<Rightarrow>
     (ptr \<times> iot_action_request \<times> heap \<times> 's) option" where
  "process_request os_system_run bufs R to_quit r max_time_out h s = do {
     action \<leftarrow> find_action R (take (min (used R) IOT_ACTION_MAX) (slots R)) (rq_name r);
     (action_result, r, h, s) \<leftarrow>
       (if \<not> to_quit \<and> action \<noteq> NULL
        then do {
          a \<leftarrow> mem R action;
          iot_action_execute os_system_run bufs (Some a) r max_time_out h s
        }
        else Some (STATUS_NOT_FOUND, r, h, s));
     let (r, h) = iot_action_request_set_status h r action_result None;
     Some (action, r, h, s)
   }"

definition iot_action_process ::
    "(string \<Rightarrow> int) \<Rightarrow> (string \<Rightarrow> int) \<Rightarrow> memcpy \<Rightarrow> 's system_run \<Rightarrow> ptr \<times> ptr \<Rightarrow> 's iot_lib \<Rightarrow>
     's iot_action registry \<Rightarrow> iot_requests \<Rightarrow> bool \<Rightarrow> u32 \<Rightarrow> heap \<Rightarrow> 's \<Rightarrow>
     (iot_status \<times> iot_requests \<times> heap \<times> 's iot_lib \<times> 's) option" where
  "iot_action_process f g cpy os_system_run bufs lib R Q to_quit max_time_out h s = do {
     (request, Q) \<leftarrow> wait_get cpy Q;
     (case request of
        None \<Rightarrow> Some (STATUS_NOT_FOUND, Q, h, lib, s)
      | Some i \<Rightarrow> do {
          r \<leftarrow> load (request_queue Q) i;
          (action, r, h, s) \<leftarrow> process_request os_system_run bufs R to_quit r max_time_out h s;
          let Q = set_request i r Q;
          (_, _, lib, s) \<leftarrow> perform_op f g lib False (Some max_time_out)
            OPERATION_ACTION_COMPLETE action (ValueRequest r) None s;
          (_, Q, h) \<leftarrow> iot_action_request_free h Q (Some i);
          Some (STATUS_SUCCESS, Q, h, lib, s)
        })
   }"

section \<open>What the checks establish\<close>

lemma basic_conversion_value: "basic_conversion to h d = Some (Some q, h') \<Longrightarrow> has_value q = has_value d"
proof -
  have conv: "IOT_CONVERT w i d = Some (Some q) \<Longrightarrow> has_value q = has_value d" for w i
    by (auto simp: IOT_CONVERT_def)
  have cond: "convert_if c w i d = Some (Some q) \<Longrightarrow> has_value q = has_value d" for c w i
    by (auto simp: convert_if_def IOT_CONVERT_def split: if_splits)
  have real: "convert_real c w a b x d = Some (Some q) \<Longrightarrow> has_value q = has_value d" for c w a b x
    by (auto dest: convert_real_cases(2))
  have raw: "convert_raw h d = Some (Some q, h') \<Longrightarrow> has_value q = has_value d"
    by (auto simp: convert_raw_def Let_def split: if_splits bind_splits)
  assume "basic_conversion to h d = Some (Some q, h')"
  then show ?thesis
    by (cases to; cases "dtype d")
      (auto simp: basic_conversion_def convert_float32_def convert_float64_def convert_int_defs
        dest: conv cond real raw)
qed

lemma converted:
  assumes "iot_common_data_convert CONVERSION_BASIC to h (Some d) = Some (ok, d', h')"
  shows "\<exists>q. d' = Some q \<and> (ok \<longrightarrow> dtype q = to) \<and> (ok \<longrightarrow> has_value d \<longrightarrow> has_value q)"
  using assms
  by (fastforce simp: iot_common_data_convert_def Let_def dest: basic_conversion_value
      split: if_splits bind_splits option.splits)

text \<open>The first parameter of a name is what the map has for it.\<close>

lemma request_parameter_map:
  assumes "\<forall>p \<in> set ps. ap_name p \<noteq> None"
  shows "\<exists>i. request_parameter name ps = Some i \<and>
    (case i of None \<Rightarrow> parameter_map ps (casekey IOT_NAME_MAX_LEN name) = None
     | Some j \<Rightarrow> j < length ps \<and> parameter_key (ps ! j) = casekey IOT_NAME_MAX_LEN name \<and>
         parameter_map ps (casekey IOT_NAME_MAX_LEN name) = Some (ps ! j))"
  using assms
proof (induction ps)
  case Nil
  then show ?case by (simp add: parameter_map_def)
next
  case (Cons q ps)
  then obtain nm where nm: "ap_name q = Some nm" by auto
  obtain i where i: "request_parameter name ps = Some i" "case i of
       None \<Rightarrow> parameter_map ps (casekey IOT_NAME_MAX_LEN name) = None
     | Some j \<Rightarrow> j < length ps \<and> parameter_key (ps ! j) = casekey IOT_NAME_MAX_LEN name \<and>
         parameter_map ps (casekey IOT_NAME_MAX_LEN name) = Some (ps ! j)"
    using Cons by auto
  show ?case
  proof (cases "casekey IOT_NAME_MAX_LEN name = casekey IOT_NAME_MAX_LEN nm")
    case True
    then show ?thesis using nm by (simp add: parameter_map_def)
  next
    case False
    then have "parameter_map (q # ps) (casekey IOT_NAME_MAX_LEN name) = parameter_map ps (casekey IOT_NAME_MAX_LEN name)"
      using nm by (simp add: parameter_map_def)
    then show ?thesis using i nm False by (cases i) auto
  qed
qed

abbreviation required_in :: "iot_action_parameter \<Rightarrow> bool" where
  "required_in reg \<equiv> and (ap_type reg) PARAMETER_IN_REQUIRED \<noteq> 0"

abbreviation required_out :: "iot_action_parameter \<Rightarrow> bool" where
  "required_out reg \<equiv> and (ap_type reg) PARAMETER_OUT_REQUIRED \<noteq> 0"

text \<open>What a declaration asks of the parameter the request has for it, and why it is refused.\<close>

definition satisfied :: "iot_action_parameter \<Rightarrow> iot_action_parameter option \<Rightarrow> bool" where
  "satisfied reg x \<longleftrightarrow> (case x of None \<Rightarrow> \<not> required_in reg
     | Some p \<Rightarrow> ap_type p = ap_type reg \<and> dtype (ap_data p) = dtype (ap_data reg) \<and>
         (required_in reg \<longrightarrow> has_value (ap_data p)))"

definition rejected :: "iot_action_parameter \<Rightarrow> iot_action_parameter option \<Rightarrow> bool" where
  "rejected reg x \<longleftrightarrow> (case x of None \<Rightarrow> required_in reg
     | Some p \<Rightarrow> required_in reg \<and> \<not> has_value (ap_data p) \<or>
         (\<exists>h d h'. iot_common_data_convert CONVERSION_BASIC (dtype (ap_data reg)) h (Some (ap_data p)) =
            Some (False, d, h')))"

definition convertible :: "iot_action_parameter list \<Rightarrow> iot_action_parameter list \<Rightarrow> bool" where
  "convertible regs ps \<longleftrightarrow> (\<forall>reg \<in> set regs. \<forall>p. parameter_map ps (parameter_key reg) = Some p \<longrightarrow>
     (\<forall>h. iot_common_data_convert CONVERSION_BASIC (dtype (ap_data reg)) h (Some (ap_data p)) \<noteq> None))"

lemma parameter_keys_update:
  "j < length ps \<Longrightarrow> parameter_key p = parameter_key (ps ! j) \<Longrightarrow>
    map parameter_key (ps[j := p]) = map parameter_key ps"
  by (simp add: map_update list_update_same_conv)

lemma check_parameters_spec:
  assumes "named regs" "named ps" "convertible regs ps"
  obtains req bad qs h' where "check_parameters regs ps h = Some (req, bad, qs, h')" "named qs"
    "map parameter_key qs = map parameter_key ps"
    "\<And>k. k \<notin> parameter_key ` set regs \<Longrightarrow> parameter_map qs k = parameter_map ps k"
    "req = None \<Longrightarrow> bad = None \<Longrightarrow> \<forall>reg \<in> set regs. satisfied reg (parameter_map qs (parameter_key reg))"
    "req \<noteq> None \<or> bad \<noteq> None \<Longrightarrow> \<exists>reg \<in> set regs. rejected reg (parameter_map ps (parameter_key reg))"
  using assms
proof (induction regs arbitrary: ps h thesis)
  case Nil
  show ?case by (rule Nil.prems(1)[of None None ps h]) (use Nil.prems in simp_all)
next
  case (Cons reg regs)
  obtain name where name: "ap_name reg = Some name" using Cons.prems(2) by (auto simp: named_def)
  have regs: "named regs" "parameter_key reg \<notin> parameter_key ` set regs"
    using Cons.prems(2) by (auto simp: named_def)
  let ?key = "casekey IOT_NAME_MAX_LEN name"
  have key: "parameter_key reg = ?key" using name by simp
  obtain i where i: "request_parameter name ps = Some i"
      "case i of None \<Rightarrow> parameter_map ps ?key = None
       | Some j \<Rightarrow> j < length ps \<and> parameter_key (ps ! j) = ?key \<and> parameter_map ps ?key = Some (ps ! j)"
    using request_parameter_map[of ps name] Cons.prems(3) by (auto simp: named_def)
  show ?case
  proof (cases i)
    case None
    then have absent: "parameter_map ps ?key = None" using i by simp
    show ?thesis
    proof (cases "required_in reg")
      case True
      show ?thesis
        by (rule Cons.prems(1)[of "Some name" None ps h])
          (use True None name i absent Cons.prems(3) in \<open>simp_all add: rejected_def\<close>)
    next
      case False
      have "convertible regs ps" using Cons.prems(4) by (simp add: convertible_def)
      then obtain req bad qs h' where c: "check_parameters regs ps h = Some (req, bad, qs, h')" "named qs"
        "map parameter_key qs = map parameter_key ps"
        "\<And>k. k \<notin> parameter_key ` set regs \<Longrightarrow> parameter_map qs k = parameter_map ps k"
        "req = None \<Longrightarrow> bad = None \<Longrightarrow> \<forall>reg \<in> set regs. satisfied reg (parameter_map qs (parameter_key reg))"
        "req \<noteq> None \<or> bad \<noteq> None \<Longrightarrow> \<exists>reg \<in> set regs. rejected reg (parameter_map ps (parameter_key reg))"
        using Cons.IH[of ps h] regs(1) Cons.prems(3) by blast
      have "parameter_map qs (parameter_key reg) = None" using c(4)[OF regs(2)] absent key by simp
      then show ?thesis
        by (intro Cons.prems(1)[of req bad qs h'])
          (use False None name i c in \<open>simp_all add: satisfied_def\<close>)
    qed
  next
    case (Some j)
    let ?p = "(ps ! j)\<lparr>ap_type := ap_type reg\<rparr>"
    have j: "j < length ps" "parameter_key (ps ! j) = ?key" "parameter_map ps ?key = Some (ps ! j)"
      using i Some by simp_all
    have pn: "ap_name (ps ! j) \<noteq> None" using Cons.prems(3) j(1) by (simp add: named_def)
    have upd: "named (ps[j := ?p\<lparr>ap_data := d\<rparr>])"
      "parameter_map (ps[j := ?p\<lparr>ap_data := d\<rparr>]) = (parameter_map ps)(?key \<mapsto> ?p\<lparr>ap_data := d\<rparr>)"
      "map parameter_key (ps[j := ?p\<lparr>ap_data := d\<rparr>]) = map parameter_key ps" for d
      using parameter_map_update[OF Cons.prems(3) j(1), of "?p\<lparr>ap_data := d\<rparr>"] pn j(2)
        parameter_keys_update[OF j(1), of "?p\<lparr>ap_data := d\<rparr>"] by simp_all
    note same = upd[of "ap_data (ps ! j)", simplified]
    show ?thesis
    proof (cases "required_in reg \<and> \<not> has_value (ap_data (ps ! j))")
      case True
      show ?thesis
        by (rule Cons.prems(1)[of "Some name" None "ps[j := ?p]" h])
          (use True Some name i j same in \<open>simp_all add: rejected_def\<close>)
    next
      case False
      have "iot_common_data_convert CONVERSION_BASIC (dtype (ap_data reg)) h (Some (ap_data (ps ! j))) \<noteq> None"
        using Cons.prems(4) j(3) key unfolding convertible_def by simp
      then obtain ok d0 h1 where conv0: "iot_common_data_convert CONVERSION_BASIC (dtype (ap_data reg)) h
          (Some (ap_data (ps ! j))) = Some (ok, d0, h1)" by auto
      obtain d where d: "d0 = Some d" "ok \<Longrightarrow> dtype d = dtype (ap_data reg)"
          "ok \<Longrightarrow> has_value (ap_data (ps ! j)) \<Longrightarrow> has_value d"
        using converted[OF conv0] by blast
      note conv = conv0[unfolded d(1)]
      let ?ps = "ps[j := ?p\<lparr>ap_data := d\<rparr>]"
      show ?thesis
      proof (cases ok)
        case bad: False
        show ?thesis
          by (rule Cons.prems(1)[of None "Some name" ?ps h1])
            (use bad False Some name i j conv upd[of d] in \<open>auto simp: rejected_def\<close>)
      next
        case True
        have other: "parameter_map ?ps (parameter_key reg') = parameter_map ps (parameter_key reg')"
          if "reg' \<in> set regs" for reg'
        proof -
          have "parameter_key reg' \<noteq> ?key" using regs(2) that unfolding key by (metis imageI)
          then show ?thesis unfolding upd(2) by (rule fun_upd_other)
        qed
        then have "convertible regs ?ps" using Cons.prems(4) unfolding convertible_def by simp
        then obtain req bad qs h' where c: "check_parameters regs ?ps h1 = Some (req, bad, qs, h')" "named qs"
          "map parameter_key qs = map parameter_key ?ps"
          "\<And>k. k \<notin> parameter_key ` set regs \<Longrightarrow> parameter_map qs k = parameter_map ?ps k"
          "req = None \<Longrightarrow> bad = None \<Longrightarrow> \<forall>reg \<in> set regs. satisfied reg (parameter_map qs (parameter_key reg))"
          "req \<noteq> None \<or> bad \<noteq> None \<Longrightarrow> \<exists>reg \<in> set regs. rejected reg (parameter_map ?ps (parameter_key reg))"
          using Cons.IH[of ?ps h1] regs(1) upd(1)[of d] by blast
        have "parameter_map qs (parameter_key reg) = Some (?p\<lparr>ap_data := d\<rparr>)"
          using c(4)[OF regs(2)] upd(2)[of d] key by simp
        then have "satisfied reg (parameter_map qs (parameter_key reg))"
          using d True False by (auto simp: satisfied_def)
        then show ?thesis
          by (intro Cons.prems(1)[of req bad qs h'])
            (use True False Some name i j conv c upd[of d] other key in \<open>auto simp: fun_upd_other\<close>)
      qed
    qed
  qed
qed

lemma with_parameters_ok:
  assumes "request_ok r" "parameters r = Some ps" "length qs = length ps" "named qs"
  shows "parameters (with_parameters qs r) = Some qs" and "request_ok (with_parameters qs r)"
proof -
  obtain all where all: "rq_parameter r = Some all" "ps = take (rq_parameter_count r) all"
    "rq_parameter_count r \<le> length all" "rq_parameter_count r \<le> 7" "length ps = rq_parameter_count r"
    using request_ok_array[OF assms(1,2)] by blast
  show p: "parameters (with_parameters qs r) = Some qs"
    using all assms(3) by (auto simp: parameters_def with_parameters_def)
  show "request_ok (with_parameters qs r)"
    using all assms(3,4) p by (simp add: request_ok_def) (simp add: with_parameters_def)
qed

text \<open>Every declared output that is required has a value.\<close>

definition outputs_given :: "iot_action_parameter list \<Rightarrow> iot_action_parameter list \<Rightarrow> bool" where
  "outputs_given regs ps \<longleftrightarrow> (\<forall>reg \<in> set regs. required_out reg \<longrightarrow>
     (\<exists>p. parameter_map ps (parameter_key reg) = Some p \<and> has_value (ap_data p)))"

lemma missing_output_spec:
  assumes "\<forall>reg \<in> set regs. ap_name reg \<noteq> None" and "\<forall>p \<in> set ps. ap_name p \<noteq> None"
  shows "\<exists>m. missing_output regs ps = Some m \<and> (m = None \<longleftrightarrow> outputs_given regs ps)"
  using assms(1)
proof (induction regs)
  case Nil
  then show ?case by (simp add: outputs_given_def)
next
  case (Cons reg regs)
  then obtain name m where m: "ap_name reg = Some name" "missing_output regs ps = Some m"
      "m = None \<longleftrightarrow> outputs_given regs ps" by auto
  obtain i where i: "request_parameter name ps = Some i"
      "case i of None \<Rightarrow> parameter_map ps (casekey IOT_NAME_MAX_LEN name) = None
       | Some j \<Rightarrow> j < length ps \<and> parameter_key (ps ! j) = casekey IOT_NAME_MAX_LEN name \<and>
           parameter_map ps (casekey IOT_NAME_MAX_LEN name) = Some (ps ! j)"
    using request_parameter_map[OF assms(2), of name] by blast
  show ?case
    using m i by (cases i) (auto simp: outputs_given_def)
qed

definition accepts :: "iot_action_parameter list \<Rightarrow> iot_action_parameter list \<Rightarrow> bool" where
  "accepts regs ps \<longleftrightarrow> (\<forall>reg \<in> set regs. satisfied reg (parameter_map ps (parameter_key reg))) \<and>
     (\<forall>p \<in> set ps. ap_type p \<noteq> PARAMETER_OUT)"

text \<open>Why a request is refused: a declaration, or a parameter that is no input.\<close>

definition refusable :: "iot_action_parameter list \<Rightarrow> iot_action_parameter list \<Rightarrow> bool" where
  "refusable regs ps \<longleftrightarrow>
     (\<exists>reg \<in> set regs. rejected reg (parameter_map ps (parameter_key reg))) \<or>
     (\<exists>p \<in> set ps. ap_type p = PARAMETER_OUT \<and> parameter_key p \<notin> parameter_key ` set regs) \<or>
     (\<exists>reg \<in> set regs. ap_type reg = PARAMETER_OUT \<and> parameter_map ps (parameter_key reg) \<noteq> None)"

lemma unknown_parameter_spec:
  "unknown_parameter ps = None \<longleftrightarrow> (\<forall>p \<in> set ps. ap_type p \<noteq> PARAMETER_OUT)"
  "unknown_parameter ps = Some p \<Longrightarrow> p \<in> set ps \<and> ap_type p = PARAMETER_OUT"
proof -
  show "unknown_parameter ps = None \<longleftrightarrow> (\<forall>p \<in> set ps. ap_type p \<noteq> PARAMETER_OUT)"
    unfolding unknown_parameter_def find_None_iff set_rev by blast
  assume "unknown_parameter ps = Some p"
  then obtain i where "i < length (rev ps)" "ap_type (rev ps ! i) = PARAMETER_OUT" "p = rev ps ! i"
    unfolding unknown_parameter_def find_Some_iff by blast
  then show "p \<in> set ps \<and> ap_type p = PARAMETER_OUT" using nth_mem[of i "rev ps"] by simp
qed

lemma unknown_refusable:
  assumes qs: "named qs" "map parameter_key qs = map parameter_key ps"
    and frame: "\<And>k. k \<notin> parameter_key ` set regs \<Longrightarrow> parameter_map qs k = parameter_map ps k"
    and sat: "\<forall>reg \<in> set regs. satisfied reg (parameter_map qs (parameter_key reg))"
    and p: "p \<in> set qs" "ap_type p = PARAMETER_OUT"
  shows "refusable regs ps"
proof (cases "parameter_key p \<in> parameter_key ` set regs")
  case True
  then obtain reg where reg: "reg \<in> set regs" "parameter_key p = parameter_key reg" by blast
  have m: "parameter_map qs (parameter_key p) = Some p"
    using p(1) parameter_map_nth[OF qs(1)] by (auto simp: in_set_conv_nth)
  then have "ap_type reg = PARAMETER_OUT" using sat reg p(2) by (auto simp: satisfied_def)
  moreover have "set (map parameter_key qs) = set (map parameter_key ps)" by (simp only: qs(2))
  then have "parameter_key p \<in> parameter_key ` set ps" using p(1) unfolding set_map by blast
  then have "parameter_map ps (parameter_key p) \<noteq> None" using parameter_map_None by blast
  ultimately show ?thesis using reg unfolding refusable_def by metis
next
  case False
  then have "parameter_map ps (parameter_key p) = Some p"
    using frame[OF False] p(1) parameter_map_nth[OF qs(1)] by (auto simp: in_set_conv_nth)
  then show ?thesis using parameter_map_Some False p(2) unfolding refusable_def by blast
qed

lemma refused_result:
  "\<exists>r' h'. refused h r msg s = Some (STATUS_BAD_REQUEST, r', h', s)"
  by (simp add: refused_def split: prod.split)

text \<open>
  C2: an action is only performed on a request that passed every check, and a request that
  passes them is performed. Whatever the declared parameters, executing an action either refuses
  the request as BAD_REQUEST for a reason, leaving the outside world as it was, or performs the
  action on the request with its parameters converted: each one declared under its name (up to
  case) has the declared type, each required input has a value, and no parameter is unknown. Nothing
  is assumed of what performing it does, be it a callback or a command: what is undefined there is
  undefined here, as is a success that has lost the array of parameters; any other result than
  success is kept, and a success is turned into BAD_REQUEST exactly when a required output is missing.
\<close>

theorem execute_checked:
  assumes a: "ac_lib a" "ac_parameter a = Some regs" "named regs"
    and r: "request_ok r" "parameters r = Some ps" "convertible regs ps"
  shows "(\<exists>r' h'. iot_action_execute os_system_run bufs (Some a) r m h s = Some (STATUS_BAD_REQUEST, r', h', s) \<and>
      refusable regs ps) \<or>
    (\<exists>qs h1. accepts regs qs \<and> parameters (with_parameters qs r) = Some qs \<and>
      request_ok (with_parameters qs r) \<and> map parameter_key qs = map parameter_key ps \<and>
      (\<forall>k. k \<notin> parameter_key ` set regs \<longrightarrow> parameter_map qs k = parameter_map ps k) \<and>
      (case perform_action os_system_run bufs a (with_parameters qs r) m h1 s of
         None \<Rightarrow> iot_action_execute os_system_run bufs (Some a) r m h s = None
       | Some (res, r2, h2, s2) \<Rightarrow>
           if res \<noteq> STATUS_SUCCESS
           then iot_action_execute os_system_run bufs (Some a) r m h s = Some (res, r2, h2, s2)
           else (case parameters r2 of
               None \<Rightarrow> iot_action_execute os_system_run bufs (Some a) r m h s = None
             | Some ps2 \<Rightarrow> named ps2 \<longrightarrow>
                 (if outputs_given regs ps2
                  then iot_action_execute os_system_run bufs (Some a) r m h s = Some (STATUS_SUCCESS, r2, h2, s2)
                  else \<exists>r' h'. iot_action_execute os_system_run bufs (Some a) r m h s =
                    Some (STATUS_BAD_REQUEST, r', h', s2)))))"
proof -
  have ps: "named ps" using r by (simp add: request_ok_def)
  obtain req bad qs h1 where c: "check_parameters regs ps h = Some (req, bad, qs, h1)" "named qs"
    "map parameter_key qs = map parameter_key ps"
    "\<And>k. k \<notin> parameter_key ` set regs \<Longrightarrow> parameter_map qs k = parameter_map ps k"
    "req = None \<Longrightarrow> bad = None \<Longrightarrow> \<forall>reg \<in> set regs. satisfied reg (parameter_map qs (parameter_key reg))"
    "req \<noteq> None \<or> bad \<noteq> None \<Longrightarrow> \<exists>reg \<in> set regs. rejected reg (parameter_map ps (parameter_key reg))"
    using check_parameters_spec[OF a(3) ps r(3)] by blast
  let ?r = "with_parameters qs r"
  have len: "length qs = length ps" using c(3) by (metis length_map)
  note r1 = with_parameters_ok[OF r(1,2) len c(2)]
  have exec: "iot_action_execute os_system_run bufs (Some a) r m h s = do {
      (result, request, h, s) \<leftarrow> (case (req, bad, unknown_parameter qs) of
         (None, None, None) \<Rightarrow> perform_action os_system_run bufs a ?r m h1 s
       | (Some name, _) \<Rightarrow> refused h1 ?r (''required IN parameter missing: '' @ name) s
       | (_, Some name, _) \<Rightarrow> refused h1 ?r (''invalid value for parameter: '' @ name) s
       | (_, _, Some p) \<Rightarrow> do { name \<leftarrow> ap_name p; refused h1 ?r (''unknown IN parameter: '' @ name) s });
      (if result = STATUS_SUCCESS
       then do {
         ps \<leftarrow> parameters request;
         missing \<leftarrow> missing_output regs ps;
         (case missing of
            None \<Rightarrow> Some (result, request, h, s)
          | Some name \<Rightarrow> refused h request (''required OUT parameter missing: '' @ name) s)
       }
       else Some (result, request, h, s)) }"
    using a(1,2) r(2) c(1) unfolding iot_action_execute_def Let_def by simp
  note refusal = refused_result[of h1 ?r _ s]
  consider name where "req = Some name" | name where "req = None" "bad = Some name"
    | p where "req = None" "bad = None" "unknown_parameter qs = Some p"
    | (pass) "req = None" "bad = None" "unknown_parameter qs = None"
    by (cases req; cases bad; cases "unknown_parameter qs") auto
  then show ?thesis
  proof cases
    case (1 name)
    then show ?thesis using c(6) refusal[of "''required IN parameter missing: '' @ name"]
      unfolding exec refusable_def by auto
  next
    case (2 name)
    then show ?thesis using c(6) refusal[of "''invalid value for parameter: '' @ name"]
      unfolding exec refusable_def by auto
  next
    case (3 p)
    note p = unknown_parameter_spec(2)[OF 3(3)]
    obtain name where "ap_name p = Some name" using p c(2) by (auto simp: named_def)
    moreover have "refusable regs ps"
      using unknown_refusable[OF c(2,3,4) c(5)[OF 3(1,2)], of p] p by blast
    ultimately show ?thesis using 3 refusal[of "''unknown IN parameter: '' @ name"]
      unfolding exec by auto
  next
    case pass
    have ok: "accepts regs qs" using c(5) pass unknown_parameter_spec(1)[of qs] by (simp add: accepts_def)
    have after: "iot_action_execute os_system_run bufs (Some a) r m h s = do {
        (result, request, h, s) \<leftarrow> perform_action os_system_run bufs a ?r m h1 s;
        (if result = STATUS_SUCCESS
         then do {
           ps \<leftarrow> parameters request;
           missing \<leftarrow> missing_output regs ps;
           (case missing of
              None \<Rightarrow> Some (result, request, h, s)
            | Some name \<Rightarrow> refused h request (''required OUT parameter missing: '' @ name) s)
         }
         else Some (result, request, h, s)) }"
      using pass unfolding exec by simp
    have outputs: "if outputs_given regs ps2
        then iot_action_execute os_system_run bufs (Some a) r m h s = Some (STATUS_SUCCESS, r2, h2, s2)
        else \<exists>r' h'. iot_action_execute os_system_run bufs (Some a) r m h s = Some (STATUS_BAD_REQUEST, r', h', s2)"
      if run: "perform_action os_system_run bufs a ?r m h1 s = Some (STATUS_SUCCESS, r2, h2, s2)"
        "parameters r2 = Some ps2" "named ps2" for r2 h2 s2 ps2
    proof -
      obtain miss where miss: "missing_output regs ps2 = Some miss" "miss = None \<longleftrightarrow> outputs_given regs ps2"
        using missing_output_spec[of regs ps2] a(3) run(3) by (auto simp: named_def)
      show ?thesis
        using run miss refused_result[of h2 r2 _ s2] unfolding after by (cases miss) auto
    qed
    let ?E = "iot_action_execute os_system_run bufs (Some a) r m h s"
    have "case perform_action os_system_run bufs a ?r m h1 s of
         None \<Rightarrow> ?E = None
       | Some (res, r2, h2, s2) \<Rightarrow>
           if res \<noteq> STATUS_SUCCESS then ?E = Some (res, r2, h2, s2)
           else (case parameters r2 of
               None \<Rightarrow> ?E = None
             | Some ps2 \<Rightarrow> named ps2 \<longrightarrow>
                 (if outputs_given regs ps2 then ?E = Some (STATUS_SUCCESS, r2, h2, s2)
                  else \<exists>r' h'. ?E = Some (STATUS_BAD_REQUEST, r', h', s2)))"
    proof (cases "perform_action os_system_run bufs a ?r m h1 s")
      case None
      then show ?thesis by (simp add: after)
    next
      case (Some x)
      obtain res r2 h2 s2 where x: "x = (res, r2, h2, s2)" by (cases x)
      note run = Some[unfolded x]
      show ?thesis
      proof (cases "res = STATUS_SUCCESS")
        case True
        show ?thesis
        proof (cases "parameters r2")
          case None
          then show ?thesis using run True by (simp add: after)
        next
          case (Some ps2)
          then show ?thesis using run True outputs[OF run[unfolded True] Some] by simp
        qed
      next
        case False
        then show ?thesis using run by (simp add: after)
      qed
    qed
    then show ?thesis using ok c(3,4) r1 by blast
  qed
qed

text \<open>An action that wants a 16-bit number, and a request that has an 8-bit one for it.\<close>

definition example_counter :: "nat iot_action" where
  "example_counter = action_zero\<lparr>ac_lib := True, ac_name := Some ''count'',
     ac_parameter := Some [\<lparr>ap_name = Some ''step'', ap_data = data_zero\<lparr>dtype := TYPE_INT16\<rparr>,
       ap_type = parameter_type PARAMETER_IN_REQUIRED\<rparr>],
     ac_callback := Some (\<lambda>r h s. Some (STATUS_SUCCESS, r, h, s + 1))\<rparr>"

definition example_step :: iot_data where
  "example_step = (set_member 8 5 data_zero)\<lparr>dtype := TYPE_INT8, has_value := True\<rparr>"

definition example_counting :: iot_action_request where
  "example_counting = request_zero\<lparr>rq_lib := True, rq_name := Some ''COUNT'',
     rq_parameter := Some [\<lparr>ap_name = Some ''Step'', ap_data = example_step, ap_type = PARAMETER_OUT\<rparr>],
     rq_parameter_count := 1\<rparr>"

lemma example_step_value: "has_value example_step" "heap_storage example_step = NULL"
  by (simp_all add: example_step_def data_zero_def)

lemma example_step_converts:
  "iot_common_data_convert CONVERSION_BASIC TYPE_INT16 h (Some example_step) =
     Some (True, Some ((set_member 16 5 example_step)\<lparr>dtype := TYPE_INT16\<rparr>), h)"
  by (simp add: iot_common_data_convert_def Let_def basic_conversion_def convert_int16_def example_step_def
      IOT_CONVERT_def signed_member_def set_member_def data_zero_def)

text \<open>A system that runs nothing.\<close>

definition example_os :: "nat system_run" where
  "example_os command return_output time_out s = (OS_OTHER, 0, [], [], s)"

theorem execute_checked_witness:
  "\<exists>r' h'. iot_action_execute example_os (8, 16) (Some example_counter) example_counting 0 empty_heap 0 =
    Some (STATUS_SUCCESS, r', h', 1)"
proof -
  let ?reg = "\<lparr>ap_name = Some ''step'', ap_data = data_zero\<lparr>dtype := TYPE_INT16\<rparr>,
     ap_type = parameter_type PARAMETER_IN_REQUIRED\<rparr>"
  let ?p = "\<lparr>ap_name = Some ''Step'', ap_data = example_step, ap_type = PARAMETER_OUT\<rparr>"
  have k: "casekey IOT_NAME_MAX_LEN ''Step'' = ''step''" "casekey IOT_NAME_MAX_LEN ''step'' = ''step''"
    by (simp_all add: casekey_def tolower_def char_of_def bit_0)
  have lib: "ac_lib example_counter" "ac_parameter example_counter = Some [?reg]" "named [?reg]"
    by (simp_all add: example_counter_def named_def)
  have ps: "parameters example_counting = Some [?p]"
    by (simp add: parameters_def example_counting_def)
  have ok: "request_ok example_counting"
    unfolding request_ok_def ps by (simp add: named_def example_counting_def)
  have m: "parameter_map [?p] ''step'' = Some ?p" by (simp add: parameter_map_def k)
  have conv: "convertible [?reg] [?p]"
    by (auto simp: convertible_def k m example_step_converts)
  have no: "\<not> refusable [?reg] [?p]"
    by (simp add: refusable_def rejected_def k m example_step_converts parameter_type_def)
      (simp add: example_step_def)
  from execute_checked[OF lib ok ps conv, of example_os "(8, 16)" 0 empty_heap 0] no obtain qs h1 where
    qs: "parameters (with_parameters qs example_counting) = Some qs" "request_ok (with_parameters qs example_counting)" and
    e: "case perform_action example_os (8, 16) example_counter (with_parameters qs example_counting) 0 h1 0 of
         None \<Rightarrow> iot_action_execute example_os (8, 16) (Some example_counter) example_counting 0 empty_heap 0 = None
       | Some (res, r2, h2, s2) \<Rightarrow>
           if res \<noteq> STATUS_SUCCESS
           then iot_action_execute example_os (8, 16) (Some example_counter) example_counting 0 empty_heap 0 =
             Some (res, r2, h2, s2)
           else (case parameters r2 of
               None \<Rightarrow> iot_action_execute example_os (8, 16) (Some example_counter) example_counting 0 empty_heap 0 = None
             | Some ps2 \<Rightarrow> named ps2 \<longrightarrow>
                 (if outputs_given [?reg] ps2
                  then iot_action_execute example_os (8, 16) (Some example_counter) example_counting 0 empty_heap 0 =
                    Some (STATUS_SUCCESS, r2, h2, s2)
                  else \<exists>r' h'. iot_action_execute example_os (8, 16) (Some example_counter) example_counting 0
                    empty_heap 0 = Some (STATUS_BAD_REQUEST, r', h', s2)))"
    by blast
  let ?r = "(with_parameters qs example_counting)\<lparr>rq_flags := 0, rq_time_limit := 0\<rparr>"
  have perform: "perform_action example_os (8, 16) example_counter (with_parameters qs example_counting) 0 h1 0 =
      Some (STATUS_SUCCESS, ?r, h1, 1)"
    by (simp add: perform_action_def example_counter_def action_zero_def)
  have "parameters ?r = Some qs" using qs(1) by (simp add: parameters_def cong: if_cong)
  moreover have "named qs" using qs unfolding request_ok_def by simp
  moreover have "outputs_given [?reg] qs" by (simp add: outputs_given_def parameter_type_def)
  ultimately show ?thesis using e perform by auto
qed

section \<open>The worker and the queue\<close>

lemma set_status_lib: "iot_action_request_set_status h r st msg = (r', h') \<Longrightarrow> rq_lib r' = rq_lib r"
  by (auto simp: iot_action_request_set_status_def Let_def split: option.splits if_splits prod.splits)

lemma parameter_set_lib:
  "iot_action_request_parameter_set h r name t args = Some (st, r', h') \<Longrightarrow> rq_lib r' = rq_lib r"
  by (auto simp: iot_action_request_parameter_set_def iot_action_request_parameter_set_args_def parameter_new_def Let_def
      split: option.splits if_splits bind_splits prod.splits)

lemma set_outputs_lib: "set_outputs bufs c out err h r = Some (r', h') \<Longrightarrow> rq_lib r' = rq_lib r"
  by (auto simp: set_outputs_def set_output_def Let_def dest!: parameter_set_lib split: bind_splits if_splits)

lemma execute_command_lib:
  "iot_action_execute_command os bufs a r m h s = Some (res, r', h', s') \<Longrightarrow> rq_lib r' = rq_lib r"
  by (auto simp: iot_action_execute_command_def Let_def dest!: set_outputs_lib
      split: option.splits bind_splits if_splits prod.splits)

definition keeps_library :: "'s action_callback option \<Rightarrow> bool" where
  "keeps_library callback \<longleftrightarrow> (\<forall>cb r h s res r' h' s'. callback = Some cb \<longrightarrow>
     cb r h s = Some (res, r', h', s') \<longrightarrow> rq_lib r' = rq_lib r)"

lemma perform_action_lib:
  assumes "keeps_library (ac_callback a)" and "perform_action os bufs a r m h s = Some (res, r', h', s')"
  shows "rq_lib r' = rq_lib r"
proof (cases "ac_callback a")
  case None
  then show ?thesis
    using assms(2) by (auto simp: perform_action_def Let_def dest!: execute_command_lib set_status_lib
        split: if_splits bind_splits prod.splits)
next
  case (Some cb)
  then have "cb (r\<lparr>rq_flags := ac_flags a, rq_time_limit := ac_time_limit a\<rparr>) h s = Some (res, r', h', s')"
    using assms(2) by (simp add: perform_action_def)
  then have "rq_lib r' = rq_lib (r\<lparr>rq_flags := ac_flags a, rq_time_limit := ac_time_limit a\<rparr>)"
    using assms(1) Some unfolding keeps_library_def by blast
  also have "\<dots> = rq_lib r" by simp
  finally show ?thesis .
qed

lemma refused_lib: "refused h r msg s = Some (res, r', h', s') \<Longrightarrow> rq_lib r' = rq_lib r"
  by (auto simp: refused_def Let_def dest!: set_status_lib split: prod.splits)

lemma with_parameters_lib [simp]: "rq_lib (with_parameters ps r) = rq_lib r"
  by (simp add: with_parameters_def)

lemma execute_lib:
  assumes "\<And>b. a = Some b \<Longrightarrow> keeps_library (ac_callback b)"
    and "iot_action_execute os bufs a r m h s = Some (res, r', h', s')"
  shows "rq_lib r' = rq_lib r"
  using assms
  by (fastforce simp: iot_action_execute_def Let_def dest!: refused_lib perform_action_lib[rotated]
      split: option.splits bind_splits if_splits prod.splits)

lemma process_request_lib:
  assumes "\<And>p a. mem R p = Some a \<Longrightarrow> keeps_library (ac_callback a)"
    and "process_request os bufs R to_quit r m h s = Some (p, r', h', s')"
  shows "rq_lib r' = rq_lib r" "rq_error r' = None"
proof -
  obtain p' where p': "find_action R (take (min (used R) IOT_ACTION_MAX) (slots R)) (rq_name r) = Some p'"
    using assms(2) by (auto simp: process_request_def split: bind_splits)
  have "\<exists>res r1 h1. iot_action_request_set_status h1 r1 res None = (r', h') \<and> rq_lib r1 = rq_lib r"
  proof (cases "\<not> to_quit \<and> p' \<noteq> NULL")
    case True
    then obtain a res r1 h1 s1 where "mem R p' = Some a"
      and ex: "iot_action_execute os bufs (Some a) r m h s = Some (res, r1, h1, s1)"
      and "iot_action_request_set_status h1 r1 res None = (r', h')"
      using assms(2) p' by (auto simp: process_request_def Let_def split: bind_splits prod.splits)
    moreover have "keeps_library (ac_callback b)" if "Some a = Some b" for b
      using assms(1) \<open>mem R p' = Some a\<close> that by blast
    ultimately show ?thesis using execute_lib[OF _ ex] by blast
  next
    case False
    then have "iot_action_request_set_status h r STATUS_NOT_FOUND None = (r', h')"
      using assms(2) p' by (auto simp: process_request_def Let_def split: prod.splits)
    then show ?thesis by blast
  qed
  then obtain res r1 h1 where st: "iot_action_request_set_status h1 r1 res None = (r', h')"
    and lib: "rq_lib r1 = rq_lib r" by blast
  show "rq_lib r' = rq_lib r" using set_status_lib[OF st] lib by simp
  show "rq_error r' = None" using st by (auto simp: iot_action_request_set_status_def)
qed

lemma find_action_spec:
  assumes "\<forall>p \<in> set ps. p \<noteq> NULL \<and> item_key action_name R p \<noteq> None"
  shows "\<exists>p. find_action R ps (Some name) = Some p \<and>
    (if p = NULL then \<forall>q \<in> set ps. item_key action_name R q \<noteq> Some (casekey IOT_NAME_MAX_LEN name)
     else p \<in> set ps \<and> item_key action_name R p = Some (casekey IOT_NAME_MAX_LEN name))"
  using assms
proof (induction ps)
  case (Cons q ps)
  then obtain a nm where a: "mem R q = Some a" "ac_name a = Some nm"
    by (auto simp: item_key_def action_name_def split: bind_splits)
  have key: "item_key action_name R q = Some (casekey IOT_NAME_MAX_LEN nm)"
    using a by (simp add: item_key_def action_name_def)
  show ?case using Cons a key by auto
qed simp

text \<open>What happens to the request: its action runs, or it is marked as not found.\<close>

lemma process_request_outcome:
  assumes "process_request os bufs R to_quit r m h s = Some (action, r', h', s')"
  shows "if action \<noteq> NULL \<and> \<not> to_quit
    then \<exists>a result r0 h0. mem R action = Some a \<and>
      iot_action_execute os bufs (Some a) r m h s = Some (result, r0, h0, s') \<and>
      iot_action_request_set_status h0 r0 result None = (r', h') \<and> rq_result r' = result
    else iot_action_request_set_status h r STATUS_NOT_FOUND None = (r', h') \<and>
      rq_result r' = STATUS_NOT_FOUND \<and> s' = s"
proof -
  have status: "rq_result r1 = st" if "iot_action_request_set_status h1 r0 st None = (r1, h2)" for h1 r0 st r1 h2
    using that by (auto simp: iot_action_request_set_status_def)
  show ?thesis
    using assms status
    by (auto simp: process_request_def Let_def split: bind_splits prod.splits if_splits)
qed

lemma process_spec:
  assumes ok: "requests_ok Q H run" and idle: "run w = None" and cpy: "copies_disjoint cpy" and few: "length (waiting Q) \<le> 2"
    and acts: "action_ok stack R" "\<forall>p a. mem R p = Some a \<longrightarrow> keeps_library (ac_callback a)"
    and process: "iot_action_process f g cpy os bufs lib R Q to_quit m h s = Some (st, Q', h', lib', s')"
  shows "if waiting Q = [] then (st, Q', h', lib', s') = (STATUS_NOT_FOUND, Q, h, lib, s)
    else \<exists>i action r h1 s1 res tx. waiting Q = i # waiting Q' \<and> st = STATUS_SUCCESS \<and>
      (if action \<noteq> NULL \<and> \<not> to_quit
       then \<exists>a result r0 h0. mem R action = Some a \<and>
         iot_action_execute os bufs (Some a) (request_queue Q ! i) m h s = Some (result, r0, h0, s1) \<and>
         iot_action_request_set_status h0 r0 result None = (r, h1) \<and> rq_result r = result
       else iot_action_request_set_status h (request_queue Q ! i) STATUS_NOT_FOUND None = (r, h1) \<and>
         rq_result r = STATUS_NOT_FOUND \<and> s1 = s) \<and>
      (\<forall>name. rq_name (request_queue Q ! i) = Some name \<longrightarrow>
        (if action = NULL then \<forall>p \<in> set (items R). item_key action_name R p \<noteq> Some (casekey IOT_NAME_MAX_LEN name)
         else action \<in> set (items R) \<and> item_key action_name R action = Some (casekey IOT_NAME_MAX_LEN name))) \<and>
      rq_error r = None \<and>
      perform_op f g lib False (Some m) OPERATION_ACTION_COMPLETE action (ValueRequest r) None s1 =
        Some (res, tx, lib', s') \<and>
      request_run f g cpy (Q, H, run, lib, s) [Taken w i, Changed i, Outside, Completed w i] (Q', H, run, lib', s') \<and>
      requests_ok Q' H run \<and> i \<in> set (available Q')"
proof (cases "waiting Q = []")
  case True
  have "wait_ok Q" using ok by (simp add: requests_ok_def)
  then have "request_queue_wait_count Q = 0" using True length_waiting by fastforce
  then have "wait_get cpy Q = Some (None, Q)" by (simp add: wait_get_def)
  then show ?thesis using process True by (simp add: iot_action_process_def)
next
  case False
  then obtain i xs where w: "waiting Q = i # xs" by (cases "waiting Q") auto
  have "wait_ok Q" using ok by (simp add: requests_ok_def)
  from wait_get_first[OF cpy this w few] obtain Q1 where
    got: "wait_get cpy Q = Some (Some i, Q1)" and Q1: "waiting Q1 = xs" "request_queue Q1 = request_queue Q" by blast
  have own1: "requests_ok Q1 H (run(w \<mapsto> i))" by (rule take_ok[OF ok idle cpy few got, THEN conjunct1])
  have i: "i < length (request_queue Q1)" "rq_lib (request_queue Q1 ! i)"
    using owned_lib[OF own1, of i] ranI[of "run(w \<mapsto> i)" w i] by auto
  obtain action r h1 s1 where pr: "process_request os bufs R to_quit (request_queue Q ! i) m h s = Some (action, r, h1, s1)"
    using process got i Q1(2) by (auto simp: iot_action_process_def load_def split: bind_splits)
  let ?Q2 = "set_request i r Q1"
  obtain res tx lib1 s2 where op: "perform_op f g lib False (Some m) OPERATION_ACTION_COMPLETE action
      (ValueRequest r) None s1 = Some (res, tx, lib1, s2)"
    using process got i Q1(2) pr by (auto simp: iot_action_process_def load_def Let_def split: bind_splits)
  obtain st2 where free: "iot_action_request_free h1 ?Q2 (Some i) = Some (st2, Q', h')"
    and out: "st = STATUS_SUCCESS" "lib' = lib1" "s' = s2"
    using process got i Q1(2) pr op by (auto simp: iot_action_process_def load_def Let_def split: bind_splits)
  have lib_r: "rq_lib r" "rq_error r = None"
    using process_request_lib[OF acts(2)[rule_format] pr] i Q1(2) by simp_all
  have "load (request_queue ?Q2) i = Some r" using i(1) by (simp add: set_request_def load_def)
  then have st2: "st2 = STATUS_SUCCESS"
    using free lib_r(1) by (auto simp: iot_action_request_free_def Let_def split: bind_splits if_splits)
  note free' = free[unfolded st2]
  have steps: "request_step f g cpy (Q, H, run, lib, s) (Taken w i) (Q1, H, run(w \<mapsto> i), lib, s)"
      "request_step f g cpy (Q1, H, run(w \<mapsto> i), lib, s) (Changed i) (?Q2, H, run(w \<mapsto> i), lib, s)"
      "request_step f g cpy (?Q2, H, run(w \<mapsto> i), lib, s) Outside (?Q2, H, run(w \<mapsto> i), lib', s')"
    using idle got lib_r(1) by (auto simp: set_request_def intro: request_step.intros)
  have last_step: "request_step f g cpy (?Q2, H, run(w \<mapsto> i), lib', s') (Completed w i)
      (Q', H, (run(w \<mapsto> i))(w := None), lib', s')"
    by (rule request_step.complete[OF _ free']) simp
  have idle_again: "(run(w \<mapsto> i))(w := None) = run" using idle by auto
  have runs: "request_run f g cpy (Q, H, run, lib, s) [Taken w i, Changed i, Outside, Completed w i]
      (Q', H, run, lib', s')"
    using request_run.step[OF request_run.step[OF request_run.step[OF request_run.step[OF request_run.start
        steps(1)] steps(2)] steps(3)] last_step] unfolding idle_again by simp
  have "few_waiting (length (waiting Q)) [Taken w i, Changed i, Outside, Completed w i]"
    using few by (simp add: few_waiting_def less_Suc_eq eval_nat_numeral)
  then have ok': "requests_ok Q' H run" "waiting Q' = xs"
    using run_ok[OF runs cpy ok] w by auto
  have "set (available Q') \<union> H \<union> set (waiting Q') \<union> ran run = {..<IOT_ACTION_QUEUE_MAX}"
    using ok'(1) by (simp add: requests_ok_def shared_def)
  moreover have "i < IOT_ACTION_QUEUE_MAX" "i \<notin> H" "i \<notin> ran run" "i \<notin> set xs"
    using ok w i Q1(2) by (auto simp: requests_ok_def shared_def)
  ultimately have avail: "i \<in> set (available Q')" using ok'(2) by auto
  note tab = pool_okD(1)[OF acts(1)]
  have it: "take (min (used R) IOT_ACTION_MAX) (slots R) = items R"
    using registry_okD(2)[OF tab] by (simp add: items_def min_def)
  have live: "\<forall>p \<in> set (items R). p \<noteq> NULL \<and> item_key action_name R p \<noteq> None"
    using registry_okD(4,6)[OF tab] by metis
  have found: "if action = NULL then \<forall>p \<in> set (items R). item_key action_name R p \<noteq> Some (casekey IOT_NAME_MAX_LEN name)
      else action \<in> set (items R) \<and> item_key action_name R action = Some (casekey IOT_NAME_MAX_LEN name)"
    if name: "rq_name (request_queue Q ! i) = Some name" for name
    using find_action_spec[OF live, of name] pr
    by (auto simp: process_request_def it name Let_def split: bind_splits prod.splits if_splits)
  have outcome: "if action \<noteq> NULL \<and> \<not> to_quit
      then \<exists>a result r0 h0. mem R action = Some a \<and>
        iot_action_execute os bufs (Some a) (request_queue Q ! i) m h s = Some (result, r0, h0, s1) \<and>
        iot_action_request_set_status h0 r0 result None = (r, h1) \<and> rq_result r = result
      else iot_action_request_set_status h (request_queue Q ! i) STATUS_NOT_FOUND None = (r, h1) \<and>
        rq_result r = STATUS_NOT_FOUND \<and> s1 = s"
    by (rule process_request_outcome[OF pr])
  show ?thesis
    unfolding if_not_P[OF False]
    by (intro exI[of _ i] exI[of _ action] exI[of _ r] exI[of _ h1] exI[of _ s1] exI[of _ res] exI[of _ tx] conjI allI impI)
      (use w ok' out outcome found lib_r(2) op runs avail in \<open>simp_all\<close>)
qed

text \<open>
  C1: what an idle worker does while at most two requests wait (with more, the code copies between
  areas that overlap). With nothing waiting it reports NOT_FOUND and changes nothing. Otherwise it
  takes the first waiting request and looks for an action of its name, up to case. If there is one
  and the library is not about to quit, that action is executed on the request and its result is the
  outcome; if not, the outcome is NOT_FOUND and the outside world is not touched. The plug-ins are
  told that the request completed, once, with the outcome and never with an error message, and the
  request is released: it is free again, and the queue goes through take, change and completion only.
\<close>

theorem worker_processes:
  assumes ok: "requests_ok Q H run" and idle: "run w = None" and cpy: "copies_disjoint cpy" and few: "length (waiting Q) \<le> 2"
    and acts: "action_ok stack R" "\<forall>p a. mem R p = Some a \<longrightarrow> keeps_library (ac_callback a)"
    and process: "iot_action_process f g cpy os bufs lib R Q to_quit m h s = Some (st, Q', h', lib', s')"
  shows "if waiting Q = [] then (st, Q', h', lib', s') = (STATUS_NOT_FOUND, Q, h, lib, s)
    else \<exists>i action r h1 s1 res tx. waiting Q = i # waiting Q' \<and> st = STATUS_SUCCESS \<and>
      (if action \<noteq> NULL \<and> \<not> to_quit
       then \<exists>a result r0 h0. mem R action = Some a \<and>
         iot_action_execute os bufs (Some a) (request_queue Q ! i) m h s = Some (result, r0, h0, s1) \<and>
         iot_action_request_set_status h0 r0 result None = (r, h1) \<and> rq_result r = result
       else iot_action_request_set_status h (request_queue Q ! i) STATUS_NOT_FOUND None = (r, h1) \<and>
         rq_result r = STATUS_NOT_FOUND \<and> s1 = s) \<and>
      (\<forall>name. rq_name (request_queue Q ! i) = Some name \<longrightarrow>
        (if action = NULL then \<forall>p \<in> set (items R). item_key action_name R p \<noteq> Some (casekey IOT_NAME_MAX_LEN name)
         else action \<in> set (items R) \<and> item_key action_name R action = Some (casekey IOT_NAME_MAX_LEN name))) \<and>
      rq_error r = None \<and>
      perform_op f g lib False (Some m) OPERATION_ACTION_COMPLETE action (ValueRequest r) None s1 =
        Some (res, tx, lib', s') \<and>
      request_run f g cpy (Q, H, run, lib, s) [Taken w i, Changed i, Outside, Completed w i] (Q', H, run, lib', s') \<and>
      requests_ok Q' H run \<and> i \<in> set (available Q')"
  by (rule process_spec[OF assms])

definition example_counters :: "nat iot_action registry" where
  "example_counters = \<lparr>mem = [1 \<mapsto> example_counter], slots = 1 # replicate (IOT_ACTION_MAX - 1) NULL, used = 1\<rparr>"

definition example_pending :: iot_requests where
  "example_pending = \<lparr>request_queue = example_counting # replicate 9 request_zero,
     request_queue_free = [0..<IOT_ACTION_QUEUE_MAX], request_queue_free_count = 1,
     request_queue_wait = replicate 10 0, request_queue_wait_count = 1\<rparr>"

lemma example_counters_ok: "action_ok {1} example_counters"
  by (simp add: pool_ok_def registry_ok_def example_counters_def items_def item_key_def action_name_def
      example_counter_def free_objects_def table_keys_def action_zero_def)

lemma example_pending_ok: "requests_ok example_pending {} Map.empty" "waiting example_pending = [0]"
proof -
  have "{1..<10} \<union> {0} = {..<10 :: nat}" by auto
  then show "requests_ok example_pending {} Map.empty"
    by (simp add: requests_ok_def shared_def available_def waiting_def wait_ok_def example_pending_def
        example_counting_def drop_upt)
qed (simp add: waiting_def example_pending_def)

text \<open>The worker counts five up by one, although the plug-ins are only told that it succeeded.\<close>

lemma example_counters_run:
  "\<exists>Q' h'. iot_action_process (\<lambda>_. 0) (\<lambda>_. 0) copy_first os (8, 16) example_plugin_lib example_counters
     example_pending False 0 empty_heap 0 = Some (STATUS_SUCCESS, Q', h', example_plugin_lib, 1)"
proof -
  have k: "casekey IOT_NAME_MAX_LEN ''Step'' = ''step''" "casekey IOT_NAME_MAX_LEN ''step'' = ''step''"
    "casekey IOT_NAME_MAX_LEN ''COUNT'' = ''count''" "casekey IOT_NAME_MAX_LEN ''count'' = ''count''"
    by (simp_all add: casekey_def tolower_def char_of_def bit_0)
  have find: "find_action example_counters [1] (Some ''COUNT'') = Some 1"
    by (simp add: example_counters_def example_counter_def k)
  have op: "perform_op (\<lambda>_. 0) (\<lambda>_. 0) example_plugin_lib False (Some 0) OPERATION_ACTION_COMPLETE p v None s =
      Some (STATUS_SUCCESS, None, example_plugin_lib, s)" for p v and s :: nat
    by (simp add: perform_op_def iot_plugin_perform_def option_time_out_def next_transaction_def Let_def
        perform_loop.simps perform_pass.simps example_plugin_lib_def)
  have get: "wait_get copy_first example_pending = Some (Some 0, example_pending\<lparr>request_queue_wait_count := 0\<rparr>)"
    by (simp add: wait_get_def example_pending_def load_def Let_def)
  have regs: "request_parameter ''step'' (the (rq_parameter example_counting)) = Some (Some 0)"
    by (simp add: example_counting_def k)
  let ?q = "\<lparr>ap_name = Some ''Step'', ap_data = (set_member 16 5 example_step)\<lparr>dtype := TYPE_INT16\<rparr>,
      ap_type = parameter_type PARAMETER_IN_REQUIRED\<rparr>"
  have check: "check_parameters (the (ac_parameter example_counter)) (the (rq_parameter example_counting)) empty_heap =
      Some (None, None, [?q], empty_heap)"
    using regs example_step_value
    by (simp add: example_counter_def example_counting_def example_step_converts Let_def)
  let ?r = "(with_parameters [?q] example_counting)\<lparr>rq_flags := 0, rq_time_limit := 0,
      rq_error := None, rq_result := STATUS_SUCCESS\<rparr>"
  obtain regs ps where found: "ac_lib example_counter" "ac_parameter example_counter = Some regs"
    "parameters example_counting = Some ps" "unknown_parameter [?q] = None"
    "check_parameters regs ps empty_heap = Some (None, None, [?q], empty_heap)"
    "missing_output regs qs = Some None" for qs
  proof -
    show ?thesis
      by (rule that[OF _ _ _ _ check])
        (simp_all add: example_counter_def parameters_def example_counting_def unknown_parameter_def parameter_type_def)
  qed
  have perform: "perform_action os (8, 16) example_counter (with_parameters [?q] example_counting) 0 empty_heap 0 =
      Some (STATUS_SUCCESS, (with_parameters [?q] example_counting)\<lparr>rq_flags := 0, rq_time_limit := 0\<rparr>, empty_heap, 1)"
    by (simp add: perform_action_def example_counter_def action_zero_def)
  have ps1: "parameters ((with_parameters [?q] example_counting)\<lparr>rq_flags := 0, rq_time_limit := 0\<rparr>) = Some [?q]"
    by (simp add: parameters_def with_parameters_def example_counting_def)
  have exec: "iot_action_execute os (8, 16) (Some example_counter) example_counting 0 empty_heap 0 =
      Some (STATUS_SUCCESS, (with_parameters [?q] example_counting)\<lparr>rq_flags := 0, rq_time_limit := 0\<rparr>, empty_heap, 1)"
    unfolding iot_action_execute_def using found perform ps1 by (simp add: Let_def)
  have slot: "take (min (used example_counters) IOT_ACTION_MAX) (slots example_counters) = [1]"
    "rq_name example_counting = Some ''COUNT''" "mem example_counters 1 = Some example_counter"
    by (simp_all add: example_counters_def example_counting_def)
  have pr: "process_request os (8, 16) example_counters False example_counting 0 empty_heap 0 = Some (1, ?r, empty_heap, 1)"
    using find exec slot by (simp add: process_request_def iot_action_request_set_status_def)
  let ?Q = "set_request 0 ?r (example_pending\<lparr>request_queue_wait_count := 0\<rparr>)"
  have load: "load (request_queue (example_pending\<lparr>request_queue_wait_count := 0\<rparr>)) 0 = Some example_counting"
    "load (request_queue ?Q) 0 = Some ?r"
    by (simp_all add: load_def example_pending_def set_request_def)
  have ps: "parameters ?r = Some [?q]" "rq_parameter ?r = Some [?q]" "rq_option ?r = []" "rq_lib ?r"
    by (simp_all add: parameters_def with_parameters_def example_counting_def request_zero_def)
  have "\<exists>Q'. iot_action_request_free empty_heap ?Q (Some 0) = Some (STATUS_SUCCESS, Q', empty_heap)"
    unfolding iot_action_request_free_def using load(2) ps example_step_value
    by (simp add: os_free_def Let_def) (simp add: example_pending_def set_request_def store_def)
  then show ?thesis
    unfolding iot_action_process_def using get load(1) pr op by (auto simp: Let_def)
qed

theorem worker_processes_witness:
  "\<exists>Q' h' action r s'. iot_action_process (\<lambda>_. 0) (\<lambda>_. 0) copy_first example_os (8, 16) example_plugin_lib example_counters
     example_pending False 0 empty_heap (0 :: nat) = Some (STATUS_SUCCESS, Q', h', example_plugin_lib, 1) \<and>
   waiting Q' = [] \<and> 0 \<in> set (available Q') \<and> rq_error r = None \<and>
   perform_op (\<lambda>_. 0) (\<lambda>_. 0) example_plugin_lib False (Some 0) OPERATION_ACTION_COMPLETE action (ValueRequest r) None (s' :: nat) \<noteq> None"
proof -
  obtain Q' h' where run: "iot_action_process (\<lambda>_. 0) (\<lambda>_. 0) copy_first example_os (8, 16) example_plugin_lib example_counters
     example_pending False 0 empty_heap (0 :: nat) = Some (STATUS_SUCCESS, Q', h', example_plugin_lib, 1)"
    using example_counters_run by blast
  have keeps: "\<forall>p a. mem example_counters p = Some a \<longrightarrow> keeps_library (ac_callback a)"
    by (auto simp: example_counters_def example_counter_def keeps_library_def split: if_splits)
  have idle: "(Map.empty :: nat \<rightharpoonup> nat) 7 = None" by simp
  have few: "length (waiting example_pending) \<le> 2" by (simp add: example_pending_ok(2))
  note w = worker_processes[OF example_pending_ok(1) idle copy_first_disjoint few example_counters_ok keeps run,
      unfolded example_pending_ok(2)]
  from w obtain i action r s1 res tx where "[0] = i # waiting Q'" "rq_error r = None" "i \<in> set (available Q')"
    "perform_op (\<lambda>_. 0) (\<lambda>_. 0) example_plugin_lib False (Some 0) OPERATION_ACTION_COMPLETE action (ValueRequest r)
      None s1 = Some (res, tx, example_plugin_lib, 1 :: nat)"
    by (simp split: if_splits) blast
  then show ?thesis
    using run by (intro exI[of _ Q'] exI[of _ h'] exI[of _ action] exI[of _ r] exI[of _ s1]) simp
qed

end
