(* ===== verification/Client.thy ===== *)
theory Client
  imports Alarm Telemetry Process Config
begin

text \<open>
  The client (\<open>struct iot\<close> and \<open>src/src/api/iot_base.c\<close>): its initialisation, the device id, the
  log level, connecting and disconnecting, the main loop, the worker threads, and its termination,
  which releases what the other components have set up.

  The built-in plug-ins are listed in a file the build generates; files, threads and the generation
  of a UUID belong to the OS abstraction library: parameters of the model. Threads run the loops
  below; the steps they interleave are those of the theories Queue and Process.
\<close>

abbreviation IOT_WORKER_THREADS :: nat where "IOT_WORKER_THREADS \<equiv> 5"
abbreviation FLAG_SINGLE_THREAD :: u8 where "FLAG_SINGLE_THREAD \<equiv> 0x01"

text \<open>Of the callback for log messages only matters whether there is one.\<close>

record 's iot =
  lib_id :: string
  lib_flags :: u8
  to_quit :: bool
  logger :: bool
  logger_level :: nat
  cfg_file_path :: "string option"
  device_id :: "string option"
  plugs :: "'s iot_lib"
  telemetry :: "iot_telemetry registry"
  actions :: "'s iot_action registry"
  alarms :: "iot_alarm registry"
  requests :: iot_requests
  config :: iot_config
  main_thread :: bool
  worker_thread :: "bool list"

section \<open>The device id\<close>

definition device_id_path :: string where
  "device_id_path = directory_format DIR_RUNTIME @ ''/device_id''"

definition printable :: "char \<Rightarrow> bool" where
  "printable c \<longleftrightarrow> 32 \<le> (of_char c :: nat) \<and> (of_char c :: nat) \<le> 126"

text \<open>
  The id is the printable beginning of what the file holds. When there is none, a new one is
  generated and written; its length becomes the number of characters that were written.
  \<open>create\<close> stands for writing the file: \<open>None\<close> when it cannot be opened.
\<close>

definition stored_device_id :: "'f os_files \<Rightarrow> string" where
  "stored_device_id files =
     (case os_file_open files device_id_path of
        Some (Some fd) \<Rightarrow> takeWhile printable (chars_of (take IOT_ID_MAX_LEN (fst (os_file_read files fd IOT_ID_MAX_LEN))))
      | _ \<Rightarrow> [])"

definition iot_base_device_id_set ::
    "'f os_files \<Rightarrow> (string \<Rightarrow> string \<Rightarrow> nat option) \<Rightarrow> string \<Rightarrow> heap \<Rightarrow> string option \<Rightarrow>
     iot_status \<times> string option \<times> heap" where
  "iot_base_device_id_set files create uuid h old =
     (let stored = stored_device_id files;
        fresh = take IOT_ID_MAX_LEN uuid;
        (ident, len) = (if stored \<noteq> [] then (stored, length stored)
          else (fresh, case create device_id_path fresh of Some n \<Rightarrow> n | None \<Rightarrow> 0))
      in if len > 0
         then (let (ok, h) = os_grab h in
               if ok then (STATUS_SUCCESS, Some (take len ident), h) else (STATUS_FAILURE, None, h))
         else (STATUS_FAILURE, old, h))"

section \<open>Initialisation\<close>

text \<open>A table whose first pointers are the objects of the stack.\<close>

definition stack_table :: "'i \<Rightarrow> nat \<Rightarrow> ptr list \<Rightarrow> 'i registry" where
  "stack_table zero cap stack = \<lparr>mem = (\<lambda>p. if p \<in> set stack then Some zero else None),
     slots = stack @ replicate (cap - length stack) NULL, used = 0\<rparr>"

text \<open>Where the objects of the stack are: actions, alarms and telemetry.\<close>

record stack_objects =
  action_objects :: "ptr list"
  alarm_objects :: "ptr list"
  telemetry_objects :: "ptr list"

definition lib_zero :: "stack_objects \<Rightarrow> 's iot" where
  "lib_zero objs = \<lparr>lib_id = [], lib_flags = 0, to_quit = False, logger = False, logger_level = 6,
     cfg_file_path = None, device_id = None,
     plugs = \<lparr>plugins = (\<lambda>_. \<lparr>p_name = None, p_info = (False, 0), p_enable = None, p_disable = None,
         p_execute = None, p_initialize = None, p_terminate = None\<rparr>),
       plugin_ptr = map Some [0..<IOT_PLUGIN_MAX], plugin_count = 0,
       plugin_enabled = replicate IOT_PLUGIN_MAX (None, 0), plugin_enabled_count = 0, transaction_count = 0\<rparr>,
     telemetry = stack_table telemetry_zero IOT_TELEMETRY_MAX (telemetry_objects objs),
     actions = stack_table action_zero IOT_ACTION_MAX (action_objects objs),
     alarms = stack_table alarm_zero IOT_ALARM_MAX (alarm_objects objs),
     requests = requests_initial (replicate IOT_ACTION_QUEUE_MAX 0),
     config = \<lparr>cf_options = \<lparr>handles = [], tables = Map.empty\<rparr>, options_config = NULL\<rparr>,
     main_thread = False, worker_thread = replicate IOT_WORKER_THREADS False\<rparr>"

text \<open>
  The built-in plug-ins: which of the slots they fill, and how they are enabled.
\<close>

record 's builtins =
  builtin_load :: "'s iot_lib \<Rightarrow> 's iot_lib"
  builtin_enable :: "'s iot_lib \<Rightarrow> 's \<Rightarrow> ('s iot_lib \<times> 's) option"

definition initialize_plugins :: "'s iot_lib \<Rightarrow> 's \<Rightarrow> 's" where
  "initialize_plugins lib s =
     fold (\<lambda>p s. case p of Some p \<Rightarrow> iot_plugin_initialize lib p s | None \<Rightarrow> s)
       (take (plugin_count lib) (plugin_ptr lib)) s"

text \<open>
  Without memory for the path of the configuration file, the library is returned as it is: without
  an id, a device id or plug-ins.
\<close>

definition iot_initialize ::
    "stack_objects \<Rightarrow> 'f os_files \<Rightarrow> (string \<Rightarrow> string \<Rightarrow> nat option) \<Rightarrow> string \<Rightarrow> 's builtins \<Rightarrow>
     heap \<Rightarrow> string option \<Rightarrow> string option \<Rightarrow> u32 \<Rightarrow> 's \<Rightarrow> ('s iot option \<times> heap \<times> 's) option" where
  "iot_initialize objs files create uuid B h ident cfg_path fl s =
     (case ident of
        None \<Rightarrow> Some (None, h, s)
      | Some ident \<Rightarrow>
          let (ok, h) = os_grab h in
          if ok
          then (let L = lib_zero objs; (st, path, h) = iot_configuration_file_set h None cfg_path in
                if st \<noteq> STATUS_NO_MEMORY
                then (let L = L\<lparr>cfg_file_path := path, lib_flags := ucast fl, lib_id := ident\<rparr>;
                          (st, dev, h) = iot_base_device_id_set files create uuid h None in
                      if st \<noteq> STATUS_SUCCESS then Some (None, h, s)
                      else do {
                        let lib = builtin_load B (plugs L);
                        let s = initialize_plugins lib s;
                        (lib, s) \<leftarrow> builtin_enable B lib s;
                        Some (Some (L\<lparr>device_id := dev, plugs := lib\<rparr>), h, s)
                      })
                else Some (Some L, h, s))
          else Some (None, h, s))"

section \<open>Log levels\<close>

definition LOG_LEVELS :: "string list" where
  "LOG_LEVELS = [''FATAL'', ''ALERT'', ''CRITICAL'', ''ERROR'', ''WARNING'', ''NOTICE'', ''INFO'', ''DEBUG'',
     ''TRACE'', ''ALL'']"

abbreviation LOG_ALL :: nat where "LOG_ALL \<equiv> 9"

definition iot_log_level_set :: "'s iot \<Rightarrow> nat \<Rightarrow> iot_status \<times> 's iot" where
  "iot_log_level_set L level =
     (if level \<le> LOG_ALL then (STATUS_SUCCESS, L\<lparr>logger_level := level\<rparr>) else (STATUS_BAD_PARAMETER, L))"

definition strcaseeq :: "string \<Rightarrow> string \<Rightarrow> bool" where
  "strcaseeq s t \<longleftrightarrow> map tolower s = map tolower t"

fun log_level_search :: "string list \<Rightarrow> string \<Rightarrow> nat \<Rightarrow> nat option" where
  "log_level_search [] s i = None"
| "log_level_search (l # ls) s i = (if strcaseeq s l then Some i else log_level_search ls s (i + 1))"

definition iot_log_level_set_string :: "'s iot \<Rightarrow> string option \<Rightarrow> iot_status \<times> 's iot" where
  "iot_log_level_set_string L level =
     (case level of
        None \<Rightarrow> (STATUS_BAD_PARAMETER, L)
      | Some s \<Rightarrow> (case log_level_search LOG_LEVELS s 0 of
          Some i \<Rightarrow> iot_log_level_set L i
        | None \<Rightarrow> (STATUS_NOT_FOUND, L)))"

text \<open>
  Logging: the callback gets the message unless its level is above the one set; a level outside the
  scale is refused. The result says whether the callback, when one is set, is called; what it does
  is outside of the model.
\<close>

definition iot_log :: "'s iot \<Rightarrow> nat \<Rightarrow> iot_status \<times> bool" where
  "iot_log L level =
     (if level < LOG_ALL then (STATUS_SUCCESS, logger L \<and> level \<le> logger_level L)
      else (STATUS_BAD_PARAMETER, False))"

definition iot_log_callback_set :: "'s iot \<Rightarrow> bool \<Rightarrow> iot_status \<times> 's iot" where
  "iot_log_callback_set L callback = (STATUS_SUCCESS, L\<lparr>logger := callback\<rparr>)"

definition iot_id :: "'s iot \<Rightarrow> string" where
  "iot_id L = lib_id L"

section \<open>Threads and loops\<close>

definition single_threaded :: "'s iot \<Rightarrow> bool" where
  "single_threaded L \<longleftrightarrow> and (lib_flags L) FLAG_SINGLE_THREAD \<noteq> 0"

text \<open>
  The threads are created in turn until one cannot be (\<open>create\<close> answers for each); those that were
  stay. The flag is only cleared when all are running.
\<close>

definition iot_loop_start :: "(nat \<Rightarrow> bool) \<Rightarrow> 's iot \<Rightarrow> iot_status \<times> 's iot" where
  "iot_loop_start create L =
     (if single_threaded L then (STATUS_NOT_SUPPORTED, L\<lparr>to_quit := False\<rparr>)
      else if main_thread L then (STATUS_SUCCESS, L\<lparr>to_quit := False\<rparr>)
      else
        let started = takeWhile create [0..<Suc IOT_WORKER_THREADS];
            L = L\<lparr>main_thread := (started \<noteq> []),
              worker_thread := map (\<lambda>i. Suc i < length started \<or> worker_thread L ! i) [0..<IOT_WORKER_THREADS]\<rparr>
        in if length started = Suc IOT_WORKER_THREADS then (STATUS_SUCCESS, L\<lparr>to_quit := False\<rparr>)
           else (STATUS_FAILURE, L))"

definition iot_loop_stop :: "'s iot \<Rightarrow> iot_status \<times> 's iot" where
  "iot_loop_stop L =
     (let L = L\<lparr>to_quit := True\<rparr> in
      if single_threaded L then (STATUS_NOT_SUPPORTED, L)
      else (STATUS_SUCCESS, L\<lparr>main_thread := False, worker_thread := map (\<lambda>_. False) (worker_thread L)\<rparr>))"

text \<open>
  One iteration: the plug-ins work, and without worker threads a waiting request is processed.
\<close>

record 's system =
  strtol :: "string \<Rightarrow> int"
  strtoul :: "string \<Rightarrow> int"
  memory_copy :: memcpy
  system_run :: "'s system_run"
  output_buffers :: "ptr \<times> ptr"

definition perform_client ::
    "'s system \<Rightarrow> 's iot \<Rightarrow> u32 \<Rightarrow> iot_operation \<Rightarrow> 's \<Rightarrow> (iot_status \<times> 's iot \<times> 's) option" where
  "perform_client sys L max_time_out op s = do {
     (result, _, lib, s) \<leftarrow> perform_op (strtol sys) (strtoul sys) (plugs L) False (Some max_time_out) op NULL ValueNone None s;
     Some (result, L\<lparr>plugs := lib\<rparr>, s)
   }"

definition process_client ::
    "'s system \<Rightarrow> 's iot \<Rightarrow> u32 \<Rightarrow> heap \<Rightarrow> 's \<Rightarrow> (iot_status \<times> 's iot \<times> heap \<times> 's) option" where
  "process_client sys L max_time_out h s = do {
     (result, Q, h, lib, s) \<leftarrow> iot_action_process (strtol sys) (strtoul sys) (memory_copy sys) (system_run sys)
       (output_buffers sys) (plugs L) (actions L) (requests L) (to_quit L) max_time_out h s;
     Some (result, L\<lparr>requests := Q, plugs := lib\<rparr>, h, s)
   }"

definition iot_loop_iteration ::
    "'s system \<Rightarrow> 's iot \<Rightarrow> u32 \<Rightarrow> heap \<Rightarrow> 's \<Rightarrow> (iot_status \<times> 's iot \<times> heap \<times> 's) option" where
  "iot_loop_iteration sys L max_time_out h s = do {
     (result, L, s) \<leftarrow> perform_client sys L max_time_out OPERATION_ITERATION s;
     (if result = STATUS_SUCCESS \<and> single_threaded L then process_client sys L max_time_out h s
      else Some (result, L, h, s))
   }"

text \<open>
  The flag \<open>to_quit\<close> is set by other threads: \<open>quit i\<close> is whether it is, when the loop looks at it
  for the \<open>i\<close>-th time.
\<close>

partial_function (option) loop_from ::
    "'s system \<Rightarrow> (nat \<Rightarrow> bool) \<Rightarrow> nat \<Rightarrow> 's iot \<Rightarrow> heap \<Rightarrow> 's \<Rightarrow> (iot_status \<times> 's iot \<times> heap \<times> 's) option" where
  "loop_from sys quit i L h s =
     (if quit i then Some (STATUS_SUCCESS, L\<lparr>to_quit := True\<rparr>, h, s)
      else Option.bind (iot_loop_iteration sys L 1000 h s) (\<lambda>r.
        if fst r = STATUS_SUCCESS then loop_from sys quit (i + 1) (fst (snd r)) (fst (snd (snd r))) (snd (snd (snd r)))
        else Some r))"

definition iot_loop_forever ::
    "'s system \<Rightarrow> (nat \<Rightarrow> bool) \<Rightarrow> 's iot \<Rightarrow> heap \<Rightarrow> 's \<Rightarrow> (iot_status \<times> 's iot \<times> heap \<times> 's) option" where
  "iot_loop_forever sys quit L h s = loop_from sys quit 0 L h s"

text \<open>
  A worker thread: it processes requests, and asks the plug-ins for more after each. It ends when
  it is woken and there is none.
\<close>

partial_function (option) worker_from ::
    "'s system \<Rightarrow> (nat \<Rightarrow> bool) \<Rightarrow> nat \<Rightarrow> 's iot \<Rightarrow> heap \<Rightarrow> 's \<Rightarrow> ('s iot \<times> heap \<times> 's) option" where
  "worker_from sys quit i L h s =
     (if quit i then Some (L, h, s)
      else Option.bind (process_client sys L 0 h s) (\<lambda>r.
        if fst r = STATUS_SUCCESS
        then Option.bind (perform_client sys (fst (snd r)) 0 OPERATION_ACTION_CHECK (snd (snd (snd r)))) (\<lambda>c.
          worker_from sys quit (i + 1) (fst (snd c)) (fst (snd (snd r))) (snd (snd c)))
        else Some (snd r)))"

definition iot_base_worker_thread_main ::
    "'s system \<Rightarrow> (nat \<Rightarrow> bool) \<Rightarrow> 's iot \<Rightarrow> heap \<Rightarrow> 's \<Rightarrow> ('s iot \<times> heap \<times> 's) option" where
  "iot_base_worker_thread_main sys quit L h s = worker_from sys quit 0 L h s"

section \<open>Connecting and disconnecting\<close>

text \<open>The log level is read from the configuration that was loaded, even if loading failed.\<close>

definition iot_connect ::
    "'s system \<Rightarrow> 'f os_files \<Rightarrow> decoder \<Rightarrow> (nat \<Rightarrow> bool) \<Rightarrow> 's iot \<Rightarrow> u32 \<Rightarrow> heap \<Rightarrow> 's \<Rightarrow>
     (iot_status \<times> 's iot \<times> heap \<times> 's) option" where
  "iot_connect sys files decode create L max_time_out h s = do {
     (result, C, h) \<leftarrow> iot_base_configuration_load files decode h (config L) (cfg_file_path L) (lib_id L);
     let L = L\<lparr>config := C\<rparr>;
     (_, out) \<leftarrow> iot_config_get (strtol sys) (strtoul sys) h C (Some ''log_level'') False TYPE_STRING True;
     L \<leftarrow> (case out of
         Some (OutString p) \<Rightarrow>
           if p = NULL then Some L
           else do { level \<leftarrow> read_string p h; Some (snd (iot_log_level_set_string L (Some level))) }
       | _ \<Rightarrow> Some L);
     (result, L, s) \<leftarrow> (if result = STATUS_SUCCESS then perform_client sys L max_time_out OPERATION_CLIENT_CONNECT s
                        else Some (result, L, s));
     let (result, L) = (if result = STATUS_SUCCESS \<and> \<not> single_threaded L then iot_loop_start create L
                        else (result, L));
     Some (result, L, h, s)
   }"

definition iot_disconnect ::
    "'s system \<Rightarrow> 's iot \<Rightarrow> u32 \<Rightarrow> 's \<Rightarrow> (iot_status \<times> 's iot \<times> 's) option" where
  "iot_disconnect sys L max_time_out s =
     (let L = (if single_threaded L then L else snd (iot_loop_stop L)) in
      perform_client sys L max_time_out OPERATION_CLIENT_DISCONNECT s)"

text \<open>The pointer to the transaction goes to the plug-ins as the item.\<close>

definition iot_transaction_status ::
    "'s system \<Rightarrow> 's iot \<Rightarrow> ptr \<Rightarrow> u32 \<Rightarrow> 's \<Rightarrow> (iot_status \<times> 's iot \<times> 's) option" where
  "iot_transaction_status sys L txn max_time_out s =
     (if txn = NULL then Some (STATUS_BAD_PARAMETER, L, s)
      else do {
        (result, _, lib, s) \<leftarrow> perform_op (strtol sys) (strtoul sys) (plugs L) False (Some max_time_out)
          OPERATION_TRANSACTION_STATUS txn ValueNone None s;
        Some (result, L\<lparr>plugs := lib\<rparr>, s)
      })"

section \<open>Termination\<close>

text \<open>
  Each table is emptied from its end. What cannot be released stays behind: only the count is
  taken back.
\<close>

abbreviation dropped :: "iot_status \<Rightarrow> 'i registry \<Rightarrow> 'i registry \<Rightarrow> 'i registry" where
  "dropped result R R' \<equiv> (if result = STATUS_SUCCESS then R' else R'\<lparr>used := used R' - 1\<rparr>)"

partial_function (option) free_telemetry ::
    "'s system \<Rightarrow> u32 \<Rightarrow> 's iot_lib \<Rightarrow> iot_telemetry registry \<Rightarrow> heap \<Rightarrow> 's \<Rightarrow>
     (iot_telemetry registry \<times> heap \<times> 's iot_lib \<times> 's) option" where
  "free_telemetry sys m lib R h s =
     (if used R = 0 then Some (R, h, lib, s)
      else Option.bind (load (slots R) (used R - 1)) (\<lambda>p.
        Option.bind (iot_telemetry_free (strtol sys) (strtoul sys) lib R h p m s) (\<lambda>r.
          case r of (result, R', h', lib', s') \<Rightarrow> free_telemetry sys m lib' (dropped result R R') h' s')))"

partial_function (option) free_actions ::
    "'s system \<Rightarrow> u32 \<Rightarrow> 's iot_lib \<Rightarrow> 's iot_action registry \<Rightarrow> heap \<Rightarrow> 's \<Rightarrow>
     ('s iot_action registry \<times> heap \<times> 's iot_lib \<times> 's) option" where
  "free_actions sys m lib R h s =
     (if used R = 0 then Some (R, h, lib, s)
      else Option.bind (load (slots R) (used R - 1)) (\<lambda>p.
        Option.bind (iot_action_free (strtol sys) (strtoul sys) lib R h p m s) (\<lambda>r.
          case r of (result, R', h', lib', s') \<Rightarrow> free_actions sys m lib' (dropped result R R') h' s')))"

partial_function (option) free_alarms :: "iot_alarm registry \<Rightarrow> iot_alarm registry option" where
  "free_alarms R =
     (if used R = 0 then Some R
      else Option.bind (load (slots R) (used R - 1)) (\<lambda>p.
        Option.bind (iot_alarm_deregister R p) (\<lambda>r.
          case r of (result, R') \<Rightarrow> free_alarms (dropped result R R'))))"

text \<open>The option maps, in the order of the list.\<close>

fun free_options :: "(ptr \<Rightarrow> iot_options option) \<Rightarrow> ptr list \<Rightarrow> heap \<Rightarrow> heap option" where
  "free_options ts [] h = Some h"
| "free_options ts (p # ps) h =
     (if p = NULL then free_options ts ps h
      else do {
        t \<leftarrow> ts p;
        h \<leftarrow> options_free_data (entries t) h;
        h \<leftarrow> os_free p h;
        free_options ts ps h
      })"

definition iot_terminate ::
    "'s system \<Rightarrow> 's iot \<Rightarrow> u32 \<Rightarrow> heap \<Rightarrow> 's \<Rightarrow> (iot_status \<times> 's iot \<times> heap \<times> 's) option" where
  "iot_terminate sys L max_time_out h s = do {
     (T, h, lib, s) \<leftarrow> free_telemetry sys max_time_out (plugs L) (telemetry L) h s;
     (A, h, lib, s) \<leftarrow> free_actions sys max_time_out lib (actions L) h s;
     al \<leftarrow> free_alarms (alarms L);
     h \<leftarrow> free_options (tables (cf_options (config L))) (handles (cf_options (config L))) h;
     let L = L\<lparr>telemetry := T, actions := A, alarms := al, plugs := lib,
       config := (config L)\<lparr>cf_options := \<lparr>handles = [], tables = Map.empty\<rparr>\<rparr>\<rparr>;
     (L, s) \<leftarrow> (if to_quit L then Some (L, s)
       else do { (_, L, s) \<leftarrow> iot_disconnect sys L max_time_out s; Some (L, s) });
     (_, lib, s) \<leftarrow> iot_plugin_disable_all (plugs L) s;
     let s = fold (\<lambda>i s. iot_plugin_terminate lib i s) (rev [0..<plugin_count lib]) s;
     Some (STATUS_SUCCESS, L\<lparr>plugs := lib\<rparr>, h, s)
   }"

end
