(* ===== verification/Terminate.thy ===== *)
theory Terminate
  imports Client
begin

text \<open>
  What \<open>iot_terminate\<close> releases: every value the telemetry, the actions and the option maps own, and
  the maps themselves. The loops that empty the tables always end.
\<close>

section \<open>Releasing a list of objects\<close>

fun free_all :: "ptr list \<Rightarrow> heap \<Rightarrow> heap option" where
  "free_all [] h = Some h"
| "free_all (p # ps) h = (case os_free p h of None \<Rightarrow> None | Some h \<Rightarrow> free_all ps h)"

abbreviation objects :: "ptr list \<Rightarrow> ptr list" where
  "objects \<equiv> filter (\<lambda>p. p \<noteq> NULL)"

text \<open>The objects of a list are live, and none is listed twice.\<close>

definition live :: "heap \<Rightarrow> ptr list \<Rightarrow> bool" where
  "live h ps \<longleftrightarrow> distinct (objects ps) \<and> (\<forall>p \<in> set (objects ps). cells h p \<noteq> None)"

definition without :: "ptr list \<Rightarrow> heap \<Rightarrow> heap" where
  "without ps h = h\<lparr>cells := (\<lambda>q. if q \<in> set (objects ps) then None else cells h q)\<rparr>"

lemma without_Nil [simp]: "without [] h = h"
  by (simp add: without_def)

lemma without_append: "without qs (without ps h) = without (ps @ qs) h"
  by (cases h) (auto simp: without_def fun_eq_iff)

lemma free_all_append: "free_all (ps @ qs) h = Option.bind (free_all ps h) (free_all qs)"
  by (induction ps arbitrary: h) (auto split: option.splits)

lemma free_all_live: "live h ps \<Longrightarrow> free_all ps h = Some (without ps h)"
proof (induction ps arbitrary: h)
  case (Cons p ps)
  show ?case
  proof (cases "p = NULL")
    case True
    then show ?thesis using Cons by (simp add: live_def without_def os_free_def)
  next
    case False
    let ?h = "h\<lparr>cells := (cells h)(p := None)\<rparr>"
    have "live ?h ps" using Cons.prems False by (auto simp: live_def)
    moreover have "without ps ?h = without (p # ps) h"
      using False by (cases h) (auto simp: without_def fun_eq_iff)
    ultimately show ?thesis using Cons False by (auto simp: live_def os_free_def)
  qed
qed simp

lemma live_append:
  "live h (ps @ qs) \<longleftrightarrow> live h ps \<and> live h qs \<and> set (objects ps) \<inter> set (objects qs) = {}"
  by (auto simp: live_def)

lemma live_without: "live h (ps @ qs) \<Longrightarrow> live (without ps h) qs"
  by (auto simp: live_def without_def)

lemma live_mset: "mset ps = mset qs \<Longrightarrow> live h ps = live h qs"
proof -
  assume "mset ps = mset qs"
  then have "mset (objects ps) = mset (objects qs)" by simp
  then show ?thesis unfolding live_def by (metis mset_eq_imp_distinct_iff mset_eq_setD)
qed

lemma without_set: "set ps = set qs \<Longrightarrow> without ps h = without qs h"
  by (simp add: without_def)

text \<open>The loops of the components release lists of objects.\<close>

abbreviation option_objects :: "iot_option list \<Rightarrow> ptr list" where
  "option_objects \<equiv> map (\<lambda>e. heap_storage (opt_data e))"

abbreviation parameter_objects :: "iot_action_parameter list \<Rightarrow> ptr list" where
  "parameter_objects \<equiv> map (\<lambda>p. heap_storage (ap_data p))"

lemma free_option_data_all: "free_option_data es h = free_all (option_objects es) h"
  by (induction es arbitrary: h) (auto split: bind_splits option.splits)

lemma free_parameter_data_all: "free_parameter_data ps h = free_all (parameter_objects ps) h"
  by (induction ps arbitrary: h) (auto split: bind_splits option.splits)

lemma options_free_data_all: "options_free_data es h = free_all (option_objects es) h"
  by (induction es arbitrary: h) (auto split: bind_splits option.splits)

section \<open>The end of a table\<close>

lemma registry_end:
  assumes "registry_ok key cap R" and "used R = Suc n"
  obtains ps p where "items R = ps @ [p]" "load (slots R) n = Some p" "p \<notin> set ps" "p \<noteq> NULL"
    "length ps = n" "table_index p R = n" "p \<in> set (items R)"
proof -
  obtain ps p where it: "items R = ps @ [p]" "length ps = n"
    using registry_okD(8)[OF assms(1)] assms(2) by (metis length_Suc_conv_rev)
  have "n < length (slots R)" using registry_okD(1,2)[OF assms(1)] assms(2) by simp
  moreover have "slots R ! n = p"
    using it slots_split[of R] by (metis append.assoc append_Cons nth_append_length)
  moreover have new: "p \<notin> set ps" using items_distinct[OF assms(1)] it by simp
  moreover have "p \<noteq> NULL" using registry_okD(4)[OF assms(1)] it by auto
  moreover have "takeWhile (\<lambda>q. q \<noteq> p) (items R) = ps"
    using new unfolding it by (subst takeWhile_append2) auto
  then have "table_index p R = n" using it by (simp add: table_index_def items_def)
  ultimately show thesis using that it by (simp add: load_def)
qed

lemma registry_pop:
  fixes key :: "'i \<Rightarrow> ('k :: linorder) option"
  assumes ok: "registry_ok key cap R" and n: "used R = Suc n" and it: "items R = ps @ [p]"
    and free: "free = NULL \<or> (free = p \<and> jt \<noteq> None)"
  obtains S where "table_remove (table_index p R) free (poke p jt R) = Some S"
    "registry_ok key cap S" "items S = ps" "used S = n" "mem S = (mem R)(p := jt)"
proof -
  have p: "p \<in> set (items R)" using it by simp
  obtain S where S: "table_remove (table_index p R) free (poke p jt R) = Some S" "registry_ok key cap S"
    "items S = delete_at (table_index p R) (items R)" "mem S = mem (poke p jt R)" "used S = used R - 1"
    using table_remove_spec[OF ok p refl free] by metis
  have "table_index p R = length ps"
    using registry_end[OF ok n] it by (metis append1_eq_conv)
  then have "items S = ps" using S(3) it by (simp add: delete_at_def)
  then show thesis using that[OF S(1,2)] S(4,5) n by (simp add: poke_def)
qed

lemma registry_drop:
  assumes "registry_ok key cap R" and "used R = Suc n" and "items R = ps @ [p]"
  shows "registry_ok key cap (R\<lparr>used := used R - 1\<rparr>)" "items (R\<lparr>used := used R - 1\<rparr>) = ps"
proof -
  let ?S = "R\<lparr>used := used R - 1\<rparr>"
  have "length ps = n" using registry_okD(8)[OF assms(1)] assms(2,3) by simp
  moreover have "items ?S = take n (items R)" using assms(2) by (simp add: items_def min_def)
  ultimately show it: "items ?S = ps" using assms(3) by simp
  have key: "item_key key ?S = item_key key R" by (simp add: item_key_def fun_eq_iff)
  have "table_keys key R = table_keys key ?S @ [the (item_key key R p)]"
    unfolding table_keys_def it assms(3) key by simp
  then have "sorted (table_keys key ?S)" using registry_okD(7)[OF assms(1)] by (simp add: sorted_append)
  moreover have "set (items ?S) \<subseteq> set (items R)" using it assms(3) by auto
  ultimately show "registry_ok key cap ?S"
    using assms(1,2) unfolding registry_ok_def key by auto
qed

section \<open>Plug-ins during termination\<close>

text \<open>Every operation returns; when the plug-ins are obliging, with success.\<close>

definition quiet :: "('s, 'o) plugin_lib \<Rightarrow> bool" where
  "quiet lib \<longleftrightarrow> (\<forall>ex \<in> set (executors lib). leaves_step ex)"

definition obliging :: "('s, 'o) plugin_lib \<Rightarrow> bool" where
  "obliging lib \<longleftrightarrow> (\<forall>ex \<in> set (executors lib). \<forall>r s. fst (ex r s) = STATUS_SUCCESS)"

lemma run_calls_obliging:
  "\<forall>c \<in> set cs. \<forall>r s. fst (fst c r s) = STATUS_SUCCESS \<Longrightarrow> set (fst (run_calls cs s)) \<subseteq> {STATUS_SUCCESS}"
proof (induction cs arbitrary: s)
  case (Cons c cs)
  obtain ex r where c: "c = (ex, r)" by (rule prod.exhaust)
  obtain st j s1 where call: "ex r s = (st, j, s1)" by (metis prod_cases3)
  have "st = STATUS_SUCCESS" using Cons.prems c call by (metis fst_conv list.set_intros(1))
  then show ?case using Cons.IH[of s1] Cons.prems by (auto simp: c call split_beta)
qed simp

text \<open>The world after an operation: the callbacks of the three steps, one after the other.\<close>

definition performed :: "'s iot_lib \<Rightarrow> u32 \<Rightarrow> plugin_op \<Rightarrow> 's \<Rightarrow> 's" where
  "performed lib m op s = snd (run_calls (concat (map (pass_calls lib op None m) [0, 1, 2])) s)"

lemma perform_op_quiet:
  assumes "quiet lib"
  obtains r s' where "perform_op f g lib False (Some m) op item v None s = Some (r, None, lib, s')"
    "obliging lib \<longrightarrow> r = STATUS_SUCCESS" "s' = performed lib m (op, item, v, None) s"
proof -
  let ?op = "(op, item, v, None)"
  define cs where "cs = concat (map (pass_calls lib ?op None m) [0, 1, 2])"
  obtain sts s' where run: "run_calls cs s = (sts, s')" by fastforce
  have "perform_loop lib ?op None m (m = 0) 0 STATUS_SUCCESS s = Some (fold max sts STATUS_SUCCESS, s')"
    using perform_loop_spec[of lib "m = 0" m ?op None STATUS_SUCCESS s] assms run
    by (simp add: quiet_def cs_def word_gt_0 del: concat.simps list.map)
  then have p: "perform_op f g lib False (Some m) op item v None s = Some (fold max sts STATUS_SUCCESS, None, lib, s')"
    by (simp add: perform_op_def iot_plugin_perform_def option_time_out_def split_beta)
  have "fold max sts STATUS_SUCCESS = STATUS_SUCCESS" if "obliging lib"
  proof -
    have "\<forall>c \<in> set cs. \<forall>r s. fst (fst c r s) = STATUS_SUCCESS"
      using that by (auto simp: cs_def pass_calls_def obliging_def)
    then have "set sts \<subseteq> {STATUS_SUCCESS}" using run_calls_obliging[of cs s] run by simp
    then show ?thesis by (induction sts) auto
  qed
  then show thesis using that p run by (simp add: performed_def cs_def)
qed

lemma poke_simps [simp]:
  "mem (poke p it R) = (mem R)(p := it)" "slots (poke p it R) = slots R" "used (poke p it R) = used R"
  "table_index q (poke p it R) = table_index q R" "items (poke p it R) = items R"
  by (simp_all add: poke_def table_index_def items_def)

lemma poke_same [simp]: "mem R p = Some it \<Longrightarrow> poke p (Some it) R = R"
  by (cases R) (auto simp: poke_def)

section \<open>Telemetry\<close>

definition telemetry_values :: "iot_telemetry \<Rightarrow> ptr list" where
  "telemetry_values t = option_objects (the (telemetry_options t))"

text \<open>What the items of a list own.\<close>

definition values_of :: "('i \<Rightarrow> ptr list) \<Rightarrow> 'i registry \<Rightarrow> ptr list \<Rightarrow> ptr list" where
  "values_of val R ps = concat (map (\<lambda>p. val (the (mem R p))) ps)"

lemma values_of_simps [simp]:
  "values_of val R [] = []" "values_of val R (ps @ qs) = values_of val R ps @ values_of val R qs"
  "mem R p = Some it \<Longrightarrow> values_of val R (p # ps) = val it @ values_of val R ps"
  by (simp_all add: values_of_def)

lemma values_of_cong: "\<forall>p \<in> set ps. mem S p = mem R p \<Longrightarrow> values_of val S ps = values_of val R ps"
  by (induction ps) (auto simp: values_of_def)

text \<open>A table whose items belong to the library and have readable values.\<close>

definition stocked :: "('i \<Rightarrow> ('k :: linorder) option) \<Rightarrow> ('i \<Rightarrow> bool) \<Rightarrow> nat \<Rightarrow> 'i registry \<Rightarrow> bool" where
  "stocked key good cap R \<longleftrightarrow> registry_ok key cap R \<and> (\<forall>p \<in> set (items R). \<exists>it. mem R p = Some it \<and> good it)"

definition telemetry_good :: "iot_telemetry \<Rightarrow> bool" where
  "telemetry_good t \<longleftrightarrow> tl_lib t \<and> telemetry_options t \<noteq> None"

lemma telemetry_pop:
  assumes ok: "registry_ok telemetry_name cap R" and n: "used R = Suc n" and it: "items R = ps @ [p]"
    and t: "mem R p = Some t" "telemetry_good t" and h: "live h (telemetry_values t)" and q: "quiet lib"
  obtains S s' jt where
    "iot_telemetry_free f g lib R h p m s = Some (STATUS_SUCCESS, S, without (telemetry_values t) h, lib, s')"
    "registry_ok telemetry_name cap S" "items S = ps" "used S = n" "mem S = (mem R)(p := jt)"
    "tl_in_heap t \<longrightarrow> jt = None"
proof -
  obtain es where es: "telemetry_options t = Some es" and lib: "tl_lib t"
    using t(2) by (auto simp: telemetry_good_def)
  obtain r s1 where op: "perform_op f g lib False (Some m) OPERATION_TELEMETRY_DEREGISTER p ValueNone None s =
      Some (r, None, lib, s1)" by (rule perform_op_quiet[OF q])
  have pz: "p \<noteq> NULL" using registry_okD(4)[OF ok] it by auto
  obtain r st s1 where d: "iot_telemetry_deregister f g lib R p False m s =
      Some (r, None, poke p (Some (t\<lparr>tl_state := st\<rparr>)) R, lib, s1)"
  proof (cases "tl_state t = DEREGISTERED")
    case True
    then show ?thesis
      using that[of STATUS_NOT_INITIALIZED "tl_state t" s] t lib pz by (simp add: iot_telemetry_deregister_def)
  next
    case False
    obtain r s1 where "perform_op f g lib False (Some m) OPERATION_TELEMETRY_DEREGISTER NULL ValueNone None s =
        Some (r, None, lib, s1)" by (rule perform_op_quiet[OF q])
    then show ?thesis
      using that[of r "if r = STATUS_SUCCESS then DEREGISTERED else DEREGISTER_PENDING" s1] t lib pz False
      by (simp add: iot_telemetry_deregister_def)
  qed
  let ?jt = "if tl_in_heap t then None
    else Some (t\<lparr>tl_state := st, tl_lib := False, tl_option := None, tl_name := None\<rparr>)"
  let ?free = "if tl_in_heap t then NULL else p"
  have cond: "?free = NULL \<or> (?free = p \<and> ?jt \<noteq> None)" by simp
  obtain S where S: "table_remove (table_index p R) ?free (poke p ?jt R) = Some S"
    "registry_ok telemetry_name cap S" "items S = ps" "used S = n" "mem S = (mem R)(p := ?jt)"
    by (rule registry_pop[OF ok n it cond])
  have i: "table_index p R < used R" using table_index_spec(1)[OF ok] it by simp
  have vals: "telemetry_options (t\<lparr>tl_state := st\<rparr>) = Some es" "telemetry_values t = option_objects es"
    using es by (simp_all add: telemetry_options_def telemetry_values_def cong: if_cong)
  have "free_option_data es h = Some (without (telemetry_values t) h)"
    using free_all_live[OF h] vals(2) by (simp add: free_option_data_all)
  then have "iot_telemetry_free f g lib R h p m s = Some (STATUS_SUCCESS, S, without (telemetry_values t) h, lib, s1)"
    using t(1) lib pz d i S(1) vals(1)
    by (cases "tl_in_heap t") (simp_all add: iot_telemetry_free_def)
  then show thesis using that S(2-5) by simp
qed

text \<open>The last item of a stocked table, and what it owns.\<close>

lemma stocked_end:
  assumes st: "stocked key good cap R" and n: "used R = Suc n" and h: "live h (values_of val R (items R))"
  obtains ps p it where "items R = ps @ [p]" "load (slots R) n = Some p" "p \<notin> set ps"
    "mem R p = Some it" "good it" "live h (val it)" "live h (values_of val R ps)"
    "live (without (val it) h) (values_of val R ps)"
    "without (values_of val R ps) (without (val it) h) = without (values_of val R (items R)) h"
proof -
  have ok: "registry_ok key cap R" using st by (simp add: stocked_def)
  obtain ps p where p: "items R = ps @ [p]" "load (slots R) n = Some p" "p \<notin> set ps"
    by (rule registry_end[OF ok n])
  obtain it where it: "mem R p = Some it" "good it" using st p(1) unfolding stocked_def by auto
  have vals: "values_of val R (items R) = values_of val R ps @ val it" using it(1) by (simp add: p(1))
  then have l: "live h (val it @ values_of val R ps)" using h by (simp add: live_append Int_commute)
  have "without (values_of val R ps) (without (val it) h) = without (values_of val R (items R)) h"
    unfolding vals without_append by (rule without_set) auto
  then show thesis using that p it l live_without[OF l] by (simp add: live_append)
qed

lemma stocked_rest:
  assumes "stocked key good cap R" and "items R = ps @ [p]" and "registry_ok key cap S" and "items S = ps"
    and "\<forall>q \<in> set ps. mem S q = mem R q"
  shows "stocked key good cap S" "values_of val S (items S) = values_of val R ps"
  using assms values_of_cong[OF assms(5)] by (simp_all add: stocked_def)

text \<open>Each step of the loop releases the last item, so it ends after as many steps as there are.\<close>

lemma free_telemetry_spec:
  assumes "stocked telemetry_name telemetry_good cap R" and "live h (values_of telemetry_values R (items R))"
    and "quiet lib"
  shows "\<exists>S s'. free_telemetry sys m lib R h s =
      Some (S, without (values_of telemetry_values R (items R)) h, lib, s') \<and> used S = 0 \<and>
    (\<forall>q. q \<notin> set (items R) \<longrightarrow> mem S q = mem R q) \<and>
    (\<forall>q t. q \<in> set (items R) \<longrightarrow> mem R q = Some t \<longrightarrow> tl_in_heap t \<longrightarrow> mem S q = None)"
  using assms(1,2)
proof (induction "used R" arbitrary: R h s)
  case 0
  then have "items R = []" by (simp add: items_def)
  then show ?case using 0 by (simp add: free_telemetry.simps)
next
  case (Suc n)
  note ok = Suc.prems(1)[unfolded stocked_def, THEN conjunct1]
  note n = Suc.hyps(2)[symmetric]
  let ?v = telemetry_values
  obtain ps p t where p: "items R = ps @ [p]" "load (slots R) n = Some p" "p \<notin> set ps"
    and t: "mem R p = Some t" "telemetry_good t" and l: "live h (?v t)"
      "live (without (?v t) h) (values_of ?v R ps)"
      "without (values_of ?v R ps) (without (?v t) h) = without (values_of ?v R (items R)) h"
    by (rule stocked_end[OF Suc.prems(1) n Suc.prems(2)])
  obtain S s1 jt where S: "iot_telemetry_free (strtol sys) (strtoul sys) lib R h p m s =
      Some (STATUS_SUCCESS, S, without (?v t) h, lib, s1)"
    "registry_ok telemetry_name cap S" "items S = ps" "used S = n" "mem S = (mem R)(p := jt)"
    "tl_in_heap t \<longrightarrow> jt = None"
    by (rule telemetry_pop[OF ok n p(1) t l(1) assms(3), where f = "strtol sys" and g = "strtoul sys"
          and m = m and s = s])
  have same: "\<forall>q \<in> set ps. mem S q = mem R q" using S(5) p(3) by auto
  note rest = stocked_rest[OF Suc.prems(1) p(1) S(2,3) same]
  obtain T s2 where T: "free_telemetry sys m lib S (without (?v t) h) s1 =
      Some (T, without (values_of ?v R ps) (without (?v t) h), lib, s2)" "used T = 0"
    "\<forall>q. q \<notin> set ps \<longrightarrow> mem T q = mem S q"
    "\<forall>q t. q \<in> set ps \<longrightarrow> mem S q = Some t \<longrightarrow> tl_in_heap t \<longrightarrow> mem T q = None"
    using Suc.hyps(1)[OF S(4)[symmetric] rest(1), of "without (?v t) h" s1] S(3) l(2)
    unfolding rest(2) by auto
  have "free_telemetry sys m lib R h s = Some (T, without (values_of ?v R (items R)) h, lib, s2)"
    using T(1) S(1) p(2) n l(3) by (subst free_telemetry.simps) simp
  moreover have "mem T q = mem R q" if "q \<notin> set (items R)" for q
    using that T(3) S(5) by (simp add: p(1))
  moreover have "mem T q = None" if "q \<in> set (items R)" "mem R q = Some t'" "tl_in_heap t'" for q t'
    using that t(1) S(5,6) T(3,4) p(3) same by (cases "q = p") (auto simp: p(1))
  ultimately show ?case using T(2) by blast
qed

section \<open>Actions\<close>

definition action_values :: "'s iot_action \<Rightarrow> ptr list" where
  "action_values a = parameter_objects (the (ac_parameter a)) @ option_objects (the (ac_option a))"

definition action_good :: "'s iot_action \<Rightarrow> bool" where
  "action_good a \<longleftrightarrow> ac_lib a \<and> ac_parameter a \<noteq> None \<and> ac_option a \<noteq> None"

text \<open>An action is released unless the plug-ins refuse to deregister it.\<close>

lemma action_pop:
  assumes ok: "registry_ok action_name cap R" and n: "used R = Suc n" and it: "items R = ps @ [p]"
    and a: "mem R p = Some a" "action_good a" and h: "live h (action_values a)" and q: "quiet lib"
  obtains (released) S s' jt where
    "iot_action_free f g lib R h p m s = Some (STATUS_SUCCESS, S, without (action_values a) h, lib, s')"
    "registry_ok action_name cap S" "items S = ps" "used S = n" "mem S = (mem R)(p := jt)"
    "ac_in_heap a \<longrightarrow> jt = None"
  | (kept) r s' where
    "iot_action_free f g lib R h p m s =
       Some (r, poke p (Some (a\<lparr>ac_state := DEREGISTER_PENDING\<rparr>)) R, h, lib, s')"
    "r \<noteq> STATUS_SUCCESS" "\<not> obliging lib"
proof -
  have pz: "p \<noteq> NULL" using registry_okD(4)[OF ok] it by auto
  have lib: "ac_lib a" using a(2) by (simp add: action_good_def)
  obtain r st s1 where d: "iot_action_deregister f g lib R p False m s =
      Some (r, None, poke p (Some (a\<lparr>ac_state := st\<rparr>)) R, lib, s1)"
    and st: "r \<noteq> STATUS_SUCCESS \<longrightarrow> st = DEREGISTER_PENDING \<and> \<not> obliging lib"
  proof (cases "ac_state a = DEREGISTERED")
    case True
    then show ?thesis
      using that[of STATUS_SUCCESS "ac_state a" s] a(1) lib pz by (simp add: iot_action_deregister_def)
  next
    case False
    obtain r s1 where "perform_op f g lib False (Some m) OPERATION_ACTION_DEREGISTER p ValueNone None s =
        Some (r, None, lib, s1)" "obliging lib \<longrightarrow> r = STATUS_SUCCESS" by (rule perform_op_quiet[OF q])
    then show ?thesis
      using that[of r "if r = STATUS_SUCCESS then DEREGISTERED else DEREGISTER_PENDING" s1] a(1) lib pz False
      by (auto simp: iot_action_deregister_def)
  qed
  show thesis
  proof (cases "r = STATUS_SUCCESS")
    case False
    then show ?thesis using kept[of r s1] st d a(1) lib pz by (simp add: iot_action_free_def)
  next
    case True
    obtain xs es where v: "ac_parameter a = Some xs" "ac_option a = Some es"
      using a(2) by (auto simp: action_good_def)
    let ?jt = "if ac_in_heap a then None else Some (a\<lparr>ac_state := st, ac_lib := False,
      ac_option := released es, ac_name := None, ac_parameter := released xs, ac_command := None\<rparr>)"
    let ?free = "if ac_in_heap a then NULL else p"
    have cond: "?free = NULL \<or> (?free = p \<and> ?jt \<noteq> None)" by simp
    obtain S where S: "table_remove (table_index p R) ?free (poke p ?jt R) = Some S"
      "registry_ok action_name cap S" "items S = ps" "used S = n" "mem S = (mem R)(p := ?jt)"
      by (rule registry_pop[OF ok n it cond])
    have i: "table_index p R < used R" using table_index_spec(1)[OF ok] it by simp
    have "Option.bind (free_all (parameter_objects xs) h) (free_all (option_objects es)) =
        Some (without (action_values a) h)"
      using free_all_live[OF h] v by (simp add: action_values_def free_all_append)
    then obtain h1 where "free_parameter_data xs h = Some h1"
      "free_option_data es h1 = Some (without (action_values a) h)"
      by (auto simp: free_parameter_data_all free_option_data_all bind_eq_Some_conv)
    then have "iot_action_free f g lib R h p m s = Some (STATUS_SUCCESS, S, without (action_values a) h, lib, s1)"
      using a(1) lib pz d i S(1) v True
      by (cases "ac_in_heap a") (simp_all add: iot_action_free_def)
    then show ?thesis using released S(2-5) by simp
  qed
qed

text \<open>
  What is left of the table \<open>R\<close>: the actions of \<open>K\<close>, which wait to be deregistered, and the objects
  of the stack.
\<close>

definition actions_left :: "'s iot_action registry \<Rightarrow> ptr set \<Rightarrow> 's iot_action registry \<Rightarrow> bool" where
  "actions_left R K S \<longleftrightarrow> K \<subseteq> set (items R) \<and> used S = 0 \<and>
     (\<forall>q. q \<notin> set (items R) \<longrightarrow> mem S q = mem R q) \<and>
     (\<forall>q \<in> set (items R). \<forall>a. mem R q = Some a \<longrightarrow>
        (if q \<in> K then mem S q = Some (a\<lparr>ac_state := DEREGISTER_PENDING\<rparr>)
         else ac_in_heap a \<longrightarrow> mem S q = None))"

lemma actions_left_step:
  assumes "actions_left S K T" and "items R = ps @ [p]" and "items S = ps" and "p \<notin> set ps"
    and "mem R p = Some a" and "mem S = (mem R)(p := jt)"
  shows "ac_in_heap a \<longrightarrow> jt = None \<Longrightarrow> actions_left R K T"
    and "jt = Some (a\<lparr>ac_state := DEREGISTER_PENDING\<rparr>) \<Longrightarrow> actions_left R (insert p K) T"
proof -
  have K: "K \<subseteq> set ps" "used T = 0" and p: "mem T p = jt"
    and out: "\<forall>q. q \<notin> set (items R) \<longrightarrow> mem T q = mem R q"
    using assms(1-4,6) by (auto simp: actions_left_def)
  have same: "mem S q = mem R q" if "q \<in> set ps" for q using that assms(4,6) by auto
  have ps: "\<forall>q \<in> set ps. \<forall>a. mem R q = Some a \<longrightarrow>
      (if q \<in> K then mem T q = Some (a\<lparr>ac_state := DEREGISTER_PENDING\<rparr>)
       else ac_in_heap a \<longrightarrow> mem T q = None)"
    using assms(1) unfolding actions_left_def assms(3) by (metis same)
  have pK: "p \<notin> K" using K(1) assms(4) by blast
  show "actions_left R K T" if "ac_in_heap a \<longrightarrow> jt = None"
    using that K p out ps pK assms(5) unfolding actions_left_def assms(2) by auto
  show "actions_left R (insert p K) T" if "jt = Some (a\<lparr>ac_state := DEREGISTER_PENDING\<rparr>)"
    using that K p out ps pK assms(5) unfolding actions_left_def assms(2) by auto
qed

lemma free_actions_spec:
  assumes "stocked action_name action_good cap R" and "live h (values_of action_values R (items R))"
    and q: "quiet lib"
  shows "\<exists>K S s'. free_actions sys m lib R h s =
      Some (S, without (values_of action_values R (filter (\<lambda>p. p \<notin> K) (items R))) h, lib, s') \<and>
    actions_left R K S \<and> (obliging lib \<longrightarrow> K = {})"
  using assms(1,2)
proof (induction "used R" arbitrary: R h s)
  case 0
  then have "items R = []" by (simp add: items_def)
  then show ?case using 0
    by (intro exI[of _ "{}"]) (simp add: free_actions.simps actions_left_def)
next
  case (Suc n)
  note ok = Suc.prems(1)[unfolded stocked_def, THEN conjunct1]
  note n = Suc.hyps(2)[symmetric]
  let ?v = "action_values"
  obtain ps p a where p: "items R = ps @ [p]" "load (slots R) n = Some p" "p \<notin> set ps"
    and a: "mem R p = Some a" "action_good a" and l: "live h (?v a)" "live h (values_of ?v R ps)"
      "live (without (?v a) h) (values_of ?v R ps)"
    by (rule stocked_end[OF Suc.prems(1) n Suc.prems(2)])
  have vals: "values_of ?v S xs = values_of ?v R xs"
    if "mem S = (mem R)(p := jt)" "set xs \<subseteq> set ps" for S jt xs
    using that p(3) by (intro values_of_cong) auto
  show ?case
  proof (rule action_pop[OF ok n p(1) a l(1) q, where f = "strtol sys" and g = "strtoul sys" and m = m and s = s])
    fix S s1 jt
    assume run: "iot_action_free (strtol sys) (strtoul sys) lib R h p m s =
        Some (STATUS_SUCCESS, S, without (?v a) h, lib, s1)"
      and S: "registry_ok action_name cap S" "items S = ps" "used S = n" "mem S = (mem R)(p := jt)"
        "ac_in_heap a \<longrightarrow> jt = None"
    have same: "\<forall>q \<in> set ps. mem S q = mem R q" using S(4) p(3) by auto
    note rest = stocked_rest[OF Suc.prems(1) p(1) S(1,2) same]
    obtain K T s2 where T: "free_actions sys m lib S (without (?v a) h) s1 =
        Some (T, without (values_of ?v S (filter (\<lambda>p. p \<notin> K) ps)) (without (?v a) h), lib, s2)"
      "actions_left S K T" "obliging lib \<longrightarrow> K = {}"
      using Suc.hyps(1)[OF S(3)[symmetric] rest(1), of "without (?v a) h" s1] l(3) S(2)
      unfolding rest(2) by auto
    have K: "p \<notin> K" using T(2) S(2) p(3) by (auto simp: actions_left_def)
    have "values_of ?v S (filter (\<lambda>p. p \<notin> K) ps) = values_of ?v R (filter (\<lambda>p. p \<notin> K) ps)"
      by (rule vals[OF S(4)]) auto
    then have "without (values_of ?v S (filter (\<lambda>p. p \<notin> K) ps)) (without (?v a) h) =
        without (values_of ?v R (filter (\<lambda>p. p \<notin> K) (items R))) h"
      unfolding without_append using K a(1) by (intro without_set) (auto simp: p(1))
    then have "free_actions sys m lib R h s =
        Some (T, without (values_of ?v R (filter (\<lambda>p. p \<notin> K) (items R))) h, lib, s2)"
      using T(1) run p(2) n by (subst free_actions.simps) simp
    then show ?case using actions_left_step(1)[OF T(2) p(1) S(2) p(3) a(1) S(4,5)] T(3) by blast
  next
    fix r s1
    let ?a = "a\<lparr>ac_state := DEREGISTER_PENDING\<rparr>"
    let ?S = "(poke p (Some ?a) R)\<lparr>used := used R - 1\<rparr>"
    assume run: "iot_action_free (strtol sys) (strtoul sys) lib R h p m s = Some (r, poke p (Some ?a) R, h, lib, s1)"
      and r: "r \<noteq> STATUS_SUCCESS" "\<not> obliging lib"
    have ok': "registry_ok action_name cap (poke p (Some ?a) R)"
      by (rule poke_ok(1)[OF ok a(1)]) (simp add: action_name_def)
    have S: "registry_ok action_name cap ?S" "items ?S = ps" "used ?S = n" "mem ?S = (mem R)(p \<mapsto> ?a)"
      using registry_drop[OF ok', of n ps p] n p(1) by simp_all
    have same: "\<forall>q \<in> set ps. mem ?S q = mem R q" using S(4) p(3) by auto
    note rest = stocked_rest[OF Suc.prems(1) p(1) S(1,2) same]
    obtain K T s2 where T: "free_actions sys m lib ?S h s1 =
        Some (T, without (values_of ?v ?S (filter (\<lambda>p. p \<notin> K) ps)) h, lib, s2)"
      "actions_left ?S K T"
      using Suc.hyps(1)[OF S(3)[symmetric] rest(1), of h s1] l(2) S(2)
      unfolding rest(2) by auto
    have "values_of ?v ?S (filter (\<lambda>p. p \<notin> K) ps) = values_of ?v R (filter (\<lambda>p. p \<notin> K) ps)"
      by (rule vals[OF S(4)]) auto
    moreover have "filter (\<lambda>q. q \<notin> insert p K) (items R) = filter (\<lambda>p. p \<notin> K) ps"
      using p(3) by (auto simp: p(1) intro: filter_cong)
    ultimately have "free_actions sys m lib R h s =
        Some (T, without (values_of ?v R (filter (\<lambda>q. q \<notin> insert p K) (items R))) h, lib, s2)"
      using T(1) run p(2) n r(1) by (subst free_actions.simps) simp
    then show ?case using actions_left_step(2)[OF T(2) p(1) S(2) p(3) a(1) S(4) refl] r(2) by blast
  qed
qed

section \<open>Alarms and option maps\<close>

lemma alarm_pop:
  assumes ok: "registry_ok al_name cap R" and n: "used R = Suc n" and it: "items R = ps @ [p]"
    and a: "mem R p = Some a" "al_lib a"
  obtains S jt where "iot_alarm_deregister R p = Some (STATUS_SUCCESS, S)" "registry_ok al_name cap S"
    "items S = ps" "used S = n" "mem S = (mem R)(p := jt)" "al_in_heap a \<longrightarrow> jt = None"
proof -
  let ?jt = "if al_in_heap a then None else Some (a\<lparr>al_name := None, al_lib := False\<rparr>)"
  let ?free = "if al_in_heap a then NULL else p"
  have cond: "?free = NULL \<or> (?free = p \<and> ?jt \<noteq> None)" by simp
  have pz: "p \<noteq> NULL" using registry_okD(4)[OF ok] it by auto
  obtain S where S: "table_remove (table_index p R) ?free (poke p ?jt R) = Some S"
    "registry_ok al_name cap S" "items S = ps" "used S = n" "mem S = (mem R)(p := ?jt)"
    by (rule registry_pop[OF ok n it cond])
  have i: "table_index p R < used R" using table_index_spec(1)[OF ok] it by simp
  have "iot_alarm_deregister R p = Some (STATUS_SUCCESS, S)"
    using a pz i S(1) by (cases "al_in_heap a") (simp_all add: iot_alarm_deregister_def)
  then show thesis using that S(2-5) by simp
qed

lemma free_alarms_spec:
  assumes "stocked al_name al_lib cap R"
  shows "\<exists>S. free_alarms R = Some S \<and> used S = 0 \<and> (\<forall>q. q \<notin> set (items R) \<longrightarrow> mem S q = mem R q) \<and>
    (\<forall>q a. q \<in> set (items R) \<longrightarrow> mem R q = Some a \<longrightarrow> al_in_heap a \<longrightarrow> mem S q = None)"
  using assms
proof (induction "used R" arbitrary: R)
  case 0
  then have "items R = []" by (simp add: items_def)
  then show ?case using 0 by (simp add: free_alarms.simps)
next
  case (Suc n)
  note ok = Suc.prems[unfolded stocked_def, THEN conjunct1]
  note n = Suc.hyps(2)[symmetric]
  have "values_of (\<lambda>_. []) R (items R) = []" by (simp add: values_of_def)
  then have h: "live empty_heap (values_of (\<lambda>_. []) R (items R))" by (simp add: live_def)
  obtain ps p a where p: "items R = ps @ [p]" "load (slots R) n = Some p" "p \<notin> set ps"
    and a: "mem R p = Some a" "al_lib a" by (rule stocked_end[OF Suc.prems n h])
  obtain S jt where S: "iot_alarm_deregister R p = Some (STATUS_SUCCESS, S)" "registry_ok al_name cap S"
    "items S = ps" "used S = n" "mem S = (mem R)(p := jt)" "al_in_heap a \<longrightarrow> jt = None"
    by (rule alarm_pop[OF ok n p(1) a])
  have same: "\<forall>q \<in> set ps. mem S q = mem R q" using S(5) p(3) by auto
  obtain T where T: "free_alarms S = Some T" "used T = 0" "\<forall>q. q \<notin> set ps \<longrightarrow> mem T q = mem S q"
    "\<forall>q a. q \<in> set ps \<longrightarrow> mem S q = Some a \<longrightarrow> al_in_heap a \<longrightarrow> mem T q = None"
    using Suc.hyps(1)[OF S(4)[symmetric] stocked_rest(1)[OF Suc.prems p(1) S(2,3) same]] S(3) by auto
  have "free_alarms R = Some T" using T(1) S(1) p(2) n by (subst free_alarms.simps) simp
  moreover have "mem T q = mem R q" if "q \<notin> set (items R)" for q
    using that T(3) S(5) by (simp add: p(1))
  moreover have "mem T q = None" if "q \<in> set (items R)" "mem R q = Some b" "al_in_heap b" for q b
    using that a(1) S(5,6) T(3,4) p(3) same by (cases "q = p") (auto simp: p(1))
  ultimately show ?case using T(2) by blast
qed

definition store_values :: "(ptr \<Rightarrow> iot_options option) \<Rightarrow> ptr list \<Rightarrow> ptr list" where
  "store_values ts ps =
     concat (map (\<lambda>p. if p = NULL then [] else option_objects (entries (the (ts p))) @ [p]) ps)"

lemma free_options_all:
  "\<forall>p \<in> set ps. p \<noteq> NULL \<longrightarrow> ts p \<noteq> None \<Longrightarrow> free_options ts ps h = free_all (store_values ts ps) h"
proof (induction ps arbitrary: h)
  case (Cons p ps)
  show ?case
  proof (cases "p = NULL")
    case False
    then obtain t where t: "ts p = Some t" using Cons.prems by auto
    have "store_values ts (p # ps) = option_objects (entries t) @ [p] @ store_values ts ps"
      using False t by (simp add: store_values_def)
    then show ?thesis
      using Cons False t by (auto simp: free_all_append options_free_data_all split: option.splits bind_splits)
  qed (use Cons in \<open>simp add: store_values_def\<close>)
qed (simp add: store_values_def)

section \<open>The client\<close>

text \<open>What the client owns, but for the actions of \<open>K\<close>.\<close>

definition client_values :: "'s iot \<Rightarrow> ptr set \<Rightarrow> ptr list" where
  "client_values L K =
     values_of telemetry_values (telemetry L) (items (telemetry L)) @
     values_of action_values (actions L) (filter (\<lambda>p. p \<notin> K) (items (actions L))) @
     store_values (tables (cf_options (config L))) (handles (cf_options (config L)))"

definition client_whole :: "heap \<Rightarrow> 's iot \<Rightarrow> bool" where
  "client_whole h L \<longleftrightarrow>
     stocked telemetry_name telemetry_good IOT_TELEMETRY_MAX (telemetry L) \<and>
     stocked action_name action_good IOT_ACTION_MAX (actions L) \<and>
     stocked al_name al_lib IOT_ALARM_MAX (alarms L) \<and>
     plugins_ok (plugs L) \<and> quiet (plugs L) \<and>
     (\<forall>p \<in> set (handles (cf_options (config L))). p \<noteq> NULL \<longrightarrow> tables (cf_options (config L)) p \<noteq> None) \<and>
     live h (client_values L {})"

lemma live_part: "live h (xs @ ys) \<Longrightarrow> set xs' \<subseteq> set xs \<Longrightarrow> live (without xs' h) ys"
  by (auto simp: live_def without_def)

lemma perform_client_quiet:
  assumes "quiet (plugs L)"
  obtains r where "perform_client sys L m op s = Some (r, L, performed (plugs L) m (op, NULL, ValueNone, None) s)"
    "obliging (plugs L) \<longrightarrow> r = STATUS_SUCCESS"
proof -
  obtain r s' where "perform_op (strtol sys) (strtoul sys) (plugs L) False (Some m) op NULL ValueNone None s =
      Some (r, None, plugs L, s')" "obliging (plugs L) \<longrightarrow> r = STATUS_SUCCESS"
    "s' = performed (plugs L) m (op, NULL, ValueNone, None) s" by (rule perform_op_quiet[OF assms])
  then show thesis using that[of r] by (simp add: perform_client_def)
qed

text \<open>The plug-ins are disabled, the last first, and then terminated, the last first.\<close>

definition plugins_end :: "'s iot_lib \<Rightarrow> 's \<Rightarrow> 's" where
  "plugins_end lib s =
     fold (\<lambda>i s. iot_plugin_terminate lib i s) (rev [0..<plugin_count lib]) (disable_all_effect lib s)"

lemma plugins_end_spec:
  assumes "plugins_ok lib"
  obtains r lib' s1 where "iot_plugin_disable_all lib s = Some (r, lib', s1)" "enabled lib' = []"
    "plugins_ok lib'"
    "fold (\<lambda>i s. iot_plugin_terminate lib' i s) (rev [0..<plugin_count lib']) s1 = plugins_end lib s"
proof -
  obtain lib' where d: "disable_all_loop lib s = Some (lib', disable_all_effect lib s)" "plugins_ok lib'"
    "enabled lib' = []" "plugins lib' = plugins lib" "plugin_count lib' = plugin_count lib"
    using disable_all_loop_spec[OF assms, of s] by blast
  have "iot_plugin_terminate lib' = iot_plugin_terminate lib"
    using d(4) by (simp add: iot_plugin_terminate_def fun_eq_iff)
  then show thesis using that d by (simp add: iot_plugin_disable_all_def plugins_end_def)
qed

text \<open>The loops that empty the tables, one after the other.\<close>

lemma tables_released:
  assumes "client_whole h L"
  obtains K T A al h1 h2 s1 s2 where
    "free_telemetry sys m (plugs L) (telemetry L) h s = Some (T, h1, plugs L, s1)" "used T = 0"
    "\<forall>q t. q \<in> set (items (telemetry L)) \<longrightarrow> mem (telemetry L) q = Some t \<longrightarrow> tl_in_heap t \<longrightarrow> mem T q = None"
    "free_actions sys m (plugs L) (actions L) h1 s1 = Some (A, h2, plugs L, s2)"
    "actions_left (actions L) K A" "obliging (plugs L) \<longrightarrow> K = {}"
    "free_alarms (alarms L) = Some al" "used al = 0"
    "\<forall>q a. q \<in> set (items (alarms L)) \<longrightarrow> mem (alarms L) q = Some a \<longrightarrow> al_in_heap a \<longrightarrow> mem al q = None"
    "free_options (tables (cf_options (config L))) (handles (cf_options (config L))) h2 =
      Some (without (client_values L K) h)"
proof -
  let ?o = "cf_options (config L)"
  let ?vt = "values_of telemetry_values (telemetry L) (items (telemetry L))"
  let ?va = "values_of action_values (actions L) (items (actions L))"
  let ?vo = "store_values (tables ?o) (handles ?o)"
  have w: "stocked telemetry_name telemetry_good IOT_TELEMETRY_MAX (telemetry L)"
    "stocked action_name action_good IOT_ACTION_MAX (actions L)" "stocked al_name al_lib IOT_ALARM_MAX (alarms L)"
    "plugins_ok (plugs L)" "quiet (plugs L)" "\<forall>p \<in> set (handles ?o). p \<noteq> NULL \<longrightarrow> tables ?o p \<noteq> None"
    and l: "live h (?vt @ ?va @ ?vo)"
    using assms by (simp_all add: client_whole_def client_values_def)
  have lt: "live h ?vt" and la: "live (without ?vt h) (?va @ ?vo)"
    using l live_without[OF l] by (simp_all add: live_append[of h ?vt])
  obtain T s1 where T: "free_telemetry sys m (plugs L) (telemetry L) h s =
      Some (T, without ?vt h, plugs L, s1)" "used T = 0"
    "\<forall>q t. q \<in> set (items (telemetry L)) \<longrightarrow> mem (telemetry L) q = Some t \<longrightarrow> tl_in_heap t \<longrightarrow> mem T q = None"
    using free_telemetry_spec[OF w(1) lt w(5), of sys m s] by blast
  have la1: "live (without ?vt h) ?va" using la by (simp add: live_append)
  obtain K A s2 where A: "free_actions sys m (plugs L) (actions L) (without ?vt h) s1 = Some (A,
      without (values_of action_values (actions L) (filter (\<lambda>p. p \<notin> K) (items (actions L)))) (without ?vt h),
      plugs L, s2)" "actions_left (actions L) K A" "obliging (plugs L) \<longrightarrow> K = {}"
    using free_actions_spec[OF w(2) la1 w(5), of sys m s1] by blast
  let ?vk = "values_of action_values (actions L) (filter (\<lambda>p. p \<notin> K) (items (actions L)))"
  obtain al where al: "free_alarms (alarms L) = Some al" "used al = 0"
    "\<forall>q a. q \<in> set (items (alarms L)) \<longrightarrow> mem (alarms L) q = Some a \<longrightarrow> al_in_heap a \<longrightarrow> mem al q = None"
    using free_alarms_spec[OF w(3)] by blast
  have "set ?vk \<subseteq> set ?va" by (auto simp: values_of_def)
  then have "live (without ?vk (without ?vt h)) ?vo" by (rule live_part[OF la])
  then have o: "free_options (tables ?o) (handles ?o) (without ?vk (without ?vt h)) =
      Some (without (client_values L K) h)"
    unfolding free_options_all[OF w(6)]
    by (subst free_all_live) (simp_all add: without_append client_values_def)
  show thesis by (rule that[OF T A al o])
qed

text \<open>Disconnecting changes nothing the plug-ins do not do, but for the threads.\<close>

lemma disconnect_spec:
  assumes "quiet (plugs L)"
  obtains L' s' where "(if to_quit L then Some (L, s)
      else Option.bind (iot_disconnect sys L m s) (\<lambda>(_, L, s). Some (L, s))) = Some (L', s')"
    "plugs L' = plugs L" "telemetry L' = telemetry L" "actions L' = actions L" "alarms L' = alarms L"
    "config L' = config L"
proof -
  let ?L = "if single_threaded L then L else snd (iot_loop_stop L)"
  have same: "plugs ?L = plugs L" "telemetry ?L = telemetry L" "actions ?L = actions L"
    "alarms ?L = alarms L" "config ?L = config L"
    by (simp_all add: iot_loop_stop_def Let_def)
  have q: "quiet (plugs ?L)" using assms unfolding same .
  obtain r s' where "perform_client sys ?L m OPERATION_CLIENT_DISCONNECT s = Some (r, ?L, s')"
    using perform_client_quiet[OF q] by metis
  then have "iot_disconnect sys L m s = Some (r, ?L, s')" by (simp only: iot_disconnect_def Let_def)
  then show thesis
    using that[of L s] that[of ?L s'] same by (cases "to_quit L") simp_all
qed

text \<open>
  C5: Terminating a client whose parts are well formed always returns, with success: the loops that
  empty the tables of telemetry, actions and alarms end, even when plug-ins refuse to deregister
  actions. Exactly the objects that the telemetry, the option maps and the deregistered actions
  own, and the maps, are released, each once; the actions \<open>K\<close> that are not deregistered keep theirs
  (they leak), and there are none when the plug-ins answer with success. No plug-in stays enabled:
  each is disabled, from the last to the first, before any is terminated.
\<close>

theorem client_terminated:
  assumes "client_whole h L"
  shows "\<exists>K L' s1 s'. iot_terminate sys L m h s = Some (STATUS_SUCCESS, L', without (client_values L K) h, s') \<and>
    actions_left (actions L) K (actions L') \<and> (obliging (plugs L) \<longrightarrow> K = {}) \<and>
    used (telemetry L') = 0 \<and> used (alarms L') = 0 \<and> handles (cf_options (config L')) = [] \<and>
    (\<forall>q t. q \<in> set (items (telemetry L)) \<longrightarrow> mem (telemetry L) q = Some t \<longrightarrow> tl_in_heap t \<longrightarrow>
      mem (telemetry L') q = None) \<and>
    (\<forall>q a. q \<in> set (items (alarms L)) \<longrightarrow> mem (alarms L) q = Some a \<longrightarrow> al_in_heap a \<longrightarrow>
      mem (alarms L') q = None) \<and>
    enabled (plugs L') = [] \<and> s' = plugins_end (plugs L) s1"
proof -
  obtain K T A al h1 h2 s1 s2 where t: "free_telemetry sys m (plugs L) (telemetry L) h s = Some (T, h1, plugs L, s1)"
      "free_actions sys m (plugs L) (actions L) h1 s1 = Some (A, h2, plugs L, s2)"
      "free_alarms (alarms L) = Some al"
      "free_options (tables (cf_options (config L))) (handles (cf_options (config L))) h2 =
        Some (without (client_values L K) h)"
    and e: "used T = 0" "used al = 0" "actions_left (actions L) K A" "obliging (plugs L) \<longrightarrow> K = {}"
      "\<forall>q t. q \<in> set (items (telemetry L)) \<longrightarrow> mem (telemetry L) q = Some t \<longrightarrow> tl_in_heap t \<longrightarrow> mem T q = None"
      "\<forall>q a. q \<in> set (items (alarms L)) \<longrightarrow> mem (alarms L) q = Some a \<longrightarrow> al_in_heap a \<longrightarrow> mem al q = None"
    by (rule tables_released[OF assms, of sys m s])
  define L1 where "L1 = L\<lparr>telemetry := T, actions := A, alarms := al,
    config := (config L)\<lparr>cf_options := \<lparr>handles = [], tables = Map.empty\<rparr>\<rparr>\<rparr>"
  note L1 = L1_def[symmetric]
  have quit: "to_quit L1 = to_quit L" and q: "quiet (plugs L1)" and ok: "plugins_ok (plugs L)"
    using assms by (simp_all add: client_whole_def L1_def)
  obtain L2 s3 where d: "(if to_quit L1 then Some (L1, s2)
      else Option.bind (iot_disconnect sys L1 m s2) (\<lambda>(_, L, s). Some (L, s))) = Some (L2, s3)"
    and same: "plugs L2 = plugs L1" "telemetry L2 = telemetry L1" "actions L2 = actions L1"
      "alarms L2 = alarms L1" "config L2 = config L1"
    by (rule disconnect_spec[OF q])
  have L2: "plugs L2 = plugs L" "telemetry L2 = T" "actions L2 = A" "alarms L2 = al"
    "handles (cf_options (config L2)) = []" using same by (simp_all add: L1_def)
  obtain r lib s4 where p: "iot_plugin_disable_all (plugs L) s3 = Some (r, lib, s4)" "enabled lib = []"
    "fold (\<lambda>i s. iot_plugin_terminate lib i s) (rev [0..<plugin_count lib]) s4 = plugins_end (plugs L) s3"
    by (rule plugins_end_spec[OF ok])
  have "iot_terminate sys L m h s =
      Some (STATUS_SUCCESS, L2\<lparr>plugs := lib\<rparr>, without (client_values L K) h, plugins_end (plugs L) s3)"
    using t d[unfolded quit] p(1,3) L2(1) by (cases "to_quit L") (auto simp: iot_terminate_def L1 Let_def split: bind_splits)
  then show ?thesis
    by (intro exI[of _ K] exI[of _ "L2\<lparr>plugs := lib\<rparr>"] exI[of _ s3] exI conjI) (use e L2 p(2) in simp_all)
qed

text \<open>A telemetry object with an option, an action with a parameter, an alarm and an option map.\<close>

definition example_value :: "ptr \<Rightarrow> iot_data" where
  "example_value p = data_zero\<lparr>heap_storage := p\<rparr>"

definition example_client :: "unit iot" where
  "example_client = (lib_zero \<lparr>action_objects = [], alarm_objects = [], telemetry_objects = []\<rparr>)
     \<lparr>telemetry := \<lparr>mem = [1 \<mapsto> telemetry_zero\<lparr>tl_lib := True, tl_name := Some ''t'', tl_in_heap := True,
          tl_option := Some [\<lparr>opt_name = Some ''unit'', opt_data = example_value 10\<rparr>], tl_option_count := 1\<rparr>],
        slots = 1 # replicate 254 NULL, used = 1\<rparr>,
      actions := \<lparr>mem = [2 \<mapsto> action_zero\<lparr>ac_lib := True, ac_name := Some ''a'', ac_in_heap := True,
          ac_parameter := Some [\<lparr>ap_name = Some ''p'', ap_data = example_value 11, ap_type = 0\<rparr>],
          ac_option := Some []\<rparr>],
        slots = 2 # replicate 254 NULL, used = 1\<rparr>,
      alarms := \<lparr>mem = [3 \<mapsto> \<lparr>al_lib = True, al_name = Some ''l'', al_in_heap = True\<rparr>],
        slots = 3 # replicate 254 NULL, used = 1\<rparr>,
      config := \<lparr>cf_options = \<lparr>handles = [12], tables = [12 \<mapsto> \<lparr>option_array =
          [\<lparr>opt_name = Some ''o'', opt_data = example_value 13\<rparr>], option_count = 1\<rparr>]\<rparr>, options_config = 12\<rparr>\<rparr>"

definition example_client_heap :: heap where
  "example_client_heap = \<lparr>cells = [10 \<mapsto> Bytes [], 11 \<mapsto> Bytes [], 12 \<mapsto> Bytes [], 13 \<mapsto> Bytes []], allocator = []\<rparr>"

lemma example_client_values: "client_values example_client {} = [10, 11, 13, 12]"
  by (simp add: client_values_def example_client_def values_of_def items_def telemetry_values_def
      telemetry_options_def action_values_def store_values_def entries_def example_value_def
      telemetry_zero_def action_zero_def data_zero_def)

lemma example_client_whole: "client_whole example_client_heap example_client"
  unfolding client_whole_def example_client_values
  using plugin_initial_ok[of "plugs example_client"]
  by (simp add: example_client_heap_def live_def)
    (simp add: example_client_def stocked_def registry_ok_def items_def item_key_def table_keys_def
      telemetry_name_def action_name_def telemetry_good_def telemetry_options_def action_good_def
      telemetry_zero_def action_zero_def lib_zero_def plugin_initial_def quiet_def executors_def
      enabled_def List.map_filter_def)

theorem client_terminated_witness:
  "\<forall>sys. \<exists>L' s'. iot_terminate sys example_client 0 example_client_heap () =
      Some (STATUS_SUCCESS, L', \<lparr>cells = Map.empty, allocator = []\<rparr>, s') \<and>
    used (telemetry L') = 0 \<and> used (actions L') = 0 \<and> used (alarms L') = 0"
proof
  fix sys :: "unit system"
  have ob: "obliging (plugs example_client)"
    by (simp add: obliging_def example_client_def lib_zero_def executors_def enabled_def List.map_filter_def)
  have heap: "without [10, 11, 13, 12] example_client_heap = \<lparr>cells = Map.empty, allocator = []\<rparr>"
    by (auto simp: without_def example_client_heap_def fun_eq_iff)
  show "\<exists>L' s'. iot_terminate sys example_client 0 example_client_heap () =
      Some (STATUS_SUCCESS, L', \<lparr>cells = Map.empty, allocator = []\<rparr>, s') \<and>
    used (telemetry L') = 0 \<and> used (actions L') = 0 \<and> used (alarms L') = 0"
    using client_terminated[OF example_client_whole, of sys 0 "()"] ob
    by (auto simp: example_client_values heap actions_left_def)
qed

end
