(* ===== verification/Startup.thy ===== *)
theory Startup
  imports Terminate
begin

text \<open>
  The life of a client before it is terminated: what \<open>iot_initialize\<close> establishes, the device id,
  which stays the same from one run to the next, and the main loop.
\<close>

section \<open>Initialisation\<close>

lemma stack_table_initial:
  assumes "NULL \<notin> set stack" and "distinct stack" and "length stack \<le> cap" and "\<not> owned zero"
  shows "pool_initial owned cap stack (stack_table zero cap stack)"
  using assms by (simp add: pool_initial_def stack_table_def)

definition stack_objects_ok :: "stack_objects \<Rightarrow> bool" where
  "stack_objects_ok objs \<longleftrightarrow>
     (\<forall>ps \<in> {action_objects objs, alarm_objects objs, telemetry_objects objs}.
        NULL \<notin> set ps \<and> distinct ps \<and> length ps \<le> 255)"

text \<open>The tables of a new client: every object free, every request free, no option map.\<close>

definition tables_initial :: "stack_objects \<Rightarrow> 's iot \<Rightarrow> bool" where
  "tables_initial objs L \<longleftrightarrow>
     pool_initial tl_lib IOT_TELEMETRY_MAX (telemetry_objects objs) (telemetry L) \<and>
     pool_initial ac_lib IOT_ACTION_MAX (action_objects objs) (actions L) \<and>
     pool_initial al_lib IOT_ALARM_MAX (alarm_objects objs) (alarms L) \<and>
     requests L = requests_initial (replicate IOT_ACTION_QUEUE_MAX 0) \<and>
     handles (cf_options (config L)) = [] \<and> \<not> to_quit L \<and> logger_level L = 6"

lemma lib_zero_tables: "stack_objects_ok objs \<Longrightarrow> tables_initial objs (lib_zero objs)"
  by (auto simp: tables_initial_def lib_zero_def stack_objects_ok_def telemetry_zero_def action_zero_def
      alarm_zero_def intro!: stack_table_initial)

lemma lib_zero_plugins: "plugin_initial (plugs (lib_zero objs))"
  by (simp add: plugin_initial_def lib_zero_def)

lemma pool_stocked:
  assumes "pool_initial owned cap stack R"
  shows "stocked key good cap R" "items R = []"
  using pool_okD(1)[OF pool_initial_ok(1)[OF assms, where key = key and heaped = "\<lambda>_. False"]]
    pool_initial_ok(2)[OF assms]
  by (simp_all add: stocked_def)

lemma tables_initial_whole:
  assumes "tables_initial objs L" and "plugins_ok (plugs L)" and "quiet (plugs L)"
  shows "client_whole h L" "client_values L K = []"
proof -
  have i: "pool_initial tl_lib IOT_TELEMETRY_MAX (telemetry_objects objs) (telemetry L)"
    "pool_initial ac_lib IOT_ACTION_MAX (action_objects objs) (actions L)"
    "pool_initial al_lib IOT_ALARM_MAX (alarm_objects objs) (alarms L)"
    and o: "handles (cf_options (config L)) = []"
    using assms(1) by (simp_all add: tables_initial_def)
  have v: "client_values L K = []" for K
    using pool_stocked(2)[OF i(1)] pool_stocked(2)[OF i(2)] o by (simp add: client_values_def store_values_def)
  show "client_values L K = []" by (rule v)
  show "client_whole h L"
    using pool_stocked(1)[OF i(1), of telemetry_name telemetry_good]
      pool_stocked(1)[OF i(2), of action_name action_good] pool_stocked(1)[OF i(3), of al_name al_lib]
      assms(2,3) o v
    by (simp add: client_whole_def live_def)
qed

text \<open>The device id is the one of the file, or what was written to it.\<close>

lemma device_id_cases:
  assumes "iot_base_device_id_set files create uuid h old = (STATUS_SUCCESS, d, h')"
  obtains (stored) "stored_device_id files \<noteq> []" "d = Some (stored_device_id files)"
  | (fresh) n where "stored_device_id files = []"
    "create device_id_path (take IOT_ID_MAX_LEN uuid) = Some n" "0 < n"
    "d = Some (take n (take IOT_ID_MAX_LEN uuid))"
proof (cases "stored_device_id files = []")
  case False
  then show thesis
    using assms stored by (auto simp: iot_base_device_id_set_def Let_def split: if_splits prod.splits)
next
  case True
  then show thesis
    using assms fresh
    by (auto simp: iot_base_device_id_set_def Let_def split: if_splits prod.splits option.splits)
qed

lemma stored_device_id_bounds:
  "length (stored_device_id files) \<le> IOT_ID_MAX_LEN" "\<forall>c \<in> set (stored_device_id files). printable c"
  by (auto simp: stored_device_id_def chars_of_def split: option.splits dest: set_takeWhileD
      intro!: order_trans[OF length_takeWhile_le])

lemma device_id_bounds:
  assumes "iot_base_device_id_set files create uuid h old = (STATUS_SUCCESS, d, h')" and "uuid \<noteq> []"
  obtains i where "d = Some i" "i \<noteq> []" "length i \<le> IOT_ID_MAX_LEN"
  using assms(1)
proof (cases rule: device_id_cases)
  case stored
  show thesis by (rule that[OF stored(2,1) stored_device_id_bounds(1)])
next
  case (fresh n)
  show thesis by (rule that[OF fresh(4)]) (use assms(2) fresh(3) in simp_all)
qed

section \<open>Properties\<close>

text \<open>
  C17: A library that \<open>iot_initialize\<close> returns has empty tables, a request pool that is all free, no
  option map and a well-formed registry of plug-ins, provided that the built-in plug-ins are loaded
  and enabled through it; with quiet plug-ins it can be terminated, owning nothing. It has an id
  and a device id of 1 to 36 characters, or it was returned although the memory for the path of its
  configuration file ran out: then it has neither, nor any plug-in.
\<close>

theorem client_initialized:
  assumes objs: "stack_objects_ok objs" and uuid: "uuid \<noteq> []"
    and load: "\<And>lib. plugins_ok lib \<Longrightarrow> plugins_ok (builtin_load B lib)"
    and enable: "\<And>lib s lib' s'. plugins_ok lib \<Longrightarrow> builtin_enable B lib s = Some (lib', s') \<Longrightarrow> plugins_ok lib'"
    and run: "iot_initialize objs files create uuid B h ident cfg_path fl s = Some (Some L, h', s')"
  shows "tables_initial objs L \<and> plugins_ok (plugs L) \<and>
    (quiet (plugs L) \<longrightarrow> client_whole h' L \<and> client_values L {} = []) \<and> cells h' = cells h \<and>
    ((\<exists>d. device_id L = Some d \<and> d \<noteq> [] \<and> length d \<le> IOT_ID_MAX_LEN \<and> Some (lib_id L) = ident) \<or>
     (cfg_path \<noteq> None \<and> L = lib_zero objs \<and> s' = s))"
proof -
  let ?Z = "lib_zero objs :: 'a iot"
  obtain i h1 where g1: "ident = Some i" "os_grab h = (True, h1)"
    using run by (auto simp: iot_initialize_def split: option.splits prod.splits if_splits)
  obtain st path h2 where g2: "iot_configuration_file_set h1 None cfg_path = (st, path, h2)"
    by (rule prod_cases3)
  note g = g1 g2
  have c: "cells h1 = cells h" "cells h2 = cells h1"
    using g(2,3) by (auto simp: iot_configuration_file_set_def split: option.splits if_splits prod.splits)
  show ?thesis
  proof (cases "st = STATUS_NO_MEMORY")
    case True
    then have e: "L = ?Z" "h' = h2" "s' = s" using run g by (simp_all add: iot_initialize_def)
    have t: "tables_initial objs L" unfolding e(1) by (rule lib_zero_tables[OF objs])
    have p: "plugins_ok (plugs L)" unfolding e(1) by (rule plugin_initial_ok[OF lib_zero_plugins])
    have "cfg_path \<noteq> None" using g(3) True by (cases cfg_path) (simp_all add: iot_configuration_file_set_def)
    then show ?thesis using t p c e tables_initial_whole[OF t p] by simp
  next
    case False
    obtain dev h3 lib s1 where d: "iot_base_device_id_set files create uuid h2 None = (STATUS_SUCCESS, dev, h3)"
      "builtin_enable B (builtin_load B (plugs ?Z)) s1 = Some (lib, s')" "h' = h3"
      "L = ?Z\<lparr>cfg_file_path := path, lib_flags := ucast fl, lib_id := i, device_id := dev, plugs := lib\<rparr>"
      using run g False
      by (auto simp: iot_initialize_def Let_def split: prod.splits if_splits bind_splits)
    obtain j where j: "dev = Some j" "j \<noteq> []" "length j \<le> IOT_ID_MAX_LEN"
      by (rule device_id_bounds[OF d(1) uuid])
    have t: "tables_initial objs L"
      using lib_zero_tables[OF objs, where 'a = 'a] unfolding d(4) by (simp add: tables_initial_def)
    have p: "plugins_ok (plugs L)"
      using enable[OF load[OF plugin_initial_ok[OF lib_zero_plugins]] d(2)] by (simp add: d(4))
    have "cells h3 = cells h2"
      using d(1) by (auto simp: iot_base_device_id_set_def Let_def split: if_splits prod.splits)
    then have "cells h' = cells h" using c d(3) by simp
    moreover have "device_id L = Some j" "Some (lib_id L) = ident" using j(1) g(1) by (simp_all add: d(4))
    ultimately show ?thesis using t p j(2,3) tables_initial_whole[OF t p] by simp
  qed
qed

definition example_objects :: stack_objects where
  "example_objects = \<lparr>action_objects = [1, 2, 3], alarm_objects = [1, 2, 3], telemetry_objects = [1, 2, 3]\<rparr>"

definition example_builtins :: "unit builtins" where
  "example_builtins = \<lparr>builtin_load = (\<lambda>lib. lib), builtin_enable = (\<lambda>lib s. Some (lib, s))\<rparr>"

definition no_files :: "unit os_files" where
  "no_files = \<lparr>os_file_open = (\<lambda>_. None), os_file_read = (\<lambda>_ _. ([], ())), os_file_eof = (\<lambda>_. True)\<rparr>"

theorem client_initialized_witness:
  "\<exists>L h'. iot_initialize example_objects no_files (\<lambda>_ c. Some (length c)) ''id-1'' example_builtins
      \<lparr>cells = Map.empty, allocator = [Some 8, Some 9]\<rparr> (Some ''app'') None 0 () = Some (Some L, h', ()) \<and>
    client_whole h' L \<and> device_id L = Some ''id-1'' \<and> lib_id L = ''app''"
proof -
  let ?L = "(lib_zero example_objects :: unit iot)\<lparr>lib_flags := 0, lib_id := ''app'', device_id := Some ''id-1''\<rparr>"
  let ?h = "\<lparr>cells = Map.empty, allocator = []\<rparr>"
  have run: "iot_initialize example_objects no_files (\<lambda>_ c. Some (length c)) ''id-1'' example_builtins
      \<lparr>cells = Map.empty, allocator = [Some 8, Some 9]\<rparr> (Some ''app'') None 0 () = Some (Some ?L, ?h, ())"
    by (simp add: iot_initialize_def os_grab_def iot_configuration_file_set_def iot_base_device_id_set_def
        stored_device_id_def no_files_def example_builtins_def Let_def lib_zero_def)
  have "stack_objects_ok example_objects" by (simp add: stack_objects_ok_def example_objects_def)
  moreover have "quiet (plugs ?L)"
    by (simp add: quiet_def executors_def enabled_def lib_zero_def List.map_filter_def)
  ultimately have "client_whole ?h ?L"
    using client_initialized[OF _ _ _ _ run] by (simp add: example_builtins_def)
  then show ?thesis using run by (intro exI[of _ ?L] exI[of _ ?h]) simp
qed

text \<open>
  C18: The device id is stable: whatever id a run of the library sets, read from the file or newly
  generated and written to it, a later run on the file as that run leaves it sets the same id, and
  neither generates nor writes one.
\<close>

theorem device_id_stable:
  assumes first: "iot_base_device_id_set files create uuid h old = (STATUS_SUCCESS, Some d, h1)"
    and uuid: "\<forall>c \<in> set uuid. printable c"
    and left: "os_file_open files' device_id_path = Some (Some fd)"
      "fst (os_file_read files' fd IOT_ID_MAX_LEN) =
        (case os_file_open files device_id_path of
           Some (Some fd) \<Rightarrow> if stored_device_id files = [] then bytes_of d else fst (os_file_read files fd IOT_ID_MAX_LEN)
         | _ \<Rightarrow> bytes_of d)"
    and d: "d \<noteq> []" and room: "ample 1 h2"
  shows "\<exists>h3. iot_base_device_id_set files' create' uuid' h2 old' = (STATUS_SUCCESS, Some d, h3)"
proof -
  have "stored_device_id files' = d"
  proof (cases "stored_device_id files = []")
    case False
    then obtain fd0 where "os_file_open files device_id_path = Some (Some fd0)"
      by (auto simp: stored_device_id_def split: option.splits)
    then have "stored_device_id files' = stored_device_id files"
      using left False by (simp add: stored_device_id_def)
    moreover have "stored_device_id files = d" by (rule device_id_cases[OF first]) (use False in simp_all)
    ultimately show ?thesis by simp
  next
    case True
    have "\<exists>n. d = take n (take IOT_ID_MAX_LEN uuid)" by (rule device_id_cases[OF first]) (use True in auto)
    then obtain n where n: "d = take n (take IOT_ID_MAX_LEN uuid)" by blast
    then have p: "length d \<le> IOT_ID_MAX_LEN" "\<forall>c \<in> set d. printable c"
      using uuid by (auto dest: in_set_takeD)
    have "fst (os_file_read files' fd IOT_ID_MAX_LEN) = bytes_of d"
      using left(2) True by (simp split: option.splits)
    moreover have "take IOT_ID_MAX_LEN (bytes_of d) = bytes_of d" using p(1) by (simp add: bytes_of_def)
    ultimately have "stored_device_id files' = takeWhile printable d"
      using left(1) by (simp add: stored_device_id_def)
    then show ?thesis using p(2) by (simp add: takeWhile_eq_all_conv[THEN iffD2])
  qed
  moreover obtain h3 where "os_grab h2 = (True, h3)"
    using ample_grab[of 0 h2] room by (cases "os_grab h2") auto
  ultimately show ?thesis using d by (simp add: iot_base_device_id_set_def)
qed


definition id_file :: "unit os_files" where
  "id_file = \<lparr>os_file_open = (\<lambda>p. if p = device_id_path then Some (Some ()) else None),
     os_file_read = (\<lambda>_ _. (bytes_of ''id-1'', ())), os_file_eof = (\<lambda>_. True)\<rparr>"

theorem device_id_stable_witness:
  "\<exists>h1 h3. iot_base_device_id_set no_files (\<lambda>_ c. Some (length c)) ''id-1'' \<lparr>cells = Map.empty, allocator = [Some 8]\<rparr>
      None = (STATUS_SUCCESS, Some ''id-1'', h1) \<and>
    iot_base_device_id_set id_file (\<lambda>_ _. None) ''id-2'' \<lparr>cells = Map.empty, allocator = [Some 8]\<rparr> None =
      (STATUS_SUCCESS, Some ''id-1'', h3)"
proof -
  let ?h = "\<lparr>cells = Map.empty, allocator = [Some 8]\<rparr>"
  have first: "iot_base_device_id_set no_files (\<lambda>_ c. Some (length c)) ''id-1'' ?h None =
      (STATUS_SUCCESS, Some ''id-1'', ?h\<lparr>allocator := []\<rparr>)"
    by (simp add: iot_base_device_id_set_def stored_device_id_def no_files_def os_grab_def)
  have "ample 1 ?h" by (auto simp: ample_def intro!: exI[of _ "[8]"])
  then show ?thesis
    using first device_id_stable[OF first, of id_file "()" ?h "\<lambda>_ _. None" "''id-2''" None]
    by (auto simp: id_file_def no_files_def printable_def)
qed

text \<open>One iteration of the main loop, in the world of the plug-ins.\<close>

abbreviation iteration :: "'s iot \<Rightarrow> 's \<Rightarrow> 's" where
  "iteration L \<equiv> performed (plugs L) 1000 (OPERATION_ITERATION, NULL, ValueNone, None)"

lemma loop_iteration_spec:
  assumes "quiet (plugs L)" and "obliging (plugs L)"
  shows "\<not> single_threaded L \<Longrightarrow> iot_loop_iteration sys L 1000 h s = Some (STATUS_SUCCESS, L, h, iteration L s)"
    and "single_threaded L \<Longrightarrow> request_queue_wait_count (requests L) = 0 \<Longrightarrow>
      iot_loop_iteration sys L 1000 h s = Some (STATUS_NOT_FOUND, L, h, iteration L s)"
proof -
  obtain r where r: "perform_client sys L 1000 OPERATION_ITERATION s = Some (r, L, iteration L s)"
    "obliging (plugs L) \<longrightarrow> r = STATUS_SUCCESS" by (rule perform_client_quiet[OF assms(1)])
  show "\<not> single_threaded L \<Longrightarrow> iot_loop_iteration sys L 1000 h s = Some (STATUS_SUCCESS, L, h, iteration L s)"
    using r assms(2) by (simp add: iot_loop_iteration_def)
  assume "request_queue_wait_count (requests L) = 0"
  then have "process_client sys L 1000 h s = Some (STATUS_NOT_FOUND, L, h, s)" for s
    by (simp add: process_client_def iot_action_process_def wait_get_def)
  then show "single_threaded L \<Longrightarrow> iot_loop_iteration sys L 1000 h s = Some (STATUS_NOT_FOUND, L, h, iteration L s)"
    using r assms(2) by (simp add: iot_loop_iteration_def)
qed

lemma loop_from_spec:
  assumes "quiet (plugs L)" and "obliging (plugs L)" and "\<not> single_threaded L"
    and "\<forall>j < n. \<not> quit (i + j)" and "quit (i + n)"
  shows "loop_from sys quit i L h s = Some (STATUS_SUCCESS, L\<lparr>to_quit := True\<rparr>, h, (iteration L ^^ n) s)"
  using assms(4,5)
proof (induction n arbitrary: i s)
  case 0
  then show ?case by (simp add: loop_from.simps)
next
  case (Suc n)
  have "loop_from sys quit (Suc i) L h (iteration L s) =
      Some (STATUS_SUCCESS, L\<lparr>to_quit := True\<rparr>, h, (iteration L ^^ n) (iteration L s))"
    by (rule Suc.IH) (use Suc.prems in auto)
  then show ?case
    using Suc.prems loop_iteration_spec(1)[OF assms(1-3)]
    by (subst loop_from.simps) (auto simp: funpow_swap1 dest: spec[of _ 0])
qed

text \<open>
  C19: With plug-ins that succeed, the main loop of a client with worker threads ends when the flag to
  quit is set, and not before: after \<open>n\<close> iterations, with success. Without worker threads it
  ends in its first iteration with \<open>NOT_FOUND\<close> when no request is waiting, although nobody
  asked it to quit.
\<close>

theorem main_loop:
  assumes "quiet (plugs L)" and "obliging (plugs L)" and "\<forall>j < n. \<not> quit j" and "quit n"
  shows "(\<not> single_threaded L \<longrightarrow>
      iot_loop_forever sys quit L h s = Some (STATUS_SUCCESS, L\<lparr>to_quit := True\<rparr>, h, (iteration L ^^ n) s)) \<and>
    (single_threaded L \<and> 0 < n \<and> request_queue_wait_count (requests L) = 0 \<longrightarrow>
      iot_loop_forever sys quit L h s = Some (STATUS_NOT_FOUND, L, h, iteration L s))"
  using loop_from_spec[OF assms(1,2), of n quit 0 sys h s] loop_iteration_spec(2)[OF assms(1,2), of sys h s]
    assms(3,4)
  by (auto simp: iot_loop_forever_def loop_from.simps[of sys quit 0])

theorem main_loop_witness:
  "\<forall>sys. iot_loop_forever sys (\<lambda>i. 3 \<le> i) example_client example_client_heap () =
      Some (STATUS_SUCCESS, example_client\<lparr>to_quit := True\<rparr>, example_client_heap, ()) \<and>
    iot_loop_forever sys (\<lambda>i. 3 \<le> i) (example_client\<lparr>lib_flags := FLAG_SINGLE_THREAD\<rparr>) example_client_heap () =
      Some (STATUS_NOT_FOUND, example_client\<lparr>lib_flags := FLAG_SINGLE_THREAD\<rparr>, example_client_heap, ())"
proof
  fix sys :: "unit system"
  let ?S = "example_client\<lparr>lib_flags := FLAG_SINGLE_THREAD\<rparr>"
  have q: "quiet (plugs example_client)" "quiet (plugs ?S)" "obliging (plugs example_client)" "obliging (plugs ?S)"
    by (simp_all add: quiet_def obliging_def example_client_def lib_zero_def executors_def enabled_def
        List.map_filter_def)
  have f: "\<not> single_threaded example_client" "single_threaded ?S" "request_queue_wait_count (requests ?S) = 0"
    by (simp_all add: single_threaded_def example_client_def lib_zero_def requests_initial_def)
  show "iot_loop_forever sys (\<lambda>i. 3 \<le> i) example_client example_client_heap () =
      Some (STATUS_SUCCESS, example_client\<lparr>to_quit := True\<rparr>, example_client_heap, ()) \<and>
    iot_loop_forever sys (\<lambda>i. 3 \<le> i) ?S example_client_heap () =
      Some (STATUS_NOT_FOUND, ?S, example_client_heap, ())"
    using main_loop[OF q(1,3), of 3 "\<lambda>i. 3 \<le> i"] main_loop[OF q(2,4), of 3 "\<lambda>i. 3 \<le> i"] f by simp
qed

end
