(* ===== verification/Arguments.thy ===== *)
theory Arguments
  imports Prelude
begin

text \<open>
  The command-line arguments of the applications (\<open>src/src/utilities/app_arg.c\<close>): an iterator over
  the arguments that are options, and the parser that checks them against a table. The command line is
  a list of strings, the program's name first; what is printed is left out.
\<close>

section \<open>The table\<close>

abbreviation ARG_OPTIONAL :: u8 where "ARG_OPTIONAL \<equiv> 0x1"
abbreviation ARG_MULTI :: u8 where "ARG_MULTI \<equiv> 0x2"
abbreviation ARG_PARAM_OPTIONAL :: u8 where "ARG_PARAM_OPTIONAL \<equiv> 0x4"

text \<open>
  An entry: the short and the long name (NUL and NULL when there is none), the flags, whether a
  parameter is shown and whether its value is stored; how often it was found, and the value. The entry
  with neither name that ends the table is not part of the list.
\<close>

record app_arg =
  ag_ch :: char
  ag_name :: "string option"
  ag_flags :: u8
  ag_param :: bool
  ag_result :: bool
  ag_hit :: nat
  ag_value :: "string option"

fun app_arg_count :: "app_arg list \<Rightarrow> char \<Rightarrow> string option \<Rightarrow> nat" where
  "app_arg_count [] ch name = 0"
| "app_arg_count (a # args) ch name =
     (if (ch \<noteq> CHR 0x00 \<and> ch = ag_ch a) \<or> (name \<noteq> None \<and> ag_name a = name) then ag_hit a
      else app_arg_count args ch name)"

section \<open>The iterator\<close>

definition long_option :: "string \<Rightarrow> bool" where
  "long_option c \<longleftrightarrow> take 2 c = ''--''"

definition short_option :: "string \<Rightarrow> bool" where
  "short_option c \<longleftrightarrow> take 1 c = ''-''"

text \<open>
  Whether an argument is the one that is looked for: the name before an equals sign may be shortened;
  without one, the argument may go on after the name.
\<close>

definition long_matches :: "char \<Rightarrow> string option \<Rightarrow> string \<Rightarrow> bool" where
  "long_matches ch name c =
     (case name of
        Some name \<Rightarrow>
          (let n = length (takeWhile (\<lambda>x. x \<noteq> CHR ''='') c) in
           if n < length c then strncmp name c n = 0 else strncmp name c (length name) = 0)
      | None \<Rightarrow> ch = CHR 0x00)"

definition short_matches :: "char \<Rightarrow> string option \<Rightarrow> string \<Rightarrow> bool" where
  "short_matches ch name c =
     (if ch \<noteq> CHR 0x00 then take 1 (drop 1 c) = [ch] else name = None)"

text \<open>
  The search stops before the end at an argument of two dashes and at the second argument that is no
  option; \<open>n\<close> counts these. The result: whether one was found, and the index.
\<close>

fun find_scan :: "char \<Rightarrow> string option \<Rightarrow> string list \<Rightarrow> nat \<Rightarrow> nat \<Rightarrow> bool \<times> nat" where
  "find_scan ch name [] cnt n = (False, cnt)"
| "find_scan ch name (c # cs) cnt n =
     (if long_option c
      then (if drop 2 c = [] then (False, cnt)
            else if long_matches ch name (drop 2 c) then (True, cnt)
            else find_scan ch name cs (cnt + 1) n)
      else if short_option c
      then (if short_matches ch name c then (True, cnt) else find_scan ch name cs (cnt + 1) n)
      else if n + 1 < 2 then find_scan ch name cs (cnt + 1) (n + 1)
      else (False, cnt))"

definition app_arg_find_next :: "string list \<Rightarrow> char \<Rightarrow> string option \<Rightarrow> nat \<Rightarrow> bool \<times> nat" where
  "app_arg_find_next argv ch name idx = find_scan ch name (drop (idx + 1) argv) (idx + 1) 0"

definition app_arg_find :: "string list \<Rightarrow> char \<Rightarrow> string option \<Rightarrow> bool \<times> nat" where
  "app_arg_find argv ch name = app_arg_find_next argv ch name 0"

text \<open>The name of the option at an index, unless it is empty.\<close>

definition key_of :: "string \<Rightarrow> string" where
  "key_of c =
     (if long_option c then takeWhile (\<lambda>x. x \<noteq> CHR ''='') (drop 2 c)
      else if short_option c \<and> drop 1 c \<noteq> [] \<and> hd (drop 1 c) \<noteq> CHR ''='' then take 1 (drop 1 c)
      else [])"

definition app_arg_iterator_key :: "string list \<Rightarrow> nat \<Rightarrow> string option" where
  "app_arg_iterator_key argv idx =
     (if idx < length argv \<and> key_of (argv ! idx) \<noteq> [] then Some (key_of (argv ! idx)) else None)"

text \<open>
  The value: what follows the equals sign or the short name, or else the next argument if it is no
  option; that of an argument that is no option is the argument. Behind a single dash the code looks
  beyond the end of the string.
\<close>

definition attached_value :: "string \<Rightarrow> string option option" where
  "attached_value c =
     (if long_option c
      then (let v = dropWhile (\<lambda>x. x \<noteq> CHR ''='') (drop 2 c) in Some (if v = [] then None else Some (tl v)))
      else if drop 1 c = [] then None
      else (let v = drop 2 c in
        Some (if v = [] then None else if hd v = CHR ''='' then Some (tl v) else Some v)))"

definition app_arg_iterator_value :: "string list \<Rightarrow> nat \<Rightarrow> string option option" where
  "app_arg_iterator_value argv idx =
     (if idx < length argv
      then do {
        v \<leftarrow> (if short_option (argv ! idx)
          then do {
            v \<leftarrow> attached_value (argv ! idx);
            Some (if v = None \<and> idx + 1 < length argv \<and> \<not> short_option (argv ! (idx + 1))
                  then Some (argv ! (idx + 1)) else v)
          }
          else Some (Some (argv ! idx)));
        Some (if v = Some [] then None else v)
      }
      else Some None)"

section \<open>The parser\<close>

text \<open>The entry an option stands for. Comparing a long name with one that is NULL is undefined.\<close>

fun arg_search :: "app_arg list \<Rightarrow> string \<Rightarrow> string \<Rightarrow> nat \<Rightarrow> nat option option" where
  "arg_search [] c key i = Some None"
| "arg_search (a # args) c key i =
     (if long_option c
      then (case ag_name a of
          None \<Rightarrow> None
        | Some name \<Rightarrow> if strncmp name key (length key) = 0 then Some (Some i) else arg_search args c key (i + 1))
      else if short_option c \<and> key \<noteq> [] \<and> ag_ch a = hd key then Some (Some i)
      else arg_search args c key (i + 1))"

definition has_flag :: "app_arg \<Rightarrow> u8 \<Rightarrow> bool" where
  "has_flag a fl \<longleftrightarrow> and (ag_flags a) fl \<noteq> 0"

text \<open>One option: whether it is accepted, and the table.\<close>

definition arg_option :: "app_arg list \<Rightarrow> string list \<Rightarrow> nat \<Rightarrow> (bool \<times> app_arg list) option" where
  "arg_option args argv idx =
     (case app_arg_iterator_key argv idx of
        None \<Rightarrow> Some (False, args)
      | Some key \<Rightarrow> do {
          found \<leftarrow> arg_search args (argv ! idx) key 0;
          (case found of
             None \<Rightarrow> Some (False, args)
           | Some i \<Rightarrow>
               let a = (args ! i)\<lparr>ag_hit := ag_hit (args ! i) + 1\<rparr>; args = args[i := a] in
               if ag_hit a > 1 \<and> \<not> has_flag a ARG_MULTI then Some (False, args)
               else do {
                 val \<leftarrow> app_arg_iterator_value argv idx;
                 Some (case val of
                     Some v \<Rightarrow>
                       if \<not> ag_param a \<and> \<not> ag_result a \<and> \<not> has_flag a ARG_PARAM_OPTIONAL then (False, args)
                       else (True, if ag_result a then args[i := a\<lparr>ag_value := Some v\<rparr>] else args)
                   | None \<Rightarrow> (has_flag a ARG_PARAM_OPTIONAL \<or> \<not> (ag_param a \<or> ag_result a), args))
               })
        })"

lemma find_scan_index: "find_scan ch name cs cnt n = (m, i) \<Longrightarrow> cnt \<le> i \<and> i \<le> cnt + length cs \<and> (m \<longrightarrow> i < cnt + length cs)"
  by (induction ch name cs cnt n rule: find_scan.induct) (auto split: if_splits)

lemma find_next_index:
  "app_arg_find_next argv ch name idx = (True, i) \<Longrightarrow> idx < i \<and> i < length argv"
  using find_scan_index[of ch name "drop (idx + 1) argv" "idx + 1" 0 True i]
  by (cases "idx + 1 \<le> length argv") (auto simp: app_arg_find_next_def)

text \<open>Every option in turn; the search for the next one is made even after a failure.\<close>

function parse_options :: "app_arg list \<Rightarrow> string list \<Rightarrow> nat \<Rightarrow> (bool \<times> app_arg list \<times> nat) option" where
  "parse_options args argv idx =
     Option.bind (arg_option args argv idx) (\<lambda>(ok, args).
       (case app_arg_find_next argv (CHR 0x00) None idx of
          (m, i) \<Rightarrow> if ok \<and> m then parse_options args argv i else Some (ok, args, i)))"
  by pat_completeness auto
termination
  by (relation "measure (\<lambda>(args, argv, idx). length argv - idx)") (auto dest!: find_next_index[OF sym])

declare parse_options.simps [simp del]

text \<open>
  The hits start at zero; then every required entry must have been found. What is left behind the
  options is accepted when the caller asks where it begins. The result: success, table and index.
\<close>

definition app_arg_parse :: "app_arg list \<Rightarrow> string list \<Rightarrow> bool \<Rightarrow> (bool \<times> app_arg list \<times> nat) option" where
  "app_arg_parse args argv pos =
     (let args = map (\<lambda>a. a\<lparr>ag_hit := 0\<rparr>) args; (m, idx) = app_arg_find argv (CHR 0x00) None in do {
        (ok, args, idx) \<leftarrow> (if m then parse_options args argv idx else Some (True, args, idx));
        let required = (\<forall>a \<in> set args. ag_hit a > 0 \<or> has_flag a ARG_OPTIONAL);
        Some (ok \<and> required \<and> (pos \<or> length argv \<le> idx), args, idx)
      })"

section \<open>Which options are visited\<close>

text \<open>
  The options of a command line in one pass, and where they end: at two dashes, or at the second of two
  arguments in a row that are none.
\<close>

fun key_scan :: "string list \<Rightarrow> nat \<Rightarrow> bool \<Rightarrow> nat list \<times> nat" where
  "key_scan [] i plain = ([], i)"
| "key_scan (c # cs) i plain =
     (if c = ''--'' then ([], i)
      else if short_option c then (let (ks, e) = key_scan cs (i + 1) False in (i # ks, e))
      else if plain then ([], i)
      else key_scan cs (i + 1) True)"

definition option_positions :: "string list \<Rightarrow> nat list" where
  "option_positions argv = fst (key_scan (tl argv) 1 False)"

definition options_end :: "string list \<Rightarrow> nat" where
  "options_end argv = snd (key_scan (tl argv) 1 False)"

lemma dashes: "long_option c \<and> drop 2 c = [] \<longleftrightarrow> c = ''--''" "long_option c \<Longrightarrow> short_option c"
  by (cases c rule: remdups_adj.cases; auto simp: long_option_def short_option_def)+

lemma find_scan_keys:
  "find_scan (CHR 0x00) None cs i (if plain then 1 else 0) =
     (case key_scan cs i plain of (ks, e) \<Rightarrow> if ks = [] then (False, e) else (True, hd ks))"
proof (induction cs i plain rule: key_scan.induct)
  case (2 c cs i plain)
  then show ?case
    using dashes[of c] by (auto simp: long_matches_def short_matches_def split: prod.splits)
qed simp

lemma key_scan_rest:
  "key_scan cs i plain = (k # ks, e) \<Longrightarrow> i \<le> k \<and> k < i + length cs \<and> key_scan (drop (k + 1 - i) cs) (k + 1) False = (ks, e)"
proof (induction cs i plain rule: key_scan.induct)
  case (2 c cs i plain)
  show ?case
  proof (cases "short_option c")
    case True
    then show ?thesis using "2.prems" by (auto split: if_splits prod.splits)
  next
    case False
    then have n: "c \<noteq> ''--''" "\<not> plain" "key_scan cs (i + 1) True = (k # ks, e)"
      using "2.prems" by (auto simp: short_option_def split: if_splits)
    have "i + 1 \<le> k \<and> k < i + 1 + length cs \<and> key_scan (drop (k + 1 - (i + 1)) cs) (k + 1) False = (ks, e)"
      by (rule "2.IH"(2)[OF n(1) False n(2,3)])
    then show ?thesis by (auto simp: Suc_diff_le)
  qed
qed simp

lemma find_next_keys:
  assumes "key_scan (drop (idx + 1) argv) (idx + 1) False = (ks, e)"
  shows "app_arg_find_next argv (CHR 0x00) None idx = (if ks = [] then (False, e) else (True, hd ks))"
  using find_scan_keys[of "drop (idx + 1) argv" "idx + 1" False] assms by (simp add: app_arg_find_next_def)

lemma key_scan_from:
  assumes "key_scan (drop i argv) i plain = (k # ks, e)"
  shows "key_scan (drop (k + 1) argv) (k + 1) False = (ks, e)" "k < length argv"
proof -
  note r = key_scan_rest[OF assms]
  have "i \<le> length argv" using r by (cases "i \<le> length argv") auto
  then show "key_scan (drop (k + 1) argv) (k + 1) False = (ks, e)" "k < length argv" using r by auto
qed

section \<open>What the parser does with them\<close>

fun run_options :: "app_arg list \<Rightarrow> string list \<Rightarrow> nat list \<Rightarrow> (bool \<times> app_arg list) option" where
  "run_options args argv [] = Some (True, args)"
| "run_options args argv (k # ks) =
     (case arg_option args argv k of
        None \<Rightarrow> None
      | Some (ok, args) \<Rightarrow> if ok then run_options args argv ks else Some (False, args))"

lemma parse_options_run:
  assumes "key_scan (drop (k + 1) argv) (k + 1) False = (ks, e)" and "run_options args argv (k # ks) = Some (ok, args')"
  shows "\<exists>n. parse_options args argv k = Some (ok, args', n) \<and> (ok \<longrightarrow> n = e)"
  using assms
proof (induction ks arbitrary: k args)
  case Nil
  then show ?case
    using find_next_keys[OF Nil.prems(1)] by (subst parse_options.simps) (auto split: option.splits if_splits)
next
  case (Cons k' ks)
  note nxt = find_next_keys[OF Cons.prems(1)]
  obtain ok1 args1 where o: "arg_option args argv k = Some (ok1, args1)"
    using Cons.prems(2) by (auto split: option.splits)
  show ?case
  proof (cases ok1)
    case False
    then show ?thesis using o nxt Cons.prems(2) by (subst parse_options.simps) auto
  next
    case True
    have "run_options args1 argv (k' # ks) = Some (ok, args')" using Cons.prems(2) o True by simp
    from Cons.IH[OF key_scan_from(1)[OF Cons.prems(1)] this] show ?thesis
      using o nxt True by (subst parse_options.simps) simp
  qed
qed

text \<open>The part of an entry that does not change.\<close>

definition entry :: "app_arg \<Rightarrow> app_arg" where
  "entry a = a\<lparr>ag_hit := 0, ag_value := None\<rparr>"

lemma entry_fields:
  assumes "entry a = entry b"
  shows "ag_ch a = ag_ch b" "ag_name a = ag_name b" "ag_flags a = ag_flags b" "ag_param a = ag_param b"
    "ag_result a = ag_result b"
  using assms by (cases a; cases b; simp add: entry_def)+

lemma entry_nth:
  assumes "map entry args' = map entry args" and "i < length args"
  shows "entry (args' ! i) = entry (args ! i)"
  using assms by (metis length_map nth_map)

text \<open>The first entry an option stands for, and what it takes.\<close>

definition names_option :: "string \<Rightarrow> app_arg \<Rightarrow> bool" where
  "names_option c a \<longleftrightarrow>
     (if long_option c then take (length (key_of c)) (the (ag_name a)) = key_of c
      else short_option c \<and> key_of c \<noteq> [] \<and> ag_ch a = hd (key_of c))"

definition target :: "app_arg list \<Rightarrow> string \<Rightarrow> nat option" where
  "target args c =
     (let i = length (takeWhile (\<lambda>a. \<not> names_option c a) args) in if i < length args then Some i else None)"

lemma arg_search_target:
  assumes "\<forall>a \<in> set args. ag_name a \<noteq> None"
  shows "arg_search args c (key_of c) i = Some (map_option (\<lambda>j. i + j) (target args c))"
  using assms
proof (induction args arbitrary: i)
  case (Cons a args)
  obtain name where "ag_name a = Some name" using Cons.prems by auto
  then show ?case
    using Cons by (auto simp: target_def names_option_def Let_def)
qed (simp add: target_def)

lemma target_entry: "map entry args' = map entry args \<Longrightarrow> target args' c = target args c"
proof -
  assume eq: "map entry args' = map entry args"
  have names: "names_option c a = names_option c b" if "entry a = entry b" for a b
    using entry_fields[OF that] by (simp add: names_option_def)
  have t: "target args c = target (map entry args) c" for args
  proof -
    have "entry (entry a) = entry a" for a by (simp add: entry_def)
    then have "names_option c (entry a) = names_option c a" for a by (rule names)
    then show ?thesis by (simp add: target_def takeWhile_map o_def)
  qed
  show ?thesis by (simp only: t[of args] t[of args'] eq)
qed

definition takes_value :: "app_arg \<Rightarrow> string option \<Rightarrow> bool" where
  "takes_value a v \<longleftrightarrow>
     (if v = None then has_flag a ARG_PARAM_OPTIONAL \<or> \<not> (ag_param a \<or> ag_result a)
      else ag_param a \<or> ag_result a \<or> has_flag a ARG_PARAM_OPTIONAL)"

definition option_good :: "app_arg list \<Rightarrow> string list \<Rightarrow> nat \<Rightarrow> bool" where
  "option_good args argv j \<longleftrightarrow> key_of (argv ! j) \<noteq> [] \<and>
     (\<exists>i v. target args (argv ! j) = Some i \<and> app_arg_iterator_value argv j = Some v \<and> takes_value (args ! i) v)"

definition occurrences :: "app_arg list \<Rightarrow> string list \<Rightarrow> nat list \<Rightarrow> nat \<Rightarrow> nat" where
  "occurrences args argv ks i = length (filter (\<lambda>j. target args (argv ! j) = Some i) ks)"

text \<open>The value of an entry: that of its last option that has one.\<close>

fun stored_value :: "app_arg list \<Rightarrow> string list \<Rightarrow> nat list \<Rightarrow> nat \<Rightarrow> string option \<Rightarrow> string option" where
  "stored_value args argv [] i v = v"
| "stored_value args argv (k # ks) i v = stored_value args argv ks i
     (case app_arg_iterator_value argv k of
        Some (Some w) \<Rightarrow> if target args (argv ! k) = Some i \<and> ag_result (args ! i) then Some w else v
      | _ \<Rightarrow> v)"

lemma key_of_short: "key_of c \<noteq> [] \<Longrightarrow> short_option c \<and> (long_option c \<or> drop 1 c \<noteq> [])"
  using dashes(2)[of c] by (auto simp: key_of_def split: if_splits)

lemma value_defined: "key_of (argv ! j) \<noteq> [] \<Longrightarrow> app_arg_iterator_value argv j \<noteq> None"
  using key_of_short[of "argv ! j"] by (auto simp: app_arg_iterator_value_def attached_value_def Let_def)

text \<open>One option.\<close>

definition hits_step :: "app_arg list \<Rightarrow> string list \<Rightarrow> nat \<Rightarrow> app_arg list \<Rightarrow> bool" where
  "hits_step args argv k args' \<longleftrightarrow> map entry args' = map entry args \<and>
     (\<forall>i < length args. ag_hit (args' ! i) = ag_hit (args ! i) + occurrences args argv [k] i \<and>
        ag_value (args' ! i) = stored_value args argv [k] i (ag_value (args ! i)))"

lemma has_flag_hit [simp]: "has_flag (a\<lparr>ag_hit := n\<rparr>) fl = has_flag a fl"
  by (simp add: has_flag_def)

lemma arg_option_spec:
  assumes named: "\<forall>a \<in> set args. ag_name a \<noteq> None" and k: "k < length argv"
  obtains ok args' where "arg_option args argv k = Some (ok, args')"
    "ok \<longleftrightarrow> option_good args argv k \<and> (\<forall>i < length args. target args (argv ! k) = Some i \<longrightarrow>
       ag_hit (args ! i) = 0 \<or> has_flag (args ! i) ARG_MULTI)"
    "ok \<longrightarrow> hits_step args argv k args'"
proof (cases "key_of (argv ! k) = []")
  case True
  then show thesis
    using that[of False args] by (simp add: arg_option_def app_arg_iterator_key_def option_good_def)
next
  case False
  then have key: "app_arg_iterator_key argv k = Some (key_of (argv ! k))"
    using k by (simp add: app_arg_iterator_key_def)
  note search = arg_search_target[OF named, of "argv ! k" 0]
  obtain v where v: "app_arg_iterator_value argv k = Some v" using value_defined[OF False] by blast
  show thesis
  proof (cases "target args (argv ! k)")
    case None
    then show thesis
      using that[of False args] key search by (simp add: arg_option_def option_good_def)
  next
    case (Some i)
    have i: "i < length args" using Some by (auto simp: target_def Let_def split: if_splits)
    let ?a = "(args ! i)\<lparr>ag_hit := ag_hit (args ! i) + 1\<rparr>"
    let ?b = "case v of Some w \<Rightarrow> if ag_result (args ! i) then ?a\<lparr>ag_value := Some w\<rparr> else ?a | None \<Rightarrow> ?a"
    let ?ok = "(ag_hit (args ! i) = 0 \<or> has_flag (args ! i) ARG_MULTI) \<and> takes_value (args ! i) v"
    have run: "\<exists>args'. arg_option args argv k = Some (?ok, args') \<and> (?ok \<longrightarrow> args' = args[i := ?b])"
      using key search Some v by (cases v) (auto simp: arg_option_def takes_value_def Let_def)
    have "entry ?b = entry (args ! i)" by (simp add: entry_def split: option.splits)
    then have "map entry (args[i := ?b]) = map entry args" using i by (simp add: map_update list_update_same_conv)
    then have "hits_step args argv k (args[i := ?b])"
      using Some v i by (auto simp: hits_step_def occurrences_def nth_list_update split: option.splits)
    moreover have "?ok \<longleftrightarrow> option_good args argv k \<and> (\<forall>i < length args. target args (argv ! k) = Some i \<longrightarrow>
        ag_hit (args ! i) = 0 \<or> has_flag (args ! i) ARG_MULTI)"
      using Some v i False by (auto simp: option_good_def)
    moreover obtain args' where "arg_option args argv k = Some (?ok, args')" "?ok \<longrightarrow> args' = args[i := ?b]"
      using run by blast
    ultimately show thesis by (intro that[of ?ok args']) auto
  qed
qed

lemma same_entries:
  assumes "map entry args' = map entry args"
  shows "option_good args' argv k = option_good args argv k"
    and "occurrences args' argv ks i = occurrences args argv ks i"
    and "i < length args \<Longrightarrow> stored_value args' argv ks i v = stored_value args argv ks i v"
    and "i < length args \<Longrightarrow> has_flag (args' ! i) fl = has_flag (args ! i) fl"
    and "length args' = length args"
proof -
  note t = target_entry[OF assms]
  have e: "ag_flags (args' ! i) = ag_flags (args ! i)" "ag_param (args' ! i) = ag_param (args ! i)"
    "ag_result (args' ! i) = ag_result (args ! i)" if "i < length args" for i
    using entry_fields(3-5)[OF entry_nth[OF assms that]] .
  show f: "i < length args \<Longrightarrow> has_flag (args' ! i) fl = has_flag (args ! i) fl" for i fl
    by (simp add: has_flag_def e)
  have tv: "takes_value (args' ! i) v = takes_value (args ! i) v" if "i < length args" for i v
    using f[OF that] e[OF that] by (simp add: takes_value_def)
  have "i < length args" if "target args c = Some i" for i c
    using that by (auto simp: target_def Let_def split: if_splits)
  then show "option_good args' argv k = option_good args argv k"
    using tv by (auto simp: option_good_def t)
  show "occurrences args' argv ks i = occurrences args argv ks i" by (simp add: occurrences_def t)
  show "i < length args \<Longrightarrow> stored_value args' argv ks i v = stored_value args argv ks i v"
    by (induction ks arbitrary: v) (simp_all add: t e cong: option.case_cong)
  show "length args' = length args" using assms by (metis length_map)
qed

lemma occurrences_Cons: "occurrences args argv (k # ks) i = occurrences args argv [k] i + occurrences args argv ks i"
  by (simp add: occurrences_def)

lemma stored_value_Cons:
  "stored_value args argv (k # ks) i v = stored_value args argv ks i (stored_value args argv [k] i v)"
  by simp

definition hits_allowed :: "app_arg list \<Rightarrow> string list \<Rightarrow> nat list \<Rightarrow> bool" where
  "hits_allowed args argv ks \<longleftrightarrow> (\<forall>i < length args.
     occurrences args argv ks i = 0 \<or> has_flag (args ! i) ARG_MULTI \<or> ag_hit (args ! i) + occurrences args argv ks i \<le> 1)"

lemma hits_allowed_Cons:
  assumes "hits_step args argv k args'"
  shows "hits_allowed args argv (k # ks) \<longleftrightarrow> hits_allowed args' argv ks \<and>
    (\<forall>i < length args. target args (argv ! k) = Some i \<longrightarrow> ag_hit (args ! i) = 0 \<or> has_flag (args ! i) ARG_MULTI)"
proof -
  have eq: "map entry args' = map entry args" using assms by (simp add: hits_step_def)
  have hit: "ag_hit (args' ! i) = ag_hit (args ! i) + occurrences args argv [k] i" if "i < length args" for i
    using assms that by (simp add: hits_step_def)
  have one: "occurrences args argv [k] i = (if target args (argv ! k) = Some i then 1 else 0)" for i
    by (simp add: occurrences_def)
  show ?thesis
    unfolding hits_allowed_def same_entries(5)[OF eq] same_entries(2)[OF eq] occurrences_Cons[of args argv k ks]
    using hit same_entries(4)[OF eq] by (auto simp: one split: if_splits)
qed

lemma run_options_spec:
  assumes "\<forall>a \<in> set args. ag_name a \<noteq> None" and "\<forall>k \<in> set ks. k < length argv"
  shows "\<exists>ok args'. run_options args argv ks = Some (ok, args') \<and>
    (ok \<longleftrightarrow> (\<forall>k \<in> set ks. option_good args argv k) \<and> hits_allowed args argv ks) \<and>
    (ok \<longrightarrow> map entry args' = map entry args \<and> (\<forall>i < length args.
       ag_hit (args' ! i) = ag_hit (args ! i) + occurrences args argv ks i \<and>
       ag_value (args' ! i) = stored_value args argv ks i (ag_value (args ! i))))"
  using assms
proof (induction ks arbitrary: args)
  case Nil
  then show ?case by (intro exI[of _ True] exI[of _ args]) (simp add: hits_allowed_def occurrences_def)
next
  case (Cons k ks)
  have k: "k < length argv" using Cons.prems(2) by simp
  obtain ok1 args1 where o: "arg_option args argv k = Some (ok1, args1)"
    and ok1: "ok1 \<longleftrightarrow> option_good args argv k \<and> (\<forall>i < length args. target args (argv ! k) = Some i \<longrightarrow>
       ag_hit (args ! i) = 0 \<or> has_flag (args ! i) ARG_MULTI)"
    and st: "ok1 \<longrightarrow> hits_step args argv k args1"
    by (rule arg_option_spec[OF Cons.prems(1) k])
  show ?case
  proof (cases ok1)
    case False
    then have "\<not> (option_good args argv k \<and> hits_allowed args argv (k # ks))"
      using ok1 unfolding hits_allowed_def by (fastforce simp: occurrences_def)
    then show ?thesis using o False by auto
  next
    case True
    then have st: "hits_step args argv k args1" using st by blast
    then have eq: "map entry args1 = map entry args" by (simp add: hits_step_def)
    have named: "\<forall>a \<in> set args1. ag_name a \<noteq> None"
    proof
      fix a assume "a \<in> set args1"
      then have "entry a \<in> entry ` set args" using eq by (metis image_eqI list.set_map)
      then obtain b where "b \<in> set args" "entry a = entry b" by auto
      then show "ag_name a \<noteq> None" using entry_fields(2) Cons.prems(1) by metis
    qed
    have ks: "\<forall>k \<in> set ks. k < length argv" using Cons.prems(2) by simp
    obtain ok args' where r: "run_options args1 argv ks = Some (ok, args')"
      "ok \<longleftrightarrow> (\<forall>k \<in> set ks. option_good args1 argv k) \<and> hits_allowed args1 argv ks"
      "ok \<longrightarrow> map entry args' = map entry args1 \<and> (\<forall>i < length args1.
         ag_hit (args' ! i) = ag_hit (args1 ! i) + occurrences args1 argv ks i \<and>
         ag_value (args' ! i) = stored_value args1 argv ks i (ag_value (args1 ! i)))"
      using Cons.IH[OF named ks] by blast
    have "run_options args argv (k # ks) = Some (ok, args')" using o True r(1) by simp
    moreover have "ok \<longleftrightarrow> (\<forall>k \<in> set (k # ks). option_good args argv k) \<and> hits_allowed args argv (k # ks)"
      using r(2) True ok1 unfolding hits_allowed_Cons[OF st] same_entries(1)[OF eq] by auto
    moreover have "ag_hit (args' ! i) = ag_hit (args ! i) + occurrences args argv (k # ks) i \<and>
        ag_value (args' ! i) = stored_value args argv (k # ks) i (ag_value (args ! i))"
      if "ok" "i < length args" for i
      using that r(3) st same_entries(2,3,5)[OF eq] occurrences_Cons[of args argv k ks i]
      unfolding stored_value_Cons[of args argv k ks] by (simp add: hits_step_def del: stored_value.simps)
    ultimately show ?thesis using r(3) eq by auto
  qed
qed

section \<open>Properties\<close>

text \<open>A command line that fits the table.\<close>

definition accepted :: "app_arg list \<Rightarrow> string list \<Rightarrow> bool \<Rightarrow> bool" where
  "accepted args argv pos \<longleftrightarrow>
     (\<forall>k \<in> set (option_positions argv). option_good args argv k) \<and>
     (\<forall>i < length args.
        (has_flag (args ! i) ARG_MULTI \<or> occurrences args argv (option_positions argv) i \<le> 1) \<and>
        (has_flag (args ! i) ARG_OPTIONAL \<or> 0 < occurrences args argv (option_positions argv) i)) \<and>
     (pos \<or> length argv \<le> options_end argv)"

lemma options_parsed:
  assumes named: "\<forall>a \<in> set args. ag_name a \<noteq> None"
  obtains ok args' n where
    "(case app_arg_find argv (CHR 0x00) None of (m, i) \<Rightarrow>
        if m then parse_options args argv i else Some (True, args, i)) = Some (ok, args', n)"
    "ok \<longleftrightarrow> (\<forall>k \<in> set (option_positions argv). option_good args argv k) \<and> hits_allowed args argv (option_positions argv)"
    "ok \<longrightarrow> n = options_end argv \<and> map entry args' = map entry args \<and> (\<forall>i < length args.
       ag_hit (args' ! i) = ag_hit (args ! i) + occurrences args argv (option_positions argv) i \<and>
       ag_value (args' ! i) = stored_value args argv (option_positions argv) i (ag_value (args ! i)))"
proof -
  obtain ks e where keys: "key_scan (drop 1 argv) 1 False = (ks, e)" by fastforce
  then have pos: "option_positions argv = ks" "options_end argv = e"
    by (simp_all add: option_positions_def options_end_def drop_Suc)
  have find: "app_arg_find argv (CHR 0x00) None = (if ks = [] then (False, e) else (True, hd ks))"
    using find_next_keys[of 0 argv ks e] keys by (simp add: app_arg_find_def)
  have bound: "\<forall>k \<in> set ks. k < length argv"
  proof -
    have "\<forall>k \<in> set ks. k < length argv" if "key_scan (drop i argv) i plain = (ks, e)" for i plain ks
      using that
    proof (induction ks arbitrary: i plain)
      case (Cons k ks)
      show ?case using key_scan_from[OF Cons.prems] Cons.IH by auto
    qed simp
    then show ?thesis using keys by blast
  qed
  obtain ok args' where r: "run_options args argv ks = Some (ok, args')"
    "ok \<longleftrightarrow> (\<forall>k \<in> set ks. option_good args argv k) \<and> hits_allowed args argv ks"
    "ok \<longrightarrow> map entry args' = map entry args \<and> (\<forall>i < length args.
       ag_hit (args' ! i) = ag_hit (args ! i) + occurrences args argv ks i \<and>
       ag_value (args' ! i) = stored_value args argv ks i (ag_value (args ! i)))"
    using run_options_spec[OF named bound] by blast
  show thesis
  proof (cases ks)
    case Nil
    show thesis
      by (rule that[of True args e])
        (use find Nil pos in \<open>simp_all add: hits_allowed_def occurrences_def\<close>)
  next
    case (Cons k ks')
    note k = key_scan_from(1)[OF keys[unfolded Cons]]
    obtain n where "parse_options args argv k = Some (ok, args', n)" "ok \<longrightarrow> n = e"
      using parse_options_run[OF k r(1)[unfolded Cons]] by blast
    then show thesis by (intro that[of ok args' n]) (use find Cons r(2,3) pos in simp_all)
  qed
qed

text \<open>
  C22: When every entry of the table has a long name, parsing a command line always returns, and it
  succeeds exactly when the command line fits the table: every option up to the end of the options
  stands for an entry (the first whose name it begins, or whose letter it is) and comes with a value
  just as the entry says; no entry is named more often, and none less often, than it allows; and
  nothing is left behind the options unless the caller asks for it. Then each entry counts its options
  and holds the value of the last one that has one.
\<close>

theorem arguments_parsed:
  assumes "\<forall>a \<in> set args. ag_name a \<noteq> None"
  shows "\<exists>args' n. app_arg_parse args argv pos = Some (accepted args argv pos, args', n) \<and>
    (accepted args argv pos \<longrightarrow> n = options_end argv \<and> (\<forall>i < length args.
       ag_hit (args' ! i) = occurrences args argv (option_positions argv) i \<and>
       ag_value (args' ! i) = stored_value args argv (option_positions argv) i (ag_value (args ! i))))"
proof -
  let ?args = "map (\<lambda>a. a\<lparr>ag_hit := 0\<rparr>) args" and ?ks = "option_positions argv"
  have eq: "map entry ?args = map entry args" by (simp add: entry_def)
  note same = same_entries[OF eq]
  have named: "\<forall>a \<in> set ?args. ag_name a \<noteq> None" using assms by auto
  obtain ok args' n where p: "(case app_arg_find argv (CHR 0x00) None of (m, i) \<Rightarrow>
        if m then parse_options ?args argv i else Some (True, ?args, i)) = Some (ok, args', n)"
    and ok: "ok \<longleftrightarrow> (\<forall>k \<in> set ?ks. option_good ?args argv k) \<and> hits_allowed ?args argv ?ks"
    and eff: "ok \<longrightarrow> n = options_end argv \<and> map entry args' = map entry ?args \<and> (\<forall>i < length ?args.
       ag_hit (args' ! i) = ag_hit (?args ! i) + occurrences ?args argv ?ks i \<and>
       ag_value (args' ! i) = stored_value ?args argv ?ks i (ag_value (?args ! i)))"
    by (rule options_parsed[OF named, of argv])
  let ?req = "\<forall>a \<in> set args'. ag_hit a > 0 \<or> has_flag a ARG_OPTIONAL"
  have run: "app_arg_parse args argv pos = Some (ok \<and> ?req \<and> (pos \<or> length argv \<le> n), args', n)"
    using p by (auto simp: app_arg_parse_def Let_def split: prod.splits if_splits)
  have ok': "ok \<longleftrightarrow> (\<forall>k \<in> set ?ks. option_good args argv k) \<and>
      (\<forall>i < length args. has_flag (args ! i) ARG_MULTI \<or> occurrences args argv ?ks i \<le> 1)"
    using ok same(1,2) by (auto simp: hits_allowed_def has_flag_def)
  have n: "ok \<Longrightarrow> n = options_end argv" using eff by blast
  have len: "ok \<Longrightarrow> length args' = length args" using eff by (metis length_map)
  have e: "ag_hit (args' ! i) = occurrences args argv ?ks i" "has_flag (args' ! i) fl = has_flag (args ! i) fl"
    "ag_value (args' ! i) = stored_value args argv ?ks i (ag_value (args ! i))"
    if "ok" "i < length args" for i fl
    using eff that same(2,3) same_entries(4,5)[of args' args] eq by auto
  have "accepted args argv pos \<longleftrightarrow> ok \<and> ?req \<and> (pos \<or> length argv \<le> n)"
  proof (cases ok)
    case True
    have "?req \<longleftrightarrow> (\<forall>i < length args. ag_hit (args' ! i) > 0 \<or> has_flag (args' ! i) ARG_OPTIONAL)"
      using len[OF True] by (simp add: all_set_conv_all_nth)
    then show ?thesis using True ok' e n by (auto simp: accepted_def)
  qed (use ok' in \<open>auto simp: accepted_def\<close>)
  then show ?thesis using run e n ok' by (auto simp: accepted_def)
qed

definition example_table :: "app_arg list" where
  "example_table =
     [\<lparr>ag_ch = CHR ''v'', ag_name = Some ''verbose'', ag_flags = 3, ag_param = False, ag_result = False,
        ag_hit = 0, ag_value = None\<rparr>,
      \<lparr>ag_ch = CHR ''c'', ag_name = Some ''config'', ag_flags = 0, ag_param = True, ag_result = True,
        ag_hit = 0, ag_value = None\<rparr>]"

abbreviation example_line :: "string list" where
  "example_line \<equiv> [''iot'', ''-v'', ''--conf=a'', ''-v'']"

lemma example_line_options:
  "option_positions example_line = [1, 2, 3]" "options_end example_line = 4"
  "map (\<lambda>k. target example_table (example_line ! k)) [1, 2, 3] = [Some 0, Some 1, Some 0]"
  "map (app_arg_iterator_value example_line) [1, 2, 3] = [Some None, Some (Some ''a''), Some None]"
  by (simp_all add: option_positions_def options_end_def short_option_def long_option_def target_def
      names_option_def key_of_def example_table_def app_arg_iterator_value_def attached_value_def)

theorem arguments_parsed_witness:
  "\<exists>args' n. app_arg_parse example_table example_line False = Some (True, args', n) \<and>
    ag_hit (args' ! 0) = 2 \<and> ag_value (args' ! 1) = Some ''a''"
proof -
  have len: "length example_table = 2" by (simp add: example_table_def)
  have t: "target example_table ''-v'' = Some 0" "target example_table ''--conf=a'' = Some 1"
    "app_arg_iterator_value example_line 1 = Some None" "app_arg_iterator_value example_line (Suc 0) = Some None"
    "app_arg_iterator_value example_line 2 = Some (Some ''a'')" "app_arg_iterator_value example_line 3 = Some None"
    using example_line_options(3,4) by simp_all
  have "option_good example_table example_line 2"
    unfolding option_good_def
    by (intro conjI exI[of _ 1] exI[of _ "Some ''a''"])
      (use t in \<open>simp_all add: key_of_def long_option_def takes_value_def example_table_def\<close>)
  moreover have "option_good example_table example_line k" if "k \<in> {1, 3}" for k
    using that t by (auto simp: option_good_def key_of_def short_option_def long_option_def takes_value_def
        example_table_def has_flag_def)
  ultimately have good: "\<forall>k \<in> {1, 2, 3}. option_good example_table example_line k" by blast
  have occ: "occurrences example_table example_line [1, 2, 3] 0 = 2"
    "occurrences example_table example_line [1, 2, 3] 1 = 1"
    using t by (simp_all add: occurrences_def)
  have fl: "has_flag (example_table ! 0) ARG_MULTI" "has_flag (example_table ! 0) ARG_OPTIONAL"
    by (simp_all add: has_flag_def example_table_def)
  have acc: "accepted example_table example_line False"
    unfolding accepted_def example_line_options(1,2) len
    using good occ fl by (auto simp: less_2_cases_iff)
  have v: "stored_value example_table example_line [1, 2, 3] 1 (ag_value (example_table ! 1)) = Some ''a''"
    using t by (simp add: example_table_def)
  have named: "\<forall>a \<in> set example_table. ag_name a \<noteq> None" by (simp add: example_table_def)
  obtain args' n where r: "app_arg_parse example_table example_line False = Some (True, args', n)"
    "\<forall>i < 2. ag_hit (args' ! i) = occurrences example_table example_line [1, 2, 3] i \<and>
       ag_value (args' ! i) = stored_value example_table example_line [1, 2, 3] i (ag_value (example_table ! i))"
    using arguments_parsed[OF named, of example_line False]
    unfolding example_line_options(1) len eqTrueI[OF acc] by blast
  have "ag_hit (args' ! 0) = 2" using r(2) occ(1) by simp
  moreover have "ag_value (args' ! 1) = Some ''a''" using r(2) v by (metis one_less_numeral_iff semiring_norm(76))
  ultimately show ?thesis using r(1) by blast
qed

end
