(* ===== verification/Encoder.thy ===== *)
theory Encoder
  imports Config Command
begin

text \<open>
  The JSON encoder of \<open>src/src/utilities/app_json_encode.c\<close>, as it is built for the JSMN parser
  (the branch that composes the text itself; the other two branches hand the work to an external
  library). An encoder appends to a character buffer, either one the caller gave or one it grows
  with \<open>app_json_realloc\<close>, and keeps the open arrays and objects in the bits of one integer.

  The buffer is a block of bytes; a write outside it is undefined. The pointer \<open>cur\<close> is an offset
  into the block, or \<open>None\<close> for the null pointer, and pointer differences are taken on addresses,
  as compilers do (the code subtracts pointers that may be null). A string is the list of its
  characters, without the terminating null. Every function first refuses a null encoder with
  \<open>STATUS_BAD_PARAMETER\<close>; that case is left out here. What the reallocation function answers is
  kept with the encoder: for each request in turn an address (zero for failure) and the contents of
  the bytes that are new.
\<close>

unbundle bit_operations_syntax

section \<open>The encoder\<close>

record app_json_encoder =
  enc_buf :: u64
  enc_cur :: "nat option"
  enc_flags :: u32
  enc_len :: u64
  enc_structs :: u64
  enc_block :: string
  enc_heap :: "(u64 \<times> (nat \<Rightarrow> char)) list"

definition APP_JSON_TYPE_ARRAY :: u64 where "APP_JSON_TYPE_ARRAY = 1"
definition APP_JSON_TYPE_OBJECT :: u64 where "APP_JSON_TYPE_OBJECT = 2"
definition APP_JSON_FLAG_EXPAND :: u32 where "APP_JSON_FLAG_EXPAND = 1"
definition APP_JSON_FLAG_DYNAMIC :: u32 where "APP_JSON_FLAG_DYNAMIC = 2"
definition APP_JSON_INDENT_OFFSET :: nat where "APP_JSON_INDENT_OFFSET = 2"

definition JSON_STRUCT_BITS :: nat where "JSON_STRUCT_BITS = 3"
definition JSON_MAX_DEPTH :: nat where "JSON_MAX_DEPTH = 8 * 8 div JSON_STRUCT_BITS"
definition JSON_CHARS_START :: string where "JSON_CHARS_START = ''[{{''"
definition JSON_CHARS_END :: string where "JSON_CHARS_END = '']}}''"

definition encoder_indent :: "app_json_encoder \<Rightarrow> u32" where
  "encoder_indent e = drop_bit APP_JSON_INDENT_OFFSET (enc_flags e)"

definition encoder_expand :: "app_json_encoder \<Rightarrow> bool" where
  "encoder_expand e \<longleftrightarrow> enc_flags e AND APP_JSON_FLAG_EXPAND \<noteq> 0"

definition encoder_dynamic :: "app_json_encoder \<Rightarrow> bool" where
  "encoder_dynamic e \<longleftrightarrow> enc_flags e AND APP_JSON_FLAG_DYNAMIC \<noteq> 0"

text \<open>The size of the structure at the head of the caller's buffer.\<close>

definition ENCODER_SIZE :: nat where "ENCODER_SIZE = 40"

definition app_json_encode_initialize ::
  "(u64 \<times> string) option \<Rightarrow> u64 \<Rightarrow> u32 \<Rightarrow> (u64 \<times> (nat \<Rightarrow> char)) list \<Rightarrow> app_json_encoder option" where
  "app_json_encode_initialize buf n f answers =
     (let f = (if buf = None then f OR APP_JSON_FLAG_DYNAMIC else f)
      in if f AND APP_JSON_FLAG_DYNAMIC \<noteq> 0
         then (case answers of
                 [] \<Rightarrow> None
               | (a, _) # r \<Rightarrow> if a = 0 then None
                  else Some \<lparr>enc_buf = 0, enc_cur = None, enc_flags = f, enc_len = 0,
                    enc_structs = 0, enc_block = [], enc_heap = r\<rparr>)
         else (case buf of
                 None \<Rightarrow> None
               | Some (a, b) \<Rightarrow> if n \<ge> of_nat ENCODER_SIZE + 1
                  then Some \<lparr>enc_buf = a + of_nat ENCODER_SIZE, enc_cur = None, enc_flags = f,
                    enc_len = n - of_nat ENCODER_SIZE, enc_structs = 0,
                    enc_block = drop ENCODER_SIZE b, enc_heap = answers\<rparr>
                  else None))"

section \<open>Writing\<close>

definition store :: "nat \<Rightarrow> char \<Rightarrow> app_json_encoder \<Rightarrow> app_json_encoder option" where
  "store n c e = (if n < length (enc_block e) then Some (e\<lparr>enc_block := (enc_block e)[n := c]\<rparr>) else None)"

text \<open>\<open>*encoder->cur++ = c\<close>\<close>

definition emit :: "char \<Rightarrow> app_json_encoder \<Rightarrow> app_json_encoder option" where
  "emit c e = do { n \<leftarrow> enc_cur e; e \<leftarrow> store n c e; Some (e\<lparr>enc_cur := Some (Suc n)\<rparr>) }"

primrec emits :: "string \<Rightarrow> app_json_encoder \<Rightarrow> app_json_encoder option" where
  "emits [] e = Some e"
| "emits (c # s) e = do { e \<leftarrow> emit c e; emits s e }"

text \<open>\<open>*(encoder->cur - 1)\<close>\<close>

definition char_before :: "app_json_encoder \<Rightarrow> char option" where
  "char_before e =
     (case enc_cur e of Some (Suc n) \<Rightarrow> if n < length (enc_block e) then Some (enc_block e ! n) else None
      | _ \<Rightarrow> None)"

text \<open>A copy of bytes to \<open>cur\<close>, which is then moved by \<open>n\<close>.\<close>

definition copy_out :: "string \<Rightarrow> nat \<Rightarrow> app_json_encoder \<Rightarrow> app_json_encoder option" where
  "copy_out s n e = do { e' \<leftarrow> emits s e; Some (e'\<lparr>enc_cur := map_option (\<lambda>c. c + n) (enc_cur e)\<rparr>) }"

definition os_strncpy :: "string \<Rightarrow> nat \<Rightarrow> string" where
  "os_strncpy s n = take n (s @ replicate n (CHR 0x00))"

text \<open>
  \<open>app_json_realloc (encoder->buf, n)\<close>: the new address, and the encoder whose block has been moved
  there when the request is met.
\<close>

definition resize :: "nat \<Rightarrow> (nat \<Rightarrow> char) \<Rightarrow> string \<Rightarrow> string" where
  "resize n g b = map (\<lambda>i. if i < length b then b ! i else g i) [0..<n]"

definition app_json_realloc :: "u64 \<Rightarrow> app_json_encoder \<Rightarrow> u64 \<times> app_json_encoder" where
  "app_json_realloc n e =
     (case enc_heap e of
        [] \<Rightarrow> (0, e)
      | (a, g) # r \<Rightarrow>
          (a, if a = 0 then e\<lparr>enc_heap := r\<rparr>
              else e\<lparr>enc_heap := r, enc_block := resize (unat n) g (enc_block e)\<rparr>))"

section \<open>Strings\<close>

definition needs_escape :: "char \<Rightarrow> bool" where
  "needs_escape c \<longleftrightarrow> c \<in> {CHR 0x22, CHR 0x5C, CHR 0x08, CHR 0x0C, CHR 0x0A, CHR 0x0D, CHR 0x09}"

definition escape_letter :: "char \<Rightarrow> char" where
  "escape_letter c =
     (if c = CHR 0x08 then CHR ''b'' else if c = CHR 0x0C then CHR ''f''
      else if c = CHR 0x0A then CHR ''n'' else if c = CHR 0x0D then CHR ''r''
      else if c = CHR 0x09 then CHR ''t'' else c)"

primrec app_json_encode_strlen :: "string \<Rightarrow> nat" where
  "app_json_encode_strlen [] = 0"
| "app_json_encode_strlen (c # s) = (if needs_escape c then 1 else 0) + 1 + app_json_encode_strlen s"

text \<open>
  The bytes \<open>app_json_encode_strncpy\<close> writes from its destination on. A character that needs an
  escape and finds a single byte left is neither written nor skipped: the loop then never ends,
  which is \<open>None\<close>. The padding loop does not move its pointer, so it writes one byte only.
\<close>

partial_function (option) strncpy_loop :: "string \<Rightarrow> nat \<Rightarrow> bool \<Rightarrow> nat \<Rightarrow> string \<Rightarrow> (nat \<times> string) option" where
  [code]: "strncpy_loop src num skip i out =
     (if i < num \<and> src \<noteq> []
      then let c = hd src;
               backslash = needs_escape c \<and> i + 1 < num;
               skip = (skip \<or> needs_escape c \<and> \<not> i + 1 < num);
               out = (if backslash then out @ [CHR 0x5C] else out);
               i = (if backslash then i + 1 else i)
           in if \<not> skip then strncpy_loop (tl src) num skip (i + 1) (out @ [escape_letter c])
              else strncpy_loop src num skip i out
      else Some (i, out))"

definition app_json_encode_strncpy :: "string \<Rightarrow> nat \<Rightarrow> string option" where
  "app_json_encode_strncpy src num = do {
     (i, out) \<leftarrow> strncpy_loop src num False 0 [];
     Some (if i < num then out @ [CHR 0x00] else out) }"

section \<open>Levels\<close>

text \<open>\<open>app_json_encode_depth\<close>: how many bits are set.\<close>

function depth_loop :: "u64 \<Rightarrow> nat \<Rightarrow> nat" where
  "depth_loop j i =
     (if j \<noteq> 0 then depth_loop (drop_bit 1 j) (if j AND 1 \<noteq> 0 then i + 1 else i) else i)"
  by pat_completeness auto
termination
proof (relation "measure (\<lambda>(j, _). unat j)", goal_cases)
  case (2 j i)
  then have "0 < unat j" by (simp add: unat_gt_0)
  then have "unat j div 2 < unat j" by simp
  then show ?case by (simp add: unat_drop_bit_eq drop_bit_Suc unat_div)
qed simp

declare depth_loop.simps [simp del]

definition app_json_encode_depth :: "app_json_encoder \<Rightarrow> nat" where
  "app_json_encode_depth e = depth_loop (enc_structs e) 0"

text \<open>\<open>(size_t)(encoder->cur - encoder->buf)\<close>\<close>

definition offset :: "app_json_encoder \<Rightarrow> u64" where
  "offset e = (case enc_cur e of None \<Rightarrow> - enc_buf e | Some n \<Rightarrow> of_nat n)"

text \<open>Something precedes the new item on its level.\<close>

definition needs_comma :: "app_json_encoder \<Rightarrow> bool option" where
  "needs_comma e =
     (case enc_cur e of
        Some (Suc n) \<Rightarrow> do { c \<leftarrow> char_before e; Some (c \<notin> set JSON_CHARS_START) }
      | _ \<Rightarrow> Some False)"

text \<open>The room a key, its punctuation and the closing of all levels take.\<close>

definition extra_space :: "app_json_encoder \<Rightarrow> bool \<Rightarrow> bool \<Rightarrow> u64" where
  "extra_space e key comma =
     (let ind = encoder_indent e;
          depth = app_json_encode_depth e;
          s = (if key then 3 else 0);
          s = (if ind \<noteq> 0 then s + sum_list (map (\<lambda>i. ucast (ind * of_nat i + 1)) [0..<depth]) else s);
          s = (if comma then s + 1 + (if ind = 0 \<and> encoder_expand e then 1 else 0) else s);
          s = (if encoder_expand e then s + 1 else s)
      in if ind \<noteq> 0 then s + ucast (ind * 2 * of_nat depth + 1) else s)"

text \<open>
  The space that is left for \<open>need\<close> more bytes, after a growing encoder has asked for more. A null
  \<open>cur\<close> is only replaced after the space has been computed.
\<close>

definition make_room :: "app_json_encoder \<Rightarrow> u64 \<Rightarrow> (u64 \<times> app_json_encoder) option" where
  "make_room e need =
     (let space = enc_len e - offset e
      in if encoder_dynamic e
         then let new_space = enc_len e + need;
                  (p, e') = app_json_realloc (new_space + 1) e
              in if p \<noteq> 0
                 then if enc_cur e = None \<and> enc_buf e \<noteq> 0 then None
                      else Some (new_space, e'\<lparr>enc_cur := Some (case enc_cur e of None \<Rightarrow> 0 | Some n \<Rightarrow> n),
                             enc_buf := p, enc_len := new_space\<rparr>)
                 else Some (space, e')
         else Some (space, if enc_cur e = None then e\<lparr>enc_cur := Some 0\<rparr> else e))"

text \<open>The separator, the new line, the indentation and the key.\<close>

definition write_key ::
  "app_json_encoder \<Rightarrow> string option \<Rightarrow> bool \<Rightarrow> app_json_encoder option" where
  "write_key e key comma =
     (let ind = encoder_indent e; depth = app_json_encode_depth e; expand = encoder_expand e
      in do {
        e \<leftarrow> (if comma
             then do { e \<leftarrow> emit (CHR '','') e;
                       if ind = 0 \<and> expand then emit (CHR '' '') e else Some e }
             else Some e);
        e \<leftarrow> (if ind \<noteq> 0
             then do { e \<leftarrow> (if depth > 0 then emit (CHR 0x0A) e else Some e);
                       emits (replicate (unat (ind * of_nat depth)) (CHR '' '')) e }
             else Some e);
        case key of
          None \<Rightarrow> Some e
        | Some k \<Rightarrow> do {
            e \<leftarrow> emit (CHR 0x22) e;
            s \<leftarrow> app_json_encode_strncpy k (app_json_encode_strlen k);
            e \<leftarrow> copy_out s (app_json_encode_strlen k) e;
            e \<leftarrow> copy_out (os_strncpy [CHR 0x22, CHR '':''] 2) 2 e;
            if expand then emit (CHR '' '') e else Some e } })"

definition encode_item ::
  "app_json_encoder \<Rightarrow> string option \<Rightarrow> u64 \<Rightarrow> (iot_status \<times> app_json_encoder) option" where
  "encode_item e key value_len = do {
     comma \<leftarrow> needs_comma e;
     let key_len = (case key of None \<Rightarrow> 0 | Some k \<Rightarrow> of_nat (app_json_encode_strlen k));
     let need = key_len + value_len + extra_space e (key \<noteq> None) comma;
     (space, e) \<leftarrow> make_room e need;
     if need \<le> space
     then do { e \<leftarrow> write_key e key comma; Some (STATUS_SUCCESS, e) }
     else Some (STATUS_NO_MEMORY, e) }"

text \<open>The opening brackets of \<open>s\<close>, from the highest bit down.\<close>

definition start_chars :: "u64 \<Rightarrow> string" where
  "start_chars s = concat (map (\<lambda>i. if bit s i then [JSON_CHARS_START ! i] else []) (rev [0..<JSON_STRUCT_BITS]))"

text \<open>
  The two functions call each other: a key given outside an object first opens one. The middle
  component is \<open>*added_parent\<close>.
\<close>

function app_json_encode_key ::
    "app_json_encoder \<Rightarrow> string option \<Rightarrow> u64 \<Rightarrow> (iot_status \<times> bool \<times> app_json_encoder) option"
  and app_json_encode_struct_start ::
    "app_json_encoder \<Rightarrow> string option \<Rightarrow> u64 \<Rightarrow> (iot_status \<times> app_json_encoder) option"
where
  "app_json_encode_key e key value_len =
     (if key \<noteq> None \<and> enc_structs e AND APP_JSON_TYPE_OBJECT = 0
      then let inner = (enc_structs e \<noteq> 0)
           in do {
             (r, e) \<leftarrow> app_json_encode_struct_start e None
                         (if inner then APP_JSON_TYPE_OBJECT * 2 else APP_JSON_TYPE_OBJECT);
             if r = STATUS_SUCCESS
             then do { (r, e) \<leftarrow> encode_item e key value_len; Some (r, inner, e) }
             else Some (r, inner, e) }
      else do {
        (r, e) \<leftarrow> encode_item e
          (if key = None \<and> enc_structs e AND APP_JSON_TYPE_OBJECT \<noteq> 0 then Some '''' else key) value_len;
        Some (r, False, e) })"
| "app_json_encode_struct_start e key s =
     (if app_json_encode_depth e < JSON_MAX_DEPTH
      then do {
        (r, added, e) \<leftarrow> app_json_encode_key e key (ucast (encoder_indent e + 2));
        if r = STATUS_SUCCESS
        then do {
          e \<leftarrow> emits (start_chars s) e;
          Some (r, e\<lparr>enc_structs :=
            (if added then enc_structs e else push_bit JSON_STRUCT_BITS (enc_structs e)) OR s\<rparr>) }
        else Some (r, e) }
      else Some (STATUS_FULL, e))"
  by pat_completeness auto
termination
  by (relation "measure (\<lambda>x. case x of
        Inl (e, key, n) \<Rightarrow> if key = None then 0 else 2
      | Inr (e, key, s) \<Rightarrow> if key = None then 1 else (3::nat))") auto

declare app_json_encode_key.simps [simp del] app_json_encode_struct_start.simps [simp del]

section \<open>Closing\<close>

text \<open>A new line and spaces, unless the level is empty: \<open>j\<close> is the number of spaces.\<close>

definition write_break :: "u32 \<Rightarrow> app_json_encoder \<Rightarrow> (bool \<times> app_json_encoder) option" where
  "write_break j e = do {
     c \<leftarrow> char_before e;
     if c \<noteq> JSON_CHARS_START ! 0 \<and> c \<noteq> JSON_CHARS_START ! 1
     then do { e \<leftarrow> emits (CHR 0x0A # replicate (unat j) (CHR '' '')) e; Some (True, e) }
     else Some (False, e) }"

text \<open>
  The loop of \<open>app_json_encode_struct_end\<close> over the bits of the innermost level. A request that
  failed leaves the later closing characters unwritten.
\<close>

primrec end_loop ::
  "nat list \<Rightarrow> u64 \<Rightarrow> iot_status \<Rightarrow> u32 \<Rightarrow> u64 \<Rightarrow> app_json_encoder \<Rightarrow> (iot_status \<times> app_json_encoder) option" where
  "end_loop [] t r depth space e = Some (r, e)"
| "end_loop (i # is) t r depth space e =
     (if bit t i
      then let ind = encoder_indent e;
               new_space = ucast (ind * depth + 2);
               (r, space, e) =
                 (if new_space > space
                  then if encoder_dynamic e
                       then let (p, e') = app_json_realloc (enc_len e + new_space) e
                            in if p \<noteq> 0
                               then (r, space + new_space,
                                     e'\<lparr>enc_buf := p, enc_len := enc_len e + new_space\<rparr>)
                               else (STATUS_NO_MEMORY, space, e')
                       else (STATUS_NO_MEMORY, space, e)
                  else (r, space, e))
           in if r = STATUS_SUCCESS
              then do {
                (broken, e) \<leftarrow> (if ind \<noteq> 0 then write_break (ind * depth) e else Some (False, e));
                e \<leftarrow> emit (JSON_CHARS_END ! i) e;
                end_loop is t r (if ind \<noteq> 0 then depth - 1 else depth)
                  ((if broken then space - ucast (ind + 1) else space) - 1) e }
              else end_loop is t r depth space e
      else end_loop is t r depth space e)"

definition app_json_encode_struct_end ::
  "app_json_encoder \<Rightarrow> u64 \<Rightarrow> (iot_status \<times> app_json_encoder) option" where
  "app_json_encode_struct_end e s =
     (if enc_structs e AND s \<noteq> 0
      then do {
        (r, e) \<leftarrow> end_loop [0..<JSON_STRUCT_BITS] (enc_structs e) STATUS_SUCCESS
          (of_nat (app_json_encode_depth e) - 1) (enc_len e - offset e) e;
        Some (r, e\<lparr>enc_structs := drop_bit JSON_STRUCT_BITS (enc_structs e)\<rparr>) }
      else Some (STATUS_BAD_REQUEST, e))"

text \<open>The end of a scalar that was given a key outside an object.\<close>

definition end_added :: "bool \<Rightarrow> app_json_encoder \<Rightarrow> (iot_status \<times> app_json_encoder) option" where
  "end_added added e =
     (if added then app_json_encode_struct_end e (APP_JSON_TYPE_OBJECT * 2) else Some (STATUS_SUCCESS, e))"

section \<open>Items\<close>

definition app_json_encode_array_end :: "app_json_encoder \<Rightarrow> (iot_status \<times> app_json_encoder) option" where
  "app_json_encode_array_end e = app_json_encode_struct_end e APP_JSON_TYPE_ARRAY"

definition app_json_encode_object_end :: "app_json_encoder \<Rightarrow> (iot_status \<times> app_json_encoder) option" where
  "app_json_encode_object_end e = app_json_encode_struct_end e APP_JSON_TYPE_OBJECT"

definition app_json_encode_array_start ::
  "app_json_encoder \<Rightarrow> string option \<Rightarrow> (iot_status \<times> app_json_encoder) option" where
  "app_json_encode_array_start e key = app_json_encode_struct_start e key APP_JSON_TYPE_ARRAY"

definition app_json_encode_object_start ::
  "app_json_encoder \<Rightarrow> string option \<Rightarrow> (iot_status \<times> app_json_encoder) option" where
  "app_json_encode_object_start e key = app_json_encode_struct_start e key APP_JSON_TYPE_OBJECT"

definition app_json_encode_bool ::
  "app_json_encoder \<Rightarrow> string option \<Rightarrow> bool \<Rightarrow> (iot_status \<times> app_json_encoder) option" where
  "app_json_encode_bool e key v =
     (if key = None \<and> enc_structs e = 0 then Some (STATUS_BAD_REQUEST, e)
      else let value_len = (if v then 4 else 5)
           in do {
             (r, added, e) \<leftarrow> app_json_encode_key e key (of_nat value_len + 2);
             if r = STATUS_SUCCESS
             then do {
               e \<leftarrow> copy_out (os_strncpy (if v then ''true'' else ''false'') value_len) value_len e;
               end_added added e }
             else Some (r, e) })"

definition app_json_encode_string ::
  "app_json_encoder \<Rightarrow> string option \<Rightarrow> string option \<Rightarrow> (iot_status \<times> app_json_encoder) option" where
  "app_json_encode_string e key v =
     (if key = None \<and> enc_structs e = 0 then Some (STATUS_BAD_REQUEST, e)
      else let s = (case v of None \<Rightarrow> '''' | Some s \<Rightarrow> s);
               value_len = app_json_encode_strlen s
           in do {
             (r, added, e) \<leftarrow> app_json_encode_key e key (of_nat value_len + 2);
             if r = STATUS_SUCCESS
             then do {
               e \<leftarrow> emit (CHR 0x22) e;
               t \<leftarrow> app_json_encode_strncpy s value_len;
               e \<leftarrow> copy_out t value_len e;
               e \<leftarrow> emit (CHR 0x22) e;
               end_added added e }
             else Some (r, e) })"

function intlen_loop :: "u64 \<Rightarrow> nat \<Rightarrow> nat" where
  "intlen_loop i n = (if i > 0 then intlen_loop (i div 10) (n + 1) else n)"
  by pat_completeness auto
termination
  by (relation "measure (\<lambda>(i, _). unat i)") (auto simp: unat_div word_less_nat_alt)

declare intlen_loop.simps [simp del]

definition app_json_encode_intlen :: "u64 \<Rightarrow> bool \<Rightarrow> nat" where
  "app_json_encode_intlen i neg = intlen_loop i (if neg \<or> i = 0 then 1 else 0)"

text \<open>The digits are written from the last one back, while \<open>cur\<close> moves forward.\<close>

function digits_loop :: "u64 \<Rightarrow> nat \<Rightarrow> app_json_encoder \<Rightarrow> app_json_encoder option" where
  "digits_loop v dest e =
     (if v > 0
      then do {
        e \<leftarrow> store dest (char_of (unat (v mod 10) + 48)) e;
        digits_loop (v div 10) (dest - 1) (e\<lparr>enc_cur := map_option Suc (enc_cur e)\<rparr>) }
      else Some e)"
  by pat_completeness auto
termination
  by (relation "measure (\<lambda>(v, _, _). unat v)") (auto simp: unat_div word_less_nat_alt)

declare digits_loop.simps [simp del]

text \<open>The smallest value has no negation in 64 bits.\<close>

definition app_json_encode_integer ::
  "app_json_encoder \<Rightarrow> string option \<Rightarrow> int \<Rightarrow> (iot_status \<times> app_json_encoder) option" where
  "app_json_encode_integer e key v =
     (if key = None \<and> enc_structs e = 0 then Some (STATUS_BAD_REQUEST, e)
      else if v = - (2 ^ 63) then None
      else let pos_value = word_of_int \<bar>v\<bar>;
               value_len = app_json_encode_intlen pos_value (v < 0)
           in do {
             (r, added, e) \<leftarrow> app_json_encode_key e key (of_nat value_len);
             if r = STATUS_SUCCESS
             then do {
               n \<leftarrow> enc_cur e;
               let dest = n + value_len - 1;
               e \<leftarrow> (if v < 0 then emit (CHR ''-'') e else if v = 0 then emit (CHR ''0'') e else Some e);
               e \<leftarrow> digits_loop pos_value dest e;
               end_added added e }
             else Some (r, e) })"

section \<open>Real numbers\<close>

text \<open>
  The product with ten, rounded to the 53 bits of a \<open>double\<close>: a fraction is a multiple of the
  smallest number there is, so nothing is lost at the low end.
\<close>

fun times_ten :: "fp \<Rightarrow> fp" where
  "times_ten (FFin s m e) =
     (let k = bit_length (10 * m) - 53 in FFin s (round_half_even (10 * m) k) (e + int k))"
| "times_ten x = x"

definition JSON_ENCODE_MAX_DECIMALS :: nat where "JSON_ENCODE_MAX_DECIMALS = 6"

definition fp_zero :: fp where "fp_zero = FFin False 0 0"

fun fp_negate :: "fp \<Rightarrow> fp" where
  "fp_negate (FFin s m e) = FFin (\<not> s) m e"
| "fp_negate (FInf s) = FInf (\<not> s)"
| "fp_negate FNaN = FNaN"

text \<open>At least one digit, and no more once nothing is left; \<open>Suc k\<close> digits at most.\<close>

primrec fraction_loop :: "nat \<Rightarrow> fp \<Rightarrow> app_json_encoder \<Rightarrow> app_json_encoder option" where
  "fraction_loop 0 frac e = Some e"
| "fraction_loop (Suc k) frac e = do {
     j \<leftarrow> fp_to_int (- (2 ^ 31)) (2 ^ 31 - 1) (times_ten frac);
     e \<leftarrow> emit (char_of (48 + j)) e;
     let frac = fp_frac (times_ten frac);
     if \<not> fp_le frac fp_zero then fraction_loop k frac e else Some e }"

text \<open>
  The first conversion to an integer is undefined for a value of \<open>-1\<close> or less, and for one that is
  not below \<open>2 ^ 64\<close>.
\<close>

definition app_json_encode_real ::
  "app_json_encoder \<Rightarrow> string option \<Rightarrow> u64 \<Rightarrow> (iot_status \<times> app_json_encoder) option" where
  "app_json_encode_real e key r =
     (if key = None \<and> enc_structs e = 0 then Some (STATUS_BAD_REQUEST, e)
      else do {
        let v = fp_decode 52 11 (unat r);
        let neg = (\<not> fp_le fp_zero v);
        i \<leftarrow> fp_to_int 0 (2 ^ 64 - 1) v;
        let frac = fp_frac v;
        (i, frac) \<leftarrow> (if neg
          then do { i \<leftarrow> fp_to_int 0 (2 ^ 64 - 1) (fp_negate v); Some (i, fp_frac (fp_negate v)) }
          else Some (i, frac));
        let int_len = app_json_encode_intlen (of_int i) neg;
        let value_len = int_len + JSON_ENCODE_MAX_DECIMALS + 1;
        (r, added, e) \<leftarrow> app_json_encode_key e key (of_nat value_len);
        if r = STATUS_SUCCESS
        then do {
          n \<leftarrow> enc_cur e;
          let dest = n + int_len - 1;
          e \<leftarrow> (if neg then emit (CHR ''-'') e else Some e);
          e \<leftarrow> (if i = 0 then emit (CHR ''0'') e else Some e);
          e \<leftarrow> digits_loop (of_int i) dest e;
          e \<leftarrow> emit (CHR ''.'') e;
          e \<leftarrow> fraction_loop JSON_ENCODE_MAX_DECIMALS frac e;
          end_added added e }
        else Some (r, e) })"

section \<open>The text\<close>

primrec dump_bits :: "nat list \<Rightarrow> u64 \<Rightarrow> u32 \<Rightarrow> app_json_encoder \<Rightarrow> (u32 \<times> app_json_encoder) option" where
  "dump_bits [] s depth e = Some (depth, e)"
| "dump_bits (i # is) s depth e =
     (if bit s i
      then let ind = encoder_indent e
           in do {
             (depth, e) \<leftarrow> (if ind \<noteq> 0
                then do { (broken, e) \<leftarrow> write_break (ind * (depth - 1)) e; Some (depth - 1, e) }
                else Some (depth, e));
             e \<leftarrow> emit (JSON_CHARS_END ! i) e;
             dump_bits is s depth e }
      else dump_bits is s depth e)"

function dump_loop :: "u64 \<Rightarrow> u32 \<Rightarrow> app_json_encoder \<Rightarrow> app_json_encoder option" where
  "dump_loop s depth e =
     (if s \<noteq> 0
      then do {
        (depth, e) \<leftarrow> dump_bits [0..<JSON_STRUCT_BITS] s depth e;
        dump_loop (drop_bit JSON_STRUCT_BITS s) depth e }
      else Some e)"
  by pat_completeness auto
termination
proof (relation "measure (\<lambda>(s, _, _). unat s)", goal_cases)
  case (2 s depth e x a b)
  then have "unat s div 8 < unat s" by (simp add: unat_gt_0)
  then show ?case by (simp only: unat_drop_bit_eq drop_bit_eq_div JSON_STRUCT_BITS_def in_measure split_conv)
      (simp add: unat_div)
qed simp

declare dump_loop.simps [simp del]

text \<open>
  The open levels are closed in the buffer only; \<open>cur\<close> stays where it was. No room is looked for.
\<close>

definition app_json_encode_dump :: "app_json_encoder \<Rightarrow> (string option \<times> app_json_encoder) option" where
  "app_json_encode_dump e =
     (if enc_buf e = 0 then Some (None, e)
      else if enc_block e = [] then None
      else if enc_block e ! 0 = CHR 0x00 \<or> enc_cur e = None then Some (None, e)
      else do {
        e' \<leftarrow> dump_loop (enc_structs e) (of_nat (app_json_encode_depth e)) e;
        e' \<leftarrow> emit (CHR 0x00) e';
        s \<leftarrow> buffer_string (enc_block e');
        Some (Some s, e'\<lparr>enc_cur := enc_cur e\<rparr>) })"

section \<open>Taking an object back\<close>

text \<open>The search for the opening brace, from the last character back.\<close>

primrec brace_before :: "string \<Rightarrow> nat \<Rightarrow> nat \<Rightarrow> nat" where
  "brace_before b depth_count 0 = 0"
| "brace_before b depth_count (Suc p) =
     (if depth_count > 0 \<or> b ! Suc p \<noteq> JSON_CHARS_START ! 2
      then let d = (if b ! Suc p = JSON_CHARS_START ! 2 then depth_count - 1 else depth_count);
               d = (if b ! Suc p = JSON_CHARS_END ! 2 then d + 1 else d)
           in brace_before b d p
      else Suc p)"

primrec skip_spaces_back :: "string \<Rightarrow> nat \<Rightarrow> nat" where
  "skip_spaces_back b 0 = 0"
| "skip_spaces_back b (Suc p) = (if b ! p = CHR '' '' then skip_spaces_back b p else p)"

primrec key_before :: "string \<Rightarrow> nat \<Rightarrow> nat" where
  "key_before b 0 = 0"
| "key_before b (Suc p) =
     (if b ! Suc p \<notin> {CHR '','', CHR ''{'', CHR ''[''} then key_before b p else Suc p)"

definition app_json_encode_object_cancel :: "app_json_encoder \<Rightarrow> (iot_status \<times> app_json_encoder) option" where
  "app_json_encode_object_cancel e =
     (if drop_bit 1 (enc_structs e) = 0 then Some (STATUS_BAD_REQUEST, e)
      else case enc_cur e of
        Some (Suc n) \<Rightarrow>
          if n < length (enc_block e)
          then let b = enc_block e;
                   save_pos = brace_before b 0 n;
                   p = skip_spaces_back b save_pos;
                   p = (if p > 0 \<and> b ! p = CHR '':'' then key_before b (p - 1) else save_pos + 1);
                   t = drop_bit 3 (enc_structs e)
               in Some (STATUS_SUCCESS,
                    e\<lparr>enc_cur := Some p, enc_structs := t,
                      enc_block := (if t = 0 then b[0 := CHR 0x00] else b)\<rparr>)
          else None
      | _ \<Rightarrow> None)"

definition app_json_encode_object_clear :: "app_json_encoder \<Rightarrow> (iot_status \<times> app_json_encoder) option" where
  "app_json_encode_object_clear e =
     (if drop_bit 1 (enc_structs e) = 0 then Some (STATUS_BAD_REQUEST, e)
      else case enc_cur e of
        Some (Suc n) \<Rightarrow>
          if n < length (enc_block e)
          then Some (STATUS_SUCCESS, e\<lparr>enc_cur := Some (Suc (brace_before (enc_block e) 0 n))\<rparr>)
          else None
      | _ \<Rightarrow> None)"

end
