(* ===== verification/Encoding.thy ===== *)
theory Encoding
  imports Encoder
begin

text \<open>
  What the JSON encoder of \<open>Encoder\<close> writes: a specification of its text as the rendering of the
  values that were added, and the proof that every sequence of calls follows it.
\<close>

unbundle bit_operations_syntax

section \<open>Strings\<close>

definition escape_text :: "string \<Rightarrow> string" where
  "escape_text s = concat (map (\<lambda>c. if needs_escape c then [CHR 0x5C, escape_letter c] else [c]) s)"

lemma strlen_escape: "app_json_encode_strlen s = length (escape_text s)"
  by (induction s) (auto simp: escape_text_def)

lemma escape_letter_plain: "\<not> needs_escape c \<Longrightarrow> escape_letter c = c"
  by (auto simp: needs_escape_def escape_letter_def)

lemma strncpy_loop_escape:
  "strncpy_loop s (i + length (escape_text s)) False i out =
     Some (i + length (escape_text s), out @ escape_text s)"
proof (induction s arbitrary: i out)
  case Nil
  then show ?case by (simp add: strncpy_loop.simps escape_text_def)
next
  case (Cons c s)
  show ?case
  proof (cases "needs_escape c")
    case True
    then have "strncpy_loop (c # s) (i + length (escape_text (c # s))) False i out =
        strncpy_loop s (i + 2 + length (escape_text s)) False (i + 2) (out @ [CHR 0x5C, escape_letter c])"
      by (subst strncpy_loop.simps) (simp add: escape_text_def)
    then show ?thesis using Cons.IH[of "i + 2"] True by (simp add: escape_text_def)
  next
    case False
    then have "strncpy_loop (c # s) (i + length (escape_text (c # s))) False i out =
        strncpy_loop s (i + 1 + length (escape_text s)) False (i + 1) (out @ [escape_letter c])"
      by (subst strncpy_loop.simps) (simp add: escape_text_def)
    then show ?thesis using Cons.IH[of "i + 1"] False by (simp add: escape_text_def escape_letter_plain)
  qed
qed

lemma strncpy_escape: "app_json_encode_strncpy s (app_json_encode_strlen s) = Some (escape_text s)"
  using strncpy_loop_escape[of s 0 "[]"] by (simp add: app_json_encode_strncpy_def strlen_escape)

text \<open>A character that needs an escape and finds a single byte left stops the loop for good.\<close>

lemma strncpy_hangs:
  assumes "needs_escape c"
  shows "strncpy_loop (c # s) (Suc i) skip i out = None"
proof (rule ccontr)
  define hung where "hung = (\<lambda>src num i. src \<noteq> [] \<and> needs_escape (hd src) \<and> num = Suc i)"
  assume "strncpy_loop (c # s) (Suc i) skip i out \<noteq> None"
  then obtain r where "strncpy_loop (c # s) (Suc i) skip i out = Some r" by blast
  then have "\<not> hung (c # s) (Suc i) i"
  proof (rule strncpy_loop.raw_induct[where P = "\<lambda>src num skip i out r. \<not> hung src num i", rotated])
    fix f src num skip i out r
    assume "\<And>src num skip i out r. f src num skip i out = Some r \<Longrightarrow> \<not> hung src num i"
      and "(if i < num \<and> src \<noteq> []
        then let c = hd src; backslash = needs_escape c \<and> i + 1 < num;
                 skip = (skip \<or> needs_escape c \<and> \<not> i + 1 < num);
                 out = (if backslash then out @ [CHR 0x5C] else out);
                 i = (if backslash then i + 1 else i)
             in if \<not> skip then f (tl src) num skip (i + 1) (out @ [escape_letter c])
                else f src num skip i out
        else Some (i, out)) = Some r"
    then show "\<not> hung src num i" by (cases r) (auto simp: hung_def, blast)
  qed
  then show False using assms by (simp add: hung_def)
qed

section \<open>Writing at the end of the text\<close>

text \<open>The text so far, the bytes behind it, and the encoder after \<open>s\<close> has been appended.\<close>

definition encoded :: "app_json_encoder \<Rightarrow> string" where
  "encoded e = (case enc_cur e of None \<Rightarrow> [] | Some n \<Rightarrow> take n (enc_block e))"

definition ready :: "app_json_encoder \<Rightarrow> bool" where
  "ready e \<longleftrightarrow> (\<exists>n. enc_cur e = Some n \<and> n \<le> length (enc_block e))"

definition written :: "string \<Rightarrow> app_json_encoder \<Rightarrow> app_json_encoder" where
  "written s e = e\<lparr>enc_cur := Some (length (encoded e) + length s),
     enc_block := encoded e @ s @ drop (length (encoded e) + length s) (enc_block e)\<rparr>"

lemma written_fields [simp]:
  "enc_buf (written s e) = enc_buf e" "enc_flags (written s e) = enc_flags e"
  "enc_len (written s e) = enc_len e" "enc_structs (written s e) = enc_structs e"
  "enc_heap (written s e) = enc_heap e"
  by (simp_all add: written_def)

lemma encoder_flags_written [simp]:
  "encoder_indent (written s e) = encoder_indent e" "encoder_expand (written s e) = encoder_expand e"
  "encoder_dynamic (written s e) = encoder_dynamic e"
  by (simp_all add: encoder_indent_def encoder_expand_def encoder_dynamic_def)

lemma encoder_depth_written [simp]: "app_json_encode_depth (written s e) = app_json_encode_depth e"
  by (simp add: app_json_encode_depth_def)

lemma encoded_written [simp]: "encoded (written s e) = encoded e @ s"
  by (simp add: written_def encoded_def)

lemma ready_written [simp]: "ready (written s e)"
  by (simp add: written_def ready_def)

lemma written_written [simp]: "written t (written s e) = written (s @ t) e"
proof -
  have "enc_block (written s e) = encoded e @ s @ drop (length (encoded e) + length s) (enc_block e)"
    by (simp add: written_def)
  then show ?thesis
    unfolding written_def[of t "written s e"] encoded_written by (simp add: written_def ac_simps)
qed

lemma written_nil: "ready e \<Longrightarrow> written [] e = e"
  by (cases e) (auto simp: written_def ready_def encoded_def min_def)

lemma length_written: "length (encoded e) + length s \<le> length (enc_block e) \<Longrightarrow>
    length (enc_block (written s e)) = length (enc_block e)"
  by (simp add: written_def)

lemma emits_written:
  assumes "ready e" and "length (encoded e) + length s \<le> length (enc_block e)"
  shows "emits s e = Some (written s e)"
  using assms
proof (induction s arbitrary: e)
  case Nil
  then show ?case by (simp add: written_nil)
next
  case (Cons c s)
  obtain n where n: "enc_cur e = Some n" "n \<le> length (enc_block e)" using Cons.prems by (auto simp: ready_def)
  then have len: "length (encoded e) = n" by (simp add: encoded_def)
  then have "n < length (enc_block e)" using Cons.prems by simp
  then have "emit c e = Some (written [c] e)"
    using n len by (simp add: emit_def store_def written_def encoded_def upd_conv_take_nth_drop)
  moreover have "emits s (written [c] e) = Some (written s (written [c] e))"
    using Cons.prems by (intro Cons.IH) (simp_all add: length_written)
  ultimately show ?case by simp
qed

lemma emit_emits: "emit c e = emits [c] e"
  by (simp add: bind_rzero)

lemma emits_append: "emits (s @ t) e = do { e \<leftarrow> emits s e; emits t e }"
  by (induction s arbitrary: e) simp_all

lemma emits_cur: "emits s e = Some e' \<Longrightarrow> enc_cur e' = map_option (\<lambda>n. n + length s) (enc_cur e)"
  by (induction s arbitrary: e)
    (auto simp: emit_def store_def option.map_ident split: Option.bind_splits if_splits)

lemma copy_out_emits: "copy_out s (length s) e = emits s e"
  by (auto simp: copy_out_def emits_cur[symmetric] split: Option.bind_split)

lemma char_before_encoded: "ready e \<Longrightarrow> encoded e \<noteq> [] \<Longrightarrow> char_before e = Some (last (encoded e))"
  by (auto simp: char_before_def ready_def encoded_def last_conv_nth split: nat.splits option.splits)

section \<open>The bits of the open levels\<close>

fun ones :: "nat \<Rightarrow> nat" where
  "ones n = (if n = 0 then 0 else n mod 2 + ones (n div 2))"

declare ones.simps [simp del]

lemma ones_simps [simp]: "ones 0 = 0" "ones (Suc 0) = 1" "ones 1 = 1"
  by (simp_all add: ones.simps)

lemma ones_double: "ones (2 * n + (if b then 1 else 0)) = ones n + (if b then 1 else 0)"
  by (subst ones.simps) auto

lemma ones_level: "a < 8 \<Longrightarrow> ones (8 * b + a) = ones b + ones a"
proof -
  assume "a < 8"
  have bits: "ones (2 * (2 * (2 * n + (if p then 1 else 0)) + (if q then 1 else 0)) + (if r then 1 else 0)) =
      ones n + ((if p then 1 else 0) + (if q then 1 else 0) + (if r then 1 else 0))" for n p q r
    by (simp only: ones_double)
  define p q r where "p = odd (a div 4)" and "q = odd (a div 2)" and "r = odd a"
  have a: "a = 2 * (2 * (2 * 0 + (if p then 1 else 0)) + (if q then 1 else 0)) + (if r then 1 else 0)"
    using \<open>a < 8\<close> unfolding p_def q_def r_def by (simp add: odd_iff_mod_2_eq_one) presburger
  have "8 * b + a = 2 * (2 * (2 * b + (if p then 1 else 0)) + (if q then 1 else 0)) + (if r then 1 else 0)"
    by (subst a) simp
  then have "ones (8 * b + a) = ones b + ((if p then 1 else 0) + (if q then 1 else 0) + (if r then 1 else 0))"
    using bits[of b p q r] by (simp only:)
  moreover have "ones a = (if p then 1 else 0) + (if q then 1 else 0) + (if r then 1 else 0)"
    using bits[of 0 p q r] by (subst a) (simp only: ones_simps add_0)
  ultimately show ?thesis by (simp only:)
qed

lemma depth_loop_ones: "depth_loop j i = i + ones (unat j)"
proof (induction j i rule: depth_loop.induct)
  case (1 j i)
  have half: "unat (drop_bit 1 j) = unat j div 2"
    by (simp only: unat_drop_bit_eq drop_bit_eq_div) (simp add: unat_div)
  have odd: "j AND 1 \<noteq> 0 \<longleftrightarrow> odd (unat j)"
  proof -
    have "bit (unat j) 0 \<longleftrightarrow> bit j 0" by (simp add: bit_unsigned_iff del: bit_0)
    then show ?thesis by (simp add: and_one_eq mod_2_eq_odd bit_0)
  qed
  show ?case
  proof (cases "j = 0")
    case True
    then show ?thesis by (simp add: depth_loop.simps)
  next
    case False
    then have "unat j \<noteq> 0" by (simp add: unat_eq_0)
    then have "ones (unat j) = unat j mod 2 + ones (unat j div 2)" by (subst ones.simps) simp
    then show ?thesis
      using False 1 half odd by (subst depth_loop.simps) (auto simp: mod2_eq_if)
  qed
qed

text \<open>The levels from the innermost out, three bits each.\<close>

definition level_codes :: "nat list \<Rightarrow> bool" where
  "level_codes cs \<longleftrightarrow> length cs \<le> 21 \<and> (\<forall>c \<in> set cs. 0 < c \<and> c < 8)"

definition packed :: "nat list \<Rightarrow> nat" where
  "packed cs = foldr (\<lambda>c n. 8 * n + c) cs 0"

definition pack :: "nat list \<Rightarrow> u64" where
  "pack cs = of_nat (packed cs)"

lemma packed_simps [simp]: "packed [] = 0" "packed (c # cs) = 8 * packed cs + c"
  by (simp_all add: packed_def)

lemma level_codes_Cons [simp]:
  "level_codes (c # cs) \<longleftrightarrow> level_codes cs \<and> length cs < 21 \<and> 0 < c \<and> c < 8"
  by (auto simp: level_codes_def)

lemma packed_less: "(\<forall>c \<in> set cs. c < 8) \<Longrightarrow> packed cs < 8 ^ length cs"
  by (induction cs) auto

lemma packed_bound: "level_codes cs \<Longrightarrow> packed cs < 2 ^ 64"
proof -
  assume "level_codes cs"
  then have "packed cs < 8 ^ length cs" "length cs \<le> 21" by (auto simp: level_codes_def intro: packed_less)
  then have "packed cs < 8 ^ 21" by (meson order_less_le_trans power_increasing one_le_numeral)
  then show ?thesis by simp
qed

lemma unat_pack: "level_codes cs \<Longrightarrow> unat (pack cs) = packed cs"
  using packed_bound[of cs] by (simp add: pack_def unat_of_nat take_bit_eq_mod)

lemma pack_zero: "level_codes cs \<Longrightarrow> pack cs = 0 \<longleftrightarrow> cs = []"
proof -
  assume l: "level_codes cs"
  then have "pack cs = 0 \<longleftrightarrow> packed cs = 0" using unat_pack[of cs] unat_eq_0[of "pack cs"] by simp
  also have "\<dots> \<longleftrightarrow> cs = []" using l by (cases cs) auto
  finally show ?thesis .
qed

lemma bit_pack:
  assumes "level_codes (c # cs)" and "i < 3"
  shows "bit (pack (c # cs)) i \<longleftrightarrow> bit c i"
proof -
  have "bit (pack (c # cs)) i \<longleftrightarrow> bit (packed (c # cs)) i"
    unfolding unat_pack[OF assms(1), symmetric] by (simp add: bit_unsigned_iff)
  also have "\<dots> \<longleftrightarrow> bit (8 * packed cs + c) i" by simp
  also have "\<dots> \<longleftrightarrow> bit c i"
  proof -
    have "take_bit 3 (8 * packed cs + c) = take_bit 3 c" by (simp add: take_bit_eq_mod)
    then show ?thesis using assms(2) by (metis bit_take_bit_iff)
  qed
  finally show ?thesis .
qed

lemma drop_pack: "level_codes (c # cs) \<Longrightarrow> drop_bit 3 (pack (c # cs)) = pack cs"
proof -
  assume l: "level_codes (c # cs)"
  have "unat (drop_bit 3 (pack (c # cs))) = drop_bit 3 (packed (c # cs))"
    by (simp only: unat_drop_bit_eq unat_pack[OF l])
  also have "\<dots> = unat (pack cs)" using l unat_pack[of cs] by (simp add: drop_bit_eq_div)
  finally show ?thesis by (rule word_unat_eq_iff[THEN iffD2])
qed

lemma push_pack:
  assumes "level_codes (c # cs)"
  shows "push_bit 3 (pack cs) OR of_nat c = pack (c # cs)"
proof -
  have c: "c < 8" using assms by simp
  have small: "\<not> bit c k" if "3 \<le> k" for k
  proof -
    have "take_bit 3 c = c" using c by (simp add: take_bit_eq_mod)
    then show ?thesis using that by (metis bit_take_bit_iff leD)
  qed
  have "push_bit 3 (pack cs) OR of_nat c = push_bit 3 (pack cs) + of_nat c"
    using small by (intro disjunctive_add_eq_or[symmetric] bit_eqI)
      (auto simp: bit_simps not_le)
  also have "\<dots> = pack (c # cs)" by (simp add: pack_def push_bit_eq_mult)
  finally show ?thesis .
qed

lemma depth_pack: "level_codes cs \<Longrightarrow> depth_loop (pack cs) 0 = sum_list (map ones cs)"
proof -
  assume l: "level_codes cs"
  have "ones (packed ds) = sum_list (map ones ds)" if "\<forall>c \<in> set ds. c < 8" for ds
    using that by (induction ds) (auto simp: ones_level)
  then show ?thesis using l by (auto simp: depth_loop_ones unat_pack level_codes_def)
qed

section \<open>The text of a value\<close>

text \<open>
  A real number that is not negative: its integer part and up to six digits of what is left, each
  cut off and not rounded.
\<close>

primrec fraction_digits :: "nat \<Rightarrow> fp \<Rightarrow> string" where
  "fraction_digits 0 f = ''''"
| "fraction_digits (Suc k) f =
     char_of (48 + (case fp_trunc (times_ten f) of None \<Rightarrow> 0 | Some j \<Rightarrow> j)) #
     (if fp_le (fp_frac (times_ten f)) fp_zero then '''' else fraction_digits k (fp_frac (times_ten f)))"

definition real_text :: "u64 \<Rightarrow> string" where
  "real_text r =
     (let v = fp_decode 52 11 (unat r)
      in digits (case fp_trunc v of None \<Rightarrow> 0 | Some i \<Rightarrow> nat i) @ ''.'' @ fraction_digits 6 (fp_frac v))"

text \<open>
  With \<open>x\<close> a space follows every colon and, when nothing is indented, every comma; \<open>n\<close> is the
  indentation per level and \<open>d\<close> the level. Numbers that are not integers are \<open>real_text\<close>.
\<close>

definition line_break :: "nat \<Rightarrow> nat \<Rightarrow> string" where
  "line_break n d = CHR 0x0A # replicate (n * d) (CHR '' '')"

definition separator :: "bool \<Rightarrow> nat \<Rightarrow> nat \<Rightarrow> bool \<Rightarrow> string" where
  "separator x n d first =
     (if first then '''' else if x \<and> n = 0 then '', '' else '','') @
     (if n > 0 \<and> d > 0 then line_break n d else '''')"

definition item_name :: "bool \<Rightarrow> string \<Rightarrow> string" where
  "item_name x k = [CHR 0x22] @ escape_text k @ [CHR 0x22, CHR '':''] @ (if x then '' '' else '''')"

definition joined :: "bool \<Rightarrow> nat \<Rightarrow> nat \<Rightarrow> string list \<Rightarrow> string" where
  "joined x n d ts =
     (case ts of [] \<Rightarrow> '''' | t # ts \<Rightarrow> separator x n d True @ t @ concat (map (\<lambda>t. separator x n d False @ t) ts))"

definition before_end :: "nat \<Rightarrow> nat \<Rightarrow> bool \<Rightarrow> string" where
  "before_end n d nothing = (if nothing \<or> n = 0 then '''' else line_break n d)"

definition bracketed :: "bool \<Rightarrow> nat \<Rightarrow> nat \<Rightarrow> char \<Rightarrow> string list \<Rightarrow> char \<Rightarrow> string" where
  "bracketed x n d l ts r = [l] @ joined x n (d + 1) ts @ before_end n d (ts = []) @ [r]"

fun render :: "bool \<Rightarrow> nat \<Rightarrow> nat \<Rightarrow> json \<Rightarrow> string" where
  "render x n d JNull = ''null''"
| "render x n d (JBool b) = (if b then ''true'' else ''false'')"
| "render x n d (JInteger i) = show_int i"
| "render x n d (JReal r) = real_text r"
| "render x n d (JString s) = [CHR 0x22] @ escape_text s @ [CHR 0x22]"
| "render x n d (JArray vs) = bracketed x n d (CHR ''['') (map (render x n (d + 1)) vs) (CHR '']'')"
| "render x n d (JObject ms) =
     bracketed x n d (CHR ''{'') (map (\<lambda>(k, v). item_name x k @ render x n (d + 1) v) ms) (CHR ''}'')"

section \<open>The document being built\<close>

text \<open>
  The values that are complete, and the open arrays and objects from the innermost out, each with
  the key it was given. A key inside an array puts the value into an object of its own.
\<close>

datatype members = Items "json list" | Members "(string \<times> json) list"

type_synonym level = "string option \<times> members"
type_synonym document = "json list \<times> level list"

primrec empty_members :: "members \<Rightarrow> bool" where
  "empty_members (Items vs) = (vs = [])"
| "empty_members (Members ms) = (ms = [])"

primrec value_of :: "members \<Rightarrow> json" where
  "value_of (Items vs) = JArray vs"
| "value_of (Members ms) = JObject ms"

primrec put_in :: "members \<Rightarrow> string option \<Rightarrow> json \<Rightarrow> members" where
  "put_in (Items vs) key v = Items (vs @ [case key of None \<Rightarrow> v | Some k \<Rightarrow> JObject [(k, v)]])"
| "put_in (Members ms) key v = Members (ms @ [(case key of None \<Rightarrow> '''' | Some k \<Rightarrow> k, v)])"

fun put_value :: "document \<Rightarrow> string option \<Rightarrow> json \<Rightarrow> document" where
  "put_value (roots, []) key v = (roots @ [v], [])"
| "put_value (roots, (k, c) # ls) key v = (roots, (k, put_in c key v) # ls)"

fun close_level :: "document \<Rightarrow> document" where
  "close_level (roots, []) = (roots, [])"
| "close_level (roots, (k, c) # ls) = put_value (roots, ls) k (value_of c)"

definition in_array :: "level list \<Rightarrow> bool" where
  "in_array ls \<longleftrightarrow> (case ls of (_, Items _) # _ \<Rightarrow> True | _ \<Rightarrow> False)"

text \<open>A key at the very beginning opens an object around everything.\<close>

definition add_root :: "document \<Rightarrow> string option \<Rightarrow> document" where
  "add_root D key = (if snd D = [] \<and> key \<noteq> None then (fst D, [(None, Members [])]) else D)"

definition wraps :: "level list \<Rightarrow> string option \<Rightarrow> bool" where
  "wraps ls key \<longleftrightarrow> in_array ls \<and> key \<noteq> None"

fun level_depth :: "level list \<Rightarrow> nat" where
  "level_depth [] = 0"
| "level_depth ((k, c) # ls) = level_depth ls + (if wraps ls k then 2 else 1)"

text \<open>What a call does to the document, and what it answers.\<close>

datatype json_call =
    ArrayStart "string option"
  | ArrayEnd
  | ObjectStart "string option"
  | ObjectEnd
  | AddBool "string option" bool
  | AddInteger "string option" int
  | AddString "string option" "string option"
  | AddReal "string option" u64

definition add_item :: "document \<Rightarrow> string option \<Rightarrow> json \<Rightarrow> iot_status \<times> document" where
  "add_item D key v =
     (if snd D = [] \<and> key = None then (STATUS_BAD_REQUEST, D)
      else if wraps (snd D) key \<and> JSON_MAX_DEPTH \<le> level_depth (snd D) then (STATUS_FULL, D)
      else (STATUS_SUCCESS, put_value (add_root D key) key v))"

definition start_level :: "document \<Rightarrow> string option \<Rightarrow> members \<Rightarrow> iot_status \<times> document" where
  "start_level D key c =
     (if JSON_MAX_DEPTH \<le> level_depth (snd D) then (STATUS_FULL, D)
      else let (roots, ls) = add_root D key in (STATUS_SUCCESS, (roots, (key, c) # ls)))"

definition end_level :: "document \<Rightarrow> bool \<Rightarrow> iot_status \<times> document" where
  "end_level D array =
     (if snd D \<noteq> [] \<and> in_array (snd D) = array then (STATUS_SUCCESS, close_level D)
      else (STATUS_BAD_REQUEST, D))"

primrec document_call :: "json_call \<Rightarrow> document \<Rightarrow> iot_status \<times> document" where
  "document_call (ArrayStart key) D = start_level D key (Items [])"
| "document_call ArrayEnd D = end_level D True"
| "document_call (ObjectStart key) D = start_level D key (Members [])"
| "document_call ObjectEnd D = end_level D False"
| "document_call (AddBool key b) D = add_item D key (JBool b)"
| "document_call (AddInteger key i) D = add_item D key (JInteger i)"
| "document_call (AddString key s) D = add_item D key (JString (case s of None \<Rightarrow> '''' | Some s \<Rightarrow> s))"
| "document_call (AddReal key r) D = add_item D key (JReal r)"

fun run_document :: "json_call list \<Rightarrow> document \<Rightarrow> iot_status list \<times> document" where
  "run_document [] D = ([], D)"
| "run_document (c # cs) D =
     (let (r, D) = document_call c D; (rs, D) = run_document cs D in (r # rs, D))"

function close_all :: "document \<Rightarrow> json list" where
  "close_all (roots, ls) = (if ls = [] then roots else close_all (close_level (roots, ls)))"
  by pat_completeness auto
termination
proof (relation "measure (\<lambda>(_, ls). length ls)", goal_cases)
  case (2 roots ls)
  have "length (snd (put_value (r, ls) k v)) = length ls" for r k v and ls :: "level list"
    by (cases ls) auto
  then show ?case using 2 by (cases ls) (auto simp: split_beta)
qed simp

declare close_all.simps [simp del]

text \<open>The text of a document whose levels are still open.\<close>

definition member_texts :: "bool \<Rightarrow> nat \<Rightarrow> nat \<Rightarrow> members \<Rightarrow> string list" where
  "member_texts x n d c =
     (case c of Items vs \<Rightarrow> map (render x n d) vs
      | Members ms \<Rightarrow> map (\<lambda>(k, v). item_name x k @ render x n d v) ms)"

primrec left_bracket :: "members \<Rightarrow> char" where
  "left_bracket (Items vs) = CHR ''[''" | "left_bracket (Members ms) = CHR ''{''"

primrec right_bracket :: "members \<Rightarrow> char" where
  "right_bracket (Items vs) = CHR '']''" | "right_bracket (Members ms) = CHR ''}''"

definition nothing_before :: "document \<Rightarrow> bool" where
  "nothing_before D = (case snd D of [] \<Rightarrow> fst D = [] | (_, c) # _ \<Rightarrow> empty_members c)"

text \<open>What comes before and after a value that is added to the document under a key.\<close>

definition before_value :: "bool \<Rightarrow> nat \<Rightarrow> document \<Rightarrow> string option \<Rightarrow> string" where
  "before_value x n D key =
     separator x n (level_depth (snd D)) (nothing_before D) @
     (if snd D = [] then ''''
      else if in_array (snd D)
      then (case key of None \<Rightarrow> ''''
            | Some k \<Rightarrow> ''{'' @ separator x n (level_depth (snd D) + 1) True @ item_name x k)
      else item_name x (case key of None \<Rightarrow> '''' | Some k \<Rightarrow> k))"

definition after_value :: "nat \<Rightarrow> level list \<Rightarrow> string option \<Rightarrow> string" where
  "after_value n ls key = (if wraps ls key then before_end n (level_depth ls) False @ ''}'' else '''')"

fun document_text :: "bool \<Rightarrow> nat \<Rightarrow> document \<Rightarrow> string" where
  "document_text x n (roots, []) = joined x n 0 (map (render x n 0) roots)"
| "document_text x n (roots, (k, c) # ls) =
     document_text x n (roots, ls) @ before_value x n (roots, ls) k @ [left_bracket c] @
     joined x n (level_depth ((k, c) # ls)) (member_texts x n (level_depth ((k, c) # ls)) c)"

section \<open>How the text grows\<close>

lemma joined_nil [simp]: "joined x n d [] = ''''"
  by (simp add: joined_def)

lemma joined_snoc: "joined x n d (ts @ [t]) = joined x n d ts @ separator x n d (ts = []) @ t"
  by (cases ts) (simp_all add: joined_def)

lemma joined_single: "joined x n d [t] = separator x n d True @ t"
  by (simp add: joined_def)

lemma member_texts_empty [simp]: "member_texts x n d c = [] \<longleftrightarrow> empty_members c"
  by (cases c) (auto simp: member_texts_def)

lemma render_value_of:
  "render x n d (value_of c) = [left_bracket c] @ joined x n (d + 1) (member_texts x n (d + 1) c) @
     before_end n d (empty_members c) @ [right_bracket c]"
  by (cases c) (simp_all add: bracketed_def member_texts_def)

lemma put_text:
  "document_text x n (put_value D k v) =
     document_text x n D @ before_value x n D k @
     render x n (level_depth (snd D) + (if wraps (snd D) k then 1 else 0)) v @ after_value n (snd D) k"
proof (cases "snd D")
  case Nil
  then show ?thesis
    by (cases D) (simp add: before_value_def after_value_def wraps_def in_array_def nothing_before_def joined_snoc)
next
  case (Cons l ls)
  obtain roots k' c where D: "D = (roots, (k', c) # ls)" using Cons by (cases D; cases l) auto
  show ?thesis
  proof (cases c)
    case (Items vs)
    then show ?thesis
      by (cases k) (simp_all add: D before_value_def after_value_def wraps_def in_array_def nothing_before_def
          member_texts_def joined_snoc joined_single bracketed_def)
  next
    case (Members ms)
    then show ?thesis
      by (simp add: D before_value_def after_value_def wraps_def in_array_def nothing_before_def
          member_texts_def joined_snoc)
  qed
qed

lemma close_text:
  "document_text x n (close_level (roots, (k, c) # ls)) =
     document_text x n (roots, (k, c) # ls) @
     before_end n (level_depth ((k, c) # ls) - 1) (empty_members c) @ [right_bracket c] @ after_value n ls k"
  by (simp add: put_text render_value_of)

text \<open>The last character tells whether something precedes the next item.\<close>

lemma digits_last: "digits k \<noteq> [] \<and> last (digits k) = char_of (48 + k mod 10)"
  by (subst (1 2) digits.simps) simp

lemma show_int_last: "show_int i \<noteq> [] \<and> (\<exists>k < 10. last (show_int i) = char_of (48 + k :: nat))"
proof -
  have "digits k \<noteq> [] \<and> (\<exists>j < 10. last (digits k) = char_of (48 + j :: nat))" for k
    using digits_last[of k] by (intro conjI exI[of _ "k mod 10"]) simp_all
  then show ?thesis by (simp add: show_int_def)
qed

lemma times_ten_bound:
  assumes "m < 2 ^ nat (- e)"
  obtains j where "fp_trunc (times_ten (FFin s m e)) = Some j" and "\<bar>j\<bar> \<le> 10"
proof -
  define f k where "f = nat (- e)" and "k = bit_length (10 * m) - 53"
  have m: "m < 2 ^ f" using assms by (simp add: f_def)
  have rounded: "round_half_even (10 * m) k \<le> 10 * m div 2 ^ k + 1"
    by (simp add: round_half_even_def Let_def)
  have "\<exists>t \<le> 10. fp_trunc (times_ten (FFin s m e)) = Some (signed_mant s t)"
  proof (cases "k = 0")
    case True
    then have "round_half_even (10 * m) k = 10 * m" by (simp add: round_half_even_def Let_def)
    moreover have "10 * m div 2 ^ f \<le> 10"
      using m by (metis div_le_mono div_mult_self1_is_m less_imp_le_nat mult.commute mult_le_mono2
          nat_zero_less_power_iff zero_less_numeral)
    moreover have "m = 0" if "0 \<le> e" using that m by (simp add: f_def)
    ultimately show ?thesis using True by (auto simp: k_def[symmetric] f_def Let_def)
  next
    case False
    have "10 * m < 2 ^ (f + 4)" using m by (simp add: power_add)
    then have "bit_length (10 * m) \<le> f + 4" by (rule bit_length_le)
    then have k: "k \<le> f" "k < f" using False by (simp_all add: k_def)
    have "10 * m < (10 * 2 ^ (f - k)) * 2 ^ k" using m k by (simp flip: power_add)
    then have "10 * m div 2 ^ k < 10 * 2 ^ (f - k)" by (simp add: less_mult_imp_div_less)
    then have "round_half_even (10 * m) k \<le> 10 * 2 ^ (f - k)" using rounded by simp
    then have "round_half_even (10 * m) k div 2 ^ (f - k) \<le> 10"
      using div_le_mono[of _ "10 * 2 ^ (f - k)" "2 ^ (f - k)"] by fastforce
    moreover have "nat (- (e + int k)) = f - k" "e + int k < 0" using k by (simp_all add: f_def)
    ultimately show ?thesis by (auto simp: k_def[symmetric] Let_def)
  qed
  then show thesis using that by (auto simp: signed_mant_def)
qed

lemma fp_frac_bound: "fp_frac y = FFin s m e \<Longrightarrow> m < 2 ^ nat (- e)"
  by (cases y) (auto split: if_splits)

lemma digit_char_last:
  assumes "\<bar>j\<bar> \<le> (10 :: int)"
  shows "char_of (48 + j) \<notin> set JSON_CHARS_START"
proof
  assume "char_of (48 + j) \<in> set JSON_CHARS_START"
  then have "(of_char (char_of (48 + j)) :: int) \<in> of_char ` set JSON_CHARS_START" by (rule imageI)
  moreover have "of_char (char_of (48 + j)) = 48 + j" using assms by (simp add: of_char_of)
  ultimately show False using assms by (auto simp: JSON_CHARS_START_def)
qed

lemma digit_char_last_nat:
  assumes "k < (10 :: nat)"
  shows "char_of (48 + k) \<notin> set JSON_CHARS_START"
proof
  assume "char_of (48 + k) \<in> set JSON_CHARS_START"
  then have "(of_char (char_of (48 + k)) :: nat) \<in> of_char ` set JSON_CHARS_START" by (rule imageI)
  then show False using assms by (auto simp: JSON_CHARS_START_def of_char_of)
qed

lemma fraction_digits_last:
  "fraction_digits (Suc k) (fp_frac y) \<noteq> [] \<and> last (fraction_digits (Suc k) (fp_frac y)) \<notin> set JSON_CHARS_START"
proof (induction k arbitrary: y)
  case (0)
  show ?case
  proof (cases "fp_frac y")
    case (FFin s m e)
    then obtain j where "fp_trunc (times_ten (FFin s m e)) = Some j" "\<bar>j\<bar> \<le> 10"
      using times_ten_bound[OF fp_frac_bound] by metis
    then show ?thesis using FFin digit_char_last by simp
  qed (use digit_char_last[of 0] in simp_all)
next
  case (Suc k)
  have *: "\<bar>case fp_trunc (times_ten (fp_frac y)) of None \<Rightarrow> 0 | Some j \<Rightarrow> j\<bar> \<le> 10"
  proof (cases "fp_frac y")
    case (FFin s m e)
    then show ?thesis using times_ten_bound[OF fp_frac_bound] by (metis option.simps(5))
  qed simp_all
  show ?case
    using Suc[of "times_ten (fp_frac y)"] digit_char_last[OF *]
    by (subst (1 2) fraction_digits.simps) auto
qed

lemma real_text_last: "real_text r \<noteq> [] \<and> last (real_text r) \<notin> set JSON_CHARS_START"
  using fraction_digits_last[of 5] by (simp add: real_text_def Let_def numeral_eq_Suc)

lemma render_last: "render x n d v \<noteq> [] \<and> last (render x n d v) \<notin> set JSON_CHARS_START"
proof (cases v)
  case (JInteger i)
  obtain k where "k < 10" "last (show_int i) = char_of (48 + k :: nat)" using show_int_last[of i] by blast
  moreover from this have "last (show_int i) \<notin> set JSON_CHARS_START"
    using digit_char_last_nat by simp
  ultimately show ?thesis using JInteger show_int_last by simp
next
  case (JReal r)
  then show ?thesis using real_text_last by simp
qed (simp_all add: JSON_CHARS_START_def bracketed_def)

lemma after_value_last:
  "t \<noteq> [] \<Longrightarrow> last t \<notin> set JSON_CHARS_START \<Longrightarrow> last (t @ after_value n ls k) \<notin> set JSON_CHARS_START"
  by (simp add: after_value_def JSON_CHARS_START_def)

lemma joined_last:
  "ts \<noteq> [] \<Longrightarrow> (\<forall>t \<in> set ts. t \<noteq> [] \<and> last t \<notin> S) \<Longrightarrow> joined x n d ts \<noteq> [] \<and> last (joined x n d ts) \<notin> S"
  by (cases ts rule: rev_cases) (auto simp: joined_snoc)

lemma document_text_last:
  "if nothing_before D
   then (if snd D = [] then document_text x n D = ''''
         else document_text x n D \<noteq> [] \<and> last (document_text x n D) \<in> set JSON_CHARS_START)
   else document_text x n D \<noteq> [] \<and> last (document_text x n D) \<notin> set JSON_CHARS_START"
proof (cases "snd D")
  case Nil
  then obtain roots where D: "D = (roots, [])" by (cases D) auto
  show ?thesis
    using joined_last[of "map (render x n 0) roots" "set JSON_CHARS_START" x n 0] render_last
    by (auto simp: D nothing_before_def joined_def)
next
  case (Cons l ls)
  then obtain roots k c where D: "D = (roots, (k, c) # ls)" by (cases D; cases l) auto
  let ?ts = "member_texts x n (level_depth ((k, c) # ls)) c"
  have ts: "\<forall>t \<in> set ?ts. t \<noteq> [] \<and> last t \<notin> set JSON_CHARS_START"
    using render_last by (cases c) (auto simp: member_texts_def)
  show ?thesis
  proof (cases "empty_members c")
    case True
    then have "joined x n (level_depth ((k, c) # ls)) ?ts = []"
      by (simp only: member_texts_empty[THEN iffD2] joined_nil)
    then show ?thesis using True by (cases c) (simp_all add: D nothing_before_def JSON_CHARS_START_def del: level_depth.simps)
  next
    case False
    then have "?ts \<noteq> []" by simp
    from joined_last[OF this ts] show ?thesis using False by (simp add: D nothing_before_def)
  qed
qed

section \<open>Room\<close>

text \<open>
  \<open>c\<close> bytes behind the text are set aside, and there is room for \<open>B\<close> more: in a fixed buffer they are
  there, and a growing buffer gets them with \<open>k\<close> requests at most. In a growing buffer one byte
  is left for the terminating null as soon as the buffer is there.
\<close>

definition answers :: "nat \<Rightarrow> (u64 \<times> (nat \<Rightarrow> char)) list \<Rightarrow> bool" where
  "answers k as \<longleftrightarrow> k \<le> length as \<and> (\<forall>i < k. fst (as ! i) \<noteq> 0)"

definition growing_room :: "nat \<Rightarrow> nat \<Rightarrow> nat \<Rightarrow> app_json_encoder \<Rightarrow> bool" where
  "growing_room k B c e \<longleftrightarrow>
     unat (enc_len e) \<le> length (enc_block e) \<and> length (encoded e) + c \<le> unat (enc_len e) \<and>
     (if enc_cur e = None then enc_buf e = 0
      else ready e \<and> enc_buf e \<noteq> 0 \<and> length (encoded e) + c < length (enc_block e)) \<and>
     unat (enc_len e) + B + 1 < 2 ^ 64 \<and> answers k (enc_heap e)"

definition fixed_room :: "nat \<Rightarrow> nat \<Rightarrow> app_json_encoder \<Rightarrow> bool" where
  "fixed_room B c e \<longleftrightarrow>
     unat (enc_len e) \<le> length (enc_block e) \<and> length (encoded e) + c + B < unat (enc_len e) \<and>
     (enc_cur e = None \<or> ready e) \<and>
     enc_buf e \<noteq> 0 \<and> unat (enc_buf e) + unat (enc_len e) < 2 ^ 64"

definition has_room :: "nat \<Rightarrow> nat \<Rightarrow> nat \<Rightarrow> app_json_encoder \<Rightarrow> bool" where
  "has_room k B c e \<longleftrightarrow> (if encoder_dynamic e then growing_room k B c e else fixed_room B c e)"

lemma answers_less: "answers k as \<Longrightarrow> k' \<le> k \<Longrightarrow> answers k' as"
  by (auto simp: answers_def)

lemma answers_Suc:
  assumes "answers (Suc k) as"
  obtains p g r where "as = (p, g) # r" and "p \<noteq> 0" and "answers k r"
proof -
  obtain p g r where as: "as = (p, g) # r" using assms by (cases as) (auto simp: answers_def)
  have "fst (as ! 0) \<noteq> 0" "\<forall>i < k. fst (as ! Suc i) \<noteq> 0" using assms by (auto simp: answers_def)
  then show thesis using assms that as by (auto simp: answers_def)
qed

lemma has_room_less:
  assumes "has_room k B c e" and "k' \<le> k" and "B' \<le> B" and "c' \<le> c"
  shows "has_room k' B' c' e"
  using assms answers_less[of k "enc_heap e" k']
  by (auto simp: has_room_def growing_room_def fixed_room_def split: if_splits)

lemma unat_small: "n < 2 ^ 64 \<Longrightarrow> unat (of_nat n :: u64) = n"
  by (simp add: unat_of_nat take_bit_eq_mod)

lemma unat_bound: "unat (w :: u64) < 2 ^ 64"
  using unsigned_less[of w] by simp

lemma unat_plus: "unat (a :: u64) + unat b < 2 ^ 64 \<Longrightarrow> unat (a + b) = unat a + unat b"
  using unat_add_lem[of a b] by simp

lemma encoded_cases: "ready e \<Longrightarrow> enc_cur e = Some (length (encoded e)) \<and> length (encoded e) \<le> length (enc_block e)"
  by (auto simp: ready_def encoded_def)

lemma encoder_flags_update [simp]:
  "encoder_indent (e\<lparr>enc_structs := t\<rparr>) = encoder_indent e"
  "encoder_expand (e\<lparr>enc_structs := t\<rparr>) = encoder_expand e"
  "encoder_dynamic (e\<lparr>enc_structs := t\<rparr>) = encoder_dynamic e"
  "encoded (e\<lparr>enc_structs := t\<rparr>) = encoded e"
  "ready (e\<lparr>enc_structs := t\<rparr>) = ready e"
  by (simp_all add: encoder_indent_def encoder_expand_def encoder_dynamic_def encoded_def ready_def
      cong: option.case_cong)

lemma has_room_structs [simp]: "has_room k B c (e\<lparr>enc_structs := t\<rparr>) = has_room k B c e"
  by (simp add: has_room_def growing_room_def fixed_room_def)

lemma has_room_written:
  assumes room: "has_room k B (length s + c) e" and "ready e"
  shows "emits s e = Some (written s e)" and "has_room k B c (written s e)"
proof -
  have fits: "length (encoded e) + length s \<le> length (enc_block e)"
    using room encoded_cases[OF assms(2)]
    by (cases "encoder_dynamic e") (auto simp: has_room_def growing_room_def fixed_room_def)
  show "emits s e = Some (written s e)" by (rule emits_written[OF assms(2) fits])
  have "enc_cur (written s e) \<noteq> None" "enc_cur e \<noteq> None"
    using encoded_cases[OF assms(2)] by (simp_all add: written_def)
  then show "has_room k B c (written s e)"
    using room fits by (auto simp: has_room_def growing_room_def fixed_room_def length_written)
qed

lemma take_resize: "n \<le> length b \<Longrightarrow> n \<le> N \<Longrightarrow> take n (resize N g b) = take n b"
  by (rule nth_equalityI) (auto simp: resize_def)

lemma length_resize [simp]: "length (resize N g b) = N"
  by (simp add: resize_def)

text \<open>A request for a larger buffer.\<close>

lemma realloc_grows:
  assumes "answers (Suc k) (enc_heap e)"
  obtains p g r where "app_json_realloc N e = (p, e\<lparr>enc_heap := r, enc_block := resize (unat N) g (enc_block e)\<rparr>)"
    and "p \<noteq> 0" and "answers k r"
proof -
  obtain p g r where "enc_heap e = (p, g) # r" "p \<noteq> 0" "answers k r" using answers_Suc[OF assms] .
  then show thesis using that[of p _ r] by (simp add: app_json_realloc_def)
qed

lemma make_room_growing:
  assumes room: "growing_room (Suc k) (B + t) c e" and dyn: "encoder_dynamic e"
  obtains space e' where "make_room e (of_nat t) = Some (space, e')" and "of_nat t \<le> space"
    and "ready e'" and "encoded e' = encoded e" and "enc_flags e' = enc_flags e"
    and "enc_structs e' = enc_structs e" and "growing_room k B (c + t) e'"
proof -
  let ?N = "enc_len e + of_nat t + 1"
  let ?n = "case enc_cur e of None \<Rightarrow> 0 | Some n \<Rightarrow> n"
  have small: "unat (enc_len e) + (B + t) + 1 < 2 ^ 64" and ans: "answers (Suc k) (enc_heap e)"
    and used: "length (encoded e) + c \<le> unat (enc_len e)" "unat (enc_len e) \<le> length (enc_block e)"
    and none: "enc_cur e = None \<longrightarrow> enc_buf e = 0" and some: "enc_cur e \<noteq> None \<longrightarrow> ready e"
    using room by (simp_all add: growing_room_def split: if_splits)
  have t: "unat (of_nat t :: u64) = t" by (rule unat_small) (use small in linarith)
  have len: "unat (enc_len e + of_nat t) = unat (enc_len e) + t"
    using small t by (subst unat_plus) simp_all
  have N: "unat ?N = unat (enc_len e) + t + 1"
    using small len by (subst unat_plus) simp_all
  obtain p g r where r: "app_json_realloc ?N e =
      (p, e\<lparr>enc_heap := r, enc_block := resize (unat ?N) g (enc_block e)\<rparr>)" "p \<noteq> 0" "answers k r"
    using realloc_grows[OF ans] .
  let ?e = "e\<lparr>enc_heap := r, enc_block := resize (unat ?N) g (enc_block e),
    enc_cur := Some ?n, enc_buf := p, enc_len := enc_len e + of_nat t\<rparr>"
  have n: "?n = length (encoded e)" using some encoded_cases[of e]
    by (cases "enc_cur e") (auto simp: encoded_def)
  have fits: "?n \<le> unat ?N" "?n \<le> length (enc_block e)" using n used N by linarith+
  then have enc: "encoded ?e = encoded e"
    using take_resize[of ?n "enc_block e" "unat ?N" g] by (auto simp: encoded_def split: option.splits)
  have "ready ?e" using fits by (simp add: ready_def del: of_nat_add)
  moreover have "growing_room k B (c + t) ?e"
    unfolding growing_room_def enc using small used N len r \<open>ready ?e\<close> by simp
  moreover have "make_room e (of_nat t) = Some (enc_len e + of_nat t, ?e)"
    using r none dyn by (cases "enc_cur e") (simp_all add: make_room_def Let_def)
  moreover have "of_nat t \<le> enc_len e + of_nat t" using t len by (simp add: word_le_nat_alt)
  ultimately show thesis using enc by (intro that[of "enc_len e + of_nat t" ?e]) simp_all
qed

lemma make_room_fixed:
  assumes room: "fixed_room (B + t) c e" and fixed: "\<not> encoder_dynamic e"
  obtains space e' where "make_room e (of_nat t) = Some (space, e')" and "of_nat t \<le> space"
    and "ready e'" and "encoded e' = encoded e" and "enc_flags e' = enc_flags e"
    and "enc_structs e' = enc_structs e" and "fixed_room B (c + t) e'"
proof -
  let ?e = "if enc_cur e = None then e\<lparr>enc_cur := Some 0\<rparr> else e"
  have used: "length (encoded e) + c + (B + t) < unat (enc_len e)" "unat (enc_len e) \<le> length (enc_block e)"
    and buf: "enc_buf e \<noteq> 0" "unat (enc_buf e) + unat (enc_len e) < 2 ^ 64"
    and some: "enc_cur e \<noteq> None \<longrightarrow> ready e"
    using room by (auto simp: fixed_room_def)
  have t: "unat (of_nat t :: u64) = t" by (rule unat_small) (use used unat_bound[of "enc_len e"] in simp)
  have "t \<le> unat (enc_len e - offset e)"
  proof (cases "enc_cur e")
    case None
    then have "unat (enc_len e - offset e) = unat (enc_len e) + unat (enc_buf e)"
      using buf by (simp add: offset_def unat_plus add.commute)
    then show ?thesis using used by simp
  next
    case (Some m)
    then have m: "m = length (encoded e)" using some encoded_cases[of e] by simp
    then have "unat (of_nat m :: u64) = m" using used unat_bound[of "enc_len e"] by (intro unat_small) simp
    then have "unat (enc_len e - offset e) = unat (enc_len e) - m"
      using Some used m by (simp add: offset_def unat_sub word_le_nat_alt)
    then show ?thesis using used m by simp
  qed
  then have "of_nat t \<le> enc_len e - offset e" using t by (simp add: word_le_nat_alt)
  moreover have "make_room e (of_nat t) = Some (enc_len e - offset e, ?e)"
    using fixed by (simp add: make_room_def Let_def)
  moreover have re: "ready ?e" "encoded ?e = encoded e" using some by (auto simp: ready_def encoded_def)
  moreover have "fixed_room B (c + t) ?e"
    unfolding fixed_room_def re(2) using used buf re(1) by simp
  ultimately show thesis by (intro that[of "enc_len e - offset e" ?e]) simp_all
qed

lemma make_room_spec:
  assumes room: "has_room (Suc k) (B + t) c e"
  obtains space e' where "make_room e (of_nat t) = Some (space, e')" and "of_nat t \<le> space"
    and "ready e'" and "encoded e' = encoded e" and "enc_flags e' = enc_flags e"
    and "enc_structs e' = enc_structs e" and "has_room k B (c + t) e'"
proof (cases "encoder_dynamic e")
  case True
  with room have "growing_room (Suc k) (B + t) c e" by (simp add: has_room_def)
  from make_room_growing[OF this True] that True show thesis
    by (metis encoder_dynamic_def has_room_def)
next
  case False
  with room have "fixed_room (B + t) c e" by (simp add: has_room_def)
  from make_room_fixed[OF this False] that False show thesis
    by (metis encoder_dynamic_def has_room_def)
qed

section \<open>Keys\<close>

text \<open>The bytes a key, its punctuation and the closing of \<open>D\<close> levels are counted with.\<close>

definition reserve :: "bool \<Rightarrow> nat \<Rightarrow> nat \<Rightarrow> bool \<Rightarrow> bool \<Rightarrow> nat" where
  "reserve x n D key comma =
     (if key then 3 else 0) + (if n \<noteq> 0 then sum_list (map (\<lambda>i. n * i + 1) [0..<D]) else 0) +
     (if comma then 1 + (if n = 0 \<and> x then 1 else 0) else 0) + (if x then 1 else 0) +
     (if n \<noteq> 0 then n * 2 * D + 1 else 0)"

definition styled :: "bool \<Rightarrow> nat \<Rightarrow> app_json_encoder \<Rightarrow> bool" where
  "styled x n e \<longleftrightarrow> encoder_expand e = x \<and> encoder_indent e = of_nat n \<and> n < 2 ^ 16"

lemma reserve_bound:
  assumes "D \<le> 24"
  shows "reserve x n D key comma \<le> 624 * n + 32"
proof -
  have "n * i + 1 \<le> n * 24 + 1" if "i \<in> set [0..<D]" for i
    using that assms by simp
  then have "sum_list (map (\<lambda>i. n * i + 1) [0..<D]) \<le> sum_list (map (\<lambda>_. n * 24 + 1) [0..<D])"
    by (rule sum_list_mono)
  also have "\<dots> = D * (n * 24 + 1)" by (simp add: sum_list_triv)
  also have "\<dots> \<le> 24 * (n * 24 + 1)" using assms by (rule mult_le_mono1)
  finally have sum: "sum_list (map (\<lambda>i. n * i + 1) [0..<D]) \<le> 576 * n + 24" by simp
  have "n * 2 * D \<le> n * 2 * 24" using assms by (rule mult_le_mono2)
  then obtain q where q: "n * 2 * D = q" "q \<le> 48 * n" by simp
  obtain S where S: "sum_list (map (\<lambda>i. n * i + 1) [0..<D]) = S" by simp
  show ?thesis using sum q(2) unfolding reserve_def q(1) S by simp
qed

lemma u32_small: "n < 2 ^ 32 \<Longrightarrow> unat (of_nat n :: u32) = n"
  by (simp add: unat_of_nat take_bit_eq_mod)

lemma u32_zero: "n < 2 ^ 32 \<Longrightarrow> (of_nat n :: u32) = 0 \<longleftrightarrow> n = 0"
  using u32_small[of n] unat_eq_0[of "of_nat n :: u32"] by simp

lemma u32_widen: "n < 2 ^ 32 \<Longrightarrow> ucast (of_nat n :: u32) = (of_nat n :: u64)"
proof -
  assume "n < 2 ^ 32"
  moreover have "(of_nat (unat (of_nat n :: u32)) :: u64) = ucast (of_nat n :: u32)" by (rule of_nat_unat)
  ultimately show ?thesis using u32_small[of n] by simp
qed

lemma extra_space_reserve:
  assumes s: "styled x n e" and D: "app_json_encode_depth e = D" "D \<le> 24"
  shows "extra_space e key comma = of_nat (reserve x n D key comma)"
proof -
  have n: "n < 2 ^ 16" "encoder_indent e = of_nat n" "encoder_expand e = x" using s by (simp_all add: styled_def)
  have wide: "ucast (encoder_indent e * of_nat i + 1 :: u32) = (of_nat (n * i + 1) :: u64)" if "i < D" for i
  proof -
    have "n * i \<le> 2 ^ 16 * 24" using n(1) D that by (intro mult_le_mono) simp_all
    then have "n * i + 1 < 2 ^ 32" by simp
    then show ?thesis
      using u32_widen[of "n * i + 1"] n(2) by (simp only: of_nat_add of_nat_mult of_nat_1)
  qed
  have "sum_list (map (\<lambda>i. ucast (encoder_indent e * of_nat i + 1 :: u32)) [0..<D]) =
      (of_nat (sum_list (map (\<lambda>i. n * i + 1) [0..<D])) :: u64)"
  proof -
    have "map (\<lambda>i. ucast (encoder_indent e * of_nat i + 1 :: u32)) [0..<D] =
        (map (\<lambda>i. of_nat (n * i + 1)) [0..<D] :: u64 list)"
      by (rule map_cong[OF refl]) (use wide in auto)
    moreover have "sum_list (map (\<lambda>i. of_nat (n * i + 1)) is) = (of_nat (sum_list (map (\<lambda>i. n * i + 1) is)) :: u64)"
      for "is" by (induction "is") simp_all
    ultimately show ?thesis by (simp only:)
  qed
  moreover have "n * 2 * D + 1 < 2 ^ 32"
  proof -
    have "n * 2 * D + 1 \<le> 2 ^ 16 * 2 * 24 + 1" using n(1) D by (intro add_right_mono mult_le_mono) simp_all
    then show ?thesis by (rule le_less_trans) simp
  qed
  then have "ucast (encoder_indent e * 2 * of_nat D + 1 :: u32) = (of_nat (n * 2 * D + 1) :: u64)"
    using u32_widen[of "n * 2 * D + 1"] n(2) by (simp only: of_nat_add of_nat_mult of_nat_1 of_nat_numeral)
  moreover have "encoder_indent e = 0 \<longleftrightarrow> n = 0" using n u32_zero[of n] by simp
  ultimately show ?thesis
    unfolding extra_space_def reserve_def D(1) Let_def n(3) by simp
qed

text \<open>The characters in front of an item: its separator and its key.\<close>

definition key_text :: "bool \<Rightarrow> string option \<Rightarrow> string" where
  "key_text x key = (case key of None \<Rightarrow> '''' | Some k \<Rightarrow> item_name x k)"

definition key_length :: "string option \<Rightarrow> nat" where
  "key_length key = (case key of None \<Rightarrow> 0 | Some k \<Rightarrow> length (escape_text k))"

lemma lead_length:
  "length (separator x n D (\<not> comma) @ key_text x key) + vl + n * D \<le>
     key_length key + vl + reserve x n D (key \<noteq> None) comma"
proof -
  obtain q where q: "n * D = q" by simp
  have q2: "n * 2 * D = 2 * q" using q by simp
  have "length (separator x n D (\<not> comma) @ key_text x key) =
      (if comma then 1 + (if n = 0 \<and> x then 1 else 0) else 0) +
      (if n > 0 \<and> D > 0 then 1 + q else 0) + (if key = None then 0 else 3 + key_length key + (if x then 1 else 0))"
    by (cases key) (simp_all add: separator_def key_text_def item_name_def key_length_def line_break_def q)
  moreover have "n = 0 \<or> D = 0 \<Longrightarrow> q = 0" using q by auto
  ultimately show ?thesis unfolding reserve_def q q2
    by (cases "n = 0"; cases "D = 0"; cases key; simp add: key_length_def)
qed

lemma write_key_emits:
  assumes s: "styled x n e" and D: "app_json_encode_depth e = D" "D \<le> 24"
  shows "write_key e key comma = emits (separator x n D (\<not> comma) @ key_text x key) e"
proof -
  have n: "n < 2 ^ 16" "encoder_indent e = of_nat n" "encoder_expand e = x" using s by (simp_all add: styled_def)
  then have zero: "(of_nat n :: u32) = 0 \<longleftrightarrow> n = 0" using u32_zero[of n] by simp
  have "n * D \<le> 2 ^ 16 * 24" using n(1) D by (intro mult_le_mono) simp_all
  then have nD: "unat (of_nat n * of_nat D :: u32) = n * D" using u32_small[of "n * D"] by simp
  have copy: "copy_out (escape_text k) (app_json_encode_strlen k) e = emits (escape_text k) e"
    "copy_out [CHR 0x22, CHR '':''] 2 e = emits [CHR 0x22, CHR '':''] e" for k e
    using copy_out_emits[of "[CHR 0x22, CHR '':'']" e] by (simp_all add: strlen_escape copy_out_emits numeral_2_eq_2)
  show ?thesis
    unfolding write_key_def Let_def D(1) n(2,3) zero nD strncpy_escape separator_def key_text_def
      item_name_def line_break_def os_strncpy_def emit_emits
    by (cases comma; cases "n = 0"; cases "D = 0"; cases x; cases key;
        simp add: emits_append copy strncpy_escape bind_assoc cong: option.case_cong)
qed

lemma encode_item_spec:
  assumes s: "styled x n e" and D: "app_json_encode_depth e = D" "D \<le> 24"
    and comma: "needs_comma e = Some comma"
    and room: "has_room (Suc k) (B + (key_length key + vl + 624 * n + 32)) c e"
  obtains e' where "encode_item e key (of_nat vl) = Some (STATUS_SUCCESS, e')"
    and "ready e'" and "encoded e' = encoded e @ separator x n D (\<not> comma) @ key_text x key"
    and "enc_flags e' = enc_flags e" and "enc_structs e' = enc_structs e" and "has_room k B (c + vl + n * D) e'"
proof -
  define t where "t = key_length key + vl + reserve x n D (key \<noteq> None) comma"
  let ?t = "separator x n D (\<not> comma) @ key_text x key"
  have "t \<le> key_length key + vl + 624 * n + 32" using reserve_bound[OF D(2), of x n] by (simp add: t_def)
  then have "has_room (Suc k) (B + t) c e" using room by (elim has_room_less) simp_all
  then obtain space e' where e': "make_room e (of_nat t) = Some (space, e')" "of_nat t \<le> space"
    "ready e'" "encoded e' = encoded e" "enc_flags e' = enc_flags e" "enc_structs e' = enc_structs e"
    "has_room k B (c + t) e'"
    by (rule make_room_spec)
  have need: "(case key of None \<Rightarrow> 0 | Some k \<Rightarrow> of_nat (app_json_encode_strlen k)) + of_nat vl +
      extra_space e (key \<noteq> None) comma = of_nat t"
    by (cases key) (simp_all add: extra_space_reserve[OF s D] t_def key_length_def strlen_escape)
  have styled: "styled x n e'" "app_json_encode_depth e' = D"
    using s e' D by (simp_all add: styled_def encoder_indent_def encoder_expand_def app_json_encode_depth_def)
  have room': "has_room k B (length ?t + (c + vl + n * D)) e'"
    using e'(7) by (rule has_room_less) (use lead_length[of x n D comma key vl] in \<open>simp_all add: t_def\<close>)
  have "encode_item e key (of_nat vl) = Some (STATUS_SUCCESS, written ?t e')"
    using e'(1,2) has_room_written[OF room' e'(3)] write_key_emits[OF styled D(2)]
    by (simp add: encode_item_def comma need Let_def del: not_None_eq)
  then show thesis
    using has_room_written[OF room' e'(3)] e' by (intro that) simp_all
qed

section \<open>An encoder that follows a document\<close>

primrec kind_bits :: "members \<Rightarrow> nat" where
  "kind_bits (Items vs) = 1" | "kind_bits (Members ms) = 2"

fun code_list :: "level list \<Rightarrow> nat list" where
  "code_list [] = []"
| "code_list ((k, c) # ls) = (kind_bits c + (if wraps ls k then 4 else 0)) # code_list ls"

lemma length_code_list [simp]: "length (code_list ls) = length ls"
  by (induction ls rule: code_list.induct) simp_all

lemma code_list_codes: "length ls \<le> 21 \<Longrightarrow> level_codes (code_list ls)"
proof (induction ls rule: code_list.induct)
  case (2 k c ls)
  then show ?case by (cases c) auto
qed (simp add: level_codes_def)

lemma ones_codes [simp]: "ones 2 = 1" "ones (Suc (Suc 0)) = 1" "ones 4 = 1" "ones 5 = 2" "ones 6 = 2"
  by (simp_all add: ones.simps)

lemma ones_code_list: "sum_list (map ones (code_list ls)) = level_depth ls"
proof (induction ls rule: code_list.induct)
  case (2 k c ls)
  then show ?case by (cases c) auto
qed simp

lemma length_level_depth: "length ls \<le> level_depth ls"
  by (induction ls rule: level_depth.induct) auto

text \<open>The room all closing brackets take at most.\<close>

fun closers :: "nat \<Rightarrow> nat \<Rightarrow> nat" where
  "closers n 0 = 0"
| "closers n (Suc d) = closers n d + (if n = 0 then 1 else n * d + 2)"

definition follows :: "bool \<Rightarrow> nat \<Rightarrow> nat \<Rightarrow> nat \<Rightarrow> document \<Rightarrow> app_json_encoder \<Rightarrow> bool" where
  "follows x n k B D e \<longleftrightarrow>
     styled x n e \<and> encoded e = document_text x n D \<and> CHR 0x00 \<notin> set (encoded e) \<and>
     enc_structs e = pack (code_list (snd D)) \<and> length (snd D) \<le> 21 \<and> level_depth (snd D) \<le> 22 \<and>
     has_room k B (closers n (level_depth (snd D))) e \<and> (enc_cur e = None \<longleftrightarrow> D = ([], []))"

lemma follows_less: "follows x n k B D e \<Longrightarrow> k' \<le> k \<Longrightarrow> B' \<le> B \<Longrightarrow> follows x n k' B' D e"
  by (auto simp: follows_def intro: has_room_less)

lemma follows_depth: "follows x n k B D e \<Longrightarrow> app_json_encode_depth e = level_depth (snd D)"
  by (simp add: follows_def app_json_encode_depth_def depth_pack code_list_codes ones_code_list)

lemma has_room_ready: "has_room k B c e \<Longrightarrow> enc_cur e \<noteq> None \<Longrightarrow> ready e"
  by (auto simp: has_room_def growing_room_def fixed_room_def split: if_splits)

lemma comma_encoded:
  assumes "enc_cur e = None \<or> ready e"
  shows "needs_comma e = Some (encoded e \<noteq> '''' \<and> last (encoded e) \<notin> set JSON_CHARS_START)"
proof (cases "encoded e = ''''")
  case True
  then show ?thesis using assms
    by (auto simp: needs_comma_def encoded_def ready_def split: option.splits nat.splits)
next
  case False
  then have r: "ready e" using assms by (auto simp: encoded_def)
  obtain m where "enc_cur e = Some (Suc m)"
    using encoded_cases[OF r] False by (cases "length (encoded e)") auto
  then show ?thesis using char_before_encoded[OF r False] False by (simp add: needs_comma_def)
qed

lemma follows_comma: "follows x n k B D e \<Longrightarrow> needs_comma e = Some (\<not> nothing_before D)"
proof -
  assume f: "follows x n k B D e"
  then have "enc_cur e = None \<or> ready e" by (auto simp: follows_def dest: has_room_ready)
  moreover have "encoded e = document_text x n D" using f by (simp add: follows_def)
  ultimately show ?thesis using comma_encoded[of e] document_text_last[of D x n]
    by (auto split: if_splits)
qed

lemma and_bit: "(w :: u64) AND 1 = 0 \<longleftrightarrow> \<not> bit w 0" "(w :: u64) AND 2 = 0 \<longleftrightarrow> \<not> bit w 1"
    "(w :: u64) AND 4 = 0 \<longleftrightarrow> \<not> bit w 2"
  using and_exp_eq_0_iff_not_bit[of w 0] and_exp_eq_0_iff_not_bit[of w 1] and_exp_eq_0_iff_not_bit[of w 2]
  by simp_all

lemma code_bits [simp]:
  "bit (Suc 0) 0" "\<not> bit (Suc 0) 1" "\<not> bit (Suc 0) (Suc 0)" "\<not> bit (Suc 0) 2"
  "bit (1 :: nat) 0" "\<not> bit (1 :: nat) 1" "\<not> bit (1 :: nat) (Suc 0)" "\<not> bit (1 :: nat) 2"
  "\<not> bit (2 :: nat) 0" "bit (2 :: nat) 1" "bit (2 :: nat) (Suc 0)" "\<not> bit (2 :: nat) 2"
  "\<not> bit (Suc (Suc 0)) 0" "bit (Suc (Suc 0)) 1" "bit (Suc (Suc 0)) (Suc 0)" "\<not> bit (Suc (Suc 0)) 2"
  "\<not> bit (4 :: nat) 0" "\<not> bit (4 :: nat) 1" "\<not> bit (4 :: nat) (Suc 0)" "bit (4 :: nat) 2"
  "bit (5 :: nat) 0" "\<not> bit (5 :: nat) 1" "\<not> bit (5 :: nat) (Suc 0)" "bit (5 :: nat) 2"
  "\<not> bit (6 :: nat) 0" "bit (6 :: nat) 1" "bit (6 :: nat) (Suc 0)" "bit (6 :: nat) 2"
  by (simp_all add: bit_iff_odd)

lemma follows_object:
  assumes "follows x n k B D e"
  shows "enc_structs e AND APP_JSON_TYPE_OBJECT = 0 \<longleftrightarrow> snd D = [] \<or> in_array (snd D)"
    and "enc_structs e = 0 \<longleftrightarrow> snd D = []"
proof -
  have codes: "level_codes (code_list (snd D))" and t: "enc_structs e = pack (code_list (snd D))"
    using assms by (simp_all add: follows_def code_list_codes)
  show "enc_structs e = 0 \<longleftrightarrow> snd D = []"
    using pack_zero[OF codes] t length_code_list[of "snd D"] by (metis length_0_conv)
  show "enc_structs e AND APP_JSON_TYPE_OBJECT = 0 \<longleftrightarrow> snd D = [] \<or> in_array (snd D)"
  proof (cases "snd D")
    case Nil
    then show ?thesis using t by (simp add: pack_def)
  next
    case (Cons l ls)
    then obtain k c where l: "snd D = (k, c) # ls" by (cases l) auto
    have "bit (enc_structs e) 1 \<longleftrightarrow> bit (kind_bits c + (if wraps ls k then 4 else 0)) 1"
      using bit_pack[of "kind_bits c + (if wraps ls k then 4 else 0)" "code_list ls" 1] codes t l by simp
    then show ?thesis
      using l by (cases c) (auto simp: APP_JSON_TYPE_OBJECT_def and_bit in_array_def split: if_splits)
  qed
qed

lemma start_chars_simps [simp]:
  "start_chars 1 = ''[''" "start_chars 2 = ''{''" "start_chars 4 = ''{''"
proof -
  have rev: "rev [0..<JSON_STRUCT_BITS] = [2, 1, 0]" by (simp add: JSON_STRUCT_BITS_def upt_rec)
  have bits: "start_chars s = (if s AND 4 \<noteq> 0 then ''{'' else '''') @ (if s AND 2 \<noteq> 0 then ''{'' else '''') @
      (if s AND 1 \<noteq> 0 then ''['' else '''')" for s
    by (simp add: start_chars_def rev and_bit JSON_CHARS_START_def)
  show "start_chars 1 = ''[''" "start_chars 2 = ''{''" "start_chars 4 = ''{''"
    unfolding bits by simp_all
qed

section \<open>Starting a level, giving a key\<close>

text \<open>The room one item takes besides its key and its value.\<close>

definition item_cost :: "nat \<Rightarrow> nat" where
  "item_cost n = 625 * n + 34"

lemma indent_plus: "styled x n e \<Longrightarrow> ucast (encoder_indent e + 2) = (of_nat (n + 2) :: u64)"
  using u32_widen[of "n + 2"] unfolding styled_def by (simp only: of_nat_add of_nat_numeral) simp

lemma styled_flags: "styled x n e \<Longrightarrow> enc_flags e' = enc_flags e \<Longrightarrow> styled x n e'"
  by (simp add: styled_def encoder_indent_def encoder_expand_def)

text \<open>The object a key outside an object needs.\<close>

lemma open_brace:
  assumes s: "styled x n e" and D: "app_json_encode_depth e = d" "d < 21"
    and obj: "enc_structs e AND APP_JSON_TYPE_OBJECT = 0" and comma: "needs_comma e = Some comma"
    and t: "start_chars t = ''{''"
    and room: "has_room (Suc k) (B + item_cost n) (closers n d) e"
  obtains e' where "app_json_encode_struct_start e None t = Some (STATUS_SUCCESS, e')"
    and "ready e'" and "encoded e' = encoded e @ separator x n d (\<not> comma) @ ''{''"
    and "enc_flags e' = enc_flags e" and "enc_structs e' = push_bit 3 (enc_structs e) OR t"
    and "has_room k B (closers n (Suc d)) e'"
proof -
  have d24: "d \<le> 24" using D by simp
  have "has_room (Suc k) (B + (key_length None + (n + 2) + 624 * n + 32)) (closers n d) e"
    using room by (rule has_room_less) (simp_all add: key_length_def item_cost_def)
  then obtain e1 where e1: "encode_item e None (of_nat (n + 2)) = Some (STATUS_SUCCESS, e1)" "ready e1"
    "encoded e1 = encoded e @ separator x n d (\<not> comma) @ key_text x None"
    "enc_flags e1 = enc_flags e" "enc_structs e1 = enc_structs e" "has_room k B (closers n d + (n + 2) + n * d) e1"
    by (rule encode_item_spec[OF s D(1) d24 comma])
  have "has_room k B (length ''{'' + closers n (Suc d)) e1"
    using e1(6) by (rule has_room_less) simp_all
  note w = has_room_written[OF this e1(2)]
  have "app_json_encode_key e None (of_nat (n + 2)) = Some (STATUS_SUCCESS, False, e1)"
    using e1(1) obj by (simp add: app_json_encode_key.simps)
  then have "app_json_encode_struct_start e None t = Some (STATUS_SUCCESS,
      (written ''{'' e1)\<lparr>enc_structs := push_bit 3 (enc_structs e) OR t\<rparr>)"
    using D t w(1) e1(5) indent_plus[OF s]
    by (simp add: app_json_encode_struct_start.simps JSON_MAX_DEPTH_def JSON_STRUCT_BITS_def del: of_nat_add)
  then show thesis
    using e1 w(2)
    by (intro that[of "(written ''{'' e1)\<lparr>enc_structs := push_bit 3 (enc_structs e) OR t\<rparr>"])
      (simp_all add: key_text_def)
qed

text \<open>The state after a key (and the object it may have needed) has been written.\<close>

definition keyed ::
  "bool \<Rightarrow> nat \<Rightarrow> nat \<Rightarrow> nat \<Rightarrow> nat \<Rightarrow> document \<Rightarrow> string option \<Rightarrow> app_json_encoder \<Rightarrow> bool" where
  "keyed x n k B vl D key e \<longleftrightarrow>
     (let D' = add_root D key; w = wraps (snd D) key; d = level_depth (snd D') + (if w then 1 else 0)
      in ready e \<and> styled x n e \<and> encoded e = document_text x n D' @ before_value x n D' key \<and>
         enc_structs e = pack ((if w then [4] else []) @ code_list (snd D')) \<and>
         has_room k B (closers n d + vl + n * d) e)"

lemma keyed_plain:
  assumes f: "follows x n (Suc k) (B + (key_length (Some k') + vl + item_cost n)) D e"
    and key: "snd D = [] \<and> key = None \<and> key' = None \<or> in_array (snd D) \<and> key = None \<and> key' = None \<or>
      snd D \<noteq> [] \<and> \<not> in_array (snd D) \<and> key' = Some k' \<and> k' = (case key of None \<Rightarrow> '''' | Some k \<Rightarrow> k)"
  obtains e' where "encode_item e key' (of_nat vl) = Some (STATUS_SUCCESS, e')" and "keyed x n k B vl D key e'"
proof -
  have s: "styled x n e" and room: "has_room (Suc k) (B + (key_length (Some k') + vl + item_cost n))
      (closers n (level_depth (snd D))) e" and enc: "encoded e = document_text x n D"
    and t: "enc_structs e = pack (code_list (snd D))" and d: "level_depth (snd D) \<le> 22"
    using f by (simp_all add: follows_def)
  have d24: "level_depth (snd D) \<le> 24" using d by simp
  have "key_length key' \<le> key_length (Some k')" using key by (auto simp: key_length_def)
  then have "has_room (Suc k) (B + (key_length key' + vl + 624 * n + 32)) (closers n (level_depth (snd D))) e"
    using room by (elim has_room_less) (simp_all add: item_cost_def)
  then obtain e' where e': "encode_item e key' (of_nat vl) = Some (STATUS_SUCCESS, e')" "ready e'"
    "encoded e' = encoded e @ separator x n (level_depth (snd D)) (\<not> \<not> nothing_before D) @ key_text x key'"
    "enc_flags e' = enc_flags e" "enc_structs e' = enc_structs e"
    "has_room k B (closers n (level_depth (snd D)) + vl + n * level_depth (snd D)) e'"
    by (rule encode_item_spec[OF s follows_depth[OF f] d24 follows_comma[OF f]])
  have root: "add_root D key = D" "\<not> wraps (snd D) key"
    using key by (auto simp: add_root_def wraps_def)
  have "before_value x n D key = separator x n (level_depth (snd D)) (nothing_before D) @ key_text x key'"
    using key by (auto simp: before_value_def key_text_def in_array_def)
  then have "keyed x n k B vl D key e'"
    using e' enc t root styled_flags[OF s e'(4)] by (simp add: keyed_def)
  then show thesis using e'(1) that by blast
qed

lemma keyed_brace:
  assumes f: "follows x n (Suc (Suc k)) (B + (key_length (Some k') + vl + 2 * item_cost n)) D e"
    and top: "snd D = [] \<or> in_array (snd D)" and d: "level_depth (snd D) < 21"
    and t: "t = (if snd D = [] then 2 else 4)"
  obtains e1 e2 where "app_json_encode_struct_start e None t = Some (STATUS_SUCCESS, e1)"
    and "encode_item e1 (Some k') (of_nat vl) = Some (STATUS_SUCCESS, e2)"
    and "keyed x n k B vl D (Some k') e2"
proof -
  let ?d = "level_depth (snd D)"
  have s: "styled x n e" and enc: "encoded e = document_text x n D"
    and st: "enc_structs e = pack (code_list (snd D))" and len: "length (snd D) \<le> 20"
    using f d length_level_depth[of "snd D"] by (simp_all add: follows_def)
  have room: "has_room (Suc (Suc k)) ((B + (key_length (Some k') + vl + item_cost n)) + item_cost n) (closers n ?d) e"
    using f unfolding follows_def by (elim conjE has_room_less) simp_all
  have chars: "start_chars t = ''{''" using t by simp
  obtain e1 where e1: "app_json_encode_struct_start e None t = Some (STATUS_SUCCESS, e1)" "ready e1"
    "encoded e1 = encoded e @ separator x n ?d (\<not> \<not> nothing_before D) @ ''{''" "enc_flags e1 = enc_flags e"
    "enc_structs e1 = push_bit 3 (enc_structs e) OR t"
    "has_room (Suc k) (B + (key_length (Some k') + vl + item_cost n)) (closers n (Suc ?d)) e1"
    using open_brace[OF s follows_depth[OF f] d _ follows_comma[OF f] chars room] follows_object[OF f] top
    by metis
  define c where "c = (if snd D = [] then 2 else 4 :: nat)"
  have codes: "level_codes (c # code_list (snd D))" using len code_list_codes[of "snd D"] by (simp add: c_def)
  have "t = of_nat c" using t by (simp add: c_def)
  then have st1: "enc_structs e1 = pack (c # code_list (snd D))" using e1(5) st push_pack[OF codes] by simp
  have s1: "styled x n e1" using styled_flags[OF s e1(4)] .
  have depth1: "app_json_encode_depth e1 = Suc ?d"
    using depth_pack[OF codes] st1 by (simp add: app_json_encode_depth_def ones_code_list c_def)
  have comma1: "needs_comma e1 = Some False"
    using comma_encoded[of e1] e1(2,3) by (simp add: JSON_CHARS_START_def)
  have d24: "Suc ?d \<le> 24" using d by simp
  have "has_room (Suc k) (B + (key_length (Some k') + vl + 624 * n + 32)) (closers n (Suc ?d)) e1"
    using e1(6) by (rule has_room_less) (simp_all add: item_cost_def)
  then obtain e2 where e2: "encode_item e1 (Some k') (of_nat vl) = Some (STATUS_SUCCESS, e2)" "ready e2"
    "encoded e2 = encoded e1 @ separator x n (Suc ?d) (\<not> False) @ key_text x (Some k')"
    "enc_flags e2 = enc_flags e1" "enc_structs e2 = enc_structs e1"
    "has_room k B (closers n (Suc ?d) + vl + n * Suc ?d) e2"
    by (rule encode_item_spec[OF s1 depth1 d24 comma1])
  have "keyed x n k B vl D (Some k') e2"
  proof (cases "snd D")
    case Nil
    then have root: "add_root D (Some k') = (fst D, [(None, Members [])])" "D = (fst D, [])"
      by (auto simp: add_root_def intro: prod_eqI)
    have "document_text x n (fst D, []) @ before_value x n (fst D, []) None = encoded e @ separator x n 0 (nothing_before D)"
      using enc Nil by (cases D) (simp add: before_value_def)
    then show ?thesis
      using e2 e1(3) st1 styled_flags[OF s1 e2(4)] Nil root(1)
      by (simp add: keyed_def Let_def wraps_def in_array_def c_def before_value_def nothing_before_def
          key_text_def member_texts_def)
  next
    case (Cons l ls)
    then have "add_root D (Some k') = D" "wraps (snd D) (Some k')" "in_array (snd D)"
      using top by (auto simp: add_root_def wraps_def in_array_def)
    then show ?thesis
      using e2 e1(3) st1 styled_flags[OF s1 e2(4)] Cons enc
      by (cases "n = 0") (simp_all add: keyed_def Let_def c_def before_value_def key_text_def ac_simps)
  qed
  with e1(1) e2(1) show thesis by (rule that)
qed

lemma encode_key_spec:
  assumes f: "follows x n (Suc (Suc k)) (B + (key_length (Some (case key of None \<Rightarrow> '''' | Some k \<Rightarrow> k)) + vl + 2 * item_cost n)) D e"
    and d: "wraps (snd D) key \<Longrightarrow> level_depth (snd D) < 21"
  obtains e' where "app_json_encode_key e key (of_nat vl) = Some (STATUS_SUCCESS, wraps (snd D) key, e')"
    and "keyed x n k B vl D key e'"
proof (cases "key \<noteq> None \<and> (snd D = [] \<or> in_array (snd D))")
  case True
  then obtain k' where k': "key = Some k'" by blast
  have d': "level_depth (snd D) < 21" using d True k' by (auto simp: wraps_def)
  have f': "follows x n (Suc (Suc k)) (B + (key_length (Some k') + vl + 2 * item_cost n)) D e"
    using f k' by simp
  obtain e1 e2 where e2:
    "app_json_encode_struct_start e None (if snd D = [] then 2 else 4) = Some (STATUS_SUCCESS, e1)"
    "encode_item e1 (Some k') (of_nat vl) = Some (STATUS_SUCCESS, e2)" "keyed x n k B vl D (Some k') e2"
    by (rule keyed_brace[OF f' conjunct2[OF True] d' refl])
  have inner: "(enc_structs e \<noteq> 0) = wraps (snd D) key"
    using follows_object(2)[OF f] True k' by (auto simp: wraps_def in_array_def)
  have kind: "(if enc_structs e \<noteq> 0 then APP_JSON_TYPE_OBJECT * 2 else APP_JSON_TYPE_OBJECT) =
      (if snd D = [] then 2 else 4)"
    using follows_object(2)[OF f] by (simp add: APP_JSON_TYPE_OBJECT_def)
  have "enc_structs e AND APP_JSON_TYPE_OBJECT = 0" using follows_object(1)[OF f] True by blast
  then have "app_json_encode_key e key (of_nat vl) = Some (STATUS_SUCCESS, wraps (snd D) key, e2)"
    unfolding app_json_encode_key.simps Let_def kind using e2(1,2) inner k' by simp
  then show thesis using e2(3) k' by (intro that) simp_all
next
  case False
  define k' where "k' = (case key of None \<Rightarrow> '''' | Some k \<Rightarrow> k)"
  define key' where "key' = (if snd D = [] \<or> in_array (snd D) then None else Some k')"
  have "follows x n (Suc k) (B + (key_length (Some k') + vl + item_cost n)) D e"
    using f by (rule follows_less) (simp_all add: k'_def)
  moreover have cases: "snd D = [] \<and> key = None \<and> key' = None \<or> in_array (snd D) \<and> key = None \<and> key' = None \<or>
      snd D \<noteq> [] \<and> \<not> in_array (snd D) \<and> key' = Some k' \<and> k' = (case key of None \<Rightarrow> '''' | Some k \<Rightarrow> k)"
    using False by (auto simp: key'_def k'_def)
  ultimately obtain e' where e': "encode_item e key' (of_nat vl) = Some (STATUS_SUCCESS, e')"
    "keyed x n k B vl D key e'"
    by (rule keyed_plain)
  have "(if key = None \<and> enc_structs e AND APP_JSON_TYPE_OBJECT \<noteq> 0 then Some '''' else key) = key'"
    using follows_object(1)[OF f] False by (cases key) (auto simp: key'_def k'_def)
  moreover have w: "wraps (snd D) key = False" using False by (auto simp: wraps_def)
  moreover have "(key \<noteq> None \<and> enc_structs e AND APP_JSON_TYPE_OBJECT = 0) = False"
    using follows_object(1)[OF f] False by blast
  ultimately have "app_json_encode_key e key (of_nat vl) = Some (STATUS_SUCCESS, wraps (snd D) key, e')"
    unfolding app_json_encode_key.simps[of e key] by (simp only: if_False e'(1) w) simp
  then show thesis using e'(2) by (rule that)
qed

section \<open>Ending a level\<close>

lemma grow_more:
  assumes room: "growing_room (Suc k) (B + t) c e" and "ready e" and t: "0 < t"
  obtains p e' where "app_json_realloc (enc_len e + of_nat t) e = (p, e')" and "p \<noteq> 0"
    and "ready (e'\<lparr>enc_buf := p, enc_len := enc_len e + of_nat t\<rparr>)"
    and "encoded (e'\<lparr>enc_buf := p, enc_len := enc_len e + of_nat t\<rparr>) = encoded e"
    and "enc_flags e' = enc_flags e" and "enc_structs e' = enc_structs e"
    and "growing_room k B c (e'\<lparr>enc_buf := p, enc_len := enc_len e + of_nat t\<rparr>)"
proof -
  let ?N = "enc_len e + of_nat t"
  have small: "unat (enc_len e) + (B + t) + 1 < 2 ^ 64" and ans: "answers (Suc k) (enc_heap e)"
    and used: "length (encoded e) + c \<le> unat (enc_len e)" "unat (enc_len e) \<le> length (enc_block e)"
    using room by (simp_all add: growing_room_def split: if_splits)
  have cur: "enc_cur e = Some (length (encoded e))" "length (encoded e) \<le> length (enc_block e)"
    using encoded_cases[OF \<open>ready e\<close>] by simp_all
  have "unat (of_nat t :: u64) = t" by (rule unat_small) (use small in linarith)
  then have N: "unat ?N = unat (enc_len e) + t" using small by (subst unat_plus) simp_all
  obtain p g r where r: "app_json_realloc ?N e =
      (p, e\<lparr>enc_heap := r, enc_block := resize (unat ?N) g (enc_block e)\<rparr>)" "p \<noteq> 0" "answers k r"
    using realloc_grows[OF ans] .
  let ?e = "e\<lparr>enc_heap := r, enc_block := resize (unat ?N) g (enc_block e), enc_buf := p, enc_len := ?N\<rparr>"
  have fits: "length (encoded e) \<le> unat ?N" using used N by linarith
  have "take (length (encoded e)) (enc_block e) = encoded e"
    using \<open>ready e\<close> by (auto simp: ready_def encoded_def)
  then have enc: "encoded ?e = encoded e"
    using take_resize[of "length (encoded e)" "enc_block e" "unat ?N" g] fits cur
    by (simp add: encoded_def[of ?e] del: of_nat_add)
  moreover have re: "ready ?e" using fits cur by (simp add: ready_def del: of_nat_add)
  moreover have "growing_room k B c ?e"
    unfolding growing_room_def enc using small used N r re t cur by simp
  ultimately show thesis
    using r by (intro that[of p "e\<lparr>enc_heap := r, enc_block := resize (unat ?N) g (enc_block e)\<rparr>"]) simp_all
qed

text \<open>The request for the room of one closing bracket.\<close>

lemma end_room:
  assumes room: "has_room (Suc k) (B + t) c e" and "ready e" and t: "0 < t"
    and space: "\<not> encoder_dynamic e \<Longrightarrow> t \<le> unat (space :: u64)"
  obtains space' e' where
    "(if of_nat t > space
      then if encoder_dynamic e
           then let (p, e') = app_json_realloc (enc_len e + of_nat t) e
                in if p \<noteq> 0
                   then (STATUS_SUCCESS, space + of_nat t, e'\<lparr>enc_buf := p, enc_len := enc_len e + of_nat t\<rparr>)
                   else (STATUS_NO_MEMORY, space, e')
           else (STATUS_NO_MEMORY, space, e)
      else (STATUS_SUCCESS, space, e)) = (STATUS_SUCCESS, space', e')"
    and "ready e'" and "encoded e' = encoded e" and "enc_flags e' = enc_flags e"
    and "enc_structs e' = enc_structs e" and "has_room k B c e'" and "\<not> encoder_dynamic e \<longrightarrow> space' = space"
proof (cases "of_nat t > space")
  case True
  have "t < 2 ^ 64"
    using room unat_bound[of "enc_len e"]
    by (cases "encoder_dynamic e") (auto simp: has_room_def growing_room_def fixed_room_def)
  then have "unat (of_nat t :: u64) = t" by (rule unat_small)
  moreover have "unat space < unat (of_nat t :: u64)" using True by (simp add: word_less_nat_alt)
  ultimately have "\<not> t \<le> unat space" by linarith
  then have dyn: "encoder_dynamic e" using space by blast
  then have "growing_room (Suc k) (B + t) c e" using room by (simp add: has_room_def)
  from grow_more[OF this \<open>ready e\<close> t]
  obtain p e' where e': "app_json_realloc (enc_len e + of_nat t) e = (p, e')" "p \<noteq> 0"
    "ready (e'\<lparr>enc_buf := p, enc_len := enc_len e + of_nat t\<rparr>)"
    "encoded (e'\<lparr>enc_buf := p, enc_len := enc_len e + of_nat t\<rparr>) = encoded e"
    "enc_flags e' = enc_flags e" "enc_structs e' = enc_structs e"
    "growing_room k B c (e'\<lparr>enc_buf := p, enc_len := enc_len e + of_nat t\<rparr>)" .
  then have "has_room k B c (e'\<lparr>enc_buf := p, enc_len := enc_len e + of_nat t\<rparr>)"
    using dyn by (simp add: has_room_def encoder_dynamic_def)
  then show thesis using True dyn e'
    by (intro that[of "space + of_nat t" "e'\<lparr>enc_buf := p, enc_len := enc_len e + of_nat t\<rparr>"]) simp_all
next
  case False
  have "has_room k B c e" using room by (rule has_room_less) simp_all
  then show thesis using False \<open>ready e\<close> by (intro that[of space e]) simp_all
qed

lemma write_break_spec:
  assumes "ready e" and "encoded e \<noteq> ''''"
    and room: "has_room k B (length (line_break n d) + c) e" and j: "unat j = n * d"
  shows "write_break j e = (if last (encoded e) \<in> set JSON_CHARS_START then Some (False, e)
    else Some (True, written (line_break n d) e))"
proof -
  have "last (encoded e) \<notin> set JSON_CHARS_START \<longleftrightarrow>
      last (encoded e) \<noteq> JSON_CHARS_START ! 0 \<and> last (encoded e) \<noteq> JSON_CHARS_START ! 1"
    by (simp add: JSON_CHARS_START_def)
  then show ?thesis
    using char_before_encoded[OF assms(1,2)] has_room_written(1)[OF room assms(1)]
    by (simp add: write_break_def line_break_def j del: emits.simps)
qed

lemma end_step:
  assumes s: "styled x n e" and re: "ready e" "encoded e \<noteq> ''''" and d: "d \<le> 22" and i: "bit t i"
    and dw: "of_nat n * dw = (of_nat n * of_nat d :: u32)"
    and room: "has_room (Suc k) (B + (n * d + 2)) (closers n (Suc d)) e"
    and space: "\<not> encoder_dynamic e \<Longrightarrow> n * d + 2 \<le> unat space"
  obtains space' e' where
    "end_loop (i # is) t STATUS_SUCCESS dw space e =
       end_loop is t STATUS_SUCCESS (if n = 0 then dw else dw - 1) space' e'"
    and "ready e'"
    and "encoded e' = encoded e @ before_end n d (last (encoded e) \<in> set JSON_CHARS_START) @ [JSON_CHARS_END ! i]"
    and "enc_flags e' = enc_flags e" and "enc_structs e' = enc_structs e" and "has_room k B (closers n d) e'"
    and "\<not> encoder_dynamic e \<longrightarrow> unat space - (n + 2) \<le> unat space'"
proof -
  have n: "n < 2 ^ 16" "encoder_indent e = of_nat n" using s by (simp_all add: styled_def)
  have zero: "(of_nat n :: u32) = 0 \<longleftrightarrow> n = 0" using u32_zero[of n] n(1) by simp
  have "n * d \<le> 2 ^ 16 * 22" using n(1) d by (intro mult_le_mono) simp_all
  then have small: "n * d + 2 < 2 ^ 32" by simp
  then have nd: "unat (of_nat n * of_nat d :: u32) = n * d" using u32_small[of "n * d"] by simp
  have need: "ucast (of_nat n * of_nat d + 2 :: u32) = (of_nat (n * d + 2) :: u64)"
    using u32_widen[OF small] by (simp only: of_nat_add of_nat_mult of_nat_numeral)
  have plus: "ucast (of_nat n + 1 :: u32) = (of_nat (n + 1) :: u64)"
    using u32_widen[of "n + 1"] n(1) by (simp only: of_nat_add of_nat_1) simp
  have two: "0 < n * d + 2" by simp
  obtain space1 e1 where e1:
    "(if of_nat (n * d + 2) > space
      then if encoder_dynamic e
           then let (p, e') = app_json_realloc (enc_len e + of_nat (n * d + 2)) e
                in if p \<noteq> 0
                   then (STATUS_SUCCESS, space + of_nat (n * d + 2),
                         e'\<lparr>enc_buf := p, enc_len := enc_len e + of_nat (n * d + 2)\<rparr>)
                   else (STATUS_NO_MEMORY, space, e')
           else (STATUS_NO_MEMORY, space, e)
      else (STATUS_SUCCESS, space, e)) = (STATUS_SUCCESS, space1, e1)"
    "ready e1" "encoded e1 = encoded e" "enc_flags e1 = enc_flags e" "enc_structs e1 = enc_structs e"
    "has_room k B (closers n (Suc d)) e1" "\<not> encoder_dynamic e \<longrightarrow> space1 = space"
    using end_room[OF room re(1) two space] .
  define stop where "stop = (last (encoded e) \<in> set JSON_CHARS_START)"
  let ?b = "before_end n d stop"
  have enc1: "encoded e1 \<noteq> ''''" using re(2) e1(3) by simp
  have room2: "has_room k B (length (?b @ [JSON_CHARS_END ! i]) + closers n d) e1"
    using e1(6) by (rule has_room_less) (simp_all add: before_end_def line_break_def)
  have break: "(if encoder_indent e1 \<noteq> 0 then write_break (of_nat n * of_nat d) e1 else Some (False, e1)) =
      Some (n \<noteq> 0 \<and> \<not> stop, written ?b e1)"
  proof (cases "n = 0")
    case True
    then show ?thesis using e1(2,4) n(2) by (simp add: before_end_def written_nil encoder_indent_def)
  next
    case False
    have "has_room k B (length (line_break n d) + 0) e1"
      using e1(6) by (rule has_room_less) (simp_all add: False line_break_def)
    from write_break_spec[OF e1(2) enc1 this nd] show ?thesis
      using False e1(2,3,4) n(2) zero
      by (simp add: before_end_def written_nil encoder_indent_def stop_def)
  qed
  have step: "emit (JSON_CHARS_END ! i) (written ?b e1) = Some (written (?b @ [JSON_CHARS_END ! i]) e1)"
  proof -
    have "has_room k B (length [JSON_CHARS_END ! i] + closers n d) (written ?b e1)"
      using has_room_written(2)[of k B ?b "length [JSON_CHARS_END ! i] + closers n d" e1] room2 e1(2)
      by (simp add: add.assoc)
    from has_room_written(1)[OF this ready_written] show ?thesis by simp
  qed
  let ?space = "(if n \<noteq> 0 \<and> \<not> stop then space1 - of_nat (n + 1) else space1) - 1"
  have ind: "encoder_indent e1 = of_nat n" using n(2) e1(4) by (simp add: encoder_indent_def)
  have "end_loop (i # is) t STATUS_SUCCESS dw space e =
      end_loop is t STATUS_SUCCESS (if n = 0 then dw else dw - 1) ?space
        (written (?b @ [JSON_CHARS_END ! i]) e1)"
    by (simp only: end_loop.simps Let_def n(2) dw need i if_True e1(1)[unfolded Let_def] prod.case ind
          break[unfolded ind zero] Option.bind_lunit step plus zero simp_thms)
      (auto split: if_splits)
  moreover have "unat space - (n + 2) \<le> unat ?space" if fixed: "\<not> encoder_dynamic e"
  proof (cases "n + 2 \<le> unat space")
    case True
    then have "unat (space - of_nat (n + 1)) = unat space - (n + 1)"
      using n(1) unat_small[of "n + 1"] by (subst unat_sub) (simp_all add: word_le_nat_alt)
    moreover from this True have "unat (space - of_nat (n + 1) - 1) = unat space - (n + 1) - 1"
      by (subst unat_sub) (simp_all add: word_le_nat_alt)
    moreover have "unat (space - 1) = unat space - 1"
      using True by (subst unat_sub) (simp_all add: word_le_nat_alt)
    ultimately show ?thesis using e1(7) fixed by (auto intro!: diff_le_mono2)
  qed simp
  ultimately show thesis
    using has_room_written(2)[OF room2 e1(2)] e1(3,4,5) that unfolding stop_def
    by (metis encoded_written ready_written written_fields(2,4))
qed

lemma end_loop_skip: "\<forall>i \<in> set is. \<not> bit t i \<Longrightarrow> end_loop is t r dw space e = Some (r, e)"
  by (induction "is") simp_all

text \<open>What is written when the innermost level of bits \<open>c\<close> ends, with \<open>d\<close> levels around it.\<close>

definition end_text :: "nat \<Rightarrow> nat \<Rightarrow> nat \<Rightarrow> bool \<Rightarrow> string" where
  "end_text n d c nothing =
     before_end n (if 4 < c then d + 1 else d) nothing @ [if bit c 0 then CHR '']'' else CHR ''}''] @
     (if 4 < c then before_end n d False @ ''}'' else '''')"

definition end_cost :: "nat \<Rightarrow> nat" where
  "end_cost n = 46 * n + 4"

lemma end_one:
  assumes s: "styled x n e" and re: "ready e" "encoded e \<noteq> ''''" and d: "d \<le> 22" and i: "bit t i"
    and dw: "of_nat n * dw = (of_nat n * of_nat d :: u32)"
    and rest: "\<forall>j \<in> set is. \<not> bit t j"
    and room: "has_room (Suc k) (B + end_cost n) (closers n (Suc d)) e"
    and space: "\<not> encoder_dynamic e \<Longrightarrow> n * d + 2 \<le> unat space"
  obtains e' where "end_loop (i # is) t STATUS_SUCCESS dw space e = Some (STATUS_SUCCESS, e')"
    and "ready e'"
    and "encoded e' = encoded e @ before_end n d (last (encoded e) \<in> set JSON_CHARS_START) @ [JSON_CHARS_END ! i]"
    and "enc_flags e' = enc_flags e" and "enc_structs e' = enc_structs e" and "has_room k B (closers n d) e'"
proof -
  have nd: "n * d \<le> n * 22" using d by (rule mult_le_mono2)
  have "has_room (Suc k) (B + (n * d + 2)) (closers n (Suc d)) e"
    using room by (rule has_room_less) (use nd in \<open>unfold end_cost_def, linarith+\<close>)
  from end_step[OF s re d i dw this space, of "is"] end_loop_skip[OF rest] that show thesis by metis
qed

lemma end_two:
  assumes s: "styled x n e" and re: "ready e" "encoded e \<noteq> ''''" and d: "d \<le> 21"
    and i: "bit t i" "bit t j" "i < 3" and dw: "dw = of_nat (Suc d)"
    and mid: "\<And>r dw space e. end_loop is t r dw space e = end_loop [j] t r dw space e"
    and room: "has_room (Suc (Suc k)) (B + end_cost n) (closers n (Suc (Suc d))) e"
    and space: "\<not> encoder_dynamic e \<Longrightarrow> end_cost n \<le> unat space"
  obtains e' where "end_loop (i # is) t STATUS_SUCCESS dw space e = Some (STATUS_SUCCESS, e')"
    and "ready e'"
    and "encoded e' = encoded e @ before_end n (Suc d) (last (encoded e) \<in> set JSON_CHARS_START) @
      [JSON_CHARS_END ! i] @ before_end n d False @ [JSON_CHARS_END ! j]"
    and "enc_flags e' = enc_flags e" and "enc_structs e' = enc_structs e" and "has_room k B (closers n d) e'"
proof -
  have nd: "n * Suc d \<le> n * 22" "n * d \<le> n * 21" using d by (intro mult_le_mono2; simp)+
  have room1: "has_room (Suc (Suc k)) ((B + (n * d + 2)) + (n * Suc d + 2)) (closers n (Suc (Suc d))) e"
    using room by (rule has_room_less) (use nd in \<open>unfold end_cost_def, linarith+\<close>)
  have space1: "n * Suc d + 2 \<le> unat space" if "\<not> encoder_dynamic e"
    using space[OF that] nd unfolding end_cost_def by linarith
  have d22: "Suc d \<le> 22" "d \<le> 22" using d by simp_all
  have dw1: "of_nat n * dw = (of_nat n * of_nat (Suc d) :: u32)" using dw by simp
  obtain space1 e1 where e1:
    "end_loop (i # is) t STATUS_SUCCESS dw space e =
       end_loop is t STATUS_SUCCESS (if n = 0 then dw else dw - 1) space1 e1"
    "ready e1"
    "encoded e1 = encoded e @ before_end n (Suc d) (last (encoded e) \<in> set JSON_CHARS_START) @ [JSON_CHARS_END ! i]"
    "enc_flags e1 = enc_flags e" "enc_structs e1 = enc_structs e"
    "has_room (Suc k) (B + (n * d + 2)) (closers n (Suc d)) e1"
    "\<not> encoder_dynamic e \<longrightarrow> unat space - (n + 2) \<le> unat space1"
    using end_step[OF s re d22(1) i(1) dw1 room1 space1, of "is"] by metis
  have dw2: "of_nat n * (if n = 0 then dw else dw - 1) = (of_nat n * of_nat d :: u32)" using dw by simp
  have dyn: "encoder_dynamic e1 = encoder_dynamic e" using e1(4) by (simp add: encoder_dynamic_def)
  have space2: "n * d + 2 \<le> unat space1" if "\<not> encoder_dynamic e1"
  proof -
    have "end_cost n \<le> unat space" "unat space - (n + 2) \<le> unat space1"
      using space e1(7) that dyn by simp_all
    then show ?thesis using nd unfolding end_cost_def by linarith
  qed
  have enc1: "encoded e1 \<noteq> ''''" "last (encoded e1) \<notin> set JSON_CHARS_START"
    using e1(3) i(3) by (auto simp: JSON_CHARS_END_def JSON_CHARS_START_def less_Suc_eq numeral_3_eq_3)
  obtain space2 e2 where e2:
    "end_loop [j] t STATUS_SUCCESS (if n = 0 then dw else dw - 1) space1 e1 =
       end_loop [] t STATUS_SUCCESS (if n = 0 then (if n = 0 then dw else dw - 1) else (if n = 0 then dw else dw - 1) - 1) space2 e2"
    "ready e2"
    "encoded e2 = encoded e1 @ before_end n d (last (encoded e1) \<in> set JSON_CHARS_START) @ [JSON_CHARS_END ! j]"
    "enc_flags e2 = enc_flags e1" "enc_structs e2 = enc_structs e1" "has_room k B (closers n d) e2"
    using end_step[OF styled_flags[OF s e1(4)] e1(2) enc1(1) d22(2) i(2) dw2 e1(6) space2, of "[]"] by metis
  show thesis
    by (rule that[of e2]) (use e1 e2 mid enc1 in simp_all)
qed

lemma space_left:
  assumes room: "has_room k B c e" and "ready e" and "\<not> encoder_dynamic e"
  shows "B \<le> unat (enc_len e - offset e)"
proof -
  have used: "length (encoded e) + c + B < unat (enc_len e)"
    using room assms(3) by (simp add: has_room_def fixed_room_def)
  have "enc_cur e = Some (length (encoded e))" using encoded_cases[OF assms(2)] by simp
  moreover have "unat (of_nat (length (encoded e)) :: u64) = length (encoded e)"
    using used unat_bound[of "enc_len e"] by (intro unat_small) simp
  ultimately have "unat (enc_len e - offset e) = unat (enc_len e) - length (encoded e)"
    using used by (simp add: offset_def unat_sub word_le_nat_alt)
  then show ?thesis using used by simp
qed

lemma struct_end_spec:
  assumes s: "styled x n e" and re: "ready e" "encoded e \<noteq> ''''" and d: "d \<le> 21"
    and c: "c \<in> {1, 2, 4, 5, 6}" and codes: "level_codes (c # cs)" and t: "enc_structs e = pack (c # cs)"
    and depth: "app_json_encode_depth e = d + ones c" and m: "enc_structs e AND m \<noteq> 0"
    and room: "has_room (Suc (Suc k)) (B + end_cost n) (closers n (d + ones c)) e"
  obtains e' where "app_json_encode_struct_end e m = Some (STATUS_SUCCESS, e')"
    and "ready e'" and "encoded e' = encoded e @ end_text n d c (last (encoded e) \<in> set JSON_CHARS_START)"
    and "enc_flags e' = enc_flags e" and "enc_structs e' = pack cs" and "has_room k B (closers n d) e'"
proof -
  let ?t = "enc_structs e" and ?dw = "of_nat (app_json_encode_depth e) - 1 :: u32"
  let ?l = "\<lambda>e'. end_loop [0, 1, 2] ?t STATUS_SUCCESS ?dw (enc_len e - offset e) e = Some (STATUS_SUCCESS, e') \<and>
    ready e' \<and> encoded e' = encoded e @ end_text n d c (last (encoded e) \<in> set JSON_CHARS_START) \<and>
    enc_flags e' = enc_flags e \<and> enc_structs e' = ?t \<and> has_room k B (closers n d) e'"
  have bits: "bit ?t 0 \<longleftrightarrow> bit c 0" "bit ?t 1 \<longleftrightarrow> bit c 1" "bit ?t (Suc 0) \<longleftrightarrow> bit c 1" "bit ?t 2 \<longleftrightarrow> bit c 2"
    using bit_pack[OF codes] t by simp_all
  have "unat (enc_len e - offset e) \<ge> B + end_cost n" if "\<not> encoder_dynamic e"
    using space_left[OF room re(1) that] .
  then have space: "\<not> encoder_dynamic e \<Longrightarrow> end_cost n \<le> unat (enc_len e - offset e)" by fastforce
  have "n * d \<le> n * 21" using d by (rule mult_le_mono2)
  then have "n * d + 2 \<le> end_cost n" unfolding end_cost_def by linarith
  then have space': "\<not> encoder_dynamic e \<Longrightarrow> n * d + 2 \<le> unat (enc_len e - offset e)" using space by fastforce
  have "\<exists>e'. ?l e'"
  proof (cases "4 < c")
    case False
    then have one: "ones c = 1" and c: "c \<in> {1, 2, 4}" using c by auto
    have dw: "of_nat n * ?dw = (of_nat n * of_nat d :: u32)" using depth one by simp
    have room1: "has_room (Suc k) (B + end_cost n) (closers n (Suc d)) e"
      using room one by (elim has_room_less) simp_all
    have d22: "d \<le> 22" using d by simp
    have step: "\<exists>e'. end_loop (i # is) ?t STATUS_SUCCESS ?dw (enc_len e - offset e) e = Some (STATUS_SUCCESS, e') \<and>
        ready e' \<and> encoded e' = encoded e @ before_end n d (last (encoded e) \<in> set JSON_CHARS_START) @
          [JSON_CHARS_END ! i] \<and>
        enc_flags e' = enc_flags e \<and> enc_structs e' = ?t \<and> has_room k B (closers n d) e'"
      if "bit ?t i" "\<forall>j \<in> set is. \<not> bit ?t j" for i "is"
      by (rule end_one[OF s re d22 that(1) dw that(2) room1 space']) blast+
    from c consider "c = 1" | "c = 2" | "c = 4" by auto
    then show ?thesis
    proof cases
      case 1
      then show ?thesis using step[of 0 "[1, 2]"] bits
        by (simp add: end_text_def JSON_CHARS_END_def)
    next
      case 2
      then show ?thesis using step[of 1 "[2]"] bits
        by (simp add: end_text_def JSON_CHARS_END_def)
    next
      case 3
      then show ?thesis using step[of 2 "[]"] bits
        by (simp add: end_text_def JSON_CHARS_END_def)
    qed
  next
    case True
    then have two: "ones c = 2" and c: "c \<in> {5, 6}" using c by auto
    have dw: "?dw = of_nat (Suc d)" using depth two by simp
    have room2: "has_room (Suc (Suc k)) (B + end_cost n) (closers n (Suc (Suc d))) e"
      using room two by (simp add: numeral_2_eq_2)
    have step: "\<exists>e'. end_loop (i # is) ?t STATUS_SUCCESS ?dw (enc_len e - offset e) e = Some (STATUS_SUCCESS, e') \<and>
        ready e' \<and> encoded e' = encoded e @ before_end n (Suc d) (last (encoded e) \<in> set JSON_CHARS_START) @
          [JSON_CHARS_END ! i] @ before_end n d False @ [JSON_CHARS_END ! 2] \<and>
        enc_flags e' = enc_flags e \<and> enc_structs e' = ?t \<and> has_room k B (closers n d) e'"
      if "bit ?t i" "bit ?t 2" "i < 3" "is = [1, 2] \<and> \<not> bit ?t 1 \<or> is = [2]" for i "is"
    proof -
      have mid: "end_loop is ?t r dw space e = end_loop [2] ?t r dw space e" for r dw space e
        using that(4) by auto
      show ?thesis by (rule end_two[OF s re d that(1,2,3) dw mid room2 space]) blast+
    qed
    from c consider "c = 5" | "c = 6" by auto
    then show ?thesis
    proof cases
      case 1
      then show ?thesis using step[of 0 "[1, 2]"] bits
        by (simp add: end_text_def JSON_CHARS_END_def)
    next
      case 2
      then show ?thesis using step[of 1 "[2]"] bits
        by (simp add: end_text_def JSON_CHARS_END_def)
    qed
  qed
  then obtain e' where e': "?l e'" by blast
  have "[0..<JSON_STRUCT_BITS] = [0, 1, 2]" by (simp add: JSON_STRUCT_BITS_def upt_rec)
  then have "app_json_encode_struct_end e m =
      Some (STATUS_SUCCESS, e'\<lparr>enc_structs := drop_bit JSON_STRUCT_BITS (enc_structs e')\<rparr>)"
    using e' m by (simp add: app_json_encode_struct_end_def)
  then show thesis
    using e' drop_pack[OF codes] t
    by (intro that[of "e'\<lparr>enc_structs := drop_bit JSON_STRUCT_BITS (enc_structs e')\<rparr>"])
      (simp_all add: JSON_STRUCT_BITS_def)
qed

end
