(* ===== verification/Encoded.thy ===== *)
theory Encoded
  imports Encoding
begin

text \<open>
  The calls of the JSON encoder, one by one and in sequence: each follows the document it is
  asked to build, and the text that is handed out in the end is the rendering of that document.
\<close>

unbundle bit_operations_syntax

section \<open>No null inside the text\<close>

definition clean :: "string \<Rightarrow> bool" where
  "clean s \<longleftrightarrow> CHR 0x00 \<notin> set s"

definition clean_key :: "string option \<Rightarrow> bool" where
  "clean_key key \<longleftrightarrow> (case key of None \<Rightarrow> True | Some k \<Rightarrow> clean k)"

lemma clean_simps [simp]:
  "clean []" "clean (c # s) \<longleftrightarrow> c \<noteq> CHR 0x00 \<and> clean s" "clean (s @ t) \<longleftrightarrow> clean s \<and> clean t"
  "clean (replicate k c) \<longleftrightarrow> k = 0 \<or> c \<noteq> CHR 0x00"
  by (auto simp: clean_def)

lemma clean_escape: "clean s \<Longrightarrow> clean (escape_text s)"
  by (induction s) (auto simp: escape_text_def escape_letter_def)

lemma clean_line_break [simp]: "clean (line_break n d)"
  by (simp add: line_break_def)

lemma clean_separator [simp]: "clean (separator x n d first)"
  by (simp add: separator_def)

lemma clean_before_end [simp]: "clean (before_end n d nothing)"
  by (simp add: before_end_def)

lemma clean_item_name: "clean k \<Longrightarrow> clean (item_name x k)"
  by (simp add: item_name_def clean_escape)

lemma clean_before_value: "clean_key key \<Longrightarrow> clean (before_value x n D key)"
  by (auto simp: before_value_def clean_key_def clean_item_name split: option.splits)

lemma clean_after_value [simp]: "clean (after_value n ls key)"
  by (simp add: after_value_def)

lemma clean_end_text [simp]: "clean (end_text n d c nothing)"
  by (simp add: end_text_def)

section \<open>Levels\<close>

lemma kind_put_in [simp]: "kind_bits (put_in c key v) = kind_bits c"
  by (cases c) simp_all

lemma put_value_levels [simp]:
  "level_depth (snd (put_value D key v)) = level_depth (snd D)"
  "code_list (snd (put_value D key v)) = code_list (snd D)"
  "length (snd (put_value D key v)) = length (snd D)"
  by (cases "(D, key, v)" rule: put_value.cases; simp)+

lemma put_value_nonempty [simp]: "put_value D key v \<noteq> ([], [])"
  by (cases "(D, key, v)" rule: put_value.cases) auto

lemma add_root_levels:
  "level_depth (snd (add_root D key)) = (if snd D = [] \<and> key \<noteq> None then 1 else level_depth (snd D))"
  "length (snd (add_root D key)) = (if snd D = [] \<and> key \<noteq> None then 1 else length (snd D))"
  by (simp_all add: add_root_def wraps_def in_array_def)

text \<open>After a key has been given and the value written, the object around it is closed.\<close>

lemma value_added:
  assumes f: "follows x n k0 B0 D e0" and key: "clean_key key" "snd D \<noteq> [] \<or> key \<noteq> None"
    and w: "wraps (snd D) key \<Longrightarrow> level_depth (snd D) < 21"
    and e1: "keyed x n (Suc (Suc k)) (B + end_cost n) vl D key e1"
    and t: "length t \<le> vl" "clean t" "t \<noteq> ''''" "last t \<notin> set JSON_CHARS_START" "\<And>d. render x n d v = t"
  obtains e2 where "emits t e1 = Some (written t e1)"
    and "end_added (wraps (snd D) key) (written t e1) = Some (STATUS_SUCCESS, e2)"
    and "follows x n k B (put_value (add_root D key) key v) e2"
proof -
  let ?D = "add_root D key" and ?w = "wraps (snd D) key"
  let ?d = "level_depth (snd ?D) + (if ?w then 1 else 0)"
  have lens: "length (snd ?D) \<le> 21" "level_depth (snd ?D) \<le> 22" "?w \<Longrightarrow> ?D = D"
    using f add_root_levels[of D key] by (auto simp: follows_def add_root_def wraps_def in_array_def)
  have re: "ready e1" and s: "styled x n e1"
    and enc: "encoded e1 = document_text x n ?D @ before_value x n ?D key"
    and st: "enc_structs e1 = pack ((if ?w then [4] else []) @ code_list (snd ?D))"
    and room: "has_room (Suc (Suc k)) (B + end_cost n) (closers n ?d + vl + n * ?d) e1"
    using e1 by (simp_all add: keyed_def Let_def)
  have "clean (document_text x n D)" using f by (auto simp: follows_def clean_def)
  moreover have "document_text x n ?D = document_text x n D @ (if snd D = [] \<and> key \<noteq> None
      then before_value x n D None @ ''{'' else '''')"
    by (cases D) (auto simp: add_root_def member_texts_def)
  ultimately have clean1: "clean (encoded e1)"
    using enc key(1) by (simp add: clean_before_value clean_key_def)
  have "has_room (Suc (Suc k)) (B + end_cost n) (length t + closers n ?d) e1"
    using room by (rule has_room_less) (use t(1) in simp_all)
  note wr = has_room_written[OF this re]
  have sw: "styled x n (written t e1)" using styled_flags[OF s, of "written t e1"] by simp
  have body: "document_text x n (put_value ?D key v) = encoded (written t e1) @ after_value n (snd ?D) key"
    using enc t(5) by (simp add: put_text)
  have wraps: "wraps (snd ?D) key = ?w" by (simp add: add_root_def wraps_def in_array_def)
  show thesis
  proof (cases ?w)
    case False
    moreover have "enc_cur (written t e1) \<noteq> None" by (simp add: written_def)
    ultimately have "follows x n k B (put_value ?D key v) (written t e1)"
      using body wraps sw st lens clean1 t(2) has_room_less[OF wr(2), of k B]
      by (simp add: follows_def after_value_def clean_def)
    then show thesis using that wr(1) False by (simp add: end_added_def)
  next
    case True
    then have D: "?D = D" and d: "level_depth (snd D) < 21" using lens(3) w by simp_all
    have "length (snd D) < 21" using d length_level_depth[of "snd D"] by simp
    then have codes: "level_codes (4 # code_list (snd D))" using code_list_codes[of "snd D"] by simp
    have st4: "enc_structs (written t e1) = pack (4 # code_list (snd D))" using st True D by simp
    have depth: "app_json_encode_depth (written t e1) = level_depth (snd D) + ones 4"
      using depth_pack[OF codes] st4 by (simp add: app_json_encode_depth_def ones_code_list)
    have "bit (enc_structs (written t e1)) 2" using bit_pack[OF codes, of 2] st4 by simp
    then have m: "enc_structs (written t e1) AND APP_JSON_TYPE_OBJECT * 2 \<noteq> 0"
      using and_bit(3) by (simp add: APP_JSON_TYPE_OBJECT_def)
    have room2: "has_room (Suc (Suc k)) (B + end_cost n) (closers n (level_depth (snd D) + ones 4)) (written t e1)"
      using wr(2) True D by simp
    have d21: "level_depth (snd D) \<le> 21" using d by simp
    obtain e2 where e2: "app_json_encode_struct_end (written t e1) (APP_JSON_TYPE_OBJECT * 2) = Some (STATUS_SUCCESS, e2)"
      "ready e2" "encoded e2 = encoded (written t e1) @
        end_text n (level_depth (snd D)) 4 (last (encoded (written t e1)) \<in> set JSON_CHARS_START)"
      "enc_flags e2 = enc_flags (written t e1)" "enc_structs e2 = pack (code_list (snd D))"
      "has_room k B (closers n (level_depth (snd D))) e2"
      by (rule struct_end_spec[OF sw ready_written _ d21 _ codes st4 depth m room2]) (use t in simp_all)
    have end4: "end_text n (level_depth (snd D)) 4 False = after_value n (snd D) key"
      using True by (simp add: end_text_def after_value_def)
    have "enc_cur e2 \<noteq> None" using e2(2) by (auto simp: ready_def)
    then have "follows x n k B (put_value ?D key v) e2"
      using e2 body D lens clean1 t(2,3,4) styled_flags[OF sw e2(4)] end4
      by (simp add: follows_def clean_def[symmetric])
    then show thesis using that wr(1) e2(1) True by (simp add: end_added_def)
  qed
qed

section \<open>Adding a value\<close>

lemma encode_key_full:
  assumes f: "follows x n k B D e" and w: "wraps (snd D) key" and d: "21 \<le> level_depth (snd D)"
  shows "app_json_encode_key e key vl = Some (STATUS_FULL, True, e)"
proof -
  have "snd D \<noteq> []" "in_array (snd D)" "key \<noteq> None" using w by (auto simp: wraps_def in_array_def)
  then show ?thesis
    using follows_object[OF f] follows_depth[OF f] d
    by (simp add: app_json_encode_key.simps[of e key] app_json_encode_struct_start.simps[of e None]
        JSON_MAX_DEPTH_def JSON_STRUCT_BITS_def del: not_None_eq)
qed

definition key_or_empty :: "string option \<Rightarrow> string" where
  "key_or_empty key = (case key of None \<Rightarrow> '''' | Some k \<Rightarrow> k)"

lemma item_added:
  assumes f: "follows x n (Suc (Suc (Suc (Suc k))))
      (B + (length (escape_text (key_or_empty key)) + vl + 2 * item_cost n + end_cost n)) D e"
    and key: "clean_key key"
    and t: "length t \<le> vl" "clean t" "t \<noteq> ''''" "last t \<notin> set JSON_CHARS_START" "\<And>d. render x n d v = t"
    and op: "op = (if key = None \<and> enc_structs e = 0 then Some (STATUS_BAD_REQUEST, e)
      else do {
        (r, added, e) \<leftarrow> app_json_encode_key e key vw;
        if r = STATUS_SUCCESS then do { e \<leftarrow> W e; end_added added e } else Some (r, e) })"
    and vw: "vw = of_nat vl"
    and W: "\<And>e. ready e \<Longrightarrow> emits t e = Some (written t e) \<Longrightarrow> length (encoded e) + length t \<le> length (enc_block e) \<Longrightarrow>
      W e = Some (written t e)"
  shows "\<exists>e'. op = Some (fst (add_item D key v), e') \<and> follows x n k B (snd (add_item D key v)) e'"
proof -
  have keep: "follows x n k B D e" using f by (rule follows_less) simp_all
  consider (root) "snd D = []" "key = None" | (full) "wraps (snd D) key" "21 \<le> level_depth (snd D)"
    | (ok) "snd D \<noteq> [] \<or> key \<noteq> None" "wraps (snd D) key \<longrightarrow> level_depth (snd D) < 21"
    by force
  then show ?thesis
  proof cases
    case root
    then show ?thesis using follows_object(2)[OF f] keep by (simp add: op add_item_def)
  next
    case full
    then have "key \<noteq> None" by (simp add: wraps_def)
    then show ?thesis
      using encode_key_full[OF f full] keep full
      by (simp add: op add_item_def JSON_MAX_DEPTH_def JSON_STRUCT_BITS_def del: not_None_eq)
  next
    case ok
    have "follows x n (Suc (Suc (Suc (Suc k))))
        ((B + end_cost n) + (key_length (Some (case key of None \<Rightarrow> '''' | Some k \<Rightarrow> k)) + vl + 2 * item_cost n)) D e"
      using f by (rule follows_less) (simp_all add: key_length_def key_or_empty_def)
    then obtain e1 where e1: "app_json_encode_key e key (of_nat vl) = Some (STATUS_SUCCESS, wraps (snd D) key, e1)"
      "keyed x n (Suc (Suc k)) (B + end_cost n) vl D key e1"
      by (rule encode_key_spec) (use ok(2) in blast)
    obtain e2 where e2: "emits t e1 = Some (written t e1)"
      "end_added (wraps (snd D) key) (written t e1) = Some (STATUS_SUCCESS, e2)"
      "follows x n k B (put_value (add_root D key) key v) e2"
      by (rule value_added[OF f key ok(1) _ e1(2) t]) (use ok(2) in blast)
    have re: "ready e1" and room: "has_room (Suc (Suc k)) (B + end_cost n) vl e1"
      using e1(2) by (auto simp: keyed_def Let_def elim: has_room_less)
    then have "length (encoded e1) + length t \<le> length (enc_block e1)"
      using t(1) by (cases "encoder_dynamic e1") (auto simp: has_room_def growing_room_def fixed_room_def split: if_splits)
    then have "W e1 = Some (written t e1)" using W re e2(1) by blast
    then show ?thesis
      using e1(1) e2 ok follows_object(2)[OF f]
      by (auto simp: op vw add_item_def JSON_MAX_DEPTH_def JSON_STRUCT_BITS_def)
  qed
qed

section \<open>Numbers\<close>

lemma digits_nonempty [simp]: "digits m \<noteq> ''''"
  using digits_last by blast

lemma digits_length_pos: "0 < length (digits m)"
  by simp

lemma digits_step: "10 \<le> m \<Longrightarrow> digits m = digits (m div 10) @ [char_of (48 + m mod 10)]"
  by (subst digits.simps) simp

lemma digits_small: "m < 10 \<Longrightarrow> digits m = [char_of (48 + m)]"
  by (subst digits.simps) simp

lemma digits_length: "m < 10 ^ Suc k \<Longrightarrow> length (digits m) \<le> Suc k"
proof (induction k arbitrary: m)
  case 0
  then show ?case by (simp add: digits_small)
next
  case (Suc k)
  then have "m div 10 < 10 ^ Suc k" by (simp add: less_mult_imp_div_less)
  from Suc.IH[OF this] show ?case
    by (cases "10 \<le> m") (simp_all add: digits_step digits_small)
qed

lemma u64_div_ten: "unat (i div 10 :: u64) = unat i div 10"
  by (simp add: unat_div)

lemma u64_mod_ten: "unat (i mod 10 :: u64) = unat i mod 10"
  by (simp add: unat_mod)

lemma intlen_digits: "0 < unat i \<Longrightarrow> intlen_loop i n = n + length (digits (unat i))"
proof (induction i n rule: intlen_loop.induct)
  case (1 i n)
  then have pos: "i > 0" by (simp add: word_less_nat_alt)
  show ?case
  proof (cases "10 \<le> unat i")
    case True
    then have "0 < unat (i div 10)" by (simp add: u64_div_ten)
    then have "intlen_loop i n = n + 1 + length (digits (unat i div 10))"
      using 1(1)[OF pos] pos by (subst intlen_loop.simps) (simp add: u64_div_ten)
    then show ?thesis using True by (simp add: digits_step)
  next
    case False
    then have "unat (i div 10) = 0" by (simp add: u64_div_ten)
    then have "i div 10 = 0" by (simp add: unat_eq_0)
    then show ?thesis using False pos
      by (subst intlen_loop.simps) (simp add: intlen_loop.simps[of 0] digits_small)
  qed
qed

text \<open>The digits fill the bytes before \<open>dest\<close>; \<open>cur\<close> only counts them.\<close>

lemma digits_loop_block:
  assumes "0 < unat v" and "dest < length (enc_block e)" and "length (digits (unat v)) \<le> Suc dest"
  shows "digits_loop v dest e =
    Some (e\<lparr>enc_block := take (Suc dest - length (digits (unat v))) (enc_block e) @ digits (unat v) @
        drop (Suc dest) (enc_block e),
      enc_cur := map_option (\<lambda>n. n + length (digits (unat v))) (enc_cur e)\<rparr>)"
  using assms
proof (induction v dest e rule: digits_loop.induct)
  case (1 v dest e)
  have pos: "v > 0" using 1(2) by (simp add: word_less_nat_alt)
  let ?c = "char_of (unat (v mod 10) + 48) :: char"
  let ?e = "e\<lparr>enc_block := (enc_block e)[dest := ?c], enc_cur := map_option Suc (enc_cur e)\<rparr>"
  have c: "?c = char_of (48 + unat v mod 10)" by (simp add: u64_mod_ten add.commute)
  have st: "store dest ?c e = Some (e\<lparr>enc_block := (enc_block e)[dest := ?c]\<rparr>)"
    using 1(3) by (simp add: store_def)
  have unfold: "digits_loop v dest e = digits_loop (v div 10) (dest - 1) ?e"
    using pos st by (subst digits_loop.simps) simp
  show ?case
  proof (cases "10 \<le> unat v")
    case True
    have pos': "0 < unat (v div 10)" using True by (simp add: u64_div_ten)
    have len: "length (digits (unat v)) = Suc (length (digits (unat v div 10)))"
      using True by (simp add: digits_step)
    have "0 < length (digits (unat v div 10))" by (rule digits_length_pos)
    then have dest: "0 < dest" "length (digits (unat v div 10)) \<le> Suc (dest - 1)"
      using 1(4) len by linarith+
    have "digits_loop (v div 10) (dest - 1) ?e = Some (?e\<lparr>enc_block :=
        take (Suc (dest - 1) - length (digits (unat (v div 10)))) (enc_block ?e) @ digits (unat (v div 10)) @
        drop (Suc (dest - 1)) (enc_block ?e),
        enc_cur := map_option (\<lambda>n. n + length (digits (unat (v div 10)))) (enc_cur ?e)\<rparr>)"
      using 1(1)[OF pos st] pos' dest 1(3) by (simp add: u64_div_ten)
    moreover have "drop dest ((enc_block e)[dest := ?c]) = ?c # drop (Suc dest) (enc_block e)"
      using 1(3) by (simp add: drop_update_swap Cons_nth_drop_Suc[symmetric] flip: drop_drop)
    ultimately show ?thesis
      using unfold len dest 1(3) True c
      by (simp add: u64_div_ten digits_step option.map_comp comp_def)
  next
    case False
    then have "unat (v div 10) = 0" by (simp add: u64_div_ten)
    then have "v div 10 = 0" by (simp add: unat_eq_0)
    then have "digits_loop (v div 10) (dest - 1) ?e = Some ?e" by (simp add: digits_loop.simps)
    moreover have "(enc_block e)[dest := ?c] = take dest (enc_block e) @ [?c] @ drop (Suc dest) (enc_block e)"
      using 1(3) by (simp add: upd_conv_take_nth_drop)
    ultimately show ?thesis using unfold False c by (simp add: digits_small)
  qed
qed

lemma digits_loop_written:
  assumes "ready e" and "0 < unat v" and "length (encoded e) + length (digits (unat v)) \<le> length (enc_block e)"
  shows "digits_loop v (length (encoded e) + length (digits (unat v)) - 1) e = Some (written (digits (unat v)) e)"
proof -
  have "take (length (encoded e)) (enc_block e) = encoded e"
    using assms(1) by (auto simp: ready_def encoded_def)
  moreover have "0 < length (digits (unat v))" by (rule digits_length_pos)
  then have "length (encoded e) + length (digits (unat v)) - 1 < length (enc_block e)"
    "length (digits (unat v)) \<le> Suc (length (encoded e) + length (digits (unat v)) - 1)"
    "Suc (length (encoded e) + length (digits (unat v)) - 1) = length (encoded e) + length (digits (unat v))"
    using assms(3) by linarith+
  ultimately show ?thesis
    using digits_loop_block[OF assms(2), of "length (encoded e) + length (digits (unat v)) - 1" e]
      encoded_cases[OF assms(1)]
    by (simp add: written_def)
qed

lemma fraction_loop_digits:
  "fraction_loop k (fp_frac y) e = emits (fraction_digits k (fp_frac y)) e" if "fp_frac y \<noteq> FNaN"
  using that
proof (induction k arbitrary: y e)
  case (Suc k)
  obtain s m ex where f: "fp_frac y = FFin s m ex" using Suc.prems by (cases y) (auto split: if_splits)
  obtain j where j: "fp_trunc (times_ten (fp_frac y)) = Some j" "\<bar>j\<bar> \<le> 10"
    using times_ten_bound[OF fp_frac_bound[OF f]] f by metis
  then have "- 10 \<le> j" "j \<le> 10" by linarith+
  then have "fp_to_int (- (2 ^ 31)) (2 ^ 31 - 1) (times_ten (fp_frac y)) = Some j"
    using j(1) by (simp add: fp_to_int_def)
  moreover have "fp_frac (times_ten (fp_frac y)) \<noteq> FNaN" by (simp add: f Let_def)
  ultimately show ?case using Suc.IH[of "times_ten (fp_frac y)"] j(1) by (simp add: Let_def)
qed simp

lemma fraction_digits_length: "length (fraction_digits k f) \<le> k"
  by (induction k arbitrary: f) auto

lemma digit_char_clean: "\<bar>j\<bar> \<le> (10 :: int) \<Longrightarrow> char_of (48 + j) \<noteq> CHR 0x00"
proof
  assume j: "\<bar>j\<bar> \<le> 10" and "char_of (48 + j) = CHR 0x00"
  then have "(of_char (char_of (48 + j)) :: int) = of_char (CHR 0x00)" by simp
  moreover have "of_char (char_of (48 + j)) = 48 + j" using j by (simp add: of_char_of)
  ultimately show False using j by simp
qed

lemma clean_fraction_digits: "clean (fraction_digits k (fp_frac y))"
proof (induction k arbitrary: y)
  case (Suc k)
  have "\<bar>case fp_trunc (times_ten (fp_frac y)) of None \<Rightarrow> 0 | Some j \<Rightarrow> j\<bar> \<le> 10"
  proof (cases "fp_frac y")
    case (FFin s m e)
    then show ?thesis using times_ten_bound[OF fp_frac_bound] by (metis option.simps(5))
  qed simp_all
  then show ?case using Suc[of "times_ten (fp_frac y)"] digit_char_clean by simp
qed simp

lemma clean_digits [simp]: "clean (digits m)"
  using digits_no_nul by (simp add: clean_def)

text \<open>A number that is not negative and whose integer part has 64 bits.\<close>

definition real_ok :: "u64 \<Rightarrow> bool" where
  "real_ok r \<longleftrightarrow> (case fp_decode 52 11 (unat r) of
     FFin s m e \<Rightarrow> \<not> s \<and> the (fp_trunc (FFin s m e)) < 2 ^ 64 | _ \<Rightarrow> False)"

section \<open>The calls\<close>

primrec encoder_call :: "json_call \<Rightarrow> app_json_encoder \<Rightarrow> (iot_status \<times> app_json_encoder) option" where
  "encoder_call (ArrayStart key) e = app_json_encode_array_start e key"
| "encoder_call ArrayEnd e = app_json_encode_array_end e"
| "encoder_call (ObjectStart key) e = app_json_encode_object_start e key"
| "encoder_call ObjectEnd e = app_json_encode_object_end e"
| "encoder_call (AddBool key b) e = app_json_encode_bool e key b"
| "encoder_call (AddInteger key i) e = app_json_encode_integer e key i"
| "encoder_call (AddString key s) e = app_json_encode_string e key s"
| "encoder_call (AddReal key r) e = app_json_encode_real e key r"

primrec run_encoder :: "json_call list \<Rightarrow> app_json_encoder \<Rightarrow> (iot_status list \<times> app_json_encoder) option" where
  "run_encoder [] e = Some ([], e)"
| "run_encoder (c # cs) e = do {
     (r, e) \<leftarrow> encoder_call c e;
     (rs, e) \<leftarrow> run_encoder cs e;
     Some (r # rs, e) }"

primrec call_key :: "json_call \<Rightarrow> string" where
  "call_key (ArrayStart key) = key_or_empty key"
| "call_key ArrayEnd = ''''"
| "call_key (ObjectStart key) = key_or_empty key"
| "call_key ObjectEnd = ''''"
| "call_key (AddBool key b) = key_or_empty key"
| "call_key (AddInteger key i) = key_or_empty key"
| "call_key (AddString key s) = key_or_empty key"
| "call_key (AddReal key r) = key_or_empty key"

primrec call_string :: "json_call \<Rightarrow> string" where
  "call_string (ArrayStart key) = ''''"
| "call_string ArrayEnd = ''''"
| "call_string (ObjectStart key) = ''''"
| "call_string ObjectEnd = ''''"
| "call_string (AddBool key b) = ''''"
| "call_string (AddInteger key i) = ''''"
| "call_string (AddString key s) = key_or_empty s"
| "call_string (AddReal key r) = ''''"

text \<open>Strings hold no null, integers have 64 bits and a negation, real numbers are not negative.\<close>

definition call_ok :: "json_call \<Rightarrow> bool" where
  "call_ok c \<longleftrightarrow> clean (call_key c) \<and> clean (call_string c) \<and>
     (case c of AddInteger _ i \<Rightarrow> \<bar>i\<bar> < 2 ^ 63 | AddReal _ r \<Rightarrow> real_ok r | _ \<Rightarrow> True)"

text \<open>More bytes than a call can ask for.\<close>

definition call_cost :: "nat \<Rightarrow> json_call \<Rightarrow> nat" where
  "call_cost n c = 2 * length (call_key c) + 2 * length (call_string c) + 1300 * n + 112"

lemma escape_length: "length (escape_text s) \<le> 2 * length s"
  by (induction s) (simp_all add: escape_text_def)

lemma key_clean: "clean (key_or_empty key) \<Longrightarrow> clean_key key"
  by (cases key) (simp_all add: key_or_empty_def clean_key_def)

lemma bool_call:
  assumes f: "follows x n (Suc (Suc (Suc (Suc k)))) (B + call_cost n (AddBool key b)) D e" and ok: "call_ok (AddBool key b)"
  shows "\<exists>e'. encoder_call (AddBool key b) e = Some (fst (add_item D key (JBool b)), e') \<and>
    follows x n k B (snd (add_item D key (JBool b))) e'"
proof -
  let ?t = "if b then ''true'' else ''false''" and ?l = "if b then 4 else 5 :: nat"
  have len: "length ?t = ?l" by simp
  have "follows x n (Suc (Suc (Suc (Suc k))))
      (B + (length (escape_text (key_or_empty key)) + (?l + 2) + 2 * item_cost n + end_cost n)) D e"
    using f escape_length[of "key_or_empty key"]
    by (elim follows_less) (simp_all add: call_cost_def item_cost_def end_cost_def)
  moreover have "clean_key key" using ok by (simp add: call_ok_def key_clean)
  ultimately show ?thesis
  proof (rule item_added)
    show "encoder_call (AddBool key b) e = (if key = None \<and> enc_structs e = 0 then Some (STATUS_BAD_REQUEST, e)
      else do {
        (r, added, e) \<leftarrow> app_json_encode_key e key (of_nat ?l + 2);
        if r = STATUS_SUCCESS then do { e \<leftarrow> copy_out (os_strncpy ?t ?l) ?l e; end_added added e } else Some (r, e) })"
      unfolding encoder_call.simps app_json_encode_bool_def Let_def by (rule refl)
    show "copy_out (os_strncpy ?t ?l) ?l e = Some (written ?t e)" if "emits ?t e = Some (written ?t e)" for e
      using that copy_out_emits[of ?t e] unfolding len by (simp add: os_strncpy_def)
  qed (simp_all add: JSON_CHARS_START_def)
qed

lemma string_call:
  assumes f: "follows x n (Suc (Suc (Suc (Suc k)))) (B + call_cost n (AddString key s)) D e"
    and ok: "call_ok (AddString key s)"
  shows "\<exists>e'. encoder_call (AddString key s) e = Some (fst (add_item D key (JString (key_or_empty s))), e') \<and>
    follows x n k B (snd (add_item D key (JString (key_or_empty s)))) e'"
proof -
  let ?s = "key_or_empty s"
  let ?t = "[CHR 0x22] @ escape_text ?s @ [CHR 0x22]"
  have f': "follows x n (Suc (Suc (Suc (Suc k))))
      (B + (length (escape_text (key_or_empty key)) + (length (escape_text ?s) + 2) + 2 * item_cost n + end_cost n)) D e"
    using f escape_length[of "key_or_empty key"] escape_length[of ?s]
    by (elim follows_less) (simp_all add: call_cost_def item_cost_def end_cost_def)
  have key: "clean_key key" and s: "clean ?s" using ok by (simp_all add: call_ok_def key_clean)
  show ?thesis
  proof (rule item_added[OF f' key])
    show "encoder_call (AddString key s) e = (if key = None \<and> enc_structs e = 0 then Some (STATUS_BAD_REQUEST, e)
      else do {
        (r, added, e) \<leftarrow> app_json_encode_key e key (of_nat (app_json_encode_strlen ?s) + 2);
        if r = STATUS_SUCCESS
        then do {
          e \<leftarrow> do {
            e \<leftarrow> emit (CHR 0x22) e;
            t \<leftarrow> app_json_encode_strncpy ?s (app_json_encode_strlen ?s);
            e \<leftarrow> copy_out t (app_json_encode_strlen ?s) e;
            emit (CHR 0x22) e };
          end_added added e }
        else Some (r, e) })"
      unfolding encoder_call.simps app_json_encode_string_def Let_def key_or_empty_def bind_assoc by (rule refl)
    show "do {
            e \<leftarrow> emit (CHR 0x22) e;
            t \<leftarrow> app_json_encode_strncpy ?s (app_json_encode_strlen ?s);
            e \<leftarrow> copy_out t (app_json_encode_strlen ?s) e;
            emit (CHR 0x22) e } = Some (written ?t e)"
      if "emits ?t e = Some (written ?t e)" for e
      using that unfolding emits_append strncpy_escape
      by (simp add: copy_out_emits strlen_escape bind_rzero bind_assoc cong: Option.bind_cong)
  qed (use s in \<open>simp_all add: clean_escape JSON_CHARS_START_def strlen_escape\<close>)
qed

lemma show_int_length: "\<bar>i\<bar> < 2 ^ 63 \<Longrightarrow> length (show_int i) \<le> 21"
proof -
  assume "\<bar>i\<bar> < 2 ^ 63"
  then have "nat \<bar>i\<bar> < 10 ^ Suc 19" by simp
  from digits_length[OF this] show ?thesis by (auto simp: show_int_def)
qed

lemma intlen_show_int:
  assumes "\<bar>i\<bar> < 2 ^ 63"
  shows "app_json_encode_intlen (word_of_int \<bar>i\<bar>) (i < 0) = length (show_int i)"
    and "unat (word_of_int \<bar>i\<bar> :: u64) = nat \<bar>i\<bar>"
proof -
  have "(word_of_int \<bar>i\<bar> :: u64) = of_nat (nat \<bar>i\<bar>)" by simp
  moreover have "nat \<bar>i\<bar> < 2 ^ 64" using assms by simp
  ultimately show u: "unat (word_of_int \<bar>i\<bar> :: u64) = nat \<bar>i\<bar>" using unat_small by metis
  show "app_json_encode_intlen (word_of_int \<bar>i\<bar>) (i < 0) = length (show_int i)"
  proof (cases "i = 0")
    case True
    then show ?thesis by (simp add: app_json_encode_intlen_def intlen_loop.simps show_int_def digits_small)
  next
    case False
    then have "0 < unat (word_of_int \<bar>i\<bar> :: u64)" unfolding u by simp
    moreover from this have "(word_of_int \<bar>i\<bar> :: u64) \<noteq> 0" by auto
    ultimately show ?thesis
      using intlen_digits[of "word_of_int \<bar>i\<bar> :: u64"] u False
      by (auto simp: app_json_encode_intlen_def show_int_def)
  qed
qed

lemma integer_written:
  assumes i: "\<bar>i\<bar> < 2 ^ 63" and re: "ready e"
    and fits: "length (encoded e) + length (show_int i) \<le> length (enc_block e)"
  shows "do {
      m \<leftarrow> enc_cur e;
      let dest = m + length (show_int i) - 1;
      e \<leftarrow> (if i < 0 then emit (CHR ''-'') e else if i = 0 then emit (CHR ''0'') e else Some e);
      digits_loop (word_of_int \<bar>i\<bar>) dest e } = Some (written (show_int i) e)"
proof -
  have cur: "enc_cur e = Some (length (encoded e))" using encoded_cases[OF re] by simp
  have u: "unat (word_of_int \<bar>i\<bar> :: u64) = nat \<bar>i\<bar>" by (rule intlen_show_int(2)[OF i])
  have one: "emit c e = Some (written [c] e)" if "length (encoded e) < length (enc_block e)" for c
    using emits_written[OF re, of "[c]"] that by simp
  have room: "length (encoded e) < length (enc_block e)"
    using fits show_int_last[of i] by (cases "show_int i") simp_all
  consider "i = 0" | "i > 0" | "i < 0" by linarith
  then show ?thesis
  proof cases
    case 1
    moreover have "char_of (48 :: nat) = CHR ''0''" by code_simp
    ultimately show ?thesis
      using one[OF room] cur by (simp add: digits_loop.simps[of 0] show_int_def digits_small)
  next
    case 2
    then show ?thesis
      using digits_loop_written[OF re, of "word_of_int \<bar>i\<bar>"] fits u cur by (simp add: show_int_def Let_def)
  next
    case 3
    let ?e = "written ''-'' e"
    have "digits_loop (word_of_int \<bar>i\<bar>) (length (encoded ?e) + length (digits (nat \<bar>i\<bar>)) - 1) ?e =
        Some (written (digits (nat \<bar>i\<bar>)) ?e)"
      using digits_loop_written[OF ready_written, of "word_of_int \<bar>i\<bar>" "''-''" e] fits u 3
      by (simp add: show_int_def length_written)
    then show ?thesis using 3 one[OF room] cur by (simp add: show_int_def Let_def)
  qed
qed

lemma integer_call:
  assumes f: "follows x n (Suc (Suc (Suc (Suc k)))) (B + call_cost n (AddInteger key i)) D e"
    and ok: "call_ok (AddInteger key i)"
  shows "\<exists>e'. encoder_call (AddInteger key i) e = Some (fst (add_item D key (JInteger i)), e') \<and>
    follows x n k B (snd (add_item D key (JInteger i))) e'"
proof -
  have i: "\<bar>i\<bar> < 2 ^ 63" using ok by (simp add: call_ok_def)
  then have ne: "i \<noteq> - (2 ^ 63)" by auto
  have "follows x n (Suc (Suc (Suc (Suc k))))
      (B + (length (escape_text (key_or_empty key)) + length (show_int i) + 2 * item_cost n + end_cost n)) D e"
    using f escape_length[of "key_or_empty key"] show_int_length[OF i]
    by (elim follows_less) (simp_all add: call_cost_def item_cost_def end_cost_def)
  moreover have "clean_key key" using ok by (simp add: call_ok_def key_clean)
  ultimately show ?thesis
  proof (rule item_added)
    show "encoder_call (AddInteger key i) e = (if key = None \<and> enc_structs e = 0 then Some (STATUS_BAD_REQUEST, e)
      else do {
        (r, added, e) \<leftarrow> app_json_encode_key e key (of_nat (app_json_encode_intlen (word_of_int \<bar>i\<bar>) (i < 0)));
        if r = STATUS_SUCCESS
        then do {
          e \<leftarrow> do {
            m \<leftarrow> enc_cur e;
            let dest = m + app_json_encode_intlen (word_of_int \<bar>i\<bar>) (i < 0) - 1;
            e \<leftarrow> (if i < 0 then emit (CHR ''-'') e else if i = 0 then emit (CHR ''0'') e else Some e);
            digits_loop (word_of_int \<bar>i\<bar>) dest e };
          end_added added e }
        else Some (r, e) })"
      unfolding encoder_call.simps app_json_encode_integer_def Let_def bind_assoc if_not_P[OF ne] by (rule refl)
    show "last (show_int i) \<notin> set JSON_CHARS_START"
      using show_int_last[of i] digit_char_last_nat by metis
  qed (use show_int_last[of i] show_int_no_nul[of i] integer_written[OF i] intlen_show_int(1)[OF i] in
      \<open>simp_all add: clean_def\<close>)
qed

lemma intlen_nat: "m < 2 ^ 64 \<Longrightarrow> app_json_encode_intlen (of_nat m) False = length (digits m)"
proof -
  assume "m < 2 ^ 64"
  then have u: "unat (of_nat m :: u64) = m" by (rule unat_small)
  show ?thesis
  proof (cases "m = 0")
    case True
    then show ?thesis by (simp add: app_json_encode_intlen_def intlen_loop.simps digits_small)
  next
    case False
    then have "(of_nat m :: u64) \<noteq> 0" using u by auto
    then show ?thesis using intlen_digits[of "of_nat m"] u False by (simp add: app_json_encode_intlen_def)
  qed
qed

lemma real_written:
  assumes m: "m < 2 ^ 64" and f: "fp_frac y \<noteq> FNaN" and re: "ready e"
    and em: "emits (digits m @ ''.'' @ fraction_digits j (fp_frac y)) e =
      Some (written (digits m @ ''.'' @ fraction_digits j (fp_frac y)) e)"
    and fits: "length (encoded e) + length (digits m) \<le> length (enc_block e)"
  shows "do {
      l \<leftarrow> enc_cur e;
      e \<leftarrow> (if m = 0 then emit (CHR ''0'') e else Some e);
      e \<leftarrow> digits_loop (of_nat m) (l + length (digits m) - 1) e;
      e \<leftarrow> emit (CHR ''.'') e;
      fraction_loop j (fp_frac y) e } = Some (written (digits m @ ''.'' @ fraction_digits j (fp_frac y)) e)"
proof -
  have u: "unat (of_nat m :: u64) = m" by (rule unat_small[OF m])
  have cur: "enc_cur e = Some (length (encoded e))" using encoded_cases[OF re] by simp
  define l where "l = length (encoded e)"
  have head: "do {
      e \<leftarrow> (if m = 0 then emit (CHR ''0'') e else Some e);
      digits_loop (of_nat m) (l + length (digits m) - 1) e } = emits (digits m) e"
  proof (cases "m = 0")
    case True
    moreover have "char_of (48 :: nat) = CHR ''0''" by code_simp
    ultimately show ?thesis by (simp add: digits_loop.simps[of 0] digits_small)
  next
    case False
    then show ?thesis
      using digits_loop_written[OF re, of "of_nat m"] emits_written[OF re fits] fits u by (simp add: l_def)
  qed
  have "do {
      e \<leftarrow> (if m = 0 then emit (CHR ''0'') e else Some e);
      e \<leftarrow> digits_loop (of_nat m) (l + length (digits m) - 1) e;
      e \<leftarrow> emit (CHR ''.'') e;
      fraction_loop j (fp_frac y) e } = do {
      e \<leftarrow> (do {
        e \<leftarrow> (if m = 0 then emit (CHR ''0'') e else Some e);
        digits_loop (of_nat m) (l + length (digits m) - 1) e });
      e \<leftarrow> emit (CHR ''.'') e;
      fraction_loop j (fp_frac y) e }" by (simp only: bind_assoc)
  also have "\<dots> = emits (digits m @ ''.'' @ fraction_digits j (fp_frac y)) e"
    unfolding head by (simp add: emits_append fraction_loop_digits[OF f])
  finally show ?thesis unfolding cur Option.bind_lunit l_def[symmetric] using em by (rule trans)
qed

lemma real_call:
  assumes f: "follows x n (Suc (Suc (Suc (Suc k)))) (B + call_cost n (AddReal key r)) D e"
    and ok: "call_ok (AddReal key r)"
  shows "\<exists>e'. encoder_call (AddReal key r) e = Some (fst (add_item D key (JReal r)), e') \<and>
    follows x n k B (snd (add_item D key (JReal r))) e'"
proof -
  obtain m ex i where v: "fp_decode 52 11 (unat r) = FFin False m ex" "fp_trunc (FFin False m ex) = Some (int i)"
    "i < 2 ^ 64"
  proof -
    obtain s m ex where v: "fp_decode 52 11 (unat r) = FFin s m ex"
      using ok by (auto simp: call_ok_def real_ok_def split: fp.splits)
    then have "\<not> s" and "the (fp_trunc (FFin s m ex)) < 2 ^ 64"
      using ok by (auto simp: call_ok_def real_ok_def simp del: fp_trunc.simps)
    moreover from this obtain i where "fp_trunc (FFin s m ex) = Some (int i)"
      by (auto simp: signed_mant_def)
    ultimately show thesis using that[of m ex i] v by (cases s) (auto simp del: fp_trunc.simps)
  qed
  have neg: "\<not> fp_le fp_zero (FFin False m ex) \<longleftrightarrow> False"
    by (simp add: fp_zero_def signed_mant_def)
  have conv: "fp_to_int 0 (2 ^ 64 - 1) (FFin False m ex) = Some (int i)"
    using v(2,3) by (simp add: fp_to_int_def del: fp_trunc.simps)
  have len: "app_json_encode_intlen (of_int (int i)) False = length (digits i)"
    using intlen_nat[OF v(3)] by simp
  have short: "length (digits i) \<le> 20" using digits_length[of i 19] v(3) by simp
  let ?f = "fp_frac (FFin False m ex)"
  let ?t = "digits i @ ''.'' @ fraction_digits 6 ?f" and ?vl = "length (digits i) + 6 + 1"
  have f': "follows x n (Suc (Suc (Suc (Suc k))))
      (B + (length (escape_text (key_or_empty key)) + ?vl + 2 * item_cost n + end_cost n)) D e"
    using f escape_length[of "key_or_empty key"] short
    by (elim follows_less) (simp_all add: call_cost_def item_cost_def end_cost_def)
  have key: "clean_key key" using ok by (simp add: call_ok_def key_clean)
  have frac: "?f \<noteq> FNaN" by simp
  show ?thesis
  proof (rule item_added[OF f' key])
    show "encoder_call (AddReal key r) e = (if key = None \<and> enc_structs e = 0 then Some (STATUS_BAD_REQUEST, e)
      else do {
        (r, added, e) \<leftarrow> app_json_encode_key e key (of_nat ?vl);
        if r = STATUS_SUCCESS
        then do {
          e \<leftarrow> do {
            l \<leftarrow> enc_cur e;
            e \<leftarrow> (if int i = 0 then emit (CHR ''0'') e else Some e);
            e \<leftarrow> digits_loop (of_int (int i)) (l + length (digits i) - 1) e;
            e \<leftarrow> emit (CHR ''.'') e;
            fraction_loop 6 ?f e };
          end_added added e }
        else Some (r, e) })"
      unfolding encoder_call.simps app_json_encode_real_def Let_def v(1) neg conv if_False Option.bind_lunit
        prod.case len JSON_ENCODE_MAX_DECIMALS_def bind_assoc by (rule refl)
    show "do {
            l \<leftarrow> enc_cur e;
            e \<leftarrow> (if int i = 0 then emit (CHR ''0'') e else Some e);
            e \<leftarrow> digits_loop (of_int (int i)) (l + length (digits i) - 1) e;
            e \<leftarrow> emit (CHR ''.'') e;
            fraction_loop 6 ?f e } = Some (written ?t e)"
      if "ready e" "emits ?t e = Some (written ?t e)" "length (encoded e) + length ?t \<le> length (enc_block e)" for e
      using real_written[OF v(3) frac that(1,2)] that(3) by simp
    show "last ?t \<notin> set JSON_CHARS_START"
      using fraction_digits_last[of 5 "FFin False m ex"] by (simp add: numeral_eq_Suc)
    show "clean ?t" using clean_fraction_digits[of 6 "FFin False m ex"] by simp
    show "length ?t \<le> ?vl" using fraction_digits_length[of 6 ?f] by simp
    show "render x n d (JReal r) = ?t" for d using v by (simp add: real_text_def del: fp_trunc.simps)
  qed simp_all
qed

section \<open>Starting and ending\<close>

lemma start_call:
  assumes f: "follows x n (Suc (Suc (Suc (Suc k))))
      (B + (length (escape_text (key_or_empty key)) + (n + 2) + 2 * item_cost n)) D e"
    and key: "clean_key key" and c: "empty_members c" "m = of_nat (kind_bits c)"
  shows "\<exists>e'. app_json_encode_struct_start e key m = Some (fst (start_level D key c), e') \<and>
    follows x n k B (snd (start_level D key c)) e'"
proof (cases "level_depth (snd D) < 21")
  case False
  have "follows x n k B D e" using f by (rule follows_less) simp_all
  then show ?thesis using False follows_depth[OF f]
    by (simp add: app_json_encode_struct_start.simps start_level_def JSON_MAX_DEPTH_def JSON_STRUCT_BITS_def)
next
  case True
  let ?D = "add_root D key" and ?w = "wraps (snd D) key"
  let ?d = "level_depth (snd ?D) + (if ?w then 1 else 0)"
  have f': "follows x n (Suc (Suc k)) (B + (key_length (Some (case key of None \<Rightarrow> '''' | Some k \<Rightarrow> k)) + (n + 2) + 2 * item_cost n)) D e"
    using f by (rule follows_less) (simp_all add: key_length_def key_or_empty_def)
  obtain e1 where e1: "app_json_encode_key e key (of_nat (n + 2)) = Some (STATUS_SUCCESS, ?w, e1)"
    "keyed x n k B (n + 2) D key e1"
    by (rule encode_key_spec[OF f']) (use True in blast)
  have re: "ready e1" and s: "styled x n e1"
    and enc: "encoded e1 = document_text x n ?D @ before_value x n ?D key"
    and st: "enc_structs e1 = pack ((if ?w then [4] else []) @ code_list (snd ?D))"
    and room: "has_room k B (closers n ?d + (n + 2) + n * ?d) e1"
    using e1(2) by (simp_all add: keyed_def Let_def)
  have "clean (document_text x n D)" using f by (auto simp: follows_def clean_def)
  moreover have "document_text x n ?D = document_text x n D @ (if snd D = [] \<and> key \<noteq> None
      then before_value x n D None @ ''{'' else '''')"
    by (cases D) (auto simp: add_root_def member_texts_def)
  ultimately have clean1: "clean (encoded e1)"
    using enc key by (simp add: clean_before_value clean_key_def)
  have "has_room k B (length [left_bracket c] + closers n (Suc ?d)) e1"
    using room by (rule has_room_less) simp_all
  note wr = has_room_written[OF this re]
  have chars: "start_chars m = [left_bracket c]" using c by (cases c) simp_all
  let ?t = "(if ?w then enc_structs e1 else push_bit JSON_STRUCT_BITS (enc_structs e1)) OR m"
  have "app_json_encode_struct_start e key m = Some (STATUS_SUCCESS, (written [left_bracket c] e1)\<lparr>enc_structs := ?t\<rparr>)"
    using True follows_depth[OF f] e1(1) indent_plus[of x n e] f wr(1) chars
    by (simp add: app_json_encode_struct_start.simps JSON_MAX_DEPTH_def JSON_STRUCT_BITS_def follows_def
        del: of_nat_add)
  moreover have "start_level D key c = (STATUS_SUCCESS, (fst ?D, (key, c) # snd ?D))"
    using True by (simp add: start_level_def JSON_MAX_DEPTH_def JSON_STRUCT_BITS_def split_beta)
  moreover have "follows x n k B (fst ?D, (key, c) # snd ?D) ((written [left_bracket c] e1)\<lparr>enc_structs := ?t\<rparr>)"
  proof -
    have len: "length (snd ?D) \<le> 20" "level_depth (snd ?D) \<le> 20"
      using True length_level_depth[of "snd D"] add_root_levels[of D key] by simp_all
    have w: "wraps (snd ?D) key = ?w" "?w \<Longrightarrow> ?D = D" by (auto simp: add_root_def wraps_def in_array_def)
    let ?c = "kind_bits c + (if ?w then 4 else 0)"
    have codes: "level_codes (?c # code_list (snd ?D))"
      using len code_list_codes[of "snd ?D"] by (cases c) auto
    have "?t = push_bit 3 (pack (code_list (snd ?D))) OR of_nat ?c"
    proof (cases ?w)
      case False
      then show ?thesis using st c(2) by (simp add: JSON_STRUCT_BITS_def)
    next
      case True
      have "level_codes (4 # code_list (snd ?D))" using len code_list_codes[of "snd ?D"] by simp
      from push_pack[OF this] have "?t = (push_bit 3 (pack (code_list (snd ?D))) OR 4) OR m"
        using True st by simp
      moreover have "(4 OR m) = of_nat ?c" using True c by (cases c) simp_all
      ultimately show ?thesis by (simp add: or.assoc)
    qed
    then have "?t = pack (?c # code_list (snd ?D))" using push_pack[OF codes] by simp
    moreover have "document_text x n (fst ?D, (key, c) # snd ?D) = encoded e1 @ [left_bracket c]"
      using enc c(1) by (simp add: member_texts_empty[THEN iffD2])
    moreover have "enc_cur (written [left_bracket c] e1) \<noteq> None" by (simp add: written_def)
    ultimately show ?thesis
      using wr(2) len w(1) clean1 styled_flags[OF s, of "(written [left_bracket c] e1)\<lparr>enc_structs := ?t\<rparr>"]
      by (cases c; cases ?w) (simp_all add: follows_def clean_def del: document_text.simps)
  qed
  ultimately show ?thesis by simp
qed

lemma end_call:
  assumes f: "follows x n (Suc (Suc (Suc (Suc k)))) (B + end_cost n) D e"
    and m: "m = (if array then APP_JSON_TYPE_ARRAY else APP_JSON_TYPE_OBJECT)"
  shows "\<exists>e'. app_json_encode_struct_end e m = Some (fst (end_level D array), e') \<and>
    follows x n k B (snd (end_level D array)) e'"
proof -
  have keep: "follows x n k B D e" using f by (rule follows_less) simp_all
  have st: "enc_structs e = pack (code_list (snd D))" and len: "length (snd D) \<le> 21"
    and depth22: "level_depth (snd D) \<le> 22" and enc: "encoded e = document_text x n D"
    and s: "styled x n e"
    using f by (simp_all add: follows_def)
  have clean: "clean (encoded e)" using f by (auto simp: follows_def clean_def)
  show ?thesis
  proof (cases "snd D")
    case Nil
    then show ?thesis using keep st
      by (simp add: app_json_encode_struct_end_def end_level_def pack_def)
  next
    case (Cons l ls)
    then obtain roots key c where D: "D = (roots, (key, c) # ls)" by (cases D; cases l) auto
    let ?c = "kind_bits c + (if wraps ls key then 4 else 0)"
    have codes: "level_codes (?c # code_list ls)" using code_list_codes[OF len] by (simp add: D)
    have st': "enc_structs e = pack (?c # code_list ls)" using st by (simp add: D)
    have "bit (enc_structs e) 0 \<longleftrightarrow> bit ?c 0" "bit (enc_structs e) 1 \<longleftrightarrow> bit ?c 1"
      using bit_pack[OF codes] st' by simp_all
    then have bits: "enc_structs e AND m \<noteq> 0 \<longleftrightarrow> in_array (snd D) = array"
      by (cases c; cases "wraps ls key"; cases array)
        (simp_all add: m APP_JSON_TYPE_ARRAY_def APP_JSON_TYPE_OBJECT_def and_bit D in_array_def)
    show ?thesis
    proof (cases "in_array (snd D) = array")
      case False
      then show ?thesis using keep bits by (simp add: app_json_encode_struct_end_def end_level_def)
    next
      case True
      have c5: "?c \<in> {1, 2, 4, 5, 6}" by (cases c) auto
      have depth: "app_json_encode_depth e = level_depth ls + ones ?c"
        using follows_depth[OF f] by (cases c) (simp_all add: D)
      have ne: "encoded e \<noteq> ''''" and last: "last (encoded e) \<in> set JSON_CHARS_START \<longleftrightarrow> empty_members c"
        using document_text_last[of D x n] enc
        by (auto simp: D nothing_before_def split: if_splits simp del: document_text.simps)
      have "enc_cur e \<noteq> None" using ne by (auto simp: encoded_def split: option.splits)
      then have re: "ready e" using f has_room_ready by (auto simp: follows_def)
      have room: "has_room (Suc (Suc k)) (B + end_cost n) (closers n (level_depth ls + ones ?c)) e"
        using f depth follows_depth[OF f] unfolding follows_def by (elim conjE has_room_less) simp_all
      have d21: "level_depth ls \<le> 21" using depth22 by (simp add: D split: if_splits)
      obtain e' where e': "app_json_encode_struct_end e m = Some (STATUS_SUCCESS, e')" "ready e'"
        "encoded e' = encoded e @ end_text n (level_depth ls) ?c (last (encoded e) \<in> set JSON_CHARS_START)"
        "enc_flags e' = enc_flags e" "enc_structs e' = pack (code_list ls)" "has_room k B (closers n (level_depth ls)) e'"
        by (rule struct_end_spec[OF s re ne d21 c5 codes st' depth _ room]) (use bits True in blast)
      have wr: "4 < ?c \<longleftrightarrow> wraps ls key" by (cases c) auto
      have "end_text n (level_depth ls) ?c (empty_members c) =
          before_end n (level_depth ((key, c) # ls) - 1) (empty_members c) @ [right_bracket c] @ after_value n ls key"
        unfolding end_text_def wr by (cases c) (simp_all add: after_value_def)
      then have "encoded e' = document_text x n (close_level D)"
        using e'(3) enc close_text[of x n roots key c ls] unfolding last by (simp add: D del: document_text.simps)
      moreover have "snd (close_level D) = snd (put_value (roots, ls) key (value_of c))" by (simp add: D)
      moreover have "close_level D \<noteq> ([], [])" by (simp add: D)
      moreover have "enc_cur e' \<noteq> None" using e'(2) by (auto simp: ready_def)
      moreover have "clean (encoded e')" using e'(3) clean by simp
      moreover have "length ls \<le> 21" using len by (simp add: D)
      ultimately have "follows x n k B (close_level D) e'"
        using e'(5,6) d21 styled_flags[OF s e'(4)] by (simp add: follows_def clean_def)
      then show ?thesis using e'(1) True Cons by (simp add: end_level_def)
    qed
  qed
qed

lemma call_follows:
  assumes f: "follows x n (k + 4) (B + call_cost n c) D e" and ok: "call_ok c"
  shows "\<exists>e'. encoder_call c e = Some (fst (document_call c D), e') \<and> follows x n k B (snd (document_call c D)) e'"
proof -
  have f': "follows x n (Suc (Suc (Suc (Suc k)))) (B + call_cost n c) D e"
    using f by (simp add: numeral_eq_Suc)
  show ?thesis
  proof (cases c)
    case (ArrayStart key)
    then have "follows x n (Suc (Suc (Suc (Suc k)))) (B + (length (escape_text (key_or_empty key)) + (n + 2) + 2 * item_cost n)) D e"
      using f' escape_length[of "key_or_empty key"] by (elim follows_less) (simp_all add: call_cost_def item_cost_def)
    from start_call[OF this, of "Items []" 1] show ?thesis
      using ok ArrayStart by (simp add: call_ok_def key_clean app_json_encode_array_start_def APP_JSON_TYPE_ARRAY_def)
  next
    case (ObjectStart key)
    then have "follows x n (Suc (Suc (Suc (Suc k)))) (B + (length (escape_text (key_or_empty key)) + (n + 2) + 2 * item_cost n)) D e"
      using f' escape_length[of "key_or_empty key"] by (elim follows_less) (simp_all add: call_cost_def item_cost_def)
    from start_call[OF this, of "Members []" 2] show ?thesis
      using ok ObjectStart by (simp add: call_ok_def key_clean app_json_encode_object_start_def APP_JSON_TYPE_OBJECT_def)
  next
    case ArrayEnd
    have "follows x n (Suc (Suc (Suc (Suc k)))) (B + end_cost n) D e"
      using f' by (rule follows_less) (simp_all add: call_cost_def end_cost_def)
    from end_call[OF this, of _ True] show ?thesis using ArrayEnd by (simp add: app_json_encode_array_end_def)
  next
    case ObjectEnd
    have "follows x n (Suc (Suc (Suc (Suc k)))) (B + end_cost n) D e"
      using f' by (rule follows_less) (simp_all add: call_cost_def end_cost_def)
    from end_call[OF this, of _ False] show ?thesis using ObjectEnd by (simp add: app_json_encode_object_end_def)
  next
    case (AddBool key b)
    then show ?thesis using bool_call[of x n k B key b D e] f' ok by simp
  next
    case (AddInteger key i)
    then show ?thesis using integer_call[of x n k B key i D e] f' ok by simp
  next
    case (AddString key s)
    then show ?thesis using string_call[of x n k B key s D e] f' ok by (simp add: key_or_empty_def)
  next
    case (AddReal key r)
    then show ?thesis using real_call[of x n k B key r D e] f' ok by simp
  qed
qed

lemma run_follows:
  assumes "follows x n (k + 4 * length cs) (B + sum_list (map (call_cost n) cs)) D e" and "\<forall>c \<in> set cs. call_ok c"
  shows "\<exists>e'. run_encoder cs e = Some (fst (run_document cs D), e') \<and> follows x n k B (snd (run_document cs D)) e'"
  using assms
proof (induction cs arbitrary: D e)
  case (Cons c cs)
  have "follows x n ((k + 4 * length cs) + 4) ((B + sum_list (map (call_cost n) cs)) + call_cost n c) D e"
    using Cons.prems(1) by (simp add: ac_simps)
  then obtain e1 where e1: "encoder_call c e = Some (fst (document_call c D), e1)"
    "follows x n (k + 4 * length cs) (B + sum_list (map (call_cost n) cs)) (snd (document_call c D)) e1"
    using call_follows Cons.prems(2) by (metis list.set_intros(1))
  then show ?case using Cons.IH[OF e1(2)] Cons.prems(2) by (auto simp: split_beta Let_def)
qed simp

section \<open>The text that is handed out\<close>

lemma dump_step:
  assumes s: "styled x n e" and re: "ready e" "encoded e \<noteq> ''''" and d: "d \<le> 22" and i: "bit t i"
    and dw: "n \<noteq> 0 \<Longrightarrow> dw = of_nat (Suc d)"
    and room: "has_room k B (closers n (Suc d)) e"
    and stop: "stop = (last (encoded e) \<in> set JSON_CHARS_START)"
  shows "dump_bits (i # is) t dw e =
      dump_bits is t (if n = 0 then dw else dw - 1) (written (before_end n d stop @ [JSON_CHARS_END ! i]) e)"
    and "has_room k B (closers n d) (written (before_end n d stop @ [JSON_CHARS_END ! i]) e)"
proof -
  have n: "n < 2 ^ 16" "encoder_indent e = of_nat n" using s by (simp_all add: styled_def)
  have zero: "(of_nat n :: u32) = 0 \<longleftrightarrow> n = 0" using u32_zero[of n] n(1) by simp
  have "n * d \<le> 2 ^ 16 * 22" using n(1) d by (intro mult_le_mono) simp_all
  then have nd: "unat (of_nat n * of_nat d :: u32) = n * d" using u32_small[of "n * d"] by simp
  let ?b = "before_end n d stop" and ?r = "[JSON_CHARS_END ! i]"
  have room2: "has_room k B (length (?b @ ?r) + closers n d) e"
    using room by (rule has_room_less) (simp_all add: before_end_def line_break_def)
  show "has_room k B (closers n d) (written (?b @ ?r) e)" by (rule has_room_written(2)[OF room2 re(1)])
  have "has_room k B (length ?r + closers n d) (written ?b e)"
    using has_room_written(2)[of k B ?b "length ?r + closers n d" e] room2 re(1) by (simp add: add.assoc)
  from has_room_written(1)[OF this ready_written]
  have emit: "emit (JSON_CHARS_END ! i) (written ?b e) = Some (written (?b @ ?r) e)" by simp
  show "dump_bits (i # is) t dw e = dump_bits is t (if n = 0 then dw else dw - 1) (written (?b @ ?r) e)"
  proof (cases "n = 0")
    case True
    then have "?b = ''''" by (simp add: before_end_def)
    then show ?thesis using emit True i n(2) re(1) by (simp add: Let_def written_nil)
  next
    case False
    then have dw1: "dw - 1 = of_nat d" using dw by simp
    have "has_room k B (length (line_break n d) + 0) e"
      using room by (rule has_room_less) (simp_all add: False line_break_def)
    from write_break_spec[OF re this nd]
    have "write_break (of_nat n * of_nat d) e = Some (\<not> stop, written ?b e)"
      using False re(1) by (simp add: stop before_end_def written_nil)
    then show ?thesis using emit False i n(2) zero by (simp add: Let_def dw1)
  qed
qed

lemma dump_level:
  assumes s: "styled x n e" and re: "ready e" "encoded e \<noteq> ''''" and d: "d \<le> 21"
    and c: "c \<in> {1, 2, 5, 6}" and codes: "level_codes (c # cs)"
    and dw: "n \<noteq> 0 \<Longrightarrow> dw = of_nat (d + ones c)"
    and room: "has_room k B (closers n (d + ones c)) e"
    and stop: "stop = (last (encoded e) \<in> set JSON_CHARS_START)"
  shows "\<exists>dw'. dump_bits [0..<JSON_STRUCT_BITS] (pack (c # cs)) dw e = Some (dw', written (end_text n d c stop) e) \<and>
      (n \<noteq> 0 \<longrightarrow> dw' = of_nat d)"
    and "has_room k B (closers n d) (written (end_text n d c stop) e)"
proof -
  let ?t = "pack (c # cs)"
  have bits: "bit ?t 0 \<longleftrightarrow> bit c 0" "bit ?t 1 \<longleftrightarrow> bit c 1" "bit ?t (Suc 0) \<longleftrightarrow> bit c 1" "bit ?t 2 \<longleftrightarrow> bit c 2"
    using bit_pack[OF codes] by simp_all
  have upt: "[0..<JSON_STRUCT_BITS] = [0, 1, 2]" by (simp add: JSON_STRUCT_BITS_def upt_rec)
  have "(\<exists>dw'. dump_bits [0, 1, 2] ?t dw e = Some (dw', written (end_text n d c stop) e) \<and> (n \<noteq> 0 \<longrightarrow> dw' = of_nat d)) \<and>
      has_room k B (closers n d) (written (end_text n d c stop) e)"
  proof (cases "4 < c")
    case False
    then have one: "ones c = 1" and c: "c \<in> {1, 2}" using c by auto
    have room1: "has_room k B (closers n (Suc d)) e" using room one by simp
    have dw1: "n \<noteq> 0 \<Longrightarrow> dw = of_nat (Suc d)" using dw one by simp
    have d22: "d \<le> 22" using d by simp
    note step = dump_step[OF s re d22 _ dw1 room1 stop]
    have cases: "c = 1 \<or> c = 2" using c by simp
    then show ?thesis
      using step(1)[of ?t 0 "[1, 2]"] step(1)[of ?t 1 "[2]"] step(2)[of ?t 0] step(2)[of ?t 1] bits dw1
      by (elim disjE) (simp_all add: end_text_def JSON_CHARS_END_def del: dump_bits.simps(2), simp_all)
  next
    case True
    then have two: "ones c = 2" and c: "c \<in> {5, 6}" using c by auto
    have room1: "has_room k B (closers n (Suc (Suc d))) e" using room two by (simp add: numeral_2_eq_2)
    have dw1: "n \<noteq> 0 \<Longrightarrow> dw = of_nat (Suc (Suc d))" using dw two by simp
    have d22: "Suc d \<le> 22" "d \<le> 22" using d by simp_all
    let ?i = "if c = 5 then 0 else 1 :: nat"
    let ?e = "written (before_end n (Suc d) stop @ [JSON_CHARS_END ! ?i]) e"
    have i: "bit ?t ?i" "bit ?t 2" using c bits by auto
    note first = dump_step[OF s re d22(1) i(1) dw1 room1 stop]
    have enc: "encoded ?e \<noteq> ''''" "False = (last (encoded ?e) \<in> set JSON_CHARS_START)"
      using c by (auto simp: JSON_CHARS_END_def JSON_CHARS_START_def)
    have dw2: "n \<noteq> 0 \<Longrightarrow> (if n = 0 then dw else dw - 1) = of_nat (Suc d)" using dw1 by simp
    have s': "styled x n ?e" using styled_flags[OF s, of ?e] by simp
    note second = dump_step[OF s' ready_written enc(1) d22(2) i(2) dw2 first(2) enc(2)]
    have skip: "dump_bits [0, 1, 2] ?t dw e = dump_bits (?i # [2]) ?t dw e"
    proof (cases "c = 5")
      case True
      then show ?thesis using first(1)[of "[1, 2]"] first(1)[of "[2]"] bits by simp
    next
      case False
      then show ?thesis using c bits by simp
    qed
    have chars: "before_end n (Suc d) stop @ [JSON_CHARS_END ! ?i] @ before_end n d False @ [JSON_CHARS_END ! 2] =
        end_text n d c stop"
      using c by (auto simp: end_text_def JSON_CHARS_END_def)
    have "n \<noteq> 0 \<longrightarrow> (if n = 0 then dw else dw - 1) - 1 = of_nat d" using dw1 by simp
    moreover have "dump_bits [0, 1, 2] ?t dw e = dump_bits [2] ?t (if n = 0 then dw else dw - 1) ?e"
      using skip first(1)[of "[2]"] by (rule trans)
    moreover have "\<dots> = Some (if n = 0 then (if n = 0 then dw else dw - 1) else (if n = 0 then dw else dw - 1) - 1,
        written (end_text n d c stop) e)"
      using second(1)[of "[]"] chars by (simp del: dump_bits.simps(2))
    ultimately show ?thesis using second(2) chars by (simp del: dump_bits.simps)
  qed
  then show "\<exists>dw'. dump_bits [0..<JSON_STRUCT_BITS] ?t dw e = Some (dw', written (end_text n d c stop) e) \<and>
      (n \<noteq> 0 \<longrightarrow> dw' = of_nat d)"
    and "has_room k B (closers n d) (written (end_text n d c stop) e)"
    unfolding upt by blast+
qed

definition document_output :: "bool \<Rightarrow> nat \<Rightarrow> document \<Rightarrow> string" where
  "document_output x n D = joined x n 0 (map (render x n 0) (close_all D))"

lemma close_end_text:
  "document_text x n (close_level (roots, (key, c) # ls)) = document_text x n (roots, (key, c) # ls) @
     end_text n (level_depth ls) (kind_bits c + (if wraps ls key then 4 else 0)) (empty_members c)"
proof -
  have wr: "4 < kind_bits c + (if wraps ls key then 4 else 0) \<longleftrightarrow> wraps ls key" by (cases c) auto
  show ?thesis
    unfolding end_text_def wr close_text by (cases c) (simp_all add: after_value_def)
qed

lemma dump_loop_spec:
  assumes "styled x n e" and "ready e" and "encoded e = document_text x n (roots, ls)"
    and "length ls \<le> 21" and "level_depth ls \<le> 22" and "has_room k B (closers n (level_depth ls)) e"
    and "n \<noteq> 0 \<Longrightarrow> dw = of_nat (level_depth ls)"
  shows "\<exists>t. dump_loop (pack (code_list ls)) dw e = Some (written t e) \<and>
    encoded e @ t = document_output x n (roots, ls) \<and> clean t \<and> has_room k B 0 (written t e)"
  using assms
proof (induction "length ls" arbitrary: roots ls dw e)
  case 0
  then have "dump_loop (pack (code_list ls)) dw e = Some (written [] e)" "has_room k B 0 (written [] e)"
    by (simp_all add: dump_loop.simps[of 0] pack_def written_nil)
  moreover have "encoded e @ [] = document_output x n (roots, ls)"
    using 0 by (simp add: document_output_def close_all.simps)
  ultimately show ?case using clean_simps(1) by blast
next
  case (Suc l)
  then obtain key c ls' where ls: "ls = (key, c) # ls'" by (cases ls) auto
  let ?c = "kind_bits c + (if wraps ls' key then 4 else 0)" and ?d = "level_depth ls'"
  have codes: "level_codes (?c # code_list ls')" using code_list_codes[of ls] Suc.prems(4) by (simp add: ls)
  have c: "?c \<in> {1, 2, 5, 6}" by (cases c) auto
  have depth: "level_depth ls = ?d + ones ?c" by (cases c) (simp_all add: ls)
  have ne: "encoded e \<noteq> ''''" and last: "empty_members c = (last (encoded e) \<in> set JSON_CHARS_START)"
    using document_text_last[of "(roots, ls)" x n] Suc.prems(3)
    by (auto simp: ls nothing_before_def split: if_splits simp del: document_text.simps)
  have d21: "?d \<le> 21" using Suc.prems(5) by (simp add: ls split: if_splits)
  have dw: "n \<noteq> 0 \<Longrightarrow> dw = of_nat (?d + ones ?c)" using Suc.prems(7) depth by simp
  have room: "has_room k B (closers n (?d + ones ?c)) e" using Suc.prems(6) depth by simp
  let ?t = "end_text n ?d ?c (empty_members c)"
  obtain dw' where bits: "dump_bits [0..<JSON_STRUCT_BITS] (pack (?c # code_list ls')) dw e = Some (dw', written ?t e)"
    "n \<noteq> 0 \<longrightarrow> dw' = of_nat ?d"
    using dump_level(1)[OF Suc.prems(1,2) ne d21 c codes dw room last] by blast
  note room' = dump_level(2)[OF Suc.prems(1,2) ne d21 c codes dw room last]
  obtain roots' ls2 where D': "close_level (roots, ls) = (roots', ls2)" by fastforce
  have levels: "length ls2 = length ls'" "level_depth ls2 = ?d" "code_list ls2 = code_list ls'"
    using D' put_value_levels[of "(roots, ls')" key "value_of c"] by (simp_all add: ls)
  have "document_text x n (roots', ls2) = encoded (written ?t e)"
    using close_end_text[of x n roots key c ls'] Suc.prems(3) D' by (simp add: ls del: document_text.simps)
  moreover have "l = length ls2" using Suc.hyps(2) levels by (simp add: ls)
  moreover have "length ls2 \<le> 21" using levels Suc.prems(4) by (simp add: ls)
  moreover have "styled x n (written ?t e)" using styled_flags[OF Suc.prems(1), of "written ?t e"] by simp
  ultimately obtain t where t: "dump_loop (pack (code_list ls2)) dw' (written ?t e) = Some (written t (written ?t e))"
    "encoded (written ?t e) @ t = document_output x n (roots', ls2)" "clean t"
    "has_room k B 0 (written t (written ?t e))"
    using Suc.hyps(1)[of ls2 "written ?t e" roots' dw'] levels d21 room' bits(2) by auto
  have "pack (?c # code_list ls') \<noteq> 0" using pack_zero[OF codes] by simp
  then have "dump_loop (pack (code_list ls)) dw e = Some (written (?t @ t) e)"
    using bits(1) t(1) drop_pack[OF codes] levels(3)
    by (subst dump_loop.simps) (simp add: ls JSON_STRUCT_BITS_def)
  moreover have "document_output x n (roots, ls) = document_output x n (roots', ls2)"
  proof -
    have "close_all (roots, ls) = close_all (close_level (roots, ls))"
      by (subst close_all.simps) (simp only: ls list.simps if_False)
    then show ?thesis by (simp add: document_output_def D')
  qed
  ultimately show ?case using t by (intro exI[of _ "?t @ t"]) simp
qed

lemma dump_follows:
  assumes f: "follows x n k B D e" and D: "D \<noteq> ([], [])"
  shows "\<exists>e'. app_json_encode_dump e = Some (Some (document_output x n D), e') \<and> follows x n k B D e'"
proof -
  have cur: "enc_cur e \<noteq> None" and enc: "encoded e = document_text x n D"
    and st: "enc_structs e = pack (code_list (snd D))" and room: "has_room k B (closers n (level_depth (snd D))) e"
    using f D by (auto simp: follows_def)
  then have re: "ready e" using has_room_ready by blast
  have s: "styled x n e" "length (snd D) \<le> 21" "level_depth (snd D) \<le> 22" using f by (simp_all add: follows_def)
  obtain t where t: "dump_loop (enc_structs e) (of_nat (app_json_encode_depth e)) e = Some (written t e)"
    "encoded e @ t = document_output x n D" "clean t" "has_room k B 0 (written t e)"
    using dump_loop_spec[OF s(1) re, of "fst D" "snd D" k B "of_nat (app_json_encode_depth e)"] enc s room st
      follows_depth[OF f] by auto
  have fits: "length (encoded (written t e)) + 1 \<le> length (enc_block (written t e))"
    using t(4) ready_written[of t e] cur
    by (cases "encoder_dynamic e") (auto simp: has_room_def growing_room_def fixed_room_def written_def[of t e] split: if_splits)
  then have nul: "emit (CHR 0x00) (written t e) = Some (written (t @ [CHR 0x00]) e)"
    using emits_written[OF ready_written, of t e "[CHR 0x00]"] by simp
  let ?e = "written (t @ [CHR 0x00]) e"
  have block: "enc_block ?e = encoded e @ t @ [CHR 0x00] @ drop (length (encoded e) + length (t @ [CHR 0x00])) (enc_block e)"
    by (simp add: written_def)
  have clean: "clean (encoded e @ t)" using f t(3) by (auto simp: follows_def clean_def)
  then have str: "buffer_string (enc_block ?e) = Some (encoded e @ t)"
  proof -
    have "\<And>c. c \<in> set (encoded e @ t) \<Longrightarrow> c \<noteq> CHR 0x00" using clean by (auto simp: clean_def)
    then have "takeWhile (\<lambda>c. c \<noteq> CHR 0x00) ((encoded e @ t) @ CHR 0x00 # u) = encoded e @ t" for u
      by (subst takeWhile_append2) auto
    then show ?thesis unfolding block buffer_string_def by simp
  qed
  have ne: "encoded e \<noteq> ''''"
    using document_text_last[of D x n] enc D by (cases D) (auto simp: nothing_before_def split: if_splits list.splits)
  obtain c u where cu: "encoded e = c # u" using ne by (cases "encoded e") auto
  have "take (length (encoded e)) (enc_block e) = encoded e" using re by (auto simp: ready_def encoded_def)
  then obtain r where r: "enc_block e = encoded e @ r" by (metis append_take_drop_id)
  then have first: "enc_block e \<noteq> []" "enc_block e ! 0 \<noteq> CHR 0x00" using cu clean by (auto simp: clean_def)
  have buf: "enc_buf e \<noteq> 0"
    using room cur by (auto simp: has_room_def growing_room_def fixed_room_def split: if_splits)
  let ?e' = "?e\<lparr>enc_cur := enc_cur e\<rparr>"
  have "app_json_encode_dump e = Some (Some (encoded e @ t), ?e')"
    using buf first cur t(1) nul str by (simp add: app_json_encode_dump_def)
  moreover have "follows x n k B D ?e'"
  proof -
    have len: "length (enc_block ?e') = length (enc_block e)"
    proof -
      have size: "length (enc_block (written t e)) =
          length (encoded e) + length t + (length (enc_block e) - (length (encoded e) + length t))"
        by (simp add: written_def)
      have "length (encoded e) + length t + 1 \<le> length (enc_block (written t e))" using fits by simp
      then have "length (encoded e) + length t < length (enc_block e)" unfolding size by linarith
      then show ?thesis
        using length_written[of e "t @ [CHR 0x00]"] by simp
    qed
    have enc': "encoded ?e' = encoded e"
      using encoded_cases[OF re] block unfolding encoded_def[of ?e'] by simp
    have re': "ready ?e'" using encoded_cases[OF re] len by (simp add: ready_def)
    have "has_room k B (closers n (level_depth (snd D))) ?e'"
      using room cur len enc' re re'
      by (auto simp: has_room_def growing_room_def fixed_room_def encoder_dynamic_def)
    moreover have "CHR 0x00 \<notin> set (document_text x n D)" using clean enc by (simp add: clean_def)
    ultimately show ?thesis
      using f enc' styled_flags[OF s(1), of ?e'] by (simp add: follows_def)
  qed
  ultimately show ?thesis using t(2) by auto
qed

section \<open>From the start\<close>

lemma drop_or_dynamic:
  "drop_bit APP_JSON_INDENT_OFFSET (f OR APP_JSON_FLAG_DYNAMIC) = drop_bit APP_JSON_INDENT_OFFSET f"
  "(f OR APP_JSON_FLAG_DYNAMIC) AND APP_JSON_FLAG_EXPAND = f AND APP_JSON_FLAG_EXPAND"
  by (simp_all add: APP_JSON_INDENT_OFFSET_def APP_JSON_FLAG_DYNAMIC_def APP_JSON_FLAG_EXPAND_def
      drop_bit_or bit.conj_disj_distrib2)

text \<open>
  The bytes the calls may use: in the caller's buffer they are there from the start, otherwise every
  request the calls may make is answered.
\<close>

definition enough :: "(u64 \<times> string) option \<Rightarrow> u64 \<Rightarrow> u32 \<Rightarrow> (u64 \<times> (nat \<Rightarrow> char)) list \<Rightarrow> nat \<Rightarrow> nat \<Rightarrow> bool" where
  "enough buf len f as k B \<longleftrightarrow>
     (if buf = None \<or> f AND APP_JSON_FLAG_DYNAMIC \<noteq> 0
      then answers (Suc k) as \<and> B + 1 < 2 ^ 64
      else (case buf of None \<Rightarrow> False | Some (a, b) \<Rightarrow>
        a \<noteq> 0 \<and> length b = unat len \<and> unat a + unat len < 2 ^ 64 \<and> ENCODER_SIZE + B < unat len))"

lemma initial_follows:
  assumes room: "enough buf len f as k B" and n: "drop_bit 2 f = of_nat n" "n < 2 ^ 16"
  obtains e where "app_json_encode_initialize buf len f as = Some e"
    and "follows (f AND APP_JSON_FLAG_EXPAND \<noteq> 0) n k B ([], []) e"
proof (cases "buf = None \<or> f AND APP_JSON_FLAG_DYNAMIC \<noteq> 0")
  case True
  define f' where "f' = (if buf = None then f OR APP_JSON_FLAG_DYNAMIC else f)"
  have "(f OR APP_JSON_FLAG_DYNAMIC) AND APP_JSON_FLAG_DYNAMIC \<noteq> 0"
    by (simp add: APP_JSON_FLAG_DYNAMIC_def and.commute[of _ 2] bit.conj_disj_distrib)
  then have dyn: "f' AND APP_JSON_FLAG_DYNAMIC \<noteq> 0" using True by (auto simp: f'_def)
  have style: "drop_bit APP_JSON_INDENT_OFFSET f' = of_nat n" "f' AND APP_JSON_FLAG_EXPAND = f AND APP_JSON_FLAG_EXPAND"
    using n(1) drop_or_dynamic[of f] by (simp_all add: f'_def APP_JSON_INDENT_OFFSET_def)
  have "answers (Suc k) as" "B + 1 < 2 ^ 64" using room True by (simp_all add: enough_def)
  moreover from this obtain p g r where as: "as = (p, g) # r" "p \<noteq> 0" "answers k r"
    using answers_Suc by metis
  let ?e = "\<lparr>enc_buf = 0, enc_cur = None, enc_flags = f', enc_len = 0, enc_structs = 0, enc_block = [], enc_heap = r\<rparr>"
  have "app_json_encode_initialize buf len f as = Some ?e"
    using dyn as by (simp add: app_json_encode_initialize_def f'_def[symmetric])
  moreover have "follows (f AND APP_JSON_FLAG_EXPAND \<noteq> 0) n k B ([], []) ?e"
    using style n(2) dyn as(3) \<open>B + 1 < 2 ^ 64\<close>
    by (simp add: follows_def styled_def encoder_expand_def encoder_indent_def encoded_def pack_def
        has_room_def growing_room_def encoder_dynamic_def)
  ultimately show thesis by (intro that)
next
  case False
  then obtain a b where buf: "buf = Some (a, b)" by auto
  have b: "a \<noteq> 0" "length b = unat len" "unat a + unat len < 2 ^ 64" "ENCODER_SIZE + B < unat len"
    using room False buf by (simp_all add: enough_def)
  have size: "unat (of_nat ENCODER_SIZE :: u64) = ENCODER_SIZE" by (rule unat_small) (simp add: ENCODER_SIZE_def)
  have len: "unat (len - of_nat ENCODER_SIZE) = unat len - ENCODER_SIZE"
    using size b(4) by (subst unat_sub) (simp_all add: word_le_nat_alt)
  have addr: "unat (a + of_nat ENCODER_SIZE) = unat a + ENCODER_SIZE"
    using size b by (subst unat_plus) simp_all
  then have "a + of_nat ENCODER_SIZE \<noteq> 0" by (metis ENCODER_SIZE_def add_is_0 unat_0 zero_neq_numeral)
  have "of_nat ENCODER_SIZE + 1 \<le> len"
  proof -
    have "unat (of_nat ENCODER_SIZE + 1 :: u64) = ENCODER_SIZE + 1" by (simp add: ENCODER_SIZE_def)
    then show ?thesis using b(4) by (simp add: word_le_nat_alt)
  qed
  let ?e = "\<lparr>enc_buf = a + of_nat ENCODER_SIZE, enc_cur = None, enc_flags = f, enc_len = len - of_nat ENCODER_SIZE,
    enc_structs = 0, enc_block = drop ENCODER_SIZE b, enc_heap = as\<rparr>"
  have "app_json_encode_initialize buf len f as = Some ?e"
    using False buf \<open>of_nat ENCODER_SIZE + 1 \<le> len\<close> by (simp add: app_json_encode_initialize_def)
  moreover have "follows (f AND APP_JSON_FLAG_EXPAND \<noteq> 0) n k B ([], []) ?e"
    using n False len addr b \<open>a + of_nat ENCODER_SIZE \<noteq> 0\<close>
    by (simp add: follows_def styled_def encoder_expand_def encoder_indent_def encoded_def pack_def
        has_room_def fixed_room_def encoder_dynamic_def APP_JSON_INDENT_OFFSET_def)
  ultimately show thesis by (intro that)
qed

text \<open>
  C20: a sequence of calls on a JSON encoder answers as the document it builds does, writes inside
  its buffer only, and is then handed out as the rendering of the document, what is still open being
  closed; no call at all gives no text. This is for calls the encoder is up to (\<open>call_ok\<close>): keys and
  strings without a null character, integers above \<open>- 2 ^ 63\<close>, and real numbers that are finite, not
  negative and below \<open>2 ^ 64\<close>. It is also for an indentation below \<open>2 ^ 16\<close>, and for a buffer that
  has the room the calls may need (\<open>enough\<close>), or an allocator that answers. For the numbers left
  out the code is undefined or counts wrongly: \<open>json_real_undefined\<close>, \<open>json_integer_undefined\<close>,
  \<open>json_fraction_miscounted\<close>.
\<close>

theorem json_encoded:
  assumes "\<forall>c \<in> set cs. call_ok c" and "drop_bit 2 f = of_nat n" and "n < 2 ^ 16"
    and "enough buf len f as (4 * length cs) (sum_list (map (call_cost n) cs))"
  shows "\<exists>e0 e e'. app_json_encode_initialize buf len f as = Some e0 \<and>
    run_encoder cs e0 = Some (fst (run_document cs ([], [])), e) \<and>
    app_json_encode_dump e =
      Some (let D = snd (run_document cs ([], []))
            in if D = ([], []) then None else Some (document_output (f AND APP_JSON_FLAG_EXPAND \<noteq> 0) n D), e')"
proof -
  let ?x = "f AND APP_JSON_FLAG_EXPAND \<noteq> 0" and ?D = "snd (run_document cs ([], []))"
  obtain e0 where e0: "app_json_encode_initialize buf len f as = Some e0"
    "follows ?x n (0 + 4 * length cs) (0 + sum_list (map (call_cost n) cs)) ([], []) e0"
    using initial_follows[OF assms(4,2,3)] by auto
  obtain e where e: "run_encoder cs e0 = Some (fst (run_document cs ([], [])), e)" "follows ?x n 0 0 ?D e"
    using run_follows[OF e0(2) assms(1)] by blast
  have "\<exists>e'. app_json_encode_dump e = Some (if ?D = ([], []) then None else Some (document_output ?x n ?D), e')"
  proof (cases "?D = ([], [])")
    case True
    then have "enc_cur e = None" using e(2) by (simp add: follows_def)
    then show ?thesis using e(2) True
      by (auto simp: app_json_encode_dump_def follows_def has_room_def growing_room_def fixed_room_def split: if_splits)
  next
    case False
    then show ?thesis using dump_follows[OF e(2)] by auto
  qed
  then show ?thesis using e0(1) e(1) by (auto simp: Let_def)
qed

text \<open>Four calls, two spaces of indentation, a space after every colon, and a buffer that grows.\<close>

definition example_calls :: "json_call list" where
  "example_calls = [ObjectStart None, AddInteger (Some ''a'') (- 5), ArrayStart (Some ''b''),
     AddString (Some ''c'') (Some ''say \"hi\"'')]"

lemma json_encoded_witness:
  "\<exists>e0 e e'. app_json_encode_initialize None 0 9 (replicate 20 (4096, \<lambda>_. CHR ''x'')) = Some e0 \<and>
    run_encoder example_calls e0 = Some ([STATUS_SUCCESS, STATUS_SUCCESS, STATUS_SUCCESS, STATUS_SUCCESS], e) \<and>
    app_json_encode_dump e = Some (Some (
      ''{'' @ [CHR 0x0A] @ ''  \"a\": -5,'' @ [CHR 0x0A] @ ''  \"b\": ['' @ [CHR 0x0A] @
      ''    {'' @ [CHR 0x0A] @ ''      \"c\": \"say '' @ [CHR 0x5C, CHR 0x22] @ ''hi'' @ [CHR 0x5C, CHR 0x22] @ ''\"'' @ [CHR 0x0A] @
      ''    }'' @ [CHR 0x0A] @ ''  ]'' @ [CHR 0x0A] @ ''}''), e')"
proof -
  have ok: "\<forall>c \<in> set example_calls. call_ok c"
    by (simp add: example_calls_def call_ok_def key_or_empty_def)
  have room: "enough None 0 9 (replicate 20 (4096, \<lambda>_. CHR ''x'')) (4 * length example_calls)
      (sum_list (map (call_cost 2) example_calls))"
    by (simp add: example_calls_def enough_def answers_def call_cost_def key_or_empty_def)
  have run: "run_document example_calls ([], []) =
      ([STATUS_SUCCESS, STATUS_SUCCESS, STATUS_SUCCESS, STATUS_SUCCESS],
       ([], [(Some ''b'', Items [JObject [(''c'', JString ''say \"hi\"'')]]), (None, Members [(''a'', JInteger (- 5))])]))"
    by (simp add: example_calls_def start_level_def add_item_def add_root_def wraps_def in_array_def
        JSON_MAX_DEPTH_def JSON_STRUCT_BITS_def)
  have nine: "drop_bit 2 (9 :: u32) = of_nat 2" "(9 :: u32) AND APP_JSON_FLAG_EXPAND \<noteq> 0"
    by (simp_all add: APP_JSON_FLAG_EXPAND_def)
  have "document_output True 2 ([], [(Some ''b'', Items [JObject [(''c'', JString ''say \"hi\"'')]]),
      (None, Members [(''a'', JInteger (- 5))])]) =
      ''{'' @ [CHR 0x0A] @ ''  \"a\": -5,'' @ [CHR 0x0A] @ ''  \"b\": ['' @ [CHR 0x0A] @
      ''    {'' @ [CHR 0x0A] @ ''      \"c\": \"say '' @ [CHR 0x5C, CHR 0x22] @ ''hi'' @ [CHR 0x5C, CHR 0x22] @ ''\"'' @ [CHR 0x0A] @
      ''    }'' @ [CHR 0x0A] @ ''  ]'' @ [CHR 0x0A] @ ''}''"
    by code_simp
  then show ?thesis
    using json_encoded[OF ok nine(1) _ room] nine(2) by (simp add: run)
qed

section \<open>Strings read back\<close>

text \<open>A reader of what follows an opening quotation mark: the string and what comes after it.\<close>

definition unescape_letter :: "char \<Rightarrow> char" where
  "unescape_letter c =
     (if c = CHR ''b'' then CHR 0x08 else if c = CHR ''f'' then CHR 0x0C
      else if c = CHR ''n'' then CHR 0x0A else if c = CHR ''r'' then CHR 0x0D
      else if c = CHR ''t'' then CHR 0x09 else c)"

fun read_string :: "string \<Rightarrow> (string \<times> string) option" where
  "read_string [] = None"
| "read_string (c # s) =
     (if c = CHR 0x22 then Some ('''', s)
      else if c = CHR 0x5C
      then (case s of [] \<Rightarrow> None
            | d # s \<Rightarrow> do { (t, r) \<leftarrow> read_string s; Some (unescape_letter d # t, r) })
      else do { (t, r) \<leftarrow> read_string s; Some (c # t, r) })"

lemma unescape_escape: "needs_escape c \<Longrightarrow> unescape_letter (escape_letter c) = c"
  by (auto simp: needs_escape_def escape_letter_def unescape_letter_def)

lemma read_escape: "read_string (escape_text s @ CHR 0x22 # r) = Some (s, r)"
proof (induction s)
  case (Cons c s)
  show ?case
  proof (cases "needs_escape c")
    case True
    then show ?thesis using Cons unescape_escape by (simp add: escape_text_def)
  next
    case False
    then have "c \<noteq> CHR 0x22" "c \<noteq> CHR 0x5C" by (auto simp: needs_escape_def)
    then show ?thesis using Cons False by (simp add: escape_text_def)
  qed
qed (simp add: escape_text_def)

text \<open>
  C21: a string copied into JSON text takes the bytes that were counted for it, and a reader gets it
  back unchanged, whatever follows its closing quotation mark.
\<close>

theorem json_string_round_trip:
  "\<exists>t. app_json_encode_strncpy s (app_json_encode_strlen s) = Some t \<and> length t = app_json_encode_strlen s \<and>
    read_string (t @ CHR 0x22 # r) = Some (s, r)"
  using strncpy_escape read_escape by (simp add: strlen_escape)

section \<open>Taking an object back\<close>

lemma brace_before_found:
  assumes "b ! m = CHR ''{''" and "m \<le> p" and "\<And>i. m < i \<Longrightarrow> i \<le> p \<Longrightarrow> b ! i \<noteq> CHR ''{'' \<and> b ! i \<noteq> CHR ''}''"
  shows "brace_before b 0 p = m"
  using assms
proof (induction p)
  case (Suc p)
  then show ?case
    by (cases "m = Suc p") (auto simp: JSON_CHARS_START_def JSON_CHARS_END_def le_Suc_eq)
qed simp

lemma key_before_found:
  assumes "b ! m \<in> {CHR '','', CHR ''{'', CHR ''[''}" and "0 < m" and "m \<le> p"
    and "\<And>i. m < i \<Longrightarrow> i \<le> p \<Longrightarrow> b ! i \<notin> {CHR '','', CHR ''{'', CHR ''[''}"
  shows "key_before b p = m"
  using assms
proof (induction p)
  case (Suc p)
  then show ?case by (cases "m = Suc p") (auto simp: le_Suc_eq)
qed simp

lemma block_encoded:
  assumes "ready e"
  obtains r where "enc_block e = encoded e @ r"
proof -
  have "take (length (encoded e)) (enc_block e) = encoded e"
    using assms by (auto simp: ready_def encoded_def)
  then show thesis using that[of "drop (length (encoded e)) (enc_block e)"] by (metis append_take_drop_id)
qed

lemma has_room_back:
  assumes "has_room k B c e" and "ready e" and "c' \<le> c"
    and e': "e' = e\<lparr>enc_cur := Some (length t), enc_structs := u\<rparr>" and t: "encoded e = t @ s"
  shows "has_room k B c' e'" and "ready e'" and "encoded e' = t"
proof -
  obtain r where r: "enc_block e = encoded e @ r" using block_encoded[OF assms(2)] .
  then show enc: "encoded e' = t" unfolding e' t by (simp add: encoded_def)
  show re: "ready e'" using r t by (simp add: ready_def e')
  have "enc_cur e \<noteq> None" using assms(2) by (auto simp: ready_def)
  then show "has_room k B c' e'"
    using assms(1,3) enc re t
    by (auto simp: has_room_def growing_room_def fixed_room_def encoder_dynamic_def e' split: if_splits)
qed

text \<open>The brace of the innermost object is found from the end of the text when none follows it.\<close>

lemma object_brace:
  assumes "ready e" and t: "encoded e = t @ CHR ''{'' # u" and "CHR ''{'' \<notin> set u" and "CHR ''}'' \<notin> set u"
  obtains m where "enc_cur e = Some (Suc m)" and "m < length (enc_block e)"
    and "brace_before (enc_block e) 0 m = length t"
proof -
  obtain r where r: "enc_block e = encoded e @ r" using block_encoded[OF assms(1)] .
  let ?m = "length t + length u"
  have "enc_cur e = Some (Suc ?m)" using encoded_cases[OF assms(1)] t by simp
  moreover have "?m < length (enc_block e)" using r t by simp
  moreover have "brace_before (enc_block e) 0 ?m = length t"
  proof (rule brace_before_found)
    fix i assume "length t < i" and i: "i \<le> ?m"
    then obtain j where j: "i = Suc (length t) + j" using Suc_leI le_Suc_ex by blast
    then have "enc_block e ! i = u ! j" "j < length u"
      using r t i by (simp_all add: nth_append)
    then show "enc_block e ! i \<noteq> CHR ''{'' \<and> enc_block e ! i \<noteq> CHR ''}''"
      using assms(3,4) by (metis nth_mem)
  qed (simp_all add: r t nth_append)
  ultimately show thesis by (rule that)
qed

definition braceless :: "string list \<Rightarrow> bool" where
  "braceless ts \<longleftrightarrow> (\<forall>t \<in> set ts. CHR ''{'' \<notin> set t \<and> CHR ''}'' \<notin> set t)"

lemma joined_set: "c \<notin> set (separator x n d True) \<Longrightarrow> c \<notin> set (separator x n d False) \<Longrightarrow>
    \<forall>t \<in> set ts. c \<notin> set t \<Longrightarrow> c \<notin> set (joined x n d ts)"
  by (cases ts) (auto simp: joined_def)

lemma joined_braceless:
  "braceless ts \<Longrightarrow> CHR ''{'' \<notin> set (joined x n d ts) \<and> CHR ''}'' \<notin> set (joined x n d ts)"
  by (intro conjI joined_set) (auto simp: braceless_def separator_def line_break_def)

lemma object_cleared:
  assumes f: "follows x n k B (roots, (key, Members ms) # ls) e"
    and plain: "braceless (member_texts x n (level_depth ((key, Members ms) # ls)) (Members ms))"
  shows "\<exists>e'. app_json_encode_object_clear e = Some (STATUS_SUCCESS, e') \<and>
    follows x n k B (roots, (key, Members []) # ls) e'"
proof -
  let ?D = "(roots, (key, Members ms) # ls)"
  let ?t = "document_text x n (roots, ls) @ before_value x n (roots, ls) key"
  let ?u = "joined x n (level_depth ((key, Members ms) # ls)) (member_texts x n (level_depth ((key, Members ms) # ls)) (Members ms))"
  have "enc_cur e \<noteq> None" using f by (simp add: follows_def)
  then have re: "ready e" using f has_room_ready by (auto simp: follows_def)
  have enc: "encoded e = ?t @ CHR ''{'' # ?u" using f by (simp add: follows_def del: level_depth.simps)
  obtain m where m: "enc_cur e = Some (Suc m)" "m < length (enc_block e)" "brace_before (enc_block e) 0 m = length ?t"
    using object_brace[OF re enc] joined_braceless[OF plain] by blast
  have codes: "level_codes (code_list (snd ?D))" and st: "enc_structs e = pack (code_list (snd ?D))"
    using f by (auto simp: follows_def intro: code_list_codes)
  have "bit (enc_structs e) 1"
    using bit_pack[of "2 + (if wraps ls key then 4 else 0)" "code_list ls" 1] codes st by auto
  then have "bit (drop_bit 1 (enc_structs e)) 0" by (simp add: bit_drop_bit_eq del: bit_0)
  then have "drop_bit 1 (enc_structs e) \<noteq> 0" by (intro notI) simp
  then have clear: "app_json_encode_object_clear e = Some (STATUS_SUCCESS,
      e\<lparr>enc_cur := Some (length (?t @ ''{'')), enc_structs := enc_structs e\<rparr>)"
    using m by (simp add: app_json_encode_object_clear_def)
  have room: "has_room k B (closers n (level_depth (snd ?D))) e" using f by (simp add: follows_def)
  have split: "encoded e = (?t @ ''{'') @ ?u" using enc by simp
  note undone = has_room_back[OF room re order_refl refl split]
  have "CHR 0x00 \<notin> set (encoded e)" using f by (auto simp: follows_def)
  then have "CHR 0x00 \<notin> set (?t @ ''{'')" unfolding split by simp
  moreover have "styled x n (e\<lparr>enc_cur := Some (length (?t @ ''{'')), enc_structs := enc_structs e\<rparr>)"
    using f by (auto simp: follows_def intro: styled_flags)
  ultimately have "follows x n k B (roots, (key, Members []) # ls)
      (e\<lparr>enc_cur := Some (length (?t @ ''{'')), enc_structs := enc_structs e\<rparr>)"
    using undone[of "enc_structs e"] f st by (simp add: follows_def member_texts_empty[THEN iffD2])
  with clear show ?thesis by blast
qed

text \<open>
  The innermost object, started under a key behind other members of an object, is taken back with
  its separator and its key: \<open>t\<close> is the text before them.
\<close>

lemma cancel_position:
  assumes "ready e" and t: "t \<noteq> ''''" and enc: "encoded e = t @ separator x n d False @ item_name x k @ CHR ''{'' # u"
    and u: "CHR ''{'' \<notin> set u" "CHR ''}'' \<notin> set u"
    and k: "CHR '','' \<notin> set k" "CHR ''{'' \<notin> set k" "CHR ''['' \<notin> set k"
    and structs: "drop_bit 1 (enc_structs e) \<noteq> 0" "drop_bit 3 (enc_structs e) \<noteq> 0"
  shows "app_json_encode_object_cancel e = Some (STATUS_SUCCESS,
    e\<lparr>enc_cur := Some (length t), enc_structs := drop_bit 3 (enc_structs e)\<rparr>)"
proof -
  let ?b = "enc_block e" and ?q = "CHR 0x22 # escape_text k @ [CHR 0x22]"
  let ?c = "(if x \<and> n = 0 then '' '' else '''') @ (if n > 0 \<and> d > 0 then line_break n d else '''')"
  obtain r where r: "?b = encoded e @ r" using block_encoded[OF assms(1)] .
  have lead: "separator x n d False @ item_name x k = CHR '','' # (?c @ ?q) @ CHR '':'' # (if x then '' '' else '''')"
    by (simp add: separator_def item_name_def)
  let ?p = "length t + length (?c @ ?q)"
  have block: "?b = t @ CHR '','' # (?c @ ?q) @ CHR '':'' # (if x then '' '' else '''') @ CHR ''{'' # u @ r"
    using r enc lead by (simp add: separator_def item_name_def)
  have enc': "encoded e = (t @ separator x n d False @ item_name x k) @ CHR ''{'' # u" using enc by simp
  obtain m where m: "enc_cur e = Some (Suc m)" "m < length ?b"
    "brace_before ?b 0 m = length (t @ separator x n d False @ item_name x k)"
    by (rule object_brace[OF assms(1) enc' u])
  have "length (t @ separator x n d False @ item_name x k) = ?p + 2 + (if x then 1 else 0)"
    unfolding lead by simp
  then have save: "brace_before ?b 0 m = Suc (Suc ?p) + (if x then 1 else 0)" using m(3) by simp
  have colon: "?b ! Suc ?p = CHR '':''"
    unfolding block by (simp add: nth_append)
  have "?b ! Suc (Suc ?p) = CHR '' ''" if x
    unfolding block using that by (simp add: nth_append)
  then have skip: "skip_spaces_back ?b (brace_before ?b 0 m) = Suc ?p" using save colon by (cases x) simp_all
  have clean: "c \<notin> set (?c @ ?q)" if "c \<in> {CHR '','', CHR ''{'', CHR ''[''}" for c
  proof -
    have "c \<notin> set (escape_text k)" using that k
      by (auto simp: escape_text_def escape_letter_def split: if_splits)
    then show ?thesis using that by (auto simp: line_break_def)
  qed
  have "key_before ?b ?p = length t"
  proof (rule key_before_found)
    show "?b ! length t \<in> {CHR '','', CHR ''{'', CHR ''[''}" unfolding block by simp
    fix i assume "length t < i" and i: "i \<le> ?p"
    then obtain j where j: "i = Suc (length t) + j" using Suc_leI le_Suc_ex by blast
    then have "j < length (?c @ ?q)" using i by simp
    moreover have "?b ! i = (?c @ ?q) ! j"
      using calculation unfolding block j by (simp add: nth_append del: append_assoc)
    ultimately show "?b ! i \<notin> {CHR '','', CHR ''{'', CHR ''[''}" using clean nth_mem by metis
  qed (use t in simp_all)
  then show ?thesis
    using m(1,2) structs skip colon by (simp add: app_json_encode_object_cancel_def Let_def)
qed

text \<open>
  C23: after \<open>app_json_encode_object_cancel\<close>, an encoder whose innermost level is an object that was
  started under a key, behind at least one other member of an object, follows the document without
  it, as if the object had never been started. This is for content without a brace and for a key
  without comma, opening brace and opening bracket, the characters the function looks for. An object
  that is the first member, one in an array, a root, or braces in strings are left out because the
  function is wrong there: \<open>json_cancel_first_member\<close>, \<open>json_cancel_in_array\<close>, \<open>json_cancel_root\<close>.
\<close>

theorem json_object_cancelled:
  assumes f: "follows x n k B (roots, (Some key, Members ms) # (key', Members ms') # ls) e"
    and ms': "ms' \<noteq> []"
    and plain: "braceless (member_texts x n (level_depth ((Some key, Members ms) # (key', Members ms') # ls)) (Members ms))"
    and k: "CHR '','' \<notin> set key" "CHR ''{'' \<notin> set key" "CHR ''[''  \<notin> set key"
  shows "\<exists>e'. app_json_encode_object_cancel e = Some (STATUS_SUCCESS, e') \<and>
    follows x n k B (roots, (key', Members ms') # ls) e'"
proof -
  let ?ls = "(key', Members ms') # ls"
  let ?D = "(roots, ?ls)" and ?E = "(roots, (Some key, Members ms) # ?ls)"
  let ?t = "document_text x n ?D" and ?sep = "separator x n (level_depth ?ls) False"
  let ?u = "joined x n (level_depth (snd ?E)) (member_texts x n (level_depth (snd ?E)) (Members ms))"
  have "enc_cur e \<noteq> None" using f by (simp add: follows_def)
  then have re: "ready e" using f has_room_ready by (auto simp: follows_def)
  have before: "before_value x n ?D (Some key) = ?sep @ item_name x key"
    using ms' by (simp add: before_value_def nothing_before_def in_array_def)
  have "encoded e = document_text x n ?E" using f by (simp add: follows_def del: document_text.simps)
  also have "\<dots> = ?t @ before_value x n ?D (Some key) @ CHR ''{'' # ?u"
    unfolding document_text.simps(2)[of x n roots "Some key" "Members ms" ?ls]
    by (simp del: document_text.simps level_depth.simps)
  finally have enc: "encoded e = ?t @ ?sep @ item_name x key @ CHR ''{'' # ?u" using before by simp
  have t: "?t \<noteq> ''''" using document_text_last[of ?D x n] by (auto split: if_splits)
  have wraps: "\<not> wraps ?ls (Some key)" by (simp add: wraps_def in_array_def)
  have st: "enc_structs e = pack (code_list (snd ?E))" and len: "length (snd ?E) \<le> 21"
    and deep: "level_depth (snd ?E) \<le> 22" and room: "has_room k B (closers n (level_depth (snd ?E))) e"
    and s: "styled x n e"
    using f by (simp_all add: follows_def del: level_depth.simps code_list.simps)
  have codes: "level_codes (2 # code_list ?ls)" using code_list_codes[OF len] wraps by simp
  have st2: "enc_structs e = pack (2 # code_list ?ls)" using st wraps by simp
  have "bit (enc_structs e) 1" using bit_pack[OF codes, of 1] st2 by simp
  then have "bit (drop_bit 1 (enc_structs e)) 0" by (simp add: bit_drop_bit_eq del: bit_0)
  then have one: "drop_bit 1 (enc_structs e) \<noteq> 0" by (intro notI) simp
  have three: "drop_bit 3 (enc_structs e) = pack (code_list ?ls)" unfolding st2 by (rule drop_pack[OF codes])
  have "level_codes (code_list ?ls)" using codes by simp
  then have "pack (code_list ?ls) \<noteq> 0" using pack_zero by simp
  then have cancel: "app_json_encode_object_cancel e = Some (STATUS_SUCCESS,
      e\<lparr>enc_cur := Some (length ?t), enc_structs := pack (code_list ?ls)\<rparr>)"
    using cancel_position[OF re t enc _ _ k one] joined_braceless[OF plain] three by simp
  have less: "closers n (level_depth ?ls) \<le> closers n (level_depth (snd ?E))" using wraps by simp
  note undone = has_room_back[OF room re less refl enc]
  have nul: "CHR 0x00 \<notin> set (encoded e)" using f by (auto simp: follows_def)
  then have "CHR 0x00 \<notin> set ?t" unfolding enc by simp
  moreover have "styled x n (e\<lparr>enc_cur := Some (length ?t), enc_structs := pack (code_list ?ls)\<rparr>)"
    using s by (auto intro: styled_flags)
  moreover have "length ?ls \<le> 21" "level_depth ?ls \<le> 22" using len deep by simp_all
  ultimately have "follows x n k B ?D (e\<lparr>enc_cur := Some (length ?t), enc_structs := pack (code_list ?ls)\<rparr>)"
    using undone[of "pack (code_list ?ls)"] by (simp add: follows_def del: document_text.simps level_depth.simps code_list.simps)
  with cancel show ?thesis by blast
qed

definition example_cancel :: "json_call list" where
  "example_cancel = [ObjectStart None, AddInteger (Some ''a'') 1, ObjectStart (Some ''b''), AddBool (Some ''c'') True]"

lemma json_object_cancelled_witness:
  "\<exists>e0 rs e e' e''. app_json_encode_initialize None 0 2 (replicate 20 (4096, \<lambda>_. CHR ''x'')) = Some e0 \<and>
    run_encoder example_cancel e0 = Some (rs, e) \<and>
    app_json_encode_object_cancel e = Some (STATUS_SUCCESS, e') \<and>
    app_json_encode_dump e' = Some (Some ''{\"a\":1}'', e'')"
proof -
  have ok: "\<forall>c \<in> set example_cancel. call_ok c"
    by (simp add: example_cancel_def call_ok_def key_or_empty_def)
  have room: "enough None 0 2 (replicate 20 (4096, \<lambda>_. CHR ''x'')) (0 + 4 * length example_cancel)
      (0 + sum_list (map (call_cost 0) example_cancel))"
    by (simp add: example_cancel_def enough_def answers_def call_cost_def key_or_empty_def)
  have run: "snd (run_document example_cancel ([], [])) =
      ([], [(Some ''b'', Members [(''c'', JBool True)]), (None, Members [(''a'', JInteger 1)])])"
    by (simp add: example_cancel_def start_level_def add_item_def add_root_def wraps_def in_array_def
        JSON_MAX_DEPTH_def JSON_STRUCT_BITS_def)
  have two: "drop_bit 2 (2 :: u32) = of_nat 0" "((2 :: u32) AND APP_JSON_FLAG_EXPAND \<noteq> 0) = False"
    by (simp_all add: APP_JSON_FLAG_EXPAND_def)
  obtain e0 where e0: "app_json_encode_initialize None 0 2 (replicate 20 (4096, \<lambda>_. CHR ''x'')) = Some e0"
    "follows False 0 (0 + 4 * length example_cancel) (0 + sum_list (map (call_cost 0) example_cancel)) ([], []) e0"
    using initial_follows[OF room two(1)] two(2) by auto
  obtain e where e: "run_encoder example_cancel e0 = Some (fst (run_document example_cancel ([], [])), e)"
    "follows False 0 0 0 ([], [(Some ''b'', Members [(''c'', JBool True)]), (None, Members [(''a'', JInteger 1)])]) e"
    using run_follows[OF e0(2) ok] unfolding run by blast
  have plain: "braceless (member_texts False 0 (level_depth
      [(Some ''b'', Members [(''c'', JBool True)]), (None, Members [(''a'', JInteger 1)])])
      (Members [(''c'', JBool True)]))"
    by code_simp
  have apart: "[(''a'', JInteger 1)] \<noteq> []" "CHR '','' \<notin> set ''b''" "CHR ''{'' \<notin> set ''b''" "CHR ''['' \<notin> set ''b''"
    by simp_all
  obtain e' where e': "app_json_encode_object_cancel e = Some (STATUS_SUCCESS, e')"
    "follows False 0 0 0 ([], [(None, Members [(''a'', JInteger 1)])]) e'"
    using json_object_cancelled[OF e(2) apart(1) plain apart(2-4)] by blast
  have "document_output False 0 ([], [(None, Members [(''a'', JInteger 1)])]) = ''{\"a\":1}''"
    by code_simp
  then show ?thesis using e0(1) e(1) e'(1) dump_follows[OF e'(2)] by auto
qed

section \<open>Where the code falls short\<close>

text \<open>
  A buffer that took every call can be too small for the text: the closing brace and the null are
  written without a look at the room that is left.
\<close>

lemma json_dump_overflow:
  "do {
     e \<leftarrow> app_json_encode_initialize (Some (4096, replicate 48 (CHR ''x''))) 48 0 [];
     (rs, e) \<leftarrow> run_encoder [ObjectStart None, AddInteger (Some ''a'') 12] e;
     Some (rs, map_option fst (app_json_encode_dump e)) } = Some ([STATUS_SUCCESS, STATUS_SUCCESS], None)"
  by code_simp

text \<open>
  The numbers that C20 leaves out: an integer part below zero has no unsigned value, the smallest
  integer no negation, and a fraction between -1 and 0 begins with \<open>-0\<close> but is counted with one
  character for both.
\<close>

lemma json_real_undefined:
  assumes "fp_decode 52 11 (unat r) = FFin s m ex" and "fp_trunc (FFin s m ex) = Some i" and "i < 0"
  shows "app_json_encode_real e key r =
    (if key = None \<and> enc_structs e = 0 then Some (STATUS_BAD_REQUEST, e) else None)"
  using assms by (simp add: app_json_encode_real_def fp_to_int_def Let_def del: fp_trunc.simps)

lemma json_integer_undefined:
  "app_json_encode_integer e key (- (2 ^ 63)) =
    (if key = None \<and> enc_structs e = 0 then Some (STATUS_BAD_REQUEST, e) else None)"
  by (simp add: app_json_encode_integer_def Let_def)

lemma json_fraction_miscounted: "app_json_encode_intlen 0 True < length ''-0''"
  by code_simp

text \<open>Ending a level that finds no room says so, but the level is gone and its bracket is missing.\<close>

lemma json_end_without_bracket:
  "do {
     e \<leftarrow> app_json_encode_initialize (Some (4096, replicate 49 (CHR ''x''))) 49 0 [];
     (rs, e) \<leftarrow> run_encoder [ArrayStart None, AddInteger None 1234567, ArrayEnd] e;
     (s, e) \<leftarrow> app_json_encode_dump e;
     Some (rs, s) } = Some ([STATUS_SUCCESS, STATUS_SUCCESS, STATUS_NO_MEMORY], Some ''[1234567'')"
  by code_simp

text \<open>
  An object cancelled inside an array leaves its brace behind; one that is the first member of an
  object takes the brace of that object with it; and after a cancelled root
  everything that follows is accepted, but there is no text to hand out any more.
\<close>

lemma json_cancel_in_array:
  "do {
     e \<leftarrow> app_json_encode_initialize (Some (4096, replicate 200 (CHR ''x''))) 200 0 [];
     (rs, e) \<leftarrow> run_encoder [ArrayStart None, ObjectStart None] e;
     (r, e) \<leftarrow> app_json_encode_object_cancel e;
     (s, e) \<leftarrow> app_json_encode_dump e;
     Some (r, s) } = Some (STATUS_SUCCESS, Some ''[{]'')"
  by code_simp

lemma json_cancel_first_member:
  "do {
     e \<leftarrow> app_json_encode_initialize (Some (4096, replicate 200 (CHR ''x''))) 200 0 [];
     (rs, e) \<leftarrow> run_encoder [ObjectStart None, ObjectStart (Some ''a'')] e;
     (r, e) \<leftarrow> app_json_encode_object_cancel e;
     (s, e) \<leftarrow> app_json_encode_dump e;
     Some (r, s) } = Some (STATUS_SUCCESS, Some ''}'')"
  by code_simp

lemma json_cancel_root:
  "do {
     e \<leftarrow> app_json_encode_initialize (Some (4096, replicate 200 (CHR ''x''))) 200 0 [];
     (rs, e) \<leftarrow> run_encoder [ObjectStart None] e;
     (r, e) \<leftarrow> app_json_encode_object_cancel e;
     (rs, e) \<leftarrow> run_encoder [ObjectStart None, AddBool (Some ''a'') True, ObjectEnd] e;
     (s, e) \<leftarrow> app_json_encode_dump e;
     Some (r, rs, s) } = Some (STATUS_SUCCESS, [STATUS_SUCCESS, STATUS_SUCCESS, STATUS_SUCCESS], None)"
  by code_simp

end
