(* ===== verification/Spec2Isabelle.thy ===== *)
theory Spec2Isabelle
  imports Checksum Location Files Startup Arguments Encoded
begin

text \<open>
  A verification of the Wind River device cloud library (\<open>src/src\<close>): the client library that
  applications link to publish telemetry and alarms, to offer actions that the cloud can run, and to
  convert, copy and encode the values that go with them.

  \<^bold>\<open>The program.\<close> An application creates a client (\<open>iot_initialize\<close>), registers telemetry, alarms
  and actions with it and connects. Everything the library wants to tell the cloud is an operation that
  it hands to its plug-ins (\<open>iot_plugin_perform\<close>), each of which sees it before, at and after the
  step itself. What the cloud wants of the application arrives as an action request: a plug-in allocates
  one, fills in its parameters and queues it; a worker thread takes it, finds the action of its name,
  checks the parameters, runs the callback or the command of the action, and hands the outcome back to
  the plug-ins. Values are \<open>struct iot_data\<close>, a tagged union that may own memory; named values are
  kept in option maps; the configuration is one of them.

  \<^bold>\<open>The theories\<close>, in the order they build on each other:

  \<^item> \<open>Prelude\<close>: integers of the machine, status codes and their order, string comparison, moves
    inside an array, and the binary search all tables share.
  \<^item> \<open>Base64\<close> (\<open>iot_base64.c\<close>) and \<open>Checksum\<close> (\<open>checksum/\<close>): the codec, CRC-32 and its file loop.
  \<^item> \<open>Floats\<close>, \<open>Data\<close>, \<open>Convert\<close>, \<open>Common\<close> (\<open>iot_common.c\<close>, \<open>shared/iot_types.h\<close>): IEEE numbers as
    far as the conversions need them; the heap and \<open>struct iot_data\<close>; \<open>iot_common_data_convert\<close> and
    its check; reading, writing and copying a value.
  \<^item> \<open>Options\<close> (\<open>iot_option.c\<close>): the ordered table of named values, and the list of such maps.
  \<^item> \<open>Registry\<close>: the table of pointers that telemetry, alarms and actions have in common, the pool of
    objects behind it, and the locale of an ordered table with histories of adding and removing.
  \<^item> \<open>Plugin\<close> (\<open>iot_plugin.c\<close>) and \<open>Library\<close>: the plug-ins and the operations handed to them.
  \<^item> \<open>Alarm\<close>, \<open>Telemetry\<close>, \<open>Location\<close> (\<open>iot_alarm.c\<close>, \<open>iot_telemetry.c\<close>, \<open>iot_location.c\<close>).
  \<^item> \<open>Request\<close>, \<open>Queue\<close>, \<open>Action\<close>, \<open>Command\<close>, \<open>Process\<close> (all of \<open>iot_action.c\<close>): a request and its
    parameters; the pool of requests with its free stack and its waiting array; the table of actions;
    the command line of an action; the worker that runs a request.
  \<^item> \<open>Memory\<close>: what setting an option spends of the allocator and does to the table in each case, and
    what the operations do to the heap as a whole, for sequences of them.
  \<^item> \<open>Config\<close> and \<open>Client\<close> (\<open>iot_base.c\<close>): the configuration files and the options they set; the client,
    its initialisation, connection, loops, threads and termination. \<open>Terminate\<close> and \<open>Startup\<close> hold what is
    proved of them: what termination releases, what initialisation establishes, that the device id is
    stable, and when the main loop ends.
  \<^item> \<open>Files\<close> (\<open>iot_file.c\<close>, \<open>iot_attribute.c\<close>, \<open>iot_event.c\<close>): the transfer of files and directories, and
    what is handed to the plug-ins as it comes.
  \<^item> \<open>Arguments\<close> (\<open>src/src/utilities/app_arg.c\<close>): the command-line parser of the applications.
  \<^item> \<open>Encoder\<close>, \<open>Encoding\<close>, \<open>Encoded\<close> (\<open>src/src/utilities/app_json_encode.c\<close>, as it is built for the JSMN
    parser): the encoder that composes the text of JSON messages; the specification of its text as
    the rendering of a document, the room every call takes, and the stack of open levels in the bits
    of one integer; and what each call and every sequence of calls does to the document.

  \<^bold>\<open>How the model corresponds to the code.\<close> A definition has the name of the function it models; a
  function whose parts repeat, or whose loop is a function of its own here, is spread over several
  definitions, which the text before them says. A structure is a record with the code's fields. A
  function takes and returns the parts of the state it touches. Undefined behaviour of C (a read or
  write outside an object, a NULL or dangling pointer, a double release, a loop that does not end) is
  the value \<open>None\<close>; every status code is an ordinary value. Integers that wrap are words; sizes that
  cannot reach their bound are natural numbers. Values of \<open>struct iot_data\<close> live in a heap of
  addresses, so sharing and ownership are as in the code; names and arrays that are never shared are
  kept by value, and only whether their allocation succeeds is modelled. \<open>allocator\<close> lists the answers
  to the coming allocations, so a run of the model is a run of the code for one behaviour of \<open>malloc\<close>.
  The memory of the callbacks, of the plug-ins and of the operating system is an abstract world \<open>'s\<close>.
  Where the code holds a mutex for a whole access, what threads do is a sequence of the model's steps
  (the runs of \<open>Registry\<close> and \<open>Queue\<close>).

  The build that is modelled is the default one: the heap is used (\<open>IOT_STACK_ONLY\<close> is off), threads are
  supported, 64-bit pointers, little-endian; the limits are those of \<open>build.yml\<close>: 255 actions, alarms
  and telemetry of which 3 are on the stack, 10 queued requests, 20 options, 7 parameters, 5 plug-ins,
  5 worker threads, names of 128 characters, paths of 4096.

  \<^bold>\<open>Interfaces.\<close> \<open>ordered_table\<close> (in \<open>Registry\<close>) is the contract of every table: what adding and
  removing do to its elements, that it stays ordered and bounded. It is interpreted on the enabled
  plug-ins, alarms, telemetry and actions, which gives each its history property. \<open>bounded_fifo\<close> (in
  \<open>Queue\<close>) is the contract of the array of waiting requests, interpreted on \<open>wait_put\<close> and \<open>wait_get\<close>. It
  has a limit: taking a request moves the others up with \<open>os_memcpy\<close>, whose areas overlap as soon as
  three wait. Of the copy only what is documented for areas that do not overlap is used
  (\<open>copies_disjoint\<close>), so the properties of requests are for runs in which at most two wait whenever
  one is taken (\<open>few_waiting\<close>); a property shows that with more a request can be lost.

  \<^bold>\<open>What the lemmas show.\<close> Every table is well formed after every sequence of its operations, and what it
  holds is what the history of the operations says. The codec round-trips, and on a buffer padded to
  whole blocks its decoder stays inside; CRC-32 is division by the polynomial. A conversion between
  integer types succeeds, below the advanced level, exactly when the number fits, and keeps it, but for
  the 32-bit types converted to INT64, which the code swaps; a real becomes an integer when it is whole
  and fits; for targets other than RAW the check foretells the conversion; a copy is deep. The option
  maps refine finite maps, and loading the configuration refines setting its entries one by one. A
  file transfer hands the plug-ins an absolute path and a name without separators, and the archive of a
  directory holds the files in front of the first one that does not open, which are all when they all
  do. Requests form a partition of their pool, are taken in order and released once, within the limit
  above; an action runs only on a request that passed every check, and the worker reports the result of
  that run once. A command line fits its buffer, whatever the parameters. An initialised client has
  empty tables and a device id that later runs find again; terminating a client ends and releases what
  it owns. What the JSON encoder hands out is the rendering of the document the calls describe, in
  whatever order they come and with keys where they belong or not, for the calls it is up to
  (\<open>call_ok\<close>: no null characters, no negative real numbers, not the smallest integer, for which the code
  is undefined or counts wrongly), and a string in it reads back as it was. Cancelling an object that is
  a later member of another object, and has no braces in its content, leaves the document without it;
  elsewhere the code cancels wrongly. Where the code does not do what its documentation says, a property
  states what it does.

  \<^bold>\<open>Bounds and fuel.\<close> Nothing is cut off by fuel. A loop that may not end in the code is a least fixed
  point over \<open>option\<close> (\<open>partial_function\<close>), and where it is used it is proved to return; the binary
  searches, the scans and the reading of a file are functions with a termination proof. \<open>ample\<close> states how
  many allocations must succeed for a result that has no failures in it. The JSON encoder checks the
  room in front of every item but not, as it says, that of the closing brackets: \<open>enough\<close> states how
  large its buffer must be for the calls to come (\<open>call_cost\<close> for each), or that a growing one is
  always given memory. Indentations are below \<open>2 ^ 16\<close>, so that the 32-bit products of the code
  do not wrap.

  \<^bold>\<open>Not modelled.\<close> Logging and \<open>printf\<close> output; the mutexes themselves; \<open>iot_mqtt.c\<close> and the
  \<open>tr50\<close> plug-in (they hand data to an external MQTT, HTTP or JSON library); of the
  JSON layer the decoders and the schema, which wrap an external parser that is a parameter here, the
  branches of the encoder for other JSON libraries, its test for a null encoder and its release;
  the applications (device manager, relay, control, update) but for their command line; the build system.
\<close>

end
